(* ===== verification/Os161_Prelude.thy ===== *)
theory Os161_Prelude
  imports Main "HOL-Library.Word" "HOL-Library.Code_Target_Numeral"
begin

text \<open>
  Shared vocabulary of the development: the kernel's error codes (\<open>kern/errno.h\<close>), the
  outcome of a kernel function, the state-passing functions that model C functions with
  their weakest preconditions, byte memory, and the list facts the components share.
\<close>

unbundle bit_operations_syntax

named_theorems wp_intro \<open>specifications of kernel functions, as introduction rules for wp\<close>

subsection \<open>Machine-level types\<close>

type_synonym byte = "8 word"
type_synonym u32w = "32 word"
type_synonym u64w = "64 word"

text \<open>Unsigned 32-bit arithmetic on \<open>nat\<close>: the wrap-around is written out.\<close>

definition u32 :: "nat \<Rightarrow> nat" where
  "u32 x = x mod 2 ^ 32"

text \<open>Conversion of a signed value to \<open>uint32_t\<close>.\<close>

definition u32_of_int :: "int \<Rightarrow> nat" where
  "u32_of_int x = nat (x mod 2 ^ 32)"

definition divroundup :: "nat \<Rightarrow> nat \<Rightarrow> nat" where
  "divroundup a b = u32 (a + b - 1) div b"

lemma u32_less [simp]: "u32 x < 2 ^ 32"
  by (simp add: u32_def)

lemma u32_id [simp]: "x < 2 ^ 32 \<Longrightarrow> u32 x = x"
  by (simp add: u32_def)

lemma u32_of_int_nat [simp]: "n < 2 ^ 32 \<Longrightarrow> u32_of_int (int n) = n"
  by (simp add: u32_of_int_def)

lemma u32_sub:
  assumes "k \<le> r" "r < 2 ^ 32"
  shows "u32 (r + 2 ^ 32 - k) = r - k"
proof -
  have "r + 2 ^ 32 - k = (r - k) + 2 ^ 32" using assms(1) by (rule diff_add_assoc2)
  moreover have "r - k < 2 ^ 32" using assms(2) by (rule less_imp_diff_less)
  ultimately show ?thesis by (simp only: u32_def mod_add_self2 mod_less)
qed

subsection \<open>Error codes\<close>

text \<open>The codes of \<open>kern/errno.h\<close> that the kernel's C sources return.\<close>

datatype errno =
    ENOSYS | ENOMEM | EAGAIN | EFAULT | ENAMETOOLONG | EINVAL | EPERM | ENOEXEC | E2BIG
  | ENOTDIR | EISDIR | ENOENT | ENOTEMPTY | EEXIST | EXDEV | ENODEV | ENXIO | EBUSY | ENFILE
  | EIOCTL | EIO | ESPIPE | ENOSPC | EFBIG

subsection \<open>Outcomes and kernel functions\<close>

text \<open>
  A C function that returns an \<open>int\<close> error code and hands results back through
  pointers yields \<open>Ok\<close> with the results where the code is 0 and \<open>Err\<close> with the code
  otherwise. \<open>Panic\<close> stands for \<open>panic()\<close>, for a failed \<open>KASSERT\<close> and for an access
  outside an object; \<open>Hang\<close> for a call that never returns. The state reached is part of
  the result in every case, since error paths keep the changes made before the error.
\<close>

datatype 'a outcome = Ok 'a | Err errno | Panic | Hang

type_synonym ('s, 'a) kfun = "'s \<Rightarrow> 'a outcome \<times> 's"

definition kret :: "'a \<Rightarrow> ('s, 'a) kfun" where
  "kret x = (\<lambda>s. (Ok x, s))"

definition kfail :: "errno \<Rightarrow> ('s, 'a) kfun" where
  "kfail e = (\<lambda>s. (Err e, s))"

definition kpanic :: "('s, 'a) kfun" where
  "kpanic = (\<lambda>s. (Panic, s))"

definition khang :: "('s, 'a) kfun" where
  "khang = (\<lambda>s. (Hang, s))"

definition kbind :: "('s, 'a) kfun \<Rightarrow> ('a \<Rightarrow> ('s, 'b) kfun) \<Rightarrow> ('s, 'b) kfun" where
  "kbind m k = (\<lambda>s. case m s of
      (Ok x, s') \<Rightarrow> k x s'
    | (Err e, s') \<Rightarrow> (Err e, s')
    | (Panic, s') \<Rightarrow> (Panic, s')
    | (Hang, s') \<Rightarrow> (Hang, s'))"

definition kthen :: "('s, 'a) kfun \<Rightarrow> ('s, 'b) kfun \<Rightarrow> ('s, 'b) kfun" where
  "kthen m k = kbind m (\<lambda>_. k)"

text \<open>
  The C idiom \<open>result = f(...);\<close> followed by a test of \<open>result\<close>: the error code becomes
  a value.
\<close>

definition ktry :: "('s, 'a) kfun \<Rightarrow> ('s, errno + 'a) kfun" where
  "ktry m = (\<lambda>s. case m s of
      (Ok x, s') \<Rightarrow> (Ok (Inr x), s')
    | (Err e, s') \<Rightarrow> (Ok (Inl e), s')
    | (Panic, s') \<Rightarrow> (Panic, s')
    | (Hang, s') \<Rightarrow> (Hang, s'))"

definition kget :: "('s \<Rightarrow> 'a) \<Rightarrow> ('s, 'a) kfun" where
  "kget f = (\<lambda>s. (Ok (f s), s))"

definition kmod :: "('s \<Rightarrow> 's) \<Rightarrow> ('s, unit) kfun" where
  "kmod f = (\<lambda>s. (Ok (), f s))"

definition kassert :: "('s \<Rightarrow> bool) \<Rightarrow> ('s, unit) kfun" where
  "kassert p = (\<lambda>s. if p s then (Ok (), s) else (Panic, s))"

definition kwhen :: "bool \<Rightarrow> ('s, unit) kfun \<Rightarrow> ('s, unit) kfun" where
  "kwhen b m = (if b then m else kret ())"

text \<open>A function on a part of the state, run inside the whole.\<close>

definition kzoom :: "('s \<Rightarrow> 't) \<Rightarrow> ('t \<Rightarrow> 's \<Rightarrow> 's) \<Rightarrow> ('t, 'a) kfun \<Rightarrow> ('s, 'a) kfun" where
  "kzoom g p m = (\<lambda>s. case m (g s) of (r, t) \<Rightarrow> (r, p t s))"

text \<open>Access through a pointer; there is a panic when no live object is there.\<close>

definition kderef :: "('s \<Rightarrow> 't option) \<Rightarrow> ('t \<Rightarrow> 's \<Rightarrow> 's) \<Rightarrow> ('t, 'a) kfun \<Rightarrow> ('s, 'a) kfun" where
  "kderef g p m = (\<lambda>s. case g s of
      None \<Rightarrow> (Panic, s)
    | Some v \<Rightarrow> (case m v of (r, v') \<Rightarrow> (r, p v' s)))"

text \<open>A local variable: \<open>m\<close> runs on the state and on a variable that starts as \<open>t\<close>.\<close>

definition klocal :: "'t \<Rightarrow> ('s \<times> 't, 'a) kfun \<Rightarrow> ('s, 'a \<times> 't) kfun" where
  "klocal t m = (\<lambda>s. case m (s, t) of
      (Ok x, (s', t')) \<Rightarrow> (Ok (x, t'), s')
    | (Err e, (s', t')) \<Rightarrow> (Err e, s')
    | (Panic, (s', t')) \<Rightarrow> (Panic, s')
    | (Hang, (s', t')) \<Rightarrow> (Hang, s'))"

text \<open>A pointer that must not be null.\<close>

definition knonnull :: "'a option \<Rightarrow> ('s, 'a) kfun" where
  "knonnull p = (case p of None \<Rightarrow> kpanic | Some x \<Rightarrow> kret x)"

text \<open>
  A C loop with a loop variable: the body hands on the next value of the variable (\<open>Inl\<close>) or
  leaves the loop with a result (\<open>Inr\<close>). A loop that is never left is a \<open>Hang\<close>.
\<close>

partial_function (option) kloop_run ::
    "('a \<Rightarrow> ('s, 'a + 'b) kfun) \<Rightarrow> 'a \<Rightarrow> 's \<Rightarrow> ('b outcome \<times> 's) option" where
  "kloop_run body x s = (case body x s of
      (Ok (Inl y), s') \<Rightarrow> kloop_run body y s'
    | (Ok (Inr z), s') \<Rightarrow> Some (Ok z, s')
    | (Err e, s') \<Rightarrow> Some (Err e, s')
    | (Panic, s') \<Rightarrow> Some (Panic, s')
    | (Hang, s') \<Rightarrow> Some (Hang, s'))"

definition kloop :: "('a \<Rightarrow> ('s, 'a + 'b) kfun) \<Rightarrow> 'a \<Rightarrow> ('s, 'b) kfun" where
  "kloop body x = (\<lambda>s. case kloop_run body x s of Some r \<Rightarrow> r | None \<Rightarrow> (Hang, s))"

lemmas kfun_defs = kret_def kfail_def kpanic_def khang_def kbind_def kthen_def ktry_def
  kget_def kmod_def kassert_def kwhen_def kzoom_def kderef_def klocal_def

subsection \<open>Weakest preconditions\<close>

text \<open>
  \<open>wp m Q E s\<close>: run from \<open>s\<close>, \<open>m\<close> returns, without a panic; on success the result and
  the state satisfy \<open>Q\<close>, on an error the code and the state satisfy \<open>E\<close>. Every
  function of the model is total, so this is total correctness.
\<close>

definition wp :: "('s, 'a) kfun \<Rightarrow> ('a \<Rightarrow> 's \<Rightarrow> bool) \<Rightarrow> (errno \<Rightarrow> 's \<Rightarrow> bool) \<Rightarrow> 's \<Rightarrow> bool" where
  "wp m Q E s = (case m s of
      (Ok x, s') \<Rightarrow> Q x s'
    | (Err e, s') \<Rightarrow> E e s'
    | (Panic, _) \<Rightarrow> False
    | (Hang, _) \<Rightarrow> False)"

lemma wp_kret [simp]: "wp (kret x) Q E = Q x"
  by (rule ext) (simp add: wp_def kret_def)

lemma wp_kfail [simp]: "wp (kfail e) Q E = E e"
  by (rule ext) (simp add: wp_def kfail_def)

lemma wp_kpanic [simp]: "wp kpanic Q E = (\<lambda>_. False)"
  by (rule ext) (simp add: wp_def kpanic_def)

lemma wp_khang [simp]: "wp khang Q E = (\<lambda>_. False)"
  by (rule ext) (simp add: wp_def khang_def)

lemma wp_kbind [simp]: "wp (kbind m k) Q E = wp m (\<lambda>x. wp (k x) Q E) E"
  by (rule ext) (auto simp: wp_def kbind_def split: prod.splits outcome.splits)

lemma wp_kthen [simp]: "wp (kthen m k) Q E = wp m (\<lambda>_. wp k Q E) E"
  by (simp add: kthen_def)

lemma wp_ktry [simp]: "wp (ktry m) Q E = wp m (\<lambda>x. Q (Inr x)) (\<lambda>e. Q (Inl e))"
  by (rule ext) (auto simp: wp_def ktry_def split: prod.splits outcome.splits)

lemma wp_kget [simp]: "wp (kget f) Q E = (\<lambda>s. Q (f s) s)"
  by (rule ext) (simp add: wp_def kget_def)

lemma wp_kmod [simp]: "wp (kmod f) Q E = (\<lambda>s. Q () (f s))"
  by (rule ext) (simp add: wp_def kmod_def)

lemma wp_kassert [simp]: "wp (kassert p) Q E = (\<lambda>s. p s \<and> Q () s)"
  by (rule ext) (simp add: wp_def kassert_def)

lemma wp_kwhen [simp]: "wp (kwhen b m) Q E = (if b then wp m Q E else Q ())"
  by (simp add: kwhen_def)

lemma wp_kzoom [simp]:
  "wp (kzoom g p m) Q E = (\<lambda>s. wp m (\<lambda>x t. Q x (p t s)) (\<lambda>e t. E e (p t s)) (g s))"
  by (rule ext) (auto simp: wp_def kzoom_def split: prod.splits outcome.splits)

lemma wp_kderef [simp]:
  "wp (kderef g p m) Q E = (\<lambda>s. case g s of
      None \<Rightarrow> False
    | Some v \<Rightarrow> wp m (\<lambda>x t. Q x (p t s)) (\<lambda>e t. E e (p t s)) v)"
  by (rule ext) (auto simp: wp_def kderef_def split: prod.splits outcome.splits option.splits)

lemma wp_klocal [simp]:
  "wp (klocal t m) Q E =
     (\<lambda>s. wp m (\<lambda>x (s', t'). Q (x, t') s') (\<lambda>e (s', t'). E e s') (s, t))"
  by (rule ext) (auto simp: wp_def klocal_def split: prod.splits outcome.splits)

lemma wp_if [simp]: "wp (if b then m else m') Q E = (if b then wp m Q E else wp m' Q E)"
  by simp

lemma wp_conseq:
  assumes "wp m Q E s"
    and "\<And>x t. Q x t \<Longrightarrow> Q' x t" and "\<And>e t. E e t \<Longrightarrow> E' e t"
  shows "wp m Q' E' s"
  using assms by (auto simp: wp_def split: prod.splits outcome.splits)

lemma wp_conj:
  assumes "wp m Q E s" and "wp m Q' E' s"
  shows "wp m (\<lambda>x t. Q x t \<and> Q' x t) (\<lambda>e t. E e t \<and> E' e t) s"
  using assms by (auto simp: wp_def split: prod.splits outcome.splits)

lemma wp_Ok: "wp m Q E s \<Longrightarrow> m s = (Ok x, t) \<Longrightarrow> Q x t"
  by (simp add: wp_def)

lemma wp_Err: "wp m Q E s \<Longrightarrow> m s = (Err e, t) \<Longrightarrow> E e t"
  by (simp add: wp_def)

lemma wp_no_panic: "wp m Q E s \<Longrightarrow> fst (m s) \<noteq> Panic \<and> fst (m s) \<noteq> Hang"
  by (auto simp: wp_def split: prod.splits outcome.splits)

lemma wp_run:
  assumes "wp m Q E s"
  obtains (Ok) x t where "m s = (Ok x, t)" "Q x t"
  | (Err) e t where "m s = (Err e, t)" "E e t"
  using assms by (auto simp: wp_def split: prod.splits outcome.splits)

lemma wp_knonnull [simp]: "wp (knonnull p) Q E = (\<lambda>s. case p of None \<Rightarrow> False | Some x \<Rightarrow> Q x s)"
  by (auto simp: knonnull_def fun_eq_iff split: option.splits)

text \<open>The loop rule: an invariant with a variant that every round makes smaller.\<close>

lemma wp_kloop:
  assumes "I (n :: nat) x s"
    and step: "\<And>n x s. I n x s \<Longrightarrow>
      wp (body x) (\<lambda>r s'. case r of Inl y \<Rightarrow> \<exists>m < n. I m y s' | Inr z \<Rightarrow> Q z s') E s"
  shows "wp (kloop body x) Q E s"
proof -
  have "\<exists>r. kloop_run body x s = Some r \<and> (case r of (Ok z, s') \<Rightarrow> Q z s' | (Err e, s') \<Rightarrow> E e s' | _ \<Rightarrow> False)"
    using assms(1)
  proof (induction n arbitrary: x s rule: less_induct)
    case (less n)
    from step [OF less.prems] show ?case
    proof (cases rule: wp_run)
      case (Ok r t)
      show ?thesis
      proof (cases r)
        case (Inl y)
        then obtain m where "m < n" "I m y t" using Ok(2) by auto
        from less.IH [OF this] show ?thesis by (simp add: kloop_run.simps [of body x s] Ok(1) Inl)
      next
        case (Inr z)
        then show ?thesis using Ok by (simp add: kloop_run.simps [of body x s])
      qed
    next
      case (Err e t)
      then show ?thesis by (auto simp: kloop_run.simps [of body x s])
    qed
  qed
  then obtain a t where "kloop_run body x s = Some (a, t)"
      "case a of Ok z \<Rightarrow> Q z t | Err e \<Rightarrow> E e t | _ \<Rightarrow> False"
    by (auto split: prod.splits)
  then show ?thesis by (cases a) (simp_all add: wp_def kloop_def)
qed

subsection \<open>Sequences of calls\<close>

text \<open>
  The states a component goes through: calls \<open>c\<close>, each made in a state that allows it, one after
  the other, with whatever outcome. The interface below is the contract of such a component: in a
  state of the invariant every allowed call returns, and the invariant holds again.
\<close>

inductive runs :: "('s \<Rightarrow> 'c \<Rightarrow> bool) \<Rightarrow> ('c \<Rightarrow> ('s, 'a) kfun) \<Rightarrow> 's \<Rightarrow> 's \<Rightarrow> bool" for allow exec s where
  start: "runs allow exec s s"
| call: "runs allow exec s t \<Longrightarrow> allow t c \<Longrightarrow> exec c t = (r, u) \<Longrightarrow> runs allow exec s u"

locale safe_calls =
  fixes allow :: "'s \<Rightarrow> 'c \<Rightarrow> bool" and exec :: "'c \<Rightarrow> ('s, 'a) kfun" and inv :: "'s \<Rightarrow> bool"
  assumes safe: "inv s \<Longrightarrow> allow s c \<Longrightarrow> wp (exec c) (\<lambda>_. inv) (\<lambda>_. inv) s"
begin

lemma runs_inv: "runs allow exec s t \<Longrightarrow> inv s \<Longrightarrow> inv t"
proof (induction rule: runs.induct)
  case (call t c r u)
  from safe [OF call.IH [OF call.prems] call.hyps(2)] show ?case
    using call.hyps(3) by (cases rule: wp_run) auto
qed

lemma runs_return: "runs allow exec s t \<Longrightarrow> inv s \<Longrightarrow> allow t c \<Longrightarrow> fst (exec c t) \<noteq> Panic \<and> fst (exec c t) \<noteq> Hang"
  using wp_no_panic [OF safe [OF runs_inv]] .

end

subsection \<open>Arithmetic and quantifiers\<close>

lemma all_from: "(\<forall>j\<ge>i. Q j) \<longleftrightarrow> Q i \<and> (\<forall>j\<ge>Suc i. Q j)"
  by (metis Suc_leD Suc_leI le_eq_less_or_eq order_refl)

subsection \<open>Byte memory\<close>

type_synonym memory = "nat \<Rightarrow> byte"

definition mem_read :: "memory \<Rightarrow> nat \<Rightarrow> nat \<Rightarrow> byte list" where
  "mem_read m a n = map m [a ..< a + n]"

definition mem_write :: "memory \<Rightarrow> nat \<Rightarrow> byte list \<Rightarrow> memory" where
  "mem_write m a bs = (\<lambda>x. if a \<le> x \<and> x < a + length bs then bs ! (x - a) else m x)"

lemma length_mem_read [simp]: "length (mem_read m a n) = n"
  by (simp add: mem_read_def)

lemma nth_mem_read [simp]: "i < n \<Longrightarrow> mem_read m a n ! i = m (a + i)"
  by (simp add: mem_read_def)

lemma mem_read_0 [simp]: "mem_read m a 0 = []"
  by (simp add: mem_read_def)

lemma mem_write_Nil [simp]: "mem_write m a [] = m"
  by (rule ext) (auto simp: mem_write_def)

lemma mem_read_write [simp]: "n = length bs \<Longrightarrow> mem_read (mem_write m a bs) a n = bs"
  by (rule nth_equalityI) (auto simp: mem_write_def)

lemma mem_read_append: "mem_read m a (j + k) = mem_read m a j @ mem_read m (a + j) k"
  by (rule nth_equalityI) (auto simp: nth_append)

lemma mem_write_append:
  "mem_write (mem_write m a xs) (a + length xs) ys = mem_write m a (xs @ ys)"
  by (rule ext) (auto simp: mem_write_def nth_append)

lemma mem_write_other: "x < a \<or> a + length bs \<le> x \<Longrightarrow> mem_write m a bs x = m x"
  by (auto simp: mem_write_def)

lemma mem_read_cong: "(\<And>x. a \<le> x \<Longrightarrow> x < a + n \<Longrightarrow> m x = m' x) \<Longrightarrow> mem_read m a n = mem_read m' a n"
  by (auto simp: mem_read_def)

text \<open>Storing bytes at a list of addresses, first to last.\<close>

definition mem_put :: "memory \<Rightarrow> nat list \<Rightarrow> byte list \<Rightarrow> memory" where
  "mem_put m as bs = fold (\<lambda>(a, b) m. m(a := b)) (zip as bs) m"

lemma mem_put_Nil [simp]: "mem_put m [] bs = m" "mem_put m as [] = m"
  by (simp_all add: mem_put_def)

lemma mem_put_Cons [simp]: "mem_put m (a # as) (b # bs) = mem_put (m(a := b)) as bs"
  by (simp add: mem_put_def)

lemma mem_put_append:
  "length as = length bs \<Longrightarrow> mem_put (mem_put m as bs) as' bs' = mem_put m (as @ as') (bs @ bs')"
  by (simp add: mem_put_def)

lemma mem_write_Cons: "mem_write m a (b # bs) = mem_write (m(a := b)) (Suc a) bs"
  by (rule ext) (auto simp: mem_write_def nth_Cons' Suc_le_eq)

lemma mem_write_put: "mem_write m a bs = mem_put m [a ..< a + length bs] bs"
proof (induction bs arbitrary: a m)
  case (Cons b bs)
  have "[a ..< a + length (b # bs)] = a # [Suc a ..< Suc a + length bs]" by (subst upt_rec) simp
  then show ?case by (simp only: mem_put_Cons mem_write_Cons Cons.IH)
qed simp

lemma mem_read_map: "mem_read m a n = map m [a ..< a + n]"
  by (simp add: mem_read_def)

lemma mem_put_other: "x \<notin> set as \<Longrightarrow> mem_put m as bs x = m x"
proof (induction as arbitrary: m bs)
  case (Cons a as)
  then show ?case by (cases bs) auto
qed simp

lemma map_mem_put: "distinct as \<Longrightarrow> length as = length bs \<Longrightarrow> map (mem_put m as bs) as = bs"
proof (induction as arbitrary: m bs)
  case (Cons a as)
  then obtain b bs' where "bs = b # bs'" by (cases bs) auto
  with Cons show ?case by (simp add: mem_put_other)
qed simp

subsection \<open>Splicing a list at an offset (memcpy into a buffer)\<close>

definition splice_at :: "nat \<Rightarrow> 'a list \<Rightarrow> 'a list \<Rightarrow> 'a list" where
  "splice_at off new xs = take off xs @ new @ drop (off + length new) xs"

lemma length_splice_at [simp]:
  "off + length new \<le> length xs \<Longrightarrow> length (splice_at off new xs) = length xs"
  by (simp add: splice_at_def)

lemma nth_splice_at:
  assumes "off + length new \<le> length xs" "i < length xs"
  shows "splice_at off new xs ! i =
    (if off \<le> i \<and> i < off + length new then new ! (i - off) else xs ! i)"
  using assms by (auto simp: splice_at_def nth_append min_def)

lemma take_drop_splice_at [simp]:
  "off + length new \<le> length xs \<Longrightarrow> take (length new) (drop off (splice_at off new xs)) = new"
  by (simp add: splice_at_def)

lemma splice_at_0 [simp]: "length new = length xs \<Longrightarrow> splice_at 0 new xs = new"
  by (simp add: splice_at_def)

lemma splice_at_Nil [simp]: "splice_at off [] xs = xs"
  by (simp add: splice_at_def)

lemma splice_at_append:
  assumes "off + length xs + length ys \<le> length zs"
  shows "splice_at (off + length xs) ys (splice_at off xs zs) = splice_at off (xs @ ys) zs"
proof (rule nth_equalityI)
  show len: "length (splice_at (off + length xs) ys (splice_at off xs zs)) = length (splice_at off (xs @ ys) zs)"
    using assms by simp
  fix i assume "i < length (splice_at (off + length xs) ys (splice_at off xs zs))"
  then have "i < length zs" using assms by simp
  then show "splice_at (off + length xs) ys (splice_at off xs zs) ! i = splice_at off (xs @ ys) zs ! i"
    using assms by (auto simp: nth_splice_at nth_append diff_diff_left)
qed

lemma take_splice_remove:
  assumes "i < n" "n \<le> length xs"
  shows "take (n - 1) (splice_at i (take (n - (i + 1)) (drop (i + 1) xs)) xs) =
    take i (take n xs) @ drop (i + 1) (take n xs)"
proof -
  let ?new = "take (n - (i + 1)) (drop (i + 1) xs)"
  have "n - 1 = length (take i xs @ ?new)" using assms by simp
  then have "take (n - 1) ((take i xs @ ?new) @ drop (i + length ?new) xs) = take i xs @ ?new"
    by (metis append_eq_conv_conj)
  then show ?thesis using assms by (simp add: splice_at_def drop_take min_def)
qed

end
