(* ===== verification/Libc_String.thy ===== *)
theory Libc_String
  imports Os161_Prelude "HOL-Library.List_Lexorder"
begin

text \<open>
  The string functions shared by libc and the kernel, \<open>common/libc/string/*.c\<close>, and \<open>atoi\<close>
  (\<open>common/libc/stdlib/atoi.c\<close>), over byte memory; addresses do not wrap around. A scan that
  never meets the end of its string does not return, which is the result \<open>None\<close>.
\<close>

subsection \<open>Model\<close>

text \<open>The index loop of \<open>strlen\<close>.\<close>

partial_function (option) strlen_loop :: "memory \<Rightarrow> nat \<Rightarrow> nat \<Rightarrow> nat option" where
  "strlen_loop m str ret = (if m (str + ret) \<noteq> 0 then strlen_loop m str (ret + 1) else Some ret)"

definition strlen :: "memory \<Rightarrow> nat \<Rightarrow> nat option" where
  "strlen m str = strlen_loop m str 0"

partial_function (option) strcmp_loop :: "memory \<Rightarrow> nat \<Rightarrow> nat \<Rightarrow> nat \<Rightarrow> nat option" where
  "strcmp_loop m a b i =
     (if m (a + i) \<noteq> 0 \<and> m (a + i) = m (b + i) then strcmp_loop m a b (i + 1) else Some i)"

definition strcmp :: "memory \<Rightarrow> nat \<Rightarrow> nat \<Rightarrow> int option" where
  "strcmp m a b =
     (case strcmp_loop m a b 0 of
        None \<Rightarrow> None
      | Some i \<Rightarrow> Some (if m (a + i) > m (b + i) then 1 else if m (a + i) = m (b + i) then 0 else -1))"

partial_function (option) strcpy_loop :: "memory \<Rightarrow> nat \<Rightarrow> nat \<Rightarrow> nat \<Rightarrow> (memory \<times> nat) option" where
  "strcpy_loop m dest src i =
     (if m (src + i) \<noteq> 0 then strcpy_loop (m(dest + i := m (src + i))) dest src (i + 1) else Some (m, i))"

definition strcpy :: "memory \<Rightarrow> nat \<Rightarrow> nat \<Rightarrow> memory option" where
  "strcpy m dest src =
     (case strcpy_loop m dest src 0 of
        None \<Rightarrow> None
      | Some (m', i) \<Rightarrow> Some (m'(dest + i := 0)))"

definition strcat :: "memory \<Rightarrow> nat \<Rightarrow> nat \<Rightarrow> memory option" where
  "strcat m dest src =
     (case strlen m dest of None \<Rightarrow> None | Some offset \<Rightarrow> strcpy m (dest + offset) src)"

text \<open>Of the pointer results, \<open>None\<close> inside is the null pointer.\<close>

partial_function (option) strchr :: "memory \<Rightarrow> nat \<Rightarrow> byte \<Rightarrow> nat option option" where
  "strchr m s ch =
     (if m s \<noteq> 0 then if m s = ch then Some (Some s) else strchr m (s + 1) ch
      else if m s = ch then Some (Some s)
      else Some None)"

fun strrchr_loop :: "memory \<Rightarrow> nat \<Rightarrow> byte \<Rightarrow> nat \<Rightarrow> nat option" where
  "strrchr_loop m s ch 0 = None"
| "strrchr_loop m s ch (Suc i) = (if m (s + i) = ch then Some (s + i) else strrchr_loop m s ch i)"

definition strrchr :: "memory \<Rightarrow> nat \<Rightarrow> byte \<Rightarrow> nat option option" where
  "strrchr m s ch = (case strlen m s of None \<Rightarrow> None | Some n \<Rightarrow> Some (strrchr_loop m s ch (n + 1)))"

text \<open>
  The copying functions, by bytes or by words: \<open>w\<close> is the size of the unit, and a unit is
  read before it is written. A \<open>long\<close> has four bytes.
\<close>

fun copy_up :: "nat \<Rightarrow> memory \<Rightarrow> nat \<Rightarrow> nat \<Rightarrow> nat \<Rightarrow> nat \<Rightarrow> memory" where
  "copy_up w m d s i 0 = m"
| "copy_up w m d s i (Suc k) = copy_up w (mem_write m (d + w * i) (mem_read m (s + w * i) w)) d s (i + 1) k"

fun copy_down :: "nat \<Rightarrow> memory \<Rightarrow> nat \<Rightarrow> nat \<Rightarrow> nat \<Rightarrow> memory" where
  "copy_down w m d s 0 = m"
| "copy_down w m d s (Suc i) = copy_down w (mem_write m (d + w * i) (mem_read m (s + w * i) w)) d s i"

definition memcpy :: "memory \<Rightarrow> nat \<Rightarrow> nat \<Rightarrow> nat \<Rightarrow> memory" where
  "memcpy m dst src len =
     (if dst mod 4 = 0 \<and> src mod 4 = 0 \<and> len mod 4 = 0 then copy_up 4 m dst src 0 (len div 4)
      else copy_up 1 m dst src 0 len)"

definition memmove :: "memory \<Rightarrow> nat \<Rightarrow> nat \<Rightarrow> nat \<Rightarrow> memory" where
  "memmove m dst src len =
     (if dst < src then memcpy m dst src len
      else if dst mod 4 = 0 \<and> src mod 4 = 0 \<and> len mod 4 = 0 then copy_down 4 m dst src (len div 4)
      else copy_down 1 m dst src len)"

fun fill :: "nat \<Rightarrow> memory \<Rightarrow> nat \<Rightarrow> byte \<Rightarrow> nat \<Rightarrow> nat \<Rightarrow> memory" where
  "fill w m p ch i 0 = m"
| "fill w m p ch i (Suc k) = fill w (mem_write m (p + w * i) (replicate w ch)) p ch (i + 1) k"

definition memset :: "memory \<Rightarrow> nat \<Rightarrow> byte \<Rightarrow> nat \<Rightarrow> memory" where
  "memset m ptr ch len = fill 1 m ptr ch 0 len"

definition bzero :: "memory \<Rightarrow> nat \<Rightarrow> nat \<Rightarrow> memory" where
  "bzero m vblock len =
     (if vblock mod 4 = 0 \<and> len mod 4 = 0 then fill 4 m vblock 0 0 (len div 4)
      else fill 1 m vblock 0 0 len)"

text \<open>The two scans of \<open>strtok_r\<close>: over separators, and over a word.\<close>

partial_function (option) strtok_skip :: "memory \<Rightarrow> nat \<Rightarrow> nat \<Rightarrow> nat option" where
  "strtok_skip m seps head =
     (if m head = 0 then Some head
      else case strchr m seps (m head) of
        None \<Rightarrow> None
      | Some None \<Rightarrow> Some head
      | Some (Some _) \<Rightarrow> strtok_skip m seps (head + 1))"

partial_function (option) strtok_word :: "memory \<Rightarrow> nat \<Rightarrow> nat \<Rightarrow> nat option" where
  "strtok_word m seps tail =
     (if m tail = 0 then Some tail
      else case strchr m seps (m tail) of
        None \<Rightarrow> None
      | Some (Some _) \<Rightarrow> Some tail
      | Some None \<Rightarrow> strtok_word m seps (tail + 1))"

text \<open>The result is the word, the memory and the new context.\<close>

definition strtok_r :: "memory \<Rightarrow> nat option \<Rightarrow> nat \<Rightarrow> nat option \<Rightarrow> (nat option \<times> memory \<times> nat option) option" where
  "strtok_r m string seps context =
     (let context = (case string of Some p \<Rightarrow> Some p | None \<Rightarrow> context) in
      case context of
        None \<Rightarrow> Some (None, m, context)
      | Some head \<Rightarrow>
          (case strtok_skip m seps head of
             None \<Rightarrow> None
           | Some head \<Rightarrow>
               if m head = 0 then Some (None, m, None)
               else
                 (case strtok_word m seps head of
                    None \<Rightarrow> None
                  | Some tail \<Rightarrow>
                      if m tail = 0 then Some (Some head, m, None)
                      else Some (Some head, m(tail := 0), Some (tail + 1)))))"

text \<open>\<open>atoi\<close>, with its static table of digits as a memory of its own.\<close>

definition atoi_digits :: memory where
  "atoi_digits a = (if a < 10 then of_nat (48 + a) else 0)"

partial_function (option) atoi_space :: "memory \<Rightarrow> nat \<Rightarrow> nat option" where
  "atoi_space m s = (if m s = 32 \<or> m s = 9 then atoi_space m (s + 1) else Some s)"

partial_function (option) atoi_loop :: "memory \<Rightarrow> nat \<Rightarrow> u32w \<Rightarrow> u32w option" where
  "atoi_loop m s val =
     (if m s \<noteq> 0 then
        case strchr atoi_digits 0 (m s) of
          None \<Rightarrow> None
        | Some None \<Rightarrow> Some val
        | Some (Some where) \<Rightarrow> atoi_loop m (s + 1) (val * 10 + of_nat where)
      else Some val)"

definition atoi :: "memory \<Rightarrow> nat \<Rightarrow> int option" where
  "atoi m s =
     (case atoi_space m s of
        None \<Rightarrow> None
      | Some s \<Rightarrow>
          let neg = (m s = 45); s = (if m s = 45 then s + 1 else if m s = 43 then s + 1 else s) in
          (case atoi_loop m s 0 of
             None \<Rightarrow> None
           | Some val \<Rightarrow> Some (sint (if neg then - val else val))))"

subsection \<open>Strings in memory\<close>

definition cstr_at :: "memory \<Rightarrow> nat \<Rightarrow> byte list \<Rightarrow> bool" where
  "cstr_at m a xs \<longleftrightarrow> mem_read m a (length xs) = xs \<and> m (a + length xs) = 0 \<and> 0 \<notin> set xs"

lemma cstr_at_nth: "cstr_at m a xs \<Longrightarrow> i < length xs \<Longrightarrow> m (a + i) = xs ! i \<and> xs ! i \<noteq> 0"
  by (auto simp: cstr_at_def dest: arg_cong [where f = "\<lambda>ys. ys ! i"] nth_mem)

lemma cstr_at_Cons: "cstr_at m a (x # xs) \<longleftrightarrow> m a = x \<and> x \<noteq> 0 \<and> cstr_at m (Suc a) xs"
proof -
  have "mem_read m a (Suc (length xs)) = m a # mem_read m (Suc a) (length xs)"
    by (simp add: mem_read_def upt_conv_Cons del: upt_Suc)
  then show ?thesis by (auto simp: cstr_at_def)
qed

lemma cstr_at_Nil [simp]: "cstr_at m a [] \<longleftrightarrow> m a = 0"
  by (simp add: cstr_at_def)

lemma cstr_at_drop: "cstr_at m a xs \<Longrightarrow> n \<le> length xs \<Longrightarrow> cstr_at m (a + n) (drop n xs)"
proof (induction n arbitrary: a xs)
  case (Suc n)
  then obtain y ys where "xs = y # ys" by (cases xs) auto
  with Suc show ?case using Suc.IH [of "Suc a" ys] by (simp add: cstr_at_Cons)
qed simp

lemma cstr_at_unique: "cstr_at m a xs \<Longrightarrow> cstr_at m a ys \<Longrightarrow> xs = ys"
proof (induction xs arbitrary: a ys)
  case Nil
  then show ?case by (cases ys) (auto simp: cstr_at_Cons)
next
  case (Cons x xs)
  then show ?case by (cases ys) (auto simp: cstr_at_Cons)
qed

lemma cstr_at_cong:
  assumes "\<And>x. a \<le> x \<Longrightarrow> x \<le> a + length xs \<Longrightarrow> m' x = m x"
  shows "cstr_at m' a xs = cstr_at m a xs"
proof -
  have "mem_read m' a (length xs) = mem_read m a (length xs)" by (rule mem_read_cong) (simp add: assms)
  then show ?thesis using assms by (simp add: cstr_at_def)
qed

subsection \<open>Length and comparison\<close>

lemma strlen_loop_cstr: "cstr_at m (a + n) xs \<Longrightarrow> strlen_loop m a n = Some (n + length xs)"
proof (induction xs arbitrary: n)
  case Nil
  then show ?case by (subst strlen_loop.simps) simp
next
  case (Cons x xs)
  then show ?case using Cons.IH [of "Suc n"] by (subst strlen_loop.simps) (simp add: cstr_at_Cons)
qed

lemma strlen_cstr: "cstr_at m a xs \<Longrightarrow> strlen m a = Some (length xs)"
  using strlen_loop_cstr [of m a 0 xs] by (simp add: strlen_def)

lemma strcmp_loop_cstr:
  "cstr_at m (a + i) xs \<Longrightarrow> cstr_at m (b + i) ys \<Longrightarrow>
   \<exists>j \<ge> i. strcmp_loop m a b i = Some j \<and>
     (m (a + j) = m (b + j) \<longleftrightarrow> xs = ys) \<and> (m (a + j) > m (b + j) \<longleftrightarrow> xs > ys)"
proof (induction xs arbitrary: i ys)
  case Nil
  then have "ys = [] \<longleftrightarrow> m (b + i) = 0" by (cases ys) (auto simp: cstr_at_Cons)
  with Nil show ?case
    by (intro exI [of _ i], subst strcmp_loop.simps) auto
next
  case (Cons x xs)
  then have x: "m (a + i) = x" "x \<noteq> 0" "cstr_at m (a + Suc i) xs" by (simp_all add: cstr_at_Cons)
  show ?case
  proof (cases ys)
    case Nil
    then show ?thesis using x Cons.prems(2) by (intro exI [of _ i], subst strcmp_loop.simps) (auto simp: word_neq_0_conv)
  next
    case (Cons y zs)
    then have y: "m (b + i) = y" "y \<noteq> 0" "cstr_at m (b + Suc i) zs" using Cons.prems(2) by (simp_all add: cstr_at_Cons)
    show ?thesis
    proof (cases "x = y")
      case True
      then show ?thesis
        using Cons.IH [OF x(3) y(3)] x y Cons by (subst strcmp_loop.simps) (auto intro: Suc_leD)
    next
      case False
      then show ?thesis using x y Cons by (intro exI [of _ i], subst strcmp_loop.simps) auto
    qed
  qed
qed

lemma strcmp_cstr:
  assumes "cstr_at m a xs" "cstr_at m b ys"
  shows "strcmp m a b = Some (if xs = ys then 0 else if xs > ys then 1 else -1)"
proof -
  obtain j where "strcmp_loop m a b 0 = Some j" "m (a + j) = m (b + j) \<longleftrightarrow> xs = ys" "m (a + j) > m (b + j) \<longleftrightarrow> xs > ys"
    using strcmp_loop_cstr [of m a 0 xs b ys] assms by auto
  then show ?thesis by (auto simp: strcmp_def)
qed

subsection \<open>Copying\<close>

lemma copy_up_mem: "d \<le> s \<or> s + w * (i + k) \<le> d + w * i \<Longrightarrow>
  copy_up w m d s i k = mem_write m (d + w * i) (mem_read m (s + w * i) (w * k))"
proof (induction k arbitrary: m i)
  case (Suc k)
  let ?m = "mem_write m (d + w * i) (mem_read m (s + w * i) w)"
  have "d \<le> s \<or> s + w * (Suc i + k) \<le> d + w * Suc i" using Suc.prems by auto
  then have "copy_up w m d s i (Suc k) = mem_write ?m (d + w * Suc i) (mem_read ?m (s + w * Suc i) (w * k))"
    using Suc.IH [of "Suc i" ?m] by simp
  moreover have "mem_read ?m (s + w * Suc i) (w * k) = mem_read m (s + w * Suc i) (w * k)"
    by (rule mem_read_cong, rule mem_write_other) (use Suc.prems in \<open>auto simp: algebra_simps\<close>)
  ultimately have "copy_up w m d s i (Suc k) =
      mem_write m (d + w * i) (mem_read m (s + w * i) w @ mem_read m (s + w * i + w) (w * k))"
    using mem_write_append [of m "d + w * i" "mem_read m (s + w * i) w" "mem_read m (s + w * Suc i) (w * k)"]
    by (simp add: algebra_simps)
  then show ?case by (simp only: mem_read_append [symmetric] mult_Suc_right)
qed simp

lemma mem_write_prepend: "mem_write (mem_write m (a + length xs) ys) a xs = mem_write m a (xs @ ys)"
  by (rule ext) (auto simp: mem_write_def nth_append)

lemma copy_down_mem: "s \<le> d \<Longrightarrow> copy_down w m d s n = mem_write m d (mem_read m s (w * n))"
proof (induction n arbitrary: m)
  case (Suc n)
  let ?m = "mem_write m (d + w * n) (mem_read m (s + w * n) w)"
  have "mem_read ?m s (w * n) = mem_read m s (w * n)"
    by (rule mem_read_cong, rule mem_write_other) (use Suc.prems in auto)
  then have "copy_down w m d s (Suc n) = mem_write m d (mem_read m s (w * n) @ mem_read m (s + w * n) w)"
    using Suc.IH [OF Suc.prems, of ?m] mem_write_prepend [of m d "mem_read m s (w * n)"] by simp
  then show ?case by (simp only: mem_read_append [symmetric] mult_Suc_right add.commute)
qed simp

lemma fill_mem: "fill w m p ch i k = mem_write m (p + w * i) (replicate (w * k) ch)"
proof (induction k arbitrary: m i)
  case (Suc k)
  have "fill w m p ch i (Suc k) = mem_write (mem_write m (p + w * i) (replicate w ch)) (p + w * i + w) (replicate (w * k) ch)"
    using Suc.IH [of "mem_write m (p + w * i) (replicate w ch)" "Suc i"] by (simp add: algebra_simps)
  then show ?case using mem_write_append [of m "p + w * i" "replicate w ch"] by (simp add: replicate_add)
qed simp

lemma word_units: "len mod 4 = 0 \<Longrightarrow> 4 * (len div 4) = (len :: nat)"
  by auto

lemma memcpy_mem: "dst \<le> src \<or> src + len \<le> dst \<Longrightarrow> memcpy m dst src len = mem_write m dst (mem_read m src len)"
  using copy_up_mem [of dst src 4 0 "len div 4" m] copy_up_mem [of dst src 1 0 len m] by (auto simp: memcpy_def word_units)

lemma memmove_mem: "memmove m dst src len = mem_write m dst (mem_read m src len)"
  using copy_down_mem [of src dst 4 m "len div 4"] copy_down_mem [of src dst 1 m len] memcpy_mem [of dst src len m]
  by (auto simp: memmove_def word_units)

lemma memset_mem: "memset m p ch len = mem_write m p (replicate len ch)" "bzero m p len = mem_write m p (replicate len 0)"
  using fill_mem [of 1 m p ch 0 len] fill_mem [of 4 m p 0 0 "len div 4"] fill_mem [of 1 m p 0 0 len]
  by (auto simp: memset_def bzero_def word_units)

lemma strcpy_loop_cstr:
  "cstr_at m (src + i) xs \<Longrightarrow> dest + i + length xs \<le> src + i \<or> src + i + length xs < dest + i \<Longrightarrow>
   strcpy_loop m dest src i = Some (mem_write m (dest + i) xs, i + length xs)"
proof (induction xs arbitrary: m i)
  case Nil
  then show ?case by (subst strcpy_loop.simps) simp
next
  case (Cons x xs)
  let ?m = "m(dest + i := x)"
  have x: "m (src + i) = x" "x \<noteq> 0" "cstr_at m (src + Suc i) xs" using Cons.prems(1) by (simp_all add: cstr_at_Cons)
  have "cstr_at ?m (src + Suc i) xs"
    using x(3) cstr_at_cong [of "src + Suc i" xs ?m m] Cons.prems(2) by auto
  then have "strcpy_loop ?m dest src (Suc i) = Some (mem_write ?m (dest + Suc i) xs, Suc i + length xs)"
    by (rule Cons.IH) (use Cons.prems(2) in auto)
  then show ?case using x by (subst strcpy_loop.simps) (simp add: mem_write_Cons)
qed

lemma mem_write_snoc: "(mem_write m a xs)(a + length xs := b) = mem_write m a (xs @ [b])"
  by (rule ext) (auto simp: mem_write_def nth_append)

lemma mem_write_same: "mem_read m a (length xs) = xs \<Longrightarrow> mem_write m a xs = m"
proof
  fix x assume e: "mem_read m a (length xs) = xs"
  show "mem_write m a xs x = m x"
  proof (cases "a \<le> x \<and> x < a + length xs")
    case True
    then have "x - a < length xs" by auto
    then have "xs ! (x - a) = m x" using nth_mem_read [of "x - a" "length xs" m a] e True by simp
    with True show ?thesis by (simp add: mem_write_def)
  qed (auto simp: mem_write_def)
qed

lemma strcpy_cstr:
  assumes "cstr_at m src xs" "dest + length xs \<le> src \<or> src + length xs < dest"
  shows "strcpy m dest src = Some (mem_write m dest (xs @ [0]))"
  using strcpy_loop_cstr [of m src 0 xs dest] assms by (simp add: strcpy_def mem_write_snoc)

lemma cstr_at_write: "0 \<notin> set xs \<Longrightarrow> cstr_at (mem_write m a (xs @ [0])) a xs"
proof -
  assume "0 \<notin> set xs"
  moreover have "mem_read (mem_write m a (xs @ [0])) a (length xs) = xs"
    by (rule nth_equalityI) (simp_all add: mem_write_def nth_append)
  ultimately show ?thesis by (simp add: cstr_at_def) (simp add: mem_write_def nth_append)
qed

lemma strcat_cstr:
  assumes d: "cstr_at m dest xs" and s: "cstr_at m src ys"
    and o: "dest + length xs + length ys \<le> src \<or> src + length ys < dest + length xs"
  shows "strcat m dest src = Some (mem_write m (dest + length xs) (ys @ [0]))"
    "cstr_at (mem_write m (dest + length xs) (ys @ [0])) dest (xs @ ys)"
proof -
  show "strcat m dest src = Some (mem_write m (dest + length xs) (ys @ [0]))"
    using strlen_cstr [OF d] strcpy_cstr [OF s o] by (simp add: strcat_def)
  have x: "mem_read m dest (length xs) = xs" "0 \<notin> set xs" "0 \<notin> set ys" using d s by (simp_all add: cstr_at_def)
  have "mem_write m (dest + length xs) (ys @ [0]) = mem_write (mem_write m dest xs) (dest + length xs) (ys @ [0])"
    using mem_write_same [OF x(1)] by simp
  then have "mem_write m (dest + length xs) (ys @ [0]) = mem_write m dest ((xs @ ys) @ [0])"
    using mem_write_append [of m dest xs "ys @ [0]"] by simp
  then show "cstr_at (mem_write m (dest + length xs) (ys @ [0])) dest (xs @ ys)"
    using cstr_at_write [of "xs @ ys" m dest] x by simp
qed

subsection \<open>Searching\<close>

lemma strchr_cstr:
  "cstr_at m s xs \<Longrightarrow>
   strchr m s ch = Some (if ch \<in> set (xs @ [0]) then Some (s + length (takeWhile (\<lambda>c. c \<noteq> ch) (xs @ [0]))) else None)"
proof (induction xs arbitrary: s)
  case Nil
  then show ?case by (subst strchr.simps) auto
next
  case (Cons x xs)
  then show ?case using Cons.IH [of "Suc s"] by (subst strchr.simps) (auto simp: cstr_at_Cons)
qed

lemma strchr_found: "cstr_at m s xs \<Longrightarrow> ch \<noteq> 0 \<Longrightarrow>
  strchr m s ch = (if ch \<in> set xs then Some (Some (s + length (takeWhile (\<lambda>c. c \<noteq> ch) xs))) else Some None)"
  by (auto simp: strchr_cstr takeWhile_append1)

lemma strrchr_loop_last:
  "case strrchr_loop m s ch n of
     None \<Rightarrow> \<forall>i < n. m (s + i) \<noteq> ch
   | Some p \<Rightarrow> \<exists>i < n. p = s + i \<and> m (s + i) = ch \<and> (\<forall>j. i < j \<and> j < n \<longrightarrow> m (s + j) \<noteq> ch)"
  by (induction n) (auto split: option.splits simp: less_Suc_eq)

subsection \<open>Splitting\<close>

text \<open>The words of a string between separators.\<close>

function tokens :: "byte set \<Rightarrow> byte list \<Rightarrow> byte list list" where
  "tokens S xs =
     (let ys = dropWhile (\<lambda>c. c \<in> S) xs in
      if ys = [] then []
      else takeWhile (\<lambda>c. c \<notin> S) ys # tokens S (tl (dropWhile (\<lambda>c. c \<notin> S) ys)))"
  by pat_completeness auto
termination
proof (relation "measure (\<lambda>(S, xs). length xs)", simp)
  fix S and xs ys :: "byte list"
  assume ys: "ys = dropWhile (\<lambda>c. c \<in> S) xs" "ys \<noteq> []"
  have "length (tl (dropWhile (\<lambda>c. c \<notin> S) ys)) < length ys" using ys(2) length_dropWhile_le [of "\<lambda>c. c \<notin> S" ys] by (cases ys) auto
  also have "length ys \<le> length xs" using ys(1) length_dropWhile_le by simp
  finally show "((S, tl (dropWhile (\<lambda>c. c \<notin> S) ys)), S, xs) \<in> measure (\<lambda>(S, xs). length xs)" by simp
qed

declare tokens.simps [simp del]

lemma strtok_skip_cstr:
  "cstr_at m seps ss \<Longrightarrow> cstr_at m h xs \<Longrightarrow> strtok_skip m seps h = Some (h + length (takeWhile (\<lambda>c. c \<in> set ss) xs))"
proof (induction xs arbitrary: h)
  case Nil
  then show ?case by (subst strtok_skip.simps) simp
next
  case (Cons x xs)
  then show ?case using Cons.IH [of "Suc h"] by (subst strtok_skip.simps) (simp add: cstr_at_Cons strchr_found)
qed

lemma strtok_word_cstr:
  "cstr_at m seps ss \<Longrightarrow> cstr_at m h xs \<Longrightarrow> strtok_word m seps h = Some (h + length (takeWhile (\<lambda>c. c \<notin> set ss) xs))"
proof (induction xs arbitrary: h)
  case Nil
  then show ?case by (subst strtok_word.simps) simp
next
  case (Cons x xs)
  then show ?case using Cons.IH [of "Suc h"] by (subst strtok_word.simps) (simp add: cstr_at_Cons strchr_found)
qed

text \<open>
  The calls that take a string apart: the first has the string and whatever is in the context, the
  others a null pointer and the context left by the one before. \<open>ps\<close> are the pointers returned
  until the null pointer.
\<close>

inductive strtok_run :: "nat \<Rightarrow> memory \<Rightarrow> nat option \<Rightarrow> nat option \<Rightarrow> nat list \<Rightarrow> memory \<Rightarrow> bool" for seps where
  stop: "strtok_r m string seps context = Some (None, m', context') \<Longrightarrow> strtok_run seps m string context [] m'"
| word: "strtok_r m string seps context = Some (Some p, m1, context1) \<Longrightarrow> strtok_run seps m1 None context1 ps m' \<Longrightarrow>
    strtok_run seps m string context (p # ps) m'"

lemma strtok_run_None: "strtok_run seps m None None [] m"
  by (rule strtok_run.stop) (simp add: strtok_r_def)

lemma strtok_r_start: "strtok_r m (Some h) seps context = strtok_r m None seps (Some h)"
  by (simp add: strtok_r_def)

lemma strtok_run_start: "strtok_run seps m None (Some h) ps m' \<Longrightarrow> strtok_run seps m (Some h) context ps m'"
  by (erule strtok_run.cases) (auto intro: strtok_run.intros simp: strtok_r_start)

lemma dropWhile_drop: "dropWhile P xs = drop (length (takeWhile P xs)) xs"
  by (induction xs) auto

lemma strtok_r_cstr:
  assumes seps: "cstr_at m seps ss" and xs: "cstr_at m h xs"
    and ys: "ys = dropWhile (\<lambda>c. c \<in> set ss) xs" and w: "w = takeWhile (\<lambda>c. c \<notin> set ss) ys"
    and p: "p = h + length (takeWhile (\<lambda>c. c \<in> set ss) xs)"
  shows "strtok_r m None seps (Some h) =
    (if ys = [] then Some (None, m, None)
     else if w = ys then Some (Some p, m, None)
     else Some (Some p, m(p + length w := 0), Some (p + length w + 1)))" and "cstr_at m p ys"
proof -
  show y: "cstr_at m p ys" using cstr_at_drop [OF xs length_takeWhile_le] by (simp add: ys p dropWhile_drop)
  have t: "cstr_at m (p + length w) (dropWhile (\<lambda>c. c \<notin> set ss) ys)"
    using cstr_at_drop [OF y length_takeWhile_le] by (simp add: w dropWhile_drop)
  have "m p = 0 \<longleftrightarrow> ys = []" using y by (cases ys) (auto simp: cstr_at_Cons)
  moreover have "m (p + length w) = 0 \<longleftrightarrow> w = ys"
  proof -
    have "m (p + length w) = 0 \<longleftrightarrow> dropWhile (\<lambda>c. c \<notin> set ss) ys = []"
      using t by (cases "dropWhile (\<lambda>c. c \<notin> set ss) ys") (auto simp: cstr_at_Cons)
    also have "\<dots> \<longleftrightarrow> w = ys" by (metis w append_Nil2 dropWhile_eq_Nil_conv takeWhile_dropWhile_id takeWhile_eq_all_conv)
    finally show ?thesis .
  qed
  ultimately show "strtok_r m None seps (Some h) =
      (if ys = [] then Some (None, m, None)
       else if w = ys then Some (Some p, m, None)
       else Some (Some p, m(p + length w := 0), Some (p + length w + 1)))"
    using strtok_skip_cstr [OF seps xs] strtok_word_cstr [OF seps y] by (simp add: strtok_r_def p [symmetric] w [symmetric])
qed

lemma strtok_run_tokens:
  assumes "cstr_at m seps ss" "cstr_at m h xs" "h + length xs < seps \<or> seps + length ss < h"
  shows "\<exists>ps m'. strtok_run seps m None (Some h) ps m' \<and> list_all2 (cstr_at m') ps (tokens (set ss) xs) \<and>
    (\<forall>a. a < h \<or> h + length xs < a \<longrightarrow> m' a = m a)"
  using assms
proof (induction "length xs" arbitrary: m h xs rule: less_induct)
  case less
  define ys where "ys = dropWhile (\<lambda>c. c \<in> set ss) xs"
  define w where "w = takeWhile (\<lambda>c. c \<notin> set ss) ys"
  define zs where "zs = tl (dropWhile (\<lambda>c. c \<notin> set ss) ys)"
  define p where "p = h + length (takeWhile (\<lambda>c. c \<in> set ss) xs)"
  note s = strtok_r_cstr [OF less.prems(1,2) ys_def w_def p_def]
  have len: "p + length ys = h + length xs" using length_takeWhile_le [of "\<lambda>c. c \<in> set ss" xs]
    by (simp add: p_def ys_def dropWhile_drop)
  consider "ys = []" | "ys \<noteq> []" "w = ys" | "ys \<noteq> []" "w \<noteq> ys" by blast
  then show ?case
  proof cases
    case 1
    then have "strtok_run seps m None (Some h) [] m" using s(1) by (intro strtok_run.stop) simp
    moreover have "tokens (set ss) xs = []" using 1 by (simp add: tokens.simps ys_def [symmetric])
    ultimately show ?thesis by (intro exI [of _ "[]"] exI [of _ m]) simp
  next
    case 2
    then have "strtok_run seps m None (Some h) [p] m" using s(1) by (intro strtok_run.word [OF _ strtok_run_None]) simp
    moreover have z: "dropWhile (\<lambda>c. c \<notin> set ss) ys = []" using 2 by (metis w_def append_self_conv takeWhile_dropWhile_id)
    have "tokens (set ss) [] = []" by (simp add: tokens.simps [of _ "[]"])
    then have "tokens (set ss) xs = [ys]"
      using 2 unfolding tokens.simps [of "set ss" xs] Let_def ys_def [symmetric] w_def [symmetric] z list.sel(2) by simp
    ultimately show ?thesis using s(2) by (intro exI [of _ "[p]"] exI [of _ m]) simp
  next
    case 3
    let ?m = "m(p + length w := 0)"
    have split: "ys = w @ dropWhile (\<lambda>c. c \<notin> set ss) ys" by (simp add: w_def)
    then obtain c where c: "dropWhile (\<lambda>c. c \<notin> set ss) ys = c # zs" using 3(2) by (cases "dropWhile (\<lambda>c. c \<notin> set ss) ys") (auto simp: zs_def)
    have ly: "length ys = length w + Suc (length zs)" using arg_cong [OF split, of length] c by simp
    have z: "cstr_at m (p + length w + 1) zs"
      using cstr_at_drop [OF s(2), of "length w + 1"] split c by (simp add: ly add.assoc)
    have hp: "h \<le> p" by (simp add: p_def)
    have "cstr_at ?m seps ss = cstr_at m seps ss" by (rule cstr_at_cong) (use less.prems(3) len ly hp in auto)
    moreover have "cstr_at ?m (p + length w + 1) zs = cstr_at m (p + length w + 1) zs" by (rule cstr_at_cong) auto
    ultimately have m1: "cstr_at ?m seps ss" "cstr_at ?m (p + length w + 1) zs" using less.prems(1) z by simp_all
    have lt: "length zs < length xs" using ly len hp by simp
    have dis: "p + length w + 1 + length zs < seps \<or> seps + length ss < p + length w + 1" using less.prems(3) len ly hp by auto
    obtain ps m' where r: "strtok_run seps ?m None (Some (p + length w + 1)) ps m'" "list_all2 (cstr_at m') ps (tokens (set ss) zs)"
        "\<forall>a. a < p + length w + 1 \<or> p + length w + 1 + length zs < a \<longrightarrow> m' a = ?m a"
      using less.hyps [OF lt m1 dis] by blast
    have "strtok_run seps m None (Some h) (p # ps) m'" using s(1) 3 r(1) by (intro strtok_run.word) simp_all
    moreover have "cstr_at m' p w"
    proof -
      have "cstr_at ?m p w"
      proof -
        have y: "mem_read m p (length ys) = ys" "0 \<notin> set ys" using s(2) by (simp_all add: cstr_at_def)
        then have "mem_read m p (length w) = take (length w) ys" using ly by (metis mem_read_append append_eq_conv_conj length_mem_read)
        then have "mem_read m p (length w) = w" "0 \<notin> set w" using split y(2) by (metis append_eq_conv_conj, metis UnCI set_append)
        moreover have "mem_read ?m p (length w) = mem_read m p (length w)" by (rule mem_read_cong) simp
        ultimately show ?thesis by (simp add: cstr_at_def)
      qed
      then show ?thesis using r(3) by (subst cstr_at_cong [where m = ?m]) auto
    qed
    moreover have "tokens (set ss) xs = w # tokens (set ss) zs"
      using 3 by (subst tokens.simps) (simp add: ys_def [symmetric] w_def [symmetric] zs_def)
    moreover have "m' a = m a" if "a < h \<or> h + length xs < a" for a using r(3) that len ly hp by auto
    ultimately show ?thesis using r(2) by (intro exI [of _ "p # ps"] exI [of _ m']) simp
  qed
qed

subsection \<open>Numbers\<close>

definition dec_value :: "byte list \<Rightarrow> nat" where
  "dec_value ds = foldl (\<lambda>v d. v * 10 + (unat d - 48)) 0 ds"

definition is_digit :: "byte \<Rightarrow> bool" where
  "is_digit c \<longleftrightarrow> 48 \<le> c \<and> c \<le> 57"

lemma atoi_digit: "strchr atoi_digits 0 c = Some (if is_digit c then Some (unat c - 48) else if c = 0 then Some 10 else None)"
proof -
  have s: "cstr_at atoi_digits 0 (map (\<lambda>a. of_nat (48 + a)) [0 ..< 10])"
    by (simp add: cstr_at_def atoi_digits_def mem_read_def upt_rec word_unat_eq_iff)
  have d: "is_digit c \<longleftrightarrow> 48 \<le> unat c \<and> unat c \<le> 57" by (simp add: is_digit_def word_le_nat_alt)
  have e: "c = numeral k \<longleftrightarrow> unat c = unat (numeral k :: byte)" for k by (simp add: word_unat_eq_iff)
  show ?thesis
  proof (cases "is_digit c")
    case True
    then have "unat c \<in> {48, 49, 50, 51, 52, 53, 54, 55, 56, 57}" using d by (simp add: insert_iff) arith
    then show ?thesis
      unfolding strchr_cstr [OF s] using True by (auto simp: upt_rec e word_unat_eq_iff)
  next
    case False
    then show ?thesis
      unfolding strchr_cstr [OF s] using d by (auto simp: upt_rec e word_unat_eq_iff)
  qed
qed

lemma atoi_loop_digits:
  "cstr_at m s (ds @ rest) \<Longrightarrow> \<forall>d \<in> set ds. is_digit d \<Longrightarrow> rest = [] \<or> \<not> is_digit (hd rest) \<Longrightarrow>
   atoi_loop m s (of_nat v) = Some (of_nat (foldl (\<lambda>v d. v * 10 + (unat d - 48)) v ds))"
proof (induction ds arbitrary: s v)
  case Nil
  then show ?case by (subst atoi_loop.simps) (cases rest, auto simp: cstr_at_Cons atoi_digit)
next
  case (Cons d ds)
  then have d: "m s = d" "d \<noteq> 0" "is_digit d" "cstr_at m (s + 1) (ds @ rest)" by (simp_all add: cstr_at_Cons)
  have "atoi_loop m s (of_nat v) = atoi_loop m (s + 1) (of_nat (v * 10 + (unat d - 48)))"
    using d by (subst atoi_loop.simps) (simp add: atoi_digit)
  then show ?case using Cons.IH [OF d(4), of "v * 10 + (unat d - 48)"] Cons.prems(2,3) by simp
qed

lemma atoi_space_skip:
  "cstr_at m s (sp @ rest) \<Longrightarrow> set sp \<subseteq> {32, 9} \<Longrightarrow> rest = [] \<or> hd rest \<notin> {32, 9} \<Longrightarrow> atoi_space m s = Some (s + length sp)"
proof (induction sp arbitrary: s)
  case Nil
  then show ?case by (subst atoi_space.simps) (cases rest, auto simp: cstr_at_Cons)
next
  case (Cons c sp)
  then show ?case using Cons.IH [of "Suc s"] by (subst atoi_space.simps) (auto simp: cstr_at_Cons)
qed

lemma atoi_number:
  assumes s: "cstr_at m s (sp @ sign @ ds @ rest)" and sp: "set sp \<subseteq> {32, 9}" and sg: "sign = [] \<or> sign = [45] \<or> sign = [43]"
    and ds: "ds \<noteq> []" "\<forall>d \<in> set ds. is_digit d" and r: "rest = [] \<or> \<not> is_digit (hd rest)"
  shows "atoi m s = Some (sint (if sign = [45] then - of_nat (dec_value ds) else of_nat (dec_value ds) :: u32w))"
proof -
  have hd: "is_digit (hd ds)" using ds by (cases ds) simp_all
  then have h: "hd ds \<notin> {32, 9, 45, 43}" by (auto simp: is_digit_def word_le_nat_alt)
  have sk: "atoi_space m s = Some (s + length sp)"
    by (rule atoi_space_skip [OF s sp]) (use sg h ds(1) in auto)
  have q: "cstr_at m (s + length sp) (sign @ ds @ rest)" using cstr_at_drop [OF s, of "length sp"] by simp
  have q': "cstr_at m (s + length sp + length sign) (ds @ rest)" using cstr_at_drop [OF q, of "length sign"] by simp
  have c: "m (s + length sp) = hd (sign @ ds)" using q ds(1) by (cases sign; cases ds) (auto simp: cstr_at_Cons)
  note l = atoi_loop_digits [OF q' ds(2) r, of 0]
  show ?thesis
    using sg l h c unfolding atoi_def sk by (auto simp: Let_def dec_value_def)
qed

subsection \<open>Properties\<close>

text \<open>
  C25: \<open>memmove\<close> copies a block to a block, however the two overlap: the memory afterwards is
  the memory before with the destination set to what the source held, whichever of its loops
  (upwards through \<open>memcpy\<close> or downwards, by bytes or by words) did it. \<open>memset\<close> and \<open>bzero\<close>, by
  bytes or by words, set their block and nothing else.
\<close>

theorem memmove_overlap:
  "memmove m dst src len = mem_write m dst (mem_read m src len) \<and>
   memset m dst ch len = mem_write m dst (replicate len ch) \<and> bzero m dst len = mem_write m dst (replicate len 0)"
  using memmove_mem memset_mem by simp

text \<open>
  C30: \<open>strcmp\<close> returns on any two strings and orders them: 0 for equal strings, else the sign
  of their order by the first byte that differs, bytes taken as unsigned.
\<close>

theorem strcmp_orders:
  assumes "cstr_at m a xs" "cstr_at m b ys"
  shows "strcmp m a b = Some (if xs = ys then 0 else if xs > ys then 1 else -1)"
  by (rule strcmp_cstr [OF assms])

theorem strcmp_orders_witness:
  "strcmp (mem_write (\<lambda>_. 0) 0 [97, 200, 0, 97, 98, 0]) 0 3 = Some 1"
  using strcmp_orders [of "mem_write (\<lambda>_. 0) 0 [97, 200, 0, 97, 98, 0]" 0 "[97, 200]" 3 "[97, 98]"]
  by (simp add: cstr_at_Cons mem_write_def)

text \<open>
  C29: \<open>strtok_r\<close>, called first with a string, whatever the context holds, and then with null
  pointers until it answers null, takes the string apart into exactly its words, the maximal runs
  of characters that are not separators. It returns, it terminates every word in place, and writes
  nowhere but in the string.
\<close>

theorem strtok_splits:
  assumes "cstr_at m seps ss" "cstr_at m h xs" "h + length xs < seps \<or> seps + length ss < h"
  shows "\<exists>ps m'. strtok_run seps m (Some h) context ps m' \<and> list_all2 (cstr_at m') ps (tokens (set ss) xs) \<and>
    (\<forall>a. a < h \<or> h + length xs < a \<longrightarrow> m' a = m a)"
  using strtok_run_tokens [OF assms] strtok_run_start by blast

theorem strtok_splits_witness:
  "\<exists>ps m'. strtok_run 0 (mem_write (\<lambda>_. 0) 0 [32, 0, 32, 112, 32, 98, 99, 0]) (Some 2) (Some 6) ps m' \<and>
     list_all2 (cstr_at m') ps [[112], [98, 99]]"
proof -
  have "tokens (set [32]) [32, 112, 32, 98, 99] = [[112 :: byte], [98, 99]]" by (simp add: tokens.simps)
  then show ?thesis
    using strtok_splits [of "mem_write (\<lambda>_. 0) 0 [32, 0, 32, 112, 32, 98, 99, 0]" 0 "[32]" 2 "[32, 112, 32, 98, 99]" "Some 6"]
    by (auto simp: cstr_at_Cons mem_write_def)
qed

end
