(* ===== verification/Libc_Printf.thy ===== *)
theory Libc_Printf
  imports Libc_String
begin

text \<open>
  Formatted printing, \<open>common/libc/printf/__printf.c\<close> and \<open>snprintf.c\<close>: the formatter as a
  state machine over the characters of the format, sending its text to a client, and the
  client that stores it in a buffer. Field widths are plain integers; a format whose widths
  overflow an \<open>int\<close> has no defined behaviour.
\<close>

subsection \<open>Model\<close>

datatype pf_size = INTSZ | LONGSZ | LLONGSZ | SIZETSZ

text \<open>
  The arguments: a 32-bit value for \<open>int\<close>, \<open>long\<close>, \<open>size_t\<close> and pointers, a 64-bit one for
  \<open>long long\<close>, and a string, \<open>None\<close> being the null pointer. To fetch an argument of another
  kind than there is, or one too many, is undefined and a panic here.
\<close>

datatype va_argument = Arg32 u32w | Arg64 u64w | ArgStr "byte list option"

record 'c PF =
  clientdata :: 'c
  ap :: "va_argument list"
  charcount :: int
  in_pct :: bool
  pf_size :: pf_size
  pf_num :: u64w
  pf_sign :: int
  spacing :: int
  rightspc :: bool
  fillchar :: byte
  pf_base :: nat
  baseprefix :: bool
  altformat :: bool

text \<open>\<open>send\<close> is \<open>sendfunc\<close>, acting on \<open>clientdata\<close>.\<close>

definition pf_print :: "(byte list \<Rightarrow> ('c, unit) kfun) \<Rightarrow> byte list \<Rightarrow> ('c PF, unit) kfun" where
  "pf_print send str =
     kthen (kzoom clientdata (\<lambda>c pf. pf\<lparr>clientdata := c\<rparr>) (send str))
       (kmod (\<lambda>pf. pf\<lparr>charcount := charcount pf + int (length str)\<rparr>))"

definition pf_endfield :: "('c PF, unit) kfun" where
  "pf_endfield =
     kmod (\<lambda>pf. pf\<lparr>in_pct := False, pf_size := INTSZ, pf_num := 0, pf_sign := 0, spacing := 0,
       rightspc := False, fillchar := 32, pf_base := 0, baseprefix := False, altformat := False\<rparr>)"

definition pf_modifier :: "byte \<Rightarrow> ('c PF, unit) kfun" where
  "pf_modifier ch =
     (if ch = 35 then kmod (\<lambda>pf. pf\<lparr>altformat := True\<rparr>)
      else if ch = 45 then kmod (\<lambda>pf. pf\<lparr>rightspc := True\<rparr>)
      else if ch = 108 then
        kmod (\<lambda>pf. pf\<lparr>pf_size := (if pf_size pf = LONGSZ then LLONGSZ else LONGSZ)\<rparr>)
      else if ch = 122 then kmod (\<lambda>pf. pf\<lparr>pf_size := SIZETSZ\<rparr>)
      else if ch = 48 then
        kmod (\<lambda>pf. if spacing pf > 0 then pf\<lparr>spacing := spacing pf * 10\<rparr> else pf\<lparr>fillchar := 48\<rparr>)
      else
        kthen (kassert (\<lambda>_. ch > 48 \<and> ch \<le> 57))
          (kmod (\<lambda>pf. pf\<lparr>spacing := spacing pf * 10 + (uint ch - 48)\<rparr>)))"

definition va_arg32 :: "('c PF, u32w) kfun" where
  "va_arg32 =
     kbind (kget ap) (\<lambda>a.
       case a of Arg32 x # rest \<Rightarrow> kthen (kmod (\<lambda>pf. pf\<lparr>ap := rest\<rparr>)) (kret x) | _ \<Rightarrow> kpanic)"

definition va_arg64 :: "('c PF, u64w) kfun" where
  "va_arg64 =
     kbind (kget ap) (\<lambda>a.
       case a of Arg64 x # rest \<Rightarrow> kthen (kmod (\<lambda>pf. pf\<lparr>ap := rest\<rparr>)) (kret x) | _ \<Rightarrow> kpanic)"

definition va_argstr :: "('c PF, byte list option) kfun" where
  "va_argstr =
     kbind (kget ap) (\<lambda>a.
       case a of ArgStr x # rest \<Rightarrow> kthen (kmod (\<lambda>pf. pf\<lparr>ap := rest\<rparr>)) (kret x) | _ \<Rightarrow> kpanic)"

definition pf_getnum :: "byte \<Rightarrow> ('c PF, unit) kfun" where
  "pf_getnum ch =
     (if ch = 112 then kbind va_arg32 (\<lambda>x. kmod (\<lambda>pf. pf\<lparr>pf_num := ucast x\<rparr>))
      else if ch = 100 then
        kbind (kget pf_size) (\<lambda>size.
        kbind (if size = LLONGSZ then va_arg64 else kbind va_arg32 (\<lambda>x. kret (scast x))) (\<lambda>signednum.
          if sint signednum < 0 then kmod (\<lambda>pf. pf\<lparr>pf_sign := -1, pf_num := - signednum\<rparr>)
          else kmod (\<lambda>pf. pf\<lparr>pf_num := signednum\<rparr>)))
      else
        kbind (kget pf_size) (\<lambda>size.
        kbind (if size = LLONGSZ then va_arg64 else kbind va_arg32 (\<lambda>x. kret (ucast x))) (\<lambda>num.
          kmod (\<lambda>pf. pf\<lparr>pf_num := num\<rparr>))))"

definition pf_setbase :: "byte \<Rightarrow> ('c PF, unit) kfun" where
  "pf_setbase ch =
     kthen (if ch = 100 \<or> ch = 117 then kmod (\<lambda>pf. pf\<lparr>pf_base := 10\<rparr>)
            else if ch = 120 \<or> ch = 112 then kmod (\<lambda>pf. pf\<lparr>pf_base := 16\<rparr>)
            else if ch = 111 then kmod (\<lambda>pf. pf\<lparr>pf_base := 8\<rparr>)
            else kret ())
       (kmod (\<lambda>pf. if altformat pf \<or> ch = 112 then pf\<lparr>baseprefix := True\<rparr> else pf))"

fun pf_fill_loop :: "(byte list \<Rightarrow> ('c, unit) kfun) \<Rightarrow> byte \<Rightarrow> nat \<Rightarrow> ('c PF, unit) kfun" where
  "pf_fill_loop send f 0 = kret ()"
| "pf_fill_loop send f (Suc i) = kthen (pf_print send [f]) (pf_fill_loop send f i)"

definition pf_fill :: "(byte list \<Rightarrow> ('c, unit) kfun) \<Rightarrow> int \<Rightarrow> ('c PF, unit) kfun" where
  "pf_fill send spc = kbind (kget fillchar) (\<lambda>f. pf_fill_loop send f (nat spc))"

definition pf_printstuff :: "(byte list \<Rightarrow> ('c, unit) kfun) \<Rightarrow> byte list \<Rightarrow> byte list \<Rightarrow> byte list \<Rightarrow> ('c PF, unit) kfun" where
  "pf_printstuff send prefix prefix2 stuff =
     (let len = int (length prefix + length prefix2 + length stuff) in
      kbind (kget spacing) (\<lambda>spacing.
      let spc = (if spacing > len then spacing - len else 0) in
      kbind (kget rightspc) (\<lambda>rightspc.
      kbind (kget fillchar) (\<lambda>fillchar.
      kthen (kwhen (spc > 0 \<and> \<not> rightspc \<and> fillchar \<noteq> 48) (pf_fill send spc))
      (kthen (pf_print send prefix)
      (kthen (pf_print send prefix2)
      (kthen (kwhen (spc > 0 \<and> \<not> rightspc \<and> fillchar = 48) (pf_fill send spc))
      (kthen (pf_print send stuff)
      (kwhen (spc > 0 \<and> rightspc) (pf_fill send spc))))))))))"

definition pf_digits :: "byte list" where
  "pf_digits = [48, 49, 50, 51, 52, 53, 54, 55, 56, 57, 97, 98, 99, 100, 101, 102]"

definition NUMBER_BUF_SIZE :: nat where
  "NUMBER_BUF_SIZE = 8 * 8 div 3 + 2"

text \<open>
  The loop of \<open>__pf_printnum\<close>: \<open>x\<close> is the index of the next slot of the buffer. \<open>None\<close> is a
  division by zero or a write outside the buffer.
\<close>

function pf_digits_loop :: "byte list \<Rightarrow> int \<Rightarrow> nat \<Rightarrow> nat \<Rightarrow> (byte list \<times> int) option" where
  "pf_digits_loop buf x xnum base =
     (if base = 0 \<or> x < 0 \<or> x \<ge> int (length buf) then None
      else
        let buf' = buf[nat x := pf_digits ! (xnum mod base)]; x' = x - 1; xnum' = xnum div base in
        if xnum' > 0 then pf_digits_loop buf' x' xnum' base else Some (buf', x'))"
  by pat_completeness auto
termination
  by (relation "measure (\<lambda>(buf, x, xnum, base). nat (x + 1))") auto

declare pf_digits_loop.simps [simp del]

definition pf_printnum :: "(byte list \<Rightarrow> ('c, unit) kfun) \<Rightarrow> ('c PF, unit) kfun" where
  "pf_printnum send =
     kbind (kget pf_num) (\<lambda>num. kbind (kget pf_base) (\<lambda>base.
     kbind (kget baseprefix) (\<lambda>baseprefix. kbind (kget pf_sign) (\<lambda>sign.
     case pf_digits_loop ((replicate NUMBER_BUF_SIZE 0)[NUMBER_BUF_SIZE - 1 := 0])
            (int NUMBER_BUF_SIZE - 2) (unat num) base of
       None \<Rightarrow> kpanic
     | Some (buf, x) \<Rightarrow>
         let bprefix = (if baseprefix \<and> base = 16 then [48, 120]
                        else if baseprefix \<and> base = 8 then [48] else []);
             sprefix = (if sign \<noteq> 0 then [45] else []) in
         pf_printstuff send sprefix bprefix (takeWhile (\<lambda>c. c \<noteq> 0) (drop (nat (x + 1)) buf))))))"

definition pf_modifiers :: "byte list" where
  "pf_modifiers = [35, 45, 108, 122, 48, 49, 50, 51, 52, 53, 54, 55, 56, 57]"

definition pf_send :: "(byte list \<Rightarrow> ('c, unit) kfun) \<Rightarrow> byte \<Rightarrow> ('c PF, unit) kfun" where
  "pf_send send ch =
     kthen (kassert (\<lambda>_. ch \<noteq> 0))
     (kbind (kget in_pct) (\<lambda>in_pct.
      if \<not> in_pct \<and> ch \<noteq> 37 then pf_print send [ch]
      else if \<not> in_pct then kmod (\<lambda>pf. pf\<lparr>in_pct := True\<rparr>)
      else if ch \<in> set pf_modifiers then pf_modifier ch
      else if ch \<in> set [100, 111, 117, 112, 120] then
        kthen (pf_getnum ch) (kthen (pf_setbase ch) (kthen (pf_printnum send) pf_endfield))
      else if ch = 115 then
        kbind va_argstr (\<lambda>str.
        kthen (pf_printstuff send [] [] (case str of None \<Rightarrow> [40, 110, 117, 108, 108, 41] | Some s \<Rightarrow> s))
          pf_endfield)
      else
        kbind (if ch = 99 then kbind va_arg32 (\<lambda>x. kret (ucast x)) else kret ch) (\<lambda>x.
        kthen (pf_printstuff send [] [] (if x = 0 then [] else [x])) pf_endfield)))"

fun pf_format :: "(byte list \<Rightarrow> ('c, unit) kfun) \<Rightarrow> byte list \<Rightarrow> ('c PF, unit) kfun" where
  "pf_format send [] = kret ()"
| "pf_format send (ch # format) = kthen (pf_send send ch) (pf_format send format)"

definition pf_start :: "'c \<Rightarrow> va_argument list \<Rightarrow> 'c PF" where
  "pf_start c args =
     \<lparr>clientdata = c, ap = args, charcount = 0, in_pct = False, pf_size = INTSZ, pf_num = 0, pf_sign = 0,
      spacing = 0, rightspc = False, fillchar = 32, pf_base = 0, baseprefix = False, altformat = False\<rparr>"

definition vprintf :: "(byte list \<Rightarrow> ('c, unit) kfun) \<Rightarrow> byte list \<Rightarrow> va_argument list \<Rightarrow> ('c, int) kfun" where
  "vprintf send format args c =
     (case pf_format send format (pf_start c args) of
        (Ok _, pf) \<Rightarrow> (Ok (charcount pf), clientdata pf)
      | (Err e, pf) \<Rightarrow> (Err e, clientdata pf)
      | (Panic, pf) \<Rightarrow> (Panic, clientdata pf)
      | (Hang, pf) \<Rightarrow> (Hang, clientdata pf))"

text \<open>\<open>snprintf.c\<close>. A write outside the caller's buffer is a panic.\<close>

record SNP =
  snp_buf :: "byte list"
  snp_buflen :: nat
  snp_bufpos :: nat

fun snprintf_send :: "byte list \<Rightarrow> (SNP, unit) kfun" where
  "snprintf_send [] = kret ()"
| "snprintf_send (c # cs) =
     kthen (kbind (kget id) (\<lambda>snp.
              kwhen (snp_bufpos snp < snp_buflen snp)
                (kthen (kassert (\<lambda>_. snp_bufpos snp < length (snp_buf snp)))
                  (kmod (\<lambda>snp. snp\<lparr>snp_buf := (snp_buf snp)[snp_bufpos snp := c], snp_bufpos := snp_bufpos snp + 1\<rparr>)))))
       (snprintf_send cs)"

definition vsnprintf :: "nat \<Rightarrow> byte list \<Rightarrow> va_argument list \<Rightarrow> (byte list, int) kfun" where
  "vsnprintf len fmt args buf =
     (case vprintf snprintf_send fmt args
             \<lparr>snp_buf = buf, snp_buflen = (if len = 0 then 0 else len - 1), snp_bufpos = 0\<rparr> of
        (Ok chars, snp) \<Rightarrow>
          if len > 0 then
            if snp_bufpos snp < length (snp_buf snp) then (Ok chars, (snp_buf snp)[snp_bufpos snp := 0])
            else (Panic, snp_buf snp)
          else (Ok chars, snp_buf snp)
      | (Err e, snp) \<Rightarrow> (Err e, snp_buf snp)
      | (Panic, snp) \<Rightarrow> (Panic, snp_buf snp)
      | (Hang, snp) \<Rightarrow> (Hang, snp_buf snp))"

subsection \<open>Numbers\<close>

text \<open>The digits of a number in a base, and that the buffer of \<open>__pf_printnum\<close> holds them.\<close>

function num_str :: "nat \<Rightarrow> nat \<Rightarrow> byte list" where
  "num_str base n = (if n < base \<or> base < 2 then [pf_digits ! n] else num_str base (n div base) @ [pf_digits ! (n mod base)])"
  by pat_completeness auto
termination
  by (relation "measure (\<lambda>(base, n). n)") auto

declare num_str.simps [simp del]

lemma length_num_str: "2 \<le> base \<Longrightarrow> n < base ^ Suc k \<Longrightarrow> length (num_str base n) \<le> Suc k"
proof (induction k arbitrary: n)
  case 0
  then show ?case by (subst num_str.simps) simp
next
  case (Suc k)
  then have "n div base < base ^ Suc k" by (simp add: div_less_iff_less_mult mult.commute)
  then show ?case using Suc.IH [of "n div base"] Suc.prems(1) by (subst num_str.simps) simp
qed

lemma pf_digits_loop_num:
  "2 \<le> base \<Longrightarrow> n < base ^ Suc k \<Longrightarrow> k < length buf \<Longrightarrow>
   \<exists>buf'. pf_digits_loop buf (int k) n base = Some (buf', int k - int (length (num_str base n))) \<and>
     length buf' = length buf \<and> drop (Suc k - length (num_str base n)) buf' = num_str base n @ drop (Suc k) buf"
proof (induction k arbitrary: n buf)
  case 0
  then have "num_str base n = [pf_digits ! n]" "n div base = 0" "n mod base = n" by (subst num_str.simps, simp_all)
  moreover obtain b bs where "buf = b # bs" using 0 by (cases buf) auto
  ultimately show ?case using 0 by (subst pf_digits_loop.simps) simp
next
  case (Suc k)
  let ?d = "pf_digits ! (n mod base)" and ?b = "buf[Suc k := pf_digits ! (n mod base)]"
  have dr: "drop (Suc k) ?b = ?d # drop (Suc (Suc k)) buf"
    using Suc.prems(3) by (simp add: Cons_nth_drop_Suc [symmetric])
  show ?case
  proof (cases "n < base")
    case True
    then have "num_str base n = [pf_digits ! n]" "n div base = 0" "n mod base = n" by (subst num_str.simps, simp_all)
    then show ?thesis using Suc.prems dr by (subst pf_digits_loop.simps) (simp add: nat_add_distrib)
  next
    case False
    then have ns: "num_str base n = num_str base (n div base) @ [?d]" using Suc.prems(1) by (subst num_str.simps) simp
    have q: "n div base < base ^ Suc k" using Suc.prems(1,2) by (simp add: div_less_iff_less_mult mult.commute)
    have pos: "n div base > 0" using False Suc.prems(1) by (simp add: div_greater_zero_iff)
    have lb: "k < length ?b" using Suc.prems(3) by simp
    obtain buf' where i: "pf_digits_loop ?b (int k) (n div base) base = Some (buf', int k - int (length (num_str base (n div base))))"
        "length buf' = length ?b"
        "drop (Suc k - length (num_str base (n div base))) buf' = num_str base (n div base) @ drop (Suc k) ?b"
      using Suc.IH [OF Suc.prems(1) q lb] by blast
    have "pf_digits_loop buf (int (Suc k)) n base = pf_digits_loop ?b (int k) (n div base) base"
      using Suc.prems pos by (subst pf_digits_loop.simps) (simp add: nat_add_distrib)
    then show ?thesis using i ns dr by simp
  qed
qed

lemma num_str_digits: "2 \<le> base \<Longrightarrow> base \<le> 16 \<Longrightarrow> c \<in> set (num_str base n) \<Longrightarrow> c \<in> set pf_digits"
proof (induction base n rule: num_str.induct)
  case (1 base n)
  have l: "length pf_digits = 16" by (simp add: pf_digits_def)
  have "n mod base < 16" using 1(2,3) by (meson mod_less_divisor less_le_trans zero_less_numeral)
  with 1 l show ?case using 1(4) unfolding num_str.simps [of base n] by (auto split: if_splits)
qed

lemma pf_printnum_eq:
  assumes "pf_base pf \<in> {8, 10, 16}"
  shows "pf_printnum send pf =
    pf_printstuff send (if pf_sign pf \<noteq> 0 then [45] else [])
      (if baseprefix pf \<and> pf_base pf = 16 then [48, 120] else if baseprefix pf \<and> pf_base pf = 8 then [48] else [])
      (num_str (pf_base pf) (unat (pf_num pf))) pf"
proof -
  let ?n = "unat (pf_num pf)" and ?b = "pf_base pf" and ?z = "replicate 23 0 :: byte list"
  have n: "?n < 2 ^ 64" using unsigned_less [of "pf_num pf"] by simp
  have "(2 :: nat) ^ 64 \<le> 8 ^ Suc 21" by simp
  also have "(8 :: nat) ^ Suc 21 \<le> ?b ^ Suc 21" by (rule power_mono) (use assms in auto)
  finally have lt: "?n < ?b ^ Suc 21" using n by simp
  have b: "2 \<le> ?b" "?b \<le> 16" using assms by auto
  obtain buf' where i: "pf_digits_loop ?z (int 21) ?n ?b = Some (buf', int 21 - int (length (num_str ?b ?n)))"
      "drop (Suc 21 - length (num_str ?b ?n)) buf' = num_str ?b ?n @ drop (Suc 21) ?z"
    using pf_digits_loop_num [OF b(1) lt, of ?z] by auto
  have le: "length (num_str ?b ?n) \<le> Suc 21" by (rule length_num_str [OF b(1) lt])
  have x: "nat (int 21 - int (length (num_str ?b ?n)) + 1) = Suc 21 - length (num_str ?b ?n)" using le by simp
  have nz: "c \<noteq> 0" if "c \<in> set (num_str ?b ?n)" for c using num_str_digits [OF b that] by (auto simp: pf_digits_def)
  have tw: "takeWhile (\<lambda>c. c \<noteq> 0) (num_str ?b ?n @ drop (Suc 21) ?z) = num_str ?b ?n"
    using nz by (simp add: takeWhile_append2)
  have nb: "NUMBER_BUF_SIZE = 23" by (simp add: NUMBER_BUF_SIZE_def)
  have z: "?z[23 - 1 := 0] = ?z" "int 23 - 2 = int 21" by (simp_all add: list_update_same_conv)
  show ?thesis
    unfolding pf_printnum_def nb kbind_def kget_def prod.case outcome.case id_apply z i(1) option.case x i(2) tw Let_def by (rule refl)
qed

subsection \<open>Two clients of the formatter\<close>

text \<open>
  The formatter does the same whoever receives the text. A simulation between two clients
  relates their data and the counts of characters sent so far.
\<close>

definition pf_rel :: "('c \<Rightarrow> int \<Rightarrow> 'd \<Rightarrow> bool) \<Rightarrow> 'c PF \<Rightarrow> 'd PF \<Rightarrow> bool" where
  "pf_rel S p q \<longleftrightarrow> S (clientdata p) (charcount q) (clientdata q) \<and> charcount p = charcount q \<and> ap p = ap q \<and>
     in_pct p = in_pct q \<and> pf_size p = pf_size q \<and> pf_num p = pf_num q \<and> pf_sign p = pf_sign q \<and>
     spacing p = spacing q \<and> rightspc p = rightspc q \<and> fillchar p = fillchar q \<and> pf_base p = pf_base q \<and>
     baseprefix p = baseprefix q \<and> altformat p = altformat q"

definition simk :: "('s \<Rightarrow> 't \<Rightarrow> bool) \<Rightarrow> ('s, 'a) kfun \<Rightarrow> ('t, 'a) kfun \<Rightarrow> bool" where
  "simk R m m' \<longleftrightarrow> (\<forall>s t. R s t \<longrightarrow> fst (m s) = fst (m' t) \<and> R (snd (m s)) (snd (m' t)))"

lemma simk_intros:
  "simk R (kret x) (kret x)" "simk R kpanic kpanic"
  "(\<And>s t. R s t \<Longrightarrow> R (f s) (g t)) \<Longrightarrow> simk R (kmod f) (kmod g)"
  "(\<And>s t. R s t \<Longrightarrow> h s = h' t) \<Longrightarrow> simk R (kget h) (kget h')"
  "(\<And>s t. R s t \<Longrightarrow> P s = P' t) \<Longrightarrow> simk R (kassert P) (kassert P')"
  by (auto simp: simk_def kfun_defs)

lemma simk_kbind: "simk R m m' \<Longrightarrow> (\<And>x. simk R (k x) (k' x)) \<Longrightarrow> simk R (kbind m k) (kbind m' k')"
  unfolding simk_def kbind_def by (fastforce split: prod.splits outcome.splits)

lemma simk_kthen: "simk R m m' \<Longrightarrow> simk R k k' \<Longrightarrow> simk R (kthen m k) (kthen m' k')"
  unfolding kthen_def by (rule simk_kbind)

lemma simk_kwhen: "simk R m m' \<Longrightarrow> simk R (kwhen b m) (kwhen b m')"
  by (simp add: kwhen_def simk_intros)

lemma simk_if: "(b \<Longrightarrow> simk R m m') \<Longrightarrow> (\<not> b \<Longrightarrow> simk R k k') \<Longrightarrow> simk R (if b then m else k) (if b then m' else k')"
  by simp

lemmas simk_rules = simk_intros simk_kbind simk_kthen simk_kwhen simk_if

locale printf_sim =
  fixes send :: "byte list \<Rightarrow> ('c, unit) kfun" and send' :: "byte list \<Rightarrow> ('d, unit) kfun"
    and S :: "'c \<Rightarrow> int \<Rightarrow> 'd \<Rightarrow> bool"
  assumes send_ok: "S c n c' \<Longrightarrow> fst (send str c) = Ok () \<and> fst (send' str c') = Ok ()"
    and send_sim: "S c n c' \<Longrightarrow> S (snd (send str c)) (n + int (length str)) (snd (send' str c'))"
begin

abbreviation (input) R :: "'c PF \<Rightarrow> 'd PF \<Rightarrow> bool" where
  "R \<equiv> pf_rel S"

lemma print_sim: "simk R (pf_print send str) (pf_print send' str)"
proof -
  have "fst (pf_print send str p) = fst (pf_print send' str q) \<and> R (snd (pf_print send str p)) (snd (pf_print send' str q))"
    if r: "R p q" for p q
  proof -
    have s: "S (clientdata p) (charcount q) (clientdata q)" using r unfolding pf_rel_def by (rule conjunct1)
    obtain c where c: "send str (clientdata p) = (Ok (), c)" using send_ok [OF s, of str] by (cases "send str (clientdata p)") auto
    obtain d where d: "send' str (clientdata q) = (Ok (), d)" using send_ok [OF s, of str] by (cases "send' str (clientdata q)") auto
    have "S c (charcount q + int (length str)) d" using send_sim [OF s, of str] c d by simp
    then have "pf_rel S (p\<lparr>clientdata := c, charcount := charcount p + int (length str)\<rparr>)
        (q\<lparr>clientdata := d, charcount := charcount q + int (length str)\<rparr>)"
      using r unfolding pf_rel_def by simp
    then show ?thesis using c d by (simp add: pf_print_def kfun_defs)
  qed
  then show ?thesis by (simp add: simk_def)
qed

lemma fill_sim: "simk R (pf_fill send spc) (pf_fill send' spc)"
proof -
  have "simk R (pf_fill_loop send f n) (pf_fill_loop send' f n)" for f n
    by (induction n) (simp_all add: simk_rules print_sim)
  then show ?thesis unfolding pf_fill_def by (intro simk_rules) (simp_all add: pf_rel_def)
qed

lemma printstuff_sim: "simk R (pf_printstuff send a b c) (pf_printstuff send' a b c)"
  unfolding pf_printstuff_def Let_def by (intro simk_rules print_sim fill_sim) (simp_all add: pf_rel_def)

lemma printnum_sim: "simk R (pf_printnum send) (pf_printnum send')"
  unfolding pf_printnum_def Let_def
  by (intro simk_rules) (auto simp: pf_rel_def printstuff_sim simk_intros split: option.split)

lemma args_sim: "simk R va_arg32 va_arg32" "simk R va_arg64 va_arg64" "simk R va_argstr va_argstr"
proof -
  have g: "simk R (kget ap) (kget ap)" by (rule simk_intros) (simp add: pf_rel_def)
  have u: "simk R (kthen (kmod (\<lambda>pf. pf\<lparr>ap := rest\<rparr>)) (kret x)) (kthen (kmod (\<lambda>pf. pf\<lparr>ap := rest\<rparr>)) (kret x))" for rest x
    by (intro simk_kthen simk_intros) (simp add: pf_rel_def)
  show "simk R va_arg32 va_arg32" "simk R va_arg64 va_arg64" "simk R va_argstr va_argstr"
    unfolding va_arg32_def va_arg64_def va_argstr_def
    by (rule simk_kbind [OF g], simp add: u simk_intros(2) split: list.split va_argument.split)+
qed

lemma fields_sim:
  "simk R (pf_modifier ch) (pf_modifier ch)" "simk R (pf_getnum ch) (pf_getnum ch)"
  "simk R (pf_setbase ch) (pf_setbase ch)" "simk R pf_endfield pf_endfield"
  unfolding pf_modifier_def pf_getnum_def pf_setbase_def pf_endfield_def
  by (intro simk_rules args_sim; simp add: pf_rel_def)+

lemma send_sim_all: "simk R (pf_send send ch) (pf_send send' ch)"
  unfolding pf_send_def
  by (intro simk_rules print_sim printstuff_sim printnum_sim args_sim fields_sim) (simp_all add: pf_rel_def)

lemma format_sim: "simk R (pf_format send fmt) (pf_format send' fmt)"
  by (induction fmt) (simp_all add: simk_rules send_sim_all)

lemma vprintf_sim:
  assumes "S c 0 c'"
  shows "fst (vprintf send fmt args c) = fst (vprintf send' fmt args c') \<and>
    (\<exists>n. S (snd (vprintf send fmt args c)) n (snd (vprintf send' fmt args c')) \<and>
      (\<forall>k. fst (vprintf send fmt args c) = Ok k \<longrightarrow> n = k))"
proof -
  have "R (pf_start c args) (pf_start c' args)" using assms by (simp add: pf_rel_def pf_start_def)
  then have "fst (pf_format send fmt (pf_start c args)) = fst (pf_format send' fmt (pf_start c' args))"
    "R (snd (pf_format send fmt (pf_start c args))) (snd (pf_format send' fmt (pf_start c' args)))"
    using format_sim [of fmt] by (simp_all add: simk_def)
  then show ?thesis
    by (auto simp: vprintf_def pf_rel_def split: prod.splits outcome.splits)
qed

end

subsection \<open>Printing into a buffer\<close>

text \<open>The client that collects all the text: the output of a format.\<close>

definition collect :: "byte list \<Rightarrow> (byte list, unit) kfun" where
  "collect str = kmod (\<lambda>out. out @ str)"

text \<open>The buffer of \<open>snprintf\<close> holds what fits of the output, and is untouched behind it.\<close>

definition snp_rel :: "nat \<Rightarrow> byte list \<Rightarrow> byte list \<Rightarrow> int \<Rightarrow> SNP \<Rightarrow> bool" where
  "snp_rel k buf out n snp \<longleftrightarrow> n = int (length out) \<and> snp_buflen snp = k \<and> k \<le> length buf \<and>
     snp_bufpos snp = min (length out) k \<and> snp_buf snp = take k out @ drop (length (take k out)) buf"

lemma snprintf_send_rel:
  "snp_rel k buf out n snp \<Longrightarrow>
   fst (snprintf_send str snp) = Ok () \<and> snp_rel k buf (out @ str) (n + int (length str)) (snd (snprintf_send str snp))"
proof (induction str arbitrary: out n snp)
  case (Cons c str)
  have r: "n = int (length out)" "snp_buflen snp = k" "k \<le> length buf" "snp_bufpos snp = min (length out) k"
    "snp_buf snp = take k out @ drop (length (take k out)) buf" using Cons.prems by (simp_all add: snp_rel_def)
  show ?case
  proof (cases "length out < k")
    case True
    let ?s = "snp\<lparr>snp_buf := (snp_buf snp)[snp_bufpos snp := c], snp_bufpos := snp_bufpos snp + 1\<rparr>"
    have "(snp_buf snp)[length out := c] = out @ c # drop (Suc (length out)) buf"
      using True r by (simp add: list_update_append Cons_nth_drop_Suc [symmetric])
    then have s: "snp_rel k buf (out @ [c]) (n + 1) ?s" using True r by (simp add: snp_rel_def)
    have "snprintf_send (c # str) snp = snprintf_send str ?s"
      using True r by (simp add: kfun_defs)
    then show ?thesis using Cons.IH [OF s] by (simp add: add.assoc)
  next
    case False
    then have s: "snp_rel k buf (out @ [c]) (n + 1) snp" using r by (simp add: snp_rel_def)
    have "snprintf_send (c # str) snp = snprintf_send str snp" using False r by (simp add: kfun_defs)
    then show ?thesis using Cons.IH [OF s] by (simp add: add.assoc)
  qed
qed (simp add: kret_def)

interpretation psnp: printf_sim collect snprintf_send "snp_rel k buf" for k buf
proof
  fix c n c' str
  assume s: "snp_rel k buf c n c'"
  show "fst (collect str c) = Ok () \<and> fst (snprintf_send str c') = Ok ()"
    using snprintf_send_rel [OF s, of str] by (simp add: collect_def kmod_def)
  show "snp_rel k buf (snd (collect str c)) (n + int (length str)) (snd (snprintf_send str c'))"
    using snprintf_send_rel [OF s, of str] by (simp add: collect_def kmod_def)
qed

lemma vsnprintf_output:
  assumes out: "vprintf collect fmt args [] = (Ok n, out)" and len: "len \<le> length buf"
  shows "n = int (length out) \<and>
    vsnprintf len fmt args buf =
      (Ok n, if len = 0 then buf else take (len - 1) out @ 0 # drop (Suc (min (length out) (len - 1))) buf)"
proof -
  let ?k = "len - 1" and ?s = "\<lparr>snp_buf = buf, snp_buflen = len - 1, snp_bufpos = 0\<rparr>"
  have st: "(if len = 0 then 0 else len - 1) = len - 1" by simp
  have r0: "snp_rel ?k buf [] 0 ?s" using len by (simp add: snp_rel_def)
  obtain snp where snp: "vprintf snprintf_send fmt args ?s = (Ok n, snp)" "snp_rel ?k buf out n snp"
    using psnp.vprintf_sim [OF r0, of fmt args] out by (cases "vprintf snprintf_send fmt args ?s") auto
  have r: "n = int (length out)" "snp_bufpos snp = min (length out) ?k" "snp_buf snp = take ?k out @ drop (length (take ?k out)) buf"
    using snp(2) by (simp_all add: snp_rel_def)
  show ?thesis
  proof (cases "len = 0")
    case True
    then show ?thesis using snp(1) r by (simp add: vsnprintf_def)
  next
    case False
    then have b: "min (length out) ?k < length buf" using len by simp
    then have "(snp_buf snp)[snp_bufpos snp := 0] = take ?k out @ 0 # drop (Suc (min (length out) ?k)) buf"
      using r by (simp add: list_update_append Cons_nth_drop_Suc [symmetric] min_def)
    moreover have "snp_bufpos snp < length (snp_buf snp)" using r b by (simp add: min_def)
    ultimately show ?thesis using False snp(1) r by (simp add: vsnprintf_def st)
  qed
qed

lemma vsnprintf_outcome:
  assumes "len \<le> length buf"
  shows "fst (vsnprintf len fmt args buf) = fst (vprintf collect fmt args [])"
proof -
  let ?s = "\<lparr>snp_buf = buf, snp_buflen = len - 1, snp_bufpos = 0\<rparr>"
  have r0: "snp_rel (len - 1) buf [] 0 ?s" using assms by (simp add: snp_rel_def)
  have f: "fst (vprintf collect fmt args []) = fst (vprintf snprintf_send fmt args ?s)" using psnp.vprintf_sim [OF r0] by simp
  have st: "(if len = 0 then 0 else len - 1) = len - 1" by simp
  obtain r out where c: "vprintf collect fmt args [] = (r, out)" by fastforce
  obtain snp where s: "vprintf snprintf_send fmt args ?s = (r, snp)" using f c by (cases "vprintf snprintf_send fmt args ?s") simp
  show ?thesis
  proof (cases r)
    case (Ok n)
    then show ?thesis using vsnprintf_output [OF _ assms, of fmt args n out] c by simp
  qed (unfold vsnprintf_def st s c, simp_all)
qed

subsection \<open>Decimal numbers\<close>

lemma num_str_10: "\<forall>d \<in> set (num_str 10 n). is_digit d" "num_str 10 n \<noteq> []"
proof -
  show "num_str 10 n \<noteq> []" by (subst num_str.simps) simp
  have "\<forall>d \<in> set (num_str b n). is_digit d" if "b = 10" for b using that
  proof (induction b n rule: num_str.induct)
    case (1 b n)
    have "is_digit (pf_digits ! k)" if "k < 10" for k
    proof -
      have "k \<in> {0, 1, 2, 3, 4, 5, 6, 7, 8, 9}" using that by auto
      then show ?thesis by (auto simp: pf_digits_def is_digit_def word_le_nat_alt)
    qed
    then show ?case using 1 by (subst num_str.simps) auto
  qed
  then show "\<forall>d \<in> set (num_str 10 n). is_digit d" by simp
qed

lemma dec_value_num_str: "dec_value (num_str 10 n) = n"
proof -
  have "dec_value (num_str b n) = n" if "b = 10" for b using that
  proof (induction b n rule: num_str.induct)
    case (1 b n)
    have d: "unat (pf_digits ! k) - 48 = k" if "k < 10" for k
    proof -
      have "k \<in> {0, 1, 2, 3, 4, 5, 6, 7, 8, 9}" using that by auto
      then show ?thesis by (auto simp: pf_digits_def)
    qed
    show ?case
    proof (cases "n < b")
      case True
      then show ?thesis using 1 d by (subst num_str.simps) (simp add: dec_value_def)
    next
      case False
      then have "dec_value (num_str b (n div b)) = n div b" using 1 by simp
      then show ?thesis using False 1(2) d [of "n mod 10"] by (subst num_str.simps) (simp add: dec_value_def)
    qed
  qed
  then show ?thesis by simp
qed

lemma print_decimal:
  fixes n :: u32w
  shows "vprintf collect [37, 100] [Arg32 n] [] =
    (Ok (int (length (if sint n < 0 then 45 # num_str 10 (nat (- sint n)) else num_str 10 (nat (sint n))))),
     if sint n < 0 then 45 # num_str 10 (nat (- sint n)) else num_str 10 (nat (sint n)))"
proof -
  let ?x = "scast n :: u64w"
  have x: "sint ?x = sint n" by (simp add: sint_up_scast is_up)
  have b: "- (2 ^ 31) \<le> sint n" "sint n < 2 ^ 31" using sint_greater_eq [of n] sint_less [of n] by simp_all
  have pos: "unat ?x = nat (sint n)" if "\<not> sint n < 0"
  proof -
    have "uint ?x = sint n mod 2 ^ 64" using uint_sint [of ?x] by (simp add: x take_bit_eq_mod)
    then show ?thesis using that b by (simp add: unat_eq_nat_uint)
  qed
  have neg: "unat (- ?x) = nat (- sint n)" if "sint n < 0"
  proof -
    have "uint (- ?x) = (- sint n) mod 2 ^ 64"
      using uint_sint [of ?x] unfolding uint_word_ariths(4) by (simp add: x take_bit_eq_mod mod_minus_eq)
    then show ?thesis using that b by (simp add: unat_eq_nat_uint)
  qed
  let ?p = "pf_start [] [Arg32 n]"
  show ?thesis
    using pos neg unfolding vprintf_def
    by (simp add: pf_start_def pf_send_def pf_modifiers_def pf_getnum_def va_arg32_def pf_setbase_def pf_endfield_def x
        pf_printnum_eq pf_printstuff_def pf_print_def collect_def kfun_defs Let_def)
qed

subsection \<open>Properties\<close>

text \<open>
  C26: \<open>vsnprintf\<close> never writes outside the first \<open>len\<close> bytes of the buffer, and stores as much
  of the output as fits, terminated. Whatever the format and its arguments, it ends the same
  way as formatting without a limit on the space, returns the length of the whole output,
  and leaves the rest of the buffer as it was.
\<close>

theorem vsnprintf_truncates:
  assumes "len \<le> length buf"
  shows "fst (vsnprintf len fmt args buf) = fst (vprintf collect fmt args []) \<and>
    (\<forall>n out. vprintf collect fmt args [] = (Ok n, out) \<longrightarrow> n = int (length out) \<and>
       snd (vsnprintf len fmt args buf) =
         (if len = 0 then buf else take (len - 1) out @ 0 # drop (Suc (min (length out) (len - 1))) buf))"
  using vsnprintf_outcome [OF assms] vsnprintf_output [OF _ assms] by simp

theorem vsnprintf_truncates_witness:
  "snd (vsnprintf 4 [120, 61, 37, 100] [Arg32 123] (replicate 6 7)) = [120, 61, 49, 0, 7, 7]"
proof -
  have "vprintf collect [120, 61, 37, 100] [Arg32 123] [] = (Ok 5, [120, 61, 49, 50, 51])"
    by (simp add: vprintf_def pf_start_def pf_send_def pf_modifiers_def pf_getnum_def va_arg32_def pf_setbase_def pf_endfield_def
        pf_printnum_eq pf_printstuff_def pf_print_def collect_def kfun_defs Let_def num_str.simps pf_digits_def)
  then show ?thesis
    using vsnprintf_truncates [of 4 "replicate 6 7" "[120, 61, 37, 100]" "[Arg32 123]"] by (simp add: eval_nat_numeral)
qed

text \<open>
  C28: the buffer of \<open>__pf_printnum\<close> is large enough for every 64-bit number in every base it
  prints: the digit loop never leaves it, and yields the digits of the number.
\<close>

theorem pf_digits_fit:
  assumes "base \<in> {8, 10, 16}"
  shows "\<exists>buf x. pf_digits_loop (replicate NUMBER_BUF_SIZE 0) (int NUMBER_BUF_SIZE - 2) (unat (num :: u64w)) base = Some (buf, x) \<and>
    -1 \<le> x \<and> length buf = NUMBER_BUF_SIZE \<and> drop (nat (x + 1)) buf = num_str base (unat num) @ [0]"
proof -
  have n: "unat num < 2 ^ 64" using unsigned_less [of num] by simp
  have "(2 :: nat) ^ 64 \<le> 8 ^ Suc 21" by simp
  also have "(8 :: nat) ^ Suc 21 \<le> base ^ Suc 21" by (rule power_mono) (use assms in auto)
  finally have lt: "unat num < base ^ Suc 21" using n by simp
  have b: "2 \<le> base" using assms by auto
  obtain buf' where i: "pf_digits_loop (replicate 23 0) (int 21) (unat num) base = Some (buf', int 21 - int (length (num_str base (unat num))))"
      "length buf' = 23" "drop (Suc 21 - length (num_str base (unat num))) buf' = num_str base (unat num) @ drop (Suc 21) (replicate 23 0)"
    using pf_digits_loop_num [OF b lt, of "replicate 23 0"] by auto
  have le: "length (num_str base (unat num)) \<le> Suc 21" by (rule length_num_str [OF b lt])
  have z: "drop (Suc 21) (replicate 23 (0 :: byte)) = [0]" by simp
  have x: "nat (int 21 - int (length (num_str base (unat num))) + 1) = Suc 21 - length (num_str base (unat num))" using le by simp
  have nb: "NUMBER_BUF_SIZE = 23" "int 23 - 2 = int 21" by (simp_all add: NUMBER_BUF_SIZE_def)
  show ?thesis
    unfolding nb i(1) by (intro exI conjI, rule refl) (use i(2,3) le x z in simp_all)
qed

theorem pf_digits_fit_witness:
  "\<exists>buf x. pf_digits_loop (replicate NUMBER_BUF_SIZE 0) (int NUMBER_BUF_SIZE - 2) (unat (18446744073709551615 :: u64w)) 8 = Some (buf, x) \<and> -1 \<le> x"
  using pf_digits_fit [of 8 "18446744073709551615"] by blast

text \<open>
  C27: \<open>atoi\<close> reads back what \<open>%d\<close> prints. Every 32-bit integer, printed into a buffer of at
  least 12 bytes, comes back from \<open>atoi\<close> as it was.
\<close>

theorem atoi_snprintf:
  assumes "12 \<le> len" "len \<le> length buf"
  shows "\<exists>k buf'. vsnprintf len [37, 100] [Arg32 n] buf = (Ok k, buf') \<and> atoi (mem_write m a buf') a = Some (sint n)"
proof -
  define ds where "ds = num_str 10 (if sint n < 0 then nat (- sint n) else nat (sint n))"
  define sg where "sg = (if sint n < 0 then [45] else [] :: byte list)"
  have b: "- (2 ^ 31) \<le> sint n" "sint n < 2 ^ 31" using sint_greater_eq [of n] sint_less [of n] by simp_all
  have out: "vprintf collect [37, 100] [Arg32 n] [] = (Ok (int (length (sg @ ds))), sg @ ds)"
    using print_decimal [of n] by (simp add: ds_def sg_def)
  have "length ds \<le> Suc 9" unfolding ds_def by (rule length_num_str) (use b in auto)
  then have l: "length (sg @ ds) \<le> len - 1" using assms(1) by (auto simp: sg_def)
  let ?b = "(sg @ ds) @ 0 # drop (Suc (length (sg @ ds))) buf"
  have v: "vsnprintf len [37, 100] [Arg32 n] buf = (Ok (int (length (sg @ ds))), ?b)"
    using vsnprintf_output [OF out assms(2)] l assms(1) by (simp add: min_def)
  have dig: "\<forall>d \<in> set ds. is_digit d" "ds \<noteq> []" using num_str_10 by (simp_all add: ds_def)
  have nz: "0 \<notin> set (sg @ ds)" using dig by (auto simp: sg_def is_digit_def word_le_nat_alt)
  have "cstr_at (mem_write m a ?b) a (sg @ ds)"
  proof -
    have "mem_write m a ?b = mem_write (mem_write m a ((sg @ ds) @ [0])) (a + length ((sg @ ds) @ [0])) (drop (Suc (length (sg @ ds))) buf)"
      by (subst mem_write_append) simp
    then have "mem_write m a ?b x = mem_write m a ((sg @ ds) @ [0]) x" if "a \<le> x" "x \<le> a + length (sg @ ds)" for x
      using that by (simp only: mem_write_other) (auto intro: mem_write_other)
    then show ?thesis using cstr_at_cong [of a "sg @ ds"] cstr_at_write [OF nz] by blast
  qed
  then have c: "cstr_at (mem_write m a ?b) a ([] @ sg @ ds @ [])" by simp
  have "dec_value ds = (if sint n < 0 then nat (- sint n) else nat (sint n))" by (simp add: ds_def dec_value_num_str)
  then have val: "(if sg = [45] then - of_nat (dec_value ds) else of_nat (dec_value ds) :: u32w) = n"
    by (auto simp: sg_def of_nat_nat)
  have "atoi (mem_write m a ?b) a = Some (sint n)"
    using atoi_number [OF c _ _ dig(2,1)] by (simp add: sg_def [symmetric] val) (auto simp: sg_def val [unfolded sg_def])
  then show ?thesis using v by blast
qed

theorem atoi_snprintf_witness:
  "\<exists>k buf'. vsnprintf 12 [37, 100] [Arg32 (-42)] (replicate 12 0) = (Ok k, buf') \<and> atoi (mem_write (\<lambda>_. 0) 64 buf') 64 = Some (-42)"
  using atoi_snprintf [of 12 "replicate 12 0" "-42" "\<lambda>_. 0" 64] by simp

end
