(* ===== verification/Lib_Array.thy ===== *)
theory Lib_Array
  imports Os161_Prelude
begin

text \<open>
  The resizable array of \<open>kern/lib/array.c\<close> and \<open>kern/include/array.h\<close>. \<open>num\<close> and
  \<open>max\<close> are C \<open>unsigned\<close> and keep their width; \<open>v\<close> is the allocated block of slots
  (empty for the null pointer), a slot that was never written being \<open>None\<close>. Whether
  \<open>kmalloc\<close> succeeds is decided by the argument \<open>kmalloc_ok\<close>, a predicate on the number
  of bytes asked for. \<open>ARRAYS_CHECKED\<close> is defined in the source, so \<open>ARRAYASSERT\<close> is
  \<open>KASSERT\<close>.
\<close>

subsection \<open>Model\<close>

record 'a carray =
  arr_v :: "'a option list"
  arr_num :: u32w
  arr_max :: u32w

definition array_init :: "'a carray" where
  "array_init = \<lparr>arr_v = [], arr_num = 0, arr_max = 0\<rparr>"

definition array_create :: "(u32w \<Rightarrow> bool) \<Rightarrow> 'a carray option" where
  "array_create kmalloc_ok = (if kmalloc_ok 12 then Some array_init else None)"

definition array_cleanup :: "('a carray, unit) kfun" where
  "array_cleanup =
     kthen (kassert (\<lambda>a. arr_num a = 0))
           (kmod (\<lambda>a. a\<lparr>arr_v := []\<rparr>))"

definition array_destroy :: "('a carray, unit) kfun" where
  "array_destroy = array_cleanup"

text \<open>The growth loop of \<open>array_preallocate\<close>; \<open>None\<close> when it runs forever.\<close>

partial_function (option) array_newmax :: "u32w \<Rightarrow> u32w \<Rightarrow> u32w option" where
  "array_newmax num newmax =
     (if num > newmax then array_newmax num (if newmax \<noteq> 0 then newmax * 2 else 4)
      else Some newmax)"

definition array_preallocate :: "(u32w \<Rightarrow> bool) \<Rightarrow> u32w \<Rightarrow> ('a carray, unit) kfun" where
  "array_preallocate kmalloc_ok num =
     kbind (kget id) (\<lambda>a.
       if num > arr_max a then
         (case array_newmax num (arr_max a) of
            None \<Rightarrow> khang
          | Some newmax \<Rightarrow>
              if \<not> kmalloc_ok (newmax * 4) then kfail ENOMEM
              else
                let slots = unat (newmax * 4) div 4; n = unat (arr_num a) in
                kthen (kassert (\<lambda>_. n \<le> slots \<and> n \<le> length (arr_v a)))
                  (kmod (\<lambda>a. a\<lparr>arr_v := take n (arr_v a) @ replicate (slots - n) None,
                               arr_max := newmax\<rparr>)))
       else kret ())"

definition array_setsize :: "(u32w \<Rightarrow> bool) \<Rightarrow> u32w \<Rightarrow> ('a carray, unit) kfun" where
  "array_setsize kmalloc_ok num =
     kthen (array_preallocate kmalloc_ok num) (kmod (\<lambda>a. a\<lparr>arr_num := num\<rparr>))"

definition array_num :: "'a carray \<Rightarrow> u32w" where
  "array_num a = arr_num a"

definition array_get :: "u32w \<Rightarrow> ('a carray, 'a option) kfun" where
  "array_get index =
     kthen (kassert (\<lambda>a. index < arr_num a))
       (kthen (kassert (\<lambda>a. unat index < length (arr_v a)))
          (kget (\<lambda>a. arr_v a ! unat index)))"

definition array_set :: "u32w \<Rightarrow> 'a \<Rightarrow> ('a carray, unit) kfun" where
  "array_set index val =
     kthen (kassert (\<lambda>a. index < arr_num a))
       (kthen (kassert (\<lambda>a. unat index < length (arr_v a)))
          (kmod (\<lambda>a. a\<lparr>arr_v := (arr_v a)[unat index := Some val]\<rparr>)))"

definition array_add :: "(u32w \<Rightarrow> bool) \<Rightarrow> 'a \<Rightarrow> ('a carray, u32w) kfun" where
  "array_add kmalloc_ok val =
     kbind (kget arr_num) (\<lambda>index.
       kthen (array_setsize kmalloc_ok (index + 1))
         (kthen (kassert (\<lambda>a. unat index < length (arr_v a)))
            (kthen (kmod (\<lambda>a. a\<lparr>arr_v := (arr_v a)[unat index := Some val]\<rparr>))
               (kret index))))"

text \<open>\<open>memmove\<close> of the slots behind \<open>index\<close> down by one; the slot at \<open>num - 1\<close> keeps its value.\<close>

definition array_remove :: "u32w \<Rightarrow> ('a carray, unit) kfun" where
  "array_remove index =
     kthen (kassert (\<lambda>a. arr_num a \<le> arr_max a))
       (kthen (kassert (\<lambda>a. index < arr_num a))
          (kthen (kassert (\<lambda>a. unat (arr_num a) \<le> length (arr_v a)))
             (kmod (\<lambda>a.
                let num_to_move = unat (arr_num a - (index + 1));
                    moved = take num_to_move (drop (unat index + 1) (arr_v a)) in
                a\<lparr>arr_v := splice_at (unat index) moved (arr_v a),
                  arr_num := arr_num a - 1\<rparr>))))"

subsection \<open>Invariant and abstraction\<close>

text \<open>
  \<open>max\<close> is 0 or 4 times a power of two, the block has \<open>max\<close> slots, and its size in
  bytes fits in 32 bits. The abstraction of an array is the list of its first \<open>num\<close>
  slots.
\<close>

definition array_sizes :: "nat set" where
  "array_sizes = insert 0 {4 * 2 ^ k |k. k < 28}"

definition array_ok :: "'a carray \<Rightarrow> bool" where
  "array_ok a \<longleftrightarrow> arr_num a \<le> arr_max a \<and> length (arr_v a) = unat (arr_max a) \<and>
     unat (arr_max a) \<in> array_sizes"

definition array_list :: "'a carray \<Rightarrow> 'a option list" where
  "array_list a = take (unat (arr_num a)) (arr_v a)"

lemma array_ok_num: "array_ok a \<Longrightarrow> unat (arr_num a) \<le> length (arr_v a)"
  by (simp add: array_ok_def word_le_nat_alt)

lemma length_array_list [simp]: "array_ok a \<Longrightarrow> length (array_list a) = unat (arr_num a)"
  by (simp add: array_list_def array_ok_num)

lemma array_sizes_bound: "n \<in> array_sizes \<Longrightarrow> n < 2 ^ 30"
proof -
  have "4 * 2 ^ k < (2 :: nat) ^ 30" if "k < 28" for k :: nat
  proof -
    have "(2::nat) ^ (k + 2) < 2 ^ 30" using that by (intro power_strict_increasing) auto
    then show ?thesis by (simp add: power_add)
  qed
  then show "n \<in> array_sizes \<Longrightarrow> n < 2 ^ 30" by (auto simp: array_sizes_def)
qed

subsection \<open>Termination of the growth loop\<close>

lemma unat_pow2:
  assumes "k < 30"
  shows "unat (4 * 2 ^ k :: u32w) = 4 * 2 ^ k"
proof -
  have "(2::nat) ^ (k + 2) < 2 ^ 32" using assms by (intro power_strict_increasing) auto
  then have "(4::nat) * 2 ^ k < 2 ^ 32" by (simp add: power_add)
  moreover have "unat (of_nat (4 * 2 ^ k) :: u32w) = (4 * 2 ^ k) mod 2 ^ 32"
    by (simp only: unat_of_nat) simp
  ultimately show ?thesis by simp
qed

lemma array_newmax_stop: "num \<le> m \<Longrightarrow> array_newmax num m = Some m"
  by (subst array_newmax.simps) (simp add: leD)

lemma array_newmax_double: "m < num \<Longrightarrow> m \<noteq> 0 \<Longrightarrow> array_newmax num m = array_newmax num (m * 2)"
  by (subst array_newmax.simps) simp

lemma array_newmax_first: "0 < num \<Longrightarrow> array_newmax num 0 = array_newmax num 4"
  by (subst array_newmax.simps) simp

lemma array_newmax_returns_pow:
  assumes "num \<le> 4 * 2 ^ (k + j)" "k + j < 30"
  shows "\<exists>i. array_newmax num (4 * 2 ^ k) = Some (4 * 2 ^ i) \<and> k \<le> i \<and> i \<le> k + j \<and> num \<le> 4 * 2 ^ i"
  using assms
proof (induction j arbitrary: k)
  case 0
  then show ?case by (intro exI [of _ k]) (simp add: array_newmax_stop)
next
  case (Suc j)
  show ?case
  proof (cases "num > 4 * 2 ^ k")
    case False
    then show ?thesis by (intro exI [of _ k]) (simp add: array_newmax_stop)
  next
    case True
    have "unat (4 * 2 ^ k :: u32w) \<noteq> 0" using Suc.prems unat_pow2 [of k] by simp
    then have nz: "(4 * 2 ^ k :: u32w) \<noteq> 0" by (metis unat_0)
    have "num \<le> 4 * 2 ^ (Suc k + j)" "Suc k + j < 30" using Suc.prems by simp_all
    from Suc.IH [OF this] obtain i where
      "array_newmax num (4 * 2 ^ Suc k) = Some (4 * 2 ^ i)" "Suc k \<le> i" "i \<le> Suc k + j" "num \<le> 4 * 2 ^ i"
      by blast
    moreover have "array_newmax num (4 * 2 ^ k) = array_newmax num (4 * 2 ^ Suc k)"
      using array_newmax_double [OF True nz] by (simp add: mult.commute mult.left_commute)
    ultimately show ?thesis by (intro exI [of _ i]) simp
  qed
qed

lemma array_newmax_returns:
  assumes "num \<le> 2 ^ 29" "unat newmax \<in> array_sizes"
  obtains r where "array_newmax num newmax = Some r" "num \<le> r" "newmax \<le> r" "unat r \<in> array_sizes"
proof -
  have start: "\<exists>r. array_newmax num (4 * 2 ^ k) = Some r \<and> num \<le> r \<and> 4 * 2 ^ k \<le> r \<and> unat r \<in> array_sizes"
    if k: "k < 28" for k
  proof -
    have "num \<le> 4 * 2 ^ (k + (27 - k))" "k + (27 - k) < 30" using assms(1) k by simp_all
    from array_newmax_returns_pow [OF this] obtain i where
      i: "array_newmax num (4 * 2 ^ k) = Some (4 * 2 ^ i)" "k \<le> i" "i \<le> 27" "num \<le> 4 * 2 ^ i"
      using k by auto
    have "(4 * 2 ^ k :: u32w) \<le> 4 * 2 ^ i"
      using i k by (simp add: word_le_nat_alt unat_pow2)
    then show ?thesis using i by (auto simp: array_sizes_def unat_pow2 intro!: exI [of _ i])
  qed
  consider "newmax = 0" | k where "k < 28" "newmax = 4 * 2 ^ k"
  proof -
    from assms(2) consider "unat newmax = 0" | k where "unat newmax = 4 * 2 ^ k" "k < 28"
      by (auto simp: array_sizes_def)
    then show thesis
    proof cases
      case 1
      then show thesis using that(1) by (simp add: unat_eq_zero)
    next
      case (2 k)
      then have "unat newmax = unat (4 * 2 ^ k :: u32w)" by (simp add: unat_pow2)
      then show thesis using that(2) 2 by (simp add: word_unat_eq_iff)
    qed
  qed
  then show thesis
  proof cases
    case 1
    show thesis
    proof (cases "num = 0")
      case True
      then show thesis using that [of 0] 1 by (simp add: array_newmax_stop array_sizes_def)
    next
      case False
      then have "array_newmax num newmax = array_newmax num 4"
        using 1 by (simp add: array_newmax_first word_gt_0)
      then show thesis using that start [of 0] 1 by auto
    qed
  next
    case (2 k)
    then show thesis using that start [of k] by auto
  qed
qed

text \<open>Above half the range of \<open>unsigned\<close>, doubling wraps to 0 and the loop starts over.\<close>

definition array_loop_sizes :: "u32w set" where
  "array_loop_sizes = {m. m \<le> 2 ^ 31 \<and> (m = 0 \<or> (\<exists>k<30. m = 4 * 2 ^ k))}"

lemma array_loop_sizes_step:
  assumes "m \<in> array_loop_sizes"
  shows "(if m \<noteq> 0 then m * 2 else 4) \<in> array_loop_sizes"
proof (cases "m = 0")
  case True
  then show ?thesis by (auto simp: array_loop_sizes_def intro!: exI [of _ 0])
next
  case False
  then obtain k where k: "k < 30" "m = 4 * 2 ^ k" using assms by (auto simp: array_loop_sizes_def)
  show ?thesis
  proof (cases "k = 29")
    case True
    then show ?thesis using k by (simp add: array_loop_sizes_def)
  next
    case False
    then have "Suc k < 30" using k by simp
    then have "unat (4 * 2 ^ Suc k :: u32w) = 4 * 2 ^ Suc k" by (rule unat_pow2)
    moreover have "(4::nat) * 2 ^ Suc k \<le> 4 * 2 ^ 29"
      using \<open>Suc k < 30\<close> by (intro mult_left_mono power_increasing) auto
    ultimately have "(4 * 2 ^ Suc k :: u32w) \<le> 2 ^ 31" by (simp add: word_le_nat_alt)
    then show ?thesis using k \<open>m \<noteq> 0\<close> \<open>Suc k < 30\<close>
      by (auto simp: array_loop_sizes_def mult.commute mult.left_commute intro!: exI [of _ "Suc k"])
  qed
qed

lemma array_newmax_diverges:
  assumes ret: "array_newmax num m = Some r" and "m \<in> array_loop_sizes"
  shows "num \<le> 2 ^ 31"
proof -
  have "m \<in> array_loop_sizes \<longrightarrow> num \<le> 2 ^ 31"
  proof (rule array_newmax.raw_induct [where P = "\<lambda>num m r. m \<in> array_loop_sizes \<longrightarrow> num \<le> 2 ^ 31", OF _ ret])
    fix f num m r
    assume IH: "\<And>num m r. f num m = Some r \<Longrightarrow> m \<in> array_loop_sizes \<longrightarrow> num \<le> 2 ^ 31"
      and eq: "(if num > m then f num (if m \<noteq> 0 then m * 2 else 4) else Some m) = Some r"
    show "m \<in> array_loop_sizes \<longrightarrow> num \<le> 2 ^ 31"
    proof
      assume m: "m \<in> array_loop_sizes"
      show "num \<le> 2 ^ 31"
      proof (cases "num > m")
        case True
        with eq have "f num (if m \<noteq> 0 then m * 2 else 4) = Some r" by simp
        from IH [OF this] array_loop_sizes_step [OF m] show ?thesis by blast
      next
        case False
        then have "num \<le> m" by simp
        also have "m \<le> 2 ^ 31" using m by (simp add: array_loop_sizes_def)
        finally show ?thesis .
      qed
    qed
  qed
  with assms(2) show ?thesis by blast
qed

subsection \<open>Behaviour of the operations on the abstract list\<close>

lemma array_ok_init [simp]: "array_ok array_init" "array_list array_init = []"
  by (simp_all add: array_init_def array_ok_def array_list_def array_sizes_def)

text \<open>Growing to \<open>num\<close> slots needs memory, and does not get it.\<close>

definition refused :: "(u32w \<Rightarrow> bool) \<Rightarrow> u32w \<Rightarrow> 'a carray \<Rightarrow> bool" where
  "refused kmalloc_ok num a \<longleftrightarrow> arr_max a < num \<and> (\<exists>r. array_newmax num (arr_max a) = Some r \<and> \<not> kmalloc_ok (r * 4))"

lemma array_preallocate_wp:
  assumes ok: "array_ok a" and num: "num \<le> 2 ^ 29"
  shows "wp (array_preallocate kmalloc_ok num)
           (\<lambda>_ a'. array_ok a' \<and> array_list a' = array_list a \<and> arr_num a' = arr_num a \<and>
                   num \<le> arr_max a' \<and> \<not> refused kmalloc_ok num a)
           (\<lambda>e a'. e = ENOMEM \<and> a' = a \<and> refused kmalloc_ok num a) a"
proof (cases "num > arr_max a")
  case False
  then show ?thesis using ok by (auto simp: array_preallocate_def refused_def leD)
next
  case True
  have "unat (arr_max a) \<in> array_sizes" using ok by (simp add: array_ok_def)
  from array_newmax_returns [OF num this] obtain r where
    r: "array_newmax num (arr_max a) = Some r" "num \<le> r" "arr_max a \<le> r" "unat r \<in> array_sizes" .
  have slots: "unat (r * 4) div 4 = unat r"
    using array_sizes_bound [OF r(4)] by (simp add: unat_word_ariths)
  have n: "unat (arr_num a) \<le> length (arr_v a)" by (rule array_ok_num [OF ok])
  have le: "arr_num a \<le> r" using ok r(3) by (auto simp: array_ok_def)
  then have "unat (arr_num a) \<le> unat r" by (simp add: word_le_nat_alt)
  then show ?thesis
    using True r n le by (auto simp: array_preallocate_def refused_def Let_def slots array_ok_def array_list_def)
qed

lemma array_setsize_wp:
  assumes "array_ok a" and "num \<le> 2 ^ 29" and "arr_num a \<le> num"
  shows "wp (array_setsize kmalloc_ok num)
           (\<lambda>_ a'. array_ok a' \<and> arr_num a' = num \<and>
                   (\<exists>xs. array_list a' = array_list a @ xs \<and> length xs = unat (num - arr_num a)) \<and>
                   \<not> refused kmalloc_ok num a)
           (\<lambda>e a'. e = ENOMEM \<and> a' = a \<and> refused kmalloc_ok num a) a"
proof -
  have "array_ok (t\<lparr>arr_num := num\<rparr>) \<and>
        (\<exists>xs. array_list (t\<lparr>arr_num := num\<rparr>) = array_list a @ xs \<and> length xs = unat (num - arr_num a))"
    if t: "array_ok t" "array_list t = array_list a" "arr_num t = arr_num a" "num \<le> arr_max t" for t
  proof -
    have le: "unat (arr_num a) \<le> unat num" using assms(3) by (simp add: word_le_nat_alt)
    have len: "unat num \<le> length (arr_v t)" using t by (simp add: array_ok_def word_le_nat_alt)
    have "take (unat num) (arr_v t) = array_list a @ take (unat num - unat (arr_num a)) (drop (unat (arr_num a)) (arr_v t))"
      using le t take_add [of "unat (arr_num a)" "unat num - unat (arr_num a)" "arr_v t"]
      by (simp add: array_list_def)
    then show ?thesis
      using t assms le len by (auto simp: array_ok_def array_list_def unat_sub)
  qed
  then show ?thesis
    unfolding array_setsize_def wp_kthen wp_kmod
    by (intro wp_conseq [OF array_preallocate_wp [OF assms(1,2)]]) auto
qed

text \<open>Appending: the new element is at the end, the old ones are kept; on failure nothing changes.\<close>

lemma array_add_wp:
  assumes ok: "array_ok a" and num: "arr_num a < 2 ^ 29"
  shows "wp (array_add kmalloc_ok x)
           (\<lambda>i a'. array_ok a' \<and> i = arr_num a \<and> array_list a' = array_list a @ [Some x] \<and>
                   arr_num a' = arr_num a + 1 \<and> \<not> refused kmalloc_ok (arr_num a + 1) a)
           (\<lambda>e a'. e = ENOMEM \<and> a' = a \<and> refused kmalloc_ok (arr_num a + 1) a) a"
proof -
  have no_wrap: "unat (arr_num a + 1) = unat (arr_num a) + 1"
    using num by (simp add: unat_word_ariths word_less_nat_alt)
  have pre: "arr_num a + 1 \<le> 2 ^ 29" "arr_num a \<le> arr_num a + 1"
    using num no_wrap by (simp_all add: word_le_nat_alt word_less_nat_alt)
  have step: "unat (arr_num a) < length (arr_v t) \<and>
        array_ok (t\<lparr>arr_v := (arr_v t)[unat (arr_num a) := Some x]\<rparr>) \<and>
        array_list (t\<lparr>arr_v := (arr_v t)[unat (arr_num a) := Some x]\<rparr>) = array_list a @ [Some x]"
    if t: "array_ok t" "arr_num t = arr_num a + 1" "array_list t = array_list a @ xs"
      "length xs = unat (arr_num a + 1 - arr_num a)" for t xs
  proof -
    have len: "unat (arr_num a) + 1 \<le> length (arr_v t)"
      using array_ok_num [OF t(1)] t(2) no_wrap by simp
    obtain y where y: "xs = [y]" using t(4) by (auto simp: length_Suc_conv)
    have "take (unat (arr_num a) + 1) ((arr_v t)[unat (arr_num a) := Some x]) = (array_list t)[unat (arr_num a) := Some x]"
      using t(2) no_wrap by (simp add: array_list_def take_update_swap)
    also have "\<dots> = array_list a @ [Some x]"
      using ok t(3) y by (simp add: list_update_append)
    finally show ?thesis
      using t len no_wrap by (simp add: array_ok_def array_list_def)
  qed
  show ?thesis
    unfolding array_add_def wp_kbind wp_kget wp_kthen wp_kassert wp_kmod wp_kret
    by (intro wp_conseq [OF array_setsize_wp [OF ok pre]]) (use step in auto)
qed

lemma array_get_wp:
  assumes "array_ok a" and "i < arr_num a"
  shows "wp (array_get i) (\<lambda>x a'. a' = a \<and> x = array_list a ! unat i) E a"
  using assms array_ok_num [of a]
  by (auto simp: array_get_def array_list_def word_less_nat_alt)

lemma array_set_wp:
  assumes "array_ok a" and "i < arr_num a"
  shows "wp (array_set i x) (\<lambda>_ a'. array_ok a' \<and> array_list a' = (array_list a)[unat i := Some x] \<and>
           arr_num a' = arr_num a) E a"
  using assms array_ok_num [of a]
  by (auto simp: array_set_def array_list_def array_ok_def word_less_nat_alt take_update_swap)

lemma array_remove_wp:
  assumes ok: "array_ok a" and i: "i < arr_num a"
  shows "wp (array_remove i)
           (\<lambda>_ a'. array_ok a' \<and> arr_num a' = arr_num a - 1 \<and>
              array_list a' = take (unat i) (array_list a) @ drop (unat i + 1) (array_list a)) E a"
proof -
  let ?n = "unat (arr_num a)" and ?v = "arr_v a"
  have n: "?n \<le> length ?v" by (rule array_ok_num [OF ok])
  have i': "unat i < ?n" using i by (simp add: word_less_nat_alt)
  have "?n < 2 ^ 32" using unsigned_less [of "arr_num a"] by simp
  then have i1: "unat (i + 1) = unat i + 1" using i' by (simp add: unat_word_ariths)
  have "i + 1 \<le> arr_num a" using i' i1 by (simp add: word_le_nat_alt)
  then have move: "unat (arr_num a - (i + 1)) = ?n - (unat i + 1)" by (simp add: unat_sub i1)
  have dec: "unat (arr_num a - 1) = ?n - 1"
    using i' by (subst unat_sub) (auto simp: word_le_nat_alt)
  let ?moved = "take (?n - (unat i + 1)) (drop (unat i + 1) ?v)"
  let ?v' = "splice_at (unat i) ?moved ?v"
  have len: "length ?v' = length ?v"
    using n i' by (intro length_splice_at) auto
  have "take (?n - 1) ?v' = take (unat i) (take ?n ?v) @ drop (unat i + 1) (take ?n ?v)"
    by (rule take_splice_remove [OF i' n])
  moreover have "arr_num a - 1 \<le> arr_num a" using dec by (simp add: word_le_nat_alt)
  ultimately show ?thesis
    using ok i n len unfolding array_remove_def
    by (auto simp: array_ok_def array_list_def move dec Let_def)
qed

subsection \<open>Properties\<close>

lemma array_sizes_loop: "array_ok a \<Longrightarrow> arr_max a \<in> array_loop_sizes"
proof -
  assume "array_ok a"
  then consider "unat (arr_max a) = 0" | k where "unat (arr_max a) = 4 * 2 ^ k" "k < 28"
    by (auto simp: array_ok_def array_sizes_def)
  then show ?thesis
  proof cases
    case 1
    then show ?thesis by (simp add: array_loop_sizes_def unat_eq_zero)
  next
    case (2 k)
    then have "unat (arr_max a) = unat (4 * 2 ^ k :: u32w)" by (simp add: unat_pow2)
    then have "arr_max a = 4 * 2 ^ k" by (simp add: word_unat_eq_iff)
    moreover have "(4::nat) * 2 ^ k \<le> 2 ^ 31"
      using 2 array_sizes_bound [of "4 * 2 ^ k"] by (auto simp: array_sizes_def)
    then have "arr_max a \<le> 2 ^ 31" using 2(1) by (simp add: word_le_nat_alt)
    ultimately show ?thesis using 2(2) by (auto simp: array_loop_sizes_def intro!: exI [of _ k])
  qed
qed

text \<open>
  C32: growing an array to more than \<open>2^31\<close> elements never returns. The doubling loop of
  \<open>array_preallocate\<close> wraps to 0 before it reaches the size asked for and starts over, so the
  call hangs instead of failing with \<open>ENOMEM\<close>.
\<close>

theorem array_preallocate_hangs:
  assumes "array_ok a" and "num > 2 ^ 31"
  shows "array_preallocate kmalloc_ok num a = (Hang, a)"
proof -
  have "arr_max a \<le> 2 ^ 31" using array_sizes_loop [OF assms(1)] by (simp add: array_loop_sizes_def)
  then have "num > arr_max a" using assms(2) by simp
  moreover have "array_newmax num (arr_max a) = None"
    using array_newmax_diverges [OF _ array_sizes_loop [OF assms(1)]] assms(2)
    by (metis leD not_None_eq)
  ultimately show ?thesis
    by (simp add: array_preallocate_def kbind_def kget_def khang_def)
qed

theorem array_preallocate_hangs_witness:
  "array_preallocate (\<lambda>_. False) (2 ^ 31 + 1) (array_init :: nat carray) = (Hang, array_init)"
  by (rule array_preallocate_hangs) simp_all

text \<open>The size a full array grows to.\<close>

definition grown :: "'a carray \<Rightarrow> u32w" where
  "grown a = (if arr_max a = 0 then 4 else arr_max a * 2)"

lemma array_add_refused:
  assumes ok: "array_ok a" and num: "arr_num a < 2 ^ 29"
  shows "refused kmalloc_ok (arr_num a + 1) a \<longleftrightarrow> arr_num a = arr_max a \<and> \<not> kmalloc_ok (grown a * 4)"
proof -
  have n: "unat (arr_num a) < 2 ^ 29" using num by (simp add: word_less_nat_alt)
  then have u: "unat (arr_num a + 1) = unat (arr_num a) + 1" by (simp add: unat_word_ariths)
  have le: "unat (arr_num a) \<le> unat (arr_max a)" using ok by (simp add: array_ok_def word_le_nat_alt)
  have full: "arr_max a < arr_num a + 1 \<longleftrightarrow> arr_num a = arr_max a"
    using le u by (auto simp: word_less_nat_alt word_unat_eq_iff)
  have "array_newmax (arr_num a + 1) (arr_max a) = Some (grown a)" if f: "arr_num a = arr_max a"
  proof (cases "arr_max a = 0")
    case True
    then show ?thesis using f by (simp add: array_newmax_first array_newmax_stop grown_def)
  next
    case False
    have d: "unat (arr_max a * 2) = unat (arr_max a) * 2" using n f by (simp add: unat_word_ariths)
    have "0 < unat (arr_max a)" using False by (simp add: unat_gt_0)
    then have "arr_num a + 1 \<le> arr_max a * 2" using u d f by (simp add: word_le_nat_alt)
    moreover have "arr_max a < arr_num a + 1" using full f by simp
    ultimately show ?thesis using False by (simp add: array_newmax_double array_newmax_stop grown_def)
  qed
  then show ?thesis using full by (auto simp: refused_def)
qed

text \<open>
  C33: below \<open>2^29\<close> elements the array is a list. \<open>array_add\<close> returns; it appends its argument
  and hands back the index it got, or it reports \<open>ENOMEM\<close> with the array as it was. It reports
  \<open>ENOMEM\<close> exactly if all slots are in use and \<open>kmalloc\<close> refuses a block of four slots for an
  array without any, or else of twice as many slots as there are, of four bytes each.
\<close>

theorem array_add_list:
  assumes "array_ok a" and "arr_num a < 2 ^ 29"
  shows "wp (array_add kmalloc_ok x)
           (\<lambda>i a'. (arr_num a = arr_max a \<longrightarrow> kmalloc_ok ((if arr_max a = 0 then 4 else arr_max a * 2) * 4)) \<and>
              array_ok a' \<and> unat i = length (array_list a) \<and> array_list a' = array_list a @ [Some x])
           (\<lambda>e a'. e = ENOMEM \<and> a' = a \<and> arr_num a = arr_max a \<and> \<not> kmalloc_ok ((if arr_max a = 0 then 4 else arr_max a * 2) * 4)) a"
  unfolding grown_def [symmetric]
  by (rule wp_conseq [OF array_add_wp [OF assms]]) (use assms(1) array_add_refused [OF assms] in auto)

theorem array_add_list_witness:
  "wp (array_add (\<lambda>n. n = 16) (7::nat)) (\<lambda>i a'. array_ok a' \<and> unat i = 0 \<and> array_list a' = [Some 7]) (\<lambda>_ _. False) array_init"
proof -
  have "arr_num (array_init :: nat carray) < 2 ^ 29" by (simp add: array_init_def)
  from array_add_list [OF array_ok_init(1) this, of "\<lambda>n. n = 16" 7] show ?thesis
    by (rule wp_conseq) (simp_all add: array_init_def array_list_def)
qed

text \<open>
  C34: \<open>array_remove\<close> takes one element out of the list and slides the ones behind it down;
  it neither fails nor touches the elements before it.
\<close>

theorem array_remove_list:
  assumes "array_ok a" and "i < arr_num a"
  shows "wp (array_remove i)
           (\<lambda>_ a'. array_ok a' \<and>
              array_list a' = take (unat i) (array_list a) @ drop (unat i + 1) (array_list a)) (\<lambda>_ _. False) a"
  by (rule wp_conseq [OF array_remove_wp [OF assms]]) auto

definition array_demo :: "nat carray" where
  "array_demo = \<lparr>arr_v = [Some 5, Some 6, Some 7, None], arr_num = 3, arr_max = 4\<rparr>"

lemma array_demo_ok: "array_ok array_demo"
  by (auto simp: array_demo_def array_ok_def array_sizes_def intro!: exI [of _ 0])

theorem array_remove_list_witness:
  "wp (array_remove 1) (\<lambda>_ a'. array_ok a' \<and> array_list a' = [Some 5, Some 7]) (\<lambda>_ _. False) array_demo"
proof -
  have "array_list array_demo = [Some 5, Some 6, Some 7]"
    by (simp add: array_demo_def array_list_def)
  moreover have "1 < arr_num array_demo" by (simp add: array_demo_def)
  ultimately show ?thesis using array_remove_list [OF array_demo_ok, of 1] by simp
qed

end
