(* ===== verification/Lib_Bitmap.thy ===== *)
theory Lib_Bitmap
  imports Os161_Prelude
begin

text \<open>
  The fixed-size bit array of \<open>kern/lib/bitmap.c\<close>, the kernel's storage allocation map.
  \<open>WORD_TYPE\<close> is \<open>unsigned char\<close>, so the bits are kept in bytes. An access outside the
  byte array is a panic of the model. The interface its clients use is the locale
  \<open>storage_map\<close>; the bitmap is its implementation.
\<close>

subsection \<open>Model\<close>

record bitmap =
  bm_nbits :: nat
  bm_v :: "byte list"

definition bit_mask :: "nat \<Rightarrow> byte" where
  "bit_mask offset = push_bit offset 1"

text \<open>The loop of \<open>bitmap_create\<close> that marks the leftover bits of the last byte.\<close>

function bitmap_mark_over :: "nat \<Rightarrow> byte \<Rightarrow> byte" where
  "bitmap_mark_over j w = (if j < 8 then bitmap_mark_over (Suc j) (w OR bit_mask j) else w)"
  by pat_completeness auto
termination
  by (relation "measure (\<lambda>(j, w). 8 - j)") auto

definition bitmap_create :: "(nat \<Rightarrow> bool) \<Rightarrow> nat \<Rightarrow> bitmap option outcome" where
  "bitmap_create kmalloc_ok nbits =
     (let words = divroundup nbits 8 in
      if \<not> kmalloc_ok 8 then Ok None
      else if \<not> kmalloc_ok words then Ok None
      else
        let v = replicate words 0 in
        if words > nbits div 8 then
          let ix = words - 1; overbits = nbits - ix * 8 in
          if nbits div 8 = words - 1 \<and> overbits > 0 \<and> overbits < 8 then
            Ok (Some \<lparr>bm_nbits = nbits, bm_v = v[ix := bitmap_mark_over overbits (v ! ix)]\<rparr>)
          else Panic
        else Ok (Some \<lparr>bm_nbits = nbits, bm_v = v\<rparr>))"

definition bitmap_getdata :: "bitmap \<Rightarrow> byte list" where
  "bitmap_getdata b = bm_v b"

text \<open>The inner loop of \<open>bitmap_alloc\<close>: the first clear bit of a byte, from \<open>offset\<close> up.\<close>

function bitmap_scan_byte :: "byte \<Rightarrow> nat \<Rightarrow> nat option" where
  "bitmap_scan_byte w offset =
     (if offset < 8 then
        if w AND bit_mask offset = 0 then Some offset else bitmap_scan_byte w (Suc offset)
      else None)"
  by pat_completeness auto
termination
  by (relation "measure (\<lambda>(w, offset). 8 - offset)") auto

text \<open>The outer loop: the rest of the byte array, with the index of its first byte.\<close>

function bitmap_alloc_loop :: "nat \<Rightarrow> nat \<Rightarrow> (bitmap, nat) kfun" where
  "bitmap_alloc_loop ix maxix b =
     (if ix < maxix then
        if ix \<ge> length (bm_v b) then (Panic, b)
        else if bm_v b ! ix \<noteq> 255 then
          (case bitmap_scan_byte (bm_v b ! ix) 0 of
             Some offset \<Rightarrow>
               let b' = b\<lparr>bm_v := (bm_v b)[ix := bm_v b ! ix OR bit_mask offset]\<rparr>;
                   index = ix * 8 + offset in
               if index < bm_nbits b then (Ok index, b') else (Panic, b')
           | None \<Rightarrow> (Panic, b))
        else bitmap_alloc_loop (Suc ix) maxix b
      else (Err ENOSPC, b))"
  by pat_completeness auto
termination
  by (relation "measure (\<lambda>(ix, maxix, b). maxix - ix)") auto

definition bitmap_alloc :: "(bitmap, nat) kfun" where
  "bitmap_alloc = (\<lambda>b. bitmap_alloc_loop 0 (divroundup (bm_nbits b) 8) b)"

definition bitmap_translate :: "nat \<Rightarrow> nat \<times> byte" where
  "bitmap_translate bitno = (bitno div 8, bit_mask (bitno mod 8))"

definition bitmap_mark :: "nat \<Rightarrow> (bitmap, unit) kfun" where
  "bitmap_mark index =
     (case bitmap_translate index of (ix, msk) \<Rightarrow>
       kthen (kassert (\<lambda>b. index < bm_nbits b))
         (kthen (kassert (\<lambda>b. ix < length (bm_v b)))
            (kthen (kassert (\<lambda>b. bm_v b ! ix AND msk = 0))
               (kmod (\<lambda>b. b\<lparr>bm_v := (bm_v b)[ix := bm_v b ! ix OR msk]\<rparr>)))))"

definition bitmap_unmark :: "nat \<Rightarrow> (bitmap, unit) kfun" where
  "bitmap_unmark index =
     (case bitmap_translate index of (ix, msk) \<Rightarrow>
       kthen (kassert (\<lambda>b. index < bm_nbits b))
         (kthen (kassert (\<lambda>b. ix < length (bm_v b)))
            (kthen (kassert (\<lambda>b. bm_v b ! ix AND msk \<noteq> 0))
               (kmod (\<lambda>b. b\<lparr>bm_v := (bm_v b)[ix := bm_v b ! ix AND NOT msk]\<rparr>)))))"

definition bitmap_isset :: "nat \<Rightarrow> (bitmap, bool) kfun" where
  "bitmap_isset index =
     (case bitmap_translate index of (ix, msk) \<Rightarrow>
       kthen (kassert (\<lambda>b. ix < length (bm_v b)))
         (kget (\<lambda>b. bm_v b ! ix AND msk \<noteq> 0)))"

subsection \<open>The interface: a map of blocks in use\<close>

locale storage_map =
  fixes alloc :: "('m, nat) kfun"
    and mark :: "nat \<Rightarrow> ('m, unit) kfun"
    and unmark :: "nat \<Rightarrow> ('m, unit) kfun"
    and isset :: "nat \<Rightarrow> ('m, bool) kfun"
    and invar :: "'m \<Rightarrow> bool"
    and capacity :: "'m \<Rightarrow> nat"
    and used :: "'m \<Rightarrow> nat set"
  assumes used_bound: "invar m \<Longrightarrow> used m \<subseteq> {..<capacity m}"
    and alloc_wp: "invar m \<Longrightarrow>
      wp alloc
        (\<lambda>i m'. invar m' \<and> capacity m' = capacity m \<and> i < capacity m \<and> i \<notin> used m \<and>
                {..<i} \<subseteq> used m \<and> used m' = insert i (used m))
        (\<lambda>e m'. e = ENOSPC \<and> m' = m \<and> used m = {..<capacity m}) m"
    and mark_wp: "invar m \<Longrightarrow> i < capacity m \<Longrightarrow> i \<notin> used m \<Longrightarrow>
      wp (mark i) (\<lambda>_ m'. invar m' \<and> capacity m' = capacity m \<and> used m' = insert i (used m)) E m"
    and unmark_wp: "invar m \<Longrightarrow> i < capacity m \<Longrightarrow> i \<in> used m \<Longrightarrow>
      wp (unmark i) (\<lambda>_ m'. invar m' \<and> capacity m' = capacity m \<and> used m' = used m - {i}) E m"
    and isset_wp: "invar m \<Longrightarrow> i < capacity m \<Longrightarrow>
      wp (isset i) (\<lambda>r m'. m' = m \<and> (r \<longleftrightarrow> i \<in> used m)) E m"
begin

text \<open>Freeing what was just allocated gives back the same set of blocks.\<close>

lemma alloc_unmark:
  assumes "invar m"
  shows "wp (kbind alloc unmark) (\<lambda>_ m'. invar m' \<and> used m' = used m) (\<lambda>e m'. m' = m) m"
  unfolding wp_kbind
  by (rule wp_conseq [OF alloc_wp [OF assms]]) (auto intro!: wp_conseq [OF unmark_wp])

text \<open>\<open>n\<close> allocations in a row, and how many succeed.\<close>

fun alloc_many :: "nat \<Rightarrow> ('m, nat list) kfun" where
  "alloc_many 0 = kret []"
| "alloc_many (Suc n) = kbind alloc (\<lambda>i. kbind (alloc_many n) (\<lambda>is. kret (i # is)))"

lemma alloc_many_wp:
  assumes "invar m" and "card (used m) + n \<le> capacity m"
  shows "wp (alloc_many n)
           (\<lambda>is m'. invar m' \<and> capacity m' = capacity m \<and> length is = n \<and> distinct is \<and>
                    set is \<inter> used m = {} \<and> used m' = used m \<union> set is)
           (\<lambda>_ _. False) m"
  using assms
proof (induction n arbitrary: m)
  case 0
  then show ?case by simp
next
  case (Suc n)
  have fin: "finite (used m)" by (rule finite_subset [OF used_bound [OF Suc.prems(1)]]) simp
  have not_full: "used m \<noteq> {..<capacity m}"
  proof
    assume "used m = {..<capacity m}"
    then have "card (used m) = capacity m" by (simp only: card_lessThan)
    with Suc.prems(2) show False by linarith
  qed
  have card: "card (insert i (used m)) + n \<le> capacity m" if "i \<notin> used m" for i
    using that Suc.prems(2) card_insert_disjoint [OF fin that] by linarith
  show ?case
    unfolding alloc_many.simps wp_kbind wp_kret
  proof (rule wp_conseq [OF alloc_wp [OF Suc.prems(1)]])
    fix i m' assume "invar m' \<and> capacity m' = capacity m \<and> i < capacity m \<and> i \<notin> used m \<and>
                {..<i} \<subseteq> used m \<and> used m' = insert i (used m)"
    then have m': "invar m'" "capacity m' = capacity m" "i \<notin> used m" "used m' = insert i (used m)"
      by blast+
    then have "card (used m') + n \<le> capacity m'" using card by simp
    from Suc.IH [OF m'(1) this]
    show "wp (alloc_many n) (\<lambda>is m'. invar m' \<and> capacity m' = capacity m \<and> length (i # is) = Suc n \<and>
        distinct (i # is) \<and> set (i # is) \<inter> used m = {} \<and> used m' = used m \<union> set (i # is)) (\<lambda>_ _. False) m'"
      by (rule wp_conseq) (use m' in auto)
  next
    fix e m' assume "e = ENOSPC \<and> m' = m \<and> used m = {..<capacity m}"
    then show False using not_full by blast
  qed
qed

end

subsection \<open>The bitmap implements the interface\<close>

definition bitmap_bit :: "bitmap \<Rightarrow> nat \<Rightarrow> bool" where
  "bitmap_bit b i = bit (bm_v b ! (i div 8)) (i mod 8)"

definition bitmap_ok :: "bitmap \<Rightarrow> bool" where
  "bitmap_ok b \<longleftrightarrow> bm_nbits b + 8 < 2 ^ 32 \<and> length (bm_v b) = divroundup (bm_nbits b) 8 \<and>
     (\<forall>i < 8 * length (bm_v b). bm_nbits b \<le> i \<longrightarrow> bitmap_bit b i)"

definition bitmap_used :: "bitmap \<Rightarrow> nat set" where
  "bitmap_used b = {i. i < bm_nbits b \<and> bitmap_bit b i}"

lemma bit_mask_eq: "bit_mask n = 2 ^ n"
  by (simp add: bit_mask_def push_bit_eq_mult)

lemma bit_bit_mask [simp]: "bit (bit_mask n) i \<longleftrightarrow> i = n \<and> n < 8"
  by (auto simp: bit_mask_eq bit_exp_iff)

lemma and_bit_mask_eq_0 [simp]: "w AND bit_mask n = 0 \<longleftrightarrow> \<not> bit w n"
  by (simp add: bit_mask_eq and_exp_eq_0_iff_not_bit)

lemma divroundup_8: "n + 8 < 2 ^ 32 \<Longrightarrow> divroundup n 8 = (n + 7) div 8"
  by (simp add: divroundup_def u32_def)

lemma bitmap_ok_index: "bitmap_ok b \<Longrightarrow> i < bm_nbits b \<Longrightarrow> i div 8 < length (bm_v b)"
  by (auto simp: bitmap_ok_def divroundup_8)

declare bitmap_scan_byte.simps [simp del] bitmap_mark_over.simps [simp del]
  bitmap_alloc_loop.simps [simp del]

lemma bitmap_scan_byte_Some:
  "bitmap_scan_byte w j = Some k \<Longrightarrow> j \<le> k \<and> k < 8 \<and> \<not> bit w k \<and> (\<forall>i. j \<le> i \<longrightarrow> i < k \<longrightarrow> bit w i)"
proof (induction w j rule: bitmap_scan_byte.induct)
  case (1 w j)
  show ?case
  proof (cases "j < 8 \<and> bit w j")
    case True
    with "1.prems" have "bitmap_scan_byte w (Suc j) = Some k"
      by (subst (asm) bitmap_scan_byte.simps) simp
    with "1.IH" True show ?thesis by (metis Suc_leD Suc_leI order_le_imp_less_or_eq and_bit_mask_eq_0)
  next
    case False
    with "1.prems" show ?thesis by (subst (asm) bitmap_scan_byte.simps) (auto split: if_splits)
  qed
qed

lemma bitmap_scan_byte_None:
  "bitmap_scan_byte w j = None \<Longrightarrow> j \<le> i \<Longrightarrow> i < 8 \<Longrightarrow> bit w i"
proof (induction w j rule: bitmap_scan_byte.induct)
  case (1 w j)
  from "1.prems" have "bit w j" "bitmap_scan_byte w (Suc j) = None"
    by (subst (asm) bitmap_scan_byte.simps; auto split: if_splits)+
  with "1.IH" "1.prems" show ?case by (cases "i = j") auto
qed

lemma byte_all_bits: "(\<And>i. i < 8 \<Longrightarrow> bit (w::byte) i) \<Longrightarrow> w = 255"
proof -
  assume "\<And>i. i < 8 \<Longrightarrow> bit w i"
  then have "w = mask 8" by (intro bit_word_eqI) (simp add: bit_mask_iff)
  then show ?thesis by (simp add: mask_eq_exp_minus_1)
qed

lemma bit_255: "i < 8 \<Longrightarrow> bit (255::byte) i"
proof -
  have "mask 8 = (255::byte)" by (simp add: mask_eq_exp_minus_1)
  moreover have "i < 8 \<Longrightarrow> bit (mask 8 :: byte) i" by (simp add: bit_mask_iff)
  ultimately show "i < 8 \<Longrightarrow> bit (255::byte) i" by metis
qed

lemma bitmap_bit_update:
  assumes "i div 8 < length (bm_v b)"
  shows "bitmap_bit (b\<lparr>bm_v := (bm_v b)[i div 8 := w]\<rparr>) j =
    (if j div 8 = i div 8 then bit w (j mod 8) else bitmap_bit b j)"
  using assms by (simp add: bitmap_bit_def)

lemma div_mod_eq_iff: "(i::nat) div 8 = j div 8 \<and> i mod 8 = j mod 8 \<longleftrightarrow> i = j"
  by (metis div_mult_mod_eq)

lemma bitmap_set_bit:
  assumes "bitmap_ok b" "i < bm_nbits b"
  defines "b' \<equiv> b\<lparr>bm_v := (bm_v b)[i div 8 := bm_v b ! (i div 8) OR bit_mask (i mod 8)]\<rparr>"
  shows "bitmap_ok b'" "bitmap_used b' = insert i (bitmap_used b)"
proof -
  have i: "i div 8 < length (bm_v b)" by (rule bitmap_ok_index [OF assms(1,2)])
  have "bitmap_bit b' j \<longleftrightarrow> j = i \<or> bitmap_bit b j" for j
    unfolding b'_def bitmap_bit_update [OF i]
    using div_mod_eq_iff [of j i] by (auto simp: bit_or_iff bitmap_bit_def)
  then show "bitmap_ok b'" "bitmap_used b' = insert i (bitmap_used b)"
    using assms(1,2) by (auto simp: bitmap_ok_def bitmap_used_def b'_def)
qed

lemma bitmap_clear_bit:
  assumes "bitmap_ok b" "i < bm_nbits b"
  defines "b' \<equiv> b\<lparr>bm_v := (bm_v b)[i div 8 := bm_v b ! (i div 8) AND NOT (bit_mask (i mod 8))]\<rparr>"
  shows "bitmap_ok b'" "bitmap_used b' = bitmap_used b - {i}"
proof -
  have i: "i div 8 < length (bm_v b)" by (rule bitmap_ok_index [OF assms(1,2)])
  have "bitmap_bit b' j \<longleftrightarrow> j \<noteq> i \<and> bitmap_bit b j" for j
    unfolding b'_def bitmap_bit_update [OF i]
    using div_mod_eq_iff [of j i] by (auto simp: bit_and_iff bit_not_iff bitmap_bit_def)
  then show "bitmap_ok b'" "bitmap_used b' = bitmap_used b - {i}"
    using assms(1,2) by (auto simp: bitmap_ok_def bitmap_used_def b'_def)
qed

lemma bitmap_alloc_loop_wp:
  assumes ok: "bitmap_ok b" and full: "\<And>i. i < 8 * ix \<Longrightarrow> bitmap_bit b i"
  shows "wp (bitmap_alloc_loop ix (length (bm_v b)))
    (\<lambda>i b'. bitmap_ok b' \<and> bm_nbits b' = bm_nbits b \<and> i < bm_nbits b \<and> \<not> bitmap_bit b i \<and>
            (\<forall>j<i. bitmap_bit b j) \<and> bitmap_used b' = insert i (bitmap_used b))
    (\<lambda>e b'. e = ENOSPC \<and> b' = b \<and> (\<forall>i < 8 * length (bm_v b). bitmap_bit b i)) b"
  using full
proof (induction "length (bm_v b) - ix" arbitrary: ix)
  case 0
  then show ?case by (auto simp: wp_def bitmap_alloc_loop.simps)
next
  case (Suc n)
  then have ix: "ix < length (bm_v b)" by simp
  show ?case
  proof (cases "bm_v b ! ix = 255")
    case True
    have "bitmap_bit b i" if "i < 8 * Suc ix" for i
    proof (cases "i < 8 * ix")
      case False
      then have "i div 8 = ix" using that by simp
      then show ?thesis using True bit_255 [of "i mod 8"] by (simp add: bitmap_bit_def)
    qed (use Suc.prems in auto)
    from Suc.hyps(1) [of "Suc ix", OF _ this] Suc.hyps(2)
    have "wp (bitmap_alloc_loop (Suc ix) (length (bm_v b)))
      (\<lambda>i b'. bitmap_ok b' \<and> bm_nbits b' = bm_nbits b \<and> i < bm_nbits b \<and> \<not> bitmap_bit b i \<and>
            (\<forall>j<i. bitmap_bit b j) \<and> bitmap_used b' = insert i (bitmap_used b))
      (\<lambda>e b'. e = ENOSPC \<and> b' = b \<and> (\<forall>i < 8 * length (bm_v b). bitmap_bit b i)) b"
      by simp
    then show ?thesis using True ix by (simp add: wp_def bitmap_alloc_loop.simps [of ix])
  next
    case False
    then obtain k where k: "bitmap_scan_byte (bm_v b ! ix) 0 = Some k"
      using bitmap_scan_byte_None byte_all_bits by (metis not_None_eq zero_le)
    note kk = bitmap_scan_byte_Some [OF k]
    define i where "i = ix * 8 + k"
    have dm: "i div 8 = ix" "i mod 8 = k" using kk by (simp_all add: i_def)
    have clear: "\<not> bitmap_bit b i" using kk by (simp add: bitmap_bit_def dm)
    have "i < 8 * length (bm_v b)" using ix kk by (simp add: i_def)
    then have bound: "i < bm_nbits b" using ok clear by (force simp: bitmap_ok_def)
    have below: "bitmap_bit b j" if "j < i" for j
    proof (cases "j < 8 * ix")
      case False
      have "8 * ix \<le> j" "j < 8 * ix + 8" using False that kk by (simp_all add: i_def)
      then have d: "j div 8 = ix" by simp
      have "j mod 8 < k" using div_mult_mod_eq [of j 8] that unfolding d i_def by linarith
      then show ?thesis using kk d by (simp add: bitmap_bit_def)
    qed (use Suc.prems in auto)
    have "bitmap_alloc_loop ix (length (bm_v b)) b =
      (Ok i, b\<lparr>bm_v := (bm_v b)[i div 8 := bm_v b ! (i div 8) OR bit_mask (i mod 8)]\<rparr>)"
      using ix False k bound unfolding dm by (simp add: bitmap_alloc_loop.simps [of ix] i_def Let_def)
    then show ?thesis
      using bitmap_set_bit [OF ok bound] bound clear below by (simp add: wp_def)
  qed
qed

interpretation bm: storage_map bitmap_alloc bitmap_mark bitmap_unmark bitmap_isset
  bitmap_ok bm_nbits bitmap_used
proof
  fix m assume ok: "bitmap_ok m"
  show "bitmap_used m \<subseteq> {..<bm_nbits m}" by (auto simp: bitmap_used_def)
  have len: "length (bm_v m) = divroundup (bm_nbits m) 8" using ok by (simp add: bitmap_ok_def)
  have cover: "bm_nbits m \<le> 8 * length (bm_v m)" using ok by (auto simp: bitmap_ok_def divroundup_8)
  show "wp bitmap_alloc
        (\<lambda>i m'. bitmap_ok m' \<and> bm_nbits m' = bm_nbits m \<and> i < bm_nbits m \<and> i \<notin> bitmap_used m \<and>
                {..<i} \<subseteq> bitmap_used m \<and> bitmap_used m' = insert i (bitmap_used m))
        (\<lambda>e m'. e = ENOSPC \<and> m' = m \<and> bitmap_used m = {..<bm_nbits m}) m"
    using bitmap_alloc_loop_wp [OF ok, of 0] cover unfolding len [symmetric]
    by (auto simp: wp_def bitmap_alloc_def len bitmap_used_def split: prod.splits outcome.splits)
next
  fix m i E assume a: "bitmap_ok m" "i < bm_nbits m" "i \<notin> bitmap_used m"
  show "wp (bitmap_mark i) (\<lambda>_ m'. bitmap_ok m' \<and> bm_nbits m' = bm_nbits m \<and>
      bitmap_used m' = insert i (bitmap_used m)) E m"
    using a bitmap_set_bit [OF a(1,2)] bitmap_ok_index [OF a(1,2)]
    by (simp add: bitmap_mark_def bitmap_translate_def bitmap_used_def bitmap_bit_def)
next
  fix m i E assume a: "bitmap_ok m" "i < bm_nbits m" "i \<in> bitmap_used m"
  show "wp (bitmap_unmark i) (\<lambda>_ m'. bitmap_ok m' \<and> bm_nbits m' = bm_nbits m \<and>
      bitmap_used m' = bitmap_used m - {i}) E m"
    using a bitmap_clear_bit [OF a(1,2)] bitmap_ok_index [OF a(1,2)]
    by (simp add: bitmap_unmark_def bitmap_translate_def bitmap_used_def bitmap_bit_def)
next
  fix m i E assume a: "bitmap_ok m" "i < bm_nbits m"
  show "wp (bitmap_isset i) (\<lambda>r m'. m' = m \<and> (r \<longleftrightarrow> i \<in> bitmap_used m)) E m"
    using a bitmap_ok_index [OF a]
    by (simp add: bitmap_isset_def bitmap_translate_def bitmap_used_def bitmap_bit_def)
qed

subsection \<open>A fresh bitmap is empty\<close>

lemma bit_bitmap_mark_over: "bit (bitmap_mark_over j w) i \<longleftrightarrow> bit w i \<or> (j \<le> i \<and> i < 8)"
proof (induction j w rule: bitmap_mark_over.induct)
  case (1 j w)
  then show ?case
    by (subst bitmap_mark_over.simps) (auto simp: bit_or_iff Suc_le_eq le_eq_less_or_eq)
qed

lemma bitmap_create_ok:
  assumes n: "nbits + 8 < 2 ^ 32" and "bitmap_create kmalloc_ok nbits = r"
  shows "r = Ok None \<or> (\<exists>b. r = Ok (Some b) \<and> bitmap_ok b \<and> bm_nbits b = nbits \<and> bitmap_used b = {})"
proof -
  let ?w = "divroundup nbits 8"
  have w: "?w = (nbits + 7) div 8" by (rule divroundup_8 [OF n])
  show ?thesis
  proof (cases "?w > nbits div 8")
    case False
    then have "8 * ?w = nbits" using w by auto
    then show ?thesis using False assms
      by (auto simp: bitmap_create_def Let_def bitmap_ok_def bitmap_used_def bitmap_bit_def)
  next
    case True
    define ix where "ix = ?w - 1"
    define ov where "ov = nbits - ix * 8"
    have ix: "nbits div 8 = ix" "?w = Suc ix" using True w by (auto simp: ix_def)
    have ov: "ov = nbits mod 8" "0 < ov" "ov < 8" using True w ix
      by (auto simp: ov_def minus_div_mult_eq_mod minus_mult_div_eq_mod [symmetric])
    have "ix < ?w" using ix by simp
    then have last: "replicate ?w 0 ! ix = (0 :: byte)" by simp
    let ?v = "(replicate ?w 0)[ix := bitmap_mark_over ov 0]"
    have bit: "bit (?v ! (i div 8)) (i mod 8) \<longleftrightarrow> nbits \<le> i" if "i < 8 * ?w" for i
    proof (cases "i div 8 = ix")
      case True
      then have "?v ! (i div 8) = bitmap_mark_over ov 0" using \<open>ix < ?w\<close> by simp
      moreover have "ov \<le> i mod 8 \<longleftrightarrow> nbits \<le> i"
        using True ix(1) ov(1) div_mult_mod_eq [of i 8] div_mult_mod_eq [of nbits 8] by linarith
      ultimately show ?thesis by (simp add: bit_bitmap_mark_over)
    next
      case False
      then have "i div 8 < nbits div 8" using that ix by auto
      then have "i < nbits" by (metis div_le_mono leD leI)
      moreover have "?v ! (i div 8) = 0" using False that by (simp add: less_mult_imp_div_less mult.commute)
      ultimately show ?thesis by simp
    qed
    have "nbits \<le> 8 * ?w" using w by auto
    moreover have "length ?v = ?w" by simp
    ultimately show ?thesis
      using True assms bit ix(1) ov
      unfolding bitmap_create_def Let_def ix_def [symmetric] ov_def [symmetric] last
      by (auto simp: bitmap_ok_def bitmap_used_def bitmap_bit_def)
  qed
qed

subsection \<open>Properties\<close>

text \<open>
  C35: \<open>bitmap_alloc\<close> hands out the lowest clear bit and sets just that one; it reports
  \<open>ENOSPC\<close> exactly when every bit is set, and then changes nothing.
\<close>

theorem bitmap_alloc_lowest:
  assumes "bitmap_ok b"
  shows "wp bitmap_alloc
    (\<lambda>i b'. bitmap_ok b' \<and> bm_nbits b' = bm_nbits b \<and> i < bm_nbits b \<and> i \<notin> bitmap_used b \<and>
            {..<i} \<subseteq> bitmap_used b \<and> bitmap_used b' = insert i (bitmap_used b))
    (\<lambda>e b'. e = ENOSPC \<and> b' = b \<and> bitmap_used b = {..<bm_nbits b}) b"
  by (rule bm.alloc_wp [OF assms])

definition bitmap_demo :: bitmap where
  "bitmap_demo = \<lparr>bm_nbits = 8, bm_v = [7]\<rparr>"

lemma bitmap_demo_bits: "bit (7::byte) i \<longleftrightarrow> i < 3"
proof -
  have "mask 3 = (7::byte)" by (simp add: mask_eq_exp_minus_1)
  moreover have "bit (mask 3 :: byte) i \<longleftrightarrow> i < 3" by (auto simp: bit_mask_iff)
  ultimately show ?thesis by metis
qed

lemma bitmap_demo_ok: "bitmap_ok bitmap_demo" "bitmap_used bitmap_demo = {0, 1, 2}"
proof -
  have bit: "bitmap_bit bitmap_demo i \<longleftrightarrow> i < 3" if "i < 8" for i
    using that bitmap_demo_bits [of i] by (simp only: bitmap_bit_def bitmap_demo_def) simp
  then show "bitmap_ok bitmap_demo"
    by (auto simp: bitmap_ok_def bitmap_demo_def divroundup_def u32_def)
  have "bitmap_used bitmap_demo = {i. i < 8 \<and> i < 3}"
    using bit by (auto simp: bitmap_used_def bitmap_demo_def)
  also have "\<dots> = {0, 1, 2}" by auto
  finally show "bitmap_used bitmap_demo = {0, 1, 2}" .
qed

lemma bitmap_demo_alloc: "bitmap_alloc bitmap_demo = (Ok 3, bitmap_demo\<lparr>bm_v := [15]\<rparr>)"
  by code_simp

theorem bitmap_alloc_lowest_witness:
  "bitmap_alloc bitmap_demo = (Ok 3, bitmap_demo\<lparr>bm_v := [15]\<rparr>) \<and>
   wp bitmap_alloc
    (\<lambda>i b'. bitmap_ok b' \<and> bm_nbits b' = 8 \<and> i < 8 \<and> i \<notin> {0, 1, 2} \<and>
            {..<i} \<subseteq> {0, 1, 2} \<and> bitmap_used b' = {i, 0, 1, 2})
    (\<lambda>e b'. e = ENOSPC \<and> b' = bitmap_demo \<and> {0, 1, 2} = {..<8::nat}) bitmap_demo"
  using bitmap_alloc_lowest [OF bitmap_demo_ok(1)] bitmap_demo_alloc unfolding bitmap_demo_ok(2)
  by (simp add: bitmap_demo_def)

text \<open>
  C36: allocating in a row never hands out a bit twice and never fails early: from a sound
  bitmap with at least \<open>n\<close> clear bits, \<open>n\<close> allocations give \<open>n\<close> different bits, all of which were
  clear before, and set exactly those.
\<close>

theorem bitmap_alloc_distinct:
  assumes "bitmap_ok b" and "card (bitmap_used b) + n \<le> bm_nbits b"
  shows "wp (bm.alloc_many n)
    (\<lambda>is b'. bitmap_ok b' \<and> length is = n \<and> distinct is \<and> set is \<inter> bitmap_used b = {} \<and>
       bitmap_used b' = bitmap_used b \<union> set is) (\<lambda>_ _. False) b"
  by (rule wp_conseq [OF bm.alloc_many_wp [OF assms]]) auto

theorem bitmap_alloc_distinct_witness:
  "wp (bm.alloc_many 5)
    (\<lambda>is b'. bitmap_ok b' \<and> length is = 5 \<and> distinct is \<and> set is \<inter> {0, 1, 2} = {} \<and>
       bitmap_used b' = {0, 1, 2} \<union> set is) (\<lambda>_ _. False) bitmap_demo"
proof -
  have "card (bitmap_used bitmap_demo) + 5 \<le> bm_nbits bitmap_demo"
    unfolding bitmap_demo_ok(2) by (simp add: bitmap_demo_def)
  from bitmap_alloc_distinct [OF bitmap_demo_ok(1) this] show ?thesis
    unfolding bitmap_demo_ok(2) .
qed

end
