(* ===== verification/Vm_Copyinout.thy ===== *)
theory Vm_Copyinout
  imports Os161_Prelude
begin

text \<open>
  Copying between kernel and user memory, \<open>kern/vm/copyinout.c\<close>. The state holds kernel
  and user memory, which user addresses can be read and written without a fatal fault, and
  whether \<open>tm_badfaultfunc\<close> is set. A fatal fault on a user address runs \<open>copyfail\<close> when it
  is set (the \<open>setjmp\<close>/\<open>longjmp\<close> pair: the call returns \<open>EFAULT\<close>) and is a panic
  otherwise. Kernel buffers are byte lists, addresses are \<open>nat\<close> with 32-bit wrap-around
  written out. A copy stops at the first address that faults.
\<close>

subsection \<open>Model\<close>

definition USERSPACETOP :: nat where
  "USERSPACETOP = 0x80000000"

record vmstate =
  kmem :: memory
  umem :: memory
  ureadable :: "nat \<Rightarrow> bool"
  uwritable :: "nat \<Rightarrow> bool"
  tm_badfaultfunc :: bool

definition copycheck :: "nat \<Rightarrow> nat \<Rightarrow> errno + nat" where
  "copycheck userptr len =
     (let stoplen = len; bot = userptr; top = u32 (bot + len + 2 ^ 32 - 1) in
      if top < bot then Inl EFAULT
      else if bot \<ge> USERSPACETOP then Inl EFAULT
      else if top \<ge> USERSPACETOP then Inr (USERSPACETOP - bot)
      else Inr stoplen)"

text \<open>\<open>copyfail\<close>: only reached through \<open>tm_badfaultfunc\<close>.\<close>

definition copyfail :: "('a vmstate_scheme, 'b) kfun" where
  "copyfail =
     kthen (kassert tm_badfaultfunc)
       (kthen (kmod (\<lambda>s. s\<lparr>tm_badfaultfunc := False\<rparr>)) (kfail EFAULT))"

definition copyin :: "nat \<Rightarrow> nat \<Rightarrow> ('a vmstate_scheme, byte list) kfun" where
  "copyin usersrc len =
     (case copycheck usersrc len of
        Inl e \<Rightarrow> kfail e
      | Inr stoplen \<Rightarrow>
          if stoplen \<noteq> len then kfail EFAULT
          else kthen (kmod (\<lambda>s. s\<lparr>tm_badfaultfunc := True\<rparr>))
            (kbind (kget id) (\<lambda>s.
               if \<forall>a \<in> set [usersrc ..< usersrc + len]. ureadable s a then
                 kthen (kmod (\<lambda>s. s\<lparr>tm_badfaultfunc := False\<rparr>)) (kret (mem_read (umem s) usersrc len))
               else copyfail)))"

definition copyout :: "byte list \<Rightarrow> nat \<Rightarrow> ('a vmstate_scheme, unit) kfun" where
  "copyout src userdest =
     (let len = length src in
      case copycheck userdest len of
        Inl e \<Rightarrow> kfail e
      | Inr stoplen \<Rightarrow>
          if stoplen \<noteq> len then kfail EFAULT
          else kthen (kmod (\<lambda>s. s\<lparr>tm_badfaultfunc := True\<rparr>))
            (kbind (kget (\<lambda>s. length (takeWhile (uwritable s) [userdest ..< userdest + len]))) (\<lambda>n.
               kthen (kmod (\<lambda>s. s\<lparr>umem := mem_write (umem s) userdest (take n src)\<rparr>))
                 (if n = len then kmod (\<lambda>s. s\<lparr>tm_badfaultfunc := False\<rparr>)
                  else copyfail))))"

text \<open>
  \<open>copystr\<close> over a read and a write access, either of which may fault (\<open>None\<close>). The result
  is the number of bytes copied, the terminator included, or the error; \<open>None\<close> when an
  access faulted.
\<close>

function copystr_loop ::
  "(nat \<Rightarrow> 's \<Rightarrow> byte option) \<Rightarrow> (nat \<Rightarrow> byte \<Rightarrow> 's \<Rightarrow> 's option) \<Rightarrow> nat \<Rightarrow> nat \<Rightarrow> nat \<Rightarrow> 's \<Rightarrow>
   (errno + nat) option \<times> 's" where
  "copystr_loop rd wr maxlen stoplen i s =
     (if i < maxlen \<and> i < stoplen then
        case rd i s of
          None \<Rightarrow> (None, s)
        | Some c \<Rightarrow>
            (case wr i c s of
               None \<Rightarrow> (None, s)
             | Some s' \<Rightarrow>
                 if c = 0 then (Some (Inr (i + 1)), s')
                 else copystr_loop rd wr maxlen stoplen (Suc i) s')
      else if stoplen < maxlen then (Some (Inl EFAULT), s)
      else (Some (Inl ENAMETOOLONG), s))"
  by pat_completeness auto
termination
  by (relation "measure (\<lambda>(rd, wr, maxlen, stoplen, i, s). maxlen - i)") auto

definition copystr ::
  "(nat \<Rightarrow> 's \<Rightarrow> byte option) \<Rightarrow> (nat \<Rightarrow> byte \<Rightarrow> 's \<Rightarrow> 's option) \<Rightarrow> nat \<Rightarrow> nat \<Rightarrow> 's \<Rightarrow>
   (errno + nat) option \<times> 's" where
  "copystr rd wr maxlen stoplen s = copystr_loop rd wr maxlen stoplen 0 s"

definition copyinstr :: "nat \<Rightarrow> nat \<Rightarrow> ('a vmstate_scheme, byte list) kfun" where
  "copyinstr usersrc len =
     (case copycheck usersrc len of
        Inl e \<Rightarrow> kfail e
      | Inr stoplen \<Rightarrow>
          kthen (kmod (\<lambda>s. s\<lparr>tm_badfaultfunc := True\<rparr>))
            (kbind (kget (\<lambda>s.
                copystr (\<lambda>i d. if ureadable s (usersrc + i) then Some (umem s (usersrc + i)) else None)
                        (\<lambda>i c d. Some (d @ [c])) len stoplen []))
               (\<lambda>(r, dest). case r of
                  None \<Rightarrow> copyfail
                | Some result \<Rightarrow>
                    kthen (kmod (\<lambda>s. s\<lparr>tm_badfaultfunc := False\<rparr>))
                      (case result of Inl e \<Rightarrow> kfail e | Inr actual \<Rightarrow> kret dest))))"

definition copyoutstr :: "byte list \<Rightarrow> nat \<Rightarrow> nat \<Rightarrow> ('a vmstate_scheme, nat) kfun" where
  "copyoutstr src userdest len =
     (case copycheck userdest len of
        Inl e \<Rightarrow> kfail e
      | Inr stoplen \<Rightarrow>
          kthen (kmod (\<lambda>s. s\<lparr>tm_badfaultfunc := True\<rparr>))
            (kbind (kget (\<lambda>s.
                copystr (\<lambda>i m. if i < length src then Some (src ! i) else None)
                        (\<lambda>i c m. if uwritable s (userdest + i) then Some (m(userdest + i := c)) else None)
                        len stoplen (umem s)))
               (\<lambda>(r, m). kthen (kmod (\<lambda>s. s\<lparr>umem := m\<rparr>))
                  (case r of
                     None \<Rightarrow> copyfail
                   | Some result \<Rightarrow>
                       kthen (kmod (\<lambda>s. s\<lparr>tm_badfaultfunc := False\<rparr>))
                         (case result of Inl e \<Rightarrow> kfail e | Inr actual \<Rightarrow> kret actual)))))"

subsection \<open>The region check\<close>

lemma copycheck_zero: "userptr < 2 ^ 32 \<Longrightarrow> copycheck userptr 0 = Inr 0 \<Longrightarrow> False"
  by (cases "userptr = 0")
     (auto simp: copycheck_def u32_def USERSPACETOP_def Let_def mod_if split: if_splits)

lemma copycheck_ok_iff:
  assumes "0 < len" "len < 2 ^ 32" "userptr < 2 ^ 32"
  shows "copycheck userptr len = Inr len \<longleftrightarrow> userptr + len \<le> USERSPACETOP"
  using assms by (auto simp: copycheck_def u32_def USERSPACETOP_def Let_def mod_if split: if_splits)

lemma copycheck_cases:
  assumes "len < 2 ^ 32" "userptr < 2 ^ 32"
  shows "copycheck userptr len = Inl EFAULT \<or>
    (\<exists>stop. copycheck userptr len = Inr stop \<and> userptr + stop \<le> USERSPACETOP \<and> (0 < len \<longrightarrow> stop \<le> len))"
  using assms by (auto simp: copycheck_def u32_def USERSPACETOP_def Let_def mod_if split: if_splits)

subsection \<open>Block copies\<close>

text \<open>
  A user address a copy may touch lies below \<open>USERSPACETOP\<close>: no copy reads or writes
  kernel memory, whatever address a user program passes.
\<close>

lemma copyin_wp:
  assumes len: "0 < len" "len < 2 ^ 32" and ptr: "usersrc < 2 ^ 32" and bf: "\<not> tm_badfaultfunc s"
  shows "wp (copyin usersrc len)
    (\<lambda>bs s'. s' = s \<and> usersrc + len \<le> USERSPACETOP \<and> bs = mem_read (umem s) usersrc len)
    (\<lambda>e s'. e = EFAULT \<and> s' = s \<and>
       (USERSPACETOP < usersrc + len \<or> (\<exists>a. usersrc \<le> a \<and> a < usersrc + len \<and> \<not> ureadable s a))) s"
proof (cases "copycheck usersrc len")
  case (Inl e)
  then have "e = EFAULT" "\<not> usersrc + len \<le> USERSPACETOP"
    using copycheck_cases [OF len(2) ptr] copycheck_ok_iff [OF len ptr] by auto
  then show ?thesis using Inl by (simp add: copyin_def)
next
  case (Inr stop)
  show ?thesis
  proof (cases "stop = len")
    case True
    then have "usersrc + len \<le> USERSPACETOP" using Inr copycheck_ok_iff [OF len ptr] by simp
    then show ?thesis using Inr True bf by (auto simp: copyin_def copyfail_def)
  next
    case False
    then have "USERSPACETOP < usersrc + len" using Inr copycheck_ok_iff [OF len ptr] by auto
    then show ?thesis using Inr False by (simp add: copyin_def)
  qed
qed

lemma takeWhile_upt_full:
  "length (takeWhile P [a ..< a + n]) = n \<longleftrightarrow> (\<forall>x. a \<le> x \<longrightarrow> x < a + n \<longrightarrow> P x)"
proof
  assume "length (takeWhile P [a ..< a + n]) = n"
  then have "takeWhile P [a ..< a + n] = [a ..< a + n]"
    by (metis add_diff_cancel_left' length_upt takeWhile_eq_take take_all order_refl)
  then show "\<forall>x. a \<le> x \<longrightarrow> x < a + n \<longrightarrow> P x" by (simp add: takeWhile_eq_all_conv)
next
  assume "\<forall>x. a \<le> x \<longrightarrow> x < a + n \<longrightarrow> P x"
  then have "takeWhile P [a ..< a + n] = [a ..< a + n]" by (simp add: takeWhile_eq_all_conv)
  then show "length (takeWhile P [a ..< a + n]) = n" by (metis add_diff_cancel_left' length_upt)
qed

lemma copyout_wp:
  assumes len: "0 < length src" "length src < 2 ^ 32" and ptr: "dst < 2 ^ 32"
    and bf: "\<not> tm_badfaultfunc s"
  shows "wp (copyout src dst)
    (\<lambda>_ s'. dst + length src \<le> USERSPACETOP \<and> s' = s\<lparr>umem := mem_write (umem s) dst src\<rparr>)
    (\<lambda>e s'. e = EFAULT \<and> (\<exists>m. s' = s\<lparr>umem := m\<rparr> \<and> (\<forall>a. USERSPACETOP \<le> a \<or> a < dst \<longrightarrow> m a = umem s a)) \<and>
       (USERSPACETOP < dst + length src \<or> (\<exists>a. dst \<le> a \<and> a < dst + length src \<and> \<not> uwritable s a))) s"
proof (cases "copycheck dst (length src) = Inr (length src)")
  case False
  then have top: "USERSPACETOP < dst + length src" using copycheck_ok_iff [OF len ptr] by simp
  from copycheck_cases [OF len(2) ptr] show ?thesis
  proof (elim disjE exE conjE)
    assume "copycheck dst (length src) = Inl EFAULT"
    then show ?thesis using top by (auto simp: copyout_def Let_def intro!: exI [of _ "umem s"])
  next
    fix stop assume "copycheck dst (length src) = Inr stop"
    then show ?thesis using top False by (auto simp: copyout_def Let_def intro!: exI [of _ "umem s"])
  qed
next
  case True
  then have top: "dst + length src \<le> USERSPACETOP" using copycheck_ok_iff [OF len ptr] by simp
  let ?n = "length (takeWhile (uwritable s) [dst ..< dst + length src])"
  have n: "?n \<le> length src" using length_takeWhile_le [of "uwritable s" "[dst ..< dst + length src]"] by simp
  show ?thesis
  proof (cases "?n = length src")
    case full: True
    then show ?thesis using True top bf by (simp add: copyout_def Let_def)
  next
    case short: False
    then obtain a where "dst \<le> a" "a < dst + length src" "\<not> uwritable s a"
      using takeWhile_upt_full [of "uwritable s" dst "length src"] by auto
    moreover have "\<forall>a. USERSPACETOP \<le> a \<or> a < dst \<longrightarrow> mem_write (umem s) dst (take ?n src) a = umem s a"
      using top n by (auto simp: mem_write_def)
    ultimately show ?thesis
      using True short bf by (auto simp: copyout_def Let_def copyfail_def intro!: exI [of _ "mem_write (umem s) dst (take ?n src)"])
  qed
qed

subsection \<open>String copies\<close>

declare copystr_loop.simps [simp del]

lemma copystr_loop_in:
  assumes "copystr_loop (\<lambda>i d. if ok i then Some (f i) else None) (\<lambda>i c d. Some (d @ [c])) maxlen stoplen i d = (r, d')"
    and "i \<le> maxlen" "i \<le> stoplen"
  shows "case r of
      None \<Rightarrow> \<exists>k. i \<le> k \<and> k < maxlen \<and> k < stoplen \<and> \<not> ok k
    | Some (Inl e) \<Rightarrow> (e = (if stoplen < maxlen then EFAULT else ENAMETOOLONG)) \<and>
        (\<forall>j. i \<le> j \<longrightarrow> j < min maxlen stoplen \<longrightarrow> ok j \<and> f j \<noteq> 0)
    | Some (Inr n) \<Rightarrow> i < n \<and> n \<le> maxlen \<and> n \<le> stoplen \<and> d' = d @ map f [i ..< n] \<and> f (n - 1) = 0 \<and>
        (\<forall>j. i \<le> j \<longrightarrow> j < n - 1 \<longrightarrow> f j \<noteq> 0)"
  using assms
proof (induction "maxlen - i" arbitrary: i d)
  case 0
  then show ?case
    by (subst (asm) copystr_loop.simps) (auto split: if_splits)
next
  case (Suc x)
  show ?case
  proof (cases "i < stoplen \<and> ok i \<and> f i \<noteq> 0")
    case False
    with Suc.prems Suc.hyps(2) show ?thesis
      by (subst (asm) copystr_loop.simps) (auto split: if_splits)
  next
    case True
    with Suc.prems Suc.hyps(2) have step:
      "copystr_loop (\<lambda>i d. if ok i then Some (f i) else None) (\<lambda>i c d. Some (d @ [c])) maxlen stoplen (Suc i) (d @ [f i]) = (r, d')"
      by (subst (asm) copystr_loop.simps) (auto split: if_splits)
    have "x = maxlen - Suc i" "Suc i \<le> maxlen" "Suc i \<le> stoplen" using Suc.hyps(2) True by auto
    note IH = Suc.hyps(1) [OF this(1) step this(2,3)]
    show ?thesis
    proof (cases r)
      case None
      then show ?thesis using IH by (auto dest: Suc_leD)
    next
      case (Some res)
      show ?thesis
      proof (cases res)
        case (Inl e)
        then show ?thesis using IH Some True by (simp add: all_from [of i])
      next
        case (Inr n)
        then have "map f [i ..< n] = f i # map f [Suc i ..< n]"
          using IH Some by (auto simp: upt_conv_Cons)
        then show ?thesis using IH Some Inr True by (simp add: all_from [of i])
      qed
    qed
  qed
qed

text \<open>
  A successful \<open>copyinstr\<close> hands back the user's string up to its first NUL, all of it
  below \<open>USERSPACETOP\<close>; a string with no NUL in the first \<open>len\<close> bytes is
  \<open>ENAMETOOLONG\<close>, one that runs into the kernel or an unreadable address is \<open>EFAULT\<close>.
\<close>

lemma copyinstr_wp:
  assumes len: "0 < len" "len < 2 ^ 32" and ptr: "usersrc < 2 ^ 32" and bf: "\<not> tm_badfaultfunc s"
  shows "wp (copyinstr usersrc len)
    (\<lambda>bs s'. s' = s \<and> bs \<noteq> [] \<and> length bs \<le> len \<and> usersrc + length bs \<le> USERSPACETOP \<and>
       bs = mem_read (umem s) usersrc (length bs) \<and> last bs = 0 \<and> 0 \<notin> set (butlast bs))
    (\<lambda>e s'. s' = s \<and> (e = EFAULT \<or>
       e = ENAMETOOLONG \<and> usersrc + len \<le> USERSPACETOP \<and> 0 \<notin> set (mem_read (umem s) usersrc len))) s"
proof (cases "copycheck usersrc len")
  case (Inl e)
  then have "e = EFAULT" using copycheck_cases [OF len(2) ptr] by auto
  then show ?thesis using Inl by (simp add: copyinstr_def)
next
  case (Inr stop)
  then have stop: "stop \<le> len" "usersrc + stop \<le> USERSPACETOP"
    using copycheck_cases [OF len(2) ptr] len(1) by auto
  let ?f = "\<lambda>i. umem s (usersrc + i)"
  let ?rd = "\<lambda>i d. if ureadable s (usersrc + i) then Some (umem s (usersrc + i)) else None"
  let ?wr = "\<lambda>i c d. Some (d @ [c])"
  obtain r d where run: "copystr_loop ?rd ?wr len stop 0 [] = (r, d)" by (cases "copystr_loop ?rd ?wr len stop 0 []") auto
  note spec = copystr_loop_in [where ok = "\<lambda>i. ureadable s (usersrc + i)" and f = ?f, OF run]
  have get: "mem_read (umem s) usersrc k = map ?f [0 ..< k]" for k
    by (rule nth_equalityI) auto
  show ?thesis
  proof (cases r)
    case None
    then show ?thesis using Inr run bf by (simp add: copyinstr_def copystr_def copyfail_def cong: if_cong)
  next
    case (Some res)
    show ?thesis
    proof (cases res)
      case (Inl e)
      then have "e = EFAULT \<or> e = ENAMETOOLONG \<and> stop = len \<and> (\<forall>j<len. ?f j \<noteq> 0)"
        using spec Some stop by (auto split: if_splits)
      then show ?thesis using Inr run bf Some Inl stop
        by (auto simp: copyinstr_def copystr_def get cong: if_cong)
    next
      case (Inr n)
      then have n: "0 < n" "n \<le> stop" "d = map ?f [0 ..< n]" "?f (n - 1) = 0" "\<forall>j<n - 1. ?f j \<noteq> 0"
        using spec Some by auto
      obtain k where k: "n = Suc k" using n(1) by (cases n) auto
      have "last d = 0" "0 \<notin> set (butlast d)" "length d = n"
        using n k by (auto simp: butlast_append)
      then show ?thesis using \<open>copycheck usersrc len = Inr stop\<close> run bf Some Inr stop n
        by (auto simp: copyinstr_def copystr_def get cong: if_cong)
    qed
  qed
qed

subsection \<open>Properties\<close>

text \<open>
  C37: \<open>copyout\<close> cannot be turned against the kernel. Whatever address a program passes, kernel
  memory and the user memory at or above \<open>USERSPACETOP\<close> keep their contents; the call returns
  success only after all bytes have arrived, and \<open>EFAULT\<close> only when the region leaves user
  space or holds a page that cannot be written. The fault handler is reset on every path.
\<close>

theorem copyout_safe:
  assumes "0 < length src" "length src < 2 ^ 32" "dst < 2 ^ 32" "\<not> tm_badfaultfunc s"
  shows "wp (copyout src dst)
    (\<lambda>_ s'. mem_read (umem s') dst (length src) = src \<and> kmem s' = kmem s \<and> \<not> tm_badfaultfunc s' \<and>
       (\<forall>a. USERSPACETOP \<le> a \<longrightarrow> umem s' a = umem s a))
    (\<lambda>e s'. e = EFAULT \<and> kmem s' = kmem s \<and> \<not> tm_badfaultfunc s' \<and>
       (\<forall>a. USERSPACETOP \<le> a \<longrightarrow> umem s' a = umem s a) \<and>
       (USERSPACETOP < dst + length src \<or> (\<exists>a. dst \<le> a \<and> a < dst + length src \<and> \<not> uwritable s a))) s"
  by (rule wp_conseq [OF copyout_wp [OF assms]]) (use assms(4) in \<open>auto simp: mem_write_other\<close>)

definition vm_demo :: vmstate where
  "vm_demo = \<lparr>kmem = (\<lambda>_. 0), umem = (\<lambda>a. if a = 4096 then 104 else if a = 4097 then 105 else 0),
              ureadable = (\<lambda>a. a < 8192), uwritable = (\<lambda>a. a < 8192), tm_badfaultfunc = False\<rparr>"

theorem copyout_safe_witness:
  "wp (copyout [1, 2, 3] 8190)
    (\<lambda>_ s'. mem_read (umem s') 8190 3 = [1, 2, 3] \<and> kmem s' = (\<lambda>_. 0) \<and> \<not> tm_badfaultfunc s' \<and>
       (\<forall>a. USERSPACETOP \<le> a \<longrightarrow> umem s' a = umem vm_demo a))
    (\<lambda>e s'. e = EFAULT \<and> kmem s' = (\<lambda>_. 0) \<and> \<not> tm_badfaultfunc s' \<and>
       (\<forall>a. USERSPACETOP \<le> a \<longrightarrow> umem s' a = umem vm_demo a) \<and>
       (USERSPACETOP < 8193 \<or> (\<exists>a. 8190 \<le> a \<and> a < 8193 \<and> \<not> uwritable vm_demo a))) vm_demo"
proof -
  have "\<not> tm_badfaultfunc vm_demo" "kmem vm_demo = (\<lambda>_. 0)" by (simp_all add: vm_demo_def)
  then show ?thesis using copyout_safe [of "[1, 2, 3]" 8190 vm_demo] by (simp add: numeral_3_eq_3)
qed

text \<open>
  C38: \<open>copyinstr\<close> returns a proper C string: the bytes of user memory from the given address up
  to and including the first terminator, within the length limit and within user space. It
  reports \<open>ENAMETOOLONG\<close> only if the whole region is in user space and holds no terminator.
\<close>

theorem copyinstr_string:
  assumes "0 < len" "len < 2 ^ 32" "usersrc < 2 ^ 32" "\<not> tm_badfaultfunc s"
  shows "wp (copyinstr usersrc len)
    (\<lambda>bs s'. s' = s \<and> bs \<noteq> [] \<and> length bs \<le> len \<and> usersrc + length bs \<le> USERSPACETOP \<and>
       bs = mem_read (umem s) usersrc (length bs) \<and> last bs = 0 \<and> 0 \<notin> set (butlast bs))
    (\<lambda>e s'. s' = s \<and> (e = EFAULT \<or>
       e = ENAMETOOLONG \<and> usersrc + len \<le> USERSPACETOP \<and> 0 \<notin> set (mem_read (umem s) usersrc len))) s"
  by (rule copyinstr_wp [OF assms])

lemma copyinstr_demo: "fst (copyinstr 4096 100 vm_demo) = Ok [104, 105, 0]"
  by code_simp

theorem copyinstr_string_witness:
  "fst (copyinstr 4096 100 vm_demo) = Ok [104, 105, 0] \<and>
   wp (copyinstr 4096 100)
    (\<lambda>bs s'. s' = vm_demo \<and> bs \<noteq> [] \<and> length bs \<le> 100 \<and> 4096 + length bs \<le> USERSPACETOP \<and>
       bs = mem_read (umem vm_demo) 4096 (length bs) \<and> last bs = 0 \<and> 0 \<notin> set (butlast bs))
    (\<lambda>e s'. s' = vm_demo \<and> (e = EFAULT \<or>
       e = ENAMETOOLONG \<and> 4096 + 100 \<le> USERSPACETOP \<and> 0 \<notin> set (mem_read (umem vm_demo) 4096 100))) vm_demo"
proof -
  have "\<not> tm_badfaultfunc vm_demo" by (simp add: vm_demo_def)
  then show ?thesis using copyinstr_string [of 100 4096 vm_demo] copyinstr_demo by simp
qed

text \<open>
  C39: an empty transfer always fails. The region check computes the address of the last byte,
  which for length 0 lies before the first one, so \<open>copyin\<close> and \<open>copyout\<close> of nothing report
  \<open>EFAULT\<close> at every address.
\<close>

theorem copy_zero_length:
  assumes "ptr < 2 ^ 32"
  shows "copyin ptr 0 s = (Err EFAULT, s) \<and> copyout [] ptr s = (Err EFAULT, s)"
proof -
  have "copycheck ptr 0 \<noteq> Inr 0" using copycheck_zero [OF assms] by blast
  moreover have "copycheck ptr 0 = Inl EFAULT \<or> (\<exists>n. copycheck ptr 0 = Inr n)"
    using copycheck_cases [of 0 ptr] assms by auto
  ultimately show ?thesis
    by (auto simp: copyin_def copyout_def kfail_def)
qed

theorem copy_zero_length_witness:
  "copyin 4096 0 vm_demo = (Err EFAULT, vm_demo) \<and> copyout [] 4096 vm_demo = (Err EFAULT, vm_demo)"
  using copy_zero_length [of 4096 vm_demo] by simp

end
