(* ===== verification/Lib_Uio.thy ===== *)
theory Lib_Uio
  imports Vm_Copyinout
begin

text \<open>
  The kernel's data transfer descriptor, \<open>kern/include/uio.h\<close> and \<open>kern/lib/uio.c\<close>.
  The state is the memory of \<open>Vm_Copyinout\<close> extended with the fields of \<open>struct uio\<close>;
  \<open>uio_iov\<close> is the array of iovecs from the current one on. The kernel buffer \<open>ptr\<close> that
  \<open>uiomove\<close> works on is a byte list with a position, handed back updated when the
  direction is \<open>UIO_WRITE\<close>. \<open>uio_resid\<close> is a 32-bit \<open>size_t\<close>.
\<close>

subsection \<open>Model\<close>

datatype uio_rw = UIO_READ | UIO_WRITE

datatype uio_seg = UIO_USERISPACE | UIO_USERSPACE | UIO_SYSSPACE

record iovec =
  iov_base :: nat
  iov_len :: nat

record uenv = vmstate +
  uio_iov :: "iovec list"
  uio_iovcnt :: nat
  uio_offset :: int
  uio_resid :: nat
  uio_segflg :: uio_seg
  uio_rw :: uio_rw
  uio_space :: "nat option"
  proc_as :: "nat option"

text \<open>The switch on \<open>uio_segflg\<close>: move \<open>sz\<close> bytes between the buffer and the first iovec.\<close>

definition uio_transfer :: "byte list \<Rightarrow> nat \<Rightarrow> nat \<Rightarrow> iovec \<Rightarrow> (uenv, byte list) kfun" where
  "uio_transfer buf ptr sz iov =
     kthen (kassert (\<lambda>_. ptr + sz \<le> length buf))
       (kbind (kget id) (\<lambda>s.
          case uio_segflg s of
            UIO_SYSSPACE \<Rightarrow>
              if uio_rw s = UIO_READ then
                kthen (kmod (\<lambda>s. s\<lparr>kmem := mem_write (kmem s) (iov_base iov) (take sz (drop ptr buf))\<rparr>))
                  (kret buf)
              else kret (splice_at ptr (mem_read (kmem s) (iov_base iov) sz) buf)
          | _ \<Rightarrow>
              if uio_rw s = UIO_READ then
                kthen (copyout (take sz (drop ptr buf)) (iov_base iov)) (kret buf)
              else
                kbind (copyin (iov_base iov) sz) (\<lambda>bs. kret (splice_at ptr bs buf))))"

definition uio_advance :: "iovec \<Rightarrow> iovec list \<Rightarrow> nat \<Rightarrow> uenv \<Rightarrow> uenv" where
  "uio_advance iov rest sz s =
     s\<lparr>uio_iov := \<lparr>iov_base = iov_base iov + sz, iov_len = iov_len iov - sz\<rparr> # rest,
       uio_resid := u32 (uio_resid s + 2 ^ 32 - sz),
       uio_offset := uio_offset s + int sz\<rparr>"

function uiomove_loop :: "byte list \<Rightarrow> nat \<Rightarrow> nat \<Rightarrow> (uenv, byte list) kfun" where
  "uiomove_loop buf ptr n s =
     (if n > 0 \<and> uio_resid s > 0 then
        case uio_iov s of
          [] \<Rightarrow> (Panic, s)
        | iov # rest \<Rightarrow>
            let sz = (if iov_len iov > n then n else iov_len iov) in
            if sz = 0 then
              let s1 = s\<lparr>uio_iov := rest, uio_iovcnt := u32 (uio_iovcnt s + 2 ^ 32 - 1)\<rparr> in
              if uio_iovcnt s1 = 0 then (Panic, s1) else uiomove_loop buf ptr n s1
            else
              (case uio_transfer buf ptr sz iov s of
                 (Ok buf', s1) \<Rightarrow>
                   uiomove_loop buf' (ptr + sz) (n - sz) (uio_advance iov rest sz s1)
               | (Err e, s1) \<Rightarrow> (Err e, s1)
               | (Panic, s1) \<Rightarrow> (Panic, s1)
               | (Hang, s1) \<Rightarrow> (Hang, s1))
      else (Ok buf, s))"
  by pat_completeness auto
termination
  by (relation "measures [\<lambda>(buf, ptr, n, s). n, \<lambda>(buf, ptr, n, s). length (uio_iov s)]")
     (auto split: if_splits)

definition uiomove :: "byte list \<Rightarrow> nat \<Rightarrow> nat \<Rightarrow> (uenv, byte list) kfun" where
  "uiomove buf ptr n =
     kthen (kassert (\<lambda>s. if uio_segflg s = UIO_SYSSPACE then uio_space s = None
                         else uio_space s = proc_as s))
       (uiomove_loop buf ptr n)"

text \<open>The buffer \<open>uiomovezeros\<close> copies from is 16 zero bytes.\<close>

function uiomovezeros_loop :: "nat \<Rightarrow> (uenv, unit) kfun" where
  "uiomovezeros_loop n s =
     (if n > 0 then
        let amt = (if 16 > n then n else 16) in
        (case uiomove (replicate 16 0) 0 amt s of
           (Ok _, s1) \<Rightarrow> uiomovezeros_loop (n - amt) s1
         | (Err e, s1) \<Rightarrow> (Err e, s1)
         | (Panic, s1) \<Rightarrow> (Panic, s1)
         | (Hang, s1) \<Rightarrow> (Hang, s1))
      else (Ok (), s))"
  by pat_completeness auto
termination
  by (relation "measure (\<lambda>(n, s). n)") auto

definition uiomovezeros :: "nat \<Rightarrow> (uenv, unit) kfun" where
  "uiomovezeros n = kthen (kassert (\<lambda>s. uio_rw s = UIO_READ)) (uiomovezeros_loop n)"

text \<open>
  \<open>uio_kinit\<close>: a descriptor for kernel I/O on a buffer. The buffer is the kernel memory
  from address 0 on.
\<close>

definition uio_kinit :: "byte list \<Rightarrow> int \<Rightarrow> uio_rw \<Rightarrow> uenv" where
  "uio_kinit kbuf pos rw =
     \<lparr>kmem = (\<lambda>a. if a < length kbuf then kbuf ! a else 0), umem = (\<lambda>_. 0),
      ureadable = (\<lambda>_. False), uwritable = (\<lambda>_. False), tm_badfaultfunc = False,
      uio_iov = [\<lparr>iov_base = 0, iov_len = length kbuf\<rparr>], uio_iovcnt = 1,
      uio_offset = pos, uio_resid = length kbuf, uio_segflg = UIO_SYSSPACE,
      uio_rw = rw, uio_space = None, proc_as = None\<rparr>"

definition uio_kbuf :: "nat \<Rightarrow> uenv \<Rightarrow> byte list" where
  "uio_kbuf len u = mem_read (kmem u) 0 len"

subsection \<open>The region a descriptor covers\<close>

definition uio_addrs :: "uenv \<Rightarrow> nat list" where
  "uio_addrs s = concat (map (\<lambda>iov. [iov_base iov ..< iov_base iov + iov_len iov]) (uio_iov s))"

definition uio_mem :: "uenv \<Rightarrow> memory" where
  "uio_mem s = (if uio_segflg s = UIO_SYSSPACE then kmem s else umem s)"

text \<open>Well-formed: the iovecs hold at least \<open>uio_resid\<close> bytes, below address \<open>2^32\<close>.\<close>

definition uio_ok :: "uenv \<Rightarrow> bool" where
  "uio_ok s \<longleftrightarrow> uio_iovcnt s = length (uio_iov s) \<and> length (uio_iov s) < 2 ^ 32 \<and>
     uio_resid s \<le> length (uio_addrs s) \<and> uio_resid s < 2 ^ 32 \<and>
     (\<forall>iov \<in> set (uio_iov s). iov_base iov + iov_len iov \<le> 2 ^ 32) \<and>
     (if uio_segflg s = UIO_SYSSPACE then uio_space s = None else uio_space s = proc_as s) \<and>
     \<not> tm_badfaultfunc s"

text \<open>\<open>t\<close> is \<open>s\<close> after \<open>k\<close> bytes were moved; the memory contents are left out.\<close>

definition uio_moved :: "nat \<Rightarrow> uenv \<Rightarrow> uenv \<Rightarrow> bool" where
  "uio_moved k s t \<longleftrightarrow> uio_ok t \<and> k \<le> uio_resid s \<and> uio_addrs t = drop k (uio_addrs s) \<and>
     uio_resid t = uio_resid s - k \<and> uio_offset t = uio_offset s + int k \<and>
     uio_segflg t = uio_segflg s \<and> uio_rw t = uio_rw s \<and> uio_space t = uio_space s \<and>
     proc_as t = proc_as s \<and> ureadable t = ureadable s \<and> uwritable t = uwritable s \<and>
     (if uio_segflg s = UIO_SYSSPACE then umem t = umem s else kmem t = kmem s)"

lemma uio_moved_0: "uio_ok s \<Longrightarrow> uio_moved 0 s s"
  by (simp add: uio_moved_def)

lemma uio_moved_trans: "uio_moved k s t \<Longrightarrow> uio_moved j t u \<Longrightarrow> uio_moved (k + j) s u"
  by (auto simp: uio_moved_def add.commute split: if_splits)

text \<open>What a completed move does to the buffer and to the memory of the descriptor.\<close>

definition uio_data :: "byte list \<Rightarrow> nat \<Rightarrow> nat \<Rightarrow> uenv \<Rightarrow> byte list \<Rightarrow> uenv \<Rightarrow> bool" where
  "uio_data buf ptr k s buf' t \<longleftrightarrow>
     (case uio_rw s of
        UIO_READ \<Rightarrow> buf' = buf \<and>
          uio_mem t = mem_put (uio_mem s) (take k (uio_addrs s)) (take k (drop ptr buf))
      | UIO_WRITE \<Rightarrow> uio_mem t = uio_mem s \<and>
          buf' = splice_at ptr (map (uio_mem s) (take k (uio_addrs s))) buf)"

declare uiomove_loop.simps [simp del] uiomovezeros_loop.simps [simp del]

subsection \<open>One transfer\<close>

lemma uio_addrs_Cons:
  "uio_iov s = iov # rest \<Longrightarrow>
   uio_addrs s = [iov_base iov ..< iov_base iov + iov_len iov] @
     concat (map (\<lambda>iov. [iov_base iov ..< iov_base iov + iov_len iov]) rest)"
  by (simp add: uio_addrs_def)

lemma take_uio_addrs:
  "uio_iov s = iov # rest \<Longrightarrow> k \<le> iov_len iov \<Longrightarrow>
   take k (uio_addrs s) = [iov_base iov ..< iov_base iov + k]"
  by (simp add: uio_addrs_Cons)

lemma drop_uio_addrs:
  "uio_iov s = iov # rest \<Longrightarrow> k \<le> iov_len iov \<Longrightarrow>
   uio_addrs (uio_advance iov rest k t) = drop k (uio_addrs s)"
  by (simp add: uio_addrs_Cons uio_advance_def uio_addrs_def)

lemma uio_advance_simps [simp]:
  "kmem (uio_advance iov rest k t) = kmem t" "umem (uio_advance iov rest k t) = umem t"
  "uio_segflg (uio_advance iov rest k t) = uio_segflg t" "uio_rw (uio_advance iov rest k t) = uio_rw t"
  "uio_mem (uio_advance iov rest k t) = uio_mem t"
  by (simp_all add: uio_advance_def uio_mem_def)

lemma uio_advance_moved:
  assumes s: "uio_ok s" "uio_iov s = iov # rest" and k: "k \<le> iov_len iov" "k \<le> uio_resid s"
    and t: "t = s\<lparr>kmem := km, umem := um\<rparr>"
    and other: "if uio_segflg s = UIO_SYSSPACE then um = umem s else km = kmem s"
  shows "uio_moved k s (uio_advance iov rest k t)"
proof -
  let ?t = "uio_advance iov rest k t"
  have addrs: "uio_addrs ?t = drop k (uio_addrs s)" by (rule drop_uio_addrs [OF s(2) k(1)])
  have resid: "uio_resid ?t = uio_resid s - k"
    using u32_sub [OF k(2)] s(1) by (simp add: uio_advance_def t uio_ok_def)
  have "uio_ok ?t"
    unfolding uio_ok_def addrs resid
    using s k by (auto simp: uio_ok_def uio_advance_def t)
  then show ?thesis
    using k addrs resid other by (simp add: uio_moved_def uio_advance_def t)
qed

lemma uio_transfer_wp:
  assumes s: "uio_ok s" "uio_iov s = iov # rest"
    and sz: "0 < sz" "sz \<le> iov_len iov" "sz \<le> uio_resid s" "ptr + sz \<le> length buf"
  shows "wp (uio_transfer buf ptr sz iov)
    (\<lambda>buf' t. uio_moved sz s (uio_advance iov rest sz t) \<and>
       uio_data buf ptr sz s buf' (uio_advance iov rest sz t))
    (\<lambda>e t. e = EFAULT \<and> uio_segflg s \<noteq> UIO_SYSSPACE \<and> uio_moved 0 s t) s"
proof -
  let ?a = "iov_base iov" and ?src = "take sz (drop ptr buf)"
  have lsrc: "length ?src = sz" using sz by simp
  have pre: "sz < 2 ^ 32" "?a < 2 ^ 32" "\<not> tm_badfaultfunc s" using s sz by (auto simp: uio_ok_def)
  have addrs: "take sz (uio_addrs s) = [?a ..< ?a + sz]" by (rule take_uio_addrs [OF s(2) sz(2)])
  note mv = uio_advance_moved [OF s sz(2,3)]
  show ?thesis
  proof (cases "uio_segflg s = UIO_SYSSPACE")
    case True
    show ?thesis
    proof (cases "uio_rw s")
      case UIO_READ
      let ?t = "s\<lparr>kmem := mem_write (kmem s) ?a ?src\<rparr>"
      have "uio_moved sz s (uio_advance iov rest sz ?t)" by (rule mv) (simp_all add: True)
      then show ?thesis using True UIO_READ sz lsrc
        by (simp add: uio_transfer_def uio_data_def addrs uio_mem_def mem_write_put)
    next
      case UIO_WRITE
      have "uio_moved sz s (uio_advance iov rest sz s)"
        by (rule mv [where km = "kmem s" and um = "umem s"]) (simp_all add: True)
      then show ?thesis using True UIO_WRITE sz
        by (simp add: uio_transfer_def uio_data_def addrs uio_mem_def mem_read_map)
    qed
  next
    case user: False
    then have split: "(case uio_segflg s of UIO_SYSSPACE \<Rightarrow> x | _ \<Rightarrow> y) = y" for x y :: "(uenv, byte list) kfun"
      by (cases "uio_segflg s") auto
    show ?thesis
    proof (cases "uio_rw s")
      case UIO_READ
      have "wp (copyout ?src ?a)
        (\<lambda>_ t. uio_moved sz s (uio_advance iov rest sz t) \<and> uio_data buf ptr sz s buf (uio_advance iov rest sz t))
        (\<lambda>e t. e = EFAULT \<and> uio_moved 0 s t) s"
      proof (rule wp_conseq [OF copyout_wp])
        fix x t assume "?a + length ?src \<le> USERSPACETOP \<and> t = s\<lparr>umem := mem_write (umem s) ?a ?src\<rparr>"
        then have t: "t = s\<lparr>umem := mem_write (umem s) ?a ?src\<rparr>" by simp
        have "uio_moved sz s (uio_advance iov rest sz t)" by (rule mv) (use user t in simp_all)
        then show "uio_moved sz s (uio_advance iov rest sz t) \<and> uio_data buf ptr sz s buf (uio_advance iov rest sz t)"
          using user UIO_READ lsrc t by (simp add: uio_data_def addrs uio_mem_def mem_write_put)
      next
        fix e t
        assume "e = EFAULT \<and> (\<exists>m. t = s\<lparr>umem := m\<rparr> \<and> (\<forall>a. USERSPACETOP \<le> a \<or> a < ?a \<longrightarrow> m a = umem s a)) \<and>
          (USERSPACETOP < ?a + length ?src \<or> (\<exists>a. ?a \<le> a \<and> a < ?a + length ?src \<and> \<not> uwritable s a))"
        then obtain m where "e = EFAULT" "t = s\<lparr>umem := m\<rparr>" by blast
        then show "e = EFAULT \<and> uio_moved 0 s t"
          using s(1) user by (simp add: uio_moved_def uio_ok_def uio_addrs_def)
      qed (use pre lsrc sz in simp_all)
      then show ?thesis using user UIO_READ sz
        by (simp add: uio_transfer_def split)
    next
      case UIO_WRITE
      have "wp (copyin ?a sz)
        (\<lambda>bs t. uio_moved sz s (uio_advance iov rest sz t) \<and>
           uio_data buf ptr sz s (splice_at ptr bs buf) (uio_advance iov rest sz t))
        (\<lambda>e t. e = EFAULT \<and> uio_moved 0 s t) s"
      proof (rule wp_conseq [OF copyin_wp])
        fix bs t assume t: "t = s \<and> ?a + sz \<le> USERSPACETOP \<and> bs = mem_read (umem s) ?a sz"
        have "uio_moved sz s (uio_advance iov rest sz t)"
          by (rule mv [where km = "kmem s" and um = "umem s"]) (use user t in simp_all)
        then show "uio_moved sz s (uio_advance iov rest sz t) \<and>
           uio_data buf ptr sz s (splice_at ptr bs buf) (uio_advance iov rest sz t)"
          using user UIO_WRITE t by (simp add: uio_data_def addrs uio_mem_def mem_read_map)
      next
        fix e t assume "e = EFAULT \<and> t = s \<and>
          (USERSPACETOP < ?a + sz \<or> (\<exists>x. ?a \<le> x \<and> x < ?a + sz \<and> \<not> ureadable s x))"
        then show "e = EFAULT \<and> uio_moved 0 s t" using s(1) by (simp add: uio_moved_0)
      qed (use pre sz in simp_all)
      then show ?thesis using user UIO_WRITE sz
        by (simp add: uio_transfer_def split)
    qed
  qed
qed

subsection \<open>The whole move\<close>

lemma uio_data_trans:
  assumes "uio_data buf ptr k s buf1 t" "uio_data buf1 (ptr + k) j t buf2 u" "uio_moved k s t"
    and len: "ptr + k + j \<le> length buf" and ok: "uio_ok s" and kj: "k + j \<le> uio_resid s"
  shows "uio_data buf ptr (k + j) s buf2 u"
proof -
  have addrs: "uio_addrs t = drop k (uio_addrs s)" "uio_rw t = uio_rw s" "uio_segflg t = uio_segflg s"
    using assms(3) by (simp_all add: uio_moved_def)
  have la: "length (take k (uio_addrs s)) = k" "length (take j (drop k (uio_addrs s))) = j"
    using ok kj by (auto simp: uio_ok_def)
  show ?thesis
  proof (cases "uio_rw s")
    case UIO_READ
    have "length (take k (drop ptr buf)) = k" using len by simp
    then show ?thesis using assms(1,2) UIO_READ la
      by (auto simp: uio_data_def addrs mem_put_append take_add add.commute [of k ptr])
  next
    case UIO_WRITE
    let ?x = "map (uio_mem s) (take k (uio_addrs s))" and ?y = "map (uio_mem s) (take j (drop k (uio_addrs s)))"
    have "splice_at (ptr + length ?x) ?y (splice_at ptr ?x buf) = splice_at ptr (?x @ ?y) buf"
      using len la by (intro splice_at_append) simp
    then show ?thesis using assms(1,2) UIO_WRITE la
      by (simp add: uio_data_def addrs take_add)
  qed
qed

lemma uio_data_0: "uio_data buf ptr 0 s buf s"
  by (simp add: uio_data_def split: uio_rw.split)

lemma uio_data_length: "uio_data buf ptr k s buf' t \<Longrightarrow> uio_ok s \<Longrightarrow> k \<le> uio_resid s \<Longrightarrow>
  ptr + k \<le> length buf \<Longrightarrow> length buf' = length buf"
  by (auto simp: uio_data_def uio_ok_def split: uio_rw.splits)

text \<open>
  \<open>uiomove\<close> moves exactly \<open>n\<close> bytes when \<open>uio_resid\<close> allows it: the next \<open>n\<close> addresses of
  the descriptor get the buffer's bytes (read) or the buffer gets theirs (write), and the
  cursor advances. Only user memory can fail, with \<open>EFAULT\<close>, after a whole number of
  iovec pieces.
\<close>

lemma uiomove_loop_wp:
  assumes "uio_ok s" "n \<le> uio_resid s" "ptr + n \<le> length buf"
  shows "wp (uiomove_loop buf ptr n)
    (\<lambda>buf' t. uio_moved n s t \<and> uio_data buf ptr n s buf' t)
    (\<lambda>e t. e = EFAULT \<and> uio_segflg s \<noteq> UIO_SYSSPACE \<and> (\<exists>k<n. uio_moved k s t)) s"
  using assms
proof (induction buf ptr n s rule: uiomove_loop.induct)
  case (1 buf ptr n s)
  show ?case
  proof (cases "n = 0")
    case True
    then show ?thesis using "1.prems" by (simp add: wp_def uiomove_loop.simps uio_moved_0 uio_data_0)
  next
    case n: False
    then have go: "n > 0 \<and> uio_resid s > 0" using "1.prems" by simp
    have "uio_iov s \<noteq> []" using go "1.prems" by (auto simp: uio_ok_def uio_addrs_def)
    then obtain iov rest where iov: "uio_iov s = iov # rest" by (cases "uio_iov s") auto
    define sz where "sz = (if iov_len iov > n then n else iov_len iov)"
    show ?thesis
    proof (cases "sz = 0")
      case True
      then have len0: "iov_len iov = 0" using n by (auto simp: sz_def split: if_splits)
      let ?s1 = "s\<lparr>uio_iov := rest, uio_iovcnt := u32 (uio_iovcnt s + 2 ^ 32 - 1)\<rparr>"
      have addrs: "uio_addrs ?s1 = uio_addrs s" using len0 iov by (simp add: uio_addrs_def)
      have cnt: "u32 (uio_iovcnt s + 2 ^ 32 - 1) = length rest"
        using u32_sub [of 1 "uio_iovcnt s"] "1.prems" iov by (simp add: uio_ok_def)
      have ok1: "uio_ok ?s1" using "1.prems" addrs iov unfolding uio_ok_def cnt by auto
      have "uio_addrs s = []" if "rest = []" using that iov len0 by (simp add: uio_addrs_def)
      then have "rest \<noteq> []" using go "1.prems"(1) by (auto simp: uio_ok_def)
      then have ne: "uio_iovcnt ?s1 \<noteq> 0" using cnt by simp
      have IH: "wp (uiomove_loop buf ptr n)
          (\<lambda>buf' t. uio_moved n ?s1 t \<and> uio_data buf ptr n ?s1 buf' t)
          (\<lambda>e t. e = EFAULT \<and> uio_segflg ?s1 \<noteq> UIO_SYSSPACE \<and> (\<exists>k<n. uio_moved k ?s1 t)) ?s1"
        by (rule "1.IH"(1) [OF go iov sz_def True refl ne]) (use ok1 "1.prems" in simp_all)
      have same: "uio_moved k ?s1 t \<longleftrightarrow> uio_moved k s t" for k t
        using addrs by (simp add: uio_moved_def)
      have mem: "uio_mem ?s1 = uio_mem s" by (simp add: uio_mem_def)
      have same': "uio_data buf ptr n ?s1 b t \<longleftrightarrow> uio_data buf ptr n s b t" for b t
        unfolding uio_data_def addrs mem by simp
      have "uiomove_loop buf ptr n s = uiomove_loop buf ptr n ?s1"
        using go iov True ne unfolding sz_def by (subst uiomove_loop.simps) (simp add: Let_def)
      then show ?thesis using IH unfolding same same' by (simp add: wp_def)
    next
      case False
      then have sz: "0 < sz" "sz \<le> iov_len iov" "sz \<le> n" by (auto simp: sz_def)
      have eq: "uiomove_loop buf ptr n s =
        kbind (uio_transfer buf ptr sz iov)
          (\<lambda>buf' s1. uiomove_loop buf' (ptr + sz) (n - sz) (uio_advance iov rest sz s1)) s"
        using go iov False unfolding sz_def
        by (subst uiomove_loop.simps) (simp add: Let_def kbind_def split: prod.splits outcome.splits)
      have IH: "wp (uiomove_loop buf1 (ptr + sz) (n - sz))
          (\<lambda>buf' t. uio_moved (n - sz) s2 t \<and> uio_data buf1 (ptr + sz) (n - sz) s2 buf' t)
          (\<lambda>e t. e = EFAULT \<and> uio_segflg s2 \<noteq> UIO_SYSSPACE \<and> (\<exists>k<n - sz. uio_moved k s2 t)) s2"
        if tr: "uio_transfer buf ptr sz iov s = (Ok buf1, s1)"
          and s2: "s2 = uio_advance iov rest sz s1" "uio_moved sz s s2" "uio_data buf ptr sz s buf1 s2"
        for buf1 s1 s2
      proof -
        have l: "length buf1 = length buf"
          using uio_data_length [OF s2(3) "1.prems"(1)] "1.prems" sz by simp
        show ?thesis unfolding s2(1)
          by (rule "1.IH"(2) [OF go iov sz_def False tr [symmetric] refl])
             (use s2 "1.prems" sz l in \<open>auto simp: uio_moved_def\<close>)
      qed
      have tr: "wp (uio_transfer buf ptr sz iov)
        (\<lambda>buf' t. uio_moved sz s (uio_advance iov rest sz t) \<and> uio_data buf ptr sz s buf' (uio_advance iov rest sz t))
        (\<lambda>e t. e = EFAULT \<and> uio_segflg s \<noteq> UIO_SYSSPACE \<and> uio_moved 0 s t) s"
        by (rule uio_transfer_wp [OF "1.prems"(1) iov]) (use sz "1.prems" in simp_all)
      from tr show ?thesis
      proof (cases rule: wp_run)
        case (Err e t)
        then show ?thesis using n by (auto simp: wp_def eq kbind_def)
      next
        case (Ok buf1 s1)
        let ?s2 = "uio_advance iov rest sz s1"
        from Ok have m: "uio_moved sz s ?s2" "uio_data buf ptr sz s buf1 ?s2" by auto
        have fin: "uio_moved n s t \<and> uio_data buf ptr n s b t"
          if "uio_moved (n - sz) ?s2 t \<and> uio_data buf1 (ptr + sz) (n - sz) ?s2 b t" for b t
          using uio_moved_trans [OF m(1), of "n - sz" t]
            uio_data_trans [OF m(2) _ m(1), of "n - sz" b t] that "1.prems" sz by simp
        have err: "\<exists>k<n. uio_moved k s t" if "k < n - sz" "uio_moved k ?s2 t" for k t
          using uio_moved_trans [OF m(1) that(2)] that(1) by (intro exI [of _ "sz + k"]) simp
        have seg: "uio_segflg ?s2 = uio_segflg s" using m(1) by (simp add: uio_moved_def)
        have "wp (uiomove_loop buf1 (ptr + sz) (n - sz))
          (\<lambda>buf' t. uio_moved n s t \<and> uio_data buf ptr n s buf' t)
          (\<lambda>e t. e = EFAULT \<and> uio_segflg s \<noteq> UIO_SYSSPACE \<and> (\<exists>k<n. uio_moved k s t)) ?s2"
          by (rule wp_conseq [OF IH [OF Ok(1) refl m]]) (use fin err seg in auto)
        then show ?thesis by (simp add: wp_def eq kbind_def Ok(1))
      qed
    qed
  qed
qed

lemma uiomove_wp:
  assumes "uio_ok s" "n \<le> uio_resid s" "ptr + n \<le> length buf"
  shows "wp (uiomove buf ptr n)
    (\<lambda>buf' t. uio_moved n s t \<and> uio_data buf ptr n s buf' t)
    (\<lambda>e t. e = EFAULT \<and> uio_segflg s \<noteq> UIO_SYSSPACE \<and> (\<exists>k<n. uio_moved k s t)) s"
proof -
  have "if uio_segflg s = UIO_SYSSPACE then uio_space s = None else uio_space s = proc_as s"
    using assms(1) unfolding uio_ok_def by blast
  then show ?thesis using uiomove_loop_wp [OF assms] by (simp add: uiomove_def)
qed

lemma uiomovezeros_loop_wp:
  assumes "uio_ok s" "n \<le> uio_resid s" "uio_rw s = UIO_READ"
  shows "wp (uiomovezeros_loop n)
    (\<lambda>_ t. uio_moved n s t \<and> uio_mem t = mem_put (uio_mem s) (take n (uio_addrs s)) (replicate n 0))
    (\<lambda>e t. e = EFAULT \<and> uio_segflg s \<noteq> UIO_SYSSPACE \<and> (\<exists>k<n. uio_moved k s t)) s"
  using assms
proof (induction n arbitrary: s rule: less_induct)
  case (less n)
  show ?case
  proof (cases "n = 0")
    case True
    then show ?thesis using less.prems by (simp add: wp_def uiomovezeros_loop.simps uio_moved_0)
  next
    case n: False
    define amt where "amt = (if 16 > n then n else 16)"
    have amt: "0 < amt" "amt \<le> n" "amt \<le> 16" using n by (auto simp: amt_def)
    have eq: "uiomovezeros_loop n s =
        kbind (uiomove (replicate 16 0) 0 amt) (\<lambda>_. uiomovezeros_loop (n - amt)) s"
      using n unfolding amt_def
      by (subst uiomovezeros_loop.simps) (simp add: Let_def kbind_def split: prod.splits outcome.splits)
    have "wp (uiomove (replicate 16 0) 0 amt)
      (\<lambda>buf' t. uio_moved amt s t \<and> uio_data (replicate 16 0) 0 amt s buf' t)
      (\<lambda>e t. e = EFAULT \<and> uio_segflg s \<noteq> UIO_SYSSPACE \<and> (\<exists>k<amt. uio_moved k s t)) s"
      by (rule uiomove_wp) (use less.prems amt in simp_all)
    then show ?thesis
    proof (cases rule: wp_run)
      case (Err e t)
      then obtain k where "k < n" "uio_moved k s t" using amt(2) by (meson less_le_trans)
      then show ?thesis using Err by (auto simp: wp_def eq kbind_def)
    next
      case (Ok b t)
      then have m: "uio_moved amt s t" and "uio_data (replicate 16 0) 0 amt s b t" by auto
      then have mem: "uio_mem t = mem_put (uio_mem s) (take amt (uio_addrs s)) (replicate amt 0)"
        using less.prems(3) amt by (simp add: uio_data_def)
      have t: "uio_ok t" "n - amt \<le> uio_resid t" "uio_rw t = UIO_READ" "uio_segflg t = uio_segflg s"
        "uio_addrs t = drop amt (uio_addrs s)"
        using m less.prems by (auto simp: uio_moved_def)
      have la: "length (take amt (uio_addrs s)) = amt" using less.prems amt by (simp add: uio_ok_def)
      have join: "mem_put (mem_put (uio_mem s) (take amt (uio_addrs s)) (replicate amt 0))
          (take (n - amt) (drop amt (uio_addrs s))) (replicate (n - amt) 0) =
        mem_put (uio_mem s) (take n (uio_addrs s)) (replicate n 0)"
        using mem_put_append [of "take amt (uio_addrs s)" "replicate amt 0"] la amt
          take_add [of amt "n - amt" "uio_addrs s"] replicate_add [of amt "n - amt" "0::byte"] by simp
      have "wp (uiomovezeros_loop (n - amt))
        (\<lambda>_ u. uio_moved n s u \<and> uio_mem u = mem_put (uio_mem s) (take n (uio_addrs s)) (replicate n 0))
        (\<lambda>e u. e = EFAULT \<and> uio_segflg s \<noteq> UIO_SYSSPACE \<and> (\<exists>k<n. uio_moved k s u)) t"
      proof (rule wp_conseq [OF less.IH [OF _ t(1-3)]])
        fix x u assume "uio_moved (n - amt) t u \<and> uio_mem u = mem_put (uio_mem t) (take (n - amt) (uio_addrs t)) (replicate (n - amt) 0)"
        then show "uio_moved n s u \<and> uio_mem u = mem_put (uio_mem s) (take n (uio_addrs s)) (replicate n 0)"
          using uio_moved_trans [OF m, of "n - amt" u] amt mem t(5) join by simp
      next
        fix e u assume "e = EFAULT \<and> uio_segflg t \<noteq> UIO_SYSSPACE \<and> (\<exists>k<n - amt. uio_moved k t u)"
        then obtain k where "e = EFAULT" "uio_segflg s \<noteq> UIO_SYSSPACE" "k < n - amt" "uio_moved k t u"
          using t(4) by auto
        then show "e = EFAULT \<and> uio_segflg s \<noteq> UIO_SYSSPACE \<and> (\<exists>k<n. uio_moved k s u)"
          using uio_moved_trans [OF m, of k u] by (auto intro!: exI [of _ "amt + k"])
      qed (use amt n in simp)
      then show ?thesis by (simp add: wp_def eq kbind_def Ok(1))
    qed
  qed
qed

lemma uiomovezeros_wp:
  assumes "uio_ok s" "n \<le> uio_resid s" "uio_rw s = UIO_READ"
  shows "wp (uiomovezeros n)
    (\<lambda>_ t. uio_moved n s t \<and> uio_mem t = mem_put (uio_mem s) (take n (uio_addrs s)) (replicate n 0))
    (\<lambda>e t. e = EFAULT \<and> uio_segflg s \<noteq> UIO_SYSSPACE \<and> (\<exists>k<n. uio_moved k s t)) s"
  using uiomovezeros_loop_wp [OF assms] assms(3) by (simp add: uiomovezeros_def)

subsection \<open>Kernel descriptors\<close>

lemma uio_kinit_ok: "length buf < 2 ^ 32 \<Longrightarrow> uio_ok (uio_kinit buf pos rw)"
  by (simp add: uio_ok_def uio_kinit_def uio_addrs_def)

lemma uio_kinit_simps [simp]:
  "uio_rw (uio_kinit buf pos rw) = rw" "uio_offset (uio_kinit buf pos rw) = pos"
  "uio_resid (uio_kinit buf pos rw) = length buf" "uio_segflg (uio_kinit buf pos rw) = UIO_SYSSPACE"
  "uio_addrs (uio_kinit buf pos rw) = [0 ..< length buf]"
  by (simp_all add: uio_kinit_def uio_addrs_def)

lemma uio_kinit_data: "map (uio_mem (uio_kinit buf pos rw)) [0 ..< length buf] = buf"
  by (rule nth_equalityI) (simp_all add: uio_mem_def uio_kinit_def)

lemma uio_kbuf_put:
  assumes "uio_mem t = mem_put m [0 ..< length bs] bs" "uio_segflg t = UIO_SYSSPACE"
  shows "uio_kbuf (length bs) t = bs"
  using assms map_mem_put [of "[0 ..< length bs]" bs m]
  by (simp add: uio_kbuf_def mem_read_map uio_mem_def)

subsection \<open>Properties\<close>

text \<open>
  C40: \<open>uiomove\<close> moves \<open>n\<close> bytes between a kernel buffer and the memory the descriptor covers,
  across as many \<open>iovec\<close>s as needed: a read puts the bytes of the buffer at the first \<open>n\<close>
  addresses of the descriptor, a write replaces the bytes of the buffer by those at these
  addresses. The descriptor then covers the remaining addresses, with \<open>uio_resid\<close> and
  \<open>uio_offset\<close> moved by \<open>n\<close>. Only a user descriptor can fail, with \<open>EFAULT\<close>.
\<close>

theorem uiomove_moves:
  assumes "uio_ok s" "n \<le> uio_resid s" "ptr + n \<le> length buf"
  shows "wp (uiomove buf ptr n)
    (\<lambda>buf' t. uio_ok t \<and> uio_addrs t = drop n (uio_addrs s) \<and> uio_resid t = uio_resid s - n \<and>
       uio_offset t = uio_offset s + int n \<and>
       (if uio_rw s = UIO_READ
        then buf' = buf \<and> uio_mem t = mem_put (uio_mem s) (take n (uio_addrs s)) (take n (drop ptr buf))
        else uio_mem t = uio_mem s \<and> buf' = splice_at ptr (map (uio_mem s) (take n (uio_addrs s))) buf))
    (\<lambda>e t. e = EFAULT \<and> uio_segflg s \<noteq> UIO_SYSSPACE \<and> uio_ok t) s"
  by (rule wp_conseq [OF uiomove_wp [OF assms]])
    (auto simp: uio_moved_def uio_data_def split: uio_rw.splits)

theorem uiomove_moves_witness:
  "wp (uiomove [0, 0, 0, 0] 1 2)
    (\<lambda>buf' t. uio_ok t \<and> uio_addrs t = [2] \<and> uio_resid t = 1 \<and> uio_offset t = 102 \<and>
       uio_mem t = uio_mem (uio_kinit [7, 8, 9] 100 UIO_WRITE) \<and> buf' = [0, 7, 8, 0])
    (\<lambda>e t. e = EFAULT \<and> UIO_SYSSPACE \<noteq> UIO_SYSSPACE \<and> uio_ok t) (uio_kinit [7, 8, 9] 100 UIO_WRITE)"
proof -
  let ?u = "uio_kinit [7, 8, 9] 100 UIO_WRITE"
  have "uio_ok ?u" by (rule uio_kinit_ok) simp
  moreover have "map (uio_mem ?u) [0, 1] = [7, 8]" by (simp add: uio_mem_def uio_kinit_def)
  moreover have "[0 ..< 3] = [0, 1, 2 :: nat]" by (simp add: upt_rec)
  ultimately show ?thesis
    using uiomove_moves [of ?u 2 1 "[0, 0, 0, 0]"] by (simp add: splice_at_def numeral_2_eq_2)
qed

end
