(* ===== verification/Dev_Lhd.thy ===== *)
theory Dev_Lhd
  imports Lib_Uio "HOL-Library.Signed_Division"
begin

text \<open>
  The LAMEbus disk driver, \<open>kern/dev/lamebus/lhd.c\<close>, on the disk it drives. The disk
  itself is hardware: its sectors are part of the state, and \<open>hw_script\<close> lists the status
  codes with which the coming operations end, so that a theorem about an arbitrary script
  covers every behaviour of the hardware. After the script is used up operations succeed.
  An operation that fails leaves the bytes given in the script in the transfer buffer (a
  read) or in the sector (a write). The two semaphores are their counts; waiting on a
  count of 0 is \<open>Hang\<close>, since one thread runs the driver here.
\<close>

subsection \<open>Model\<close>

definition LHD_SECTSIZE :: nat where "LHD_SECTSIZE = 512"

definition LHD_IDLE :: nat where "LHD_IDLE = 0"
definition LHD_WORKING :: nat where "LHD_WORKING = 1"
definition LHD_OK :: nat where "LHD_OK = 4"
definition LHD_INVSECT :: nat where "LHD_INVSECT = 12"
definition LHD_MEDIA :: nat where "LHD_MEDIA = 20"
definition LHD_ISWRITE :: nat where "LHD_ISWRITE = 2"
definition LHD_STATEMASK :: nat where "LHD_STATEMASK = 0x1d"

lemmas lhd_codes = LHD_IDLE_def LHD_WORKING_def LHD_OK_def LHD_INVSECT_def LHD_MEDIA_def
  LHD_ISWRITE_def LHD_STATEMASK_def

record lhd_softc =
  d_blocks :: nat
  lh_buf :: "byte list"
  lh_result :: "errno option"
  lh_clear :: nat
  lh_done :: nat
  reg_stat :: nat
  reg_sect :: nat
  hw_sect :: "nat \<Rightarrow> byte list"
  hw_script :: "(nat \<times> byte list) list"

definition lhd_code_to_errno :: "nat \<Rightarrow> errno option" where
  "lhd_code_to_errno code =
     (let c = code AND LHD_STATEMASK in
      if c = LHD_OK then None
      else if c = LHD_INVSECT then Some EINVAL
      else if c = LHD_MEDIA then Some EIO
      else Some EAGAIN)"

definition lhd_iodone :: "errno option \<Rightarrow> lhd_softc \<Rightarrow> lhd_softc" where
  "lhd_iodone err lh = lh\<lparr>lh_result := err, lh_done := lh_done lh + 1\<rparr>"

definition lhd_irq :: "lhd_softc \<Rightarrow> lhd_softc" where
  "lhd_irq lh =
     (let val = reg_stat lh; c = val AND LHD_STATEMASK in
      if c = LHD_OK \<or> c = LHD_INVSECT \<or> c = LHD_MEDIA
      then lhd_iodone (lhd_code_to_errno val) (lh\<lparr>reg_stat := 0\<rparr>)
      else lh)"

definition lhd_P_clear :: "(lhd_softc \<times> uenv, unit) kfun" where
  "lhd_P_clear = (\<lambda>(lh, u). if lh_clear lh = 0 then (Hang, (lh, u))
     else (Ok (), (lh\<lparr>lh_clear := lh_clear lh - 1\<rparr>, u)))"

definition lhd_V_clear :: "(lhd_softc \<times> uenv, unit) kfun" where
  "lhd_V_clear = kmod (\<lambda>(lh, u). (lh\<lparr>lh_clear := lh_clear lh + 1\<rparr>, u))"

definition lhd_P_done :: "(lhd_softc \<times> uenv, unit) kfun" where
  "lhd_P_done = (\<lambda>(lh, u). if lh_done lh = 0 then (Hang, (lh, u))
     else (Ok (), (lh\<lparr>lh_done := lh_done lh - 1\<rparr>, u)))"

text \<open>The disk performs the operation the registers ask for, and interrupts.\<close>

definition lhd_hw :: "lhd_softc \<Rightarrow> lhd_softc" where
  "lhd_hw lh =
     (let iswrite = (reg_stat lh AND LHD_ISWRITE \<noteq> 0);
          (code, junk) = (case hw_script lh of [] \<Rightarrow> (LHD_OK, []) | e # _ \<Rightarrow> e);
          lh1 = lh\<lparr>hw_script := tl (hw_script lh),
                   reg_stat := code OR (if iswrite then LHD_ISWRITE else 0)\<rparr> in
      if iswrite then
        lh1\<lparr>hw_sect := (hw_sect lh)(reg_sect lh := (if code = LHD_OK then lh_buf lh else junk))\<rparr>
      else
        lh1\<lparr>lh_buf := (if code = LHD_OK then hw_sect lh (reg_sect lh) else junk)\<rparr>)"

text \<open>One round of the sector loop of \<open>lhd_io\<close>: sector number \<open>sect\<close>.\<close>

definition lhd_io_sector :: "nat \<Rightarrow> nat \<Rightarrow> (lhd_softc \<times> uenv, unit) kfun" where
  "lhd_io_sector statval sect =
     kthen lhd_P_clear
     (kbind (kget (\<lambda>(lh, u). uio_rw u)) (\<lambda>rw.
      kbind (ktry (if rw = UIO_WRITE then
               kbind (kget (lh_buf \<circ> fst)) (\<lambda>buf.
                 kbind (kzoom snd (\<lambda>u (lh, _). (lh, u)) (uiomove buf 0 LHD_SECTSIZE)) (\<lambda>buf'.
                   kmod (\<lambda>(lh, u). (lh\<lparr>lh_buf := buf'\<rparr>, u))))
             else kret ())) (\<lambda>r.
      case r of
        Inl e \<Rightarrow> kthen lhd_V_clear (kfail e)
      | Inr _ \<Rightarrow>
          kthen (kmod (\<lambda>(lh, u). (lh\<lparr>reg_sect := sect\<rparr>, u)))
          (kthen (kmod (\<lambda>(lh, u). (lh\<lparr>reg_stat := statval\<rparr>, u)))
          (kthen (kmod (\<lambda>(lh, u). (lhd_irq (lhd_hw lh), u)))
          (kthen lhd_P_done
          (kbind (kget (lh_result \<circ> fst)) (\<lambda>result.
           kbind (ktry (case result of
                      Some e \<Rightarrow> kfail e
                    | None \<Rightarrow>
                        if rw = UIO_READ then
                          kbind (kget (lh_buf \<circ> fst)) (\<lambda>buf.
                            kthen (kzoom snd (\<lambda>u (lh, _). (lh, u)) (uiomove buf 0 LHD_SECTSIZE)) (kret ()))
                        else kret ())) (\<lambda>r2.
           kthen lhd_V_clear
             (case r2 of Inl e \<Rightarrow> kfail e | Inr _ \<Rightarrow> kret ()))))))))))"

function lhd_io_loop :: "nat \<Rightarrow> nat \<Rightarrow> nat \<Rightarrow> nat \<Rightarrow> (lhd_softc \<times> uenv, unit) kfun" where
  "lhd_io_loop statval sector len i =
     (if i < len then
        kthen (lhd_io_sector statval (u32 (sector + i))) (lhd_io_loop statval sector len (Suc i))
      else kret ())"
  by pat_completeness auto
termination
  by (relation "measure (\<lambda>(statval, sector, len, i). len - i)") auto

definition lhd_io :: "(lhd_softc \<times> uenv, unit) kfun" where
  "lhd_io =
     kbind (kget id) (\<lambda>(lh, u).
       let sector = u32_of_int (uio_offset u sdiv int LHD_SECTSIZE);
           sectoff = u32_of_int (uio_offset u smod int LHD_SECTSIZE);
           len = uio_resid u div LHD_SECTSIZE;
           lenoff = uio_resid u mod LHD_SECTSIZE;
           statval = LHD_WORKING OR (if uio_rw u = UIO_WRITE then LHD_ISWRITE else 0) in
       if sectoff \<noteq> 0 \<or> lenoff \<noteq> 0 then kfail EINVAL
       else if u32 (sector + len) > d_blocks lh then kfail EINVAL
       else lhd_io_loop statval sector len 0)"

definition lhd_eachopen :: "nat \<Rightarrow> (lhd_softc, unit) kfun" where
  "lhd_eachopen openflags = kret ()"

definition lhd_ioctl :: "nat \<Rightarrow> nat \<Rightarrow> (lhd_softc, unit) kfun" where
  "lhd_ioctl oper data = kfail EIOCTL"

declare lhd_io_loop.simps [simp del]

subsection \<open>Invariant of the driver\<close>

text \<open>Idle driver, one thread allowed in, full-size buffers; the hardware reports known codes.\<close>

definition script_ok :: "(nat \<times> byte list) list \<Rightarrow> bool" where
  "script_ok xs \<longleftrightarrow> (\<forall>(code, junk) \<in> set xs. code \<in> {LHD_OK, LHD_MEDIA, LHD_INVSECT} \<and>
     length junk = LHD_SECTSIZE)"

definition lhd_ok :: "lhd_softc \<Rightarrow> bool" where
  "lhd_ok lh \<longleftrightarrow> lh_clear lh = 1 \<and> lh_done lh = 0 \<and> d_blocks lh < 2 ^ 32 \<and>
     length (lh_buf lh) = LHD_SECTSIZE \<and> (\<forall>b. length (hw_sect lh b) = LHD_SECTSIZE) \<and>
     script_ok (hw_script lh)"

lemma script_ok_tl: "script_ok xs \<Longrightarrow> script_ok (tl xs)"
  by (cases xs) (auto simp: script_ok_def)

text \<open>The status code and the bytes of the next operation.\<close>

definition hw_next :: "lhd_softc \<Rightarrow> nat \<times> byte list" where
  "hw_next lh = (case hw_script lh of [] \<Rightarrow> (LHD_OK, []) | e # _ \<Rightarrow> e)"

text \<open>No operation to come fails.\<close>

definition hw_good :: "lhd_softc \<Rightarrow> bool" where
  "hw_good lh \<longleftrightarrow> (\<forall>e \<in> set (hw_script lh). fst e = LHD_OK)"

lemma hw_good_next: "hw_good lh \<Longrightarrow> fst (hw_next lh) = LHD_OK"
  by (auto simp: hw_good_def hw_next_def split: list.splits)

lemma lhd_ok_next:
  assumes "lhd_ok lh"
  shows "fst (hw_next lh) \<in> {LHD_OK, LHD_MEDIA, LHD_INVSECT}"
    and "fst (hw_next lh) \<noteq> LHD_OK \<Longrightarrow> length (snd (hw_next lh)) = LHD_SECTSIZE"
  using assms by (auto simp: lhd_ok_def script_ok_def hw_next_def split: list.splits)

lemma wp_P_clear [simp]:
  "wp lhd_P_clear Q E (lh, u) = (lh_clear lh \<noteq> 0 \<and> Q () (lh\<lparr>lh_clear := lh_clear lh - 1\<rparr>, u))"
  by (simp add: wp_def lhd_P_clear_def)

lemma wp_P_done [simp]:
  "wp lhd_P_done Q E (lh, u) = (lh_done lh \<noteq> 0 \<and> Q () (lh\<lparr>lh_done := lh_done lh - 1\<rparr>, u))"
  by (simp add: wp_def lhd_P_done_def)

lemma wp_V_clear [simp]:
  "wp lhd_V_clear Q E (lh, u) = Q () (lh\<lparr>lh_clear := lh_clear lh + 1\<rparr>, u)"
  by (simp add: lhd_V_clear_def)

text \<open>The codes under the status mask, with and without the write flag.\<close>

lemma lhd_mask_simps [simp]:
  "(LHD_OK OR LHD_ISWRITE) AND LHD_STATEMASK = LHD_OK" "LHD_OK AND LHD_STATEMASK = LHD_OK"
  "(LHD_MEDIA OR LHD_ISWRITE) AND LHD_STATEMASK = LHD_MEDIA" "LHD_MEDIA AND LHD_STATEMASK = LHD_MEDIA"
  "(LHD_INVSECT OR LHD_ISWRITE) AND LHD_STATEMASK = LHD_INVSECT" "LHD_INVSECT AND LHD_STATEMASK = LHD_INVSECT"
  "(LHD_WORKING OR LHD_ISWRITE) AND LHD_ISWRITE \<noteq> 0" "LHD_WORKING AND LHD_ISWRITE = 0"
  by (simp_all add: lhd_codes)

definition lhd_result_of :: "nat \<Rightarrow> errno option" where
  "lhd_result_of code = (if code = LHD_OK then None else if code = LHD_MEDIA then Some EIO else Some EINVAL)"

lemma lhd_irq_hw_read:
  assumes "lhd_ok lh0" "hw_script lh = hw_script lh0"
  shows "lhd_irq (lhd_hw (lh\<lparr>reg_stat := LHD_WORKING\<rparr>)) =
    lh\<lparr>hw_script := tl (hw_script lh), reg_stat := 0, lh_done := lh_done lh + 1,
       lh_result := lhd_result_of (fst (hw_next lh)),
       lh_buf := (if fst (hw_next lh) = LHD_OK then hw_sect lh (reg_sect lh) else snd (hw_next lh))\<rparr>"
proof -
  have nx: "hw_next lh = hw_next lh0" using assms(2) by (simp add: hw_next_def)
  consider "fst (hw_next lh) = LHD_OK" | "fst (hw_next lh) = LHD_MEDIA" | "fst (hw_next lh) = LHD_INVSECT"
    using lhd_ok_next(1) [OF assms(1)] nx by auto
  then show ?thesis
  proof cases
    case 1
    then show ?thesis
      by (cases "hw_next lh") (simp add: lhd_hw_def lhd_irq_def lhd_iodone_def lhd_result_of_def lhd_code_to_errno_def
        Let_def flip: hw_next_def [of lh])
  next
    case 2
    then show ?thesis
      by (cases "hw_next lh") (simp add: lhd_hw_def lhd_irq_def lhd_iodone_def lhd_result_of_def lhd_code_to_errno_def
        Let_def lhd_codes flip: hw_next_def [of lh])
  next
    case 3
    then show ?thesis
      by (cases "hw_next lh") (simp add: lhd_hw_def lhd_irq_def lhd_iodone_def lhd_result_of_def lhd_code_to_errno_def
        Let_def lhd_codes flip: hw_next_def [of lh])
  qed
qed

lemma lhd_irq_hw_write:
  assumes "lhd_ok lh0" "hw_script lh = hw_script lh0"
  shows "lhd_irq (lhd_hw (lh\<lparr>reg_stat := LHD_WORKING OR LHD_ISWRITE\<rparr>)) =
    lh\<lparr>hw_script := tl (hw_script lh), reg_stat := 0, lh_done := lh_done lh + 1,
       lh_result := lhd_result_of (fst (hw_next lh)),
       hw_sect := (hw_sect lh)(reg_sect lh :=
         (if fst (hw_next lh) = LHD_OK then lh_buf lh else snd (hw_next lh)))\<rparr>"
proof -
  have nx: "hw_next lh = hw_next lh0" using assms(2) by (simp add: hw_next_def)
  consider "fst (hw_next lh) = LHD_OK" | "fst (hw_next lh) = LHD_MEDIA" | "fst (hw_next lh) = LHD_INVSECT"
    using lhd_ok_next(1) [OF assms(1)] nx by auto
  then show ?thesis
  proof cases
    case 1
    then show ?thesis
      by (cases "hw_next lh") (simp add: lhd_hw_def lhd_irq_def lhd_iodone_def lhd_result_of_def lhd_code_to_errno_def
        Let_def flip: hw_next_def [of lh])
  next
    case 2
    then show ?thesis
      by (cases "hw_next lh") (simp add: lhd_hw_def lhd_irq_def lhd_iodone_def lhd_result_of_def lhd_code_to_errno_def
        Let_def lhd_codes flip: hw_next_def [of lh])
  next
    case 3
    then show ?thesis
      by (cases "hw_next lh") (simp add: lhd_hw_def lhd_irq_def lhd_iodone_def lhd_result_of_def lhd_code_to_errno_def
        Let_def lhd_codes flip: hw_next_def [of lh])
  qed
qed

subsection \<open>One sector\<close>

text \<open>What every operation leaves alone, and that it uses one entry of the script.\<close>

definition lhd_after :: "lhd_softc \<Rightarrow> lhd_softc \<Rightarrow> bool" where
  "lhd_after lh lh' \<longleftrightarrow> lhd_ok lh' \<and> d_blocks lh' = d_blocks lh \<and> hw_script lh' = tl (hw_script lh)"

lemma lhd_afterI:
  assumes "lhd_ok lh" "lh_clear lh' = 1" "lh_done lh' = 0" "d_blocks lh' = d_blocks lh"
    "hw_script lh' = tl (hw_script lh)" "length (lh_buf lh') = LHD_SECTSIZE"
    "\<And>b. length (hw_sect lh' b) = LHD_SECTSIZE"
  shows "lhd_after lh lh'"
  using assms by (simp add: lhd_after_def lhd_ok_def script_ok_tl)

lemma lhd_io_sector_read:
  assumes ok: "lhd_ok lh" and u: "uio_ok u" "uio_rw u = UIO_READ" "LHD_SECTSIZE \<le> uio_resid u"
  shows "wp (lhd_io_sector LHD_WORKING sect)
    (\<lambda>_ (lh', u'). fst (hw_next lh) = LHD_OK \<and> lhd_after lh lh' \<and> hw_sect lh' = hw_sect lh \<and>
       uio_moved LHD_SECTSIZE u u' \<and>
       uio_mem u' = mem_put (uio_mem u) (take LHD_SECTSIZE (uio_addrs u)) (hw_sect lh sect))
    (\<lambda>e (lh', u'). lhd_after lh lh' \<and> hw_sect lh' = hw_sect lh \<and>
       (fst (hw_next lh) = LHD_OK \<and> e = EFAULT \<and> uio_segflg u \<noteq> UIO_SYSSPACE \<and>
          (\<exists>k<LHD_SECTSIZE. uio_moved k u u') \<or>
        Some e = lhd_result_of (fst (hw_next lh)) \<and> u' = u)) (lh, u)"
proof -
  have nx: "hw_next (lh\<lparr>lh_clear := c, reg_sect := sect\<rparr>) = hw_next lh" for c by (simp add: hw_next_def)
  note irq = lhd_irq_hw_read [OF ok, of "lh\<lparr>lh_clear := 0, reg_sect := sect\<rparr>", simplified, unfolded nx]
  define buf where "buf = (if fst (hw_next lh) = LHD_OK then hw_sect lh sect else snd (hw_next lh))"
  have lbuf: "length buf = LHD_SECTSIZE"
    using ok lhd_ok_next(2) [OF ok] by (auto simp: buf_def lhd_ok_def)
  note fields = ok [unfolded lhd_ok_def]
  have mv: "wp (uiomove buf 0 LHD_SECTSIZE)
      (\<lambda>_ u'. uio_moved LHD_SECTSIZE u u' \<and>
         uio_mem u' = mem_put (uio_mem u) (take LHD_SECTSIZE (uio_addrs u)) buf)
      (\<lambda>e u'. e = EFAULT \<and> uio_segflg u \<noteq> UIO_SYSSPACE \<and> (\<exists>k<LHD_SECTSIZE. uio_moved k u u')) u"
    by (rule wp_conseq [OF uiomove_wp]) (use u lbuf in \<open>auto simp: uio_data_def\<close>)
  show ?thesis
  proof (cases "fst (hw_next lh) = LHD_OK")
    case True
    then have b: "buf = hw_sect lh sect" by (simp add: buf_def)
    have "lhd_result_of (fst (hw_next lh)) = None" using True by (simp add: lhd_result_of_def)
    then show ?thesis
      unfolding lhd_io_sector_def
      using fields u(2) True irq
      by (simp add: b [symmetric])
         (rule wp_conseq [OF mv]; use lbuf in \<open>auto simp: b intro!: lhd_afterI [OF ok]\<close>)
  next
    case False
    then obtain e where e: "lhd_result_of (fst (hw_next lh)) = Some e"
      by (cases "lhd_result_of (fst (hw_next lh))") (auto simp: lhd_result_of_def split: if_splits)
    show ?thesis
      unfolding lhd_io_sector_def
      using fields u(2) False irq e lbuf by (auto simp: buf_def intro!: lhd_afterI [OF ok])
  qed
qed

lemma lhd_io_sector_write:
  assumes ok: "lhd_ok lh" and u: "uio_ok u" "uio_rw u = UIO_WRITE" "LHD_SECTSIZE \<le> uio_resid u"
  shows "wp (lhd_io_sector (LHD_WORKING OR LHD_ISWRITE) sect)
    (\<lambda>_ (lh', u'). fst (hw_next lh) = LHD_OK \<and> lhd_after lh lh' \<and>
       hw_sect lh' = (hw_sect lh)(sect := map (uio_mem u) (take LHD_SECTSIZE (uio_addrs u))) \<and>
       uio_moved LHD_SECTSIZE u u' \<and> uio_mem u' = uio_mem u)
    (\<lambda>e (lh', u').
       lhd_ok lh' \<and> d_blocks lh' = d_blocks lh \<and> hw_script lh' = hw_script lh \<and> hw_sect lh' = hw_sect lh \<and>
         e = EFAULT \<and> uio_segflg u \<noteq> UIO_SYSSPACE \<and> (\<exists>k<LHD_SECTSIZE. uio_moved k u u') \<or>
       lhd_after lh lh' \<and> hw_sect lh' = (hw_sect lh)(sect := snd (hw_next lh)) \<and>
         Some e = lhd_result_of (fst (hw_next lh)) \<and>
         uio_moved LHD_SECTSIZE u u' \<and> uio_mem u' = uio_mem u) (lh, u)"
proof -
  note fields = ok [unfolded lhd_ok_def]
  let ?data = "map (uio_mem u) (take LHD_SECTSIZE (uio_addrs u))"
  have lenb: "length (lh_buf lh) = LHD_SECTSIZE" using fields by simp
  have ldata: "length ?data = LHD_SECTSIZE" using u by (simp add: uio_ok_def)
  have nx: "hw_next (lh\<lparr>lh_clear := c, lh_buf := b, reg_sect := sect\<rparr>) = hw_next lh" for c b
    by (simp add: hw_next_def)
  note irq = lhd_irq_hw_write [OF ok, of "lh\<lparr>lh_clear := 0, lh_buf := ?data, reg_sect := sect\<rparr>", simplified, unfolded nx]
  have mv: "wp (uiomove (lh_buf lh) 0 LHD_SECTSIZE)
      (\<lambda>b u'. b = ?data \<and> uio_moved LHD_SECTSIZE u u' \<and> uio_mem u' = uio_mem u)
      (\<lambda>e u'. e = EFAULT \<and> uio_segflg u \<noteq> UIO_SYSSPACE \<and> (\<exists>k<LHD_SECTSIZE. uio_moved k u u')) u"
    by (rule wp_conseq [OF uiomove_wp]) (use u lenb ldata in \<open>auto simp: uio_data_def\<close>)
  from mv show ?thesis
  proof (cases rule: wp_run)
    case (Err e u')
    have "wp (uiomove (lh_buf lh) 0 LHD_SECTSIZE) (\<lambda>_ _. False) (\<lambda>e' t. e' = e \<and> t = u') u"
      using Err by (simp add: wp_def)
    then have "wp (uiomove (lh_buf lh) 0 LHD_SECTSIZE) (\<lambda>_ _. False)
      (\<lambda>e' t. lhd_ok (lh\<lparr>lh_clear := Suc 0\<rparr>) \<and> e' = EFAULT \<and> uio_segflg u \<noteq> UIO_SYSSPACE \<and> (\<exists>k<LHD_SECTSIZE. uio_moved k u t)) u"
      by (rule wp_conseq) (use Err fields in \<open>auto simp: lhd_ok_def\<close>)
    then show ?thesis unfolding lhd_io_sector_def using fields u(2)
      by simp (erule wp_conseq; auto simp: lhd_ok_def)
  next
    case (Ok b u')
    then have b: "b = ?data" by simp
    have "wp (uiomove (lh_buf lh) 0 LHD_SECTSIZE) (\<lambda>b' t. b' = b \<and> t = u') (\<lambda>_ _. False) u"
      using Ok by (simp add: wp_def)
    then show ?thesis unfolding lhd_io_sector_def using fields u(2)
      by simp (erule wp_conseq; use Ok irq ldata lhd_ok_next(2) [OF ok] in
        \<open>auto simp: b lhd_result_of_def intro!: lhd_afterI [OF ok] split: if_splits\<close>)
  qed
qed

subsection \<open>I/O of one block\<close>

text \<open>The registers \<open>lhd_io\<close> computes for a block-aligned descriptor.\<close>

lemma sdiv_sect: "int (LHD_SECTSIZE * b) sdiv int LHD_SECTSIZE = int b"
  by (cases "b = 0") (simp_all add: signed_divide_int_def LHD_SECTSIZE_def sgn_if)

lemma smod_sect: "int (LHD_SECTSIZE * b) smod int LHD_SECTSIZE = 0"
  by (simp add: signed_modulo_int_def sdiv_sect)

definition uio_at_block :: "uenv \<Rightarrow> nat \<Rightarrow> bool" where
  "uio_at_block u b \<longleftrightarrow> uio_offset u = int (LHD_SECTSIZE * b) \<and> uio_resid u = LHD_SECTSIZE"

lemma lhd_io_one:
  assumes "uio_at_block u b" "b < d_blocks lh" "d_blocks lh < 2 ^ 32"
  shows "wp lhd_io Q E (lh, u) =
    wp (lhd_io_sector (LHD_WORKING OR (if uio_rw u = UIO_WRITE then LHD_ISWRITE else 0)) b) Q E (lh, u)"
proof -
  have b: "b < 2 ^ 32" "b + 1 < 2 ^ 32" using assms by auto
  then have sect: "u32_of_int (uio_offset u sdiv int LHD_SECTSIZE) = b"
    using assms(1) unfolding uio_at_block_def by (simp only: sdiv_sect) simp
  have off: "u32_of_int (uio_offset u smod int LHD_SECTSIZE) = 0"
    using assms(1) unfolding uio_at_block_def by (simp only: smod_sect) (simp add: u32_of_int_def)
  have len: "uio_resid u div LHD_SECTSIZE = 1" "uio_resid u mod LHD_SECTSIZE = 0"
    using assms(1) by (simp_all add: uio_at_block_def LHD_SECTSIZE_def)
  have loop: "wp (lhd_io_loop v b 1 0) Q E = wp (lhd_io_sector v b) Q E" for v
    using b by (simp add: lhd_io_loop.simps)
  have "\<not> d_blocks lh < u32 (b + 1)" using assms b by simp
  then show ?thesis
    by (simp add: lhd_io_def Let_def sect off len loop del: One_nat_def)
qed

text \<open>A descriptor that is used up: the loop body never runs, and nothing is transferred.\<close>

lemma lhd_io_empty:
  assumes "uio_resid u = 0" "uio_offset u = int (LHD_SECTSIZE * b)" "b \<le> d_blocks lh" "d_blocks lh < 2 ^ 32"
  shows "lhd_io (lh, u) = (Ok (), (lh, u))"
proof -
  have b: "b < 2 ^ 32" using assms by auto
  have sect: "u32_of_int (uio_offset u sdiv int LHD_SECTSIZE) = b"
    using b assms(2) by (simp only: sdiv_sect) simp
  have off: "u32_of_int (uio_offset u smod int LHD_SECTSIZE) = 0"
    using assms(2) by (simp only: smod_sect) (simp add: u32_of_int_def)
  have "\<not> d_blocks lh < u32 b" using assms b by simp
  then show ?thesis
    by (simp add: lhd_io_def Let_def sect off assms(1) kbind_def kget_def lhd_io_loop.simps kret_def)
qed

end
