(* ===== verification/Vfs_Vnode.thy ===== *)
theory Vfs_Vnode
  imports Os161_Prelude
begin

text \<open>
  Abstract vnodes, \<open>kern/vfs/vnode.c\<close>, and the recursive big lock of the VFS layer,
  \<open>kern/vfs/vfslist.c\<close>. The sleep locks under the big lock are the ones of
  \<open>kern/thread/synch.c\<close>, which the repository leaves to be written: acquiring and releasing
  do nothing, and \<open>lock_do_i_hold\<close> always answers true. What the big lock keeps is its depth.
\<close>

subsection \<open>The big lock\<close>

definition lock_acquire :: "(nat, unit) kfun" where
  "lock_acquire = kret ()"

definition lock_release :: "(nat, unit) kfun" where
  "lock_release = kret ()"

definition lock_do_i_hold :: "nat \<Rightarrow> bool" where
  "lock_do_i_hold depth = True"

text \<open>The state is \<open>vfs_biglock_depth\<close>.\<close>

definition vfs_biglock_acquire :: "(nat, unit) kfun" where
  "vfs_biglock_acquire =
     kbind (kget id) (\<lambda>depth.
       kthen (if \<not> lock_do_i_hold depth then lock_acquire
              else if depth = 0 then lock_acquire
              else kret ())
         (kmod (\<lambda>depth. depth + 1)))"

definition vfs_biglock_release :: "(nat, unit) kfun" where
  "vfs_biglock_release =
     kthen (kassert lock_do_i_hold)
     (kthen (kassert (\<lambda>depth. depth > 0))
     (kthen (kmod (\<lambda>depth. depth - 1))
     (kbind (kget id) (\<lambda>depth. kwhen (depth = 0) lock_release))))"

definition vfs_biglock_do_i_hold :: "nat \<Rightarrow> bool" where
  "vfs_biglock_do_i_hold depth = lock_do_i_hold depth"

lemma vfs_biglock_do_i_hold_simp [simp]: "vfs_biglock_do_i_hold d"
  by (simp add: vfs_biglock_do_i_hold_def lock_do_i_hold_def)

lemma wp_biglock_acquire [simp]: "wp vfs_biglock_acquire Q E = (\<lambda>d. Q () (Suc d))"
  by (rule ext) (simp add: vfs_biglock_acquire_def lock_do_i_hold_def lock_acquire_def)

lemma wp_biglock_release [simp]: "wp vfs_biglock_release Q E = (\<lambda>d. d > 0 \<and> Q () (d - 1))"
  by (rule ext) (simp add: vfs_biglock_release_def lock_do_i_hold_def lock_release_def)

subsection \<open>Vnodes\<close>

text \<open>
  \<open>vn_ops\<close> names the operations table, \<open>None\<close> for the null pointer; \<open>vn_fs\<close> tells whether
  the vnode belongs to a filesystem. \<open>vn_data\<close> leads from the abstract vnode to the structure
  that contains it; here that structure extends the record. \<open>vn_refcount\<close> is a C \<open>int\<close>: adding to
  \<open>INT_MAX\<close> is undefined there, and the model adds without bound, so it speaks for the source as
  long as the count is within range. That it is, is part of what is shown of sequences of calls
  (\<open>refs_at_most\<close> in \<open>Sfs_Calls\<close>).
\<close>

datatype vnode_ops = Sfs_fileops | Sfs_dirops | Dev_vnode_ops

record vnode =
  vn_refcount :: int
  vn_fs :: bool
  vn_ops :: "vnode_ops option"

definition vnode_init :: "vnode_ops \<Rightarrow> bool \<Rightarrow> ('a vnode_scheme, unit) kfun" where
  "vnode_init ops fs = kmod (\<lambda>vn. vn\<lparr>vn_ops := Some ops, vn_refcount := 1, vn_fs := fs\<rparr>)"

definition vnode_cleanup :: "('a vnode_scheme, unit) kfun" where
  "vnode_cleanup =
     kthen (kassert (\<lambda>vn. vn_refcount vn = 1))
       (kmod (\<lambda>vn. vn\<lparr>vn_ops := None, vn_refcount := 0, vn_fs := False\<rparr>))"

definition vnode_incref :: "('a vnode_scheme, unit) kfun" where
  "vnode_incref = kmod (\<lambda>vn. vn\<lparr>vn_refcount := vn_refcount vn + 1\<rparr>)"

text \<open>The part of \<open>vnode_decref\<close> under the count lock: whether to destroy the vnode.\<close>

definition vnode_decref_count :: "('a vnode_scheme, bool) kfun" where
  "vnode_decref_count =
     kthen (kassert (\<lambda>vn. vn_refcount vn > 0))
     (kbind (kget vn_refcount) (\<lambda>n.
        if n > 1 then kthen (kmod (\<lambda>vn. vn\<lparr>vn_refcount := n - 1\<rparr>)) (kret False)
        else kret True))"

definition vnode_check :: "('a vnode_scheme, unit) kfun" where
  "vnode_check =
     kbind (kget id) (\<lambda>v.
       if vn_ops v = None then kpanic
       else if vn_refcount v < 0 then kpanic
       else if vn_refcount v = 0 then kpanic
       else kret ())"

text \<open>
  \<open>g\<close> and \<open>p\<close> read and write the vnode in the state; \<open>reclaim\<close> is the \<open>vop_reclaim\<close> of its
  operations table. An error of \<open>VOP_RECLAIM\<close> is printed and dropped.
\<close>

definition vnode_decref ::
  "('s \<Rightarrow> 'a vnode_scheme option) \<Rightarrow> ('a vnode_scheme \<Rightarrow> 's \<Rightarrow> 's) \<Rightarrow> ('s, unit) kfun \<Rightarrow> ('s, unit) kfun" where
  "vnode_decref g p reclaim =
     kbind (kderef g p vnode_decref_count) (\<lambda>destroy.
       if destroy then
         kthen (kderef g p vnode_check) (kthen (ktry reclaim) (kret ()))
       else kret ())"

lemma wp_vnode_check [simp]:
  "wp vnode_check Q E = (\<lambda>v. vn_ops v \<noteq> None \<and> vn_refcount v > 0 \<and> Q () v)"
  by (rule ext) (auto simp: vnode_check_def)

lemma wp_vnode_decref_count [simp]:
  "wp vnode_decref_count Q E = (\<lambda>v. vn_refcount v > 0 \<and>
     (if vn_refcount v > 1 then Q False (v\<lparr>vn_refcount := vn_refcount v - 1\<rparr>) else Q True v))"
  by (rule ext) (auto simp: vnode_decref_count_def)

end
