(* ===== verification/Sfs_Disk.thy ===== *)
theory Sfs_Disk
  imports Os161_Prelude
begin

text \<open>
  The on-disk format of SFS, \<open>kern/include/kern/sfs.h\<close>: constants, the structures, and
  their layout in a 512-byte block. The machine is big-endian, and the kernel moves these
  structures to and from the disk as they lie in memory.
\<close>

subsection \<open>Constants\<close>

definition SFS_MAGIC :: nat where "SFS_MAGIC = 0xabadf001"
definition SFS_BLOCKSIZE :: nat where "SFS_BLOCKSIZE = 512"
definition SFS_VOLNAME_SIZE :: nat where "SFS_VOLNAME_SIZE = 32"
definition SFS_NDIRECT :: nat where "SFS_NDIRECT = 15"
definition SFS_NINDIRECT :: nat where "SFS_NINDIRECT = 1"
definition SFS_DBPERIDB :: nat where "SFS_DBPERIDB = 128"
definition SFS_NAMELEN :: nat where "SFS_NAMELEN = 60"
definition SFS_SUPER_BLOCK :: nat where "SFS_SUPER_BLOCK = 0"
definition SFS_FREEMAP_START :: nat where "SFS_FREEMAP_START = 2"
definition SFS_NOINO :: nat where "SFS_NOINO = 0"
definition SFS_ROOTDIR_INO :: nat where "SFS_ROOTDIR_INO = 1"
definition SFS_BITSPERBLOCK :: nat where "SFS_BITSPERBLOCK = SFS_BLOCKSIZE * 8"
definition SFS_TYPE_INVAL :: nat where "SFS_TYPE_INVAL = 0"
definition SFS_TYPE_FILE :: nat where "SFS_TYPE_FILE = 1"
definition SFS_TYPE_DIR :: nat where "SFS_TYPE_DIR = 2"

lemmas sfs_consts = SFS_BLOCKSIZE_def SFS_NDIRECT_def SFS_NINDIRECT_def SFS_DBPERIDB_def

definition SFS_ROUNDUP :: "nat \<Rightarrow> nat \<Rightarrow> nat" where
  "SFS_ROUNDUP a b = u32 (u32 (a + b - 1) div b * b)"

definition SFS_FREEMAPBITS :: "nat \<Rightarrow> nat" where
  "SFS_FREEMAPBITS nblocks = SFS_ROUNDUP nblocks SFS_BITSPERBLOCK"

definition SFS_FREEMAPBLOCKS :: "nat \<Rightarrow> nat" where
  "SFS_FREEMAPBLOCKS nblocks = SFS_FREEMAPBITS nblocks div SFS_BITSPERBLOCK"

subsection \<open>Structures\<close>

record sfs_superblock =
  sb_magic :: nat
  sb_nblocks :: nat
  sb_volname :: "byte list"
  sb_reserved :: "nat list"

record sfs_dinode =
  sfi_size :: nat
  sfi_type :: nat
  sfi_linkcount :: nat
  sfi_direct :: "nat list"
  sfi_indirect :: nat
  sfi_waste :: "nat list"

record sfs_direntry =
  sfd_ino :: nat
  sfd_name :: "byte list"

subsection \<open>Big-endian integers\<close>

definition be16 :: "nat \<Rightarrow> byte list" where
  "be16 n = [of_nat (n div 256), of_nat n]"

definition be32 :: "nat \<Rightarrow> byte list" where
  "be32 n = [of_nat (n div 16777216), of_nat (n div 65536), of_nat (n div 256), of_nat n]"

fun be_dec :: "byte list \<Rightarrow> nat" where
  "be_dec [] = 0"
| "be_dec (b # bs) = unat b * 256 ^ length bs + be_dec bs"

fun words_dec :: "byte list \<Rightarrow> nat list" where
  "words_dec (a # b # c # d # bs) = be_dec [a, b, c, d] # words_dec bs"
| "words_dec _ = []"

definition words_enc :: "nat list \<Rightarrow> byte list" where
  "words_enc ws = concat (map be32 ws)"

lemma length_be [simp]: "length (be16 n) = 2" "length (be32 n) = 4"
  by (simp_all add: be16_def be32_def)

lemma unat_of_nat_byte [simp]: "unat (of_nat n :: byte) = n mod 256"
  by (simp add: unat_of_nat)

lemma be_dec_be16: "n < 2 ^ 16 \<Longrightarrow> be_dec (be16 n) = n"
  by (simp add: be16_def)

lemma be_dec_be32: "n < 2 ^ 32 \<Longrightarrow> be_dec (be32 n) = n"
proof -
  assume n: "n < 2 ^ 32"
  have d: "n div 65536 = n div 256 div 256" "n div 16777216 = n div 256 div 256 div 256"
    by (simp_all add: div_mult2_eq [symmetric])
  have "n div 256 div 256 div 256 < 256"
    using n by (simp add: div_mult2_eq [symmetric])
  then have "be_dec (be32 n) = n div 256 div 256 div 256 * 16777216 +
      (n div 256 div 256 mod 256 * 65536 + (n div 256 mod 256 * 256 + n mod 256))"
    by (simp add: be32_def d)
  then show ?thesis
    using div_mult_mod_eq [of n 256] div_mult_mod_eq [of "n div 256" 256]
      div_mult_mod_eq [of "n div 256 div 256" 256]
    by linarith
qed

lemma unat_byte_bound: "unat (b :: byte) \<le> 255"
proof -
  have "unat b < 2 ^ LENGTH(8)" by (rule unsigned_less)
  then show ?thesis by simp
qed

lemma unat_byte_mod [simp]: "unat (b :: byte) mod 256 = unat b"
  using unat_byte_bound [of b] by simp

lemma byte_digit: "(x * 256 + unat (b :: byte)) div 256 = x" "(x * 256 + unat b) mod 256 = unat b"
  using unat_byte_bound [of b] by simp_all

lemma byte_digit2: "((x * 256 + unat (c :: byte)) * 256 + unat (d :: byte)) div 65536 = x"
proof -
  have "n div 65536 = n div 256 div 256" for n :: nat
    by (simp add: div_mult2_eq [symmetric])
  then show ?thesis by (simp only: byte_digit)
qed

lemma byte_digit3:
  "(((x * 256 + unat (b :: byte)) * 256 + unat (c :: byte)) * 256 + unat (d :: byte)) div 16777216 = x"
proof -
  have "n div 16777216 = n div 65536 div 256" for n :: nat
    by (simp add: div_mult2_eq [symmetric])
  then show ?thesis by (simp only: byte_digit byte_digit2)
qed

lemma be32_be_dec: "be32 (be_dec [a, b, c, d]) = [a, b, c, d]"
proof -
  have n: "be_dec [a, b, c, d] = ((unat a * 256 + unat b) * 256 + unat c) * 256 + unat d" by simp
  show ?thesis
    unfolding be32_def n byte_digit3 byte_digit2 byte_digit
    by (simp only: list.inject word_unat_eq_iff unat_of_nat_byte byte_digit)
      (use unat_byte_bound [of a] in simp)
qed

lemma be16_be_dec: "be16 (be_dec [a, b]) = [a, b]"
  by (simp add: be16_def word_unat_eq_iff byte_digit del: of_nat_add of_nat_mult)

lemma be_dec_bound4: "be_dec [a, b, c, d] < 2 ^ 32"
  using unat_byte_bound [of a] unat_byte_bound [of b] unat_byte_bound [of c] unat_byte_bound [of d]
  by simp

lemma be_dec_bound2: "be_dec [a, b] < 2 ^ 16"
  using unat_byte_bound [of a] unat_byte_bound [of b] by simp

lemma length_words_enc [simp]: "length (words_enc ws) = 4 * length ws"
  by (induction ws) (simp_all add: words_enc_def)

lemma words_dec_append4: "length xs = 4 \<Longrightarrow> words_dec (xs @ ys) = be_dec xs # words_dec ys"
proof -
  assume "length xs = 4"
  then obtain a b c d where "xs = [a, b, c, d]"
    by (auto simp: length_Suc_conv eval_nat_numeral)
  then show ?thesis by simp
qed

lemma words_dec_enc: "\<forall>w \<in> set ws. w < 2 ^ 32 \<Longrightarrow> words_dec (words_enc ws) = ws"
proof (induction ws)
  case Nil
  then show ?case by (simp add: words_enc_def)
next
  case (Cons w ws)
  have "words_enc (w # ws) = be32 w @ words_enc ws" by (simp add: words_enc_def)
  then show ?case using Cons by (simp add: words_dec_append4 be_dec_be32)
qed

lemma words_enc_dec: "4 dvd length bs \<Longrightarrow> words_enc (words_dec bs) = bs"
proof (induction bs rule: words_dec.induct)
  case (1 a b c d bs)
  then have "4 dvd length bs" by simp presburger
  with 1 show ?case by (simp add: words_enc_def be32_be_dec del: be_dec.simps)
qed (auto simp: words_enc_def dest!: dvd_imp_le)

lemma length_words_dec: "length (words_dec bs) = length bs div 4"
  by (induction bs rule: words_dec.induct) auto

lemma words_dec_bound: "w \<in> set (words_dec bs) \<Longrightarrow> w < 2 ^ 32"
proof (induction bs rule: words_dec.induct)
  case (1 a b c d bs)
  then show ?case
    using be_dec_bound4 [of a b c d] by (auto simp del: be_dec.simps)
qed simp_all

lemma be_dec_zero [simp]: "be_dec (replicate n 0) = 0"
  by (induction n) simp_all

lemma words_dec_zero: "words_dec (replicate (4 * n) 0) = replicate n 0"
proof (induction n)
  case (Suc n)
  have "replicate (4 * Suc n) (0::byte) = replicate 4 0 @ replicate (4 * n) 0"
    by (simp only: replicate_add [symmetric] mult_Suc_right)
  then show ?case
    using Suc by (simp only: words_dec_append4 length_replicate replicate_Suc be_dec_zero)
qed simp

subsection \<open>Structures in a block\<close>

text \<open>
  The kernel reads and writes a structure of \<open>kern/sfs.h\<close> as the memory it is in: on the
  processor of OS/161, with the highest byte of a word first, the fields in the order of their
  declaration and without gaps. These images are C's view of the structures, not code of the
  source.
\<close>

definition superblock_to_block :: "sfs_superblock \<Rightarrow> byte list" where
  "superblock_to_block sb =
     be32 (sb_magic sb) @ be32 (sb_nblocks sb) @ sb_volname sb @ words_enc (sb_reserved sb)"

definition block_to_superblock :: "byte list \<Rightarrow> sfs_superblock" where
  "block_to_superblock bs =
     \<lparr> sb_magic = be_dec (take 4 bs), sb_nblocks = be_dec (take 4 (drop 4 bs)),
       sb_volname = take 32 (drop 8 bs), sb_reserved = words_dec (drop 40 bs) \<rparr>"

definition superblock_wf :: "sfs_superblock \<Rightarrow> bool" where
  "superblock_wf sb \<longleftrightarrow> sb_magic sb < 2 ^ 32 \<and> sb_nblocks sb < 2 ^ 32 \<and> length (sb_volname sb) = 32 \<and>
     length (sb_reserved sb) = 118 \<and> (\<forall>w \<in> set (sb_reserved sb). w < 2 ^ 32)"

definition dinode_to_block :: "sfs_dinode \<Rightarrow> byte list" where
  "dinode_to_block i =
     be32 (sfi_size i) @ be16 (sfi_type i) @ be16 (sfi_linkcount i) @
     words_enc (sfi_direct i) @ be32 (sfi_indirect i) @ words_enc (sfi_waste i)"

definition block_to_dinode :: "byte list \<Rightarrow> sfs_dinode" where
  "block_to_dinode bs =
     \<lparr> sfi_size = be_dec (take 4 bs), sfi_type = be_dec (take 2 (drop 4 bs)),
       sfi_linkcount = be_dec (take 2 (drop 6 bs)), sfi_direct = words_dec (take 60 (drop 8 bs)),
       sfi_indirect = be_dec (take 4 (drop 68 bs)), sfi_waste = words_dec (drop 72 bs) \<rparr>"

definition dinode_wf :: "sfs_dinode \<Rightarrow> bool" where
  "dinode_wf i \<longleftrightarrow> sfi_size i < 2 ^ 32 \<and> sfi_type i < 2 ^ 16 \<and> sfi_linkcount i < 2 ^ 16 \<and>
     length (sfi_direct i) = 15 \<and> (\<forall>w \<in> set (sfi_direct i). w < 2 ^ 32) \<and>
     sfi_indirect i < 2 ^ 32 \<and> length (sfi_waste i) = 110 \<and> (\<forall>w \<in> set (sfi_waste i). w < 2 ^ 32)"

definition direntry_to_bytes :: "sfs_direntry \<Rightarrow> byte list" where
  "direntry_to_bytes sd = be32 (sfd_ino sd) @ sfd_name sd"

definition bytes_to_direntry :: "byte list \<Rightarrow> sfs_direntry" where
  "bytes_to_direntry bs = \<lparr> sfd_ino = be_dec (take 4 bs), sfd_name = drop 4 bs \<rparr>"

definition direntry_wf :: "sfs_direntry \<Rightarrow> bool" where
  "direntry_wf sd \<longleftrightarrow> sfd_ino sd < 2 ^ 32 \<and> length (sfd_name sd) = SFS_NAMELEN"

lemma superblock_roundtrip:
  "superblock_wf sb \<Longrightarrow> block_to_superblock (superblock_to_block sb) = sb"
  by (simp add: superblock_wf_def superblock_to_block_def block_to_superblock_def be_dec_be32
      words_dec_enc)

lemma length_superblock_to_block: "superblock_wf sb \<Longrightarrow> length (superblock_to_block sb) = 512"
  by (simp add: superblock_wf_def superblock_to_block_def)

lemma dinode_roundtrip: "dinode_wf i \<Longrightarrow> block_to_dinode (dinode_to_block i) = i"
  by (simp add: dinode_wf_def dinode_to_block_def block_to_dinode_def be_dec_be32 be_dec_be16
      words_dec_enc)

lemma length_dinode_to_block: "dinode_wf i \<Longrightarrow> length (dinode_to_block i) = 512"
  by (simp add: dinode_wf_def dinode_to_block_def)

lemma direntry_roundtrip: "direntry_wf sd \<Longrightarrow> bytes_to_direntry (direntry_to_bytes sd) = sd"
  by (simp add: direntry_wf_def direntry_to_bytes_def bytes_to_direntry_def be_dec_be32)

lemma length_direntry_to_bytes: "direntry_wf sd \<Longrightarrow> length (direntry_to_bytes sd) = 64"
  by (simp add: direntry_wf_def direntry_to_bytes_def SFS_NAMELEN_def)

lemma list_of_length4: "length xs = 4 \<Longrightarrow> \<exists>a b c d. xs = [a, b, c, d]"
  by (auto simp: length_Suc_conv eval_nat_numeral)

lemma list_of_length2: "length xs = 2 \<Longrightarrow> \<exists>a b. xs = [a, b]"
  by (auto simp: length_Suc_conv eval_nat_numeral)

lemma be32_be_dec_list: "length xs = 4 \<Longrightarrow> be32 (be_dec xs) = xs"
  using be32_be_dec list_of_length4 by blast

lemma be16_be_dec_list: "length xs = 2 \<Longrightarrow> be16 (be_dec xs) = xs"
  using be16_be_dec list_of_length2 by blast

lemma be_dec_bound32: "length xs = 4 \<Longrightarrow> be_dec xs < 2 ^ 32"
  using be_dec_bound4 list_of_length4 by blast

lemma be_dec_bound16: "length xs = 2 \<Longrightarrow> be_dec xs < 2 ^ 16"
  using be_dec_bound2 list_of_length2 by blast

lemma dinode_wf_block: "length bs = 512 \<Longrightarrow> dinode_wf (block_to_dinode bs)"
  unfolding dinode_wf_def block_to_dinode_def
  by (simp add: be_dec_bound32 [simplified] be_dec_bound16 [simplified] length_words_dec)
    (auto dest: words_dec_bound)

lemma take_drop_join: "take a (drop k xs) @ drop (k + a) xs = drop k xs"
  by (metis append_take_drop_id drop_drop add.commute)

lemma dinode_block_roundtrip: "length bs = 512 \<Longrightarrow> dinode_to_block (block_to_dinode bs) = bs"
proof -
  assume len: "length bs = 512"
  have "dinode_to_block (block_to_dinode bs) = take 4 bs @ take 2 (drop 4 bs) @ take 2 (drop 6 bs) @
      take 60 (drop 8 bs) @ take 4 (drop 68 bs) @ drop 72 bs"
    unfolding dinode_to_block_def block_to_dinode_def
    using len by (simp add: be32_be_dec_list be16_be_dec_list words_enc_dec)
  also have "\<dots> = bs"
    using take_drop_join [of 4 68 bs] take_drop_join [of 60 8 bs] take_drop_join [of 2 6 bs]
      take_drop_join [of 2 4 bs] by simp
  finally show ?thesis .
qed

end
