(* ===== verification/Sfs_Base.thy ===== *)
theory Sfs_Base
  imports Sfs_Disk Vfs_Vnode Lib_Array Lib_Bitmap Dev_Lhd
begin

text \<open>
  The in-memory state of a mounted SFS volume (\<open>kern/include/sfs.h\<close>), block I/O with its
  retries (\<open>sfs_rwblock\<close>, \<open>sfs_readblock\<close>, \<open>sfs_writeblock\<close> of \<open>kern/fs/sfs/sfs_io.c\<close>) and
  block allocation (\<open>kern/fs/sfs/sfs_balloc.c\<close>).
\<close>

subsection \<open>State\<close>

record sfs_vnode = vnode +
  sv_i :: sfs_dinode
  sv_ino :: nat
  sv_dirty :: bool

text \<open>
  \<open>sfs_fs\<close> is \<open>struct sfs_fs\<close> together with what its functions reach: the device the volume
  is on (\<open>sfs_dev\<close>; \<open>sfs_device\<close> tells whether the pointer to it is set), the allocated
  vnodes (an address is an index of \<open>vn_heap\<close>, \<open>None\<close> once freed), the depth of the big lock,
  and for each coming \<open>kmalloc\<close> whether it succeeds.
\<close>

record sfs_fs =
  sfs_sb :: sfs_superblock
  sfs_superdirty :: bool
  sfs_device :: bool
  sfs_vnodes :: "nat carray"
  sfs_freemap :: bitmap
  sfs_freemapdirty :: bool
  sfs_dev :: lhd_softc
  vn_heap :: "sfs_vnode option list"
  biglock_depth :: nat
  kmalloc_script :: "bool list"

definition biglock_acquire :: "(sfs_fs, unit) kfun" where
  "biglock_acquire = kzoom biglock_depth (\<lambda>d s. s\<lparr>biglock_depth := d\<rparr>) vfs_biglock_acquire"

definition biglock_release :: "(sfs_fs, unit) kfun" where
  "biglock_release = kzoom biglock_depth (\<lambda>d s. s\<lparr>biglock_depth := d\<rparr>) vfs_biglock_release"

definition kmalloc_next :: "(sfs_fs, bool) kfun" where
  "kmalloc_next =
     kbind (kget kmalloc_script) (\<lambda>ks.
       kthen (kmod (\<lambda>s. s\<lparr>kmalloc_script := tl ks\<rparr>))
         (kret (case ks of [] \<Rightarrow> True | k # _ \<Rightarrow> k)))"

definition vn_at :: "nat \<Rightarrow> sfs_fs \<Rightarrow> sfs_vnode option" where
  "vn_at p s = (if p < length (vn_heap s) then vn_heap s ! p else None)"

definition vn_put :: "nat \<Rightarrow> sfs_vnode \<Rightarrow> sfs_fs \<Rightarrow> sfs_fs" where
  "vn_put p v s = s\<lparr>vn_heap := (vn_heap s)[p := Some v]\<rparr>"

definition on_vn :: "nat \<Rightarrow> (sfs_vnode, 'a) kfun \<Rightarrow> (sfs_fs, 'a) kfun" where
  "on_vn p m = kderef (vn_at p) (vn_put p) m"

definition sv_get :: "nat \<Rightarrow> (sfs_vnode \<Rightarrow> 'a) \<Rightarrow> (sfs_fs, 'a) kfun" where
  "sv_get p f = on_vn p (kget f)"

definition sv_mod :: "nat \<Rightarrow> (sfs_vnode \<Rightarrow> sfs_vnode) \<Rightarrow> (sfs_fs, unit) kfun" where
  "sv_mod p f = on_vn p (kmod f)"

lemma wp_biglock [simp]:
  "wp biglock_acquire Q E = (\<lambda>s. Q () (s\<lparr>biglock_depth := Suc (biglock_depth s)\<rparr>))"
  "wp biglock_release Q E = (\<lambda>s. biglock_depth s > 0 \<and> Q () (s\<lparr>biglock_depth := biglock_depth s - 1\<rparr>))"
  by (simp_all add: biglock_acquire_def biglock_release_def)

lemma vn_put_at [simp]: "vn_at p s = Some v \<Longrightarrow> vn_put p v s = s"
  by (simp add: vn_at_def vn_put_def list_update_same_conv split: if_splits)

lemma vn_heap_same [simp]: "vn_at p s = Some v \<Longrightarrow> (vn_heap s)[p := Some v] = vn_heap s"
  by (simp add: vn_at_def list_update_same_conv split: if_splits)

lemma vn_at_put: "vn_at q (vn_put p v s) = (if q = p \<and> vn_at p s \<noteq> None then Some v else
    if q = p \<and> p < length (vn_heap s) then Some v else vn_at q s)"
  by (auto simp: vn_at_def vn_put_def nth_list_update)

lemma vn_at_put_same [simp]: "vn_at p s = Some v' \<Longrightarrow> vn_at p (vn_put p v s) = Some v"
  by (simp add: vn_at_put)

lemma vn_at_put_other [simp]: "q \<noteq> p \<Longrightarrow> vn_at q (vn_put p v s) = vn_at q s"
  by (simp add: vn_at_put)

lemma wp_sv_get [simp]:
  "wp (sv_get p f) Q E = (\<lambda>s. case vn_at p s of None \<Rightarrow> False | Some v \<Rightarrow> Q (f v) s)"
  by (rule ext) (simp add: sv_get_def on_vn_def split: option.splits)

lemma wp_sv_mod [simp]:
  "wp (sv_mod p f) Q E = (\<lambda>s. case vn_at p s of None \<Rightarrow> False | Some v \<Rightarrow> Q () (vn_put p (f v) s))"
  by (rule ext) (simp add: sv_mod_def on_vn_def split: option.splits)

subsection \<open>Block I/O\<close>

definition DEVOP_IO :: "(sfs_fs \<times> uenv, unit) kfun" where
  "DEVOP_IO =
     kthen (kassert (\<lambda>(s, u). sfs_device s))
       (kzoom (\<lambda>(s, u). (sfs_dev s, u)) (\<lambda>(d, u) (s, _). (s\<lparr>sfs_dev := d\<rparr>, u)) lhd_io)"

function sfs_rwblock_retry :: "nat \<Rightarrow> (sfs_fs \<times> uenv, unit) kfun" where
  "sfs_rwblock_retry tries =
     kbind (ktry DEVOP_IO) (\<lambda>result.
       case result of
         Inl e \<Rightarrow>
           if e = EINVAL then kpanic
           else if e = EIO then
             if tries = 0 then sfs_rwblock_retry (tries + 1)
             else if tries < 10 then sfs_rwblock_retry (tries + 1)
             else kfail e
           else kfail e
       | Inr _ \<Rightarrow> kret ())"
  by pat_completeness auto
termination
  by (relation "measure (\<lambda>tries. 10 - tries)") auto

definition sfs_rwblock :: "(sfs_fs \<times> uenv, unit) kfun" where
  "sfs_rwblock =
     kthen (kassert (\<lambda>(s, u). vfs_biglock_do_i_hold (biglock_depth s)))
       (sfs_rwblock_retry 0)"

text \<open>\<open>data\<close> is the buffer; a successful read hands back its new contents.\<close>

definition sfs_readblock :: "nat \<Rightarrow> byte list \<Rightarrow> (sfs_fs, byte list) kfun" where
  "sfs_readblock block data =
     kthen (kassert (\<lambda>_. length data = SFS_BLOCKSIZE))
     (kbind (klocal (uio_kinit data (int block * int SFS_BLOCKSIZE) UIO_READ) sfs_rwblock) (\<lambda>(_, ku).
        kret (uio_kbuf SFS_BLOCKSIZE ku)))"

definition sfs_writeblock :: "nat \<Rightarrow> byte list \<Rightarrow> (sfs_fs, unit) kfun" where
  "sfs_writeblock block data =
     kthen (kassert (\<lambda>_. length data = SFS_BLOCKSIZE))
     (kbind (klocal (uio_kinit data (int block * int SFS_BLOCKSIZE) UIO_WRITE) sfs_rwblock) (\<lambda>_.
        kret ()))"

declare sfs_rwblock_retry.simps [simp del]

subsection \<open>Allocation\<close>

definition on_freemap :: "(bitmap, 'a) kfun \<Rightarrow> (sfs_fs, 'a) kfun" where
  "on_freemap m = kzoom sfs_freemap (\<lambda>b s. s\<lparr>sfs_freemap := b\<rparr>) m"

definition sfs_clearblock :: "nat \<Rightarrow> (sfs_fs, unit) kfun" where
  "sfs_clearblock block = sfs_writeblock block (replicate SFS_BLOCKSIZE 0)"

definition sfs_balloc :: "(sfs_fs, nat) kfun" where
  "sfs_balloc =
     kbind (on_freemap bitmap_alloc) (\<lambda>diskblock.
       kthen (kmod (\<lambda>s. s\<lparr>sfs_freemapdirty := True\<rparr>))
       (kbind (kget (sb_nblocks \<circ> sfs_sb)) (\<lambda>nblocks.
          if diskblock \<ge> nblocks then kpanic
          else
            kbind (ktry (sfs_clearblock diskblock)) (\<lambda>result.
              case result of
                Inl e \<Rightarrow> kthen (on_freemap (bitmap_unmark diskblock)) (kfail e)
              | Inr _ \<Rightarrow> kret diskblock))))"

definition sfs_bfree :: "nat \<Rightarrow> (sfs_fs, unit) kfun" where
  "sfs_bfree diskblock =
     kthen (on_freemap (bitmap_unmark diskblock)) (kmod (\<lambda>s. s\<lparr>sfs_freemapdirty := True\<rparr>))"

definition sfs_bused :: "nat \<Rightarrow> (sfs_fs, bool) kfun" where
  "sfs_bused diskblock =
     kbind (kget (sb_nblocks \<circ> sfs_sb)) (\<lambda>nblocks.
       if diskblock \<ge> nblocks then kpanic
       else on_freemap (bitmap_isset diskblock))"

subsection \<open>The contract of a block store\<close>

text \<open>
  What the rest of SFS relies on: reading and writing whole blocks below a limit. \<open>step s f t\<close>
  says that \<open>t\<close> is \<open>s\<close> but for the store, whose blocks are now \<open>f\<close>.
\<close>

locale block_store =
  fixes rd :: "nat \<Rightarrow> byte list \<Rightarrow> ('s, byte list) kfun"
    and wr :: "nat \<Rightarrow> byte list \<Rightarrow> ('s, unit) kfun"
    and good :: "'s \<Rightarrow> bool"
    and lim :: "'s \<Rightarrow> nat"
    and blk :: "'s \<Rightarrow> nat \<Rightarrow> byte list"
    and step :: "'s \<Rightarrow> (nat \<Rightarrow> byte list) \<Rightarrow> 's \<Rightarrow> bool"
  assumes rd_wp: "good s \<Longrightarrow> b < lim s \<Longrightarrow> length buf = 512 \<Longrightarrow>
      wp (rd b buf) (\<lambda>r t. r = blk s b \<and> step s (blk s) t) (\<lambda>_ _. False) s"
    and wr_wp: "good s \<Longrightarrow> b < lim s \<Longrightarrow> length buf = 512 \<Longrightarrow>
      wp (wr b buf) (\<lambda>_ t. step s ((blk s)(b := buf)) t) (\<lambda>_ _. False) s"
    and step_good: "step s f t \<Longrightarrow> good t \<and> lim t = lim s \<and> blk t = f"
    and step_trans: "step s f t \<Longrightarrow> step t g u \<Longrightarrow> step s g u"
    and blk_length: "good s \<Longrightarrow> length (blk s b) = 512"
begin

lemma write_read:
  assumes "good s" "b < lim s" "length buf = 512" "length buf' = 512"
  shows "wp (kthen (wr b buf) (rd b buf')) (\<lambda>r t. r = buf \<and> step s ((blk s)(b := buf)) t) (\<lambda>_ _. False) s"
proof -
  have "wp (rd b buf') (\<lambda>r u. r = buf \<and> step s ((blk s)(b := buf)) u) (\<lambda>_ _. False) t"
    if t: "step s ((blk s)(b := buf)) t" for t
    by (rule wp_conseq [OF rd_wp])
      (use t assms step_good [OF t] in \<open>auto intro: step_trans\<close>)
  then show ?thesis
    by simp (rule wp_conseq [OF wr_wp [OF assms(1-3)]]; simp)
qed

lemma modify_block:
  assumes "good s" "b < lim s" "length buf = 512" and len: "\<And>xs. length xs = 512 \<Longrightarrow> length (f xs) = 512"
  shows "wp (kbind (rd b buf) (\<lambda>d. wr b (f d))) (\<lambda>_ t. step s ((blk s)(b := f (blk s b))) t) (\<lambda>_ _. False) s"
proof -
  have "wp (wr b (f (blk s b))) (\<lambda>_ u. step s ((blk s)(b := f (blk s b))) u) (\<lambda>_ _. False) t"
    if t: "step s (blk s) t" for t
    by (rule wp_conseq [OF wr_wp])
      (use t assms step_good [OF t] blk_length [OF assms(1)] in \<open>auto intro: step_trans\<close>)
  then show ?thesis
    by simp (rule wp_conseq [OF rd_wp [OF assms(1-3)]]; simp)
qed

end

subsection \<open>Block I/O: retries and results\<close>

definition disk :: "sfs_fs \<Rightarrow> nat \<Rightarrow> byte list" where
  "disk s = hw_sect (sfs_dev s)"

text \<open>The status code of the \<open>n\<close>-th operation to come.\<close>

definition hw_code :: "lhd_softc \<Rightarrow> nat \<Rightarrow> nat" where
  "hw_code lh n = (if n < length (hw_script lh) then fst (hw_script lh ! n) else LHD_OK)"

lemma hw_code_0: "hw_code lh 0 = fst (hw_next lh)"
  by (cases "hw_script lh") (auto simp: hw_code_def hw_next_def)

lemma hw_code_after: "lhd_after lh lh' \<Longrightarrow> hw_code lh' n = hw_code lh (Suc n)"
  by (cases "hw_script lh") (auto simp: hw_code_def lhd_after_def nth_tl)

text \<open>\<open>t\<close> is \<open>s\<close> but for the driver's state, which is sound again.\<close>

definition dev_moved :: "sfs_fs \<Rightarrow> (nat \<Rightarrow> byte list) \<Rightarrow> sfs_fs \<Rightarrow> bool" where
  "dev_moved s f t \<longleftrightarrow> (\<exists>d. t = s\<lparr>sfs_dev := d\<rparr> \<and> hw_sect d = f \<and> lhd_ok d \<and>
     d_blocks d = d_blocks (sfs_dev s))"

text \<open>A kernel descriptor for one block.\<close>

definition uio_block :: "uio_rw \<Rightarrow> nat \<Rightarrow> uenv \<Rightarrow> bool" where
  "uio_block rw b u \<longleftrightarrow> uio_ok u \<and> uio_rw u = rw \<and> uio_segflg u = UIO_SYSSPACE \<and> uio_at_block u b"

lemma uio_block_kinit:
  "length buf = 512 \<Longrightarrow> uio_block rw b (uio_kinit buf (int b * int SFS_BLOCKSIZE) rw)"
  by (simp add: uio_block_def uio_kinit_ok uio_at_block_def SFS_BLOCKSIZE_def LHD_SECTSIZE_def)

lemma DEVOP_IO_read:
  assumes "sfs_device s" "lhd_ok (sfs_dev s)" "b < d_blocks (sfs_dev s)" "uio_block UIO_READ b u"
  shows "wp DEVOP_IO
    (\<lambda>_ (t, u'). hw_code (sfs_dev s) 0 = LHD_OK \<and> dev_moved s (disk s) t \<and> lhd_after (sfs_dev s) (sfs_dev t) \<and>
       uio_segflg u' = UIO_SYSSPACE \<and>
       uio_mem u' = mem_put (uio_mem u) (take LHD_SECTSIZE (uio_addrs u)) (disk s b))
    (\<lambda>e (t, u'). Some e = lhd_result_of (hw_code (sfs_dev s) 0) \<and> dev_moved s (disk s) t \<and>
       lhd_after (sfs_dev s) (sfs_dev t) \<and> u' = u) (s, u)"
proof -
  have u: "uio_ok u" "uio_rw u = UIO_READ" "LHD_SECTSIZE \<le> uio_resid u" "uio_at_block u b"
    "uio_segflg u = UIO_SYSSPACE"
    using assms(4) by (auto simp: uio_block_def uio_at_block_def)
  have "d_blocks (sfs_dev s) < 2 ^ 32" using assms(2) by (simp add: lhd_ok_def)
  note one = lhd_io_one [OF u(4) assms(3) this]
  show ?thesis
    unfolding DEVOP_IO_def using assms(1) u(2)
    by (simp add: one)
      (rule wp_conseq [OF lhd_io_sector_read [OF assms(2) u(1-3)]];
        use u(5) in \<open>auto simp: dev_moved_def disk_def hw_code_0 lhd_after_def uio_moved_def\<close>)
qed

lemma DEVOP_IO_write:
  assumes "sfs_device s" "lhd_ok (sfs_dev s)" "b < d_blocks (sfs_dev s)" "uio_block UIO_WRITE b u"
  defines "d \<equiv> map (uio_mem u) (take LHD_SECTSIZE (uio_addrs u))"
  shows "wp DEVOP_IO
    (\<lambda>_ (t, u'). hw_code (sfs_dev s) 0 = LHD_OK \<and> dev_moved s ((disk s)(b := d)) t \<and>
       lhd_after (sfs_dev s) (sfs_dev t))
    (\<lambda>e (t, u'). Some e = lhd_result_of (hw_code (sfs_dev s) 0) \<and>
       dev_moved s ((disk s)(b := snd (hw_next (sfs_dev s)))) t \<and>
       lhd_after (sfs_dev s) (sfs_dev t) \<and> uio_resid u' = 0 \<and>
       uio_offset u' = int (LHD_SECTSIZE * Suc b)) (s, u)"
proof -
  have u: "uio_ok u" "uio_rw u = UIO_WRITE" "LHD_SECTSIZE \<le> uio_resid u" "uio_at_block u b"
    "uio_segflg u = UIO_SYSSPACE"
    using assms(4) by (auto simp: uio_block_def uio_at_block_def)
  have "d_blocks (sfs_dev s) < 2 ^ 32" using assms(2) by (simp add: lhd_ok_def)
  note one = lhd_io_one [OF u(4) assms(3) this]
  show ?thesis
    unfolding DEVOP_IO_def using assms(1) u(2)
    by (simp add: one)
      (rule wp_conseq [OF lhd_io_sector_write [OF assms(2) u(1-3)]];
        use u(4,5) in \<open>auto simp: dev_moved_def disk_def hw_code_0 lhd_after_def uio_moved_def d_def
          uio_at_block_def\<close>)
qed

lemma dev_moved_trans: "dev_moved s f t \<Longrightarrow> dev_moved t g u \<Longrightarrow> dev_moved s g u"
  by (auto simp: dev_moved_def)

lemma dev_moved_simps:
  assumes "dev_moved s f t"
  shows "disk t = f" "sfs_device t = sfs_device s" "lhd_ok (sfs_dev t)"
    "d_blocks (sfs_dev t) = d_blocks (sfs_dev s)" "biglock_depth t = biglock_depth s"
  using assms by (auto simp: dev_moved_def disk_def)

text \<open>A read gets over up to ten media errors.\<close>

lemma sfs_rwblock_retry_read:
  assumes "sfs_device s" "lhd_ok (sfs_dev s)" "b < d_blocks (sfs_dev s)" "uio_block UIO_READ b u"
    and "\<And>i. i < k \<Longrightarrow> hw_code (sfs_dev s) i = LHD_MEDIA" "hw_code (sfs_dev s) k = LHD_OK"
    and "tries + k \<le> 10"
  shows "wp (sfs_rwblock_retry tries)
    (\<lambda>_ (t, u'). dev_moved s (disk s) t \<and> hw_script (sfs_dev t) = drop (Suc k) (hw_script (sfs_dev s)) \<and>
       uio_segflg u' = UIO_SYSSPACE \<and>
       uio_mem u' = mem_put (uio_mem u) (take LHD_SECTSIZE (uio_addrs u)) (disk s b))
    (\<lambda>_ _. False) (s, u)"
  using assms
proof (induction k arbitrary: s tries)
  case 0
  show ?case
    by (subst sfs_rwblock_retry.simps)
      (simp, rule wp_conseq [OF DEVOP_IO_read [OF 0(1-4)]];
        use 0(6) in \<open>auto simp: lhd_after_def lhd_result_of_def drop_Suc\<close>)
next
  case (Suc k)
  have media: "hw_code (sfs_dev s) 0 = LHD_MEDIA" using Suc.prems(5) by simp
  then have ne: "hw_code (sfs_dev s) 0 \<noteq> LHD_OK" by (simp add: lhd_codes)
  have again: "wp (sfs_rwblock_retry (Suc tries))
    (\<lambda>_ (t, u'). dev_moved s (disk s) t \<and> hw_script (sfs_dev t) = drop (Suc (Suc k)) (hw_script (sfs_dev s)) \<and>
       uio_segflg u' = UIO_SYSSPACE \<and>
       uio_mem u' = mem_put (uio_mem u) (take LHD_SECTSIZE (uio_addrs u)) (disk s b))
    (\<lambda>_ _. False) (t, u)"
    if t: "dev_moved s (disk s) t" "lhd_after (sfs_dev s) (sfs_dev t)" for t
  proof -
    note [simp] = dev_moved_simps [OF t(1)]
    have "wp (sfs_rwblock_retry (Suc tries))
      (\<lambda>_ (v, u'). dev_moved t (disk t) v \<and> hw_script (sfs_dev v) = drop (Suc k) (hw_script (sfs_dev t)) \<and>
        uio_segflg u' = UIO_SYSSPACE \<and>
        uio_mem u' = mem_put (uio_mem u) (take LHD_SECTSIZE (uio_addrs u)) (disk t b))
      (\<lambda>_ _. False) (t, u)"
      using Suc.prems hw_code_after [OF t(2)] by (intro Suc.IH) auto
    then show ?thesis
      by (rule wp_conseq) (use t dev_moved_trans in \<open>auto simp: lhd_after_def drop_Suc tl_drop\<close>)
  qed
  have "tries < 10" using Suc.prems(7) by simp
  then show ?case
    by (subst sfs_rwblock_retry.simps)
      (simp, rule wp_conseq [OF DEVOP_IO_read [OF Suc.prems(1-4)]];
        use media ne again in \<open>auto simp: lhd_result_of_def\<close>)
qed

text \<open>After eleven failed attempts a read gives up; nothing on the disk has changed.\<close>

lemma sfs_rwblock_retry_gives_up:
  assumes "sfs_device s" "lhd_ok (sfs_dev s)" "b < d_blocks (sfs_dev s)" "uio_block UIO_READ b u"
    and "\<And>i. i \<le> k \<Longrightarrow> hw_code (sfs_dev s) i = LHD_MEDIA" "tries + k = 10"
  shows "wp (sfs_rwblock_retry tries) (\<lambda>_ _. False)
    (\<lambda>e (t, u'). e = EIO \<and> dev_moved s (disk s) t \<and> u' = u) (s, u)"
  using assms
proof (induction k arbitrary: s tries)
  case 0
  then have "hw_code (sfs_dev s) 0 = LHD_MEDIA" by simp
  then show ?case
    by (subst sfs_rwblock_retry.simps)
      (simp, rule wp_conseq [OF DEVOP_IO_read [OF 0(1-4)]];
        use 0(6) in \<open>auto simp: lhd_result_of_def lhd_codes\<close>)
next
  case (Suc k)
  have media: "hw_code (sfs_dev s) 0 = LHD_MEDIA" using Suc.prems(5) by simp
  then have ne: "hw_code (sfs_dev s) 0 \<noteq> LHD_OK" by (simp add: lhd_codes)
  have again: "wp (sfs_rwblock_retry (Suc tries)) (\<lambda>_ _. False)
      (\<lambda>e (v, u'). e = EIO \<and> dev_moved s (disk s) v \<and> u' = u) (t, u)"
    if t: "dev_moved s (disk s) t" "lhd_after (sfs_dev s) (sfs_dev t)" for t
  proof -
    note [simp] = dev_moved_simps [OF t(1)]
    have "wp (sfs_rwblock_retry (Suc tries)) (\<lambda>_ _. False)
      (\<lambda>e (v, u'). e = EIO \<and> dev_moved t (disk t) v \<and> u' = u) (t, u)"
      using Suc.prems hw_code_after [OF t(2)] by (intro Suc.IH) auto
    then show ?thesis
      by (rule wp_conseq) (use t dev_moved_trans in auto)
  qed
  have "tries < 10" using Suc.prems(6) by simp
  then show ?case
    by (subst sfs_rwblock_retry.simps)
      (simp, rule wp_conseq [OF DEVOP_IO_read [OF Suc.prems(1-4)]];
        use media ne again in \<open>auto simp: lhd_result_of_def\<close>)
qed

text \<open>
  A write that fails has used up the descriptor, so the second attempt is an empty transfer
  that succeeds: the block then holds what the failed operation left in it.
\<close>

lemma sfs_rwblock_retry_write:
  assumes "sfs_device s" "lhd_ok (sfs_dev s)" "b < d_blocks (sfs_dev s)" "uio_block UIO_WRITE b u"
    and code: "hw_code (sfs_dev s) 0 = LHD_OK \<or> hw_code (sfs_dev s) 0 = LHD_MEDIA"
  shows "wp (sfs_rwblock_retry 0)
    (\<lambda>_ (t, u'). hw_script (sfs_dev t) = tl (hw_script (sfs_dev s)) \<and>
       dev_moved s ((disk s)(b := (if hw_code (sfs_dev s) 0 = LHD_OK
         then map (uio_mem u) (take LHD_SECTSIZE (uio_addrs u)) else snd (hw_next (sfs_dev s))))) t)
    (\<lambda>_ _. False) (s, u)"
proof -
  have again: "wp (sfs_rwblock_retry (Suc 0)) Q E (t, u') = Q () (t, u')"
    if t: "dev_moved s f t" "uio_resid u' = 0" "uio_offset u' = int (LHD_SECTSIZE * Suc b)" for t u' f Q E
  proof -
    note m = dev_moved_simps [OF t(1)]
    have "lhd_io (sfs_dev t, u') = (Ok (), (sfs_dev t, u'))"
      by (rule lhd_io_empty [OF t(2,3)]) (use assms(3) m in \<open>auto simp: lhd_ok_def\<close>)
    then have "DEVOP_IO (t, u') = (Ok (), (t, u'))"
      using assms(1) m(2) by (simp add: DEVOP_IO_def kthen_def kbind_def kassert_def kzoom_def)
    then show ?thesis
      by (subst sfs_rwblock_retry.simps) (simp add: wp_def)
  qed
  have ne: "LHD_MEDIA \<noteq> LHD_OK" by (simp add: lhd_codes)
  show ?thesis
  proof (cases "hw_code (sfs_dev s) 0 = LHD_OK")
    case True
    then show ?thesis
      by (subst sfs_rwblock_retry.simps)
        (simp, rule wp_conseq [OF DEVOP_IO_write [OF assms(1-4)]];
          auto simp: lhd_result_of_def lhd_after_def)
  next
    case False
    then have "lhd_result_of (hw_code (sfs_dev s) 0) = Some EIO"
      using code by (simp add: lhd_result_of_def)
    then show ?thesis
      using False
      by (subst sfs_rwblock_retry.simps)
        (simp, rule wp_conseq [OF DEVOP_IO_write [OF assms(1-4)]];
          auto simp: again lhd_after_def)
  qed
qed

lemma sfs_readblock_retries:
  assumes "sfs_device s" "lhd_ok (sfs_dev s)" "b < d_blocks (sfs_dev s)" "length buf = 512"
    and "\<And>i. i < k \<Longrightarrow> hw_code (sfs_dev s) i = LHD_MEDIA" "hw_code (sfs_dev s) k = LHD_OK" "k \<le> 10"
  shows "wp (sfs_readblock b buf)
    (\<lambda>r t. r = disk s b \<and> dev_moved s (disk s) t \<and>
       hw_script (sfs_dev t) = drop (Suc k) (hw_script (sfs_dev s)))
    (\<lambda>_ _. False) s"
proof -
  have blk: "uio_block UIO_READ b (uio_kinit buf (int b * 512) UIO_READ)"
    using uio_block_kinit [OF assms(4), of UIO_READ b] by (simp add: SFS_BLOCKSIZE_def)
  have len: "length (disk s b) = 512" using assms(2) by (simp add: disk_def lhd_ok_def LHD_SECTSIZE_def)
  have buf: "uio_kbuf 512 u' = disk s b"
    if "uio_segflg u' = UIO_SYSSPACE" "uio_mem u' = mem_put m [0 ..< 512] (disk s b)" for u' m
    using uio_kbuf_put [of u' m "disk s b"] that len by simp
  show ?thesis
    unfolding sfs_readblock_def sfs_rwblock_def
    using assms(4)
    by (simp add: SFS_BLOCKSIZE_def)
      (rule wp_conseq [OF sfs_rwblock_retry_read [where tries = 0, OF assms(1-3) blk assms(5,6)]];
        use assms(4,7) buf in \<open>auto simp: LHD_SECTSIZE_def\<close>)
qed

lemma sfs_readblock_gives_up:
  assumes "sfs_device s" "lhd_ok (sfs_dev s)" "b < d_blocks (sfs_dev s)" "length buf = 512"
    and "\<And>i. i \<le> 10 \<Longrightarrow> hw_code (sfs_dev s) i = LHD_MEDIA"
  shows "wp (sfs_readblock b buf) (\<lambda>_ _. False) (\<lambda>e t. e = EIO \<and> dev_moved s (disk s) t) s"
proof -
  have blk: "uio_block UIO_READ b (uio_kinit buf (int b * 512) UIO_READ)"
    using uio_block_kinit [OF assms(4), of UIO_READ b] by (simp add: SFS_BLOCKSIZE_def)
  show ?thesis
    unfolding sfs_readblock_def sfs_rwblock_def
    using assms(4)
    by (simp add: SFS_BLOCKSIZE_def)
      (rule wp_conseq [OF sfs_rwblock_retry_gives_up [where tries = 0 and k = 10, OF assms(1-3) blk assms(5)]];
        auto)
qed

lemma sfs_writeblock_codes:
  assumes "sfs_device s" "lhd_ok (sfs_dev s)" "b < d_blocks (sfs_dev s)" "length buf = 512"
    and code: "hw_code (sfs_dev s) 0 = LHD_OK \<or> hw_code (sfs_dev s) 0 = LHD_MEDIA"
  shows "wp (sfs_writeblock b buf)
    (\<lambda>_ t. hw_script (sfs_dev t) = tl (hw_script (sfs_dev s)) \<and>
       dev_moved s ((disk s)(b := (if hw_code (sfs_dev s) 0 = LHD_OK then buf else snd (hw_next (sfs_dev s))))) t)
    (\<lambda>_ _. False) s"
proof -
  have blk: "uio_block UIO_WRITE b (uio_kinit buf (int b * 512) UIO_WRITE)"
    using uio_block_kinit [OF assms(4), of UIO_WRITE b] by (simp add: SFS_BLOCKSIZE_def)
  show ?thesis
    unfolding sfs_writeblock_def sfs_rwblock_def
    using assms(4)
    by (simp add: SFS_BLOCKSIZE_def)
      (intro conjI impI; rule wp_conseq [OF sfs_rwblock_retry_write [OF assms(1-3) blk code]];
        use assms(4) uio_kinit_data [of buf "int b * 512" UIO_WRITE] in \<open>auto simp: LHD_SECTSIZE_def\<close>)
qed

subsection \<open>The volume on a disk that does not fail\<close>

definition dev_ok :: "sfs_fs \<Rightarrow> bool" where
  "dev_ok s \<longleftrightarrow> sfs_device s \<and> lhd_ok (sfs_dev s) \<and> hw_good (sfs_dev s)"

definition dev_step :: "sfs_fs \<Rightarrow> (nat \<Rightarrow> byte list) \<Rightarrow> sfs_fs \<Rightarrow> bool" where
  "dev_step s f t \<longleftrightarrow> dev_moved s f t \<and> dev_ok t"

lemma hw_good_code: "hw_good d \<Longrightarrow> hw_code d n = LHD_OK"
  by (auto simp: hw_good_def hw_code_def)

lemma hw_good_tl: "hw_good d \<Longrightarrow> hw_script d' = drop n (hw_script d) \<Longrightarrow> hw_good d'"
  by (auto simp: hw_good_def dest: in_set_dropD)

interpretation bs: block_store sfs_readblock sfs_writeblock dev_ok "\<lambda>s. d_blocks (sfs_dev s)" disk dev_step
proof
  fix s :: sfs_fs and b :: nat and buf :: "byte list"
  assume a: "dev_ok s" "b < d_blocks (sfs_dev s)" "length buf = 512"
  then have d: "sfs_device s" "lhd_ok (sfs_dev s)" "hw_good (sfs_dev s)" by (simp_all add: dev_ok_def)
  note code = hw_good_code [OF d(3)]
  show "wp (sfs_readblock b buf) (\<lambda>r t. r = disk s b \<and> dev_step s (disk s) t) (\<lambda>_ _. False) s"
    by (rule wp_conseq [OF sfs_readblock_retries [where k = 0, OF d(1,2) a(2,3)]])
      (use code d hw_good_tl in \<open>auto simp: dev_step_def dev_ok_def dev_moved_simps\<close>)
  have "hw_script d = tl (hw_script (sfs_dev s)) \<Longrightarrow> hw_good d" for d
    using hw_good_tl [OF d(3), of d 1] by (simp add: drop_Suc)
  then show "wp (sfs_writeblock b buf) (\<lambda>_ t. dev_step s ((disk s)(b := buf)) t) (\<lambda>_ _. False) s"
    by (intro wp_conseq [OF sfs_writeblock_codes [OF d(1,2) a(2,3)]])
      (use code d in \<open>auto simp: dev_step_def dev_ok_def dev_moved_simps\<close>)
next
  fix s t f assume "dev_step s f t"
  then show "dev_ok t \<and> d_blocks (sfs_dev t) = d_blocks (sfs_dev s) \<and> disk t = f"
    by (auto simp: dev_step_def dest: dev_moved_simps)
next
  fix s f t g u assume "dev_step s f t" "dev_step t g u"
  then show "dev_step s g u" by (auto simp: dev_step_def intro: dev_moved_trans)
next
  fix s b assume "dev_ok s"
  then show "length (disk s b) = 512" by (simp add: dev_ok_def lhd_ok_def disk_def LHD_SECTSIZE_def)
qed

subsection \<open>Allocation\<close>

abbreviation used :: "sfs_fs \<Rightarrow> nat set" where
  "used s \<equiv> bitmap_used (sfs_freemap s)"

abbreviation nblocks :: "sfs_fs \<Rightarrow> nat" where
  "nblocks s \<equiv> sb_nblocks (sfs_sb s)"

text \<open>
  The volume fits on the disk, and the map covers it: the superblock is in use, and so are
  the numbers behind the end of the volume that the map has bits for.
\<close>

definition fs_ok :: "sfs_fs \<Rightarrow> bool" where
  "fs_ok s \<longleftrightarrow> dev_ok s \<and> bitmap_ok (sfs_freemap s) \<and> nblocks s \<le> d_blocks (sfs_dev s) \<and>
     nblocks s \<le> bm_nbits (sfs_freemap s) \<and> {nblocks s ..< bm_nbits (sfs_freemap s)} \<subseteq> used s \<and>
     0 \<in> used s"

text \<open>What block I/O and allocation leave alone: all but the disk, the map and its dirty flag.\<close>

definition fs_same :: "sfs_fs \<Rightarrow> sfs_fs \<Rightarrow> bool" where
  "fs_same s t \<longleftrightarrow> sfs_sb t = sfs_sb s \<and> sfs_superdirty t = sfs_superdirty s \<and> sfs_vnodes t = sfs_vnodes s \<and>
     biglock_depth t = biglock_depth s \<and> kmalloc_script t = kmalloc_script s"

lemma fs_same_refl [simp]: "fs_same s s"
  by (simp add: fs_same_def)

lemma fs_same_trans: "fs_same s t \<Longrightarrow> fs_same t u \<Longrightarrow> fs_same s u"
  by (simp add: fs_same_def)

lemma dev_step_simps:
  assumes "dev_step s f t"
  shows "disk t = f" "fs_same s t" "vn_heap t = vn_heap s" "sfs_freemap t = sfs_freemap s"
    "sfs_freemapdirty t = sfs_freemapdirty s" "sfs_sb t = sfs_sb s" "d_blocks (sfs_dev t) = d_blocks (sfs_dev s)"
    "sfs_superdirty t = sfs_superdirty s" "sfs_vnodes t = sfs_vnodes s" "kmalloc_script t = kmalloc_script s"
    "dev_ok t" "biglock_depth t = biglock_depth s" "sfs_device t = sfs_device s" "vn_at p t = vn_at p s"
    "fs_ok s \<Longrightarrow> fs_ok t"
  using assms by (auto simp: dev_step_def dev_moved_def disk_def fs_same_def fs_ok_def vn_at_def)

lemma readblock_wp:
  assumes "fs_ok s" "b < nblocks s" "length buf = 512"
  shows "wp (sfs_readblock b buf) (\<lambda>r t. r = disk s b \<and> dev_step s (disk s) t) E s"
  by (rule wp_conseq [OF bs.rd_wp]) (use assms in \<open>auto simp: fs_ok_def\<close>)

lemma writeblock_wp:
  assumes "fs_ok s" "b < nblocks s" "length buf = 512"
  shows "wp (sfs_writeblock b buf) (\<lambda>_ t. dev_step s ((disk s)(b := buf)) t) E s"
  by (rule wp_conseq [OF bs.wr_wp]) (use assms in \<open>auto simp: fs_ok_def\<close>)

lemma length_disk [simp]: "fs_ok s \<Longrightarrow> length (disk s b) = 512"
  using bs.blk_length by (simp add: fs_ok_def)

definition zeros :: "byte list" where
  "zeros = replicate 512 0"

lemma length_zeros [simp]: "length zeros = 512"
  by (simp add: zeros_def)

lemma sfs_balloc_wp:
  assumes ok: "fs_ok s"
  shows "wp sfs_balloc
    (\<lambda>b t. fs_ok t \<and> fs_same s t \<and> vn_heap t = vn_heap s \<and> b \<noteq> 0 \<and> b < nblocks s \<and> b \<notin> used s \<and>
       used t = insert b (used s) \<and> disk t = (disk s)(b := zeros) \<and>
       bm_nbits (sfs_freemap t) = bm_nbits (sfs_freemap s) \<and> sfs_freemapdirty t)
    (\<lambda>e t. e = ENOSPC \<and> t = s \<and> {..<nblocks s} \<subseteq> used s) s"
proof -
  have bm: "bitmap_ok (sfs_freemap s)" using ok by (simp add: fs_ok_def)
  have clear: "wp (sfs_clearblock b) Q E t"
    if t: "t = s\<lparr>sfs_freemap := m, sfs_freemapdirty := True\<rparr>" "fs_ok t" "b < nblocks s"
      "\<And>u. dev_step t ((disk t)(b := zeros)) u \<Longrightarrow> Q () u" for b t m Q E
    unfolding sfs_clearblock_def
    by (rule wp_conseq [OF writeblock_wp]) (use t in \<open>auto simp: SFS_BLOCKSIZE_def zeros_def\<close>)
  show ?thesis
    unfolding sfs_balloc_def on_freemap_def
  proof (simp cong: if_cong, rule wp_conseq [OF bm.alloc_wp [OF bm]], goal_cases)
    case (1 b m)
    define t where "t = s\<lparr>sfs_freemap := m, sfs_freemapdirty := True\<rparr>"
    have "b \<notin> {nblocks s ..< bm_nbits (sfs_freemap s)}" using 1 ok by (auto simp: fs_ok_def)
    then have b: "b < nblocks s" "b \<noteq> 0" using 1 ok by (auto simp: fs_ok_def intro!: ccontr [of "b \<noteq> 0"])
    have "fs_ok t" using ok 1 by (auto simp: fs_ok_def t_def dev_ok_def)
    moreover have "disk t = disk s" by (simp add: t_def disk_def)
    ultimately have "wp (sfs_clearblock b) (\<lambda>_ u. fs_ok u \<and> fs_same s u \<and> vn_heap u = vn_heap s \<and> b \<noteq> 0 \<and> b < nblocks s \<and> b \<notin> used s \<and>
       used u = insert b (used s) \<and> disk u = (disk s)(b := zeros) \<and>
       bm_nbits (sfs_freemap u) = bm_nbits (sfs_freemap s) \<and> sfs_freemapdirty u) E t" for E
      using b 1 by (intro clear [OF t_def]) (auto simp: dev_step_simps t_def fs_same_def)
    then show ?case using b by (simp add: t_def leD)
  next
    case (2 e m)
    then show ?case using ok by (auto simp: fs_ok_def)
  qed
qed

lemma sfs_bfree_wp:
  assumes "fs_ok s" "b \<in> used s" "b < nblocks s" "b \<noteq> 0"
  shows "wp (sfs_bfree b)
    (\<lambda>_ t. fs_ok t \<and> fs_same s t \<and> vn_heap t = vn_heap s \<and> used t = used s - {b} \<and> disk t = disk s \<and>
       bm_nbits (sfs_freemap t) = bm_nbits (sfs_freemap s) \<and> sfs_freemapdirty t) E s"
  unfolding sfs_bfree_def on_freemap_def
  by simp (rule wp_conseq [OF bm.unmark_wp];
      use assms in \<open>auto simp: fs_ok_def fs_same_def disk_def dev_ok_def\<close>)

lemma sfs_bused_wp:
  assumes "fs_ok s" "b < nblocks s"
  shows "wp (sfs_bused b) (\<lambda>r t. t = s \<and> r = (b \<in> used s)) E s"
  unfolding sfs_bused_def on_freemap_def
  using assms by (simp add: leD) (rule wp_conseq [OF bm.isset_wp]; auto simp: fs_ok_def)

end
