(* ===== verification/Sfs_Bmap.thy ===== *)
theory Sfs_Bmap
  imports Sfs_Base
begin

text \<open>
  The block map of a file, \<open>kern/fs/sfs/sfs_bmap.c\<close>: from a block of a file to a block of the
  volume (\<open>sfs_bmap\<close>), and freeing the blocks behind a new end of file (\<open>sfs_itrunc\<close>). The
  static buffers hold no data between calls, so they are local here; their contents before a
  block is read into them do not matter.
\<close>

subsection \<open>Model\<close>

definition iobuf :: "byte list" where
  "iobuf = replicate SFS_BLOCKSIZE 0"

text \<open>The check before a block number is handed back.\<close>

definition sfs_bmap_handback :: "nat \<Rightarrow> (sfs_fs, nat) kfun" where
  "sfs_bmap_handback block =
     kthen (if block \<noteq> 0
            then kbind (sfs_bused block) (\<lambda>inuse. if \<not> inuse then kpanic else kret ())
            else kret ())
       (kret block)"

definition sfs_bmap :: "nat \<Rightarrow> nat \<Rightarrow> bool \<Rightarrow> (sfs_fs, nat) kfun" where
  "sfs_bmap sv fileblock doalloc =
     kthen (kassert (\<lambda>s. vfs_biglock_do_i_hold (biglock_depth s)))
     (if fileblock < SFS_NDIRECT then
        kbind (sv_get sv (\<lambda>v. sfi_direct (sv_i v) ! fileblock)) (\<lambda>block.
        kbind (if block = 0 \<and> doalloc then
                 kbind sfs_balloc (\<lambda>block.
                 kthen (sv_mod sv (\<lambda>v. v\<lparr>sv_i := (sv_i v)\<lparr>sfi_direct := (sfi_direct (sv_i v))[fileblock := block]\<rparr>,
                                         sv_dirty := True\<rparr>))
                   (kret block))
               else kret block)
          sfs_bmap_handback)
      else
        let fileblock' = fileblock - SFS_NDIRECT;
            idnum = fileblock' div SFS_DBPERIDB;
            idoff = fileblock' mod SFS_DBPERIDB in
        if idnum \<ge> SFS_NINDIRECT then kfail EFBIG
        else
          kbind (sv_get sv (\<lambda>v. sfi_indirect (sv_i v))) (\<lambda>idblock.
          if idblock = 0 \<and> \<not> doalloc then kret 0
          else
            kbind (if idblock = 0 then
                     kbind sfs_balloc (\<lambda>idblock.
                     kthen (sv_mod sv (\<lambda>v. v\<lparr>sv_i := (sv_i v)\<lparr>sfi_indirect := idblock\<rparr>, sv_dirty := True\<rparr>))
                       (kret (idblock, replicate SFS_DBPERIDB 0)))
                   else
                     kbind (sfs_readblock idblock iobuf) (\<lambda>buf. kret (idblock, words_dec buf)))
              (\<lambda>(idblock, idbuf).
                 let block = idbuf ! idoff in
                 kbind (if block = 0 \<and> doalloc then
                          kbind sfs_balloc (\<lambda>block.
                          kthen (sfs_writeblock idblock (words_enc (idbuf[idoff := block])))
                            (kret block))
                        else kret block)
                   sfs_bmap_handback)))"

text \<open>The loop over the direct blocks.\<close>

function sfs_itrunc_direct :: "nat \<Rightarrow> nat \<Rightarrow> nat \<Rightarrow> (sfs_fs, unit) kfun" where
  "sfs_itrunc_direct sv blocklen i =
     (if i < SFS_NDIRECT then
        kbind (sv_get sv (\<lambda>v. sfi_direct (sv_i v) ! i)) (\<lambda>block.
        kthen (if i \<ge> blocklen \<and> block \<noteq> 0 then
                 kthen (sfs_bfree block)
                   (sv_mod sv (\<lambda>v. v\<lparr>sv_i := (sv_i v)\<lparr>sfi_direct := (sfi_direct (sv_i v))[i := 0]\<rparr>,
                                     sv_dirty := True\<rparr>))
               else kret ())
          (sfs_itrunc_direct sv blocklen (Suc i)))
      else kret ())"
  by pat_completeness auto
termination
  by (relation "measure (\<lambda>(sv, blocklen, i). SFS_NDIRECT - i)") auto

text \<open>The loop over the entries of the indirect block; \<open>idbuf\<close>, \<open>hasnonzero\<close> and \<open>iddirty\<close>.\<close>

function sfs_itrunc_indirect :: "nat \<Rightarrow> nat \<Rightarrow> nat list \<Rightarrow> bool \<Rightarrow> bool \<Rightarrow>
    (sfs_fs, nat list \<times> bool \<times> bool) kfun" where
  "sfs_itrunc_indirect blocklen j idbuf hasnonzero iddirty =
     (if j < SFS_DBPERIDB then
        kbind (if blocklen < SFS_NDIRECT + j \<and> idbuf ! j \<noteq> 0
               then kthen (sfs_bfree (idbuf ! j)) (kret (idbuf[j := 0], True))
               else kret (idbuf, iddirty)) (\<lambda>(idbuf', iddirty').
          sfs_itrunc_indirect blocklen (Suc j) idbuf' (if idbuf' ! j \<noteq> 0 then True else hasnonzero) iddirty')
      else kret (idbuf, hasnonzero, iddirty))"
  by pat_completeness auto
termination
  by (relation "measure (\<lambda>(blocklen, j, idbuf, h, d). SFS_DBPERIDB - j)") auto

definition sfs_itrunc :: "nat \<Rightarrow> int \<Rightarrow> (sfs_fs, unit) kfun" where
  "sfs_itrunc sv len =
     (let blocklen = u32_of_int ((len + int SFS_BLOCKSIZE - 1) sdiv int SFS_BLOCKSIZE);
          highblock = SFS_NDIRECT + SFS_DBPERIDB - 1 in
      kthen biglock_acquire
      (kthen (sfs_itrunc_direct sv blocklen 0)
      (kbind (sv_get sv (\<lambda>v. sfi_indirect (sv_i v))) (\<lambda>idblock.
       kbind (ktry (if blocklen < highblock \<and> idblock \<noteq> 0 then
                      kbind (sfs_readblock idblock iobuf) (\<lambda>buf.
                      kbind (sfs_itrunc_indirect blocklen 0 (words_dec buf) False False) (\<lambda>(idbuf, hasnonzero, iddirty).
                        if \<not> hasnonzero then
                          kthen (sfs_bfree idblock)
                            (sv_mod sv (\<lambda>v. v\<lparr>sv_i := (sv_i v)\<lparr>sfi_indirect := 0\<rparr>, sv_dirty := True\<rparr>))
                        else if iddirty then sfs_writeblock idblock (words_enc idbuf)
                        else kret ()))
                    else kret ())) (\<lambda>result.
         case result of
           Inl e \<Rightarrow> kthen biglock_release (kfail e)
         | Inr _ \<Rightarrow>
             kthen (sv_mod sv (\<lambda>v. v\<lparr>sv_i := (sv_i v)\<lparr>sfi_size := u32_of_int len\<rparr>, sv_dirty := True\<rparr>))
               biglock_release)))))"

declare sfs_itrunc_direct.simps [simp del] sfs_itrunc_indirect.simps [simp del]

subsection \<open>The map as a list\<close>

text \<open>The 143 block numbers of a file, 0 where there is a hole.\<close>

definition idwords :: "(nat \<Rightarrow> byte list) \<Rightarrow> nat \<Rightarrow> nat list" where
  "idwords d ib = (if ib = 0 then replicate 128 0 else words_dec (d ib))"

definition bmap_of :: "(nat \<Rightarrow> byte list) \<Rightarrow> sfs_dinode \<Rightarrow> nat list" where
  "bmap_of d i = sfi_direct i @ idwords d (sfi_indirect i)"

definition inode_blocks :: "(nat \<Rightarrow> byte list) \<Rightarrow> sfs_dinode \<Rightarrow> nat set" where
  "inode_blocks d i = insert (sfi_indirect i) (set (bmap_of d i)) - {0}"

text \<open>No block is used twice by the file.\<close>

definition no_share :: "nat list \<Rightarrow> bool" where
  "no_share bs \<longleftrightarrow> distinct (filter (\<lambda>b. b \<noteq> 0) bs)"

definition inode_ok :: "sfs_fs \<Rightarrow> sfs_dinode \<Rightarrow> bool" where
  "inode_ok s i \<longleftrightarrow> dinode_wf i \<and> inode_blocks (disk s) i \<subseteq> {..<nblocks s} \<inter> used s \<and>
     no_share (sfi_indirect i # bmap_of (disk s) i)"

lemma no_share_simps [simp]:
  "no_share []"
  "no_share (x # xs) \<longleftrightarrow> (x \<noteq> 0 \<longrightarrow> x \<notin> set xs) \<and> no_share xs"
  by (auto simp: no_share_def)

lemma no_share_nth:
  "no_share bs \<longleftrightarrow> (\<forall>i<length bs. \<forall>j<length bs. i \<noteq> j \<longrightarrow> bs ! i \<noteq> 0 \<longrightarrow> bs ! i \<noteq> bs ! j)"
proof (induction bs)
  case (Cons x xs)
  then show ?case
    by (simp add: All_less_Suc2 in_set_conv_nth) (metis neq0_conv)
qed simp

lemma no_share_set:
  assumes "no_share bs" "b \<notin> set bs"
  shows "no_share (bs[i := b])"
proof (cases "i < length bs")
  case True
  have "b \<noteq> bs ! j" if "j < length bs" for j using assms(2) that by auto
  then show ?thesis
    using assms(1) True unfolding no_share_nth by (auto simp: nth_list_update)
qed (use assms in \<open>simp add: list_update_beyond\<close>)

lemma no_share_clear:
  assumes "no_share bs"
  shows "no_share (bs[i := 0])"
  using assms unfolding no_share_nth
  by (cases "i < length bs") (auto simp: nth_list_update)

lemma no_share_append:
  "no_share (xs @ ys) \<longleftrightarrow> no_share xs \<and> no_share ys \<and> set xs \<inter> set ys \<subseteq> {0}"
  by (induction xs) auto

lemma iobuf_zeros: "iobuf = zeros"
  by (simp add: iobuf_def zeros_def SFS_BLOCKSIZE_def)

lemma length_idwords [simp]: "(\<And>b. length (d b) = 512) \<Longrightarrow> length (idwords d ib) = 128"
  by (simp add: idwords_def length_words_dec)

lemma length_bmap_of: "fs_ok s \<Longrightarrow> dinode_wf i \<Longrightarrow> length (bmap_of (disk s) i) = 143"
  by (simp add: bmap_of_def dinode_wf_def)

lemma words_dec_zeros: "words_dec zeros = replicate 128 0"
  using words_dec_zero [of 128] by (simp add: zeros_def)

lemma idwords_bound: "w \<in> set (idwords d ib) \<Longrightarrow> w < 2 ^ 32"
  by (auto simp: idwords_def intro: words_dec_bound [simplified] split: if_splits)

lemma words_dec_enc_update:
  assumes "b < 2 ^ 32"
  shows "words_dec (words_enc ((idwords d ib)[k := b])) = (idwords d ib)[k := b]"
proof (rule words_dec_enc, rule ballI)
  fix w assume "w \<in> set ((idwords d ib)[k := b])"
  then have "w \<in> insert b (set (idwords d ib))"
    using set_update_subset_insert [of "idwords d ib" k b] by blast
  then show "w < 2 ^ 32" using assms idwords_bound [of w d ib] by auto
qed

lemma nblocks_bound: "fs_ok s \<Longrightarrow> nblocks s < 2 ^ 32"
  by (auto simp: fs_ok_def dev_ok_def lhd_ok_def)

subsection \<open>Growing a file\<close>

text \<open>
  \<open>inode_step p s v t v'\<close>: the file at \<open>p\<close>, \<open>v\<close> in \<open>s\<close> and \<open>v'\<close> in \<open>t\<close>, may have grown by
  blocks that were free, and its own blocks may have changed; everything else is as it was.
\<close>

definition inode_step :: "nat \<Rightarrow> sfs_fs \<Rightarrow> sfs_vnode \<Rightarrow> sfs_fs \<Rightarrow> sfs_vnode \<Rightarrow> bool" where
  "inode_step p s v t v' \<longleftrightarrow>
     fs_ok t \<and> fs_same s t \<and> vn_heap t = (vn_heap s)[p := Some v'] \<and> inode_ok t (sv_i v') \<and>
     used s \<subseteq> used t \<and> used t \<subseteq> used s \<union> inode_blocks (disk t) (sv_i v') \<and>
     inode_blocks (disk s) (sv_i v) \<subseteq> inode_blocks (disk t) (sv_i v') \<and>
     inode_blocks (disk t) (sv_i v') \<inter> used s \<subseteq> inode_blocks (disk s) (sv_i v) \<and>
     (\<forall>c \<in> used s - inode_blocks (disk s) (sv_i v). disk t c = disk s c) \<and>
     bm_nbits (sfs_freemap t) = bm_nbits (sfs_freemap s) \<and>
     (sfs_freemapdirty t \<or> \<not> sfs_freemapdirty s \<and> sfs_freemap t = sfs_freemap s) \<and>
     (sv_dirty v' \<or> \<not> sv_dirty v \<and> sv_i v' = sv_i v) \<and>
     sfi_type (sv_i v') = sfi_type (sv_i v) \<and> sfi_linkcount (sv_i v') = sfi_linkcount (sv_i v) \<and>
     sfi_waste (sv_i v') = sfi_waste (sv_i v) \<and>
     vn_refcount v' = vn_refcount v \<and> vn_ops v' = vn_ops v \<and> vn_fs v' = vn_fs v \<and> sv_ino v' = sv_ino v"

lemma inode_step_trans:
  assumes "inode_step p s v t v'" "inode_step p t v' u v''"
  shows "inode_step p s v u v''"
proof -
  let ?S = "inode_blocks (disk s) (sv_i v)" and ?T = "inode_blocks (disk t) (sv_i v')"
    and ?U = "inode_blocks (disk u) (sv_i v'')"
  note a = assms(1) [unfolded inode_step_def] and b = assms(2) [unfolded inode_step_def]
  have sets: "used s \<subseteq> used t" "used t \<subseteq> used s \<union> ?T" "?S \<subseteq> ?T" "?T \<inter> used s \<subseteq> ?S"
    "used t \<subseteq> used u" "used u \<subseteq> used t \<union> ?U" "?T \<subseteq> ?U" "?U \<inter> used t \<subseteq> ?T"
    using a b by blast+
  have "disk u c = disk s c" if "c \<in> used s - ?S" for c
  proof -
    have "c \<in> used t - ?T" using that sets by blast
    then have "disk u c = disk t c" using b by blast
    also have "\<dots> = disk s c" using that a by blast
    finally show ?thesis .
  qed
  moreover have "used s \<subseteq> used u" "used u \<subseteq> used s \<union> ?U" "?S \<subseteq> ?U" "?U \<inter> used s \<subseteq> ?S"
    using sets by blast+
  moreover have "vn_heap u = (vn_heap s)[p := Some v'']" using a b by simp
  moreover have "fs_same s u" using a b by (simp add: fs_same_def)
  moreover have "sfs_freemapdirty u \<or> \<not> sfs_freemapdirty s \<and> sfs_freemap u = sfs_freemap s"
    "sv_dirty v'' \<or> \<not> sv_dirty v \<and> sv_i v'' = sv_i v"
    using a b by auto
  ultimately show ?thesis
    unfolding inode_step_def using a b by simp
qed

lemma dev_step_refl: "fs_ok s \<Longrightarrow> dev_step s (disk s) s"
  unfolding dev_step_def dev_moved_def
  by (rule conjI, rule exI [of _ "sfs_dev s"]) (auto simp: fs_ok_def dev_ok_def disk_def)

lemma inode_step_refl:
  assumes "fs_ok s" "vn_at p s = Some v" "inode_ok s (sv_i v)"
  shows "inode_step p s v s v"
proof -
  show ?thesis using assms by (simp add: inode_step_def)
qed

lemma inode_step_vn_at:
  assumes "inode_step p s v t v'" "vn_at p s = Some v"
  shows "vn_at p t = Some v'" "q \<noteq> p \<Longrightarrow> vn_at q t = vn_at q s"
  using assms by (auto simp: inode_step_def vn_at_def split: if_splits)

subsection \<open>Lookup\<close>

lemma sfs_bmap_handback_wp:
  assumes "fs_ok s" "b \<noteq> 0 \<Longrightarrow> b < nblocks s \<and> b \<in> used s"
  shows "wp (sfs_bmap_handback b) (\<lambda>r t. r = b \<and> t = s) E s"
  unfolding sfs_bmap_handback_def
  by (cases "b = 0") (simp, simp, rule wp_conseq [OF sfs_bused_wp], use assms in auto)

lemma inode_ok_nth:
  assumes "fs_ok s" "inode_ok s i" "fb < 143" "b = bmap_of (disk s) i ! fb" "b \<noteq> 0"
  shows "b < nblocks s" "b \<in> used s" "b \<noteq> sfi_indirect i" "b \<in> inode_blocks (disk s) i"
proof -
  have "b \<in> set (bmap_of (disk s) i)"
    using assms length_bmap_of [of s i] by (auto simp: inode_ok_def)
  then show own: "b \<in> inode_blocks (disk s) i" and "b \<noteq> sfi_indirect i"
    using assms(2,5) by (auto simp: inode_blocks_def inode_ok_def)
  then show "b < nblocks s" "b \<in> used s" using assms(2) by (auto simp: inode_ok_def)
qed

lemma inode_ok_indirect:
  assumes "inode_ok s i" "sfi_indirect i \<noteq> 0"
  shows "sfi_indirect i < nblocks s" "sfi_indirect i \<in> used s" "sfi_indirect i \<in> inode_blocks (disk s) i"
    "sfi_indirect i \<notin> set (bmap_of (disk s) i)"
  using assms by (auto simp: inode_ok_def inode_blocks_def)

lemma bmap_of_direct: "dinode_wf i \<Longrightarrow> fb < 15 \<Longrightarrow> bmap_of d i ! fb = sfi_direct i ! fb"
  by (simp add: bmap_of_def nth_append dinode_wf_def)

lemma bmap_of_indirect:
  "dinode_wf i \<Longrightarrow> 15 \<le> fb \<Longrightarrow> bmap_of d i ! fb = idwords d (sfi_indirect i) ! (fb - 15)"
  by (simp add: bmap_of_def nth_append dinode_wf_def)

lemma sfs_bmap_lookup:
  assumes ok: "fs_ok s" and v: "vn_at p s = Some v" "inode_ok s (sv_i v)"
  shows "wp (sfs_bmap p fb False)
    (\<lambda>b t. fb < 143 \<and> b = bmap_of (disk s) (sv_i v) ! fb \<and> dev_step s (disk s) t)
    (\<lambda>e t. e = EFBIG \<and> t = s \<and> 143 \<le> fb) s"
proof -
  let ?b = "bmap_of (disk s) (sv_i v) ! fb"
  have wf: "dinode_wf (sv_i v)" using v by (simp add: inode_ok_def)
  have hand: "wp (sfs_bmap_handback ?b) (\<lambda>b t. b = ?b \<and> dev_step s (disk s) t) E t"
    if t: "dev_step s (disk s) t" "fb < 143" for t E
    by (rule wp_conseq [OF sfs_bmap_handback_wp])
      (use t inode_ok_nth [OF ok v(2) t(2) refl] ok in \<open>auto simp: dev_step_simps [OF t(1)]\<close>)
  note refl = dev_step_refl [OF ok]
  consider "fb < 15" | "15 \<le> fb" "fb < 143" "sfi_indirect (sv_i v) = 0"
    | "15 \<le> fb" "fb < 143" "sfi_indirect (sv_i v) \<noteq> 0" | "143 \<le> fb"
    by linarith
  then show ?thesis
  proof cases
    case 1
    then show ?thesis
      using v bmap_of_direct [OF wf 1, of "disk s"] hand [OF refl, of "\<lambda>_ _. False"]
      by (simp add: sfs_bmap_def sfs_consts)
  next
    case 2
    then have "?b = 0" by (simp add: bmap_of_indirect [OF wf] idwords_def)
    with 2 show ?thesis using v refl by (simp add: sfs_bmap_def sfs_consts Let_def)
  next
    case 3
    have "wp (sfs_readblock (sfi_indirect (sv_i v)) iobuf)
      (\<lambda>r t. wp (sfs_bmap_handback (words_dec r ! (fb - 15)))
        (\<lambda>b t. fb < 143 \<and> b = ?b \<and> dev_step s (disk s) t) (\<lambda>e t. e = EFBIG \<and> t = s \<and> 143 \<le> fb) t)
      (\<lambda>e t. e = EFBIG \<and> t = s \<and> 143 \<le> fb) s"
    proof (rule wp_conseq [OF readblock_wp], goal_cases)
      case (4 r t)
      then have "words_dec r ! (fb - 15) = ?b"
        using 3 by (simp add: bmap_of_indirect [OF wf] idwords_def)
      then show ?case using hand [of t "\<lambda>_ _. False"] 3 4
        by simp
    qed (use ok inode_ok_indirect [OF v(2) 3(3)] in \<open>auto simp: iobuf_zeros\<close>)
    then show ?thesis
      using 3 v by (simp add: sfs_bmap_def sfs_consts Let_def)
  next
    case 4
    then have "1 \<le> (fb - 15) div 128" using div_le_mono [of 128 "fb - 15" 128] by simp
    with 4 show ?thesis using v by (simp add: sfs_bmap_def sfs_consts Let_def)
  qed
qed

subsection \<open>Allocation\<close>

text \<open>The state after a block was allocated.\<close>

definition balloc_step :: "sfs_fs \<Rightarrow> nat \<Rightarrow> sfs_fs \<Rightarrow> bool" where
  "balloc_step s b t \<longleftrightarrow> fs_ok t \<and> fs_same s t \<and> vn_heap t = vn_heap s \<and> b \<noteq> 0 \<and> b < nblocks s \<and>
     b \<notin> used s \<and> used t = insert b (used s) \<and> disk t = (disk s)(b := zeros) \<and>
     bm_nbits (sfs_freemap t) = bm_nbits (sfs_freemap s) \<and> sfs_freemapdirty t"

lemma balloc_wp:
  "fs_ok s \<Longrightarrow> wp sfs_balloc (\<lambda>b t. balloc_step s b t) (\<lambda>e t. e = ENOSPC \<and> t = s \<and> {..<nblocks s} \<subseteq> used s) s"
  by (rule wp_conseq [OF sfs_balloc_wp]) (simp_all add: balloc_step_def)

text \<open>Writing through the state keeps soundness of an inode that the write does not touch.\<close>

lemma idwords_cong: "(ib \<noteq> 0 \<Longrightarrow> d ib = d' ib) \<Longrightarrow> idwords d ib = idwords d' ib"
  by (simp add: idwords_def)

lemma bmap_of_cong: "(sfi_indirect i \<noteq> 0 \<Longrightarrow> d (sfi_indirect i) = d' (sfi_indirect i)) \<Longrightarrow> bmap_of d i = bmap_of d' i"
  by (simp add: bmap_of_def idwords_def)

lemma fs_ok_vn_put [simp]: "fs_ok (vn_put p v s) = fs_ok s"
  by (simp add: fs_ok_def vn_put_def dev_ok_def)

lemma vn_put_simps [simp]:
  "disk (vn_put p v s) = disk s" "sfs_freemap (vn_put p v s) = sfs_freemap s" "sfs_sb (vn_put p v s) = sfs_sb s"
  "vn_heap (vn_put p v s) = (vn_heap s)[p := Some v]" "fs_same s (vn_put p v t) = fs_same s t"
  "sfs_freemapdirty (vn_put p v s) = sfs_freemapdirty s" "inode_ok (vn_put p v s) = inode_ok s"
  "sfs_dev (vn_put p v s) = sfs_dev s" "sfs_vnodes (vn_put p v s) = sfs_vnodes s"
  "biglock_depth (vn_put p v s) = biglock_depth s" "kmalloc_script (vn_put p v s) = kmalloc_script s"
  by (auto simp: vn_put_def disk_def fs_same_def inode_ok_def)

text \<open>
  What a call of \<open>sfs_bmap\<close> with \<open>doalloc\<close> does: the entry is filled if it was empty, with a
  block that was free and now holds zeros; data blocks of the file keep their contents.
\<close>

definition bmap_alloc :: "nat \<Rightarrow> nat \<Rightarrow> nat \<Rightarrow> sfs_fs \<Rightarrow> sfs_vnode \<Rightarrow> sfs_fs \<Rightarrow> sfs_vnode \<Rightarrow> bool" where
  "bmap_alloc p fb b s v t v' \<longleftrightarrow>
     inode_step p s v t v' \<and> fb < 143 \<and> b \<noteq> 0 \<and> sfi_size (sv_i v') = sfi_size (sv_i v) \<and>
     bmap_of (disk t) (sv_i v') = (bmap_of (disk s) (sv_i v))[fb := b] \<and>
     (if bmap_of (disk s) (sv_i v) ! fb = 0 then b \<notin> used s \<and> disk t b = zeros
      else b = bmap_of (disk s) (sv_i v) ! fb \<and> disk t = disk s \<and> v' = v) \<and>
     (\<forall>c \<in> set (bmap_of (disk s) (sv_i v)) - {0}. disk t c = disk s c)"

lemma dinode_wf_direct:
  "dinode_wf i \<Longrightarrow> b < 2 ^ 32 \<Longrightarrow> dinode_wf (i\<lparr>sfi_direct := (sfi_direct i)[fb := b]\<rparr>)"
  using set_update_subset_insert [of "sfi_direct i" fb b] by (auto simp: dinode_wf_def)

lemma set_update_zero:
  assumes "i < length xs" "xs ! i = 0"
  shows "set (xs[i := b]) - {0} = (insert b (set xs)) - {0 :: nat}"
proof -
  have "set (xs[i := b]) \<subseteq> insert b (set xs)" by (rule set_update_subset_insert)
  moreover have "x \<in> set (xs[i := b])" if x: "x \<in> set xs" "x \<noteq> 0" for x
  proof -
    obtain k where k: "k < length xs" "xs ! k = x" using x by (auto simp: in_set_conv_nth)
    then have "xs[i := b] ! k = x" using assms x by (cases "k = i") auto
    then show ?thesis using k by (metis length_list_update nth_mem)
  qed
  moreover have "b \<in> set (xs[i := b])" using assms by (simp add: set_update_memI)
  ultimately show ?thesis by blast
qed

lemma bmap_alloc_direct:
  assumes ok: "fs_ok s" and v: "vn_at p s = Some v" "inode_ok s (sv_i v)"
    and fb: "fb < 15" "sfi_direct (sv_i v) ! fb = 0" and t: "balloc_step s b t"
  defines "v' \<equiv> v\<lparr>sv_i := (sv_i v)\<lparr>sfi_direct := (sfi_direct (sv_i v))[fb := b]\<rparr>, sv_dirty := True\<rparr>"
  shows "bmap_alloc p fb b s v (vn_put p v' t) v'"
proof -
  let ?m = "bmap_of (disk s) (sv_i v)"
  have wf: "dinode_wf (sv_i v)" using v by (simp add: inode_ok_def)
  note len = length_bmap_of [OF ok wf]
  have b: "b \<noteq> 0" "b < nblocks s" "b \<notin> used s" "disk t = (disk s)(b := zeros)" "used t = insert b (used s)"
    using t by (simp_all add: balloc_step_def)
  have own: "inode_blocks (disk s) (sv_i v) \<subseteq> used s" using v by (auto simp: inode_ok_def)
  have ind: "sfi_indirect (sv_i v) \<noteq> b" using b own by (auto simp: inode_blocks_def)
  have ind0: "sfi_indirect (sv_i v') = sfi_indirect (sv_i v)" by (simp add: v'_def)
  have "idwords (disk t) (sfi_indirect (sv_i v)) = idwords (disk s) (sfi_indirect (sv_i v))"
    using ind b by (intro idwords_cong) simp
  then have m: "bmap_of (disk t) (sv_i v') = ?m[fb := b]"
    using wf fb by (simp add: v'_def bmap_of_def list_update_append dinode_wf_def)
  have zero: "?m ! fb = 0" using fb by (simp add: bmap_of_direct [OF wf])
  have nb: "b \<notin> set ?m" using own b by (auto simp: inode_blocks_def)
  have blocks: "inode_blocks (disk t) (sv_i v') = insert b (inode_blocks (disk s) (sv_i v))"
  proof -
    have "set (?m[fb := b]) - {0} = insert b (set ?m) - {0}"
      by (rule set_update_zero) (use fb zero len in simp_all)
    then show ?thesis unfolding inode_blocks_def m ind0 using b(1) by blast
  qed
  have "b < 2 ^ 32" using b nblocks_bound [OF ok] by simp
  then have wf': "dinode_wf (sv_i v')" using dinode_wf_direct [OF wf] by (simp add: v'_def)
  have "no_share (sfi_indirect (sv_i v') # bmap_of (disk t) (sv_i v'))"
    using v(2) nb no_share_set [of ?m b fb] ind set_update_subset_insert [of ?m fb b]
    unfolding m ind0 by (auto simp: inode_ok_def)
  then have ok': "inode_ok t (sv_i v')"
    using v(2) wf' b t unfolding inode_ok_def blocks by (auto simp: balloc_step_def fs_same_def)
  have "inode_step p s v (vn_put p v' t) v'"
    using t ok' own b blocks unfolding inode_step_def
    by (auto simp: balloc_step_def v'_def)
  moreover have "disk t c = disk s c" if "c \<in> set ?m" for c
    using that nb b by auto
  ultimately show ?thesis
    using m zero fb b by (simp add: bmap_alloc_def) (simp add: v'_def)
qed

text \<open>The file has the same blocks with the same contents.\<close>

definition bmap_same :: "sfs_fs \<Rightarrow> sfs_vnode \<Rightarrow> sfs_fs \<Rightarrow> sfs_vnode \<Rightarrow> bool" where
  "bmap_same s v t v' \<longleftrightarrow> sfi_size (sv_i v') = sfi_size (sv_i v) \<and>
     bmap_of (disk t) (sv_i v') = bmap_of (disk s) (sv_i v) \<and>
     (\<forall>c \<in> set (bmap_of (disk s) (sv_i v)) - {0}. disk t c = disk s c)"

lemma bmap_new_indirect:
  assumes ok: "fs_ok s" and v: "vn_at p s = Some v" "inode_ok s (sv_i v)"
    and ind: "sfi_indirect (sv_i v) = 0" and t: "balloc_step s b t"
  defines "v' \<equiv> v\<lparr>sv_i := (sv_i v)\<lparr>sfi_indirect := b\<rparr>, sv_dirty := True\<rparr>"
  shows "inode_step p s v (vn_put p v' t) v' \<and> bmap_same s v (vn_put p v' t) v'"
proof -
  let ?m = "bmap_of (disk s) (sv_i v)"
  have wf: "dinode_wf (sv_i v)" using v by (simp add: inode_ok_def)
  have b: "b \<noteq> 0" "b < nblocks s" "b \<notin> used s" "disk t = (disk s)(b := zeros)" "used t = insert b (used s)"
    using t by (simp_all add: balloc_step_def)
  have own: "inode_blocks (disk s) (sv_i v) \<subseteq> used s" using v by (auto simp: inode_ok_def)
  have m: "bmap_of (disk t) (sv_i v') = ?m"
    using b ind by (simp add: v'_def bmap_of_def idwords_def words_dec_zeros)
  have nb: "b \<notin> set ?m" using own b by (auto simp: inode_blocks_def)
  have blocks: "inode_blocks (disk t) (sv_i v') = insert b (inode_blocks (disk s) (sv_i v))"
    unfolding inode_blocks_def m using ind b(1) by (auto simp: v'_def)
  have "b < 2 ^ 32" using b nblocks_bound [OF ok] by simp
  then have wf': "dinode_wf (sv_i v')" using wf by (simp add: v'_def dinode_wf_def)
  have "no_share (sfi_indirect (sv_i v') # bmap_of (disk t) (sv_i v'))"
    using v(2) nb unfolding m by (simp add: inode_ok_def v'_def)
  then have ok': "inode_ok t (sv_i v')"
    using v(2) wf' b t unfolding inode_ok_def blocks by (auto simp: balloc_step_def fs_same_def)
  have "inode_step p s v (vn_put p v' t) v'"
    using t ok' own b blocks unfolding inode_step_def
    by (auto simp: balloc_step_def v'_def)
  moreover have "disk t c = disk s c" if "c \<in> set ?m" for c
    using that nb b by auto
  ultimately show ?thesis
    using m by (simp add: bmap_same_def) (simp add: v'_def)
qed

lemma bmap_alloc_indirect:
  assumes ok: "fs_ok s" and v: "vn_at p s = Some v" "inode_ok s (sv_i v)"
    and fb: "15 \<le> fb" "fb < 143" "bmap_of (disk s) (sv_i v) ! fb = 0" and ib: "ib = sfi_indirect (sv_i v)" "ib \<noteq> 0"
    and t: "balloc_step s b t"
    and u: "dev_step t ((disk t)(ib := words_enc ((idwords (disk s) ib)[fb - 15 := b]))) u"
  shows "bmap_alloc p fb b s v u v"
proof -
  let ?m = "bmap_of (disk s) (sv_i v)"
  have wf: "dinode_wf (sv_i v)" using v by (simp add: inode_ok_def)
  note len = length_bmap_of [OF ok wf]
  have b: "b \<noteq> 0" "b < nblocks s" "b \<notin> used s" "disk t = (disk s)(b := zeros)" "used t = insert b (used s)"
    using t by (simp_all add: balloc_step_def)
  have own: "inode_blocks (disk s) (sv_i v) \<subseteq> used s" using v by (auto simp: inode_ok_def)
  have nb: "b \<notin> set ?m" "ib \<noteq> b" using own b inode_ok_indirect [OF v(2)] ib by (auto simp: inode_blocks_def)
  have "b < 2 ^ 32" using b nblocks_bound [OF ok] by simp
  then have "idwords (disk u) ib = (idwords (disk s) ib)[fb - 15 := b]"
    using ib(2) dev_step_simps(1) [OF u] words_dec_enc_update [of b "disk s" ib "fb - 15"]
    by (simp add: idwords_def)
  then have m: "bmap_of (disk u) (sv_i v) = ?m[fb := b]"
    using wf fb unfolding bmap_of_def ib(1) by (simp add: list_update_append dinode_wf_def)
  have blocks: "inode_blocks (disk u) (sv_i v) = insert b (inode_blocks (disk s) (sv_i v))"
  proof -
    have "set (?m[fb := b]) - {0} = insert b (set ?m) - {0}"
      by (rule set_update_zero) (use fb len in simp_all)
    then show ?thesis unfolding inode_blocks_def m using b(1) by blast
  qed
  have "no_share (sfi_indirect (sv_i v) # bmap_of (disk u) (sv_i v))"
    using v(2) nb no_share_set [of ?m b fb] ib set_update_subset_insert [of ?m fb b]
    unfolding m by (auto simp: inode_ok_def)
  then have ok': "inode_ok u (sv_i v)"
    using v(2) wf b t unfolding inode_ok_def blocks
    by (auto simp: balloc_step_def fs_same_def dev_step_simps [OF u])
  have data: "disk u c = disk s c" if "c \<noteq> b" "c \<noteq> ib" for c
    using that b by (simp add: dev_step_simps [OF u])
  have "ib \<in> inode_blocks (disk s) (sv_i v)" using inode_ok_indirect [OF v(2)] ib by simp
  then have frame: "disk u c = disk s c" if "c \<in> used s - inode_blocks (disk s) (sv_i v)" for c
    using that b(3) by (intro data) auto
  have "fs_same s u" "fs_ok u" "vn_heap u = vn_heap s"
    using t by (auto simp: balloc_step_def dev_step_simps [OF u] intro: fs_same_trans)
  then have "inode_step p s v u v"
    using v t ok' own b blocks frame unfolding inode_step_def
    by (auto simp: balloc_step_def dev_step_simps [OF u])
  moreover have "disk u c = disk s c" if "c \<in> set ?m - {0}" for c
    using that nb inode_ok_indirect(4) [OF v(2)] ib by (intro data) auto
  moreover have "disk u b = zeros" using b nb by (simp add: dev_step_simps [OF u])
  ultimately show ?thesis
    using m fb b by (simp add: bmap_alloc_def)
qed

lemma bmap_alloc_compose:
  assumes "inode_step p s v t v'" "bmap_same s v t v'" "bmap_alloc p fb b t v' u v'" "bmap_of (disk s) (sv_i v) ! fb = 0"
  shows "bmap_alloc p fb b s v u v'"
proof -
  have same: "bmap_of (disk t) (sv_i v') = bmap_of (disk s) (sv_i v)" "sfi_size (sv_i v') = sfi_size (sv_i v)"
    using assms(2) by (simp_all add: bmap_same_def)
  have step: "inode_step p t v' u v'" "fb < 143" "b \<noteq> 0" "b \<notin> used t" "disk u b = zeros"
    "bmap_of (disk u) (sv_i v') = (bmap_of (disk s) (sv_i v))[fb := b]"
    using assms(3,4) by (simp_all add: bmap_alloc_def same)
  have "used s \<subseteq> used t" using assms(1) by (simp add: inode_step_def)
  then have "b \<notin> used s" using step by blast
  moreover have "disk u c = disk s c" if "c \<in> set (bmap_of (disk s) (sv_i v)) - {0}" for c
    using that assms(2,3) by (simp add: bmap_alloc_def bmap_same_def)
  ultimately show ?thesis
    using step same assms(4) inode_step_trans [OF assms(1) step(1)] by (simp add: bmap_alloc_def)
qed

lemma bmap_alloc_mapped:
  assumes "fs_ok s" "vn_at p s = Some v" "inode_ok s (sv_i v)" "fb < 143"
    "b = bmap_of (disk s) (sv_i v) ! fb" "b \<noteq> 0" "dev_step s (disk s) t"
  shows "bmap_alloc p fb b s v t v"
proof -
  note d = dev_step_simps [OF assms(7)]
  have "inode_ok t (sv_i v)" using assms(3) by (simp add: inode_ok_def d)
  then have "inode_step p s v t v"
    using assms unfolding inode_step_def by (auto simp: d)
  then show ?thesis using assms by (simp add: bmap_alloc_def d)
qed

text \<open>The whole of \<open>sfs_bmap\<close> with \<open>doalloc\<close>.\<close>

definition bmap_failed :: "nat \<Rightarrow> nat \<Rightarrow> sfs_fs \<Rightarrow> sfs_vnode \<Rightarrow> errno \<Rightarrow> sfs_fs \<Rightarrow> bool" where
  "bmap_failed p fb s v e t \<longleftrightarrow>
     e = EFBIG \<and> t = s \<and> 143 \<le> fb \<or>
     e = ENOSPC \<and> fb < 143 \<and> bmap_of (disk s) (sv_i v) ! fb = 0 \<and>
       (\<exists>v'. inode_step p s v t v' \<and> bmap_same s v t v')"

lemma bmap_same_refl [simp]: "bmap_same s v s v"
  by (simp add: bmap_same_def)

lemma sfs_bmap_handback_alloc:
  assumes "bmap_alloc p fb b s v t v'"
  shows "wp (sfs_bmap_handback b) (\<lambda>r t'. r = b \<and> t' = t) E t"
proof -
  have s: "inode_step p s v t v'" "fb < 143" "b \<noteq> 0" "bmap_of (disk t) (sv_i v') = (bmap_of (disk s) (sv_i v))[fb := b]"
    using assms by (simp_all add: bmap_alloc_def)
  then have t: "fs_ok t" "inode_ok t (sv_i v')" by (simp_all add: inode_step_def)
  then have "length (bmap_of (disk t) (sv_i v')) = 143" by (simp add: length_bmap_of inode_ok_def)
  then have "b = bmap_of (disk t) (sv_i v') ! fb" using s by simp
  from inode_ok_nth [OF t s(2) this s(3)] show ?thesis
    by (intro sfs_bmap_handback_wp [OF t(1)]) simp
qed

lemma bmap_direct_alloc_wp:
  assumes ok: "fs_ok s" and v: "vn_at p s = Some v" "inode_ok s (sv_i v)" and fb: "fb < 15"
  shows "wp (sfs_bmap p fb True) (\<lambda>b t. \<exists>v'. bmap_alloc p fb b s v t v') (bmap_failed p fb s v) s"
proof -
  have wf: "dinode_wf (sv_i v)" using v by (simp add: inode_ok_def)
  note m = bmap_of_direct [OF wf fb, of "disk s"]
  show ?thesis
  proof (cases "sfi_direct (sv_i v) ! fb = 0")
    case True
    have "wp (sfs_bmap_handback b) (\<lambda>r t'. \<exists>v'. bmap_alloc p fb r s v t' v') (bmap_failed p fb s v)
        (vn_put p (v\<lparr>sv_i := (sv_i v)\<lparr>sfi_direct := (sfi_direct (sv_i v))[fb := b]\<rparr>, sv_dirty := True\<rparr>) t)"
      if t: "balloc_step s b t" for b t
      using bmap_alloc_direct [OF ok v fb True t]
      by (intro wp_conseq [OF sfs_bmap_handback_alloc]) auto
    moreover have "vn_at p t = vn_at p s" if "balloc_step s b t" for b t
      using that by (simp add: balloc_step_def vn_at_def)
    ultimately show ?thesis
      using fb v True
      by (simp add: sfs_bmap_def sfs_consts)
        (rule wp_conseq [OF balloc_wp [OF ok]];
          use inode_step_refl [OF ok v] bmap_same_refl m in \<open>auto simp: bmap_failed_def\<close>)
  next
    case False
    have "bmap_alloc p fb (sfi_direct (sv_i v) ! fb) s v s v"
      by (rule bmap_alloc_mapped [OF ok v]) (use m False fb dev_step_refl [OF ok] in auto)
    then have "wp (sfs_bmap_handback (sfi_direct (sv_i v) ! fb))
        (\<lambda>r t'. \<exists>v'. bmap_alloc p fb r s v t' v') (bmap_failed p fb s v) s"
      by (intro wp_conseq [OF sfs_bmap_handback_alloc]) auto
    then show ?thesis
      using fb v False by (simp add: sfs_bmap_def sfs_consts)
  qed
qed

text \<open>The entry of a loaded indirect block.\<close>

lemma bmap_indirect_entry:
  assumes ok: "fs_ok s" and v: "vn_at p s = Some v" "inode_ok s (sv_i v)" and fb: "15 \<le> fb" "fb < 143"
    and ib: "ib = sfi_indirect (sv_i v)" "ib \<noteq> 0" and idbuf: "idbuf = idwords (disk s) ib"
  shows "wp (kbind (if idbuf ! (fb - 15) = 0 then
                      kbind sfs_balloc (\<lambda>block.
                      kthen (sfs_writeblock ib (words_enc (idbuf[fb - 15 := block]))) (kret block))
                    else kret (idbuf ! (fb - 15))) sfs_bmap_handback)
    (\<lambda>b t. bmap_alloc p fb b s v t v)
    (\<lambda>e t. e = ENOSPC \<and> bmap_of (disk s) (sv_i v) ! fb = 0 \<and> t = s) s"
proof -
  have wf: "dinode_wf (sv_i v)" using v by (simp add: inode_ok_def)
  have m: "bmap_of (disk s) (sv_i v) ! fb = idbuf ! (fb - 15)"
    using bmap_of_indirect [OF wf fb(1)] ib idbuf by simp
  note ind = inode_ok_indirect [OF v(2), folded ib(1), OF ib(2)]
  show ?thesis
  proof (cases "idbuf ! (fb - 15) = 0")
    case True
    have len: "length (idbuf[fb - 15 := b]) = 128" for b using ok by (simp add: idbuf)
    have wr: "wp (sfs_writeblock ib (words_enc (idbuf[fb - 15 := b])))
        (\<lambda>_. wp (sfs_bmap_handback b) (\<lambda>b t. bmap_alloc p fb b s v t v) E) E t"
      if t: "balloc_step s b t" for b t E
    proof (rule wp_conseq [OF writeblock_wp], goal_cases)
      case (4 x u)
      then have "bmap_alloc p fb b s v u v"
        using True m by (intro bmap_alloc_indirect [OF ok v fb _ ib t]) (simp_all add: idbuf)
      then show ?case by (intro wp_conseq [OF sfs_bmap_handback_alloc]) auto
    qed (use t ind len in \<open>auto simp: balloc_step_def fs_same_def\<close>)
    then show ?thesis
      using True m by simp (rule wp_conseq [OF balloc_wp [OF ok]]; simp)
  next
    case False
    have "bmap_alloc p fb (idbuf ! (fb - 15)) s v s v"
      by (rule bmap_alloc_mapped [OF ok v]) (use m False fb dev_step_refl [OF ok] in auto)
    then have "wp (sfs_bmap_handback (idbuf ! (fb - 15))) (\<lambda>b t. bmap_alloc p fb b s v t v) E s" for E
      by (intro wp_conseq [OF sfs_bmap_handback_alloc]) auto
    then show ?thesis using False by simp
  qed
qed

lemma dev_step_inode:
  assumes "dev_step s (disk s) t" "fs_ok s" "vn_at p s = Some v" "inode_ok s (sv_i v)"
  shows "inode_step p s v t v" "bmap_same s v t v" "fs_ok t" "vn_at p t = Some v" "inode_ok t (sv_i v)"
proof -
  note d = dev_step_simps [OF assms(1)]
  show "fs_ok t" "vn_at p t = Some v" "bmap_same s v t v" using assms(2-) by (simp_all add: d bmap_same_def)
  show ok: "inode_ok t (sv_i v)" using assms(4) by (simp add: inode_ok_def d)
  then show "inode_step p s v t v"
    using assms unfolding inode_step_def by (auto simp: d)
qed

lemma sfs_bmap_alloc:
  assumes ok: "fs_ok s" and v: "vn_at p s = Some v" "inode_ok s (sv_i v)"
  shows "wp (sfs_bmap p fb True) (\<lambda>b t. \<exists>v'. bmap_alloc p fb b s v t v') (bmap_failed p fb s v) s"
proof -
  have wf: "dinode_wf (sv_i v)" using v by (simp add: inode_ok_def)
  consider "fb < 15" | "143 \<le> fb" | "15 \<le> fb" "fb < 143" "sfi_indirect (sv_i v) = 0"
    | "15 \<le> fb" "fb < 143" "sfi_indirect (sv_i v) \<noteq> 0" by linarith
  then show ?thesis
  proof cases
    case 1
    then show ?thesis by (rule bmap_direct_alloc_wp [OF ok v])
  next
    case 2
    then have "1 \<le> (fb - 15) div 128" using div_le_mono [of 128 "fb - 15" 128] by simp
    with 2 show ?thesis using v by (simp add: sfs_bmap_def sfs_consts Let_def bmap_failed_def)
  next
    case 3
    have m: "bmap_of (disk s) (sv_i v) ! fb = 0"
      using 3 by (simp add: bmap_of_indirect [OF wf] idwords_def)
    let ?z = "replicate 128 0 :: nat list"
    have rest: "wp (kbind (if ?z ! (fb - 15) = 0 then
                      kbind sfs_balloc (\<lambda>block.
                      kthen (sfs_writeblock ib (words_enc (?z[fb - 15 := block]))) (kret block))
                    else kret (?z ! (fb - 15))) sfs_bmap_handback)
        (\<lambda>b t. \<exists>v'. bmap_alloc p fb b s v t v') (bmap_failed p fb s v) (vn_put p v' t)"
      if t: "balloc_step s ib t"
        "v' = v\<lparr>sv_i := (sv_i v)\<lparr>sfi_indirect := ib\<rparr>, sv_dirty := True\<rparr>" for ib t v'
    proof -
      note new = bmap_new_indirect [OF ok v 3(3) t(1), folded t(2)]
      have s1: "fs_ok (vn_put p v' t)" "inode_ok (vn_put p v' t) (sv_i v')" using new by (auto simp: inode_step_def)
      have at: "vn_at p (vn_put p v' t) = Some v'" using inode_step_vn_at new v(1) by blast
      have ib: "ib = sfi_indirect (sv_i v')" "ib \<noteq> 0" "replicate 128 0 = idwords (disk (vn_put p v' t)) ib"
        using t by (simp_all add: balloc_step_def idwords_def words_dec_zeros)
      show ?thesis
        by (rule wp_conseq [OF bmap_indirect_entry [OF s1(1) at s1(2) 3(1,2) ib]])
          (use bmap_alloc_compose [of p s v "vn_put p v' t" v' fb] new m 3 in \<open>auto simp: bmap_failed_def\<close>)
    qed
    moreover have "vn_at p t = vn_at p s" if "balloc_step s b t" for b t
      using that by (simp add: balloc_step_def vn_at_def)
    ultimately show ?thesis
      using 3 v
      by (simp add: sfs_bmap_def sfs_consts Let_def)
        (rule wp_conseq [OF balloc_wp [OF ok]];
          use inode_step_refl [OF ok v] m in \<open>auto simp: bmap_failed_def\<close>)
  next
    case 4
    let ?ib = "sfi_indirect (sv_i v)"
    have rest: "wp (kbind (if words_dec r ! (fb - 15) = 0 then
                      kbind sfs_balloc (\<lambda>block.
                      kthen (sfs_writeblock ?ib (words_enc ((words_dec r)[fb - 15 := block]))) (kret block))
                    else kret (words_dec r ! (fb - 15))) sfs_bmap_handback)
        (\<lambda>b t. \<exists>v'. bmap_alloc p fb b s v t v') (bmap_failed p fb s v) t"
      if t: "dev_step s (disk s) t" "r = disk s ?ib" for r t
    proof -
      note s1 = dev_step_inode [OF t(1) ok v]
      have r: "words_dec r = idwords (disk t) ?ib"
        using t 4(3) dev_step_simps(1) [OF t(1)] by (simp add: idwords_def)
      have comp: "bmap_alloc p fb b s v u v" if "bmap_alloc p fb b t v u v" for b u
      proof (cases "bmap_of (disk s) (sv_i v) ! fb = 0")
        case True
        then show ?thesis by (rule bmap_alloc_compose [OF s1(1,2) that])
      next
        case False
        then show ?thesis using that s1(1,2) inode_step_trans [OF s1(1), of u v]
          by (simp add: bmap_alloc_def dev_step_simps [OF t(1)])
      qed
      show ?thesis
        by (rule wp_conseq [OF bmap_indirect_entry [OF s1(3-5) 4(1,2) refl 4(3) r]])
          (use comp s1(1,2) 4 dev_step_simps(1) [OF t(1)] in \<open>auto simp: bmap_failed_def\<close>)
    qed
    then show ?thesis
      using 4 v
      by (simp add: sfs_bmap_def sfs_consts Let_def)
        (rule wp_conseq [OF readblock_wp [OF ok]];
          use inode_ok_indirect [OF v(2) 4(3)] in \<open>auto simp: iobuf_zeros\<close>)
  qed
qed

end
