(* ===== verification/Sfs_Trunc.thy ===== *)
theory Sfs_Trunc
  imports Sfs_Bmap
begin

text \<open>
  What \<open>sfs_itrunc\<close> (\<open>kern/fs/sfs/sfs_bmap.c\<close>, modelled in \<open>Sfs_Bmap\<close>) does: which blocks
  it frees, and that the map of the file and the free map stay sound.
\<close>

text \<open>
  \<open>inode_shrink p s v t v'\<close>: the file at \<open>p\<close> gave up some of its blocks, which are free in \<open>t\<close>;
  blocks that were not the file's are untouched.
\<close>

definition inode_shrink :: "nat \<Rightarrow> sfs_fs \<Rightarrow> sfs_vnode \<Rightarrow> sfs_fs \<Rightarrow> sfs_vnode \<Rightarrow> bool" where
  "inode_shrink p s v t v' \<longleftrightarrow>
     fs_ok t \<and> fs_same s t \<and> vn_heap t = (vn_heap s)[p := Some v'] \<and> inode_ok t (sv_i v') \<and>
     inode_blocks (disk t) (sv_i v') \<subseteq> inode_blocks (disk s) (sv_i v) \<and>
     used t = used s - (inode_blocks (disk s) (sv_i v) - inode_blocks (disk t) (sv_i v')) \<and>
     (\<forall>c. c \<noteq> sfi_indirect (sv_i v) \<or> c = 0 \<longrightarrow> disk t c = disk s c) \<and>
     bm_nbits (sfs_freemap t) = bm_nbits (sfs_freemap s) \<and>
     (sfs_freemapdirty t \<or> \<not> sfs_freemapdirty s \<and> sfs_freemap t = sfs_freemap s) \<and>
     (sv_dirty v' \<or> \<not> sv_dirty v \<and> sv_i v' = sv_i v) \<and>
     (sfi_indirect (sv_i v') = sfi_indirect (sv_i v) \<or> sfi_indirect (sv_i v') = 0) \<and>
     sfi_type (sv_i v') = sfi_type (sv_i v) \<and> sfi_linkcount (sv_i v') = sfi_linkcount (sv_i v) \<and>
     sfi_waste (sv_i v') = sfi_waste (sv_i v) \<and>
     vn_refcount v' = vn_refcount v \<and> vn_ops v' = vn_ops v \<and> vn_fs v' = vn_fs v \<and> sv_ino v' = sv_ino v"

lemma inode_shrink_refl:
  "fs_ok s \<Longrightarrow> vn_at p s = Some v \<Longrightarrow> inode_ok s (sv_i v) \<Longrightarrow> inode_shrink p s v s v"
  by (simp add: inode_shrink_def)

lemma inode_shrink_trans:
  assumes "inode_shrink p s v t v'" "inode_shrink p t v' u v''"
    and "sfi_indirect (sv_i v') = sfi_indirect (sv_i v)"
  shows "inode_shrink p s v u v''"
proof -
  let ?S = "inode_blocks (disk s) (sv_i v)" and ?T = "inode_blocks (disk t) (sv_i v')"
    and ?U = "inode_blocks (disk u) (sv_i v'')"
  note a = assms(1) [unfolded inode_shrink_def] and b = assms(2) [unfolded inode_shrink_def]
  have sets: "?T \<subseteq> ?S" "?U \<subseteq> ?T" "used t = used s - (?S - ?T)" "used u = used t - (?T - ?U)"
    using a b by blast+
  have "?U \<subseteq> ?S" "used u = used s - (?S - ?U)" using sets by blast+
  moreover have "vn_heap u = (vn_heap s)[p := Some v'']" using a b by simp
  moreover have "fs_same s u" using a b by (simp add: fs_same_def)
  moreover have "sfs_freemapdirty u \<or> \<not> sfs_freemapdirty s \<and> sfs_freemap u = sfs_freemap s"
    "sv_dirty v'' \<or> \<not> sv_dirty v \<and> sv_i v'' = sv_i v"
    using a b by auto
  moreover have "disk u c = disk s c" if "c \<noteq> sfi_indirect (sv_i v) \<or> c = 0" for c
    using that a b assms(3) by simp
  ultimately show ?thesis
    unfolding inode_shrink_def using a b assms(3) by simp
qed

lemma inode_shrink_vn_at:
  assumes "inode_shrink p s v t v'" "vn_at p s = Some v"
  shows "vn_at p t = Some v'" "q \<noteq> p \<Longrightarrow> vn_at q t = vn_at q s"
  using assms by (auto simp: inode_shrink_def vn_at_def split: if_splits)

subsection \<open>Direct blocks\<close>

lemma vn_at_cong: "vn_heap t = vn_heap s \<Longrightarrow> vn_at p t = vn_at p s"
  by (simp add: vn_at_def)

text \<open>The state after a block was freed.\<close>

definition bfree_step :: "sfs_fs \<Rightarrow> nat set \<Rightarrow> sfs_fs \<Rightarrow> bool" where
  "bfree_step s B t \<longleftrightarrow> fs_ok t \<and> fs_same s t \<and> vn_heap t = vn_heap s \<and> used t = used s - B \<and> disk t = disk s \<and>
     bm_nbits (sfs_freemap t) = bm_nbits (sfs_freemap s) \<and>
     (sfs_freemapdirty t \<or> \<not> sfs_freemapdirty s \<and> sfs_freemap t = sfs_freemap s)"

lemma bfree_wp:
  "fs_ok s \<Longrightarrow> b \<in> used s \<Longrightarrow> b < nblocks s \<Longrightarrow> b \<noteq> 0 \<Longrightarrow>
   wp (sfs_bfree b) (\<lambda>_ t. bfree_step s {b} t \<and> sfs_freemapdirty t) E s"
  by (rule wp_conseq [OF sfs_bfree_wp]) (simp_all add: bfree_step_def)

lemma set_clear:
  assumes "no_share bs" "i < length bs" "bs ! i \<noteq> 0"
  shows "set (bs[i := 0]) - {0} = set bs - {0, bs ! i}"
proof -
  have "x \<in> set (bs[i := 0]) \<longleftrightarrow> x \<in> set bs \<and> x \<noteq> bs ! i" if "x \<noteq> 0" for x
  proof
    assume "x \<in> set (bs[i := 0])"
    then obtain k where k: "k < length bs" "bs[i := 0] ! k = x" by (auto simp: in_set_conv_nth)
    then have "k \<noteq> i" "bs ! k = x" using that assms by (auto simp: nth_list_update)
    then show "x \<in> set bs \<and> x \<noteq> bs ! i"
      using assms k that unfolding no_share_nth by (metis nth_mem)
  next
    assume x: "x \<in> set bs \<and> x \<noteq> bs ! i"
    then obtain k where k: "k < length bs" "bs ! k = x" by (auto simp: in_set_conv_nth)
    then have "bs[i := 0] ! k = x" using x by (cases "k = i") auto
    then show "x \<in> set (bs[i := 0])" using k by (metis length_list_update nth_mem)
  qed
  then show ?thesis by blast
qed

lemma shrink_direct:
  assumes ok: "fs_ok s" and v: "vn_at p s = Some v" "inode_ok s (sv_i v)"
    and i: "i < 15" "sfi_direct (sv_i v) ! i = b" "b \<noteq> 0" and t: "bfree_step s {b} t" "sfs_freemapdirty t"
  defines "v' \<equiv> v\<lparr>sv_i := (sv_i v)\<lparr>sfi_direct := (sfi_direct (sv_i v))[i := 0]\<rparr>, sv_dirty := True\<rparr>"
  shows "inode_shrink p s v (vn_put p v' t) v' \<and>
    bmap_of (disk t) (sv_i v') = (bmap_of (disk s) (sv_i v))[i := 0]"
proof -
  let ?m = "bmap_of (disk s) (sv_i v)"
  have wf: "dinode_wf (sv_i v)" using v by (simp add: inode_ok_def)
  note len = length_bmap_of [OF ok wf]
  have d: "disk t = disk s" using t by (simp add: bfree_step_def)
  have m: "bmap_of (disk t) (sv_i v') = ?m[i := 0]"
    using wf i d by (simp add: v'_def bmap_of_def list_update_append dinode_wf_def)
  have b: "?m ! i = b" using i by (simp add: bmap_of_direct [OF wf])
  have ns: "no_share (sfi_indirect (sv_i v) # ?m)" using v(2) by (simp add: inode_ok_def)
  have bm: "b \<in> set ?m" using b i len by auto
  have ib: "sfi_indirect (sv_i v) \<noteq> b" using ns bm i(3) by auto
  have "set (?m[i := 0]) - {0} = set ?m - {0, b}"
    using set_clear [of ?m i] ns i len b by simp
  then have blocks: "inode_blocks (disk t) (sv_i v') = inode_blocks (disk s) (sv_i v) - {b}"
    unfolding inode_blocks_def m using ib i(3) by (simp add: v'_def) blast
  have "dinode_wf (sv_i v')" using dinode_wf_direct [OF wf, of 0] by (simp add: v'_def)
  moreover have "no_share (sfi_indirect (sv_i v') # bmap_of (disk t) (sv_i v'))"
    using ns no_share_clear [of ?m i] set_update_subset_insert [of ?m i 0] unfolding m
    by (auto simp: v'_def)
  ultimately have ok': "inode_ok t (sv_i v')"
    using v(2) t unfolding inode_ok_def blocks by (auto simp: bfree_step_def fs_same_def)
  have "b \<in> inode_blocks (disk s) (sv_i v)" using bm i by (simp add: inode_blocks_def)
  then have "inode_blocks (disk s) (sv_i v) - (inode_blocks (disk s) (sv_i v) - {b}) = {b}" by blast
  then have "inode_shrink p s v (vn_put p v' t) v'"
    using t ok' blocks unfolding inode_shrink_def by (auto simp: bfree_step_def v'_def)
  with m show ?thesis by simp
qed

text \<open>The direct part of a map with the entries from \<open>i\<close> on that are at or behind \<open>bl\<close> cleared.\<close>

definition clear_direct :: "nat \<Rightarrow> nat \<Rightarrow> nat list \<Rightarrow> nat list" where
  "clear_direct bl i m = map (\<lambda>k. if i \<le> k \<and> k < 15 \<and> bl \<le> k then 0 else m ! k) [0 ..< length m]"

lemma clear_direct_done: "15 \<le> i \<Longrightarrow> clear_direct bl i m = m"
  by (rule nth_equalityI) (auto simp: clear_direct_def)

lemma clear_direct_step:
  "i < length m \<Longrightarrow> i < 15 \<Longrightarrow>
   clear_direct bl i m = clear_direct bl (Suc i) (if bl \<le> i \<and> m ! i \<noteq> 0 then m[i := 0] else m)"
  by (rule nth_equalityI) (auto simp: clear_direct_def nth_list_update Suc_le_eq le_less)

lemma sfs_itrunc_direct_wp:
  assumes "fs_ok s" "vn_at p s = Some v" "inode_ok s (sv_i v)"
  shows "wp (sfs_itrunc_direct p bl i)
    (\<lambda>_ t. \<exists>v'. inode_shrink p s v t v' \<and> sfi_indirect (sv_i v') = sfi_indirect (sv_i v) \<and> disk t = disk s \<and>
       bmap_of (disk t) (sv_i v') = clear_direct bl i (bmap_of (disk s) (sv_i v))) E s"
  using assms
proof (induction "15 - i" arbitrary: i s v)
  case 0
  then have "15 \<le> i" by simp
  then show ?case
    using 0 inode_shrink_refl by (subst sfs_itrunc_direct.simps) (auto simp: SFS_NDIRECT_def clear_direct_done)
next
  case (Suc n)
  let ?m = "bmap_of (disk s) (sv_i v)" and ?b = "sfi_direct (sv_i v) ! i"
  let ?Q = "\<lambda>_ t. \<exists>v'. inode_shrink p s v t v' \<and> sfi_indirect (sv_i v') = sfi_indirect (sv_i v) \<and> disk t = disk s \<and>
       bmap_of (disk t) (sv_i v') = clear_direct bl i ?m"
  have i: "i < 15" "n = 15 - Suc i" using Suc.hyps(2) by simp_all
  have wf: "dinode_wf (sv_i v)" using Suc.prems by (simp add: inode_ok_def)
  note b = bmap_of_direct [OF wf i(1), of "disk s"]
  note step = clear_direct_step [of i ?m bl, unfolded b]
  have len: "length ?m = 143" using Suc.prems wf by (simp add: length_bmap_of)
  have rest: "wp (sfs_itrunc_direct p bl (Suc i)) ?Q E t"
    if t: "inode_shrink p s v t v'" "sfi_indirect (sv_i v') = sfi_indirect (sv_i v)" "disk t = disk s"
      "bmap_of (disk t) (sv_i v') = (if bl \<le> i \<and> ?b \<noteq> 0 then ?m[i := 0] else ?m)" for t v'
  proof -
    have "fs_ok t" "inode_ok t (sv_i v')" using t(1) by (simp_all add: inode_shrink_def)
    moreover have "vn_at p t = Some v'" using inode_shrink_vn_at [OF t(1)] Suc.prems by blast
    ultimately have "wp (sfs_itrunc_direct p bl (Suc i))
      (\<lambda>_ u. \<exists>v''. inode_shrink p t v' u v'' \<and> sfi_indirect (sv_i v'') = sfi_indirect (sv_i v') \<and> disk u = disk t \<and>
         bmap_of (disk u) (sv_i v'') = clear_direct bl (Suc i) (bmap_of (disk t) (sv_i v'))) E t"
      by (intro Suc.hyps(1) [OF i(2)])
    then show ?thesis
    proof (rule wp_conseq, goal_cases)
      case (1 x u)
      then obtain v'' where "inode_shrink p t v' u v''" "sfi_indirect (sv_i v'') = sfi_indirect (sv_i v')"
        "disk u = disk t" "bmap_of (disk u) (sv_i v'') = clear_direct bl (Suc i) (bmap_of (disk t) (sv_i v'))"
        by blast
      then show ?case
        using t step i len inode_shrink_trans [OF t(1) _ t(2)] by (intro exI [of _ v'']) auto
    qed simp
  qed
  show ?case
  proof (cases "bl \<le> i \<and> ?b \<noteq> 0")
    case True
    have bb: "?b < nblocks s" "?b \<in> used s"
      using inode_ok_nth [OF Suc.prems(1,3), of i ?b] b i True by simp_all
    let ?v = "v\<lparr>sv_i := (sv_i v)\<lparr>sfi_direct := (sfi_direct (sv_i v))[i := 0]\<rparr>, sv_dirty := True\<rparr>"
    have "wp (sfs_itrunc_direct p bl (Suc i)) ?Q E (vn_put p ?v t) \<and> vn_at p t = Some v"
      if t: "bfree_step s {?b} t" "sfs_freemapdirty t" for t
    proof -
      note sh = shrink_direct [OF Suc.prems i(1) refl conjunct2 [OF True] t]
      have "wp (sfs_itrunc_direct p bl (Suc i)) ?Q E (vn_put p ?v t)"
        by (rule rest [of _ ?v]) (use sh True t in \<open>auto simp: bfree_step_def\<close>)
      moreover have "vn_at p t = Some v" using t Suc.prems vn_at_cong [of t s] by (simp add: bfree_step_def)
      ultimately show ?thesis ..
    qed
    then show ?thesis
      using Suc.prems i True
      by (subst sfs_itrunc_direct.simps)
        (simp add: SFS_NDIRECT_def, rule wp_conseq [OF bfree_wp [OF Suc.prems(1) bb(2,1)]]; auto)
  next
    case False
    have "wp (sfs_itrunc_direct p bl (Suc i)) ?Q E s"
      using False inode_shrink_refl [OF Suc.prems] by (intro rest [of _ v]) auto
    then show ?thesis
      using Suc.prems i False by (subst sfs_itrunc_direct.simps) (auto simp: SFS_NDIRECT_def)
  qed
qed

subsection \<open>The indirect block\<close>

definition clear_ind :: "nat \<Rightarrow> nat \<Rightarrow> nat list \<Rightarrow> nat list" where
  "clear_ind bl j ws = map (\<lambda>k. if j \<le> k \<and> bl < 15 + k then 0 else ws ! k) [0 ..< length ws]"

definition freed_ind :: "nat \<Rightarrow> nat \<Rightarrow> nat list \<Rightarrow> nat set" where
  "freed_ind bl j ws = {ws ! k |k. j \<le> k \<and> k < length ws \<and> bl < 15 + k} - {0}"

lemma clear_ind_length [simp]: "length (clear_ind bl j ws) = length ws"
  by (simp add: clear_ind_def)

lemma clear_ind_nth:
  "k < length ws \<Longrightarrow> clear_ind bl j ws ! k = (if j \<le> k \<and> bl < 15 + k then 0 else ws ! k)"
  by (simp add: clear_ind_def)

lemma clear_ind_done: "length ws \<le> j \<Longrightarrow> clear_ind bl j ws = ws"
  by (rule nth_equalityI) (auto simp: clear_ind_nth)

lemma clear_ind_step:
  "j < length ws \<Longrightarrow>
   clear_ind bl j ws = clear_ind bl (Suc j) (if bl < 15 + j \<and> ws ! j \<noteq> 0 then ws[j := 0] else ws)"
  by (rule nth_equalityI) (auto simp: clear_ind_nth nth_list_update Suc_le_eq le_less)

lemma freed_ind_done: "length ws \<le> j \<Longrightarrow> freed_ind bl j ws = {}"
  by (auto simp: freed_ind_def)

lemma freed_ind_skip: "\<not> (bl < 15 + j \<and> ws ! j \<noteq> 0) \<Longrightarrow> freed_ind bl j ws = freed_ind bl (Suc j) ws"
proof -
  assume a: "\<not> (bl < 15 + j \<and> ws ! j \<noteq> 0)"
  have "(\<exists>k. x = ws ! k \<and> j \<le> k \<and> k < length ws \<and> bl < 15 + k) \<longleftrightarrow>
        (\<exists>k. x = ws ! k \<and> Suc j \<le> k \<and> k < length ws \<and> bl < 15 + k)" if "x \<noteq> 0" for x
    using a that by (metis Suc_leD Suc_leI le_neq_implies_less)
  then show ?thesis unfolding freed_ind_def by blast
qed

lemma freed_ind_free:
  assumes "no_share ws" "j < length ws" "bl < 15 + j" "ws ! j \<noteq> 0"
  shows "freed_ind bl (Suc j) (ws[j := 0]) = freed_ind bl j ws - {ws ! j}"
    and "ws ! j \<in> freed_ind bl j ws"
proof -
  show "ws ! j \<in> freed_ind bl j ws" using assms by (auto simp: freed_ind_def)
  have "(\<exists>k. x = ws[j := 0] ! k \<and> Suc j \<le> k \<and> k < length ws \<and> bl < 15 + k) \<longleftrightarrow>
        (\<exists>k. x = ws ! k \<and> j \<le> k \<and> k < length ws \<and> bl < 15 + k) \<and> x \<noteq> ws ! j" if x: "x \<noteq> 0" for x
  proof
    assume "\<exists>k. x = ws[j := 0] ! k \<and> Suc j \<le> k \<and> k < length ws \<and> bl < 15 + k"
    then obtain k where k: "x = ws ! k" "j < k" "k < length ws" "bl < 15 + k" by auto
    moreover have "x \<noteq> ws ! j" using k assms x unfolding no_share_nth by (metis less_irrefl)
    ultimately show "(\<exists>k. x = ws ! k \<and> j \<le> k \<and> k < length ws \<and> bl < 15 + k) \<and> x \<noteq> ws ! j" by auto
  next
    assume "(\<exists>k. x = ws ! k \<and> j \<le> k \<and> k < length ws \<and> bl < 15 + k) \<and> x \<noteq> ws ! j"
    then obtain k where k: "x = ws ! k" "j \<le> k" "k < length ws" "bl < 15 + k" "x \<noteq> ws ! j" by auto
    then have "k \<noteq> j" by auto
    then show "\<exists>k. x = ws[j := 0] ! k \<and> Suc j \<le> k \<and> k < length ws \<and> bl < 15 + k"
      using k by (intro exI [of _ k]) auto
  qed
  then show "freed_ind bl (Suc j) (ws[j := 0]) = freed_ind bl j ws - {ws ! j}"
    unfolding freed_ind_def by auto
qed

lemma bfree_step_trans: "bfree_step s B t \<Longrightarrow> bfree_step t C u \<Longrightarrow> bfree_step s (B \<union> C) u"
  by (auto simp: bfree_step_def fs_same_def)

lemma bfree_step_refl: "fs_ok s \<Longrightarrow> bfree_step s {} s"
  by (simp add: bfree_step_def)

lemma ex_from_split: "(\<exists>k\<ge>j. k < n \<and> P k) \<longleftrightarrow> (j < n \<and> P j) \<or> (\<exists>k\<ge>Suc j. k < n \<and> P k)"
  by (metis Suc_leD Suc_leI le_neq_implies_less order_refl)

lemma sfs_itrunc_indirect_wp:
  assumes "fs_ok s" "length ws = 128" "no_share ws" "set ws \<subseteq> {..<nblocks s}" "freed_ind bl j ws \<subseteq> used s"
  shows "wp (sfs_itrunc_indirect bl j ws h d)
    (\<lambda>(ws', h', d') t. ws' = clear_ind bl j ws \<and> bfree_step s (freed_ind bl j ws) t \<and>
       (h' \<longleftrightarrow> h \<or> (\<exists>k\<ge>j. k < 128 \<and> ws' ! k \<noteq> 0)) \<and> (d' \<longleftrightarrow> d \<or> freed_ind bl j ws \<noteq> {})) E s"
  using assms
proof (induction "128 - j" arbitrary: j ws h d s)
  case 0
  then show ?case
    by (subst sfs_itrunc_indirect.simps)
      (auto simp: SFS_DBPERIDB_def clear_ind_done freed_ind_done bfree_step_refl)
next
  case (Suc n)
  have j: "j < 128" "n = 128 - Suc j" using Suc.hyps(2) by simp_all
  have jl: "j < length ws" using j Suc.prems(2) by simp
  note cstep = clear_ind_step [OF jl, of bl]
  show ?case
  proof (cases "bl < 15 + j \<and> ws ! j \<noteq> 0")
    case False
    have "wp (sfs_itrunc_indirect bl (Suc j) ws (if ws ! j \<noteq> 0 then True else h) d)
      (\<lambda>(ws', h', d') t. ws' = clear_ind bl (Suc j) ws \<and> bfree_step s (freed_ind bl (Suc j) ws) t \<and>
        (h' \<longleftrightarrow> (if ws ! j \<noteq> 0 then True else h) \<or> (\<exists>k\<ge>Suc j. k < 128 \<and> ws' ! k \<noteq> 0)) \<and>
        (d' \<longleftrightarrow> d \<or> freed_ind bl (Suc j) ws \<noteq> {})) E s"
      using Suc.prems freed_ind_skip [OF False] by (intro Suc.hyps(1) [OF j(2)]) simp_all
    then have "wp (sfs_itrunc_indirect bl (Suc j) ws (if ws ! j \<noteq> 0 then True else h) d)
      (\<lambda>(ws', h', d') t. ws' = clear_ind bl j ws \<and> bfree_step s (freed_ind bl j ws) t \<and>
       (h' \<longleftrightarrow> h \<or> (\<exists>k\<ge>j. k < 128 \<and> ws' ! k \<noteq> 0)) \<and> (d' \<longleftrightarrow> d \<or> freed_ind bl j ws \<noteq> {})) E s"
      by (rule wp_conseq)
        (use False cstep freed_ind_skip [OF False] ex_from_split [of j 128] j jl in
          \<open>auto simp: clear_ind_nth\<close>)
    then show ?thesis
      using j False by (subst sfs_itrunc_indirect.simps) (auto simp: sfs_consts)
  next
    case True
    let ?b = "ws ! j" and ?ws = "ws[j := 0]"
    note fr = freed_ind_free [OF Suc.prems(3) jl conjunct1 [OF True] conjunct2 [OF True]]
    have b: "?b \<in> used s" "?b < nblocks s" "?b \<noteq> 0" using fr(2) Suc.prems(4,5) True nth_mem [OF jl] by auto
    have rest: "wp (sfs_itrunc_indirect bl (Suc j) ?ws h True)
      (\<lambda>(ws', h', d') u. ws' = clear_ind bl j ws \<and> bfree_step s (freed_ind bl j ws) u \<and>
       (h' \<longleftrightarrow> h \<or> (\<exists>k\<ge>j. k < 128 \<and> ws' ! k \<noteq> 0)) \<and> (d' \<longleftrightarrow> d \<or> freed_ind bl j ws \<noteq> {})) E t"
      if t: "bfree_step s {?b} t" for t
    proof -
      have "wp (sfs_itrunc_indirect bl (Suc j) ?ws h True)
      (\<lambda>(ws', h', d') u. ws' = clear_ind bl (Suc j) ?ws \<and> bfree_step t (freed_ind bl (Suc j) ?ws) u \<and>
        (h' \<longleftrightarrow> h \<or> (\<exists>k\<ge>Suc j. k < 128 \<and> ws' ! k \<noteq> 0)) \<and>
        (d' \<longleftrightarrow> True \<or> freed_ind bl (Suc j) ?ws \<noteq> {})) E t"
      proof (intro Suc.hyps(1) [OF j(2)])
        show "fs_ok t" using t by (simp add: bfree_step_def)
        show "no_share ?ws" using Suc.prems(3) by (rule no_share_clear)
        show "freed_ind bl (Suc j) ?ws \<subseteq> used t"
          using Suc.prems(5) t unfolding fr(1) by (auto simp: bfree_step_def)
        show "set ?ws \<subseteq> {..<nblocks t}"
          using Suc.prems(4) b(2) t set_update_subset_insert [of ws j 0]
          by (auto simp: bfree_step_def fs_same_def)
      qed (use Suc.prems in simp)
      moreover have "{?b} \<union> freed_ind bl (Suc j) ?ws = freed_ind bl j ws" using fr by blast
      from bfree_step_trans [OF t, of "freed_ind bl (Suc j) ?ws", unfolded this]
      have "bfree_step s (freed_ind bl j ws) u" if "bfree_step t (freed_ind bl (Suc j) ?ws) u" for u
        using that .
      ultimately show ?thesis
        using cstep True fr(2) ex_from_split [of j 128] j jl
        by (elim wp_conseq) (auto simp: clear_ind_nth)
    qed
    show ?thesis
      using j True jl
      by (subst sfs_itrunc_indirect.simps)
        (simp add: sfs_consts, rule wp_conseq [OF bfree_wp [OF Suc.prems(1) b]], use rest in auto)
  qed
qed

lemma no_share_sub:
  assumes "no_share xs" "length ys = length xs" "\<And>k. k < length xs \<Longrightarrow> ys ! k = xs ! k \<or> ys ! k = 0"
  shows "no_share ys"
  using assms unfolding no_share_nth by metis

lemma set_clear_ind:
  assumes "no_share ws"
  shows "set (clear_ind bl 0 ws) - {0} = set ws - {0} - freed_ind bl 0 ws"
proof -
  have "x \<in> set (clear_ind bl 0 ws) \<longleftrightarrow> x \<in> set ws \<and> x \<notin> freed_ind bl 0 ws" if x: "x \<noteq> 0" for x
  proof
    assume "x \<in> set (clear_ind bl 0 ws)"
    then obtain k where k: "k < length ws" "clear_ind bl 0 ws ! k = x" by (auto simp: in_set_conv_nth)
    then have kk: "ws ! k = x" "\<not> bl < 15 + k" using x by (auto simp: clear_ind_nth split: if_splits)
    have "x \<notin> freed_ind bl 0 ws"
    proof
      assume "x \<in> freed_ind bl 0 ws"
      then obtain k' where "k' < length ws" "ws ! k' = x" "bl < 15 + k'" by (auto simp: freed_ind_def)
      then show False using k kk x assms unfolding no_share_nth by metis
    qed
    moreover have "x \<in> set ws" using nth_mem [OF k(1)] kk(1) by simp
    ultimately show "x \<in> set ws \<and> x \<notin> freed_ind bl 0 ws" by simp
  next
    assume "x \<in> set ws \<and> x \<notin> freed_ind bl 0 ws"
    then obtain k where k: "k < length ws" "ws ! k = x" "\<not> bl < 15 + k"
      using x by (auto simp: in_set_conv_nth freed_ind_def)
    then have "clear_ind bl 0 ws ! k = x" by (simp add: clear_ind_nth)
    then show "x \<in> set (clear_ind bl 0 ws)" using k by (metis clear_ind_length nth_mem)
  qed
  then show ?thesis by blast
qed

lemma freed_ind_subset: "freed_ind bl j ws \<subseteq> set ws - {0}"
  by (auto simp: freed_ind_def)

text \<open>
  Facts about a file with an indirect block whose entries \<open>ws\<close> are being cleared.
\<close>

lemma shrink_indirect_sets:
  assumes ok: "fs_ok s" and v: "inode_ok s (sv_i v)" and ib: "ib = sfi_indirect (sv_i v)" "ib \<noteq> 0"
    and ws: "ws = idwords (disk s) ib"
  shows "length ws = 128" "no_share ws" "set ws \<subseteq> {..<nblocks s}" "freed_ind bl 0 ws \<subseteq> used s"
    "ib \<notin> set ws" "freed_ind bl 0 ws \<subseteq> inode_blocks (disk s) (sv_i v)" "ib \<notin> set (sfi_direct (sv_i v))"
    "freed_ind bl 0 ws \<inter> set (sfi_direct (sv_i v)) = {}"
proof -
  have m: "bmap_of (disk s) (sv_i v) = sfi_direct (sv_i v) @ ws" by (simp add: bmap_of_def ib ws)
  have ns: "no_share (ib # sfi_direct (sv_i v) @ ws)" using v by (simp add: inode_ok_def m ib)
  then show "no_share ws" "ib \<notin> set ws" "ib \<notin> set (sfi_direct (sv_i v))"
    using ib by (auto simp: no_share_append)
  show "length ws = 128" using ok by (simp add: ws)
  have sub: "set ws - {0} \<subseteq> inode_blocks (disk s) (sv_i v)" by (auto simp: inode_blocks_def m)
  then show "freed_ind bl 0 ws \<subseteq> inode_blocks (disk s) (sv_i v)" using freed_ind_subset by blast
  then show "freed_ind bl 0 ws \<subseteq> used s" using v by (auto simp: inode_ok_def)
  have "0 < nblocks s" using inode_ok_indirect [OF v] ib by simp
  moreover have "set ws - {0} \<subseteq> {..<nblocks s}" using sub v unfolding inode_ok_def by blast
  ultimately show "set ws \<subseteq> {..<nblocks s}" by blast
  show "freed_ind bl 0 ws \<inter> set (sfi_direct (sv_i v)) = {}"
    using ns freed_ind_subset [of bl 0 ws] by (auto simp: no_share_append)
qed

lemma shrink_written:
  assumes ok: "fs_ok s" and v: "vn_at p s = Some v" "inode_ok s (sv_i v)" and ib: "ib = sfi_indirect (sv_i v)" "ib \<noteq> 0"
    and ws: "ws = idwords (disk s) ib" and t: "bfree_step s (freed_ind bl 0 ws) t"
    and u: "dev_step t ((disk t)(ib := words_enc (clear_ind bl 0 ws))) u"
  shows "inode_shrink p s v u v \<and>
    bmap_of (disk u) (sv_i v) = sfi_direct (sv_i v) @ clear_ind bl 0 ws"
proof -
  let ?F = "freed_ind bl 0 ws" and ?ws = "clear_ind bl 0 ws"
  note f = shrink_indirect_sets [OF ok v(2) ib ws]
  have m: "bmap_of (disk s) (sv_i v) = sfi_direct (sv_i v) @ ws" by (simp add: bmap_of_def ib ws)
  have "w < 2 ^ 32" if "w \<in> set ?ws" for w
  proof -
    have "w = 0 \<or> w \<in> set ws" using that set_clear_ind [OF f(2), of bl] by blast
    then show ?thesis using idwords_bound [of w "disk s" ib] ws by auto
  qed
  then have "idwords (disk u) ib = ?ws"
    using ib by (simp add: idwords_def dev_step_simps [OF u] words_dec_enc)
  then have m': "bmap_of (disk u) (sv_i v) = sfi_direct (sv_i v) @ ?ws"
    by (simp add: bmap_of_def ib)
  have blocks: "inode_blocks (disk u) (sv_i v) = inode_blocks (disk s) (sv_i v) - ?F"
    using set_clear_ind [OF f(2), of bl] f(5) f(8) [of bl] freed_ind_subset [of bl 0 ws] ib(2)
    unfolding inode_blocks_def m m' ib(1) [symmetric] set_append by blast
  have ns: "no_share (ib # sfi_direct (sv_i v) @ ws)" using v by (simp add: inode_ok_def m ib)
  have "no_share (ib # sfi_direct (sv_i v) @ ?ws)"
    by (rule no_share_sub [OF ns]) (auto simp: nth_Cons' nth_append clear_ind_nth)
  then have ok': "inode_ok u (sv_i v)"
    using v(2) t m' ib unfolding inode_ok_def blocks
    by (auto simp: dev_step_simps [OF u] bfree_step_def fs_same_def)
  have "inode_blocks (disk s) (sv_i v) - (inode_blocks (disk s) (sv_i v) - ?F) = ?F" using f(6) [of bl] by blast
  moreover have "fs_same s u" "fs_ok u" "vn_heap u = vn_heap s"
    using t by (auto simp: bfree_step_def dev_step_simps [OF u] intro: fs_same_trans)
  ultimately have "inode_shrink p s v u v"
    unfolding inode_shrink_def blocks
    using t ok' v ib by (auto simp: bfree_step_def dev_step_simps [OF u])
  with m' show ?thesis by simp
qed

lemma shrink_freed:
  assumes ok: "fs_ok s" and v: "vn_at p s = Some v" "inode_ok s (sv_i v)" and ib: "ib = sfi_indirect (sv_i v)" "ib \<noteq> 0"
    and ws: "ws = idwords (disk s) ib" and t: "bfree_step s (freed_ind bl 0 ws) t"
    and empty: "set (clear_ind bl 0 ws) \<subseteq> {0}" and u: "bfree_step t {ib} u" "sfs_freemapdirty u"
  defines "v' \<equiv> v\<lparr>sv_i := (sv_i v)\<lparr>sfi_indirect := 0\<rparr>, sv_dirty := True\<rparr>"
  shows "inode_shrink p s v (vn_put p v' u) v' \<and>
    bmap_of (disk u) (sv_i v') = sfi_direct (sv_i v) @ clear_ind bl 0 ws"
proof -
  let ?F = "freed_ind bl 0 ws"
  note f = shrink_indirect_sets [OF ok v(2) ib ws]
  have m: "bmap_of (disk s) (sv_i v) = sfi_direct (sv_i v) @ ws" by (simp add: bmap_of_def ib ws)
  have z: "clear_ind bl 0 ws = replicate 128 0"
  proof (rule nth_equalityI)
    fix i assume i: "i < length (clear_ind bl 0 ws)"
    then have "clear_ind bl 0 ws ! i = 0" using empty nth_mem [OF i] by blast
    then show "clear_ind bl 0 ws ! i = replicate 128 0 ! i" using i f(1) by simp
  qed (simp add: f(1))
  then have m': "bmap_of (disk u) (sv_i v') = sfi_direct (sv_i v) @ clear_ind bl 0 ws"
    by (simp add: bmap_of_def idwords_def v'_def)
  have all: "set ws - {0} = ?F" using set_clear_ind [OF f(2), of bl] empty freed_ind_subset [of bl 0 ws] by blast
  have blocks: "inode_blocks (disk u) (sv_i v') = inode_blocks (disk s) (sv_i v) - ?F - {ib}"
    using all f(5,7) f(8) [of bl] empty
    unfolding inode_blocks_def m m' set_append ib(1) [symmetric] by (simp add: v'_def) blast
  have own: "?F \<union> {ib} \<subseteq> inode_blocks (disk s) (sv_i v)" using f(6) [of bl] inode_ok_indirect [OF v(2)] ib by auto
  have ns: "no_share (sfi_direct (sv_i v) @ ws)" using v by (simp add: inode_ok_def m)
  have "no_share (sfi_direct (sv_i v) @ clear_ind bl 0 ws)"
    by (rule no_share_sub [OF ns]) (auto simp: nth_append clear_ind_nth)
  moreover have "dinode_wf (sv_i v')" using v(2) by (simp add: inode_ok_def v'_def dinode_wf_def)
  ultimately have ok': "inode_ok u (sv_i v')"
    using v(2) t u m' unfolding inode_ok_def blocks
    by (auto simp: bfree_step_def fs_same_def v'_def)
  have "inode_blocks (disk s) (sv_i v) - (inode_blocks (disk s) (sv_i v) - ?F - {ib}) = ?F \<union> {ib}"
    using own by blast
  then have "inode_shrink p s v (vn_put p v' u) v'"
    unfolding inode_shrink_def using t u ok' v blocks
    by (auto simp: bfree_step_def v'_def intro: fs_same_trans)
  with m' show ?thesis by simp
qed

text \<open>The map after truncation to \<open>bl\<close> blocks.\<close>

definition trunc_map :: "nat \<Rightarrow> nat list \<Rightarrow> nat list" where
  "trunc_map bl m = map (\<lambda>k. if k < 15 \<and> bl \<le> k \<or> 15 \<le> k \<and> bl < k then 0 else m ! k) [0 ..< length m]"

lemma trunc_map_split:
  assumes "length ds = 15" "clear_direct bl 0 (ds @ ws) = ds' @ ws" "length ds' = 15"
  shows "ds' @ clear_ind bl 0 ws = trunc_map bl (ds @ ws)"
proof (rule nth_equalityI)
  fix i assume i: "i < length (ds' @ clear_ind bl 0 ws)"
  have "(ds' @ ws) ! i = clear_direct bl 0 (ds @ ws) ! i" by (simp only: assms(2))
  also have "\<dots> = (if i < 15 \<and> bl \<le> i then 0 else (ds @ ws) ! i)"
    using i assms(1,3) by (simp add: clear_direct_def)
  finally show "(ds' @ clear_ind bl 0 ws) ! i = trunc_map bl (ds @ ws) ! i"
    using i assms(1,3) by (cases "i < 15") (auto simp: trunc_map_def nth_append clear_ind_nth split: if_splits)
qed (use assms in \<open>simp add: trunc_map_def\<close>)

lemma sfs_itrunc_blocklen:
  assumes "0 \<le> len" "len < 2 ^ 32"
  shows "u32_of_int ((len + int SFS_BLOCKSIZE - 1) sdiv int SFS_BLOCKSIZE) = (nat len + 511) div 512"
proof -
  have "(len + 511) sdiv 512 = (len + 511) div 512"
    using assms by (simp add: signed_divide_int_def sgn_if)
  moreover have "(len + 511) div 512 < 2 ^ 32" "0 \<le> (len + 511) div 512" using assms by (simp_all add: div_less_iff_less_mult)
  moreover have "nat ((len + 511) div 512) = (nat len + 511) div 512"
    using assms by (simp add: nat_div_distrib nat_add_distrib)
  ultimately show ?thesis by (simp add: SFS_BLOCKSIZE_def u32_of_int_def add.commute [of len])
qed

lemma biglock_simps [simp]:
  "fs_ok (s\<lparr>biglock_depth := d\<rparr>) = fs_ok s" "disk (s\<lparr>biglock_depth := d\<rparr>) = disk s"
  "vn_at p (s\<lparr>biglock_depth := d\<rparr>) = vn_at p s" "inode_ok (s\<lparr>biglock_depth := d\<rparr>) = inode_ok s"
  by (auto simp: fs_ok_def dev_ok_def disk_def vn_at_def inode_ok_def)

lemma inode_shrink_biglock:
  assumes "inode_shrink p (s\<lparr>biglock_depth := Suc (biglock_depth s)\<rparr>) v t v'"
  shows "0 < biglock_depth t" "inode_shrink p s v (t\<lparr>biglock_depth := biglock_depth t - 1\<rparr>) v'"
  using assms by (auto simp: inode_shrink_def fs_same_def)

lemma inode_shrink_size:
  assumes "inode_shrink p s v t v'" "n < 2 ^ 32" "vn_at p s = Some v"
  shows "inode_shrink p s v (vn_put p (v'\<lparr>sv_i := (sv_i v')\<lparr>sfi_size := n\<rparr>, sv_dirty := True\<rparr>) t)
           (v'\<lparr>sv_i := (sv_i v')\<lparr>sfi_size := n\<rparr>, sv_dirty := True\<rparr>)"
proof -
  let ?i = "(sv_i v')\<lparr>sfi_size := n\<rparr>"
  have "bmap_of d ?i = bmap_of d (sv_i v')" "inode_blocks d ?i = inode_blocks d (sv_i v')" for d
    by (simp_all add: bmap_of_def inode_blocks_def)
  moreover have "dinode_wf (sv_i v') \<Longrightarrow> dinode_wf ?i" using assms(2) by (simp add: dinode_wf_def)
  ultimately show ?thesis
    using assms by (simp add: inode_shrink_def inode_ok_def) blast
qed

lemma sfs_itrunc_rest_wp:
  assumes ok: "fs_ok s" and v: "vn_at p s = Some v" "inode_ok s (sv_i v)" and ib: "ib = sfi_indirect (sv_i v)"
  shows "wp (if bl < 142 \<and> ib \<noteq> 0 then
               kbind (sfs_readblock ib iobuf) (\<lambda>buf.
               kbind (sfs_itrunc_indirect bl 0 (words_dec buf) False False) (\<lambda>(idbuf, hasnonzero, iddirty).
                 if \<not> hasnonzero then
                   kthen (sfs_bfree ib)
                     (sv_mod p (\<lambda>v. v\<lparr>sv_i := (sv_i v)\<lparr>sfi_indirect := 0\<rparr>, sv_dirty := True\<rparr>))
                 else if iddirty then sfs_writeblock ib (words_enc idbuf)
                 else kret ()))
             else kret ())
    (\<lambda>_ t. \<exists>v'. inode_shrink p s v t v' \<and>
       bmap_of (disk t) (sv_i v') = sfi_direct (sv_i v) @ clear_ind bl 0 (idwords (disk s) ib) \<and>
       (bl < 142 \<longrightarrow> set (clear_ind bl 0 (idwords (disk s) ib)) \<subseteq> {0} \<longrightarrow> sfi_indirect (sv_i v') = 0)) E s"
proof (cases "bl < 142 \<and> ib \<noteq> 0")
  case False
  have "clear_ind bl 0 (idwords (disk s) ib) = idwords (disk s) ib"
    using False ok by (intro nth_equalityI) (auto simp: clear_ind_nth idwords_def length_words_dec)
  then have "inode_shrink p s v s v \<and> bmap_of (disk s) (sv_i v) = sfi_direct (sv_i v) @ clear_ind bl 0 (idwords (disk s) ib) \<and>
      (bl < 142 \<longrightarrow> set (clear_ind bl 0 (idwords (disk s) ib)) \<subseteq> {0} \<longrightarrow> sfi_indirect (sv_i v) = 0)"
    using False inode_shrink_refl [OF ok v] ib by (auto simp: bmap_of_def)
  then show ?thesis unfolding if_not_P [OF False] by auto
next
  case True
  let ?Q = "\<lambda>_ t. \<exists>v'. inode_shrink p s v t v' \<and>
       bmap_of (disk t) (sv_i v') = sfi_direct (sv_i v) @ clear_ind bl 0 (idwords (disk s) ib) \<and>
       (bl < 142 \<longrightarrow> set (clear_ind bl 0 (idwords (disk s) ib)) \<subseteq> {0} \<longrightarrow> sfi_indirect (sv_i v') = 0)"
  define ws where "ws = idwords (disk s) ib"
  have z: "ib \<noteq> 0" using True by simp
  note ind = inode_ok_indirect [OF v(2), folded ib, OF z]
  have main: "wp (sfs_itrunc_indirect bl 0 ws False False)
      (\<lambda>(idbuf, hasnonzero, iddirty).
         wp (if \<not> hasnonzero then
               kthen (sfs_bfree ib) (sv_mod p (\<lambda>v. v\<lparr>sv_i := (sv_i v)\<lparr>sfi_indirect := 0\<rparr>, sv_dirty := True\<rparr>))
             else if iddirty then sfs_writeblock ib (words_enc idbuf) else kret ()) ?Q E) E s1"
    if s1: "dev_step s (disk s) s1" for s1
  proof -
    note d = dev_step_inode [OF s1 ok v]
    have ws1: "ws = idwords (disk s1) ib" by (simp add: ws_def dev_step_simps [OF s1])
    note f = shrink_indirect_sets [OF d(3,5) ib z ws1]
    have Q1: "?Q () t" if "inode_shrink p s1 v t v' \<and>
        bmap_of (disk t) (sv_i v') = sfi_direct (sv_i v) @ clear_ind bl 0 ws"
        "set (clear_ind bl 0 ws) \<subseteq> {0} \<longrightarrow> sfi_indirect (sv_i v') = 0" for t v'
    proof -
      have "inode_shrink p s v s1 v"
        using d s1 ok v by (simp add: inode_shrink_def dev_step_simps [OF s1])
      from inode_shrink_trans [OF this, of t v'] that show ?thesis by (auto simp: ws_def)
    qed
    show ?thesis
    proof (rule wp_conseq [OF sfs_itrunc_indirect_wp [OF d(3) f(1-4)]], goal_cases)
      case (1 x t)
      obtain idbuf h dd where x: "x = (idbuf, h, dd)" by (cases x)
      have t: "idbuf = clear_ind bl 0 ws" "bfree_step s1 (freed_ind bl 0 ws) t"
        "h \<longleftrightarrow> (\<exists>k<128. idbuf ! k \<noteq> 0)" "dd \<longleftrightarrow> freed_ind bl 0 ws \<noteq> {}" using 1 x by auto
      have tt: "fs_ok t" "vn_at p t = Some v" "ib \<in> used t" "ib < nblocks t"
        using t(2) d(4) ind f(5) freed_ind_subset [of bl 0 ws] vn_at_cong [of t s1]
        by (auto simp: bfree_step_def fs_same_def dev_step_simps [OF s1])
      have some: "\<not> set (clear_ind bl 0 ws) \<subseteq> {0}" if h
      proof -
        from that t(3) obtain k where k: "k < 128" "idbuf ! k \<noteq> 0" by blast
        then have "idbuf ! k \<in> set (clear_ind bl 0 ws)" using t(1) f(1) by simp
        with k(2) show ?thesis by auto
      qed
      consider "\<not> h" | "h" "dd" | "h" "\<not> dd" by blast
      then show ?case
      proof cases
        case 1
        then have "set (clear_ind bl 0 ws) \<subseteq> {0}" using t f(1) by (auto simp: in_set_conv_nth)
        from shrink_freed [OF d(3-5) ib z ws1 t(2) this]
        have sh: "?Q () (vn_put p (v\<lparr>sv_i := (sv_i v)\<lparr>sfi_indirect := 0\<rparr>, sv_dirty := True\<rparr>) u)"
          if "bfree_step t {ib} u" "sfs_freemapdirty u" for u
          using that
          by (intro Q1 [of _ "v\<lparr>sv_i := (sv_i v)\<lparr>sfi_indirect := 0\<rparr>, sv_dirty := True\<rparr>"]) simp_all
        have "wp (kthen (sfs_bfree ib) (sv_mod p (\<lambda>v. v\<lparr>sv_i := (sv_i v)\<lparr>sfi_indirect := 0\<rparr>, sv_dirty := True\<rparr>))) ?Q E t"
          unfolding wp_kthen wp_sv_mod
        proof (rule wp_conseq [OF bfree_wp [OF tt(1,3,4) z]], goal_cases)
          case (1 y u)
          then have "vn_at p u = Some v" using tt(2) vn_at_cong [of u t] by (simp add: bfree_step_def)
          then show ?case using sh [of u] 1 by simp
        qed
        then show ?thesis using 1 x by simp
      next
        case 2
        have some: "\<not> set (clear_ind bl 0 ws) \<subseteq> {0}" using some 2(1) .
        have "length (words_enc idbuf) = 512" by (simp add: t(1) f(1))
        from writeblock_wp [OF tt(1,4) this]
        have "wp (sfs_writeblock ib (words_enc idbuf)) ?Q E t"
          by (rule wp_conseq)
            (rule Q1 [OF shrink_written [OF d(3-5) ib z ws1 t(2)]], simp add: t(1), use some in blast)
        then show ?thesis using 2 x by simp
      next
        case 3
        then have e: "freed_ind bl 0 ws = {}" using t(4) by simp
        have "clear_ind bl 0 ws = ws"
          using e by (intro nth_equalityI) (auto simp: clear_ind_nth freed_ind_def)
        moreover have "inode_shrink p s1 v t v"
          using t(2) d e vn_at_cong [of t s1] by (auto simp: inode_shrink_def bfree_step_def inode_ok_def fs_same_def)
        moreover have "disk t = disk s1" using t(2) by (simp add: bfree_step_def)
        ultimately have "?Q () t" using some [OF 3(1)] by (intro Q1 [of t v]) (simp_all add: bmap_of_def ws1 ib)
        then show ?thesis using 3 x by simp
      qed
    qed simp
  qed
  have "wp (sfs_readblock ib iobuf)
      (\<lambda>buf. wp (kbind (sfs_itrunc_indirect bl 0 (words_dec buf) False False) (\<lambda>(idbuf, hasnonzero, iddirty).
                 if \<not> hasnonzero then
                   kthen (sfs_bfree ib)
                     (sv_mod p (\<lambda>v. v\<lparr>sv_i := (sv_i v)\<lparr>sfi_indirect := 0\<rparr>, sv_dirty := True\<rparr>))
                 else if iddirty then sfs_writeblock ib (words_enc idbuf)
                 else kret ())) ?Q E) E s"
    by (rule wp_conseq [OF readblock_wp [OF ok]])
      (use ind main z in \<open>auto simp: iobuf_zeros ws_def idwords_def case_prod_unfold\<close>)
  then show ?thesis using True by simp
qed

lemma sfs_itrunc_wp:
  assumes ok: "fs_ok s" and v: "vn_at p s = Some v" "inode_ok s (sv_i v)" and len: "0 \<le> len" "len < 2 ^ 32"
  shows "wp (sfs_itrunc p len)
    (\<lambda>_ t. \<exists>v'. inode_shrink p s v t v' \<and> sfi_size (sv_i v') = nat len \<and> sv_dirty v' \<and>
       bmap_of (disk t) (sv_i v') = trunc_map ((nat len + 511) div 512) (bmap_of (disk s) (sv_i v)) \<and>
       ((nat len + 511) div 512 < 142 \<longrightarrow> set (drop 15 (bmap_of (disk t) (sv_i v'))) \<subseteq> {0} \<longrightarrow> sfi_indirect (sv_i v') = 0)) E s"
proof -
  define bl where "bl = (nat len + 511) div 512"
  note blocklen = sfs_itrunc_blocklen [OF len, folded bl_def]
  define s0 where "s0 = s\<lparr>biglock_depth := Suc (biglock_depth s)\<rparr>"
  have s0: "fs_ok s0" "vn_at p s0 = Some v" "inode_ok s0 (sv_i v)" "disk s0 = disk s"
    using ok v by (simp_all add: s0_def)
  have n: "u32_of_int len = nat len" using len by (simp add: u32_of_int_def)
  let ?m = "bmap_of (disk s) (sv_i v)"
  let ?Q = "\<lambda>_ t. \<exists>v'. inode_shrink p s v t v' \<and> sfi_size (sv_i v') = nat len \<and> sv_dirty v' \<and>
       bmap_of (disk t) (sv_i v') = trunc_map bl ?m \<and>
       (bl < 142 \<longrightarrow> set (drop 15 (bmap_of (disk t) (sv_i v'))) \<subseteq> {0} \<longrightarrow> sfi_indirect (sv_i v') = 0)"
  have fin: "0 < biglock_depth t \<and>
      ?Q () ((vn_put p (w\<lparr>sv_i := (sv_i w)\<lparr>sfi_size := nat len\<rparr>, sv_dirty := True\<rparr>) t)
               \<lparr>biglock_depth := biglock_depth t - Suc 0\<rparr>)"
    if w: "inode_shrink p s0 v t w" "bmap_of (disk t) (sv_i w) = trunc_map bl ?m"
      "bl < 142 \<longrightarrow> set (drop 15 (bmap_of (disk t) (sv_i w))) \<subseteq> {0} \<longrightarrow> sfi_indirect (sv_i w) = 0" for t w
  proof -
    define w' where "w' = w\<lparr>sv_i := (sv_i w)\<lparr>sfi_size := nat len\<rparr>, sv_dirty := True\<rparr>"
    have "nat len < 2 ^ 32" using len by simp
    from inode_shrink_size [OF w(1) this s0(2)] have "inode_shrink p s0 v (vn_put p w' t) w'"
      by (simp add: w'_def)
    note b = inode_shrink_biglock [OF this [unfolded s0_def]]
    have "bmap_of (disk t) (sv_i w') = bmap_of (disk t) (sv_i w)" by (simp add: w'_def bmap_of_def)
    then show ?thesis
      using b w(2,3) by (simp add: w'_def [symmetric]) (rule exI [of _ w'], simp add: w'_def)
  qed
  have mid: "wp (kbind (sv_get p (\<lambda>v. sfi_indirect (sv_i v))) (\<lambda>idblock.
       kbind (ktry (if bl < 142 \<and> idblock \<noteq> 0 then
                      kbind (sfs_readblock idblock iobuf) (\<lambda>buf.
                      kbind (sfs_itrunc_indirect bl 0 (words_dec buf) False False) (\<lambda>(idbuf, hasnonzero, iddirty).
                        if \<not> hasnonzero then
                          kthen (sfs_bfree idblock)
                            (sv_mod p (\<lambda>v. v\<lparr>sv_i := (sv_i v)\<lparr>sfi_indirect := 0\<rparr>, sv_dirty := True\<rparr>))
                        else if iddirty then sfs_writeblock idblock (words_enc idbuf)
                        else kret ()))
                    else kret ())) (\<lambda>result.
         case result of
           Inl e \<Rightarrow> kthen biglock_release (kfail e)
         | Inr _ \<Rightarrow>
             kthen (sv_mod p (\<lambda>v. v\<lparr>sv_i := (sv_i v)\<lparr>sfi_size := nat len\<rparr>, sv_dirty := True\<rparr>))
               biglock_release))) ?Q E s1"
    if s1: "inode_shrink p s0 v s1 v1" "sfi_indirect (sv_i v1) = sfi_indirect (sv_i v)" "disk s1 = disk s0"
      "bmap_of (disk s1) (sv_i v1) = clear_direct bl 0 (bmap_of (disk s0) (sv_i v))" for s1 v1
  proof -
    have at: "vn_at p s1 = Some v1" using inode_shrink_vn_at [OF s1(1) s0(2)] by simp
    have ok1: "fs_ok s1" "inode_ok s1 (sv_i v1)" using s1(1) by (simp_all add: inode_shrink_def)
    have ld: "length (sfi_direct (sv_i v)) = 15" "length (sfi_direct (sv_i v1)) = 15"
      using s0(3) ok1(2) by (simp_all add: inode_ok_def dinode_wf_def)
    have tm: "sfi_direct (sv_i v1) @ clear_ind bl 0 (idwords (disk s1) (sfi_indirect (sv_i v1))) = trunc_map bl ?m"
      using trunc_map_split [OF ld(1), of bl "idwords (disk s) (sfi_indirect (sv_i v))" "sfi_direct (sv_i v1)"] s1 s0(4) ld(2)
      by (simp add: bmap_of_def)
    have step: "0 < biglock_depth t \<and> vn_at p t = Some w \<and>
      ?Q () ((vn_put p (w\<lparr>sv_i := (sv_i w)\<lparr>sfi_size := nat len\<rparr>, sv_dirty := True\<rparr>) t)
               \<lparr>biglock_depth := biglock_depth t - Suc 0\<rparr>)"
      if w: "inode_shrink p s1 v1 t w" "bmap_of (disk t) (sv_i w) =
         sfi_direct (sv_i v1) @ clear_ind bl 0 (idwords (disk s1) (sfi_indirect (sv_i v1)))"
         "bl < 142 \<longrightarrow> set (clear_ind bl 0 (idwords (disk s1) (sfi_indirect (sv_i v1)))) \<subseteq> {0} \<longrightarrow> sfi_indirect (sv_i w) = 0" for t w
    proof -
      have "drop 15 (bmap_of (disk t) (sv_i w)) = clear_ind bl 0 (idwords (disk s1) (sfi_indirect (sv_i v1)))"
        using w(2) ld(2) by simp
      then have "bl < 142 \<longrightarrow> set (drop 15 (bmap_of (disk t) (sv_i w))) \<subseteq> {0} \<longrightarrow> sfi_indirect (sv_i w) = 0"
        using w(3) by simp
      from fin [OF inode_shrink_trans [OF s1(1) w(1) s1(2)] _ this] w(2) tm inode_shrink_vn_at [OF w(1) at]
      show ?thesis by simp
    qed
    show ?thesis
      unfolding wp_kbind wp_sv_get at option.case wp_ktry
    proof (rule wp_conseq [OF sfs_itrunc_rest_wp [OF ok1(1) at ok1(2) refl]], goal_cases)
      case (1 x t)
      then obtain w where "inode_shrink p s1 v1 t w" "bmap_of (disk t) (sv_i w) =
         sfi_direct (sv_i v1) @ clear_ind bl 0 (idwords (disk s1) (sfi_indirect (sv_i v1)))"
         "bl < 142 \<longrightarrow> set (clear_ind bl 0 (idwords (disk s1) (sfi_indirect (sv_i v1)))) \<subseteq> {0} \<longrightarrow> sfi_indirect (sv_i w) = 0" by blast
      from step [OF this] show ?case by simp
    qed simp
  qed
  show ?thesis
    unfolding sfs_itrunc_def Let_def blocklen n bl_def [symmetric] wp_kthen wp_biglock s0_def [symmetric]
  proof (rule wp_conseq [OF sfs_itrunc_direct_wp [OF s0(1-3)]], goal_cases)
    case (1 x s1)
    then obtain v1 where "inode_shrink p s0 v s1 v1" "sfi_indirect (sv_i v1) = sfi_indirect (sv_i v)"
      "disk s1 = disk s0" "bmap_of (disk s1) (sv_i v1) = clear_direct bl 0 (bmap_of (disk s0) (sv_i v))" by blast
    from mid [OF this] show ?case by (simp add: sfs_consts)
  qed simp
qed

end
