(* ===== verification/Sfs_Io.thy ===== *)
theory Sfs_Io
  imports Sfs_Trunc
begin

text \<open>
  File-level I/O, \<open>kern/fs/sfs/sfs_io.c\<close>: \<open>sfs_partialio\<close>, \<open>sfs_blockio\<close>, \<open>sfs_io\<close> and
  \<open>sfs_metaio\<close>, on the volume and the descriptor. The abstraction of a file is the list of the
  bytes its map covers, of which the first \<open>sfi_size\<close> are the file's contents.
\<close>

subsection \<open>Model\<close>

definition on_fs :: "(sfs_fs, 'a) kfun \<Rightarrow> (sfs_fs \<times> uenv, 'a) kfun" where
  "on_fs m = kzoom fst (\<lambda>s (_, u). (s, u)) m"

definition on_uio :: "(uenv, 'a) kfun \<Rightarrow> (sfs_fs \<times> uenv, 'a) kfun" where
  "on_uio m = kzoom snd (\<lambda>u (s, _). (s, u)) m"

definition sfs_partialio :: "nat \<Rightarrow> nat \<Rightarrow> nat \<Rightarrow> (sfs_fs \<times> uenv, unit) kfun" where
  "sfs_partialio sv skipstart len =
     kbind (kget (uio_rw \<circ> snd)) (\<lambda>rw.
     let doalloc = (rw = UIO_WRITE) in
     kthen (kassert (\<lambda>_. u32 (skipstart + len) \<le> SFS_BLOCKSIZE))
     (kthen (kassert (\<lambda>(s, u). vfs_biglock_do_i_hold (biglock_depth s)))
     (kbind (kget (\<lambda>(s, u). u32_of_int (uio_offset u sdiv int SFS_BLOCKSIZE))) (\<lambda>fileblock.
      kbind (on_fs (sfs_bmap sv fileblock doalloc)) (\<lambda>diskblock.
      kbind (if diskblock = 0
             then kthen (kassert (\<lambda>_. rw = UIO_READ)) (kret (replicate SFS_BLOCKSIZE 0))
             else on_fs (sfs_readblock diskblock iobuf)) (\<lambda>buf.
      kbind (on_uio (uiomove buf skipstart len)) (\<lambda>buf'.
        if rw = UIO_WRITE then on_fs (sfs_writeblock diskblock buf') else kret ())))))))"

definition sfs_blockio :: "nat \<Rightarrow> (sfs_fs \<times> uenv, unit) kfun" where
  "sfs_blockio sv =
     kbind (kget (uio_rw \<circ> snd)) (\<lambda>rw.
     let doalloc = (rw = UIO_WRITE) in
     kbind (kget (\<lambda>(s, u). u32_of_int (uio_offset u sdiv int SFS_BLOCKSIZE))) (\<lambda>fileblock.
     kbind (on_fs (sfs_bmap sv fileblock doalloc)) (\<lambda>diskblock.
     if diskblock = 0 then
       kthen (kassert (\<lambda>_. rw = UIO_READ)) (on_uio (uiomovezeros SFS_BLOCKSIZE))
     else
       kbind (kget (uio_offset \<circ> snd)) (\<lambda>saveoff.
       let diskoff = int (u32 (diskblock * SFS_BLOCKSIZE)) in
       kthen (on_uio (kmod (\<lambda>u. u\<lparr>uio_offset := diskoff\<rparr>)))
       (kthen (kassert (\<lambda>(s, u). uio_resid u \<ge> SFS_BLOCKSIZE))
       (kbind (kget (uio_resid \<circ> snd)) (\<lambda>saveres.
        let diskres = SFS_BLOCKSIZE in
        kthen (on_uio (kmod (\<lambda>u. u\<lparr>uio_resid := diskres\<rparr>)))
        (kbind (ktry sfs_rwblock) (\<lambda>result.
         kthen (on_uio (kmod (\<lambda>u. u\<lparr>uio_offset := (uio_offset u - diskoff) + saveoff,
                    uio_resid := u32_of_int ((int (uio_resid u) - int diskres) + int saveres)\<rparr>)))
           (case result of Inl e \<Rightarrow> kfail e | Inr _ \<Rightarrow> kret ()))))))))))"

text \<open>
  The check for end of file at the start of \<open>sfs_io\<close>: \<open>None\<close> to return at once, otherwise
  \<open>extraresid\<close>.
\<close>

definition sfs_io_eof :: "nat \<Rightarrow> (sfs_fs \<times> uenv, nat option) kfun" where
  "sfs_io_eof sv =
     kbind (on_fs (sv_get sv (\<lambda>v. int (sfi_size (sv_i v))))) (\<lambda>size.
     kbind (kget (\<lambda>(s, u). uio_offset u + int (uio_resid u))) (\<lambda>endpos.
     kbind (kget (uio_offset \<circ> snd)) (\<lambda>offset.
       if offset \<ge> size then kret None
       else if endpos > size then
         let extraresid = u32_of_int (endpos - size) in
         kthen (kassert (\<lambda>(s, u). uio_resid u > extraresid))
           (kthen (on_uio (kmod (\<lambda>u. u\<lparr>uio_resid := uio_resid u - extraresid\<rparr>)))
             (kret (Some extraresid)))
       else kret (Some 0))))"

fun sfs_io_blocks :: "nat \<Rightarrow> nat \<Rightarrow> (sfs_fs \<times> uenv, unit) kfun" where
  "sfs_io_blocks sv 0 = kret ()"
| "sfs_io_blocks sv (Suc n) = kthen (sfs_blockio sv) (sfs_io_blocks sv n)"

text \<open>The last partial block; the part that starts at a block boundary; all up to the label \<open>out\<close>.\<close>

definition sfs_io_tail :: "nat \<Rightarrow> (sfs_fs \<times> uenv, unit) kfun" where
  "sfs_io_tail sv =
     kthen (kassert (\<lambda>(s, u). uio_resid u < SFS_BLOCKSIZE))
       (kbind (kget (uio_resid \<circ> snd)) (\<lambda>resid. if resid > 0 then sfs_partialio sv 0 resid else kret ()))"

definition sfs_io_aligned :: "nat \<Rightarrow> (sfs_fs \<times> uenv, unit) kfun" where
  "sfs_io_aligned sv =
     kbind (kget (uio_resid \<circ> snd)) (\<lambda>resid.
        if resid = 0 then kret ()
        else
          kthen (kassert (\<lambda>(s, u). uio_offset u smod int SFS_BLOCKSIZE = 0))
          (kthen (sfs_io_blocks sv (resid div SFS_BLOCKSIZE)) (sfs_io_tail sv)))"

definition sfs_io_body :: "nat \<Rightarrow> (sfs_fs \<times> uenv, unit) kfun" where
  "sfs_io_body sv =
     kbind (kget (\<lambda>(s, u). u32_of_int (uio_offset u smod int SFS_BLOCKSIZE))) (\<lambda>blkoff.
     kthen (if blkoff \<noteq> 0 then
              kbind (kget (uio_resid \<circ> snd)) (\<lambda>resid.
                let skip = blkoff; len = SFS_BLOCKSIZE - blkoff in
                sfs_partialio sv skip (if len > resid then resid else len))
            else kret ())
       (sfs_io_aligned sv))"

text \<open>The code at the label \<open>out\<close>.\<close>

definition sfs_io_out :: "nat \<Rightarrow> nat \<Rightarrow> uio_rw \<Rightarrow> nat \<Rightarrow> errno + unit \<Rightarrow> (sfs_fs \<times> uenv, unit) kfun" where
  "sfs_io_out sv origresid rw extraresid result =
     kbind (kget snd) (\<lambda>uio.
     kbind (on_fs (sv_get sv (\<lambda>v. int (sfi_size (sv_i v))))) (\<lambda>size.
     kthen (if uio_resid uio \<noteq> origresid \<and> rw = UIO_WRITE \<and> uio_offset uio > size then
              on_fs (sv_mod sv (\<lambda>v. v\<lparr>sv_i := (sv_i v)\<lparr>sfi_size := u32_of_int (uio_offset uio)\<rparr>,
                                      sv_dirty := True\<rparr>))
            else kret ())
     (kthen (on_uio (kmod (\<lambda>u. u\<lparr>uio_resid := u32 (uio_resid u + extraresid)\<rparr>)))
       (case result of Inl e \<Rightarrow> kfail e | Inr _ \<Rightarrow> kret ()))))"

definition sfs_io :: "nat \<Rightarrow> (sfs_fs \<times> uenv, unit) kfun" where
  "sfs_io sv =
     kbind (kget (uio_resid \<circ> snd)) (\<lambda>origresid.
     kbind (kget (uio_rw \<circ> snd)) (\<lambda>rw.
     kbind (if rw = UIO_READ then sfs_io_eof sv else kret (Some 0)) (\<lambda>eof.
       case eof of
         None \<Rightarrow> kret ()
       | Some extraresid \<Rightarrow> kbind (ktry (sfs_io_body sv)) (sfs_io_out sv origresid rw extraresid))))"

text \<open>\<open>data\<close> is the object; a read hands back its new contents.\<close>

definition sfs_metaio :: "nat \<Rightarrow> int \<Rightarrow> byte list \<Rightarrow> uio_rw \<Rightarrow> (sfs_fs, byte list) kfun" where
  "sfs_metaio sv actualpos data rw =
     (let len = length data;
          vnblock = u32_of_int (actualpos sdiv int SFS_BLOCKSIZE);
          blockoffset = u32_of_int (actualpos smod int SFS_BLOCKSIZE);
          doalloc = (rw = UIO_WRITE) in
      kthen (kassert (\<lambda>s. vfs_biglock_do_i_hold (biglock_depth s)))
      (kbind (sfs_bmap sv vnblock doalloc) (\<lambda>diskblock.
       if diskblock = 0 then
         kthen (kassert (\<lambda>_. rw = UIO_READ)) (kret (replicate len 0))
       else
         kbind (sfs_readblock diskblock iobuf) (\<lambda>metaiobuf.
         kthen (kassert (\<lambda>_. blockoffset + len \<le> length metaiobuf))
         (if rw = UIO_READ then kret (take len (drop blockoffset metaiobuf))
          else
            kthen (sfs_writeblock diskblock (splice_at blockoffset data metaiobuf))
            (let endpos = actualpos + int len in
             kbind (sv_get sv (\<lambda>v. int (sfi_size (sv_i v)))) (\<lambda>size.
             kthen (if endpos > size then
                      sv_mod sv (\<lambda>v. v\<lparr>sv_i := (sv_i v)\<lparr>sfi_size := u32_of_int endpos\<rparr>, sv_dirty := True\<rparr>)
                    else kret ())
               (kret data))))))))"

lemma wp_on_fs [simp]:
  "wp (on_fs m) Q E = (\<lambda>(s, u). wp m (\<lambda>x t. Q x (t, u)) (\<lambda>e t. E e (t, u)) s)"
  by (rule ext) (simp add: on_fs_def case_prod_unfold)

lemma wp_on_uio [simp]:
  "wp (on_uio m) Q E = (\<lambda>(s, u). wp m (\<lambda>x t. Q x (s, t)) (\<lambda>e t. E e (s, t)) u)"
  by (rule ext) (simp add: on_uio_def case_prod_unfold)

subsection \<open>The bytes of a file\<close>

definition blk_bytes :: "(nat \<Rightarrow> byte list) \<Rightarrow> nat \<Rightarrow> byte list" where
  "blk_bytes d b = (if b = 0 then zeros else d b)"

definition file_block :: "(nat \<Rightarrow> byte list) \<Rightarrow> sfs_dinode \<Rightarrow> nat \<Rightarrow> byte list" where
  "file_block d i fb = blk_bytes d (bmap_of d i ! fb)"

definition MAXFILE :: nat where
  "MAXFILE = 143 * 512"

definition file_data :: "(nat \<Rightarrow> byte list) \<Rightarrow> sfs_dinode \<Rightarrow> byte list" where
  "file_data d i = map (\<lambda>n. file_block d i (n div 512) ! (n mod 512)) [0 ..< MAXFILE]"

lemma length_file_data [simp]: "length (file_data d i) = MAXFILE"
  by (simp add: file_data_def)

lemma length_blk_bytes: "fs_ok s \<Longrightarrow> length (blk_bytes (disk s) b) = 512"
  by (simp add: blk_bytes_def)

lemma length_file_block: "fs_ok s \<Longrightarrow> length (file_block (disk s) i fb) = 512"
  by (simp add: file_block_def length_blk_bytes)

lemma file_data_nth: "n < MAXFILE \<Longrightarrow> file_data d i ! n = file_block d i (n div 512) ! (n mod 512)"
  by (simp add: file_data_def)

lemma file_data_block:
  assumes "fs_ok s" "fb < 143" "skip + len \<le> 512"
  shows "take len (drop (fb * 512 + skip) (file_data (disk s) i)) = take len (drop skip (file_block (disk s) i fb))"
proof (rule nth_equalityI)
  have "fb * 512 + 512 \<le> MAXFILE" using assms(2) by (simp add: MAXFILE_def)
  then show "length (take len (drop (fb * 512 + skip) (file_data (disk s) i))) =
      length (take len (drop skip (file_block (disk s) i fb)))"
    using assms by (simp add: length_file_block)
  fix k assume "k < length (take len (drop (fb * 512 + skip) (file_data (disk s) i)))"
  then have k: "k < len" "fb * 512 + skip + k < MAXFILE" by (simp_all add: min_def split: if_splits)
  have m: "(fb * 512 + skip + k) div 512 = fb" "(fb * 512 + skip + k) mod 512 = skip + k"
    using assms(3) k by (simp_all add: div_nat_eqI mod_nat_eqI)
  show "take len (drop (fb * 512 + skip) (file_data (disk s) i)) ! k =
      take len (drop skip (file_block (disk s) i fb)) ! k"
    using k m assms by (simp add: file_data_nth length_file_block add.assoc [symmetric])
qed

text \<open>Writing one block of a file.\<close>

lemma file_data_write:
  assumes ok: "fs_ok s" and fb: "fb < 143" and skip: "skip + length data \<le> 512"
    and same: "\<And>k. k < 143 \<Longrightarrow> k \<noteq> fb \<Longrightarrow> file_block d' i' k = file_block (disk s) i k"
    and new: "file_block d' i' fb = splice_at skip data (file_block (disk s) i fb)"
  shows "file_data d' i' = splice_at (fb * 512 + skip) data (file_data (disk s) i)"
proof (rule nth_equalityI)
  have len: "fb * 512 + skip + length data \<le> MAXFILE" using fb skip by (simp add: MAXFILE_def)
  then show "length (file_data d' i') = length (splice_at (fb * 512 + skip) data (file_data (disk s) i))" by simp
  fix n assume "n < length (file_data d' i')"
  then have n: "n < MAXFILE" by simp
  then have nb: "n div 512 < 143" by (simp add: MAXFILE_def div_less_iff_less_mult)
  have old: "splice_at (fb * 512 + skip) data (file_data (disk s) i) ! n =
    (if fb * 512 + skip \<le> n \<and> n < fb * 512 + skip + length data then data ! (n - (fb * 512 + skip))
     else file_data (disk s) i ! n)"
    by (rule nth_splice_at) (use len n in auto)
  show "file_data d' i' ! n = splice_at (fb * 512 + skip) data (file_data (disk s) i) ! n"
  proof (cases "n div 512 = fb")
    case False
    then have "n < fb * 512 \<or> fb * 512 + 512 \<le> n"
      by (metis add.commute div_nat_eqI mult_Suc mult.commute not_le)
    then show ?thesis using n same [OF nb False] skip by (auto simp: old file_data_nth)
  next
    case True
    define m where "m = n mod 512"
    have n': "n = fb * 512 + m" "m < 512" using True div_mult_mod_eq [of n 512] by (simp_all add: m_def)
    have "splice_at skip data (file_block (disk s) i fb) ! m =
      (if skip \<le> m \<and> m < skip + length data then data ! (m - skip) else file_block (disk s) i fb ! m)"
      by (rule nth_splice_at) (use skip n' ok in \<open>auto simp: length_file_block\<close>)
    moreover have "file_data d' i' ! n = splice_at skip data (file_block (disk s) i fb) ! m"
      "file_data (disk s) i ! n = file_block (disk s) i fb ! m"
      using n True new by (simp_all add: file_data_nth m_def)
    moreover have "fb * 512 + skip \<le> n \<longleftrightarrow> skip \<le> m"
      "n < fb * 512 + skip + length data \<longleftrightarrow> m < skip + length data" "n - (fb * 512 + skip) = m - skip"
      using n' by auto
    ultimately show ?thesis unfolding old by simp
  qed
qed

subsection \<open>One block between the disk and a descriptor\<close>

lemma dev_okD:
  assumes "fs_ok s"
  shows "sfs_device s" "lhd_ok (sfs_dev s)" "hw_good (sfs_dev s)" "nblocks s \<le> d_blocks (sfs_dev s)"
    "d_blocks (sfs_dev s) < 2 ^ 32" "fst (hw_next (sfs_dev s)) = LHD_OK"
  using assms hw_good_next by (auto simp: fs_ok_def dev_ok_def lhd_ok_def)

lemma dev_step_after:
  assumes "fs_ok s" "lhd_ok d" "d_blocks d = d_blocks (sfs_dev s)"
    "hw_script d = tl (hw_script (sfs_dev s)) \<or> hw_script d = hw_script (sfs_dev s)" "hw_sect d = f"
  shows "dev_step s f (s\<lparr>sfs_dev := d\<rparr>)"
proof -
  have "hw_good d" using assms(4) dev_okD(3) [OF assms(1)]
    by (cases "hw_script (sfs_dev s)") (auto simp: hw_good_def)
  then show ?thesis
    using assms dev_okD [OF assms(1)] by (auto simp: dev_step_def dev_moved_def dev_ok_def)
qed

lemma rwblock_read:
  assumes ok: "fs_ok s" "b < nblocks s" and u: "uio_ok u" "uio_rw u = UIO_READ" "uio_at_block u b"
  shows "wp sfs_rwblock
    (\<lambda>_ (t, u'). dev_step s (disk s) t \<and> uio_moved 512 u u' \<and>
       uio_mem u' = mem_put (uio_mem u) (take 512 (uio_addrs u)) (disk s b))
    (\<lambda>e (t, u'). e = EFAULT \<and> uio_segflg u \<noteq> UIO_SYSSPACE \<and> dev_step s (disk s) t \<and> (\<exists>k<512. uio_moved k u u')) (s, u)"
proof -
  note d = dev_okD [OF ok(1)]
  have b: "b < d_blocks (sfs_dev s)" using ok d(4) by simp
  have res: "LHD_SECTSIZE \<le> uio_resid u" using u(3) by (simp add: uio_at_block_def)
  note after = dev_step_after [OF ok(1)]
  show ?thesis
    unfolding sfs_rwblock_def sfs_rwblock_retry.simps [of 0] DEVOP_IO_def
    using d(1) u(2)
    by (simp add: lhd_io_one [OF u(3) b d(5)])
      (rule wp_conseq [OF lhd_io_sector_read [OF d(2) u(1,2) res]],
        use d(6) after in \<open>auto simp: lhd_after_def disk_def LHD_SECTSIZE_def lhd_result_of_def\<close>)
qed

lemma rwblock_write:
  assumes ok: "fs_ok s" "b < nblocks s" and u: "uio_ok u" "uio_rw u = UIO_WRITE" "uio_at_block u b"
  shows "wp sfs_rwblock
    (\<lambda>_ (t, u'). dev_step s ((disk s)(b := map (uio_mem u) (take 512 (uio_addrs u)))) t \<and> uio_moved 512 u u' \<and>
       uio_mem u' = uio_mem u)
    (\<lambda>e (t, u'). e = EFAULT \<and> uio_segflg u \<noteq> UIO_SYSSPACE \<and> dev_step s (disk s) t \<and> (\<exists>k<512. uio_moved k u u')) (s, u)"
proof -
  note d = dev_okD [OF ok(1)]
  have b: "b < d_blocks (sfs_dev s)" using ok d(4) by simp
  have res: "LHD_SECTSIZE \<le> uio_resid u" using u(3) by (simp add: uio_at_block_def)
  note after = dev_step_after [OF ok(1)]
  show ?thesis
    unfolding sfs_rwblock_def sfs_rwblock_retry.simps [of 0] DEVOP_IO_def
    using d(1) u(2)
    by (simp add: lhd_io_one [OF u(3) b d(5)])
      (rule wp_conseq [OF lhd_io_sector_write [OF d(2) u(1,2) res]],
        use d(6) after in \<open>auto simp: lhd_after_def disk_def LHD_SECTSIZE_def lhd_result_of_def\<close>)
qed

subsection \<open>Reading\<close>

text \<open>
  \<open>read_step n off s v u t u'\<close>: \<open>n\<close> bytes of the file from offset \<open>off\<close> on went into the
  descriptor's memory, and nothing else happened.
\<close>

definition read_step :: "nat \<Rightarrow> nat \<Rightarrow> sfs_fs \<Rightarrow> sfs_vnode \<Rightarrow> uenv \<Rightarrow> sfs_fs \<Rightarrow> uenv \<Rightarrow> bool" where
  "read_step n off s v u t u' \<longleftrightarrow> dev_step s (disk s) t \<and> uio_moved n u u' \<and>
     uio_mem u' = mem_put (uio_mem u) (take n (uio_addrs u)) (take n (drop off (file_data (disk s) (sv_i v))))"

definition read_fault :: "sfs_fs \<Rightarrow> uenv \<Rightarrow> errno \<Rightarrow> sfs_fs \<Rightarrow> uenv \<Rightarrow> bool" where
  "read_fault s u e t u' \<longleftrightarrow> e = EFAULT \<and> uio_segflg u \<noteq> UIO_SYSSPACE \<and> dev_step s (disk s) t \<and>
     (\<exists>k\<le>uio_resid u. uio_moved k u u')"

lemma uio_moved_len: "uio_moved k u u' \<Longrightarrow> uio_ok u \<Longrightarrow> length (take k (uio_addrs u)) = k"
  by (simp add: uio_moved_def uio_ok_def)

lemma dev_step_trans: "dev_step s f t \<Longrightarrow> dev_step t g w \<Longrightarrow> dev_step s g w"
  by (rule bs.step_trans)

lemma read_step_trans:
  assumes "read_step n off s v u t u'" "read_step m (off + n) t v u' w u''" "uio_ok u" "off + n + m \<le> MAXFILE"
  shows "read_step (n + m) off s v u w u''"
proof -
  have d: "dev_step s (disk s) t" "disk t = disk s" using assms(1) dev_step_simps by (auto simp: read_step_def)
  have a: "uio_addrs u' = drop n (uio_addrs u)" using assms(1) by (simp add: read_step_def uio_moved_def)
  let ?f = "file_data (disk s) (sv_i v)"
  have "uio_mem u'' = mem_put (mem_put (uio_mem u) (take n (uio_addrs u)) (take n (drop off ?f)))
      (take m (drop n (uio_addrs u))) (take m (drop (off + n) ?f))"
    using assms(1,2) d a by (simp add: read_step_def)
  also have "\<dots> = mem_put (uio_mem u) (take n (uio_addrs u) @ take m (drop n (uio_addrs u)))
      (take n (drop off ?f) @ take m (drop (off + n) ?f))"
    using assms uio_moved_len [of n u u'] by (intro mem_put_append) (simp add: read_step_def)
  also have "take n (uio_addrs u) @ take m (drop n (uio_addrs u)) = take (n + m) (uio_addrs u)" by (simp add: take_add)
  also have "take n (drop off ?f) @ take m (drop (off + n) ?f) = take (n + m) (drop off ?f)"
    by (simp add: take_add add.commute [of off])
  finally show ?thesis
    using assms(1,2) d uio_moved_trans dev_step_trans by (auto simp: read_step_def)
qed

lemma read_fault_trans:
  assumes "read_step n off s v u t u'" "read_fault t u' e w u''"
  shows "read_fault s u e w u''"
proof -
  have d: "dev_step s (disk s) t" "disk t = disk s" using assms(1) dev_step_simps by (auto simp: read_step_def)
  obtain k where k: "uio_moved k u' u''" "k \<le> uio_resid u'" using assms(2) by (auto simp: read_fault_def)
  have m: "uio_moved n u u'" using assms(1) by (simp add: read_step_def)
  then have "uio_moved (n + k) u u''" using k(1) by (rule uio_moved_trans)
  moreover have "n + k \<le> uio_resid u" using m k(2) by (auto simp: uio_moved_def)
  moreover have "dev_step s (disk s) w" using assms(2) d dev_step_trans by (auto simp: read_fault_def)
  ultimately show ?thesis using assms(2) m by (auto simp: read_fault_def uio_moved_def)
qed

lemma off_block:
  assumes "off < 2 ^ 41"
  shows "u32_of_int (int off sdiv int SFS_BLOCKSIZE) = off div 512"
    "u32_of_int (int off smod int SFS_BLOCKSIZE) = off mod 512"
proof -
  have d: "int off sdiv 512 = int (off div 512)"
    by (cases "off = 0") (simp_all add: signed_divide_int_def sgn_if zdiv_int)
  have "off div 512 < 2 ^ 32" using assms by (simp add: div_less_iff_less_mult)
  then show "u32_of_int (int off sdiv int SFS_BLOCKSIZE) = off div 512"
    by (simp only: SFS_BLOCKSIZE_def of_nat_numeral d) simp
  have m: "int off smod 512 = int (off mod 512)"
    by (simp add: smod_mod_positive zmod_int)
  show "u32_of_int (int off smod int SFS_BLOCKSIZE) = off mod 512"
    by (simp only: SFS_BLOCKSIZE_def of_nat_numeral m) (simp add: u32_of_int_def)
qed

lemma uio_moved_fields:
  assumes "uio_moved k u u'"
  shows "uio_ok u'" "uio_rw u' = uio_rw u" "uio_resid u' = uio_resid u - k" "uio_offset u' = uio_offset u + int k"
    "uio_segflg u' = uio_segflg u" "k \<le> uio_resid u" "uio_addrs u' = drop k (uio_addrs u)"
  using assms by (simp_all add: uio_moved_def)

lemma off_split:
  assumes "off = fb * 512 + skip" "skip < (512 :: nat)" "fb < 143"
  shows "off div 512 = fb" "off < 2 ^ 41"
  using assms by auto

lemma sfs_partialio_read:
  assumes ok: "fs_ok s" "vn_at p s = Some v" "inode_ok s (sv_i v)"
    and u: "uio_ok u" "uio_rw u = UIO_READ" "uio_offset u = int off" "len \<le> uio_resid u"
    and off: "off = fb * 512 + skip" "skip < 512" "skip + len \<le> 512" "fb < 143"
  shows "wp (sfs_partialio p skip len) (\<lambda>_ (t, u'). read_step len off s v u t u')
    (\<lambda>e (t, u'). read_fault s u e t u') (s, u)"
proof -
  let ?b = "bmap_of (disk s) (sv_i v) ! fb"
  note fbo = off_split [OF off(1,2,4)]
  have blk: "u32_of_int (uio_offset u sdiv int SFS_BLOCKSIZE) = fb"
    using off_block(1) [OF fbo(2)] fbo(1) u(3) by simp
  have sum: "u32 (skip + len) \<le> SFS_BLOCKSIZE" using off by (simp add: SFS_BLOCKSIZE_def)
  have move: "wp (uiomove buf skip len) (\<lambda>_ u'. read_step len off s v u t u') (\<lambda>e u'. read_fault s u e t u') u"
    if t: "dev_step s (disk s) t" and buf: "buf = file_block (disk s) (sv_i v) fb" for t buf
  proof (rule wp_conseq [OF uiomove_wp [OF u(1,4)]], goal_cases)
    case 1
    show ?case using buf off ok by (simp add: length_file_block)
  next
    case (2 b' u')
    then show ?case
      using t u(2) buf file_data_block [OF ok(1) off(4,3), of "sv_i v"] off(1)
      by (simp add: read_step_def uio_data_def)
  next
    case (3 e u')
    then show ?case using t u(4) by (auto simp: read_fault_def intro: less_imp_le less_le_trans)
  qed
  have rd: "wp (if b = 0 then kthen (kassert (\<lambda>_. True)) (kret (replicate SFS_BLOCKSIZE 0))
                else on_fs (sfs_readblock b iobuf))
      (\<lambda>buf (t, u'). wp (uiomove buf skip len) (\<lambda>_ u'. read_step len off s v u t u') (\<lambda>e u'. read_fault s u e t u') u')
      (\<lambda>e (t, u'). read_fault s u e t u') (t, u)"
    if t: "b = ?b" "dev_step s (disk s) t" for b t
  proof (cases "b = 0")
    case True
    then show ?thesis
      using move [OF t(2)] t(1) by (simp add: file_block_def blk_bytes_def zeros_def SFS_BLOCKSIZE_def)
  next
    case False
    note b = inode_ok_nth [OF ok(1,3) off(4) t(1) False]
    note d = dev_step_simps [OF t(2)]
    show ?thesis
      using False
      by simp (rule wp_conseq [OF readblock_wp],
        use b d ok t(1) move dev_step_trans [OF t(2)] in \<open>auto simp: iobuf_zeros file_block_def blk_bytes_def\<close>)
  qed
  show ?thesis
    unfolding sfs_partialio_def
    using u(2) sum
    by (simp add: blk cong: if_cong)
      (rule wp_conseq [OF sfs_bmap_lookup [OF ok]], use rd off(4) in \<open>auto simp: case_prod_unfold cong: if_cong\<close>)
qed

text \<open>The window of one block that \<open>sfs_blockio\<close> puts on a descriptor, and its removal.\<close>

definition uio_window :: "int \<Rightarrow> uenv \<Rightarrow> uenv" where
  "uio_window diskoff u = u\<lparr>uio_offset := diskoff, uio_resid := 512\<rparr>"

definition uio_unwindow :: "int \<Rightarrow> uenv \<Rightarrow> uenv \<Rightarrow> uenv" where
  "uio_unwindow diskoff u w = w\<lparr>uio_offset := (uio_offset w - diskoff) + uio_offset u,
     uio_resid := u32_of_int ((int (uio_resid w) - 512) + int (uio_resid u))\<rparr>"

lemma uio_window_ok:
  assumes "uio_ok u" "512 \<le> uio_resid u"
  shows "uio_ok (uio_window d u)" "uio_addrs (uio_window d u) = uio_addrs u" "uio_mem (uio_window d u) = uio_mem u"
    "uio_rw (uio_window d u) = uio_rw u" "uio_segflg (uio_window d u) = uio_segflg u"
  using assms by (auto simp: uio_ok_def uio_window_def uio_addrs_def uio_mem_def)

lemma uio_unwindow_moved:
  assumes u: "uio_ok u" "512 \<le> uio_resid u" and w: "uio_moved k (uio_window d u) w"
  shows "uio_moved k u (uio_unwindow d u w)" "uio_mem (uio_unwindow d u w) = uio_mem w"
proof -
  have k: "k \<le> 512" "uio_resid w = 512 - k" "uio_offset w = d + int k" "uio_addrs w = drop k (uio_addrs u)" "uio_ok w"
    using w by (auto simp: uio_moved_def uio_window_def uio_addrs_def)
  have "(int (uio_resid w) - 512) + int (uio_resid u) = int (uio_resid u - k)"
    using k u(2) by linarith
  moreover have "uio_resid u - k < 2 ^ 32" using u(1) by (auto simp: uio_ok_def)
  ultimately have r: "u32_of_int ((int (uio_resid w) - 512) + int (uio_resid u)) = uio_resid u - k" by simp
  have a: "uio_addrs (uio_unwindow d u w) = drop k (uio_addrs u)" using k(4) by (simp add: uio_unwindow_def uio_addrs_def)
  have f: "uio_segflg w = uio_segflg u" "uio_rw w = uio_rw u" "uio_space w = uio_space u" "proc_as w = proc_as u"
    "ureadable w = ureadable u" "uwritable w = uwritable u"
    "if uio_segflg u = UIO_SYSSPACE then umem w = umem u else kmem w = kmem u"
    using w by (auto simp: uio_moved_def uio_window_def)
  have "uio_ok (uio_unwindow d u w)"
    using k u a r by (auto simp: uio_ok_def uio_unwindow_def)
  then show "uio_moved k u (uio_unwindow d u w)"
    using a f r k u by (auto simp: uio_moved_def uio_unwindow_def)
  show "uio_mem (uio_unwindow d u w) = uio_mem w" by (simp add: uio_unwindow_def uio_mem_def)
qed

text \<open>
  \<open>sfs_blockio\<close> multiplies the block number by the block size in 32 bits, so these
  specifications are for volumes of at most 4 GB.
\<close>

definition vol_small :: "sfs_fs \<Rightarrow> bool" where
  "vol_small s \<longleftrightarrow> nblocks s \<le> 2 ^ 23"

lemma vol_small_off: "vol_small s \<Longrightarrow> b < nblocks s \<Longrightarrow> u32 (b * SFS_BLOCKSIZE) = b * 512"
  by (simp add: vol_small_def SFS_BLOCKSIZE_def)

text \<open>The part of \<open>sfs_blockio\<close> behind the lookup of the block, as one transfer in the window.\<close>

definition blockio_transfer :: "nat \<Rightarrow> (sfs_fs \<times> uenv, unit) kfun" where
  "blockio_transfer b =
     kbind (kget (uio_offset \<circ> snd)) (\<lambda>saveoff.
       let diskoff = int (u32 (b * SFS_BLOCKSIZE)) in
       kthen (on_uio (kmod (\<lambda>u. u\<lparr>uio_offset := diskoff\<rparr>)))
       (kthen (kassert (\<lambda>(s, u). uio_resid u \<ge> SFS_BLOCKSIZE))
       (kbind (kget (uio_resid \<circ> snd)) (\<lambda>saveres.
        let diskres = SFS_BLOCKSIZE in
        kthen (on_uio (kmod (\<lambda>u. u\<lparr>uio_resid := diskres\<rparr>)))
        (kbind (ktry sfs_rwblock) (\<lambda>result.
         kthen (on_uio (kmod (\<lambda>u. u\<lparr>uio_offset := (uio_offset u - diskoff) + saveoff,
                    uio_resid := u32_of_int ((int (uio_resid u) - int diskres) + int saveres)\<rparr>)))
           (case result of Inl e \<Rightarrow> kfail e | Inr _ \<Rightarrow> kret ())))))))"

lemma blockio_transfer_wp:
  assumes "512 \<le> uio_resid u" "u32 (b * SFS_BLOCKSIZE) = b * 512"
  shows "wp (blockio_transfer b) Q E (s, u) =
    wp sfs_rwblock (\<lambda>x (t, w). Q x (t, uio_unwindow (int b * 512) u w))
      (\<lambda>e (t, w). E e (t, uio_unwindow (int b * 512) u w)) (s, uio_window (int b * 512) u)"
  using assms
  by (simp add: blockio_transfer_def Let_def uio_window_def SFS_BLOCKSIZE_def uio_unwindow_def case_prod_unfold)

lemma sfs_blockio_transfer:
  "sfs_blockio sv =
     kbind (kget (uio_rw \<circ> snd)) (\<lambda>rw.
     kbind (kget (\<lambda>(s, u). u32_of_int (uio_offset u sdiv int SFS_BLOCKSIZE))) (\<lambda>fileblock.
     kbind (on_fs (sfs_bmap sv fileblock (rw = UIO_WRITE))) (\<lambda>diskblock.
       if diskblock = 0 then kthen (kassert (\<lambda>_. rw = UIO_READ)) (on_uio (uiomovezeros SFS_BLOCKSIZE))
       else blockio_transfer diskblock)))"
  unfolding sfs_blockio_def blockio_transfer_def by (simp add: Let_def)

lemma uio_window_block:
  "uio_at_block (uio_window (int b * 512) u) b"
  by (simp add: uio_at_block_def uio_window_def LHD_SECTSIZE_def)

lemma sfs_blockio_read:
  assumes ok: "fs_ok s" "vol_small s" "vn_at p s = Some v" "inode_ok s (sv_i v)"
    and u: "uio_ok u" "uio_rw u = UIO_READ" "uio_offset u = int off" "512 \<le> uio_resid u"
    and off: "off = fb * 512" "fb < 143"
  shows "wp (sfs_blockio p) (\<lambda>_ (t, u'). read_step 512 off s v u t u')
    (\<lambda>e (t, u'). read_fault s u e t u') (s, u)"
proof -
  let ?b = "bmap_of (disk s) (sv_i v) ! fb" and ?blk = "file_block (disk s) (sv_i v) fb"
  have blk: "u32_of_int (uio_offset u sdiv int SFS_BLOCKSIZE) = fb"
    using off_block(1) [of off] off u(3) by simp
  have data: "take 512 (drop off (file_data (disk s) (sv_i v))) = ?blk"
    using file_data_block [OF ok(1) off(2), of 0 512 "sv_i v"] length_file_block [OF ok(1), of "sv_i v" fb] off(1) by simp
  have rest: "wp (if b = 0 then kthen (kassert (\<lambda>_. True)) (on_uio (uiomovezeros SFS_BLOCKSIZE)) else blockio_transfer b)
      (\<lambda>_ (t, u'). read_step 512 off s v u t u') (\<lambda>e (t, u'). read_fault s u e t u') (t, u)"
    if t: "b = ?b" "dev_step s (disk s) t" for b t
  proof (cases "b = 0")
    case True
    then have z: "?blk = replicate 512 0" using t(1) by (simp add: file_block_def blk_bytes_def zeros_def)
    show ?thesis
      using True u t(2)
      by (simp add: SFS_BLOCKSIZE_def)
        (rule wp_conseq [OF uiomovezeros_wp], auto simp: read_step_def read_fault_def data z intro: less_imp_le less_le_trans)
  next
    case False
    note b = inode_ok_nth [OF ok(1,4) off(2) t(1) False]
    note d = dev_step_simps [OF t(2)]
    have sz: "u32 (b * SFS_BLOCKSIZE) = b * 512" by (rule vol_small_off [OF ok(2) b(1)])
    have bl: "?blk = disk s b" using False t(1) by (simp add: file_block_def blk_bytes_def)
    let ?o = "int b * 512"
    note w = uio_window_ok [OF u(1,4)] and uw = uio_unwindow_moved [OF u(1,4)]
    have "wp sfs_rwblock (\<lambda>x (t', w). read_step 512 off s v u t' (uio_unwindow ?o u w))
      (\<lambda>e (t', w). read_fault s u e t' (uio_unwindow ?o u w)) (t, uio_window ?o u)"
    proof (rule wp_conseq [OF rwblock_read [where b = b]], goal_cases)
      case (6 x y)
      then show ?case
        using uw d(1) dev_step_trans [OF t(2)]
        by (auto simp: read_step_def data bl w)
    next
      case (7 e y)
      then show ?case
        using uw d(1) dev_step_trans [OF t(2)] u(4)
        by (auto simp: read_fault_def w intro: less_imp_le less_le_trans)
    qed (use b d ok u w in \<open>auto intro: uio_window_block\<close>)
    then show ?thesis
      using False blockio_transfer_wp [OF u(4) sz] by simp
  qed
  show ?thesis
    unfolding sfs_blockio_transfer
    using u(2)
    by (simp add: blk cong: if_cong)
      (rule wp_conseq [OF sfs_bmap_lookup [OF ok(1,3,4)]],
        use rest off(2) in \<open>auto simp: case_prod_unfold cong: if_cong\<close>)
qed

lemma read_step_keeps:
  assumes "read_step n off s v u t u'" "fs_ok s" "vol_small s" "vn_at p s = Some v" "inode_ok s (sv_i v)"
  shows "fs_ok t" "vol_small t" "vn_at p t = Some v" "inode_ok t (sv_i v)" "disk t = disk s" "uio_moved n u u'"
  using assms dev_step_simps [of s "disk s" t] by (auto simp: read_step_def vol_small_def inode_ok_def)

lemma read_step_0: "fs_ok s \<Longrightarrow> uio_ok u \<Longrightarrow> read_step 0 off s v u s u"
  by (simp add: read_step_def dev_step_refl uio_moved_0)

subsection \<open>A transfer in pieces\<close>

text \<open>
  \<open>sfs_io\<close> moves the data between a file and a descriptor in pieces: a partial block, whole
  blocks, a partial block. \<open>step n off x y\<close> says that \<open>n\<close> bytes at offset \<open>off\<close> of the file
  moved between the states \<open>x\<close> and \<open>y\<close> of volume and descriptor; what the pieces promise, the
  whole transfer promises.
\<close>

lemma next_block: "off = fb * 512 + skip \<Longrightarrow> skip < 512 \<Longrightarrow> off + (512 - skip) = Suc fb * (512 :: nat)"
  by simp

lemma block_below: "off = fb * 512 + skip \<Longrightarrow> off \<le> MAXFILE \<Longrightarrow> skip \<noteq> 0 \<Longrightarrow> fb < 143"
  by (simp add: MAXFILE_def)

locale file_io =
  fixes sv :: nat
    and good :: "nat \<Rightarrow> sfs_fs \<times> uenv \<Rightarrow> bool"
    and step :: "nat \<Rightarrow> nat \<Rightarrow> sfs_fs \<times> uenv \<Rightarrow> sfs_fs \<times> uenv \<Rightarrow> bool"
    and fault :: "sfs_fs \<times> uenv \<Rightarrow> errno \<Rightarrow> sfs_fs \<times> uenv \<Rightarrow> bool"
  assumes partial_wp: "\<And>off x fb skip len. good off x \<Longrightarrow> off = fb * 512 + skip \<Longrightarrow> skip < 512 \<Longrightarrow> skip + len \<le> 512 \<Longrightarrow>
      fb < 143 \<Longrightarrow> len \<le> uio_resid (snd x) \<Longrightarrow> wp (sfs_partialio sv skip len) (\<lambda>_. step len off x) (fault x) x"
    and block_wp: "\<And>off x fb. good off x \<Longrightarrow> off = fb * 512 \<Longrightarrow> fb < 143 \<Longrightarrow> 512 \<le> uio_resid (snd x) \<Longrightarrow>
      wp (sfs_blockio sv) (\<lambda>_. step 512 off x) (fault x) x"
    and good_off: "\<And>off x. good off x \<Longrightarrow> uio_offset (snd x) = int off"
    and step_good: "\<And>off x n y. good off x \<Longrightarrow> step n off x y \<Longrightarrow>
      good (off + n) y \<and> uio_resid (snd y) = uio_resid (snd x) - n"
    and step_refl: "\<And>off x. good off x \<Longrightarrow> step 0 off x x"
    and step_trans: "\<And>off x n y m z. good off x \<Longrightarrow> step n off x y \<Longrightarrow> step m (off + n) y z \<Longrightarrow>
      off + n + m \<le> MAXFILE \<Longrightarrow> step (n + m) off x z"
    and fault_trans: "\<And>off x n y e z. good off x \<Longrightarrow> step n off x y \<Longrightarrow> fault y e z \<Longrightarrow> fault x e z"
begin

lemma then_wp:
  assumes "good off x" "step n off x y" "off + n + m \<le> MAXFILE" "wp k (\<lambda>_. step m (off + n) y) (fault y) y"
  shows "wp k (\<lambda>_. step (n + m) off x) (fault x) y"
  by (rule wp_conseq [OF assms(4)]) (use assms(1-3) step_trans fault_trans in blast)+

lemma blocks_wp:
  assumes "good (fb * 512) x" "k * 512 \<le> uio_resid (snd x)" "fb + k \<le> 143"
  shows "wp (sfs_io_blocks sv k) (\<lambda>_. step (k * 512) (fb * 512) x) (fault x) x"
  using assms
proof (induction k arbitrary: x fb)
  case 0
  then show ?case using step_refl by simp
next
  case (Suc k)
  have "wp (sfs_io_blocks sv k) (\<lambda>_. step (512 + k * 512) (fb * 512) x) (fault x) y"
    if y: "step 512 (fb * 512) x y" for y
  proof (rule then_wp [OF Suc.prems(1) y])
    show "fb * 512 + 512 + k * 512 \<le> MAXFILE" using Suc.prems(3) by (simp add: MAXFILE_def)
    have "good (Suc fb * 512) y" "k * 512 \<le> uio_resid (snd y)"
      using step_good [OF Suc.prems(1) y] Suc.prems(2) by (simp_all add: add.commute)
    then have "wp (sfs_io_blocks sv k) (\<lambda>_. step (k * 512) (Suc fb * 512) y) (fault y) y"
      using Suc.prems(3) by (intro Suc.IH) simp_all
    then show "wp (sfs_io_blocks sv k) (\<lambda>_. step (k * 512) (fb * 512 + 512) y) (fault y) y"
      by (simp add: add.commute)
  qed
  then show ?case
    using Suc.prems by simp (rule wp_conseq [OF block_wp [where fb = fb]], auto)
qed

lemma tail_wp:
  assumes "good (fb * 512) x" "uio_resid (snd x) < 512" "fb * 512 + uio_resid (snd x) \<le> MAXFILE"
  shows "wp (sfs_io_tail sv) (\<lambda>_. step (uio_resid (snd x)) (fb * 512) x) (fault x) x"
proof (cases "uio_resid (snd x) = 0")
  case True
  then show ?thesis using step_refl [OF assms(1)] by (simp add: sfs_io_tail_def SFS_BLOCKSIZE_def case_prod_unfold)
next
  case False
  then have "fb < 143" using assms(3) by (simp add: MAXFILE_def)
  then show ?thesis using partial_wp [OF assms(1), of fb 0 "uio_resid (snd x)"] assms(2) False
    by (simp add: sfs_io_tail_def SFS_BLOCKSIZE_def case_prod_unfold)
qed

lemma aligned_wp:
  assumes g: "good (fb * 512) x" and fit: "fb * 512 + uio_resid (snd x) \<le> MAXFILE"
  shows "wp (sfs_io_aligned sv) (\<lambda>_. step (uio_resid (snd x)) (fb * 512) x) (fault x) x"
proof (cases "uio_resid (snd x) = 0")
  case True
  then show ?thesis using step_refl [OF g] by (simp add: sfs_io_aligned_def)
next
  case False
  let ?r = "uio_resid (snd x)" and ?k = "uio_resid (snd x) div 512"
  have k: "?k * 512 \<le> ?r" "fb + ?k \<le> 143" "?r - ?k * 512 = ?r mod 512" "?k * 512 + ?r mod 512 = ?r"
    using fit by (simp_all add: MAXFILE_def minus_div_mult_eq_mod)
  have al: "uio_offset (snd x) smod 512 = 0"
    using good_off [OF g] by (simp add: smod_mod_positive)
  have rest: "wp (sfs_io_tail sv) (\<lambda>_. step (?k * 512 + ?r mod 512) (fb * 512) x) (fault x) y"
    if y: "step (?k * 512) (fb * 512) x y" for y
  proof (rule then_wp [OF g y])
    show "fb * 512 + ?k * 512 + ?r mod 512 \<le> MAXFILE" using fit k(4) by simp
    have gy: "good ((fb + ?k) * 512) y" "uio_resid (snd y) = ?r mod 512"
      using step_good [OF g y] k(3) by (simp_all add: add_mult_distrib)
    have "(fb + ?k) * 512 + uio_resid (snd y) \<le> MAXFILE" using gy(2) fit k(4) by (simp add: add_mult_distrib)
    from tail_wp [OF gy(1) _ this]
    show "wp (sfs_io_tail sv) (\<lambda>_. step (?r mod 512) (fb * 512 + ?k * 512) y) (fault y) y"
      using gy(2) by (simp add: add_mult_distrib)
  qed
  show ?thesis
    unfolding sfs_io_aligned_def
    using False al
    by (simp add: SFS_BLOCKSIZE_def case_prod_unfold)
      (rule wp_conseq [OF blocks_wp [OF g k(1,2)]], use rest k(4) in auto)
qed

lemma body_wp:
  assumes g: "good off x" and fit: "off + uio_resid (snd x) \<le> MAXFILE"
  shows "wp (sfs_io_body sv) (\<lambda>_. step (uio_resid (snd x)) off x) (fault x) x"
proof -
  let ?skip = "off mod 512" and ?fb = "off div 512" and ?r = "uio_resid (snd x)"
  have split: "off = ?fb * 512 + ?skip" "?skip < 512" by simp_all
  have "off < 2 ^ 41" using fit by (simp add: MAXFILE_def)
  then have blkoff: "u32_of_int (uio_offset (snd x) smod int SFS_BLOCKSIZE) = ?skip"
    using off_block(2) good_off [OF g] by simp
  show ?thesis
  proof (cases "?skip = 0")
    case True
    then have "off = ?fb * 512" using split(1) by simp
    then have "wp (sfs_io_aligned sv) (\<lambda>_. step ?r off x) (fault x) x"
      using aligned_wp [of ?fb x] g fit by simp
    then show ?thesis
      unfolding sfs_io_body_def using True blkoff by (simp add: case_prod_unfold)
  next
    case False
    define len where "len = (if 512 - ?skip > ?r then ?r else 512 - ?skip)"
    have len: "?skip + len \<le> 512" "len \<le> ?r" "len + (?r - len) = ?r" by (auto simp: len_def)
    have "wp (sfs_io_aligned sv) (\<lambda>_. step (len + (?r - len)) off x) (fault x) y" if y: "step len off x y" for y
    proof (rule then_wp [OF g y])
      show "off + len + (?r - len) \<le> MAXFILE" using fit len by simp
      have gy: "good (off + len) y" "uio_resid (snd y) = ?r - len" using step_good [OF g y] by simp_all
      show "wp (sfs_io_aligned sv) (\<lambda>_. step (?r - len) (off + len) y) (fault y) y"
      proof (cases "?r - len = 0")
        case True
        then show ?thesis using gy step_refl [OF gy(1)] by (simp add: sfs_io_aligned_def)
      next
        case False
        then have "len = 512 - ?skip" by (simp add: len_def split: if_splits)
        then have "off + len = Suc ?fb * 512" using next_block [OF split] by simp
        then show ?thesis using aligned_wp [of "Suc ?fb" y] gy fit len by simp
      qed
    qed
    moreover have "?fb < 143" using block_below [OF split(1)] fit False by simp
    ultimately show ?thesis
      unfolding sfs_io_body_def using False blkoff len
      by (simp add: case_prod_unfold Let_def SFS_BLOCKSIZE_def len_def [symmetric] cong: if_cong)
        (rule wp_conseq [OF partial_wp [OF g split len(1)]], auto)
  qed
qed

end

definition read_good :: "nat \<Rightarrow> sfs_vnode \<Rightarrow> nat \<Rightarrow> sfs_fs \<times> uenv \<Rightarrow> bool" where
  "read_good p v off = (\<lambda>(s, u). fs_ok s \<and> vol_small s \<and> vn_at p s = Some v \<and> inode_ok s (sv_i v) \<and>
     uio_ok u \<and> uio_rw u = UIO_READ \<and> uio_offset u = int off)"

interpretation rd: file_io p "read_good p v" "\<lambda>n off (s, u) (t, u'). read_step n off s v u t u'"
  "\<lambda>(s, u) e (t, u'). read_fault s u e t u'" for p v
proof (unfold_locales, goal_cases)
  case (1 off x fb skip len)
  then show ?case
    using sfs_partialio_read [of "fst x" p v "snd x" off len fb skip] by (simp add: read_good_def case_prod_unfold)
next
  case (2 off x fb)
  then show ?case
    using sfs_blockio_read [of "fst x" p v "snd x" off fb] by (simp add: read_good_def case_prod_unfold)
next
  case (3 off x)
  then show ?case by (simp add: read_good_def case_prod_unfold)
next
  case (4 off x n y)
  then show ?case
    using read_step_keeps [of n off "fst x" v "snd x" "fst y" "snd y" p] uio_moved_fields [of n "snd x" "snd y"]
    by (simp add: read_good_def case_prod_unfold)
next
  case (5 off x)
  then show ?case by (simp add: read_good_def case_prod_unfold read_step_0)
next
  case (6 off x n y m z)
  then show ?case
    using read_step_trans [of n off "fst x" v "snd x" "fst y" "snd y" m "fst z" "snd z"]
    by (simp add: read_good_def case_prod_unfold)
next
  case (7 off x n y e z)
  then show ?case
    using read_fault_trans [of n off "fst x" v "snd x" "fst y" "snd y" e "fst z" "snd z"]
    by (simp add: case_prod_unfold)
qed

text \<open>The limit that \<open>sfs_io\<close> puts on the residual count of a read near the end of the file.\<close>

lemma uio_unclamp_moved:
  assumes u: "uio_ok u" "r \<le> uio_resid u" and w: "uio_moved k (u\<lparr>uio_resid := r\<rparr>) w"
    and t: "t = w\<lparr>uio_resid := u32 (uio_resid w + (uio_resid u - r))\<rparr>"
  shows "uio_moved k u t" "uio_mem t = uio_mem w"
proof -
  have k: "k \<le> r" "uio_resid w = r - k" "uio_offset w = uio_offset u + int k" "uio_addrs w = drop k (uio_addrs u)" "uio_ok w"
    using w by (auto simp: uio_moved_def uio_addrs_def)
  have "uio_resid u < 2 ^ 32" using u(1) by (simp add: uio_ok_def)
  then have r: "uio_resid t = uio_resid u - k" using k u(2) t by simp
  have a: "uio_addrs t = drop k (uio_addrs u)" using k(4) by (simp add: t uio_addrs_def)
  have "uio_ok t" using k u a r t by (auto simp: uio_ok_def)
  then show "uio_moved k u t" using a r k u w t by (auto simp: uio_moved_def)
  show "uio_mem t = uio_mem w" by (simp add: t uio_mem_def)
qed

lemma uio_clamp_ok:
  assumes "uio_ok u" "r \<le> uio_resid u"
  shows "uio_ok (u\<lparr>uio_resid := r\<rparr>)" "uio_addrs (u\<lparr>uio_resid := r\<rparr>) = uio_addrs u"
    "uio_mem (u\<lparr>uio_resid := r\<rparr>) = uio_mem u"
  using assms by (auto simp: uio_ok_def uio_addrs_def uio_mem_def)

lemma sfs_io_read_clamped:
  assumes ok: "fs_ok s" "vol_small s" "vn_at p s = Some v" "inode_ok s (sv_i v)"
    and u: "uio_ok u" "uio_rw u = UIO_READ" "uio_offset u = int off"
    and n: "n \<le> uio_resid u" "off + n \<le> MAXFILE"
    and x: "x = uio_resid u - n"
  shows "wp (kbind (ktry (sfs_io_body p)) (sfs_io_out p r UIO_READ x))
    (\<lambda>_ (t, u'). read_step n off s v u t u') (\<lambda>e (t, u'). read_fault s u e t u') (s, u\<lparr>uio_resid := n\<rparr>)"
proof -
  let ?u = "u\<lparr>uio_resid := n\<rparr>"
  note cl = uio_clamp_ok [OF u(1) n(1)] and uc = uio_unclamp_moved [OF u(1) n(1) _ refl]
  have g: "read_good p v off (s, ?u)" using ok u cl by (simp add: read_good_def)
  have vn: "vn_at p t = Some v" if "dev_step s (disk s) t" for t using that ok by (simp add: dev_step_simps)
  have un: "uio_moved k u (u'\<lparr>uio_resid := u32 (uio_resid u' + x)\<rparr>)" "uio_mem (u'\<lparr>uio_resid := u32 (uio_resid u' + x)\<rparr>) = uio_mem u'"
    if "uio_moved k ?u u'" for k u' using uc [OF that] x by simp_all
  show ?thesis
  proof (simp add: sfs_io_out_def case_prod_unfold, rule wp_conseq [OF rd.body_wp [OF g]], goal_cases)
    case 1
    show ?case using n by simp
  next
    case (2 y z)
    then have st: "read_step n off s v ?u (fst z) (snd z)" by (simp add: case_prod_unfold)
    then have "read_step n off s v u (fst z) ((snd z)\<lparr>uio_resid := u32 (uio_resid (snd z) + x)\<rparr>)"
      using un [of n "snd z"] cl by (simp add: read_step_def)
    then show ?case using vn st by (simp add: read_step_def)
  next
    case (3 e z)
    then have st: "read_fault s ?u e (fst z) (snd z)" by (simp add: case_prod_unfold)
    then have "read_fault s u e (fst z) ((snd z)\<lparr>uio_resid := u32 (uio_resid (snd z) + x)\<rparr>)"
      using un n(1) by (auto simp: read_fault_def intro: le_trans)
    then show ?case using vn st by (simp add: read_fault_def)
  qed
qed

text \<open>
  A read gives the bytes of the file from the offset on, as many as are asked for and there
  are before the end of the file.
\<close>

lemma sfs_io_read:
  assumes ok: "fs_ok s" "vol_small s" "vn_at p s = Some v" "inode_ok s (sv_i v)" "sfi_size (sv_i v) \<le> MAXFILE"
    and u: "uio_ok u" "uio_rw u = UIO_READ" "uio_offset u = int off"
  shows "wp (sfs_io p)
    (\<lambda>_ (t, u'). read_step (min (uio_resid u) (sfi_size (sv_i v) - off)) off s v u t u')
    (\<lambda>e (t, u'). read_fault s u e t u') (s, u)"
proof -
  let ?sz = "sfi_size (sv_i v)"
  have r: "uio_resid u < 2 ^ 32" using u(1) by (simp add: uio_ok_def)
  consider "?sz \<le> off" | "off < ?sz" "off + uio_resid u \<le> ?sz" | "off < ?sz" "?sz < off + uio_resid u" by linarith
  then show ?thesis
  proof cases
    case 1
    then show ?thesis
      using ok u by (simp add: sfs_io_def sfs_io_eof_def read_step_0 case_prod_unfold)
  next
    case 2
    have u': "u\<lparr>uio_resid := uio_resid u\<rparr> = u" by simp
    have "min (uio_resid u) (?sz - off) = uio_resid u" using 2 by simp
    then show ?thesis
      using 2 sfs_io_read_clamped [OF ok(1-4) u, of "uio_resid u" 0 "uio_resid u", unfolded u'] ok u
      by (simp add: sfs_io_def sfs_io_eof_def case_prod_unfold)
  next
    case 3
    define x where "x = off + uio_resid u - ?sz"
    have "int off + int (uio_resid u) - int ?sz = int x" "x < 2 ^ 32" using 3 r by (simp_all add: x_def)
    then have x: "u32_of_int (int off + int (uio_resid u) - int ?sz) = x" by (simp only: u32_of_int_nat)
    have n: "min (uio_resid u) (?sz - off) = ?sz - off" "uio_resid u - x = ?sz - off" "x < uio_resid u"
      "?sz - off \<le> uio_resid u" "off + (?sz - off) \<le> MAXFILE" "x = uio_resid u - (?sz - off)"
      using 3 ok(5) by (simp_all add: x_def)
    show ?thesis
      using 3 sfs_io_read_clamped [OF ok(1-4) u n(4-6), of "uio_resid u"] ok u n(1-3)
      by (simp add: sfs_io_def sfs_io_eof_def case_prod_unfold x Let_def)
  qed
qed

end
