(* ===== verification/Sfs_Write.thy ===== *)
theory Sfs_Write
  imports Sfs_Io
begin

text \<open>
  What writing does: \<open>sfs_partialio\<close>, \<open>sfs_blockio\<close>, \<open>sfs_io\<close> and \<open>sfs_metaio\<close> of
  \<open>kern/fs/sfs/sfs_io.c\<close> with a descriptor for writing replace bytes of the file and may grow
  it by free blocks.
\<close>

subsection \<open>Writing\<close>

lemma file_block_alloc:
  assumes al: "bmap_alloc p fb b s v t v'" and ok: "fs_ok s" "vn_at p s = Some v" "inode_ok s (sv_i v)"
  shows "disk t b = file_block (disk s) (sv_i v) fb"
    and "\<And>k. k < 143 \<Longrightarrow> file_block (disk t) (sv_i v') k = file_block (disk s) (sv_i v) k"
    and "bmap_of (disk t) (sv_i v') ! fb = b" and "b < nblocks s" and "b \<noteq> sfi_indirect (sv_i v')"
proof -
  let ?m = "bmap_of (disk s) (sv_i v)"
  have len: "length ?m = 143" using ok by (simp add: length_bmap_of inode_ok_def)
  have a: "fb < 143" "b \<noteq> 0" "bmap_of (disk t) (sv_i v') = ?m[fb := b]" "inode_step p s v t v'"
    using al by (simp_all add: bmap_alloc_def)
  show bm: "bmap_of (disk t) (sv_i v') ! fb = b" using a len by simp
  have t: "fs_ok t" "inode_ok t (sv_i v')" "fs_same s t" using a by (simp_all add: inode_step_def)
  show "b < nblocks s" "b \<noteq> sfi_indirect (sv_i v')"
    using inode_ok_nth [OF t(1,2) a(1) bm [symmetric] a(2)] t(3) by (simp_all add: fs_same_def)
  show new: "disk t b = file_block (disk s) (sv_i v) fb"
    using al by (auto simp: bmap_alloc_def file_block_def blk_bytes_def split: if_splits)
  show "file_block (disk t) (sv_i v') k = file_block (disk s) (sv_i v) k" if k: "k < 143" for k
  proof (cases "k = fb")
    case True
    then show ?thesis using new bm a(2) by (simp add: file_block_def blk_bytes_def)
  next
    case False
    then have "bmap_of (disk t) (sv_i v') ! k = ?m ! k" using a by simp
    moreover have "?m ! k \<in> set ?m" using k len by simp
    moreover have "\<forall>c \<in> set ?m - {0}. disk t c = disk s c" using al by (simp add: bmap_alloc_def)
    ultimately show ?thesis by (simp add: file_block_def blk_bytes_def)
  qed
qed

text \<open>Overwriting one of the file's own blocks.\<close>

lemma inode_ok_nth_inj:
  assumes "fs_ok s" "inode_ok s i" "j < 143" "k < 143" "j \<noteq> k" "bmap_of (disk s) i ! j \<noteq> 0"
  shows "bmap_of (disk s) i ! k \<noteq> bmap_of (disk s) i ! j"
proof -
  have "no_share (bmap_of (disk s) i)" "length (bmap_of (disk s) i) = 143"
    using assms(1,2) by (simp_all add: inode_ok_def length_bmap_of)
  then show ?thesis using assms(3-) unfolding no_share_nth by metis
qed

lemma write_own_block:
  assumes ok: "fs_ok s" "vn_at p s = Some v" "inode_ok s (sv_i v)"
    and b: "bmap_of (disk s) (sv_i v) ! fb = b" "fb < 143" "b \<noteq> 0"
    and w: "dev_step s ((disk s)(b := x)) t"
  shows "inode_step p s v t v" and "bmap_of (disk t) (sv_i v) = bmap_of (disk s) (sv_i v)"
    and "\<And>k. k < 143 \<Longrightarrow> file_block (disk t) (sv_i v) k = (if k = fb then x else file_block (disk s) (sv_i v) k)"
proof -
  let ?i = "sv_i v"
  note d = dev_step_simps [OF w]
  note own = inode_ok_nth [OF ok(1,3) b(2) b(1) [symmetric] b(3)]
  show m: "bmap_of (disk t) ?i = bmap_of (disk s) ?i"
    by (rule bmap_of_cong) (use own(3) d(1) in auto)
  then have blocks: "inode_blocks (disk t) ?i = inode_blocks (disk s) ?i" by (simp add: inode_blocks_def)
  have "inode_ok t ?i" using ok(3) unfolding inode_ok_def blocks m by (simp add: d)
  then show "inode_step p s v t v"
    unfolding inode_step_def blocks using ok own(4) by (auto simp: d)
  show "file_block (disk t) ?i k = (if k = fb then x else file_block (disk s) ?i k)" if k: "k < 143" for k
  proof (cases "k = fb")
    case False
    then have "bmap_of (disk s) ?i ! k \<noteq> b"
      using inode_ok_nth_inj [OF ok(1,3) b(2) k] b by auto
    then show ?thesis unfolding file_block_def m using False by (simp add: blk_bytes_def d(1))
  next
    case True
    then show ?thesis unfolding file_block_def m using b by (simp add: blk_bytes_def d(1))
  qed
qed

text \<open>
  \<open>wrote p off data s v t v'\<close>: the file's bytes at \<open>off\<close> were replaced by \<open>data\<close>; its size is
  still the old one.
\<close>

definition wrote :: "nat \<Rightarrow> nat \<Rightarrow> byte list \<Rightarrow> sfs_fs \<Rightarrow> sfs_vnode \<Rightarrow> sfs_fs \<Rightarrow> sfs_vnode \<Rightarrow> bool" where
  "wrote p off data s v t v' \<longleftrightarrow> inode_step p s v t v' \<and> sfi_size (sv_i v') = sfi_size (sv_i v) \<and>
     file_data (disk t) (sv_i v') = splice_at off data (file_data (disk s) (sv_i v))"

lemma wrote_block:
  assumes ok: "fs_ok s" "vn_at p s = Some v" "inode_ok s (sv_i v)"
    and al: "bmap_alloc p fb b s v t v'" and off: "off = fb * 512 + skip" "skip + length data \<le> 512"
    and w: "dev_step t ((disk t)(b := splice_at skip data (disk t b))) w"
  shows "wrote p off data s v w v'"
proof -
  note fa = file_block_alloc [OF al ok]
  have a: "fb < 143" "b \<noteq> 0" "inode_step p s v t v'" "sfi_size (sv_i v') = sfi_size (sv_i v)" using al by (simp_all add: bmap_alloc_def)
  have t: "fs_ok t" "inode_ok t (sv_i v')" "vn_at p t = Some v'"
    using a ok inode_step_vn_at [OF a(3)] by (simp_all add: inode_step_def)
  note wo = write_own_block [OF t(1,3,2) fa(3) a(1,2) w]
  have "inode_step p s v w v'" using a(3) wo(1) by (rule inode_step_trans)
  moreover have "file_data (disk w) (sv_i v') = splice_at (fb * 512 + skip) data (file_data (disk s) (sv_i v))"
    by (rule file_data_write [OF ok(1) a(1) off(2)]) (simp_all add: wo(3) fa(1,2) a(1))
  ultimately show ?thesis using a(4) off(1) by (simp add: wrote_def)
qed

lemma file_data_cong:
  "(\<And>k. k < 143 \<Longrightarrow> file_block d' i' k = file_block d i k) \<Longrightarrow> file_data d' i' = file_data d i"
  by (simp add: file_data_def MAXFILE_def)

lemma wrote_nothing:
  assumes "inode_step p s v t v'" "bmap_same s v t v'" "fs_ok s" "inode_ok s (sv_i v)"
  shows "wrote p off [] s v t v'"
proof -
  have len: "length (bmap_of (disk s) (sv_i v)) = 143" using assms by (simp add: length_bmap_of inode_ok_def)
  have "file_block (disk t) (sv_i v') k = file_block (disk s) (sv_i v) k" if "k < 143" for k
    using assms(2) len that by (simp add: bmap_same_def file_block_def blk_bytes_def)
  then have "file_data (disk t) (sv_i v') = file_data (disk s) (sv_i v)" by (rule file_data_cong)
  then show ?thesis using assms by (simp add: wrote_def bmap_same_def)
qed

lemma bmap_alloc_wrote_nothing:
  assumes "bmap_alloc p fb b s v t v'" "fs_ok s" "vn_at p s = Some v" "inode_ok s (sv_i v)"
  shows "wrote p off [] s v t v'"
  using assms file_data_cong [OF file_block_alloc(2) [OF assms]] by (simp add: wrote_def bmap_alloc_def)

lemma wrote_trans:
  assumes "wrote p off xs s v t v'" "wrote p (off + length xs) ys t v' w v''" "off + length xs + length ys \<le> MAXFILE"
  shows "wrote p off (xs @ ys) s v w v''"
proof -
  have "splice_at (off + length xs) ys (splice_at off xs (file_data (disk s) (sv_i v))) =
      splice_at off (xs @ ys) (file_data (disk s) (sv_i v))"
    using assms(3) by (intro splice_at_append) simp
  then show ?thesis using assms inode_step_trans by (auto simp: wrote_def)
qed

definition uio_bytes :: "nat \<Rightarrow> uenv \<Rightarrow> byte list" where
  "uio_bytes n u = map (uio_mem u) (take n (uio_addrs u))"

lemma length_uio_bytes [simp]: "uio_ok u \<Longrightarrow> n \<le> uio_resid u \<Longrightarrow> length (uio_bytes n u) = n"
  by (simp add: uio_bytes_def uio_ok_def)

lemma uio_bytes_0 [simp]: "uio_bytes 0 u = []"
  by (simp add: uio_bytes_def)

lemma uio_bytes_moved:
  "uio_moved n u u' \<Longrightarrow> uio_mem u' = uio_mem u \<Longrightarrow> uio_bytes (n + m) u = uio_bytes n u @ uio_bytes m u'"
  by (simp add: uio_bytes_def uio_moved_def take_add)

definition write_good :: "nat \<Rightarrow> nat \<Rightarrow> sfs_fs \<times> uenv \<Rightarrow> bool" where
  "write_good p off = (\<lambda>(s, u). fs_ok s \<and> vol_small s \<and> (\<exists>v. vn_at p s = Some v \<and> inode_ok s (sv_i v)) \<and>
     uio_ok u \<and> uio_rw u = UIO_WRITE \<and> uio_offset u = int off)"

definition write_step :: "nat \<Rightarrow> nat \<Rightarrow> nat \<Rightarrow> sfs_fs \<times> uenv \<Rightarrow> sfs_fs \<times> uenv \<Rightarrow> bool" where
  "write_step p n off = (\<lambda>(s, u) (t, u'). uio_moved n u u' \<and> uio_mem u' = uio_mem u \<and>
     (\<exists>v v'. vn_at p s = Some v \<and> vn_at p t = Some v' \<and> wrote p off (uio_bytes n u) s v t v'))"

text \<open>A failed write has stored a prefix of the bytes taken from the descriptor.\<close>

definition write_fault :: "nat \<Rightarrow> sfs_fs \<times> uenv \<Rightarrow> errno \<Rightarrow> sfs_fs \<times> uenv \<Rightarrow> bool" where
  "write_fault p = (\<lambda>(s, u) e (t, u'). (e = EFAULT \<and> uio_segflg u \<noteq> UIO_SYSSPACE \<or> e = ENOSPC) \<and>
     (\<exists>v v' k j. vn_at p s = Some v \<and> vn_at p t = Some v' \<and> wrote p (nat (uio_offset u)) (uio_bytes k u) s v t v' \<and>
        nat (uio_offset u) + k \<le> MAXFILE \<and> k \<le> j \<and> uio_moved j u u'))"

lemma write_stepI:
  "uio_moved n u u' \<Longrightarrow> uio_mem u' = uio_mem u \<Longrightarrow> vn_at p s = Some v \<Longrightarrow> wrote p off (uio_bytes n u) s v t v' \<Longrightarrow>
   write_step p n off (s, u) (t, u')"
  using inode_step_vn_at(1) [of p s v t v'] by (auto simp: write_step_def wrote_def)

lemma write_faultI:
  assumes e: "e = EFAULT \<and> uio_segflg u \<noteq> UIO_SYSSPACE \<or> e = ENOSPC" and v: "vn_at p s = Some v"
    and w: "\<And>off. wrote p off [] s v t v'" and u: "uio_moved j u u'" "uio_offset u = int off" "off \<le> MAXFILE"
  shows "write_fault p (s, u) e (t, u')"
proof -
  have "vn_at p t = Some v'" using w inode_step_vn_at(1) [OF _ v] by (simp add: wrote_def)
  moreover have "wrote p (nat (uio_offset u)) (uio_bytes 0 u) s v t v' \<and> nat (uio_offset u) + 0 \<le> MAXFILE \<and> 0 \<le> j \<and> uio_moved j u u'"
    using w u by simp
  ultimately show ?thesis unfolding write_fault_def prod.case using e v by blast
qed

lemma wrote_dev_step:
  assumes "wrote p off xs s v t v'" "dev_step t (disk t) w" "vn_at p s = Some v"
  shows "wrote p off xs s v w v'"
proof -
  have t: "fs_ok t" "inode_ok t (sv_i v')" "inode_step p s v t v'" using assms(1) by (simp_all add: wrote_def inode_step_def)
  have "inode_step p t v' w v'" "bmap_same t v' w v'"
    using dev_step_inode [OF assms(2) t(1) _ t(2)] inode_step_vn_at(1) [OF t(3) assms(3)] by auto
  then show ?thesis using assms(1) inode_step_trans [OF t(3)] dev_step_simps(1) [OF assms(2)] by (simp add: wrote_def)
qed

lemma sfs_partialio_write:
  assumes ok: "fs_ok s" "vn_at p s = Some v" "inode_ok s (sv_i v)"
    and u: "uio_ok u" "uio_rw u = UIO_WRITE" "uio_offset u = int off" "len \<le> uio_resid u"
    and off: "off = fb * 512 + skip" "skip < 512" "skip + len \<le> 512" "fb < 143"
  shows "wp (sfs_partialio p skip len) (\<lambda>_. write_step p len off (s, u)) (write_fault p (s, u)) (s, u)"
proof -
  note fbo = off_split [OF off(1,2,4)]
  have blk: "u32_of_int (uio_offset u sdiv int SFS_BLOCKSIZE) = fb"
    using off_block(1) [OF fbo(2)] fbo(1) u(3) by simp
  have mx: "off \<le> MAXFILE" using off by (simp add: MAXFILE_def)
  have sum: "u32 (skip + len) \<le> SFS_BLOCKSIZE" using off by (simp add: SFS_BLOCKSIZE_def)
  have lb: "skip + length (uio_bytes len u) \<le> 512" using u off by simp
  have rest: "wp (kbind (on_fs (sfs_readblock b iobuf)) (\<lambda>buf.
        kbind (on_uio (uiomove buf skip len)) (\<lambda>buf'. on_fs (sfs_writeblock b buf'))))
      (\<lambda>_. write_step p len off (s, u)) (write_fault p (s, u)) (t, u)"
    if al: "bmap_alloc p fb b s v t v'" for b t v'
  proof -
    note fa = file_block_alloc [OF al ok]
    have t: "fs_ok t" "b < nblocks t" using al fa by (auto simp: bmap_alloc_def inode_step_def fs_same_def)
    have wr: "wp (sfs_writeblock b (splice_at skip (uio_bytes len u) (disk t b)))
        (\<lambda>_ w. write_step p len off (s, u) (w, u')) (\<lambda>e w. write_fault p (s, u) e (w, u')) t2"
      if t2: "dev_step t (disk t) t2" and u': "uio_moved len u u'" "uio_mem u' = uio_mem u" for t2 u'
    proof (rule wp_conseq [OF writeblock_wp], goal_cases)
      case (4 x w)
      then have "dev_step t ((disk t)(b := splice_at skip (uio_bytes len u) (disk t b))) w"
        using dev_step_trans [OF t2] dev_step_simps(1) [OF t2] by simp
      from write_stepI [OF u' ok(2) wrote_block [OF ok al off(1) lb this]] show ?case .
    qed (use t lb dev_step_simps [OF t2] in simp_all)
    have mv: "wp (uiomove (disk t b) skip len)
        (\<lambda>buf' u'. wp (sfs_writeblock b buf') (\<lambda>_ w. write_step p len off (s, u) (w, u'))
           (\<lambda>e w. write_fault p (s, u) e (w, u')) t2)
        (\<lambda>e u'. write_fault p (s, u) e (t2, u')) u"
      if t2: "dev_step t (disk t) t2" for t2
    proof (rule wp_conseq [OF uiomove_wp [OF u(1,4)]], goal_cases)
      case 1
      then show ?case using off t by simp
    next
      case (2 buf' u')
      then have f: "uio_moved len u u'" "uio_mem u' = uio_mem u" "buf' = splice_at skip (uio_bytes len u) (disk t b)"
        using u(2) by (simp_all add: uio_data_def uio_bytes_def)
      show ?case unfolding f(3) by (rule wr [OF t2 f(1,2)])
    next
      case (3 e u')
      then obtain k where "e = EFAULT \<and> uio_segflg u \<noteq> UIO_SYSSPACE \<or> e = ENOSPC" "uio_moved k u u'" by blast
      moreover have "wrote p off [] s v t2 v'" for off by (rule wrote_dev_step [OF bmap_alloc_wrote_nothing [OF al ok] t2 ok(2)])
      ultimately show ?case by (intro write_faultI [OF _ ok(2) _ _ u(3) mx, where v' = v'])
    qed
    show ?thesis
      by simp (rule wp_conseq [OF readblock_wp], use t mv in \<open>auto simp: iobuf_zeros\<close>)
  qed
  have nz: "b \<noteq> 0" if "bmap_alloc p fb b s v t v'" for b t v' using that by (simp add: bmap_alloc_def)
  show ?thesis
    unfolding sfs_partialio_def
    using u(2) sum
  proof (simp add: blk cong: if_cong, intro wp_conseq [OF sfs_bmap_alloc [OF ok]], goal_cases)
    case (1 b t)
    then obtain v' where al: "bmap_alloc p fb b s v t v'" by blast
    then show ?case using rest [OF al] nz [OF al] by (simp cong: if_cong)
  next
    case (2 e t)
    then obtain v' where "e = ENOSPC" "inode_step p s v t v'" "bmap_same s v t v'"
      using off(4) by (auto simp: bmap_failed_def)
    then show ?case
      by (intro write_faultI [OF _ ok(2) _ _ u(3) mx, where v' = v' and j = 0] wrote_nothing [OF _ _ ok(1,3)] uio_moved_0 [OF u(1)]) simp_all
  qed
qed

lemma sfs_blockio_write:
  assumes ok: "fs_ok s" "vol_small s" "vn_at p s = Some v" "inode_ok s (sv_i v)"
    and u: "uio_ok u" "uio_rw u = UIO_WRITE" "uio_offset u = int off" "512 \<le> uio_resid u"
    and off: "off = fb * 512" "fb < 143"
  shows "wp (sfs_blockio p) (\<lambda>_. write_step p 512 off (s, u)) (write_fault p (s, u)) (s, u)"
proof -
  have blk: "u32_of_int (uio_offset u sdiv int SFS_BLOCKSIZE) = fb"
    using off_block(1) [of off] off u(3) by simp
  have mx: "off \<le> MAXFILE" using off by (simp add: MAXFILE_def)
  have lb: "length (uio_bytes 512 u) = 512" using u by simp
  note ok' = ok(1,3,4)
  have rest: "wp (blockio_transfer b) (\<lambda>_. write_step p 512 off (s, u)) (write_fault p (s, u)) (t, u)"
    if al: "bmap_alloc p fb b s v t v'" for b t v'
  proof -
    note fa = file_block_alloc [OF al ok']
    have t: "fs_ok t" "b < nblocks t" using al fa by (auto simp: bmap_alloc_def inode_step_def fs_same_def)
    have sz: "u32 (b * SFS_BLOCKSIZE) = b * 512" by (rule vol_small_off [OF ok(2) fa(4)])
    let ?o = "int b * 512"
    note w = uio_window_ok [OF u(1,4)] and uw = uio_unwindow_moved [OF u(1,4)]
    have "wp sfs_rwblock (\<lambda>x (t', w). write_step p 512 off (s, u) (t', uio_unwindow ?o u w))
      (\<lambda>e (t', w). write_fault p (s, u) e (t', uio_unwindow ?o u w)) (t, uio_window ?o u)"
    proof (rule wp_conseq [OF rwblock_write [where b = b]], goal_cases)
      case (6 x y)
      obtain t' u' where y: "y = (t', u')" by (cases y)
      have d: "dev_step t ((disk t)(b := uio_bytes 512 u)) t'" and m: "uio_moved 512 (uio_window ?o u) u'" "uio_mem u' = uio_mem u"
        using 6 by (simp_all add: y w uio_bytes_def)
      have "splice_at 0 (uio_bytes 512 u) (disk t b) = uio_bytes 512 u" using lb t by simp
      then have "wrote p off (uio_bytes 512 u) s v t' v'"
        using wrote_block [OF ok' al, of off 0 "uio_bytes 512 u" t'] off d lb by simp
      then show ?case using write_stepI [OF uw(1) [OF m(1)] _ ok(3)] uw(2) [OF m(1)] m(2) by (simp add: y)
    next
      case (7 e y)
      obtain t' u' k where y: "y = (t', u')" "uio_moved k (uio_window ?o u) u'" "dev_step t (disk t) t'"
        "e = EFAULT \<and> uio_segflg u \<noteq> UIO_SYSSPACE \<or> e = ENOSPC"
        using 7 by (cases y) (auto simp: w)
      have "wrote p off [] s v t' v'" for off
        by (rule wrote_dev_step [OF bmap_alloc_wrote_nothing [OF al ok'] y(3) ok(3)])
      then show ?case
        unfolding y(1) prod.case by (intro write_faultI [OF y(4) ok(3) _ uw(1) [OF y(2)] u(3) mx])
    qed (use t u w in \<open>auto intro: uio_window_block\<close>)
    then show ?thesis using blockio_transfer_wp [OF u(4) sz] by simp
  qed
  have nz: "b \<noteq> 0" if "bmap_alloc p fb b s v t v'" for b t v' using that by (simp add: bmap_alloc_def)
  show ?thesis
    unfolding sfs_blockio_transfer
    using u(2)
  proof (simp add: blk cong: if_cong, intro wp_conseq [OF sfs_bmap_alloc [OF ok']], goal_cases)
    case (1 b t)
    then obtain v' where al: "bmap_alloc p fb b s v t v'" by blast
    then show ?case using rest [OF al] nz [OF al] by (simp cong: if_cong)
  next
    case (2 e t)
    then obtain v' where "e = ENOSPC" "inode_step p s v t v'" "bmap_same s v t v'"
      using off(2) by (auto simp: bmap_failed_def)
    then show ?case
      by (intro write_faultI [OF _ ok(3) _ _ u(3) mx, where v' = v' and j = 0] wrote_nothing [OF _ _ ok(1,4)] uio_moved_0 [OF u(1)]) simp_all
  qed
qed

lemma wrote_keeps:
  assumes "wrote p off xs s v t v'" "vol_small s" "vn_at p s = Some v"
  shows "fs_ok t" "vol_small t" "vn_at p t = Some v'" "inode_ok t (sv_i v')"
  using assms inode_step_vn_at(1) [of p s v t v'] by (auto simp: wrote_def inode_step_def vol_small_def fs_same_def)

lemma write_step_trans:
  assumes "write_good p off (s, u)" "write_step p n off (s, u) (t, u')" "write_step p m (off + n) (t, u') (w, u'')"
    "off + n + m \<le> MAXFILE"
  shows "write_step p (n + m) off (s, u) (w, u'')"
proof -
  have u: "uio_ok u" "uio_moved n u u'" "uio_mem u' = uio_mem u" "uio_moved m u' u''" "uio_mem u'' = uio_mem u'"
    using assms by (simp_all add: write_good_def write_step_def)
  obtain v v' where v: "vn_at p s = Some v" "vn_at p t = Some v'" "wrote p off (uio_bytes n u) s v t v'"
    using assms(2) by (auto simp: write_step_def)
  obtain v'' where v': "wrote p (off + n) (uio_bytes m u') t v' w v''"
    using assms(3) v(2) by (auto simp: write_step_def)
  have len: "length (uio_bytes n u) = n" "length (uio_bytes m u') = m"
    using u uio_moved_fields(6) [OF u(2)] uio_moved_fields(6) [OF u(4)] uio_moved_fields(1) [OF u(2)] by simp_all
  have "wrote p off (uio_bytes n u @ uio_bytes m u') s v w v''"
    by (rule wrote_trans [OF v(3)]) (use v' assms(4) in \<open>simp_all add: len\<close>)
  moreover have "uio_moved (n + m) u u''" using uio_moved_trans [OF u(2,4)] .
  ultimately show ?thesis
    using u uio_bytes_moved [OF u(2,3), of m] v(1) by (intro write_stepI) simp_all
qed

lemma write_fault_trans:
  assumes "write_good p off (s, u)" "write_step p n off (s, u) (t, u')" "write_fault p (t, u') e (w, u'')"
  shows "write_fault p (s, u) e (w, u'')"
proof -
  have u: "uio_ok u" "uio_moved n u u'" "uio_mem u' = uio_mem u" "uio_offset u = int off"
    using assms by (simp_all add: write_good_def write_step_def)
  obtain v v' where v: "vn_at p s = Some v" "vn_at p t = Some v'" "wrote p off (uio_bytes n u) s v t v'"
    using assms(2) by (auto simp: write_step_def)
  have o: "nat (uio_offset u') = off + n" using u by (simp add: uio_moved_def)
  obtain v'' k j where v': "wrote p (off + n) (uio_bytes k u') t v' w v''" "vn_at p w = Some v''" "k \<le> j" "uio_moved j u' u''"
      "off + n + k \<le> MAXFILE"
    using assms(3) v(2) o by (auto simp: write_fault_def)
  have len: "length (uio_bytes n u) = n" "length (uio_bytes k u') = k"
    using u(1) v'(3) uio_moved_fields(1,6) [OF u(2)] uio_moved_fields(6) [OF v'(4)] by simp_all
  have "wrote p off (uio_bytes n u @ uio_bytes k u') s v w v''"
    by (rule wrote_trans [OF v(3)]) (use v' in \<open>simp_all add: len\<close>)
  then have "wrote p (nat (uio_offset u)) (uio_bytes (n + k) u) s v w v'' \<and> nat (uio_offset u) + (n + k) \<le> MAXFILE \<and>
      n + k \<le> n + j \<and> uio_moved (n + j) u u''"
    using uio_bytes_moved [OF u(2,3), of k] u(4) v' uio_moved_trans [OF u(2) v'(4)] by simp
  moreover have "e = EFAULT \<and> uio_segflg u \<noteq> UIO_SYSSPACE \<or> e = ENOSPC"
    using assms(3) uio_moved_fields(5) [OF u(2)] by (auto simp: write_fault_def)
  ultimately show ?thesis unfolding write_fault_def prod.case using v(1) v'(2) by blast
qed

interpretation wr: file_io p "write_good p" "write_step p" "write_fault p" for p
proof (unfold_locales, goal_cases)
  case (1 off x fb skip len)
  then obtain v where "vn_at p (fst x) = Some v" "inode_ok (fst x) (sv_i v)" by (auto simp: write_good_def)
  with 1 show ?case
    using sfs_partialio_write [of "fst x" p v "snd x" off len fb skip] by (simp add: write_good_def case_prod_unfold)
next
  case (2 off x fb)
  then obtain v where "vn_at p (fst x) = Some v" "inode_ok (fst x) (sv_i v)" by (auto simp: write_good_def)
  with 2 show ?case
    using sfs_blockio_write [of "fst x" p v "snd x" off fb] by (simp add: write_good_def case_prod_unfold)
next
  case (3 off x)
  then show ?case by (simp add: write_good_def case_prod_unfold)
next
  case (4 off x n y)
  then obtain v v' where "vn_at p (fst x) = Some v" "wrote p off (uio_bytes n (snd x)) (fst x) v (fst y) v'"
    by (auto simp: write_step_def)
  with 4 show ?case
    using wrote_keeps [of p off "uio_bytes n (snd x)" "fst x" v "fst y" v'] uio_moved_fields [of n "snd x" "snd y"]
    by (auto simp: write_good_def write_step_def case_prod_unfold)
next
  case (5 off x)
  then obtain v where "vn_at p (fst x) = Some v" "inode_ok (fst x) (sv_i v)" "fs_ok (fst x)" "uio_ok (snd x)"
    by (auto simp: write_good_def)
  then show ?case
    using write_stepI [of 0 "snd x" "snd x" p "fst x" v off "fst x" v] wrote_nothing [of p "fst x" v "fst x" v off]
    by (simp add: inode_step_refl uio_moved_0)
next
  case (6 off x n y m z)
  then show ?case
    using write_step_trans [of p off "fst x" "snd x" n "fst y" "snd y" m "fst z" "snd z"] by simp
next
  case (7 off x n y e z)
  then show ?case
    using write_fault_trans [of p off "fst x" "snd x" n "fst y" "snd y" e "fst z" "snd z"] by simp
qed

definition set_size :: "nat \<Rightarrow> sfs_vnode \<Rightarrow> sfs_vnode" where
  "set_size z v = v\<lparr>sv_i := (sv_i v)\<lparr>sfi_size := z\<rparr>, sv_dirty := True\<rparr>"

lemma set_size_simps [simp]:
  "bmap_of d (sv_i (set_size z v)) = bmap_of d (sv_i v)" "inode_blocks d (sv_i (set_size z v)) = inode_blocks d (sv_i v)"
  "file_data d (sv_i (set_size z v)) = file_data d (sv_i v)" "sfi_size (sv_i (set_size z v)) = z"
  "sv_dirty (set_size z v)" "sv_ino (set_size z v) = sv_ino v" "vn_refcount (set_size z v) = vn_refcount v"
  "sfi_linkcount (sv_i (set_size z v)) = sfi_linkcount (sv_i v)" "sfi_type (sv_i (set_size z v)) = sfi_type (sv_i v)"
  "sfi_indirect (sv_i (set_size z v)) = sfi_indirect (sv_i v)" "sfi_waste (sv_i (set_size z v)) = sfi_waste (sv_i v)"
  "vn_ops (set_size z v) = vn_ops v" "vn_fs (set_size z v) = vn_fs v"
  by (simp_all add: set_size_def bmap_of_def inode_blocks_def file_data_def file_block_def)

lemma inode_ok_set_size: "inode_ok s (sv_i v) \<Longrightarrow> z < 2 ^ 32 \<Longrightarrow> inode_ok s (sv_i (set_size z v))"
  by (simp add: inode_ok_def dinode_wf_def) (simp add: set_size_def)

lemma inode_ok_vn_put [simp]: "inode_ok (vn_put q w s) i = inode_ok s i"
  by (simp add: inode_ok_def)

lemma inode_step_set_size:
  assumes "inode_step p s v t v'" "z < 2 ^ 32"
  shows "inode_step p s v (vn_put p (set_size z v') t) (set_size z v')"
  using assms inode_ok_set_size [of t v' z] unfolding inode_step_def
  by simp

text \<open>
  A write replaces the file's bytes from the offset on, and moves the end of the file behind
  them. A failed one has stored some prefix of the data.
\<close>

lemma sfs_io_write:
  assumes ok: "fs_ok s" "vol_small s" "vn_at p s = Some v" "inode_ok s (sv_i v)"
    and u: "uio_ok u" "uio_rw u = UIO_WRITE" "uio_offset u = int off" and fit: "off + uio_resid u \<le> MAXFILE"
  defines "n \<equiv> uio_resid u"
  shows "wp (sfs_io p)
    (\<lambda>_ (t, u'). \<exists>v'. vn_at p t = Some v' \<and> inode_step p s v t v' \<and> uio_moved n u u' \<and> uio_mem u' = uio_mem u \<and>
       sfi_size (sv_i v') = (if n = 0 then sfi_size (sv_i v) else max (sfi_size (sv_i v)) (off + n)) \<and>
       file_data (disk t) (sv_i v') = splice_at off (uio_bytes n u) (file_data (disk s) (sv_i v)))
    (\<lambda>e (t, u'). (e = EFAULT \<and> uio_segflg u \<noteq> UIO_SYSSPACE \<or> e = ENOSPC) \<and>
       (\<exists>v' k. vn_at p t = Some v' \<and> inode_step p s v t v' \<and> k \<le> n \<and>
         sfi_size (sv_i v) \<le> sfi_size (sv_i v') \<and> sfi_size (sv_i v') \<le> max (sfi_size (sv_i v)) (off + n) \<and>
         file_data (disk t) (sv_i v') = splice_at off (uio_bytes k u) (file_data (disk s) (sv_i v)))) (s, u)"
proof -
  let ?sz = "sfi_size (sv_i v)"
  have g: "write_good p off (s, u)" using ok u by (auto simp: write_good_def)
  have z: "off + k < 2 ^ 32" if "k \<le> n" for k using fit that by (simp add: n_def MAXFILE_def)
  have out: "wp (sfs_io_out p n UIO_WRITE 0 result) Q E (t, u') =
      (case result of Inr _ \<Rightarrow> Q () | Inl e \<Rightarrow> E e)
        (if j \<noteq> 0 \<and> ?sz < off + j then vn_put p (set_size (off + j) v') t else t, u')"
    if h: "vn_at p t = Some v'" "sfi_size (sv_i v') = ?sz" "uio_moved j u u'" for result Q E t u' v' j
  proof -
    note f = uio_moved_fields [OF h(3)]
    have j: "j \<le> n" "uio_resid u' \<noteq> n \<longleftrightarrow> j \<noteq> 0" using f by (auto simp: n_def)
    have o: "uio_offset u' = int (off + j)" "u32_of_int (int (off + j)) = off + j"
      using f u by (simp, intro u32_of_int_nat z [OF j(1)])
    have r: "u32 (uio_resid u') = uio_resid u'" using f(1) by (intro u32_id) (simp add: uio_ok_def)
    have id: "u'\<lparr>uio_resid := u32 (uio_resid u')\<rparr> = u'" by (simp add: r)
    show ?thesis
      unfolding sfs_io_out_def
      using h(1,2) by (auto simp: j o [simplified] id set_size_def o split: sum.splits)
  qed
  have fin: "vn_at p t' = Some w \<and> inode_step p s v t' w \<and> file_data (disk t') (sv_i w) = file_data (disk t) (sv_i v') \<and>
      sfi_size (sv_i w) = (if j = 0 then ?sz else max ?sz (off + j))"
    if h: "wrote p off xs s v t v'" "j \<le> n" and t': "t' = (if j \<noteq> 0 \<and> ?sz < off + j then vn_put p (set_size (off + j) v') t else t)"
      "w = (if j \<noteq> 0 \<and> ?sz < off + j then set_size (off + j) v' else v')" for xs t v' j t' w
  proof -
    have st: "inode_step p s v t v'" "sfi_size (sv_i v') = ?sz" using h by (simp_all add: wrote_def)
    have p: "p < length (vn_heap t)" using inode_step_vn_at(1) [OF st(1) ok(3)] by (simp add: vn_at_def split: if_splits)
    show ?thesis
      using st inode_step_set_size [OF st(1) z [OF h(2)]] inode_step_vn_at(1) [OF st(1) ok(3)] p t'
      by (auto simp: vn_at_def)
  qed
  have body: "wp (sfs_io_body p) (\<lambda>_. write_step p n off (s, u)) (write_fault p (s, u)) (s, u)"
    using wr.body_wp [OF g] fit by (simp add: n_def)
  have "wp (kbind (ktry (sfs_io_body p)) (sfs_io_out p n UIO_WRITE 0))
    (\<lambda>_ (t, u'). \<exists>v'. vn_at p t = Some v' \<and> inode_step p s v t v' \<and> uio_moved n u u' \<and> uio_mem u' = uio_mem u \<and>
       sfi_size (sv_i v') = (if n = 0 then ?sz else max ?sz (off + n)) \<and>
       file_data (disk t) (sv_i v') = splice_at off (uio_bytes n u) (file_data (disk s) (sv_i v)))
    (\<lambda>e (t, u'). (e = EFAULT \<and> uio_segflg u \<noteq> UIO_SYSSPACE \<or> e = ENOSPC) \<and>
       (\<exists>v' k. vn_at p t = Some v' \<and> inode_step p s v t v' \<and> k \<le> n \<and>
         ?sz \<le> sfi_size (sv_i v') \<and> sfi_size (sv_i v') \<le> max ?sz (off + n) \<and>
         file_data (disk t) (sv_i v') = splice_at off (uio_bytes k u) (file_data (disk s) (sv_i v)))) (s, u)"
  proof (unfold wp_kbind wp_ktry, rule wp_conseq [OF body], goal_cases)
    case (1 x y)
    obtain t u' where y: "y = (t, u')" by (cases y)
    obtain v' where h: "vn_at p t = Some v'" "wrote p off (uio_bytes n u) s v t v'" "uio_moved n u u'" "uio_mem u' = uio_mem u"
      using 1 ok(3) by (auto simp: write_step_def y)
    have sz: "sfi_size (sv_i v') = ?sz" using h by (simp add: wrote_def)
    show ?case
      unfolding y out [OF h(1) sz h(3)] using fin [OF h(2) order_refl refl refl] h by (auto simp: wrote_def)
  next
    case (2 e y)
    obtain t u' where y: "y = (t, u')" by (cases y)
    obtain v' k j where h: "vn_at p t = Some v'" "wrote p off (uio_bytes k u) s v t v'" "uio_moved j u u'" "k \<le> j"
      using 2 ok(3) u(3) by (auto simp: write_fault_def y)
    have e: "e = EFAULT \<and> uio_segflg u \<noteq> UIO_SYSSPACE \<or> e = ENOSPC" using 2 by (auto simp: write_fault_def y)
    have sz: "sfi_size (sv_i v') = ?sz" using h by (simp add: wrote_def)
    have j: "j \<le> n" using uio_moved_fields(6) [OF h(3)] by (simp add: n_def)
    show ?case
      unfolding y out [OF h(1) sz h(3)] using fin [OF h(2) j refl refl] h e j
      by (auto simp: wrote_def intro!: exI [of _ k])
  qed
  then show ?thesis
    using u(2) by (simp add: sfs_io_def n_def)
qed

subsection \<open>Metadata\<close>

lemma sfs_metaio_read:
  assumes ok: "fs_ok s" "vn_at p s = Some v" "inode_ok s (sv_i v)"
    and off: "off = fb * 512 + skip" "skip < 512" "skip + length data \<le> 512" "fb < 143"
  shows "wp (sfs_metaio p (int off) data UIO_READ)
    (\<lambda>r t. r = take (length data) (drop off (file_data (disk s) (sv_i v))) \<and> dev_step s (disk s) t) (\<lambda>_ _. False) s"
proof -
  let ?b = "bmap_of (disk s) (sv_i v) ! fb"
  note fbo = off_split [OF off(1,2,4)]
  have skip: "off mod 512 = skip" using off(1,2) by simp
  have data: "take (length data) (drop off (file_data (disk s) (sv_i v))) =
      take (length data) (drop skip (blk_bytes (disk s) ?b))"
    using file_data_block [OF ok(1) off(4,3), of "sv_i v"] off(1) by (simp add: file_block_def)
  have rd: "wp (sfs_readblock ?b iobuf)
      (\<lambda>buf t. skip + length data \<le> length buf \<and> take (length data) (drop skip buf) =
        take (length data) (drop off (file_data (disk s) (sv_i v))) \<and> dev_step s (disk s) t) (\<lambda>_ _. False) t"
    if t: "dev_step s (disk s) t" "?b \<noteq> 0" for t
    by (rule wp_conseq [OF readblock_wp])
      (use inode_ok_nth [OF ok(1,3) off(4) refl t(2)] dev_step_simps [OF t(1)] dev_step_trans [OF t(1)] ok off data t(2) in
        \<open>auto simp: iobuf_zeros blk_bytes_def\<close>)
  have hole: "replicate (length data) 0 = take (length data) (drop off (file_data (disk s) (sv_i v)))" if "?b = 0"
    using that data off(3) by (simp add: blk_bytes_def zeros_def)
  show ?thesis
    unfolding sfs_metaio_def
    using off_block [OF fbo(2)] fbo(1) skip
    by (simp add: Let_def cong: if_cong)
      (rule wp_conseq [OF sfs_bmap_lookup [OF ok]], use off(4) rd hole in \<open>auto cong: if_cong\<close>)
qed

text \<open>What a write of metadata does, the new end of the file included.\<close>

definition meta_wrote :: "nat \<Rightarrow> nat \<Rightarrow> byte list \<Rightarrow> sfs_fs \<Rightarrow> sfs_vnode \<Rightarrow> sfs_fs \<Rightarrow> sfs_vnode \<Rightarrow> bool" where
  "meta_wrote p off data s v t v' \<longleftrightarrow> inode_step p s v t v' \<and> vn_at p t = Some v' \<and>
     sfi_size (sv_i v') = max (sfi_size (sv_i v)) (off + length data) \<and>
     file_data (disk t) (sv_i v') = splice_at off data (file_data (disk s) (sv_i v))"

lemma wrote_meta_size:
  assumes "wrote p off data s v t v'" "vn_at p s = Some v" "off + length data < 2 ^ 32"
  shows "meta_wrote p off data s v
      (if sfi_size (sv_i v') < off + length data then vn_put p (set_size (off + length data) v') t else t)
      (if sfi_size (sv_i v') < off + length data then set_size (off + length data) v' else v')"
proof -
  have st: "inode_step p s v t v'" "sfi_size (sv_i v') = sfi_size (sv_i v)" using assms by (simp_all add: wrote_def)
  have vt: "vn_at p t = Some v'" by (rule inode_step_vn_at(1) [OF st(1) assms(2)])
  then have "p < length (vn_heap t)" by (simp add: vn_at_def split: if_splits)
  then show ?thesis
    using assms(1) st vt inode_step_set_size [OF st(1) assms(3)]
    by (auto simp: meta_wrote_def wrote_def vn_at_def)
qed

lemma sfs_metaio_write:
  assumes ok: "fs_ok s" "vn_at p s = Some v" "inode_ok s (sv_i v)"
    and off: "off = fb * 512 + skip" "skip < 512" "skip + length data \<le> 512" "fb < 143"
  shows "wp (sfs_metaio p (int off) data UIO_WRITE)
    (\<lambda>r t. r = data \<and> (\<exists>v'. meta_wrote p off data s v t v'))
    (\<lambda>e t. e = ENOSPC \<and> bmap_of (disk s) (sv_i v) ! fb = 0 \<and> (\<exists>v'. vn_at p t = Some v' \<and> wrote p off [] s v t v')) s"
proof -
  note fbo = off_split [OF off(1,2,4)]
  have skip: "off mod 512 = skip" using off(1,2) by simp
  have lt: "off + length data < 2 ^ 32" using off by simp
  have u: "u32_of_int (int off + int (length data)) = off + length data"
    using u32_of_int_nat [OF lt] by simp
  have rest: "wp (sfs_readblock b iobuf) (\<lambda>buf t1. skip + length data \<le> length buf \<and>
        wp (sfs_writeblock b (splice_at skip data buf)) (\<lambda>_ w. dev_step t ((disk t)(b := splice_at skip data (disk t b))) w) (\<lambda>_ _. False) t1)
      (\<lambda>_ _. False) t"
    if al: "bmap_alloc p fb b s v t v'" for b t v'
  proof -
    have t: "fs_ok t" "b < nblocks t" using al file_block_alloc [OF al ok] by (auto simp: bmap_alloc_def inode_step_def fs_same_def)
    show ?thesis
    proof (rule wp_conseq [OF readblock_wp], goal_cases)
      case (4 buf t1)
      then have t1: "dev_step t (disk t) t1" "buf = disk t b" by simp_all
      note d = dev_step_simps [OF t1(1)]
      have "wp (sfs_writeblock b (splice_at skip data buf)) (\<lambda>_ w. dev_step t ((disk t)(b := splice_at skip data (disk t b))) w) (\<lambda>_ _. False) t1"
        by (rule wp_conseq [OF writeblock_wp]) (use d t off t1 dev_step_trans [OF t1(1)] in simp_all)
      then show ?case using 4 t off by simp
    qed (use t in \<open>auto simp: iobuf_zeros\<close>)
  qed
  have fin: "wp (kbind (sfs_readblock b iobuf) (\<lambda>metaiobuf.
         kthen (kassert (\<lambda>_. skip + length data \<le> length metaiobuf))
         (kthen (sfs_writeblock b (splice_at skip data metaiobuf))
           (kbind (sv_get p (\<lambda>v. int (sfi_size (sv_i v)))) (\<lambda>size.
             kthen (if int off + int (length data) > size then
                      sv_mod p (\<lambda>v. v\<lparr>sv_i := (sv_i v)\<lparr>sfi_size := off + length data\<rparr>, sv_dirty := True\<rparr>)
                    else kret ())
               (kret data))))))
      (\<lambda>r t. r = data \<and> (\<exists>v'. meta_wrote p off data s v t v'))
      (\<lambda>e t. e = ENOSPC \<and> bmap_of (disk s) (sv_i v) ! fb = 0 \<and> (\<exists>v'. vn_at p t = Some v' \<and> wrote p off [] s v t v')) t"
    if al: "bmap_alloc p fb b s v t v'" for b t v'
  proof (simp only: wp_kbind wp_kthen wp_kassert, rule wp_conseq [OF rest [OF al]], goal_cases)
    case (1 buf t1)
    have "wp (sfs_writeblock b (splice_at skip data buf)) (\<lambda>_ w. dev_step t ((disk t)(b := splice_at skip data (disk t b))) w) (\<lambda>_ _. False) t1"
      using 1 by simp
    then have "wp (sfs_writeblock b (splice_at skip data buf))
      (\<lambda>_ w. wp (kbind (sv_get p (\<lambda>v. int (sfi_size (sv_i v)))) (\<lambda>size.
             kthen (if int off + int (length data) > size then
                      sv_mod p (\<lambda>v. v\<lparr>sv_i := (sv_i v)\<lparr>sfi_size := off + length data\<rparr>, sv_dirty := True\<rparr>)
                    else kret ())
               (kret data))) (\<lambda>r t. r = data \<and> (\<exists>v'. meta_wrote p off data s v t v'))
         (\<lambda>e t. e = ENOSPC \<and> bmap_of (disk s) (sv_i v) ! fb = 0 \<and> (\<exists>v'. vn_at p t = Some v' \<and> wrote p off [] s v t v')) w)
      (\<lambda>e t. e = ENOSPC \<and> bmap_of (disk s) (sv_i v) ! fb = 0 \<and> (\<exists>v'. vn_at p t = Some v' \<and> wrote p off [] s v t v')) t1"
    proof (rule wp_conseq, goal_cases)
      case (1 x w)
      have wr: "wrote p off data s v w v'" by (rule wrote_block [OF ok al off(1,3) 1])
      then have "vn_at p w = Some v'" using inode_step_vn_at(1) [OF _ ok(2)] by (simp add: wrote_def)
      then show ?case using wrote_meta_size [OF wr ok(2) lt] by (auto simp: set_size_def)
    qed simp
    then show ?case using 1 by (simp only: wp_kbind wp_kthen simp_thms)
  qed simp
  have nz: "b \<noteq> 0" if "bmap_alloc p fb b s v t v'" for b t v' using that by (simp add: bmap_alloc_def)
  show ?thesis
    unfolding sfs_metaio_def
    using off_block [OF fbo(2)] fbo(1) skip
  proof (simp add: Let_def u cong: if_cong split del: if_split, intro wp_conseq [OF sfs_bmap_alloc [OF ok]], goal_cases)
    case (1 b t)
    then obtain v' where al: "bmap_alloc p fb b s v t v'" by blast
    show ?case using fin [OF al] nz [OF al] by (simp cong: if_cong split del: if_split)
  next
    case (2 e t)
    then obtain v' where f: "e = ENOSPC" "inode_step p s v t v'" "bmap_same s v t v'" "bmap_of (disk s) (sv_i v) ! fb = 0"
      using off(4) by (auto simp: bmap_failed_def)
    then show ?case using wrote_nothing [OF f(2,3) ok(1,3)] inode_step_vn_at(1) [OF f(2) ok(2)] by auto
  qed
qed

text \<open>Behind the last block a file can have.\<close>

lemma sfs_metaio_big:
  assumes ok: "fs_ok s" "vn_at p s = Some v" "inode_ok s (sv_i v)"
    and off: "143 * 512 \<le> off" "off < 2 ^ 32"
  shows "wp (sfs_metaio p (int off) data UIO_WRITE) (\<lambda>_ _. False) (\<lambda>e t. e = EFBIG \<and> t = s) s"
proof -
  have "int off sdiv 512 = int (off div 512)" by (simp add: signed_divide_int_def sgn_if zdiv_int)
  moreover have "off div 512 < 2 ^ 32" using off(2) by (rule le_less_trans [OF div_le_dividend])
  ultimately have b: "u32_of_int (int off sdiv int SFS_BLOCKSIZE) = off div 512"
    using u32_of_int_nat [of "off div 512"] by (simp add: SFS_BLOCKSIZE_def)
  have big: "143 \<le> off div 512" using div_le_mono [OF off(1), of 512] by simp
  show ?thesis
    unfolding sfs_metaio_def Let_def b wp_kthen wp_kassert wp_kbind
    by simp (rule wp_conseq [OF sfs_bmap_alloc [OF ok]]; use big in \<open>auto simp: bmap_failed_def bmap_alloc_def\<close>)
qed

end
