(* ===== verification/Sfs_Inode.thy ===== *)
theory Sfs_Inode
  imports Sfs_Write
begin

text \<open>
  Inodes in memory, \<open>kern/fs/sfs/sfs_inode.c\<close>: loading an inode as a vnode, writing it back,
  dropping it when its last reference goes away, and making new objects.
\<close>

subsection \<open>Model\<close>

definition on_vnodes :: "(nat carray, 'a) kfun \<Rightarrow> (sfs_fs, 'a) kfun" where
  "on_vnodes m = kzoom sfs_vnodes (\<lambda>a s. s\<lparr>sfs_vnodes := a\<rparr>) m"

text \<open>A vnode of the table; the pointer has to lead to a live vnode.\<close>

definition vnodearray_get :: "nat \<Rightarrow> (sfs_fs, nat) kfun" where
  "vnodearray_get i =
     kbind (on_vnodes (array_get (word_of_nat i))) (\<lambda>v.
       case v of None \<Rightarrow> kpanic | Some p \<Rightarrow> kthen (sv_get p (\<lambda>_. ())) (kret p))"

definition sfs_sync_inode :: "nat \<Rightarrow> (sfs_fs, unit) kfun" where
  "sfs_sync_inode sv =
     kbind (sv_get sv id) (\<lambda>v.
       if sv_dirty v then
         kthen (sfs_writeblock (sv_ino v) (dinode_to_block (sv_i v)))
           (sv_mod sv (\<lambda>v. v\<lparr>sv_dirty := False\<rparr>))
       else kret ())"

text \<open>The search of \<open>sfs_reclaim\<close> for the vnode in the table; \<open>num\<close> when it is not there.\<close>

function sfs_reclaim_search :: "nat \<Rightarrow> nat \<Rightarrow> nat \<Rightarrow> (sfs_fs, nat) kfun" where
  "sfs_reclaim_search sv num i =
     (if i < num then
        kbind (vnodearray_get i) (\<lambda>sv2. if sv2 = sv then kret i else sfs_reclaim_search sv num (Suc i))
      else kret num)"
  by pat_completeness auto
termination
  by (relation "measure (\<lambda>(sv, num, i). num - i)") auto

definition kfree_vnode :: "nat \<Rightarrow> (sfs_fs, unit) kfun" where
  "kfree_vnode p = kthen (sv_get p (\<lambda>_. ())) (kmod (\<lambda>s. s\<lparr>vn_heap := (vn_heap s)[p := None]\<rparr>))"

definition sfs_reclaim :: "nat \<Rightarrow> (sfs_fs, unit) kfun" where
  "sfs_reclaim sv =
     kthen biglock_acquire
     (kbind (sv_get sv vn_refcount) (\<lambda>refcount.
        if refcount \<noteq> 1 then
          kthen (kassert (\<lambda>_. refcount > 1))
          (kthen (sv_mod sv (\<lambda>v. v\<lparr>vn_refcount := refcount - 1\<rparr>))
          (kthen biglock_release (kfail EBUSY)))
        else
          kbind (sv_get sv (\<lambda>v. sfi_linkcount (sv_i v))) (\<lambda>linkcount.
          kbind (ktry (kthen (if linkcount = 0 then sfs_itrunc sv 0 else kret ())
                         (sfs_sync_inode sv))) (\<lambda>result.
            case result of
              Inl e \<Rightarrow> kthen biglock_release (kfail e)
            | Inr _ \<Rightarrow>
                kbind (sv_get sv id) (\<lambda>v.
                kthen (if sfi_linkcount (sv_i v) = 0 then sfs_bfree (sv_ino v) else kret ())
                (kbind (kget (\<lambda>s. unat (array_num (sfs_vnodes s)))) (\<lambda>num.
                 kbind (sfs_reclaim_search sv num 0) (\<lambda>ix.
                   if ix = num then kpanic
                   else
                     kthen (on_vnodes (array_remove (word_of_nat ix)))
                     (kthen (on_vn sv vnode_cleanup)
                     (kthen biglock_release (kfree_vnode sv)))))))))))"

text \<open>\<open>VOP_DECREF\<close> on a vnode of the volume: both operations tables have \<open>sfs_reclaim\<close>.\<close>

definition sfs_decref :: "nat \<Rightarrow> (sfs_fs, unit) kfun" where
  "sfs_decref sv = vnode_decref (vn_at sv) (vn_put sv) (sfs_reclaim sv)"

text \<open>The search of \<open>sfs_loadvnode\<close> for an inode in the table.\<close>

function sfs_loadvnode_search :: "nat \<Rightarrow> nat \<Rightarrow> nat \<Rightarrow> nat \<Rightarrow> (sfs_fs, nat option) kfun" where
  "sfs_loadvnode_search ino forcetype num i =
     (if i < num then
        kbind (vnodearray_get i) (\<lambda>sv.
        kbind (sv_get sv sv_ino) (\<lambda>ino2.
        kbind (sfs_bused ino2) (\<lambda>inuse.
          if \<not> inuse then kpanic
          else if ino2 = ino then
            kthen (kassert (\<lambda>_. forcetype = SFS_TYPE_INVAL))
              (kthen (on_vn sv vnode_incref) (kret (Some sv)))
          else sfs_loadvnode_search ino forcetype num (Suc i))))
      else kret None)"
  by pat_completeness auto
termination
  by (relation "measure (\<lambda>(ino, forcetype, num, i). num - i)") auto

text \<open>The choice of the operations table by type.\<close>

definition sfs_ops_of_type :: "nat \<Rightarrow> vnode_ops option" where
  "sfs_ops_of_type type =
     (if type = SFS_TYPE_FILE then Some Sfs_fileops
      else if type = SFS_TYPE_DIR then Some Sfs_dirops
      else None)"

text \<open>
  The second half of \<open>sfs_loadvnode\<close>, once the inode is read: the new vnode gets the next
  address, is initialised and put into the table.
\<close>

definition sfs_loadvnode_new :: "nat \<Rightarrow> nat \<Rightarrow> sfs_dinode \<Rightarrow> (sfs_fs, nat) kfun" where
  "sfs_loadvnode_new ino forcetype i =
     kbind (if forcetype \<noteq> SFS_TYPE_INVAL
            then kthen (kassert (\<lambda>_. sfi_type i = SFS_TYPE_INVAL)) (kret (i\<lparr>sfi_type := forcetype\<rparr>, True))
            else kret (i, False)) (\<lambda>(i, dirty).
       case sfs_ops_of_type (sfi_type i) of
         None \<Rightarrow> kpanic
       | Some ops \<Rightarrow>
           kbind (kget (\<lambda>s. length (vn_heap s))) (\<lambda>sv.
           kthen (kmod (\<lambda>s. s\<lparr>vn_heap := vn_heap s @
                    [Some \<lparr>vn_refcount = 0, vn_fs = False, vn_ops = None, sv_i = i, sv_ino = ino, sv_dirty = dirty\<rparr>]\<rparr>))
           (kthen (on_vn sv (vnode_init ops True))
           (kbind kmalloc_next (\<lambda>ok.
            kbind (ktry (on_vnodes (array_add (\<lambda>_. ok) sv))) (\<lambda>result.
              case result of
                Inl e \<Rightarrow> kthen (on_vn sv vnode_cleanup) (kthen (kfree_vnode sv) (kfail e))
              | Inr _ \<Rightarrow> kret sv))))))"

definition sfs_loadvnode :: "nat \<Rightarrow> nat \<Rightarrow> (sfs_fs, nat) kfun" where
  "sfs_loadvnode ino forcetype =
     kbind (kget (\<lambda>s. unat (array_num (sfs_vnodes s)))) (\<lambda>num.
     kbind (sfs_loadvnode_search ino forcetype num 0) (\<lambda>found.
       case found of
         Some sv \<Rightarrow> kret sv
       | None \<Rightarrow>
           kbind kmalloc_next (\<lambda>ok.
             if \<not> ok then kfail ENOMEM
             else
               kbind (sfs_bused ino) (\<lambda>inuse.
                 if \<not> inuse then kpanic
                 else
                   kbind (sfs_readblock ino iobuf) (\<lambda>buf.
                     sfs_loadvnode_new ino forcetype (block_to_dinode buf))))))"

definition sfs_makeobj :: "nat \<Rightarrow> (sfs_fs, nat) kfun" where
  "sfs_makeobj type =
     kbind sfs_balloc (\<lambda>ino.
     kbind (ktry (sfs_loadvnode ino type)) (\<lambda>result.
       case result of
         Inl e \<Rightarrow> kthen (sfs_bfree ino) (kfail e)
       | Inr sv \<Rightarrow> kret sv))"

definition sfs_getroot :: "(sfs_fs, nat) kfun" where
  "sfs_getroot =
     kthen biglock_acquire
     (kbind (ktry (sfs_loadvnode SFS_ROOTDIR_INO SFS_TYPE_INVAL)) (\<lambda>result.
       case result of
         Inl e \<Rightarrow> kthen biglock_release (kfail e)
       | Inr sv \<Rightarrow>
           kbind (sv_get sv (\<lambda>v. sfi_type (sv_i v))) (\<lambda>type.
             if type \<noteq> SFS_TYPE_DIR then kthen biglock_release (kfail EINVAL)
             else kthen biglock_release (kret sv))))"

declare sfs_reclaim_search.simps [simp del] sfs_loadvnode_search.simps [simp del]

end
