(* ===== verification/Sfs_Volume.thy ===== *)
theory Sfs_Volume
  imports Sfs_Inode
begin

text \<open>
  The invariant of a mounted volume and what the operations on inodes
  (\<open>kern/fs/sfs/sfs_inode.c\<close>, modelled in \<open>Sfs_Inode\<close>) do to it: which inodes are loaded, what
  each file holds, and that every block in use has exactly one owner.
\<close>

subsection \<open>The table of vnodes\<close>

text \<open>
  \<open>tab s\<close> are the addresses in the table, \<open>vn_of s p\<close> the vnode at one of them. The table is
  sound when it has each live vnode once, no inode twice, and each vnode is referenced, has
  the operations of its type, and is marked dirty when its block on the disk is not current.
\<close>

definition tab :: "sfs_fs \<Rightarrow> nat list" where
  "tab s = map the (array_list (sfs_vnodes s))"

definition vn_of :: "sfs_fs \<Rightarrow> nat \<Rightarrow> sfs_vnode" where
  "vn_of s p = the (vn_at p s)"

definition ino_of :: "sfs_fs \<Rightarrow> nat \<Rightarrow> nat" where
  "ino_of s p = sv_ino (vn_of s p)"

definition clean :: "sfs_fs \<Rightarrow> sfs_vnode \<Rightarrow> bool" where
  "clean s v \<longleftrightarrow> sv_dirty v \<or> disk s (sv_ino v) = dinode_to_block (sv_i v)"

definition vnode_ok :: "sfs_vnode \<Rightarrow> bool" where
  "vnode_ok v \<longleftrightarrow> vn_refcount v \<ge> 1 \<and> vn_fs v \<and> vn_ops v = sfs_ops_of_type (sfi_type (sv_i v)) \<and>
     sfs_ops_of_type (sfi_type (sv_i v)) \<noteq> None"

definition tab_ok :: "sfs_fs \<Rightarrow> bool" where
  "tab_ok s \<longleftrightarrow> array_ok (sfs_vnodes s) \<and> None \<notin> set (array_list (sfs_vnodes s)) \<and> distinct (tab s) \<and>
     (\<forall>p. p \<in> set (tab s) \<longleftrightarrow> vn_at p s \<noteq> None) \<and> inj_on (ino_of s) (set (tab s)) \<and>
     (\<forall>p \<in> set (tab s). vnode_ok (vn_of s p) \<and> clean s (vn_of s p))"

definition loaded :: "sfs_fs \<Rightarrow> nat \<Rightarrow> nat option" where
  "loaded s ino = find (\<lambda>p. ino_of s p = ino) (tab s)"

text \<open>The current contents of an inode: from memory when it is loaded, else from the disk.\<close>

definition inode_at :: "sfs_fs \<Rightarrow> nat \<Rightarrow> sfs_dinode" where
  "inode_at s ino = (case loaded s ino of
      Some p \<Rightarrow> sv_i (vn_of s p)
    | None \<Rightarrow> block_to_dinode (disk s ino))"

lemma tab_ok_vn:
  assumes "tab_ok s" "p \<in> set (tab s)"
  shows "vn_at p s = Some (vn_of s p)" "vnode_ok (vn_of s p)" "clean s (vn_of s p)"
  using assms by (auto simp: tab_ok_def vn_of_def)

lemma loaded_SomeI:
  assumes "tab_ok s" "p \<in> set (tab s)" "ino_of s p = ino"
  shows "loaded s ino = Some p"
proof -
  have "find (\<lambda>p. ino_of s p = ino) (tab s) \<noteq> None" using assms(2,3) by (auto simp: find_None_iff)
  then obtain q where q: "find (\<lambda>p. ino_of s p = ino) (tab s) = Some q" by auto
  then have "q \<in> set (tab s)" "ino_of s q = ino" by (auto simp: find_Some_iff)
  then have "q = p" using assms by (auto simp: tab_ok_def inj_on_def)
  then show ?thesis using q by (simp add: loaded_def)
qed

lemma loaded_SomeD: "loaded s ino = Some p \<Longrightarrow> p \<in> set (tab s) \<and> ino_of s p = ino"
  by (auto simp: loaded_def find_Some_iff)

lemma loaded_None: "loaded s ino = None \<longleftrightarrow> (\<forall>p \<in> set (tab s). ino_of s p \<noteq> ino)"
  by (auto simp: loaded_def find_None_iff)

lemma loaded_iff: "tab_ok s \<Longrightarrow> loaded s ino = Some p \<longleftrightarrow> p \<in> set (tab s) \<and> ino_of s p = ino"
  using loaded_SomeI loaded_SomeD by metis

lemma inode_at_loaded: "tab_ok s \<Longrightarrow> p \<in> set (tab s) \<Longrightarrow> inode_at s (ino_of s p) = sv_i (vn_of s p)"
  using loaded_SomeI [of s p] by (simp add: inode_at_def)

subsection \<open>The volume\<close>

text \<open>
  \<open>F\<close> are the numbers of the inodes in use, \<open>X\<close> blocks allocated but not yet part of a file.
  The blocks in use are those of the superblock and the free map, the inodes, the blocks they
  own, and \<open>X\<close>; no block has two owners.
\<close>

definition sys_blocks :: "sfs_fs \<Rightarrow> nat set" where
  "sys_blocks s = insert 0 {2 ..< 2 + SFS_FREEMAPBLOCKS (nblocks s)}"

definition owned :: "sfs_fs \<Rightarrow> nat \<Rightarrow> nat set" where
  "owned s ino = insert ino (inode_blocks (disk s) (inode_at s ino))"

definition file_ok :: "sfs_fs \<Rightarrow> nat \<Rightarrow> bool" where
  "file_ok s ino \<longleftrightarrow> ino < nblocks s \<and> ino \<notin> inode_blocks (disk s) (inode_at s ino) \<and> inode_ok s (inode_at s ino) \<and>
     sfs_ops_of_type (sfi_type (inode_at s ino)) \<noteq> None \<and> sfi_size (inode_at s ino) \<le> MAXFILE"

definition owners_ok :: "sfs_fs \<Rightarrow> nat set \<Rightarrow> nat set \<Rightarrow> bool" where
  "owners_ok s F X \<longleftrightarrow> (\<forall>a \<in> F. \<forall>b \<in> F. a \<noteq> b \<longrightarrow> owned s a \<inter> owned s b = {}) \<and>
     (\<forall>a \<in> F. owned s a \<inter> (sys_blocks s \<union> X) = {}) \<and> sys_blocks s \<inter> X = {} \<and>
     used s \<inter> {..<nblocks s} = sys_blocks s \<union> (\<Union>a \<in> F. owned s a) \<union> X"

text \<open>
  The superblock and the free map: as they should be, and marked dirty when their blocks on
  the disk are not current.
\<close>

definition fm_block :: "sfs_fs \<Rightarrow> nat \<Rightarrow> byte list" where
  "fm_block s j = take SFS_BLOCKSIZE (drop (j * SFS_BLOCKSIZE) (bm_v (sfs_freemap s)))"

definition meta_ok :: "sfs_fs \<Rightarrow> bool" where
  "meta_ok s \<longleftrightarrow> superblock_wf (sfs_sb s) \<and> sb_magic (sfs_sb s) = SFS_MAGIC \<and> sb_volname (sfs_sb s) ! 31 = 0 \<and>
     bm_nbits (sfs_freemap s) = SFS_FREEMAPBITS (nblocks s) \<and>
     (sfs_superdirty s \<or> disk s SFS_SUPER_BLOCK = superblock_to_block (sfs_sb s)) \<and>
     (sfs_freemapdirty s \<or> (\<forall>j < SFS_FREEMAPBLOCKS (nblocks s). disk s (SFS_FREEMAP_START + j) = fm_block s j))"

lemma meta_keep:
  assumes "meta_ok s" "sfs_sb t = sfs_sb s" "sfs_superdirty t = sfs_superdirty s"
    "bm_nbits (sfs_freemap t) = bm_nbits (sfs_freemap s)"
    "sfs_freemapdirty t \<or> \<not> sfs_freemapdirty s \<and> sfs_freemap t = sfs_freemap s"
    "\<And>c. c \<in> sys_blocks s \<Longrightarrow> disk t c = disk s c"
  shows "meta_ok t"
proof -
  have "disk t SFS_SUPER_BLOCK = disk s SFS_SUPER_BLOCK" by (rule assms(6)) (simp add: sys_blocks_def SFS_SUPER_BLOCK_def)
  moreover have "disk t (SFS_FREEMAP_START + j) = disk s (SFS_FREEMAP_START + j)" if "j < SFS_FREEMAPBLOCKS (nblocks s)" for j
    by (rule assms(6)) (use that in \<open>simp add: sys_blocks_def SFS_FREEMAP_START_def\<close>)
  ultimately show ?thesis using assms(1-5) by (auto simp: meta_ok_def fm_block_def)
qed

definition vol_ok :: "sfs_fs \<Rightarrow> nat set \<Rightarrow> nat set \<Rightarrow> bool" where
  "vol_ok s F X \<longleftrightarrow> fs_ok s \<and> vol_small s \<and> tab_ok s \<and> ino_of s ` set (tab s) \<subseteq> F \<and>
     (\<forall>ino \<in> F. file_ok s ino) \<and> owners_ok s F X \<and> meta_ok s"

text \<open>What callers see of a file.\<close>

definition contents :: "sfs_fs \<Rightarrow> nat \<Rightarrow> byte list" where
  "contents s ino = take (sfi_size (inode_at s ino)) (file_data (disk s) (inode_at s ino))"

subsection \<open>A change of one file\<close>

text \<open>
  \<open>inode_change p s v t v'\<close>: between \<open>s\<close> and \<open>t\<close> only the file of the vnode at \<open>p\<close> changed: its
  inode, its blocks, and which blocks it owns.
\<close>

definition inode_change :: "nat \<Rightarrow> sfs_fs \<Rightarrow> sfs_vnode \<Rightarrow> sfs_fs \<Rightarrow> sfs_vnode \<Rightarrow> bool" where
  "inode_change p s v t v' \<longleftrightarrow>
     fs_ok t \<and> fs_same s t \<and> vn_heap t = (vn_heap s)[p := Some v'] \<and> inode_ok t (sv_i v') \<and>
     used t - inode_blocks (disk t) (sv_i v') = used s - inode_blocks (disk s) (sv_i v) \<and>
     (\<forall>c \<in> used s - inode_blocks (disk s) (sv_i v) - {sv_ino v}. disk t c = disk s c) \<and>
     sv_ino v' = sv_ino v \<and> vnode_ok v' \<and> clean t v' \<and> sfi_size (sv_i v') \<le> MAXFILE \<and>
     bm_nbits (sfs_freemap t) = bm_nbits (sfs_freemap s) \<and>
     (sfs_freemapdirty t \<or> \<not> sfs_freemapdirty s \<and> sfs_freemap t = sfs_freemap s)"

lemma tab_change: "inode_change p s v t v' \<Longrightarrow> tab t = tab s"
  by (simp add: inode_change_def tab_def fs_same_def)

lemma vol_ok_parts:
  assumes "vol_ok s F X"
  shows "fs_ok s" "vol_small s" "tab_ok s" "owners_ok s F X"
    "\<And>p. p \<in> set (tab s) \<Longrightarrow> ino_of s p \<in> F" "\<And>ino. ino \<in> F \<Longrightarrow> file_ok s ino" "meta_ok s"
  using assms by (auto simp: vol_ok_def)

lemma owned_used:
  assumes "owners_ok s F X" "ino \<in> F"
  shows "owned s ino \<subseteq> used s"
  using assms by (auto simp: owners_ok_def)

lemma inode_blocks_cong:
  assumes "\<And>c. c \<in> inode_blocks d i \<Longrightarrow> d' c = d c" "length (bmap_of d i) = 143"
  shows "bmap_of d' i = bmap_of d i" "inode_blocks d' i = inode_blocks d i" "file_data d' i = file_data d i"
proof -
  show m: "bmap_of d' i = bmap_of d i"
    by (rule bmap_of_cong) (use assms(1) in \<open>simp add: inode_blocks_def\<close>)
  then show "inode_blocks d' i = inode_blocks d i" by (simp add: inode_blocks_def)
  have "blk_bytes d' c = blk_bytes d c" if "c \<in> set (bmap_of d i)" for c
    using that assms(1) [of c] by (simp add: blk_bytes_def inode_blocks_def)
  then show "file_data d' i = file_data d i"
    by (intro file_data_cong) (simp add: file_block_def m assms(2))
qed

text \<open>The files that a change leaves alone.\<close>

definition keeps :: "sfs_fs \<Rightarrow> sfs_fs \<Rightarrow> nat \<Rightarrow> bool" where
  "keeps s t ino \<longleftrightarrow> inode_at t ino = inode_at s ino \<and> owned t ino = owned s ino \<and>
     bmap_of (disk t) (inode_at s ino) = bmap_of (disk s) (inode_at s ino) \<and>
     file_data (disk t) (inode_at s ino) = file_data (disk s) (inode_at s ino)"

lemma keepsI:
  assumes "inode_at t ino = inode_at s ino" "\<And>c. c \<in> inode_blocks (disk s) (inode_at s ino) \<Longrightarrow> disk t c = disk s c"
    "fs_ok s" "file_ok s ino"
  shows "keeps s t ino"
proof -
  have "length (bmap_of (disk s) (inode_at s ino)) = 143"
    using assms(3,4) by (simp add: length_bmap_of file_ok_def inode_ok_def)
  with assms(1,2) show ?thesis
    using inode_blocks_cong [of "disk s" "inode_at s ino" "disk t"] by (simp add: keeps_def owned_def)
qed

lemma keeps_refl [simp]: "keeps s s ino"
  by (simp add: keeps_def)

lemma keeps_trans: "keeps s t ino \<Longrightarrow> keeps t u ino \<Longrightarrow> keeps s u ino"
  by (simp add: keeps_def)

lemma keeps_contents: "keeps s t ino \<Longrightarrow> contents t ino = contents s ino"
  by (simp add: keeps_def contents_def)

lemma keeps_file_ok:
  assumes "keeps s t ino" "file_ok s ino" "nblocks t = nblocks s" "owned s ino \<subseteq> used t"
  shows "file_ok t ino"
proof -
  have b: "inode_blocks (disk t) (inode_at s ino) = inode_blocks (disk s) (inode_at s ino)"
    using assms(1) unfolding keeps_def inode_blocks_def by simp
  have "inode_blocks (disk s) (inode_at s ino) \<subseteq> {..<nblocks s} \<inter> used t"
    using assms(2,4) by (auto simp: owned_def file_ok_def inode_ok_def)
  then show ?thesis
    using assms(1-3) b by (simp add: file_ok_def inode_ok_def keeps_def)
qed

lemma vn_of_change:
  assumes "inode_change p s v t v'" "vn_at p s = Some v"
  shows "vn_at p t = Some v'" "vn_of t p = v'" "\<And>q. q \<noteq> p \<Longrightarrow> vn_at q t = vn_at q s"
    "\<And>q. q \<noteq> p \<Longrightarrow> vn_of t q = vn_of s q" "ino_of t = ino_of s" "tab t = tab s" "loaded t = loaded s"
proof -
  have h: "vn_heap t = (vn_heap s)[p := Some v']" "sv_ino v' = sv_ino v" using assms by (simp_all add: inode_change_def)
  have l: "p < length (vn_heap s)" using assms(2) by (simp add: vn_at_def split: if_splits)
  show p: "vn_at p t = Some v'" using h l by (simp add: vn_at_def)
  show q: "vn_at q t = vn_at q s" if "q \<noteq> p" for q using that h by (simp add: vn_at_def)
  show p': "vn_of t p = v'" using p by (simp add: vn_of_def)
  show q': "vn_of t q = vn_of s q" if "q \<noteq> p" for q using q [OF that] by (simp add: vn_of_def)
  show i: "ino_of t = ino_of s"
  proof
    fix q show "ino_of t q = ino_of s q"
      using p' q' [of q] h(2) assms(2) by (cases "q = p") (simp_all add: ino_of_def vn_of_def)
  qed
  show t: "tab t = tab s" by (rule tab_change [OF assms(1)])
  then show "loaded t = loaded s" by (simp add: loaded_def i fun_eq_iff)
qed

text \<open>Every other file of a sound volume keeps its inode and its data.\<close>

lemma change_keeps:
  assumes s: "vol_ok s F X" and p: "p \<in> set (tab s)" and v: "v = vn_of s p"
    and ch: "inode_change p s v t v'" and ino: "ino \<in> F" "ino \<noteq> sv_ino v"
  shows "keeps s t ino" "owned s ino \<subseteq> used s - inode_blocks (disk s) (sv_i v) - {sv_ino v}"
    "owned s ino \<subseteq> used t - inode_blocks (disk t) (sv_i v')"
proof -
  note vo = vol_ok_parts [OF s]
  have vp: "vn_at p s = Some v" using tab_ok_vn(1) [OF vo(3) p] v by simp
  note vn = vn_of_change [OF ch vp]
  have vi: "inode_at s (sv_ino v) = sv_i v" using inode_at_loaded [OF vo(3) p] v by (simp add: ino_of_def)
  have vF: "sv_ino v \<in> F" using vo(5) [OF p] v by (simp add: ino_of_def)
  have ov: "owned s (sv_ino v) = insert (sv_ino v) (inode_blocks (disk s) (sv_i v))" by (simp add: owned_def vi)
  have dis: "owned s ino \<inter> owned s (sv_ino v) = {}"
    using vo(4) ino vF by (simp add: owners_ok_def)
  show out: "owned s ino \<subseteq> used s - inode_blocks (disk s) (sv_i v) - {sv_ino v}"
    using dis ov owned_used [OF vo(4) ino(1)] by blast
  then show "owned s ino \<subseteq> used t - inode_blocks (disk t) (sv_i v')"
    using ch by (auto simp: inode_change_def)
  have d: "disk t c = disk s c" if "c \<in> owned s ino" for c
    using out that ch by (auto simp: inode_change_def)
  have at: "inode_at t ino = inode_at s ino"
  proof (cases "loaded s ino")
    case None
    then show ?thesis using d [of ino] by (simp add: inode_at_def vn(7) owned_def)
  next
    case (Some q)
    then have "q \<noteq> p" using loaded_SomeD [OF Some] ino(2) v by (auto simp: ino_of_def)
    then show ?thesis using Some vn(4) by (simp add: inode_at_def vn(7))
  qed
  show "keeps s t ino"
    by (rule keepsI [OF at]) (use d vo(1,6) ino in \<open>auto simp: owned_def\<close>)
qed

lemma vol_change:
  assumes s: "vol_ok s F X" and p: "p \<in> set (tab s)" and v: "v = vn_of s p"
    and ch: "inode_change p s v t v'"
  shows "vol_ok t F X" and "vn_of t p = v'" and "inode_at t (sv_ino v) = sv_i v'"
proof -
  note vo = vol_ok_parts [OF s]
  note keep = change_keeps [OF s p v ch]
  have vp: "vn_at p s = Some v" using tab_ok_vn(1) [OF vo(3) p] v by simp
  note vn = vn_of_change [OF ch vp]
  let ?i = "sv_ino v" and ?S = "inode_blocks (disk s) (sv_i v)" and ?T = "inode_blocks (disk t) (sv_i v')"
  have c: "fs_ok t" "fs_same s t" "inode_ok t (sv_i v')" "used t - ?T = used s - ?S" "vnode_ok v'" "clean t v'"
    "sfi_size (sv_i v') \<le> MAXFILE" "sv_ino v' = ?i"
    using ch by (simp_all add: inode_change_def)
  have n: "nblocks t = nblocks s" "sys_blocks t = sys_blocks s" using c(2) by (simp_all add: fs_same_def sys_blocks_def)
  show vp': "vn_of t p = v'" by (rule vn)
  have li: "loaded s ?i = Some p" using loaded_SomeI [OF vo(3) p] v by (simp add: ino_of_def)
  then show it: "inode_at t ?i = sv_i v'" by (simp add: inode_at_def vn(7) vn(2))
  have ips: "inode_at s ?i = sv_i v" using li v by (simp add: inode_at_def)
  have iF: "?i \<in> F" using vo(5) [OF p] v by (simp add: ino_of_def)
  have os: "owned s ?i = insert ?i ?S" and ot: "owned t ?i = insert ?i ?T" by (simp_all add: owned_def ips it)
  have fi: "file_ok s ?i" by (rule vo(6) [OF iF])
  have iS: "?i \<in> used s - ?S" using fi owned_used [OF vo(4) iF] os ips by (auto simp: file_ok_def)
  then have iT: "?i \<in> used t - ?T" using c(4) by simp
  have T: "?T \<subseteq> used t" "?T \<subseteq> {..<nblocks s}" using c(3) n by (auto simp: inode_ok_def)
  have fok: "file_ok t ino" if ino: "ino \<in> F" for ino
  proof (cases "ino = ?i")
    case True
    moreover have "sfs_ops_of_type (sfi_type (sv_i v')) \<noteq> None" using c(5) by (simp add: vnode_ok_def)
    moreover have "?i \<notin> ?T" using iT by blast
    ultimately show ?thesis using fi c(3,7) it n(1) by (simp add: file_ok_def)
  next
    case False
    then show ?thesis
      using keeps_file_ok [OF keep(1) [OF ino False] vo(6) [OF ino] n(1)] keep(3) [OF ino False] by blast
  qed
  have others: "owned t ino = owned s ino" if "ino \<in> F" "ino \<noteq> ?i" for ino
    using keep(1) [OF that] by (simp add: keeps_def)
  have "tab_ok t"
  proof -
    have "vnode_ok (vn_of t q) \<and> clean t (vn_of t q)" if q: "q \<in> set (tab s)" for q
    proof (cases "q = p")
      case False
      have qi: "ino_of s q \<in> F" by (rule vo(5) [OF q])
      have "ino_of s q \<noteq> ?i" using False q p vo(3) v by (auto simp: tab_ok_def inj_on_def ino_of_def)
      then have "ino_of s q \<in> used s - ?S - {?i}" using keep(2) [OF qi] by (auto simp: owned_def)
      then have "disk t (ino_of s q) = disk s (ino_of s q)" using ch by (simp add: inode_change_def)
      then show ?thesis
        using tab_ok_vn [OF vo(3) q] vn(4) [OF False] by (simp add: clean_def ino_of_def)
    qed (use vn(2) c in simp)
    moreover have "vn_at q t \<noteq> None \<longleftrightarrow> vn_at q s \<noteq> None" for q
      using vn(3) [of q] vp vn(1) by (cases "q = p") simp_all
    moreover have "sfs_vnodes t = sfs_vnodes s" using c(2) by (simp add: fs_same_def)
    ultimately show ?thesis using vo(3) by (simp add: tab_ok_def vn(5,6))
  qed
  moreover have "owners_ok t F X"
  proof -
    have o: "owners_ok s F X" by (rule vo(4))
    have dis: "owned t a \<inter> owned t b = {}" if ab: "a \<in> F" "b \<in> F" "a \<noteq> b" for a b
    proof -
      consider "a = ?i" "b \<noteq> ?i" | "b = ?i" "a \<noteq> ?i" | "a \<noteq> ?i" "b \<noteq> ?i" using ab by blast
      then show ?thesis
      proof cases
        case 1
        then show ?thesis using keep(2,3) [OF ab(2)] others [OF ab(2)] ot by blast
      next
        case 2
        then show ?thesis using keep(2,3) [OF ab(1)] others [OF ab(1)] ot by blast
      next
        case 3
        then show ?thesis using o ab others by (simp add: owners_ok_def)
      qed
    qed
    have sysX: "sys_blocks s \<union> X \<subseteq> used s" "owned s ?i \<inter> (sys_blocks s \<union> X) = {}"
      using o iF by (auto simp: owners_ok_def)
    then have sysT: "owned t ?i \<inter> (sys_blocks s \<union> X) = {}" using os ot iS c(4) by blast
    have "used t \<inter> {..<nblocks s} = (used s - ?S) \<inter> {..<nblocks s} \<union> ?T" using c(4) T by blast
    also have "\<dots> = (used s \<inter> {..<nblocks s} - ?S) \<union> ?T" by blast
    also have "used s \<inter> {..<nblocks s} = sys_blocks s \<union> (\<Union>a \<in> F. owned s a) \<union> X" using o by (simp add: owners_ok_def)
    also have "(\<Union>a \<in> F. owned s a) = insert ?i ?S \<union> (\<Union>a \<in> F - {?i}. owned s a)" using iF os by blast
    also have "(\<Union>a \<in> F - {?i}. owned s a) = (\<Union>a \<in> F - {?i}. owned t a)" using others by auto
    also have "(sys_blocks s \<union> (insert ?i ?S \<union> (\<Union>a \<in> F - {?i}. owned t a)) \<union> X - ?S) \<union> ?T =
        sys_blocks s \<union> (insert ?i ?T \<union> (\<Union>a \<in> F - {?i}. owned t a)) \<union> X"
    proof -
      have "(\<Union>a \<in> F - {?i}. owned t a) \<inter> ?S = {}" using keep(2) others by blast
      moreover have "(sys_blocks s \<union> X) \<inter> ?S = {}" "?i \<notin> ?S" using sysX(2) os iS by blast+
      ultimately show ?thesis by blast
    qed
    also have "insert ?i ?T \<union> (\<Union>a \<in> F - {?i}. owned t a) = (\<Union>a \<in> F. owned t a)" using iF ot by blast
    finally have "used t \<inter> {..<nblocks t} = sys_blocks t \<union> (\<Union>a \<in> F. owned t a) \<union> X" using n by simp
    moreover have "owned t a \<inter> (sys_blocks s \<union> X) = {}" if "a \<in> F" for a
      using that sysT others [OF that] o by (cases "a = ?i") (simp_all add: owners_ok_def)
    ultimately show ?thesis using dis o n(2) by (simp add: owners_ok_def)
  qed
  moreover have "meta_ok t"
  proof (rule meta_keep [OF vo(7)])
    have "owned s ?i \<inter> (sys_blocks s \<union> X) = {}" using vo(4) iF by (simp add: owners_ok_def)
    then show "disk t c = disk s c" if "c \<in> sys_blocks s" for c
      using that vo(4) ch os by (auto simp: inode_change_def owners_ok_def)
  qed (use c(2) ch in \<open>simp_all add: inode_change_def fs_same_def\<close>)
  ultimately show "vol_ok t F X"
    using c(1) vo(2) n(1) fok vo(5) by (auto simp: vol_ok_def vol_small_def vn(5,6))
qed

subsection \<open>Steps that are changes of one file\<close>

lemma vol_vnode:
  assumes "vol_ok s F X" "p \<in> set (tab s)" "v = vn_of s p"
  shows "fs_ok s" "vn_at p s = Some v" "inode_ok s (sv_i v)" "sv_ino v \<in> F" "sv_ino v < nblocks s"
    "sv_ino v \<in> used s - inode_blocks (disk s) (sv_i v)" "vnode_ok v" "clean s v" "inode_at s (sv_ino v) = sv_i v"
    "sfi_size (sv_i v) \<le> MAXFILE" "vol_small s" "sv_ino v \<notin> sys_blocks s"
proof -
  note vo = vol_ok_parts [OF assms(1)]
  show i: "inode_at s (sv_ino v) = sv_i v" using inode_at_loaded [OF vo(3) assms(2)] assms(3) by (simp add: ino_of_def)
  show F: "sv_ino v \<in> F" using vo(5) [OF assms(2)] assms(3) by (simp add: ino_of_def)
  have f: "file_ok s (sv_ino v)" by (rule vo(6) [OF F])
  show "fs_ok s" "vn_at p s = Some v" "vnode_ok v" "clean s v" "vol_small s"
    using vo tab_ok_vn [OF vo(3) assms(2)] assms(3) by simp_all
  show "inode_ok s (sv_i v)" "sv_ino v < nblocks s" "sfi_size (sv_i v) \<le> MAXFILE" using f i by (simp_all add: file_ok_def)
  show "sv_ino v \<in> used s - inode_blocks (disk s) (sv_i v)"
    using f i owned_used [OF vo(4) F] by (auto simp: file_ok_def owned_def)
  have "owned s (sv_ino v) \<inter> sys_blocks s = {}" using vo(4) F by (auto simp: owners_ok_def)
  then show "sv_ino v \<notin> sys_blocks s" by (auto simp: owned_def)
qed

lemma step_change:
  assumes "vol_ok s F X" "p \<in> set (tab s)" "v = vn_of s p" "inode_step p s v t v'" "sfi_size (sv_i v') \<le> MAXFILE"
  shows "inode_change p s v t v'"
proof -
  note vv = vol_vnode [OF assms(1-3)]
  let ?S = "inode_blocks (disk s) (sv_i v)" and ?T = "inode_blocks (disk t) (sv_i v')"
  note st = assms(4) [unfolded inode_step_def]
  have sets: "used s \<subseteq> used t" "used t \<subseteq> used s \<union> ?T" "?S \<subseteq> ?T" "?T \<inter> used s \<subseteq> ?S" using st by blast+
  have d: "disk t (sv_ino v) = disk s (sv_ino v)" using st vv(6) by blast
  have "used t - ?T = used s - ?S" using sets by blast
  moreover have "vnode_ok v'" using st vv(7) by (simp add: vnode_ok_def)
  moreover have "clean t v'" using st vv(8) d by (auto simp: clean_def)
  ultimately show ?thesis using st assms(5) by (simp add: inode_change_def)
qed

lemma shrink_change:
  assumes "vol_ok s F X" "p \<in> set (tab s)" "v = vn_of s p" "inode_shrink p s v t v'" "sfi_size (sv_i v') \<le> MAXFILE"
  shows "inode_change p s v t v'"
proof -
  note vv = vol_vnode [OF assms(1-3)]
  let ?S = "inode_blocks (disk s) (sv_i v)" and ?T = "inode_blocks (disk t) (sv_i v')"
  note st = assms(4) [unfolded inode_shrink_def]
  have sets: "?T \<subseteq> ?S" "used t = used s - (?S - ?T)" using st by blast+
  have di: "disk t c = disk s c" if "c \<in> used s - ?S" for c
  proof -
    have "c \<noteq> sfi_indirect (sv_i v) \<or> c = 0" using that by (auto simp: inode_blocks_def)
    then show ?thesis using st by blast
  qed
  have "used t - ?T = used s - ?S" using sets by blast
  moreover have "vnode_ok v'" using st vv(7) by (simp add: vnode_ok_def)
  moreover have "clean t v'" using st vv(8) di [OF vv(6)] by (auto simp: clean_def)
  moreover have "\<forall>c \<in> used s - ?S - {sv_ino v}. disk t c = disk s c" using di by blast
  ultimately show ?thesis using st assms(5) unfolding inode_change_def by simp
qed

text \<open>A vnode changed in memory only; its blocks are the same.\<close>

lemma put_change:
  assumes "vol_ok s F X" "p \<in> set (tab s)" "v = vn_of s p"
    and "sfi_direct (sv_i v') = sfi_direct (sv_i v)" "sfi_indirect (sv_i v') = sfi_indirect (sv_i v)"
    and "dinode_wf (sv_i v')" "sv_ino v' = sv_ino v" "vnode_ok v'" "sfi_size (sv_i v') \<le> MAXFILE"
    and "sv_dirty v' \<or> \<not> sv_dirty v \<and> sv_i v' = sv_i v"
  shows "inode_change p s v (vn_put p v' s) v'"
proof -
  note vv = vol_vnode [OF assms(1-3)]
  have m: "bmap_of d (sv_i v') = bmap_of d (sv_i v)" for d using assms(4,5) by (simp add: bmap_of_def)
  then have b: "inode_blocks d (sv_i v') = inode_blocks d (sv_i v)" for d using assms(5) by (simp add: inode_blocks_def)
  have "inode_ok s (sv_i v')" using vv(3) assms(5,6) by (simp add: inode_ok_def b m)
  moreover have "clean s v'" using assms(7,10) vv(8) by (auto simp: clean_def)
  then have "clean (vn_put p v' s) v'" by (simp add: clean_def)
  ultimately show ?thesis
    using vv(1) assms(7-9) by (simp add: inode_change_def b)
qed

lemma sfs_sync_inode_wp:
  assumes s: "vol_ok s F X" "p \<in> set (tab s)" "v = vn_of s p"
  shows "wp (sfs_sync_inode p)
    (\<lambda>_ t. inode_change p s v t (v\<lparr>sv_dirty := False\<rparr>) \<and>
       (\<forall>c. c \<noteq> sv_ino v \<longrightarrow> disk t c = disk s c) \<and>
       sfs_freemap t = sfs_freemap s \<and> sfs_freemapdirty t = sfs_freemapdirty s) E s"
proof -
  note vv = vol_vnode [OF s]
  have wf: "dinode_wf (sv_i v)" using vv(3) by (simp add: inode_ok_def)
  have id: "v\<lparr>sv_dirty := False\<rparr> = v" if "\<not> sv_dirty v" using that by simp
  show ?thesis
  proof (cases "sv_dirty v")
    case False
    then have "inode_change p s v (vn_put p v s) v"
      using vv wf by (intro put_change [OF s]) auto
    then show ?thesis using False vv(2) unfolding id [OF False] by (simp add: sfs_sync_inode_def)
  next
    case True
    let ?v = "v\<lparr>sv_dirty := False\<rparr>" and ?b = "dinode_to_block (sv_i v)"
    have "inode_change p s v (vn_put p ?v t) ?v \<and> (\<forall>c. c \<noteq> sv_ino v \<longrightarrow> disk t c = disk s c) \<and>
        sfs_freemap t = sfs_freemap s \<and> sfs_freemapdirty t = sfs_freemapdirty s"
      if t: "dev_step s ((disk s)(sv_ino v := ?b)) t" for t
    proof -
      note d = dev_step_simps [OF t]
      have "disk t c = disk s c" if "c \<in> inode_blocks (disk s) (sv_i v)" for c using that vv(6) d(1) by auto
      note bl = inode_blocks_cong(1,2) [OF this length_bmap_of [OF vv(1) wf]]
      have "inode_ok t (sv_i v)" using vv(3) by (simp add: inode_ok_def bl d(2-))
      moreover have "vnode_ok ?v" using vv(7) by (simp add: vnode_ok_def)
      moreover have "disk t (sv_ino v) = ?b" "\<And>c. c \<noteq> sv_ino v \<Longrightarrow> disk t c = disk s c" using d(1) by simp_all
      ultimately show ?thesis
        using vv(1,10) unfolding inode_change_def by (simp add: bl d(2-) clean_def)
    qed
    then show ?thesis
      using True vv(2)
      by (simp add: sfs_sync_inode_def)
        (rule wp_conseq [OF writeblock_wp [OF vv(1,5)]],
          use length_dinode_to_block [OF wf] in \<open>auto simp: dev_step_simps\<close>)
  qed
qed

subsection \<open>What callers see\<close>

text \<open>Of a file, its type, its link count and its contents; of a vnode, its references.\<close>

definition view :: "sfs_fs \<Rightarrow> nat \<Rightarrow> nat \<times> nat \<times> byte list" where
  "view s ino = (sfi_type (inode_at s ino), sfi_linkcount (inode_at s ino), contents s ino)"

definition refs :: "sfs_fs \<Rightarrow> nat \<Rightarrow> int" where
  "refs s ino = (case loaded s ino of None \<Rightarrow> 0 | Some p \<Rightarrow> vn_refcount (vn_of s p))"

lemma keeps_view: "keeps s t ino \<Longrightarrow> view t ino = view s ino"
  using keeps_contents [of s t ino] by (simp add: view_def keeps_def)

text \<open>Steps that only touch the device or the allocator of the kernel.\<close>

definition quiet :: "sfs_fs \<Rightarrow> sfs_fs \<Rightarrow> bool" where
  "quiet s t \<longleftrightarrow> fs_ok t \<and> sfs_sb t = sfs_sb s \<and> sfs_superdirty t = sfs_superdirty s \<and> sfs_vnodes t = sfs_vnodes s \<and>
     sfs_freemap t = sfs_freemap s \<and> sfs_freemapdirty t = sfs_freemapdirty s \<and> disk t = disk s \<and>
     biglock_depth t = biglock_depth s \<and> (\<forall>q. vn_at q t = vn_at q s)"

lemma quiet_same:
  assumes "quiet s t"
  shows "tab t = tab s" "vn_of t = vn_of s" "ino_of t = ino_of s" "loaded t = loaded s" "inode_at t = inode_at s"
    "owned t = owned s" "contents t = contents s" "view t = view s" "refs t = refs s" "keeps s t ino" "disk t = disk s"
    "vn_at q t = vn_at q s"
proof -
  show t: "tab t = tab s" and d: "disk t = disk s" using assms by (simp_all add: quiet_def tab_def)
  show "vn_at q t = vn_at q s" using assms by (simp add: quiet_def)
  show v: "vn_of t = vn_of s" by (rule ext) (use assms in \<open>simp add: quiet_def vn_of_def\<close>)
  show i: "ino_of t = ino_of s" by (rule ext) (simp add: ino_of_def v)
  show l: "loaded t = loaded s" by (rule ext) (simp add: loaded_def t i)
  show n: "inode_at t = inode_at s" by (rule ext) (simp add: inode_at_def l v d split: option.split)
  show o: "owned t = owned s" by (rule ext) (simp add: owned_def n d)
  show c: "contents t = contents s" by (rule ext) (simp add: contents_def n d)
  show "view t = view s" by (rule ext) (simp add: view_def n c)
  show "refs t = refs s" by (rule ext) (simp add: refs_def l v split: option.split)
  show "keeps s t ino" by (simp add: keeps_def n d o)
qed

lemma quiet_vol:
  assumes "quiet s t" "vol_ok s F X"
  shows "vol_ok t F X"
proof -
  note q = quiet_same [OF assms(1)]
  have e: "fs_ok t" "sfs_sb t = sfs_sb s" "sfs_vnodes t = sfs_vnodes s" "sfs_freemap t = sfs_freemap s"
    using assms(1) by (simp_all add: quiet_def)
  have "tab_ok t = tab_ok s" by (simp add: tab_ok_def clean_def q e)
  moreover have "file_ok t = file_ok s" by (rule ext) (simp add: file_ok_def inode_ok_def q e)
  moreover have "owners_ok t F X = owners_ok s F X" by (simp add: owners_ok_def sys_blocks_def q e)
  moreover have "meta_ok t = meta_ok s" using assms(1) by (simp add: meta_ok_def fm_block_def quiet_def)
  ultimately show ?thesis using assms(2) e by (simp add: vol_ok_def vol_small_def q)
qed

lemma quiet_refl: "fs_ok s \<Longrightarrow> quiet s s"
  by (simp add: quiet_def)

lemma quiet_trans: "quiet s t \<Longrightarrow> quiet t u \<Longrightarrow> quiet s u"
  by (simp add: quiet_def)

lemma dev_step_quiet: "dev_step s (disk s) t \<Longrightarrow> fs_ok s \<Longrightarrow> quiet s t"
  using dev_step_simps [of s "disk s" t] by (simp add: quiet_def)

lemma quiet_kmalloc [simp]: "quiet s (t\<lparr>kmalloc_script := k\<rparr>) = quiet s t"
  "fs_ok (s\<lparr>kmalloc_script := k\<rparr>) = fs_ok s" "disk (s\<lparr>kmalloc_script := k\<rparr>) = disk s"
  "vn_at q (s\<lparr>kmalloc_script := k\<rparr>) = vn_at q s"
  by (auto simp: quiet_def fs_ok_def dev_ok_def disk_def vn_at_def)

text \<open>Nothing of this depends on the big lock.\<close>

lemma volume_biglock [simp]:
  "tab (s\<lparr>biglock_depth := d\<rparr>) = tab s" "vn_of (s\<lparr>biglock_depth := d\<rparr>) = vn_of s"
  "ino_of (s\<lparr>biglock_depth := d\<rparr>) = ino_of s" "loaded (s\<lparr>biglock_depth := d\<rparr>) = loaded s"
  "inode_at (s\<lparr>biglock_depth := d\<rparr>) = inode_at s" "owned (s\<lparr>biglock_depth := d\<rparr>) = owned s"
  "contents (s\<lparr>biglock_depth := d\<rparr>) = contents s" "view (s\<lparr>biglock_depth := d\<rparr>) = view s"
  "refs (s\<lparr>biglock_depth := d\<rparr>) = refs s" "vol_ok (s\<lparr>biglock_depth := d\<rparr>) F X = vol_ok s F X"
proof -
  show t: "tab (s\<lparr>biglock_depth := d\<rparr>) = tab s" by (simp add: tab_def)
  show v: "vn_of (s\<lparr>biglock_depth := d\<rparr>) = vn_of s" by (rule ext) (simp add: vn_of_def)
  show i: "ino_of (s\<lparr>biglock_depth := d\<rparr>) = ino_of s" by (rule ext) (simp add: ino_of_def v)
  show l: "loaded (s\<lparr>biglock_depth := d\<rparr>) = loaded s" by (rule ext) (simp add: loaded_def t i)
  show n: "inode_at (s\<lparr>biglock_depth := d\<rparr>) = inode_at s"
    by (rule ext) (simp add: inode_at_def l v split: option.split)
  show o: "owned (s\<lparr>biglock_depth := d\<rparr>) = owned s" by (rule ext) (simp add: owned_def n)
  show c: "contents (s\<lparr>biglock_depth := d\<rparr>) = contents s" by (rule ext) (simp add: contents_def n)
  show "view (s\<lparr>biglock_depth := d\<rparr>) = view s" by (rule ext) (simp add: view_def n c)
  show "refs (s\<lparr>biglock_depth := d\<rparr>) = refs s" by (rule ext) (simp add: refs_def l v split: option.split)
  have "file_ok (s\<lparr>biglock_depth := d\<rparr>) = file_ok s" by (rule ext) (simp add: file_ok_def n)
  then show "vol_ok (s\<lparr>biglock_depth := d\<rparr>) F X = vol_ok s F X"
    by (simp add: vol_ok_def vol_small_def tab_ok_def clean_def owners_ok_def sys_blocks_def meta_ok_def fm_block_def t v i n o)
qed

subsection \<open>Searching the table\<close>

lemma length_tab: "tab_ok s \<Longrightarrow> length (tab s) = unat (arr_num (sfs_vnodes s))"
  by (simp add: tab_def tab_ok_def)

lemma unat_of_index:
  assumes "tab_ok s" "i < length (tab s)"
  shows "unat (word_of_nat i :: u32w) = i" "(word_of_nat i :: u32w) < arr_num (sfs_vnodes s)"
proof -
  have "i < unat (arr_num (sfs_vnodes s))" using assms by (simp add: length_tab)
  moreover have "unat (arr_num (sfs_vnodes s)) < 2 ^ 32" using unsigned_less [of "arr_num (sfs_vnodes s)"] by simp
  ultimately have "i < 2 ^ 32" by simp
  then show "unat (word_of_nat i :: u32w) = i" by (simp add: unat_of_nat)
  then show "(word_of_nat i :: u32w) < arr_num (sfs_vnodes s)"
    using \<open>i < unat (arr_num (sfs_vnodes s))\<close> by (simp add: word_less_nat_alt)
qed

lemma vnodearray_get_wp:
  assumes t: "tab_ok s" and i: "i < length (tab s)"
  shows "wp (vnodearray_get i) (\<lambda>p t. p = tab s ! i \<and> t = s) E s"
proof -
  note u = unat_of_index [OF t i]
  have a: "array_ok (sfs_vnodes s)" using t by (simp add: tab_ok_def)
  have l: "i < length (array_list (sfs_vnodes s))" using i by (simp add: tab_def)
  have "array_list (sfs_vnodes s) ! i \<noteq> None" using t l by (metis nth_mem tab_ok_def)
  then have e: "array_list (sfs_vnodes s) ! i = Some (tab s ! i)" using l by (auto simp: tab_def)
  have "tab s ! i \<in> set (tab s)" using i by simp
  then have "vn_at (tab s ! i) s = Some (vn_of s (tab s ! i))" by (rule tab_ok_vn(1) [OF t])
  then show ?thesis
    unfolding vnodearray_get_def on_vnodes_def
    by simp (rule wp_conseq [OF array_get_wp [OF a u(2)]], simp_all add: u(1) e)
qed

lemma sfs_reclaim_search_wp:
  assumes "tab_ok s" "i \<le> k" "k < length (tab s)" "tab s ! k = p" "num = length (tab s)"
  shows "wp (sfs_reclaim_search p num i) (\<lambda>ix t. t = s \<and> ix < length (tab s) \<and> tab s ! ix = p) E s"
  using assms(2)
proof (induction "k - i" arbitrary: i)
  case 0
  then have "i = k" by simp
  then show ?case
    using assms by (subst sfs_reclaim_search.simps) (simp, rule wp_conseq [OF vnodearray_get_wp], auto)
next
  case (Suc n)
  have IH: "wp (sfs_reclaim_search p num (Suc i)) (\<lambda>ix t. t = s \<and> ix < length (tab s) \<and> tab s ! ix = p) E s"
    using Suc.hyps(2) Suc.prems by (intro Suc.hyps(1)) auto
  then show ?case
    using assms Suc by (subst sfs_reclaim_search.simps) (simp, rule wp_conseq [OF vnodearray_get_wp], auto)
qed

subsection \<open>References\<close>

lemma vn_put_more [simp]: "sfs_superdirty (vn_put p v s) = sfs_superdirty s" "sfs_device (vn_put p v s) = sfs_device s"
  by (simp_all add: vn_put_def)

lemma refs_loaded: "tab_ok s \<Longrightarrow> p \<in> set (tab s) \<Longrightarrow> refs s (ino_of s p) = vn_refcount (vn_of s p)"
  using loaded_SomeI [of s p] by (simp add: refs_def)

text \<open>A vnode whose reference count alone changed.\<close>

lemma refcount_change:
  assumes s: "vol_ok s F X" and p: "p \<in> set (tab s)" and v: "v = vn_of s p" and n: "n \<ge> 1"
  defines "t \<equiv> vn_put p (v\<lparr>vn_refcount := n\<rparr>) s"
  shows "vol_ok t F X" "inode_at t = inode_at s" "view t = view s" "refs t = (refs s)(sv_ino v := n)"
    "tab t = tab s" "ino_of t = ino_of s" "vn_of t p = v\<lparr>vn_refcount := n\<rparr>" "vn_at p t = Some (v\<lparr>vn_refcount := n\<rparr>)"
    "\<And>q. q \<noteq> p \<Longrightarrow> vn_at q t = vn_at q s"
proof -
  note vv = vol_vnode [OF s p v]
  have "dinode_wf (sv_i v)" using vv(3) by (simp add: inode_ok_def)
  then have ch: "inode_change p s v t (v\<lparr>vn_refcount := n\<rparr>)"
    using vv(7,10) n unfolding t_def by (intro put_change [OF s p v]) (auto simp: vnode_ok_def)
  note vn = vn_of_change [OF ch vv(2)] and vo = vol_ok_parts [OF s]
  show "vol_ok t F X" "tab t = tab s" "ino_of t = ino_of s" "vn_of t p = v\<lparr>vn_refcount := n\<rparr>"
    "vn_at p t = Some (v\<lparr>vn_refcount := n\<rparr>)"
    "\<And>q. q \<noteq> p \<Longrightarrow> vn_at q t = vn_at q s"
    using vol_change [OF s p v ch] vn by simp_all
  have i: "sv_i (vn_of t q) = sv_i (vn_of s q)" for q using vn(2) vn(4) [of q] v by (cases "q = p") simp_all
  have d: "disk t = disk s" by (simp add: t_def)
  show at: "inode_at t = inode_at s"
    by (rule ext) (simp add: inode_at_def vn(7) i d split: option.split)
  show "view t = view s" by (rule ext) (simp add: view_def contents_def at d)
  have li: "loaded s (sv_ino v) = Some p" using loaded_SomeI [OF vo(3) p] v by (simp add: ino_of_def)
  show "refs t = (refs s)(sv_ino v := n)"
  proof
    fix ino
    show "refs t ino = ((refs s)(sv_ino v := n)) ino"
    proof (cases "ino = sv_ino v")
      case False
      then have "loaded s ino \<noteq> Some p" using loaded_SomeD [of s ino p] v by (auto simp: ino_of_def)
      then show ?thesis using False vn(4) by (auto simp: refs_def vn(7) split: option.split)
    qed (use li vn(2) in \<open>simp add: refs_def vn(7)\<close>)
  qed
qed

text \<open>
  \<open>got p ino s t\<close>: a reference to inode \<open>ino\<close> was taken, and its vnode is at \<open>p\<close>; nothing else
  can be seen to change.
\<close>

definition got :: "nat \<Rightarrow> nat \<Rightarrow> sfs_fs \<Rightarrow> sfs_fs \<Rightarrow> bool" where
  "got p ino s t \<longleftrightarrow> p \<in> set (tab t) \<and> ino_of t p = ino \<and> disk t = disk s \<and> sfs_freemap t = sfs_freemap s \<and>
     sfs_freemapdirty t = sfs_freemapdirty s \<and> sfs_sb t = sfs_sb s \<and> sfs_superdirty t = sfs_superdirty s \<and>
     biglock_depth t = biglock_depth s \<and> inode_at t = inode_at s \<and> refs t = (refs s)(ino := refs s ino + 1) \<and>
     (\<forall>q. q \<noteq> p \<longrightarrow> vn_at q t = vn_at q s)"

lemma got_view: "got p ino s t \<Longrightarrow> view t = view s"
  by (rule ext) (simp add: got_def view_def contents_def)

lemma incref_got:
  assumes s: "vol_ok s F X" and p: "loaded s ino = Some p" and v: "v = vn_of s p"
  defines "t \<equiv> vn_put p (v\<lparr>vn_refcount := vn_refcount v + 1\<rparr>) s"
  shows "vol_ok t F X" "got p ino s t"
proof -
  have pt: "p \<in> set (tab s)" "ino_of s p = ino" using loaded_SomeD [OF p] by simp_all
  note vv = vol_vnode [OF s pt(1) v]
  have n: "vn_refcount v + 1 \<ge> 1" using vv(7) by (simp add: vnode_ok_def)
  note rc = refcount_change [OF s pt(1) v n, folded t_def]
  show "vol_ok t F X" by (rule rc)
  have "refs s ino = vn_refcount v" using p v by (simp add: refs_def)
  moreover have "sv_ino v = ino" using pt(2) v by (simp add: ino_of_def)
  ultimately show "got p ino s t"
    using rc pt by (simp add: got_def) (simp add: t_def)
qed

subsection \<open>Loading\<close>

lemma sfs_loadvnode_search_wp:
  assumes s: "vol_ok s F X" and num: "num = length (tab s)"
    and ft: "loaded s ino \<noteq> None \<Longrightarrow> forcetype = SFS_TYPE_INVAL"
  shows "i \<le> num \<Longrightarrow> \<forall>q \<in> set (take i (tab s)). ino_of s q \<noteq> ino \<Longrightarrow>
    wp (sfs_loadvnode_search ino forcetype num i)
      (\<lambda>r t. case loaded s ino of
         None \<Rightarrow> r = None \<and> t = s
       | Some p \<Rightarrow> r = Some p \<and> t = vn_put p ((vn_of s p)\<lparr>vn_refcount := vn_refcount (vn_of s p) + 1\<rparr>) s) E s"
proof (induction "num - i" arbitrary: i)
  case 0
  then have "loaded s ino = None" using num by (simp add: loaded_None)
  then show ?case using 0 by (subst sfs_loadvnode_search.simps) simp
next
  case (Suc n)
  note vo = vol_ok_parts [OF s]
  define p where "p = tab s ! i"
  have i: "i < length (tab s)" using Suc.hyps(2) num by simp
  have p: "p \<in> set (tab s)" using i by (simp add: p_def)
  note vv = vol_vnode [OF s p refl]
  let ?Q = "\<lambda>r t. case loaded s ino of
         None \<Rightarrow> r = None \<and> t = s
       | Some p \<Rightarrow> r = Some p \<and> t = vn_put p ((vn_of s p)\<lparr>vn_refcount := vn_refcount (vn_of s p) + 1\<rparr>) s"
  have us: "sv_ino (vn_of s p) < nblocks s" "sv_ino (vn_of s p) \<in> used s" using vv by auto
  have bu: "wp (sfs_bused (sv_ino (vn_of s p))) Q E s" if "Q True s" for Q
    by (rule wp_conseq [OF sfs_bused_wp [OF vv(1) us(1)]]) (use that us in auto)
  have rest: "wp (kbind (sv_get p sv_ino) (\<lambda>ino2.
        kbind (sfs_bused ino2) (\<lambda>inuse.
          if \<not> inuse then kpanic
          else if ino2 = ino then
            kthen (kassert (\<lambda>_. forcetype = SFS_TYPE_INVAL))
              (kthen (on_vn p vnode_incref) (kret (Some p)))
          else sfs_loadvnode_search ino forcetype num (Suc i)))) ?Q E s"
  proof (cases "sv_ino (vn_of s p) = ino")
    case True
    then have l: "loaded s ino = Some p" using loaded_SomeI [OF vo(3) p] by (simp add: ino_of_def)
    then show ?thesis using True ft vv(2)
      by simp (rule bu [unfolded True], simp add: on_vn_def vnode_incref_def)
  next
    case False
    then have "wp (sfs_loadvnode_search ino forcetype num (Suc i)) ?Q E s"
      using Suc.hyps(2) Suc.prems i by (intro Suc.hyps(1)) (auto simp: take_Suc_conv_app_nth p_def ino_of_def)
    then show ?thesis using False vv(2) by simp (rule bu, simp)
  qed
  have lt: "i < num" using i num by simp
  show ?case
    unfolding sfs_loadvnode_search.simps [of ino forcetype num i] if_P [OF lt] wp_kbind
  proof (rule wp_conseq [OF vnodearray_get_wp [OF vo(3) i]], goal_cases)
    case (1 q t)
    then have "q = p" "t = s" by (simp_all add: p_def)
    then show ?case using rest unfolding wp_kbind by (simp only:)
  qed
qed

lemma tab_bound:
  assumes s: "vol_ok s F X"
  shows "length (tab s) \<le> 2 ^ 23" "arr_num (sfs_vnodes s) < 2 ^ 29"
proof -
  note vo = vol_ok_parts [OF s]
  have "ino_of s ` set (tab s) \<subseteq> {..<nblocks s}"
    using vo(5,6) by (auto simp: file_ok_def)
  then have "card (ino_of s ` set (tab s)) \<le> nblocks s"
    using card_mono [of "{..<nblocks s}"] by simp
  moreover have "card (ino_of s ` set (tab s)) = length (tab s)"
    using vo(3) by (simp add: tab_ok_def card_image distinct_card)
  ultimately show "length (tab s) \<le> 2 ^ 23" using vo(2) by (simp add: vol_small_def)
  then have "unat (arr_num (sfs_vnodes s)) < 2 ^ 29" using length_tab [OF vo(3)] by simp
  then show "arr_num (sfs_vnodes s) < 2 ^ 29" by (simp add: word_less_nat_alt)
qed

text \<open>A vnode put on the heap and into the table.\<close>

lemma tab_new:
  assumes s: "tab_ok s" and p: "p = length (vn_heap s)"
    and h: "vn_heap t = vn_heap s @ [Some v]" and d: "disk t = disk s"
    and a: "array_ok (sfs_vnodes t)" "array_list (sfs_vnodes t) = array_list (sfs_vnodes s) @ [Some p]"
    and v: "loaded s (sv_ino v) = None" "vnode_ok v" "clean s v"
  shows "tab_ok t" "tab t = tab s @ [p]" "vn_of t p = v" "vn_at p t = Some v" "ino_of t p = sv_ino v"
    "\<And>q. q \<noteq> p \<Longrightarrow> vn_at q t = vn_at q s" "inode_at t = (inode_at s)(sv_ino v := sv_i v)"
    "refs t = (refs s)(sv_ino v := vn_refcount v)" "\<And>q. q \<in> set (tab s) \<Longrightarrow> ino_of t q = ino_of s q"
proof -
  show T: "tab t = tab s @ [p]" using a(2) by (simp add: tab_def)
  show vp: "vn_at p t = Some v" using h p by (simp add: vn_at_def)
  then show vo: "vn_of t p = v" by (simp add: vn_of_def)
  then show ip: "ino_of t p = sv_ino v" by (simp add: ino_of_def)
  show vq: "vn_at q t = vn_at q s" if "q \<noteq> p" for q
    using that h p by (auto simp: vn_at_def nth_append)
  have pn: "p \<notin> set (tab s)" using s p by (auto simp: tab_ok_def vn_at_def)
  have vqo: "vn_of t q = vn_of s q" "ino_of t q = ino_of s q" if "q \<in> set (tab s)" for q
  proof -
    have "q \<noteq> p" using that pn by auto
    then show "vn_of t q = vn_of s q" by (simp add: vn_of_def vq)
    then show "ino_of t q = ino_of s q" by (simp add: ino_of_def)
  qed
  then show "\<And>q. q \<in> set (tab s) \<Longrightarrow> ino_of t q = ino_of s q" by simp
  have nl: "\<forall>q \<in> set (tab s). ino_of s q \<noteq> sv_ino v" using v(1) by (simp add: loaded_None)
  have cl: "clean t w = clean s w" for w by (simp add: clean_def d)
  show ok: "tab_ok t"
  proof -
    have "q \<in> set (tab t) \<longleftrightarrow> vn_at q t \<noteq> None" for q
      using s T vp vq [of q] by (cases "q = p") (auto simp: tab_ok_def)
    moreover have "inj_on (ino_of t) (set (tab t))"
    proof -
      have "inj_on (ino_of t) (set (tab s))" using s vqo(2) by (auto simp: tab_ok_def inj_on_def)
      moreover have "ino_of t p \<notin> ino_of t ` set (tab s)" using nl ip vqo(2) by auto
      ultimately show ?thesis using T pn by (simp add: inj_on_insert)
    qed
    moreover have "vnode_ok (vn_of t q) \<and> clean t (vn_of t q)" if "q \<in> set (tab t)" for q
      using that T vo vqo(1) v tab_ok_vn(2,3) [OF s] by (auto simp: cl)
    ultimately show ?thesis using a s T pn by (simp add: tab_ok_def)
  qed
  have L: "loaded t ino = (if ino = sv_ino v then Some p else loaded s ino)" for ino
  proof (cases "ino = sv_ino v")
    case True
    then show ?thesis using loaded_SomeI [OF ok, of p] ip T by simp
  next
    case False
    show ?thesis
    proof (cases "loaded s ino")
      case None
      then have "loaded t ino = None" using False T ip vqo(2) by (auto simp: loaded_None)
      then show ?thesis using False None by simp
    next
      case (Some q)
      then have "q \<in> set (tab s)" "ino_of s q = ino" using loaded_SomeD by auto
      then have "loaded t ino = Some q" using loaded_SomeI [OF ok, of q] vqo(2) T by simp
      then show ?thesis using False Some by simp
    qed
  qed
  show "inode_at t = (inode_at s)(sv_ino v := sv_i v)"
  proof
    fix ino
    show "inode_at t ino = ((inode_at s)(sv_ino v := sv_i v)) ino"
      using vo vqo(1) d by (auto simp: inode_at_def L dest!: loaded_SomeD split: option.split)
  qed
  show "refs t = (refs s)(sv_ino v := vn_refcount v)"
  proof
    fix ino
    show "refs t ino = ((refs s)(sv_ino v := vn_refcount v)) ino"
      using vo vqo(1) by (auto simp: refs_def L dest!: loaded_SomeD split: option.split)
  qed
qed

text \<open>The rest of the state while a vnode is made.\<close>

definition same_disk :: "sfs_fs \<Rightarrow> sfs_fs \<Rightarrow> bool" where
  "same_disk s t \<longleftrightarrow> fs_ok t \<and> sfs_sb t = sfs_sb s \<and> sfs_superdirty t = sfs_superdirty s \<and>
     sfs_freemap t = sfs_freemap s \<and> sfs_freemapdirty t = sfs_freemapdirty s \<and> disk t = disk s \<and>
     biglock_depth t = biglock_depth s"

lemma vol_inodes_same:
  assumes s: "vol_ok s F X" and t: "same_disk s t" "tab_ok t" "inode_at t = inode_at s" "ino_of t ` set (tab t) \<subseteq> F"
  shows "vol_ok t F X"
proof -
  note vo = vol_ok_parts [OF s]
  have e: "fs_ok t" "sfs_sb t = sfs_sb s" "sfs_freemap t = sfs_freemap s" "disk t = disk s" using t(1) by (simp_all add: same_disk_def)
  have o: "owned t = owned s" by (rule ext) (simp add: owned_def t(3) e)
  have "file_ok t = file_ok s" by (rule ext) (simp add: file_ok_def inode_ok_def t(3) e)
  moreover have "owners_ok t F X = owners_ok s F X" by (simp add: owners_ok_def sys_blocks_def o e)
  moreover have "meta_ok t = meta_ok s" using t(1) by (simp add: meta_ok_def fm_block_def same_disk_def)
  ultimately show ?thesis using vo t(2,4) e by (auto simp: vol_ok_def vol_small_def)
qed

text \<open>Loading an inode of the volume.\<close>

lemma load_old:
  assumes s: "vol_ok s F X" and ino: "ino \<in> F" "loaded s ino = None"
    and v: "v = \<lparr>vn_refcount = 1, vn_fs = True, vn_ops = sfs_ops_of_type (sfi_type (block_to_dinode (disk s ino))),
      sv_i = block_to_dinode (disk s ino), sv_ino = ino, sv_dirty = False\<rparr>"
    and t: "same_disk s t" "p = length (vn_heap s)" "vn_heap t = vn_heap s @ [Some v]"
      "array_ok (sfs_vnodes t)" "array_list (sfs_vnodes t) = array_list (sfs_vnodes s) @ [Some p]"
  shows "vol_ok t F X" "got p ino s t"
proof -
  note vo = vol_ok_parts [OF s]
  have at: "inode_at s ino = sv_i v" using ino(2) v by (simp add: inode_at_def)
  have ops: "sfs_ops_of_type (sfi_type (sv_i v)) \<noteq> None" using vo(6) [OF ino(1)] by (simp add: file_ok_def at)
  have "clean s v" using v vo(1) by (simp add: clean_def dinode_block_roundtrip)
  moreover have "vnode_ok v" using ops v by (simp add: vnode_ok_def)
  moreover have "disk t = disk s" using t(1) by (simp add: same_disk_def)
  moreover have "loaded s (sv_ino v) = None" using ino(2) v by simp
  ultimately have tn: "tab_ok t" "tab t = tab s @ [p]" "ino_of t p = ino" "\<And>q. q \<noteq> p \<Longrightarrow> vn_at q t = vn_at q s"
      "inode_at t = (inode_at s)(ino := sv_i v)" "refs t = (refs s)(ino := 1)" "\<And>q. q \<in> set (tab s) \<Longrightarrow> ino_of t q = ino_of s q"
    using tab_new [OF vo(3) t(2,3) _ t(4,5)] v by simp_all
  have at': "inode_at t = inode_at s" using tn(5) at by auto
  show "vol_ok t F X"
    by (rule vol_inodes_same [OF s t(1) tn(1) at']) (use tn(2,3,7) vo(5) ino(1) in auto)
  have "refs s ino = 0" using ino(2) by (simp add: refs_def)
  then show "got p ino s t"
    using tn at' t(1) by (simp add: got_def same_disk_def)
qed

text \<open>The inode that a zeroed block holds.\<close>

definition zero_inode :: sfs_dinode where
  "zero_inode = \<lparr>sfi_size = 0, sfi_type = 0, sfi_linkcount = 0, sfi_direct = replicate 15 0, sfi_indirect = 0,
     sfi_waste = replicate 110 0\<rparr>"

lemma block_to_dinode_zeros: "block_to_dinode zeros = zero_inode"
  using words_dec_zero [of 15] words_dec_zero [of 110]
  by (simp add: block_to_dinode_def zero_inode_def zeros_def)

lemma zero_inode_blocks: "inode_blocks d (zero_inode\<lparr>sfi_type := ty\<rparr>) = {}"
  by (auto simp: inode_blocks_def bmap_of_def zero_inode_def idwords_def)

lemma zero_inode_ok: "ty < 2 ^ 16 \<Longrightarrow> inode_ok s (zero_inode\<lparr>sfi_type := ty\<rparr>)"
  by (simp add: inode_ok_def zero_inode_blocks)
    (simp add: zero_inode_def dinode_wf_def bmap_of_def idwords_def no_share_def)

lemma load_new:
  assumes s: "vol_ok s F {ino}" and ino: "disk s ino = zeros" "ino < nblocks s" and ty: "sfs_ops_of_type ty \<noteq> None"
    and v: "v = \<lparr>vn_refcount = 1, vn_fs = True, vn_ops = sfs_ops_of_type ty,
      sv_i = zero_inode\<lparr>sfi_type := ty\<rparr>, sv_ino = ino, sv_dirty = True\<rparr>"
    and t: "same_disk s t" "p = length (vn_heap s)" "vn_heap t = vn_heap s @ [Some v]"
      "array_ok (sfs_vnodes t)" "array_list (sfs_vnodes t) = array_list (sfs_vnodes s) @ [Some p]"
  shows "vol_ok t (insert ino F) {}" "vn_at p t = Some v" "p \<in> set (tab t)" "refs t = (refs s)(ino := 1)"
    "inode_at t = (inode_at s)(ino := sv_i v)" "ino \<notin> F" "\<And>q. q \<noteq> p \<Longrightarrow> vn_at q t = vn_at q s"
proof -
  note vo = vol_ok_parts [OF s]
  have e: "fs_ok t" "sfs_sb t = sfs_sb s" "sfs_freemap t = sfs_freemap s" "disk t = disk s" using t(1) by (simp_all add: same_disk_def)
  show iF: "ino \<notin> F" using vo(4) by (auto simp: owners_ok_def owned_def)
  then have nl: "loaded s (sv_ino v) = None" using vo(5) v by (auto simp: loaded_None)
  have "clean s v" "vnode_ok v" using v ty by (simp_all add: clean_def vnode_ok_def zero_inode_def)
  from tab_new [OF vo(3) t(2,3) e(4) t(4,5) nl this(2,1)]
  have tn: "tab_ok t" "tab t = tab s @ [p]" "ino_of t p = ino" "\<And>q. q \<noteq> p \<Longrightarrow> vn_at q t = vn_at q s"
      "inode_at t = (inode_at s)(ino := sv_i v)" "refs t = (refs s)(ino := 1)" "\<And>q. q \<in> set (tab s) \<Longrightarrow> ino_of t q = ino_of s q"
      "vn_at p t = Some v"
    using v by simp_all
  then show "vn_at p t = Some v" "p \<in> set (tab t)" "refs t = (refs s)(ino := 1)" "inode_at t = (inode_at s)(ino := sv_i v)"
    "\<And>q. q \<noteq> p \<Longrightarrow> vn_at q t = vn_at q s"
    by simp_all
  have old: "inode_at t a = inode_at s a" "owned t a = owned s a" if "a \<in> F" for a
    using that iF tn(5) e(4) by (auto simp: owned_def)
  have new: "owned t ino = {ino}" "inode_at t ino = zero_inode\<lparr>sfi_type := ty\<rparr>"
    using tn(5) v by (simp_all add: owned_def zero_inode_blocks)
  have "file_ok t a" if "a \<in> insert ino F" for a
  proof (cases "a = ino")
    case True
    have "ty < 2 ^ 16" using ty by (auto simp: sfs_ops_of_type_def SFS_TYPE_FILE_def SFS_TYPE_DIR_def split: if_splits)
    then show ?thesis
      using True new ino(2) ty e zero_inode_ok [of ty t] by (simp add: file_ok_def zero_inode_blocks) (simp add: zero_inode_def)
  next
    case False
    then have "a \<in> F" using that by simp
    then show ?thesis using vo(6) [of a] old [of a] by (simp add: file_ok_def inode_ok_def e)
  qed
  moreover have "owners_ok t (insert ino F) {}"
  proof -
    have sys: "sys_blocks t = sys_blocks s" by (simp add: sys_blocks_def e)
    have U: "(\<Union>a \<in> insert ino F. owned t a) = {ino} \<union> (\<Union>a \<in> F. owned s a)" using new(1) old(2) by auto
    have o: "\<forall>a \<in> F. \<forall>b \<in> F. a \<noteq> b \<longrightarrow> owned s a \<inter> owned s b = {}" "\<forall>a \<in> F. owned s a \<inter> (sys_blocks s \<union> {ino}) = {}"
      "sys_blocks s \<inter> {ino} = {}" "used s \<inter> {..<nblocks s} = sys_blocks s \<union> (\<Union>a \<in> F. owned s a) \<union> {ino}"
      using vo(4) by (simp_all add: owners_ok_def)
    have "owned t a \<inter> owned t b = {}" if "a \<in> insert ino F" "b \<in> insert ino F" "a \<noteq> b" for a b
    proof (cases "a = ino \<or> b = ino")
      case True
      then show ?thesis using that o(2) new(1) old(2) by auto
    next
      case False
      then show ?thesis using that o(1) old(2) by simp
    qed
    moreover have "owned t a \<inter> sys_blocks t = {}" if "a \<in> insert ino F" for a
      using that o(2,3) new(1) old(2) [of a] sys by (cases "a = ino") auto
    moreover have "used t \<inter> {..<nblocks t} = sys_blocks t \<union> (\<Union>a \<in> insert ino F. owned t a)"
      unfolding U sys e using o(4) by blast
    ultimately show ?thesis unfolding owners_ok_def by simp
  qed
  moreover have "meta_ok t" using t(1) vo(7) by (simp add: meta_ok_def fm_block_def same_disk_def)
  ultimately show "vol_ok t (insert ino F) {}"
    using tn(1,2,3,7) e vo(2,5) by (auto simp: vol_ok_def vol_small_def)
qed

lemma kbind_laws:
  "kbind (kret x) k = k x" "kthen (kassert (\<lambda>_. True)) m = m" "kbind (kthen m n) k = kthen m (kbind n k)"
  by (auto simp: kfun_defs fun_eq_iff split: prod.splits outcome.splits)

lemma wp_kmalloc_next [simp]:
  "wp kmalloc_next Q E = (\<lambda>s. Q (case kmalloc_script s of [] \<Rightarrow> True | k # _ \<Rightarrow> k)
     (s\<lparr>kmalloc_script := tl (kmalloc_script s)\<rparr>))"
  by (rule ext) (simp add: kmalloc_next_def)

lemma sfs_loadvnode_new_wp:
  assumes s: "vol_ok s F X" and i: "i' = (if forcetype = 0 then i else i\<lparr>sfi_type := forcetype\<rparr>)"
    and ty: "forcetype \<noteq> 0 \<Longrightarrow> sfi_type i = 0" "sfs_ops_of_type (sfi_type i') \<noteq> None"
  shows "wp (sfs_loadvnode_new ino forcetype i)
    (\<lambda>p t. same_disk s t \<and> p = length (vn_heap s) \<and> array_ok (sfs_vnodes t) \<and>
       array_list (sfs_vnodes t) = array_list (sfs_vnodes s) @ [Some p] \<and>
       vn_heap t = vn_heap s @ [Some \<lparr>vn_refcount = 1, vn_fs = True, vn_ops = sfs_ops_of_type (sfi_type i'),
         sv_i = i', sv_ino = ino, sv_dirty = (forcetype \<noteq> 0)\<rparr>])
    (\<lambda>e t. e = ENOMEM \<and> quiet s t) s"
proof -
  obtain ops where ops: "sfs_ops_of_type (sfi_type i') = Some ops" using ty(2) by auto
  note vo = vol_ok_parts [OF s]
  let ?p = "length (vn_heap s)"
  let ?v = "\<lparr>vn_refcount = 1, vn_fs = True, vn_ops = Some ops, sv_i = i', sv_ino = ino, sv_dirty = (forcetype \<noteq> 0)\<rparr>"
  define t where "t = s\<lparr>vn_heap := vn_heap s @ [Some ?v], kmalloc_script := tl (kmalloc_script s)\<rparr>"
  have arr: "array_ok (sfs_vnodes s)" using vo(3) by (simp add: tab_ok_def)
  have add: "wp (array_add (\<lambda>_. ok) ?p)
      (\<lambda>_ a. array_ok a \<and> array_list a = array_list (sfs_vnodes s) @ [Some ?p])
      (\<lambda>e a. e = ENOMEM \<and> a = sfs_vnodes s) (sfs_vnodes s)" for ok
    by (rule wp_conseq [OF array_add_wp [OF arr tab_bound(2) [OF s]]]) auto
  have fs: "fs_ok (t\<lparr>sfs_vnodes := a\<rparr>)" "disk (t\<lparr>sfs_vnodes := a\<rparr>) = disk s" for a
    using vo(1) by (auto simp: t_def fs_ok_def dev_ok_def disk_def)
  have good: "same_disk s (t\<lparr>sfs_vnodes := a\<rparr>)" for a using fs by (simp add: same_disk_def t_def)
  have bad: "quiet s (t\<lparr>vn_heap := vn_heap s @ [None]\<rparr>)"
    using vo(1) by (auto simp: quiet_def t_def vn_at_def nth_append fs_ok_def dev_ok_def disk_def)
  let ?Q = "\<lambda>p t. same_disk s t \<and> p = length (vn_heap s) \<and> array_ok (sfs_vnodes t) \<and>
       array_list (sfs_vnodes t) = array_list (sfs_vnodes s) @ [Some p] \<and> vn_heap t = vn_heap s @ [Some ?v]"
  have fin: "wp (kbind kmalloc_next (\<lambda>ok.
            kbind (ktry (on_vnodes (array_add (\<lambda>_. ok) ?p))) (\<lambda>result.
              case result of
                Inl e \<Rightarrow> kthen (on_vn ?p vnode_cleanup) (kthen (kfree_vnode ?p) (kfail e))
              | Inr _ \<Rightarrow> kret ?p))) ?Q (\<lambda>e t. e = ENOMEM \<and> quiet s t) (s\<lparr>vn_heap := vn_heap s @ [Some ?v]\<rparr>)"
  proof (unfold wp_kbind wp_kmalloc_next on_vnodes_def wp_ktry wp_kzoom, simp,
      rule wp_conseq [OF add], goal_cases)
    case (1 x a)
    then show ?case using good [of a] by (simp add: t_def)
  next
    case (2 e a)
    then show ?case using bad
      by (simp add: on_vn_def vnode_cleanup_def kfree_vnode_def sv_get_def vn_at_def vn_put_def t_def)
  qed
  have init: "wp (on_vn ?p (vnode_init ops True)) Q E (s\<lparr>vn_heap := vn_heap s @ [Some w]\<rparr>) =
      Q () (s\<lparr>vn_heap := vn_heap s @ [Some (w\<lparr>vn_ops := Some ops, vn_refcount := 1, vn_fs := True\<rparr>)]\<rparr>)" for Q E w
    by (simp add: on_vn_def vnode_init_def vn_at_def vn_put_def)
  have tail: "wp (kbind (kget (\<lambda>s. length (vn_heap s))) (\<lambda>sv.
           kthen (kmod (\<lambda>s. s\<lparr>vn_heap := vn_heap s @
                    [Some \<lparr>vn_refcount = 0, vn_fs = False, vn_ops = None, sv_i = i', sv_ino = ino, sv_dirty = (forcetype \<noteq> 0)\<rparr>]\<rparr>))
           (kthen (on_vn sv (vnode_init ops True))
           (kbind kmalloc_next (\<lambda>ok.
            kbind (ktry (on_vnodes (array_add (\<lambda>_. ok) sv))) (\<lambda>result.
              case result of
                Inl e \<Rightarrow> kthen (on_vn sv vnode_cleanup) (kthen (kfree_vnode sv) (kfail e))
              | Inr _ \<Rightarrow> kret sv)))))) ?Q (\<lambda>e t. e = ENOMEM \<and> quiet s t) s"
    unfolding wp_kbind wp_kget wp_kthen wp_kmod init
    using fin unfolding wp_kbind by simp
  have "sfs_loadvnode_new ino forcetype i =
           kbind (kget (\<lambda>s. length (vn_heap s))) (\<lambda>sv.
           kthen (kmod (\<lambda>s. s\<lparr>vn_heap := vn_heap s @
                    [Some \<lparr>vn_refcount = 0, vn_fs = False, vn_ops = None, sv_i = i', sv_ino = ino, sv_dirty = (forcetype \<noteq> 0)\<rparr>]\<rparr>))
           (kthen (on_vn sv (vnode_init ops True))
           (kbind kmalloc_next (\<lambda>ok.
            kbind (ktry (on_vnodes (array_add (\<lambda>_. ok) sv))) (\<lambda>result.
              case result of
                Inl e \<Rightarrow> kthen (on_vn sv vnode_cleanup) (kthen (kfree_vnode sv) (kfail e))
              | Inr _ \<Rightarrow> kret sv)))))"
    using i ty(1) ops by (cases "forcetype = 0") (simp_all add: sfs_loadvnode_new_def SFS_TYPE_INVAL_def kbind_laws)
  then show ?thesis using tail ops by (simp only: option.case)
qed

lemma got_quiet:
  assumes "quiet s t" "got p ino t u"
  shows "got p ino s u"
  using assms(2) quiet_same [OF assms(1)] assms(1) by (simp add: got_def quiet_def)

lemma num_tab: "tab_ok s \<Longrightarrow> unat (array_num (sfs_vnodes s)) = length (tab s)"
  by (simp add: length_tab array_num_def)

lemma sfs_loadvnode_wp:
  assumes s: "vol_ok s F X" and ino: "ino \<in> F"
  shows "wp (sfs_loadvnode ino SFS_TYPE_INVAL) (\<lambda>p t. vol_ok t F X \<and> got p ino s t) (\<lambda>e t. e = ENOMEM \<and> quiet s t) s"
proof -
  note vo = vol_ok_parts [OF s]
  have f: "ino < nblocks s" "ino \<in> used s" "sfs_ops_of_type (sfi_type (inode_at s ino)) \<noteq> None"
    using vo(6) [OF ino] owned_used [OF vo(4) ino] by (auto simp: file_ok_def owned_def)
  let ?Q = "\<lambda>p t. vol_ok t F X \<and> got p ino s t" and ?E = "\<lambda>e t. e = ENOMEM \<and> quiet s t"
  have new: "wp (sfs_loadvnode_new ino SFS_TYPE_INVAL (block_to_dinode (disk s ino))) ?Q ?E t"
    if l: "loaded s ino = None" and t: "quiet s t" for t
  proof -
    have vt: "vol_ok t F X" by (rule quiet_vol [OF t s])
    have q: "disk t = disk s" "loaded t ino = None" using quiet_same [OF t] l by simp_all
    have ty: "sfs_ops_of_type (sfi_type (block_to_dinode (disk s ino))) \<noteq> None" using f(3) l by (simp add: inode_at_def)
    show ?thesis
    proof (rule wp_conseq [OF sfs_loadvnode_new_wp [OF vt refl]], goal_cases)
      case (3 p u)
      then have "vol_ok u F X \<and> got p ino t u"
        using load_old [OF vt ino q(2) refl, of u p] by (simp add: q SFS_TYPE_INVAL_def)
      then show ?case using got_quiet [OF t] by blast
    next
      case (4 e u)
      then show ?case using quiet_trans [OF t] by blast
    qed (use ty in \<open>simp_all add: SFS_TYPE_INVAL_def\<close>)
  qed
  have read: "wp (sfs_readblock ino iobuf) (\<lambda>buf. wp (sfs_loadvnode_new ino SFS_TYPE_INVAL (block_to_dinode buf)) ?Q ?E) ?E t"
    if l: "loaded s ino = None" and t: "quiet s t" for t
  proof (rule wp_conseq [OF readblock_wp], goal_cases)
    case (4 buf u)
    have "quiet s u" by (rule quiet_trans [OF t dev_step_quiet]) (use 4 t in \<open>auto simp: quiet_def\<close>)
    then show ?case using new [OF l] 4 quiet_same(11) [OF t] by simp
  qed (use t f in \<open>auto simp: quiet_def iobuf_zeros\<close>)
  have search: "wp (sfs_loadvnode_search ino SFS_TYPE_INVAL (length (tab s)) 0)
      (\<lambda>r t. case loaded s ino of
         None \<Rightarrow> r = None \<and> t = s
       | Some p \<Rightarrow> r = Some p \<and> t = vn_put p ((vn_of s p)\<lparr>vn_refcount := vn_refcount (vn_of s p) + 1\<rparr>) s) ?E s"
    by (rule sfs_loadvnode_search_wp [OF s refl]) simp_all
  show ?thesis
    unfolding sfs_loadvnode_def wp_kbind wp_kget num_tab [OF vo(3)]
  proof (rule wp_conseq [OF search], goal_cases)
    case (1 r t)
    show ?case
    proof (cases "loaded s ino")
      case (Some p)
      then show ?thesis using 1 incref_got [OF s Some refl] by simp
    next
      case None
      let ?t = "s\<lparr>kmalloc_script := tl (kmalloc_script s)\<rparr>"
      have qt: "quiet s ?t" using vo(1) by (simp add: quiet_refl)
      have "wp (sfs_bused ino) (\<lambda>inuse. wp (if \<not> inuse then kpanic else
          kbind (sfs_readblock ino iobuf) (\<lambda>buf. sfs_loadvnode_new ino SFS_TYPE_INVAL (block_to_dinode buf))) ?Q ?E) ?E ?t"
        by (rule wp_conseq [OF sfs_bused_wp]) (use read [OF None qt] f vo(1) in auto)
      then show ?thesis using 1 None vo(1) by (simp add: quiet_refl)
    qed
  qed simp
qed

end
