(* ===== verification/Sfs_Objects.thy ===== *)
theory Sfs_Objects
  imports Sfs_Volume
begin

text \<open>
  The life of an object on a mounted volume (\<open>kern/fs/sfs/sfs_inode.c\<close>): making one, dropping a
  reference to it, and removing it when it has neither references nor links.
\<close>

subsection \<open>New objects\<close>

text \<open>Steps that leave the files \<open>F\<close> and the vnodes alone, but may touch free blocks.\<close>

definition calm :: "nat set \<Rightarrow> sfs_fs \<Rightarrow> sfs_fs \<Rightarrow> bool" where
  "calm F s t \<longleftrightarrow> (\<forall>i \<in> F. keeps s t i) \<and> refs t = refs s \<and> tab t = tab s \<and> (\<forall>q. vn_at q t = vn_at q s) \<and>
     sfs_sb t = sfs_sb s \<and> sfs_superdirty t = sfs_superdirty s \<and> biglock_depth t = biglock_depth s"

lemma quiet_calm:
  assumes "quiet s t"
  shows "calm F s t"
  using quiet_same(1,9,10,12) [OF assms] assms by (simp add: calm_def quiet_def)

lemma calm_trans: "calm F s t \<Longrightarrow> calm F t u \<Longrightarrow> calm F s u"
  using keeps_trans by (auto simp: calm_def)

lemma calm_view: "calm F s t \<Longrightarrow> i \<in> F \<Longrightarrow> view t i = view s i"
  using keeps_view by (simp add: calm_def)

text \<open>A step on the free map and on blocks nobody owns.\<close>

lemma blocks_step:
  assumes s: "vol_ok s F X" and t: "fs_ok t"
      "sfs_sb t = sfs_sb s \<and> sfs_vnodes t = sfs_vnodes s \<and> biglock_depth t = biglock_depth s" "vn_heap t = vn_heap s"
    and d: "\<And>c. c \<in> (\<Union>a \<in> F. owned s a) \<Longrightarrow> disk t c = disk s c" and m: "meta_ok t"
    and u: "used t \<inter> {..<nblocks s} = sys_blocks s \<union> (\<Union>a \<in> F. owned s a) \<union> Y"
      "(sys_blocks s \<union> (\<Union>a \<in> F. owned s a)) \<inter> Y = {}"
  shows "vol_ok t F Y" "\<And>a. a \<in> F \<Longrightarrow> keeps s t a" "refs t = refs s" "tab t = tab s" "\<And>q. vn_at q t = vn_at q s"
proof -
  note vo = vol_ok_parts [OF s]
  have e: "sfs_sb t = sfs_sb s" "sfs_vnodes t = sfs_vnodes s"
    "biglock_depth t = biglock_depth s" using t(2) by simp_all
  have T: "tab t = tab s" by (simp add: tab_def e)
  have vq: "vn_at q t = vn_at q s" for q using t(3) by (simp add: vn_at_def)
  have V: "vn_of t = vn_of s" by (rule ext) (simp add: vn_of_def vq)
  have I: "ino_of t = ino_of s" by (rule ext) (simp add: ino_of_def V)
  have L: "loaded t = loaded s" by (rule ext) (simp add: loaded_def T I)
  have self: "disk t a = disk s a" if "a \<in> F" for a
  proof -
    have "a \<in> owned s a" by (simp add: owned_def)
    then show ?thesis using d [of a] that by blast
  qed
  have at: "inode_at t a = inode_at s a" if "a \<in> F" for a
    using self [OF that] by (simp add: inode_at_def L V split: option.split)
  have keep: "keeps s t a" if "a \<in> F" for a
    by (rule keepsI [OF at [OF that]]) (use d that vo(1,6) in \<open>auto simp: owned_def\<close>)
  have R: "refs t = refs s" by (rule ext) (simp add: refs_def L V split: option.split)
  show "\<And>a. a \<in> F \<Longrightarrow> keeps s t a" "refs t = refs s" "tab t = tab s" "\<And>q. vn_at q t = vn_at q s" using keep R T vq by simp_all
  have own: "owned t a = owned s a" if "a \<in> F" for a using keep [OF that] by (simp add: keeps_def)
  have n: "nblocks t = nblocks s" "sys_blocks t = sys_blocks s" by (simp_all add: e sys_blocks_def)
  have sub: "owned s a \<subseteq> used t" if "a \<in> F" for a using that u(1) by blast
  have "file_ok t a" if "a \<in> F" for a
    by (rule keeps_file_ok [OF keep [OF that] vo(6) [OF that] n(1) sub [OF that]])
  moreover have "owners_ok t F Y"
  proof -
    have U: "(\<Union>a \<in> F. owned t a) = (\<Union>a \<in> F. owned s a)" using own by simp
    have o: "\<forall>a \<in> F. \<forall>b \<in> F. a \<noteq> b \<longrightarrow> owned s a \<inter> owned s b = {}" "\<forall>a \<in> F. owned s a \<inter> (sys_blocks s \<union> X) = {}"
      using vo(4) by (simp_all add: owners_ok_def)
    have "owned s a \<inter> (sys_blocks s \<union> Y) = {}" if "a \<in> F" for a using o(2) u(2) that by blast
    then show ?thesis using o(1) u own by (simp add: owners_ok_def n U) blast
  qed
  moreover have "tab_ok t"
  proof -
    have "disk t (ino_of s q) = disk s (ino_of s q)" if "q \<in> set (tab s)" for q
      by (rule self [OF vo(5) [OF that]])
    then show ?thesis using vo(3) by (simp add: tab_ok_def T V I e vq clean_def ino_of_def)
  qed
  ultimately show "vol_ok t F Y" using m t(1) vo(2,5) n(1) by (auto simp: vol_ok_def vol_small_def T I)
qed

lemma free_step:
  assumes s: "vol_ok s F X" and t: "fs_ok t" "fs_same s t" "vn_heap t = vn_heap s"
    and d: "\<And>c. c \<in> sys_blocks s \<union> (\<Union>a \<in> F. owned s a) \<Longrightarrow> disk t c = disk s c"
    and fm: "bm_nbits (sfs_freemap t) = bm_nbits (sfs_freemap s)"
      "sfs_freemapdirty t \<or> \<not> sfs_freemapdirty s \<and> sfs_freemap t = sfs_freemap s"
    and u: "used t \<inter> {..<nblocks s} = sys_blocks s \<union> (\<Union>a \<in> F. owned s a) \<union> Y"
      "(sys_blocks s \<union> (\<Union>a \<in> F. owned s a)) \<inter> Y = {}"
  shows "vol_ok t F Y" "calm F s t"
proof -
  have e: "sfs_sb t = sfs_sb s" "sfs_superdirty t = sfs_superdirty s" using t(2) by (simp_all add: fs_same_def)
  have m: "meta_ok t" by (rule meta_keep [OF vol_ok_parts(7) [OF s] e fm]) (use d in blast)
  have t2: "sfs_sb t = sfs_sb s \<and> sfs_vnodes t = sfs_vnodes s \<and> biglock_depth t = biglock_depth s" using t(2) by (simp add: fs_same_def)
  note b = blocks_step [OF s t(1) t2 t(3) _ m u]
  show "vol_ok t F Y" "calm F s t" using b d t(2) by (simp_all add: calm_def fs_same_def)
qed

lemma balloc_vol:
  assumes s: "vol_ok s F {}" and t: "balloc_step s b t"
  shows "vol_ok t F {b}" "calm F s t" "disk t b = zeros" "b \<notin> F"
proof -
  note vo = vol_ok_parts [OF s]
  have us: "used s \<inter> {..<nblocks s} = sys_blocks s \<union> (\<Union>a \<in> F. owned s a)" using vo(4) by (simp add: owners_ok_def)
  have b: "b < nblocks s" "b \<notin> used s" "used t = insert b (used s)" "disk t = (disk s)(b := zeros)"
    "fs_ok t" "fs_same s t" "vn_heap t = vn_heap s" "bm_nbits (sfs_freemap t) = bm_nbits (sfs_freemap s)"
    "sfs_freemapdirty t \<or> \<not> sfs_freemapdirty s \<and> sfs_freemap t = sfs_freemap s"
    using t by (simp_all add: balloc_step_def)
  have nb: "b \<notin> sys_blocks s \<union> (\<Union>a \<in> F. owned s a)" using us b(2) by blast
  have "used t \<inter> {..<nblocks s} = (used s \<inter> {..<nblocks s}) \<union> {b}" using b(1,3) by auto
  then have u: "used t \<inter> {..<nblocks s} = sys_blocks s \<union> (\<Union>a \<in> F. owned s a) \<union> {b}" by (simp only: us)
  have d: "disk t c = disk s c" if "c \<in> sys_blocks s \<union> (\<Union>a \<in> F. owned s a)" for c
  proof -
    have "c \<noteq> b" using that nb by blast
    then show ?thesis by (simp add: b(4))
  qed
  have i: "(sys_blocks s \<union> (\<Union>a \<in> F. owned s a)) \<inter> {b} = {}" using nb by blast
  show "vol_ok t F {b}" "calm F s t" using free_step [OF s b(5-7) d b(8,9) u i] by simp_all
  show "disk t b = zeros" using b(4) by simp
  show "b \<notin> F" using us b(2) by (auto simp: owned_def)
qed

lemma bfree_vol:
  assumes s: "vol_ok s F {b}" and t: "bfree_step s {b} t"
  shows "vol_ok t F {}" "calm F s t"
proof -
  note vo = vol_ok_parts [OF s]
  have us: "used s \<inter> {..<nblocks s} = sys_blocks s \<union> (\<Union>a \<in> F. owned s a) \<union> {b}" "b \<notin> sys_blocks s \<union> (\<Union>a \<in> F. owned s a)"
    using vo(4) by (auto simp: owners_ok_def)
  have b: "used t = used s - {b}" "disk t = disk s" "fs_ok t" "fs_same s t" "vn_heap t = vn_heap s" "bm_nbits (sfs_freemap t) = bm_nbits (sfs_freemap s)"
    "sfs_freemapdirty t \<or> \<not> sfs_freemapdirty s \<and> sfs_freemap t = sfs_freemap s"
    using t by (simp_all add: bfree_step_def)
  have "used t \<inter> {..<nblocks s} = (used s \<inter> {..<nblocks s}) - {b}" using b(1) by auto
  also have "\<dots> = sys_blocks s \<union> (\<Union>a \<in> F. owned s a) \<union> {}" unfolding us(1) using us(2) by blast
  finally have u: "used t \<inter> {..<nblocks s} = sys_blocks s \<union> (\<Union>a \<in> F. owned s a) \<union> {}" .
  show "vol_ok t F {}" "calm F s t" using free_step [OF s b(3-5) _ b(6,7) u] b(2) by simp_all
qed

text \<open>\<open>made\<close>: a new inode \<open>ino\<close> of type \<open>ty\<close>, empty and without links, whose vnode is at \<open>p\<close>.\<close>

definition made :: "nat \<Rightarrow> nat \<Rightarrow> nat \<Rightarrow> nat set \<Rightarrow> sfs_fs \<Rightarrow> sfs_fs \<Rightarrow> bool" where
  "made p ino ty F s t \<longleftrightarrow> vol_ok t (insert ino F) {} \<and> ino \<notin> F \<and> p \<in> set (tab t) \<and> ino_of t p = ino \<and>
     refs t = (refs s)(ino := 1) \<and> inode_at t ino = zero_inode\<lparr>sfi_type := ty\<rparr> \<and> (\<forall>i \<in> F. keeps s t i) \<and>
     (\<forall>q. q \<noteq> p \<longrightarrow> vn_at q t = vn_at q s) \<and> vn_at p s = None \<and>
     sfs_sb t = sfs_sb s \<and> sfs_superdirty t = sfs_superdirty s \<and> biglock_depth t = biglock_depth s"

lemma made_calm: "calm F s t \<Longrightarrow> made p ino ty F t u \<Longrightarrow> made p ino ty F s u"
  using keeps_trans by (auto simp: made_def calm_def)

lemma sfs_loadvnode_fresh:
  assumes s: "vol_ok s F {ino}" and ino: "disk s ino = zeros" "ino < nblocks s" and ty: "ty \<noteq> 0" "sfs_ops_of_type ty \<noteq> None"
  shows "wp (sfs_loadvnode ino ty) (\<lambda>p t. made p ino ty F s t) (\<lambda>e t. e = ENOMEM \<and> quiet s t) s"
proof -
  note vo = vol_ok_parts [OF s]
  have iF: "ino \<notin> F" "ino \<in> used s" using vo(4) by (auto simp: owners_ok_def owned_def)
  then have l: "loaded s ino = None" using vo(5) by (auto simp: loaded_None)
  let ?Q = "\<lambda>p t. made p ino ty F s t" and ?E = "\<lambda>e t. e = ENOMEM \<and> quiet s t"
  have new: "wp (sfs_loadvnode_new ino ty (block_to_dinode zeros)) ?Q ?E t" if t: "quiet s t" for t
  proof -
    have vt: "vol_ok t F {ino}" by (rule quiet_vol [OF t s])
    have q: "disk t ino = zeros" "ino < nblocks t" using quiet_same [OF t] ino t by (simp_all add: quiet_def)
    show ?thesis
      unfolding block_to_dinode_zeros
    proof (rule wp_conseq [OF sfs_loadvnode_new_wp [OF vt refl]], goal_cases)
      case (3 p u)
      then have d: "disk u = disk t" and n: "vn_at p t = None" by (simp_all add: same_disk_def vn_at_def)
      have "vol_ok u (insert ino F) {}" "vn_at p u = Some \<lparr>vn_refcount = 1, vn_fs = True, vn_ops = sfs_ops_of_type ty,
            sv_i = zero_inode\<lparr>sfi_type := ty\<rparr>, sv_ino = ino, sv_dirty = True\<rparr>" "p \<in> set (tab u)" "refs u = (refs t)(ino := 1)"
          "inode_at u = (inode_at t)(ino := zero_inode\<lparr>sfi_type := ty\<rparr>)" "\<And>q. q \<noteq> p \<Longrightarrow> vn_at q u = vn_at q t"
        using load_new [OF vt q ty(2) refl, of u p] 3 ty(1) by simp_all
      moreover have "keeps t u i" if "i \<in> F" for i
        using that iF(1) calculation(5) d by (auto simp: keeps_def owned_def)
      ultimately have "made p ino ty F t u"
        using 3 iF(1) n unfolding made_def by (simp add: same_disk_def ino_of_def vn_of_def)
      then show ?case by (rule made_calm [OF quiet_calm [OF t]])
    next
      case (4 e u)
      then show ?case using quiet_trans [OF t] by blast
    qed (use ty in \<open>simp_all add: zero_inode_def\<close>)
  qed
  have read: "wp (sfs_readblock ino iobuf) (\<lambda>buf. wp (sfs_loadvnode_new ino ty (block_to_dinode buf)) ?Q ?E) ?E t"
    if t: "quiet s t" for t
  proof (rule wp_conseq [OF readblock_wp], goal_cases)
    case (4 buf u)
    have "quiet s u" by (rule quiet_trans [OF t dev_step_quiet]) (use 4 t in \<open>auto simp: quiet_def\<close>)
    then show ?case using new 4 quiet_same(11) [OF t] ino(1) by simp
  qed (use t ino in \<open>auto simp: quiet_def iobuf_zeros\<close>)
  have search: "wp (sfs_loadvnode_search ino ty (length (tab s)) 0) (\<lambda>r t. r = None \<and> t = s) ?E s"
    using sfs_loadvnode_search_wp [OF s refl, of ino ty 0] l by simp
  let ?t = "s\<lparr>kmalloc_script := tl (kmalloc_script s)\<rparr>"
  have qt: "quiet s ?t" using vo(1) by (simp add: quiet_refl)
  have "wp (sfs_bused ino) (\<lambda>inuse. wp (if \<not> inuse then kpanic else
      kbind (sfs_readblock ino iobuf) (\<lambda>buf. sfs_loadvnode_new ino ty (block_to_dinode buf))) ?Q ?E) ?E ?t"
    by (rule wp_conseq [OF sfs_bused_wp]) (use read [OF qt] ino iF vo(1) in auto)
  then show ?thesis
    unfolding sfs_loadvnode_def wp_kbind wp_kget num_tab [OF vo(3)]
    by (intro wp_conseq [OF search]) (use vo(1) in \<open>auto simp: quiet_refl\<close>)
qed

lemma sfs_makeobj_wp:
  assumes s: "vol_ok s F {}" and ty: "ty \<noteq> 0" "sfs_ops_of_type ty \<noteq> None"
  shows "wp (sfs_makeobj ty) (\<lambda>p t. \<exists>ino. made p ino ty F s t)
    (\<lambda>e t. (e = ENOSPC \<or> e = ENOMEM) \<and> vol_ok t F {} \<and> calm F s t) s"
proof -
  note vo = vol_ok_parts [OF s]
  show ?thesis
    unfolding sfs_makeobj_def wp_kbind
  proof (rule wp_conseq [OF balloc_wp [OF vo(1)]], goal_cases)
    case (1 b t)
    note bt = balloc_vol [OF s 1]
    have b: "b < nblocks t" "b \<noteq> 0" using 1 by (auto simp: balloc_step_def fs_same_def)
    have "wp (sfs_loadvnode b ty) (\<lambda>p u. \<exists>ino. made p ino ty F s u)
        (\<lambda>e u. wp (sfs_bfree b) (\<lambda>_ w. (e = ENOSPC \<or> e = ENOMEM) \<and> vol_ok w F {} \<and> calm F s w) E u) t" for E
    proof (rule wp_conseq [OF sfs_loadvnode_fresh [OF bt(1,3) b(1) ty]], goal_cases)
      case (1 p u)
      then show ?case using made_calm [OF bt(2)] by blast
    next
      case (2 e u)
      then have q: "quiet t u" by simp
      have vu: "vol_ok u F {b}" by (rule quiet_vol [OF q bt(1)])
      note vou = vol_ok_parts [OF vu]
      have "b < nblocks u" "b \<in> used u" using b q vou(4) by (auto simp: quiet_def owners_ok_def)
      then show ?case
        using 2 bfree_vol [OF vu] calm_trans [OF bt(2) calm_trans [OF quiet_calm [OF q]]] b(2) vou(1)
        by (intro wp_conseq [OF bfree_wp]) auto
    qed
    then show ?case by simp
  next
    case (2 e t)
    then show ?case using s vo(1) by (simp add: quiet_calm quiet_refl)
  qed
qed


subsection \<open>Dropping references\<close>

text \<open>A vnode taken out of the table and off the heap.\<close>

lemma tab_remove:
  assumes s: "tab_ok s" and ix: "ix < length (tab s)" "p = tab s ! ix"
    and h: "vn_heap t = (vn_heap s)[p := None]" and d: "disk t = disk s"
    and a: "array_ok (sfs_vnodes t)" "array_list (sfs_vnodes t) = take ix (array_list (sfs_vnodes s)) @ drop (Suc ix) (array_list (sfs_vnodes s))"
  shows "tab_ok t" "set (tab t) = set (tab s) - {p}" "vn_at p t = None" "\<And>q. q \<noteq> p \<Longrightarrow> vn_at q t = vn_at q s"
    "\<And>q. q \<noteq> p \<Longrightarrow> ino_of t q = ino_of s q" "inode_at t = (inode_at s)(ino_of s p := block_to_dinode (disk s (ino_of s p)))"
    "refs t = (refs s)(ino_of s p := 0)"
proof -
  have T: "tab t = take ix (tab s) @ drop (Suc ix) (tab s)" using a(2) by (simp add: tab_def take_map drop_map)
  have dist: "distinct (tab s)" using s by (simp add: tab_ok_def)
  have p: "p \<in> set (tab s)" using ix by simp
  have split: "tab s = take ix (tab s) @ p # drop (Suc ix) (tab s)" unfolding ix(2) by (rule id_take_nth_drop [OF ix(1)])
  define xs ys where "xs = take ix (tab s)" "ys = drop (Suc ix) (tab s)"
  have sp: "tab s = xs @ p # ys" "tab t = xs @ ys" using split T by (simp_all add: xs_ys_def)
  have dT: "distinct (tab t)" and st: "set (tab t) = set (tab s) - {p}"
    using dist unfolding sp by auto
  show "set (tab t) = set (tab s) - {p}" by (rule st)
  show np: "vn_at p t = None" using h by (simp add: vn_at_def)
  show vq: "vn_at q t = vn_at q s" if "q \<noteq> p" for q using that h by (simp add: vn_at_def)
  have vo: "vn_of t q = vn_of s q" if "q \<noteq> p" for q using vq [OF that] by (simp add: vn_of_def)
  then show io: "ino_of t q = ino_of s q" if "q \<noteq> p" for q using that by (simp add: ino_of_def)
  show ok: "tab_ok t"
  proof -
    have "None \<notin> set (array_list (sfs_vnodes t))"
      using s a(2) by (auto simp: tab_ok_def dest: in_set_takeD in_set_dropD)
    moreover have "q \<in> set (tab t) \<longleftrightarrow> vn_at q t \<noteq> None" for q
      using s st np vq [of q] by (cases "q = p") (auto simp: tab_ok_def)
    moreover have "inj_on (ino_of t) (set (tab t))"
      using s st io by (auto simp: tab_ok_def inj_on_def)
    moreover have "vnode_ok (vn_of t q) \<and> clean t (vn_of t q)" if "q \<in> set (tab t)" for q
      using that st vo [of q] tab_ok_vn(2,3) [OF s, of q] by (auto simp: clean_def d)
    ultimately show ?thesis using a(1) dT by (simp add: tab_ok_def)
  qed
  have L: "loaded t ino = (if ino = ino_of s p then None else loaded s ino)" for ino
  proof (cases "ino = ino_of s p")
    case True
    then have "\<forall>q \<in> set (tab t). ino_of t q \<noteq> ino"
      using st io s p by (auto simp: tab_ok_def inj_on_def)
    then show ?thesis using True by (simp add: loaded_None)
  next
    case False
    show ?thesis
    proof (cases "loaded s ino")
      case None
      then have "loaded t ino = None" using st io by (auto simp: loaded_None)
      then show ?thesis using False None by simp
    next
      case (Some q)
      then have q: "q \<in> set (tab s)" "ino_of s q = ino" using loaded_SomeD by auto
      then have "q \<noteq> p" using False by auto
      then have "loaded t ino = Some q" using loaded_SomeI [OF ok, of q] io q st by simp
      then show ?thesis using False Some by simp
    qed
  qed
  have ne: "q \<noteq> p" if "loaded s ino = Some q" "ino \<noteq> ino_of s p" for q ino using that loaded_SomeD by auto
  show "inode_at t = (inode_at s)(ino_of s p := block_to_dinode (disk s (ino_of s p)))"
    by (rule ext) (use vo ne d in \<open>auto simp: inode_at_def L split: option.split\<close>)
  show "refs t = (refs s)(ino_of s p := 0)"
    by (rule ext) (use vo ne in \<open>auto simp: refs_def L split: option.split\<close>)
qed

text \<open>
  Unloading a vnode that is written back. \<open>G\<close> are the files that are left: all of them, or all
  but this one when its block was given back.
\<close>

lemma unload_vol:
  assumes s: "vol_ok s F {}" and ix: "ix < length (tab s)" "p = tab s ! ix" and v: "v = vn_of s p" "\<not> sv_dirty v"
    and t: "fs_ok t" "sfs_sb t = sfs_sb s" "disk t = disk s" "vn_heap t = (vn_heap s)[p := None]" "array_ok (sfs_vnodes t)"
      "array_list (sfs_vnodes t) = take ix (array_list (sfs_vnodes s)) @ drop (Suc ix) (array_list (sfs_vnodes s))"
    and fm: "sfs_superdirty t = sfs_superdirty s" "bm_nbits (sfs_freemap t) = bm_nbits (sfs_freemap s)"
      "sfs_freemapdirty t \<or> \<not> sfs_freemapdirty s \<and> sfs_freemap t = sfs_freemap s"
    and G: "G \<subseteq> F" "F - {sv_ino v} \<subseteq> G" "used t \<inter> {..<nblocks s} = sys_blocks s \<union> (\<Union>a \<in> G. owned s a)"
  shows "vol_ok t G {}" "refs t = (refs s)(sv_ino v := 0)" "\<And>i. keeps s t i" "\<And>q. q \<noteq> p \<Longrightarrow> vn_at q t = vn_at q s"
    "vn_at p t = None"
proof -
  note vo = vol_ok_parts [OF s]
  have p: "p \<in> set (tab s)" using ix by simp
  note vv = vol_vnode [OF s p v(1)] and tr = tab_remove [OF vo(3) ix t(4,3,5,6)]
  have ip: "ino_of s p = sv_ino v" by (simp add: ino_of_def v)
  show "refs t = (refs s)(sv_ino v := 0)" "\<And>q. q \<noteq> p \<Longrightarrow> vn_at q t = vn_at q s" "vn_at p t = None" using tr ip by simp_all
  have "disk s (sv_ino v) = dinode_to_block (sv_i v)" using vv(8) v(2) by (simp add: clean_def)
  then have "block_to_dinode (disk s (sv_ino v)) = sv_i v" using vv(3) by (simp add: inode_ok_def dinode_roundtrip)
  then have at: "inode_at t = inode_at s" using tr(6) vv(9) ip by auto
  have own: "owned t = owned s" by (rule ext) (simp add: owned_def at t(3))
  show keep: "keeps s t i" for i by (simp add: keeps_def at own t(3))
  have n: "nblocks t = nblocks s" "sys_blocks t = sys_blocks s" by (simp_all add: t(2) sys_blocks_def)
  have "file_ok t a" if "a \<in> G" for a
  proof (rule keeps_file_ok [OF keep])
    show "file_ok s a" using vo(6) that G(1) by blast
    show "owned s a \<subseteq> used t" using G(3) that by blast
  qed (rule n)
  moreover have "owners_ok t G {}"
  proof -
    have "owned s a \<inter> owned s b = {}" if "a \<in> G" "b \<in> G" "a \<noteq> b" for a b
    proof -
      have "a \<in> F" "b \<in> F" using that G(1) by auto
      then show ?thesis using vo(4) that(3) by (simp add: owners_ok_def)
    qed
    moreover have "owned s a \<inter> sys_blocks s = {}" if "a \<in> G" for a
    proof -
      have "a \<in> F" using that G(1) by auto
      then show ?thesis using vo(4) by (simp add: owners_ok_def)
    qed
    ultimately show ?thesis using G(3) by (simp add: owners_ok_def own n)
  qed
  moreover have "ino_of t ` set (tab t) \<subseteq> G"
  proof -
    have "ino_of s q \<in> G" if "q \<in> set (tab s)" "q \<noteq> p" for q
      using that vo(3,5) p ip G(2) by (auto simp: tab_ok_def inj_on_def)
    then show ?thesis using tr(2,5) by auto
  qed
  moreover have "meta_ok t" by (rule meta_keep [OF vo(7) t(2) fm]) (simp add: t(3))
  ultimately show "vol_ok t G {}" using tr(1) t(1) vo(2) n by (auto simp: vol_ok_def vol_small_def)
qed

text \<open>The end of \<open>sfs_reclaim\<close>, once the inode is written back.\<close>

definition remaining :: "nat set \<Rightarrow> sfs_vnode \<Rightarrow> nat set" where
  "remaining F v = (if sfi_linkcount (sv_i v) = 0 then F - {sv_ino v} else F)"

lemma reclaim_tail_wp:
  assumes s: "vol_ok s F {}" and p: "p \<in> set (tab s)" and v: "v = vn_of s p" "vn_refcount v = 1" "\<not> sv_dirty v"
    "sfi_linkcount (sv_i v) = 0 \<Longrightarrow> inode_blocks (disk s) (sv_i v) = {}" and dep: "biglock_depth s = Suc d"
  shows "wp (kbind (sv_get p id) (\<lambda>v.
                kthen (if sfi_linkcount (sv_i v) = 0 then sfs_bfree (sv_ino v) else kret ())
                (kbind (kget (\<lambda>s. unat (array_num (sfs_vnodes s)))) (\<lambda>num.
                 kbind (sfs_reclaim_search p num 0) (\<lambda>ix.
                   if ix = num then kpanic
                   else
                     kthen (on_vnodes (array_remove (word_of_nat ix)))
                     (kthen (on_vn p vnode_cleanup)
                     (kthen biglock_release (kfree_vnode p))))))))
    (\<lambda>_ t. vol_ok t (remaining F v) {} \<and> refs t = (refs s)(sv_ino v := 0) \<and> (\<forall>i. keeps s t i) \<and>
       (\<forall>q. q \<noteq> p \<longrightarrow> vn_at q t = vn_at q s) \<and> vn_at p t = None \<and> biglock_depth t = d \<and>
       sfs_sb t = sfs_sb s \<and> sfs_superdirty t = sfs_superdirty s) E s"
proof -
  let ?Q = "\<lambda>_ t. vol_ok t (remaining F v) {} \<and> refs t = (refs s)(sv_ino v := 0) \<and> (\<forall>i. keeps s t i) \<and>
       (\<forall>q. q \<noteq> p \<longrightarrow> vn_at q t = vn_at q s) \<and> vn_at p t = None \<and> biglock_depth t = d \<and>
       sfs_sb t = sfs_sb s \<and> sfs_superdirty t = sfs_superdirty s"
  note vo = vol_ok_parts [OF s] and vv = vol_vnode [OF s p v(1)]
  obtain k where k: "k < length (tab s)" "tab s ! k = p" using p by (auto simp: in_set_conv_nth)
  have own: "owned s (sv_ino v) = {sv_ino v}" if "sfi_linkcount (sv_i v) = 0"
    using v(4) [OF that] by (simp add: owned_def vv(9))
  have tail: "wp (kbind (kget (\<lambda>s. unat (array_num (sfs_vnodes s)))) (\<lambda>num.
                 kbind (sfs_reclaim_search p num 0) (\<lambda>ix.
                   if ix = num then kpanic
                   else
                     kthen (on_vnodes (array_remove (word_of_nat ix)))
                     (kthen (on_vn p vnode_cleanup)
                     (kthen biglock_release (kfree_vnode p)))))) ?Q E u"
    if u: "fs_ok u" "fs_same s u" "vn_heap u = vn_heap s" "disk u = disk s"
      and fm: "bm_nbits (sfs_freemap u) = bm_nbits (sfs_freemap s)"
        "sfs_freemapdirty u \<or> \<not> sfs_freemapdirty s \<and> sfs_freemap u = sfs_freemap s"
      and us:
      "used u \<inter> {..<nblocks s} = sys_blocks s \<union> (\<Union>a \<in> remaining F v. owned s a)" for u
  proof -
    have e: "sfs_vnodes u = sfs_vnodes s" "sfs_sb u = sfs_sb s" "biglock_depth u = Suc d" "sfs_superdirty u = sfs_superdirty s"
      using u(2) dep by (simp_all add: fs_same_def)
    have vq: "vn_at q u = vn_at q s" for q using u(3) by (simp add: vn_at_def)
    have T: "tab u = tab s" by (simp add: tab_def e)
    have "ino_of u = ino_of s" "vn_of u = vn_of s" by (auto simp: ino_of_def vn_of_def vq)
    then have tu: "tab_ok u" using vo(3) by (simp add: tab_ok_def T e vq u clean_def)
    have arr: "array_ok (sfs_vnodes u)" using tu by (simp add: tab_ok_def)
    have fin: "wp (kthen (on_vnodes (array_remove (word_of_nat ix)))
                     (kthen (on_vn p vnode_cleanup)
                     (kthen biglock_release (kfree_vnode p)))) ?Q E u"
      if ix: "ix < length (tab s)" "tab s ! ix = p" for ix
    proof -
      have iu: "ix < length (tab u)" using ix(1) T by simp
      note un = unat_of_index [OF tu iu]
      have pl: "p < length (vn_heap s)" "vn_heap s ! p = Some v" using vv(2) by (auto simp: vn_at_def split: if_splits)
      have fine: "?Q () (u\<lparr>sfs_vnodes := a, biglock_depth := d, vn_heap := (vn_heap s)[p := None]\<rparr>)"
        if a: "array_ok a" "array_list a = take ix (array_list (sfs_vnodes s)) @ drop (Suc ix) (array_list (sfs_vnodes s))" for a
      proof -
        let ?t = "u\<lparr>sfs_vnodes := a, biglock_depth := d, vn_heap := (vn_heap s)[p := None]\<rparr>"
        have "fs_ok ?t" "disk ?t = disk s" using u by (simp_all add: fs_ok_def dev_ok_def disk_def)
        from unload_vol [OF s ix(1) ix(2) [symmetric] v(1,3) this(1) _ this(2), of "remaining F v"]
        show ?thesis using a us fm e by (auto simp: remaining_def)
      qed
      have run: "wp (kthen (on_vn p vnode_cleanup) (kthen biglock_release (kfree_vnode p))) Q E (u\<lparr>sfs_vnodes := a\<rparr>) =
          Q () (u\<lparr>sfs_vnodes := a, biglock_depth := d, vn_heap := (vn_heap s)[p := None]\<rparr>)" for Q E a
        using e(3) pl v(2) u(3)
        by (simp add: on_vn_def vnode_cleanup_def kfree_vnode_def sv_get_def vn_at_def vn_put_def)
      show ?thesis
        unfolding on_vnodes_def wp_kthen wp_kzoom
      proof (rule wp_conseq [OF array_remove_wp [OF arr un(2)]], goal_cases)
        case (1 x a)
        then have "array_ok a" "array_list a = take ix (array_list (sfs_vnodes s)) @ drop (Suc ix) (array_list (sfs_vnodes s))"
          using un(1) e(1) by simp_all
        from fine [OF this] show ?case unfolding run [unfolded wp_kthen] .
      qed
    qed
    have nt: "unat (array_num (sfs_vnodes u)) = length (tab s)" using num_tab [OF tu] T by simp
    show ?thesis
      unfolding wp_kbind wp_kget nt
      by (rule wp_conseq [OF sfs_reclaim_search_wp [OF tu, of 0 k p "length (tab s)"]])
        (use k T fin in auto)
  qed
  have us: "used s \<inter> {..<nblocks s} = sys_blocks s \<union> (\<Union>a \<in> F. owned s a)" using vo(4) by (simp add: owners_ok_def)
  show ?thesis
  proof (cases "sfi_linkcount (sv_i v) = 0")
    case False
    then have "remaining F v = F" by (simp add: remaining_def)
    then show ?thesis using tail [of s] False vv(1,2) us by simp
  next
    case True
    have ne: "sv_ino v \<noteq> 0" using vv(12) by (auto simp: sys_blocks_def)
    have G: "remaining F v = F - {sv_ino v}" using True by (simp add: remaining_def)
    have "used s \<inter> {..<nblocks s} - {sv_ino v} = sys_blocks s \<union> (\<Union>a \<in> F - {sv_ino v}. owned s a)"
    proof -
      have "sv_ino v \<notin> owned s a" if "a \<in> F - {sv_ino v}" for a
      proof -
        have "owned s a \<inter> owned s (sv_ino v) = {}" using vo(4) that vv(4) by (simp add: owners_ok_def)
        then show ?thesis using own [OF True] by blast
      qed
      then show ?thesis unfolding us using own [OF True] vv(4,12) by blast
    qed
    then have "used u \<inter> {..<nblocks s} = sys_blocks s \<union> (\<Union>a \<in> remaining F v. owned s a)" if "used u = used s - {sv_ino v}" for u
      unfolding G that by blast
    note tl = tail [OF _ _ _ _ _ _ this]
    have "wp (sfs_bfree (sv_ino v)) (\<lambda>_. wp (kbind (kget (\<lambda>s. unat (array_num (sfs_vnodes s)))) (\<lambda>num.
                 kbind (sfs_reclaim_search p num 0) (\<lambda>ix.
                   if ix = num then kpanic
                   else
                     kthen (on_vnodes (array_remove (word_of_nat ix)))
                     (kthen (on_vn p vnode_cleanup)
                     (kthen biglock_release (kfree_vnode p)))))) ?Q E) E s"
      by (rule wp_conseq [OF bfree_wp [OF vv(1) _ vv(5) ne]], use vv(6) in blast, rule tl) (simp_all add: bfree_step_def)
    then show ?thesis using True vv(2) by simp
  qed
qed

lemma change_refs:
  assumes s: "vol_ok s F X" and p: "p \<in> set (tab s)" and v: "v = vn_of s p"
    and ch: "inode_change p s v t v'" and n: "vn_refcount v' = vn_refcount v"
  shows "refs t = refs s"
proof
  fix ino
  note vn = vn_of_change [OF ch vol_vnode(2) [OF s p v]]
  have "vn_refcount (vn_of t q) = vn_refcount (vn_of s q)" for q using vn(2) vn(4) [of q] n v by (cases "q = p") simp_all
  then show "refs t ino = refs s ino" by (simp add: refs_def vn(7) split: option.split)
qed

text \<open>
  \<open>dropped p v G s t\<close>: one reference to the vnode \<open>v\<close> at \<open>p\<close> is gone, the files \<open>G\<close> are there
  as before, and the others are no more.
\<close>

definition dropped :: "nat \<Rightarrow> sfs_vnode \<Rightarrow> nat set \<Rightarrow> sfs_fs \<Rightarrow> sfs_fs \<Rightarrow> bool" where
  "dropped p v G s t \<longleftrightarrow> vol_ok t G {} \<and> refs t = (refs s)(sv_ino v := refs s (sv_ino v) - 1) \<and>
     (\<forall>i \<in> G. keeps s t i) \<and> (\<forall>q. q \<noteq> p \<longrightarrow> vn_at q t = vn_at q s) \<and> biglock_depth t = biglock_depth s \<and>
     sfs_sb t = sfs_sb s \<and> sfs_superdirty t = sfs_superdirty s"

lemma no_blocks: "sfi_indirect i = 0 \<Longrightarrow> set (sfi_direct i) \<subseteq> {0} \<Longrightarrow> inode_blocks d i = {}"
  by (auto simp: inode_blocks_def bmap_of_def idwords_def)

text \<open>Truncating to nothing gives back every block.\<close>

lemma sfs_itrunc_all:
  assumes s: "vol_ok s F X" and p: "p \<in> set (tab s)" and v: "v = vn_of s p"
  shows "wp (sfs_itrunc p 0)
    (\<lambda>_ t. \<exists>v'. inode_change p s v t v' \<and> (\<forall>d. inode_blocks d (sv_i v') = {}) \<and>
       sfi_linkcount (sv_i v') = sfi_linkcount (sv_i v) \<and> vn_refcount v' = vn_refcount v) E s"
proof -
  note vv = vol_vnode [OF s p v]
  show ?thesis
  proof (rule wp_conseq [OF sfs_itrunc_wp [OF vv(1-3), of 0]], goal_cases)
    case (3 x t)
    then obtain v' where v': "inode_shrink p s v t v'" "sfi_size (sv_i v') = 0"
      "bmap_of (disk t) (sv_i v') = trunc_map 0 (bmap_of (disk s) (sv_i v))"
      "set (drop 15 (bmap_of (disk t) (sv_i v'))) \<subseteq> {0} \<longrightarrow> sfi_indirect (sv_i v') = 0" by force
    have z: "set (bmap_of (disk t) (sv_i v')) \<subseteq> {0}" unfolding v'(3) by (auto simp: trunc_map_def)
    moreover have "set (drop 15 (bmap_of (disk t) (sv_i v'))) \<subseteq> set (bmap_of (disk t) (sv_i v'))"
      by (rule set_drop_subset)
    ultimately have "sfi_indirect (sv_i v') = 0" using v'(4) by blast
    moreover have "set (sfi_direct (sv_i v')) \<subseteq> {0}" using z by (simp add: bmap_of_def)
    ultimately have "\<forall>d. inode_blocks d (sv_i v') = {}" using no_blocks by blast
    moreover have "inode_change p s v t v'" using shrink_change [OF s p v v'(1)] v'(2) by simp
    ultimately show ?case using v'(1) by (auto simp: inode_shrink_def)
  qed simp_all
qed

lemma sfs_reclaim_wp:
  assumes s: "vol_ok s F {}" and p: "p \<in> set (tab s)" and v: "v = vn_of s p" and rc: "vn_refcount v = 1"
  shows "wp (sfs_reclaim p) (\<lambda>_ t. dropped p v (remaining F v) s t \<and> vn_at p t = None) E s"
proof -
  let ?Q = "\<lambda>_ t. dropped p v (remaining F v) s t \<and> vn_at p t = None"
  define s0 where "s0 = s\<lparr>biglock_depth := Suc (biglock_depth s)\<rparr>"
  have s0: "vol_ok s0 F {}" "p \<in> set (tab s0)" "v = vn_of s0 p" using s p v by (simp_all add: s0_def)
  note vv = vol_vnode [OF s0]
  have k0: "keeps s s0 i" for i by (simp add: s0_def keeps_def)
  have r1: "refs s (sv_ino v) = 1" using refs_loaded [OF vol_ok_parts(3) [OF s] p] rc v by (simp add: ino_of_def)
  let ?tail = "kbind (sv_get p id) (\<lambda>v.
                kthen (if sfi_linkcount (sv_i v) = 0 then sfs_bfree (sv_ino v) else kret ())
                (kbind (kget (\<lambda>s. unat (array_num (sfs_vnodes s)))) (\<lambda>num.
                 kbind (sfs_reclaim_search p num 0) (\<lambda>ix.
                   if ix = num then kpanic
                   else
                     kthen (on_vnodes (array_remove (word_of_nat ix)))
                     (kthen (on_vn p vnode_cleanup)
                     (kthen biglock_release (kfree_vnode p)))))))"
  have fin: "wp ?tail ?Q E u"
    if ch: "inode_change p s0 v t v1" "vn_refcount v1 = 1" "sfi_linkcount (sv_i v1) = sfi_linkcount (sv_i v)"
      "sfi_linkcount (sv_i v) = 0 \<Longrightarrow> \<forall>d. inode_blocks d (sv_i v1) = {}" "sfi_linkcount (sv_i v) \<noteq> 0 \<Longrightarrow> t = s0 \<and> v1 = v"
      and ch': "inode_change p t v1 u (v1\<lparr>sv_dirty := False\<rparr>)" "\<forall>c. c \<noteq> sv_ino v1 \<longrightarrow> disk u c = disk t c" for t v1 u
  proof -
    let ?w = "v1\<lparr>sv_dirty := False\<rparr>"
    note vt = vol_change [OF s0 ch(1)] and nt = vn_of_change [OF ch(1) vv(2)]
    have t: "vol_ok t F {}" "p \<in> set (tab t)" "v1 = vn_of t p" using vt nt s0(2) by simp_all
    note vu = vol_change [OF t ch'(1)] and nu = vn_of_change [OF ch'(1) vol_vnode(2) [OF t]]
    have ino: "sv_ino v1 = sv_ino v" using ch(1) by (simp add: inode_change_def)
    have same: "fs_same s0 u" using ch(1) ch'(1) fs_same_trans [of s0 t u] by (simp add: inode_change_def)
    have r: "refs u = refs s"
      using change_refs [OF s0 ch(1)] change_refs [OF t ch'(1)] ch(2) rc by (simp add: s0_def)
    have vq: "vn_at q u = vn_at q s" if "q \<noteq> p" for q using nt(3) [OF that] nu(3) [OF that] by (simp add: s0_def)
    have keep: "keeps s u i" if i: "i \<in> remaining F v" for i
    proof (cases "i = sv_ino v")
      case False
      then have "i \<in> F" using i by (simp add: remaining_def split: if_splits)
      then show ?thesis
        using change_keeps(1) [OF s0 ch(1) _ False] change_keeps(1) [OF t ch'(1)] False ino keeps_trans [OF k0]
          keeps_trans [of s0 t i u] by simp
    next
      case True
      then have l: "sfi_linkcount (sv_i v) \<noteq> 0" and iF: "i \<in> F" using i by (auto simp: remaining_def split: if_splits)
      from ch(5) [OF l] have e: "t = s0" "v1 = v" by simp_all
      have "keeps s0 u i"
      proof (rule keepsI)
        show "inode_at u i = inode_at s0 i" using vu(3) vv(9) e True by simp
        show "disk u c = disk s0 c" if "c \<in> inode_blocks (disk s0) (inode_at s0 i)" for c
        proof -
          have "c \<noteq> sv_ino v" using that vv(6,9) True by auto
          then show ?thesis using ch'(2) e by simp
        qed
        show "file_ok s0 i" by (rule vol_ok_parts(6) [OF s0(1) iF])
      qed (rule vv)
      then show ?thesis by (rule keeps_trans [OF k0])
    qed
    have "remaining F ?w = remaining F v" using ch(3) ino by (simp add: remaining_def)
    moreover have "biglock_depth u = Suc (biglock_depth s)" using same by (simp add: fs_same_def s0_def)
    ultimately have "wp ?tail (\<lambda>_ y. vol_ok y (remaining F v) {} \<and> refs y = (refs u)(sv_ino v := 0) \<and> (\<forall>i. keeps u y i) \<and>
       (\<forall>q. q \<noteq> p \<longrightarrow> vn_at q y = vn_at q u) \<and> vn_at p y = None \<and> biglock_depth y = biglock_depth s \<and>
       sfs_sb y = sfs_sb u \<and> sfs_superdirty y = sfs_superdirty u) E u"
      using reclaim_tail_wp [OF vu(1), of p ?w "biglock_depth s" E] nu ch t(2) ino by simp
    then show ?thesis
    proof (rule wp_conseq, goal_cases)
      case (1 x y)
      have "keeps s y i" if "i \<in> remaining F v" for i using keeps_trans [OF keep [OF that]] 1 by blast
      moreover have "sfs_sb u = sfs_sb s" "sfs_superdirty u = sfs_superdirty s" using same by (simp_all add: fs_same_def s0_def)
      ultimately show ?case using 1 vq r r1 by (simp add: dropped_def)
    qed simp
  qed
  have sync: "wp (sfs_sync_inode p) (\<lambda>_. wp ?tail ?Q E) E' t"
    if ch: "inode_change p s0 v t v1" "vn_refcount v1 = 1" "sfi_linkcount (sv_i v1) = sfi_linkcount (sv_i v)"
      "sfi_linkcount (sv_i v) = 0 \<Longrightarrow> \<forall>d. inode_blocks d (sv_i v1) = {}" "sfi_linkcount (sv_i v) \<noteq> 0 \<Longrightarrow> t = s0 \<and> v1 = v" for t v1 E'
  proof -
    note vt = vol_change [OF s0 ch(1)] and nt = vn_of_change [OF ch(1) vv(2)]
    have t: "vol_ok t F {}" "p \<in> set (tab t)" "v1 = vn_of t p" using vt nt s0(2) by simp_all
    show ?thesis by (rule wp_conseq [OF sfs_sync_inode_wp [OF t]]) (use fin [OF ch] in auto)
  qed
  have "wp (if sfi_linkcount (sv_i v) = 0 then sfs_itrunc p 0 else kret ())
     (\<lambda>_. wp (sfs_sync_inode p) (\<lambda>_. wp ?tail ?Q E) E') E' s0" for E'
  proof (cases "sfi_linkcount (sv_i v) = 0")
    case True
    have "wp (sfs_itrunc p 0) (\<lambda>_. wp (sfs_sync_inode p) (\<lambda>_. wp ?tail ?Q E) E') E' s0"
    proof (rule wp_conseq [OF sfs_itrunc_all [OF s0]], goal_cases)
      case (1 x t)
      then obtain v' where "inode_change p s0 v t v'" "\<forall>d. inode_blocks d (sv_i v') = {}"
        "sfi_linkcount (sv_i v') = sfi_linkcount (sv_i v)" "vn_refcount v' = 1" using rc by auto
      then show ?case using True by (intro sync) auto
    qed simp
    then show ?thesis using True by simp
  next
    case False
    have "inode_change p s0 v (vn_put p v s0) v"
      using vv by (intro put_change [OF s0]) (auto simp: inode_ok_def)
    moreover have "vn_put p v s0 = s0" using vv(2) by (auto simp: vn_put_def vn_at_def split: if_splits)
    ultimately have "wp (sfs_sync_inode p) (\<lambda>_. wp ?tail ?Q E) E' s0"
      using rc False by (intro sync) auto
    then show ?thesis using False by simp
  qed
  note main = this
  show ?thesis
    using main [of "\<lambda>e. wp (kthen biglock_release (kfail e)) ?Q E"] unfolding sfs_reclaim_def
    by (simp only: wp_kthen wp_kbind wp_ktry wp_biglock wp_sv_get s0_def [symmetric] vv(2) option.case rc sum.case
        refl not_True_eq_False if_False)
qed

text \<open>Giving up a reference: the last one to a file without links removes the file.\<close>

lemma sfs_decref_wp:
  assumes s: "vol_ok s F {}" and p: "p \<in> set (tab s)" and v: "v = vn_of s p"
  shows "wp (sfs_decref p) (\<lambda>_ t. dropped p v (if vn_refcount v = 1 then remaining F v else F) s t \<and>
      (vn_refcount v \<noteq> 1 \<longrightarrow> p \<in> set (tab t))) E s"
proof -
  note vv = vol_vnode [OF s p v]
  have ops: "vn_ops v \<noteq> None" "vn_refcount v \<ge> 1" using vv(7) by (auto simp: vnode_ok_def)
  show ?thesis
  proof (cases "vn_refcount v = 1")
    case True
    then have "wp (sfs_reclaim p) (\<lambda>_ t. dropped p v (remaining F v) s t) (\<lambda>_ t. dropped p v (remaining F v) s t) s"
      by (intro wp_conseq [OF sfs_reclaim_wp [OF s p v]]) auto
    moreover have "vn_put p v s = s" using vv(2) by (auto simp: vn_put_def vn_at_def split: if_splits)
    ultimately show ?thesis
      using True vv(2) ops unfolding sfs_decref_def vnode_decref_def by simp
  next
    case False
    then have n: "vn_refcount v - 1 \<ge> 1" using ops by simp
    note rc = refcount_change [OF s p v n]
    let ?t = "vn_put p (v\<lparr>vn_refcount := vn_refcount v - 1\<rparr>) s"
    have "refs s (sv_ino v) = vn_refcount v" using refs_loaded [OF vol_ok_parts(3) [OF s] p] v by (simp add: ino_of_def)
    moreover have "keeps s ?t i" for i using rc(2) by (simp add: keeps_def owned_def)
    ultimately have "dropped p v F s ?t" using rc by (simp add: dropped_def)
    then show ?thesis using False n vv(2) ops(2) p rc(5) unfolding sfs_decref_def vnode_decref_def by simp
  qed
qed

text \<open>The big lock around a step.\<close>

lemma quiet_unlock:
  "quiet (s\<lparr>biglock_depth := Suc (biglock_depth s)\<rparr>) t \<Longrightarrow> quiet s (t\<lparr>biglock_depth := biglock_depth t - Suc 0\<rparr>) \<and> biglock_depth t > 0"
  by (auto simp: quiet_def)

lemma got_unlock:
  "got p ino (s\<lparr>biglock_depth := Suc (biglock_depth s)\<rparr>) t \<Longrightarrow>
   got p ino s (t\<lparr>biglock_depth := biglock_depth t - Suc 0\<rparr>) \<and> biglock_depth t > 0"
  by (auto simp: got_def)

lemma sfs_getroot_wp:
  assumes s: "vol_ok s F X" and r: "SFS_ROOTDIR_INO \<in> F" "sfi_type (inode_at s SFS_ROOTDIR_INO) = SFS_TYPE_DIR"
  shows "wp sfs_getroot (\<lambda>p t. vol_ok t F X \<and> got p SFS_ROOTDIR_INO s t) (\<lambda>e t. e = ENOMEM \<and> quiet s t) s"
proof -
  let ?s = "s\<lparr>biglock_depth := Suc (biglock_depth s)\<rparr>"
  have s0: "vol_ok ?s F X" using s by simp
  show ?thesis
    unfolding sfs_getroot_def wp_kthen wp_biglock wp_kbind wp_ktry
  proof (rule wp_conseq [OF sfs_loadvnode_wp [OF s0 r(1)]], goal_cases)
    case (1 p t)
    then have g: "got p SFS_ROOTDIR_INO ?s t" "vol_ok t F X" by simp_all
    have p: "p \<in> set (tab t)" "sv_ino (vn_of t p) = SFS_ROOTDIR_INO" using g(1) by (simp_all add: got_def ino_of_def)
    note vv = vol_vnode [OF g(2) p(1) refl]
    have "sfi_type (sv_i (vn_of t p)) = SFS_TYPE_DIR" using vv(9) g(1) r(2) p(2) by (simp add: got_def)
    then show ?case using vv(2) g(2) got_unlock [OF g(1)] by simp
  next
    case (2 e t)
    then show ?case using quiet_unlock [of s t] by simp
  qed
qed

end
