(* ===== verification/Sfs_Dir.thy ===== *)
theory Sfs_Dir
  imports Sfs_Inode
begin

text \<open>
  Directories, \<open>kern/fs/sfs/sfs_dir.c\<close>: a directory is a file of 64-byte entries, of which
  those with inode number 0 are empty slots. Names are C strings, here the bytes before the
  terminating zero.
\<close>

subsection \<open>Model\<close>

type_synonym cstr = "byte list"

text \<open>The string in a buffer: what \<open>strcmp\<close> sees of it.\<close>

definition cstr_of :: "byte list \<Rightarrow> cstr" where
  "cstr_of buf = takeWhile (\<lambda>c. c \<noteq> 0) buf"

definition sfs_readdir :: "nat \<Rightarrow> int \<Rightarrow> (sfs_fs, sfs_direntry) kfun" where
  "sfs_readdir sv slot =
     (let actualpos = int (u32_of_int (slot * 64)) in
      kbind (sfs_metaio sv actualpos (replicate 64 0) UIO_READ) (\<lambda>sd. kret (bytes_to_direntry sd)))"

definition sfs_writedir :: "nat \<Rightarrow> int \<Rightarrow> sfs_direntry \<Rightarrow> (sfs_fs, unit) kfun" where
  "sfs_writedir sv slot sd =
     kthen (kassert (\<lambda>_. slot \<ge> 0))
     (let actualpos = int (u32_of_int (slot * 64)) in
      kthen (sfs_metaio sv actualpos (direntry_to_bytes sd) UIO_WRITE) (kret ()))"

definition sfs_dir_nentries :: "nat \<Rightarrow> (sfs_fs, int) kfun" where
  "sfs_dir_nentries sv =
     kbind (sv_get sv sv_i) (\<lambda>i.
     kthen (kassert (\<lambda>_. sfi_type i = SFS_TYPE_DIR))
     (let size = sfi_size i in
      if size mod 64 \<noteq> 0 then kpanic else kret (int (size div 64))))"

text \<open>
  The loop of \<open>sfs_dir_findname\<close>: \<open>found\<close> holds the inode number and slot handed back,
  \<open>emptyslot\<close> the empty slot.
\<close>

function sfs_dir_findname_loop ::
  "nat \<Rightarrow> cstr \<Rightarrow> int \<Rightarrow> int \<Rightarrow> (nat \<times> int) option \<Rightarrow> int \<Rightarrow> (sfs_fs, (nat \<times> int) option \<times> int) kfun" where
  "sfs_dir_findname_loop sv name nentries i found emptyslot =
     (if i < nentries then
        kbind (sfs_readdir sv i) (\<lambda>tsd.
          if sfd_ino tsd = SFS_NOINO then sfs_dir_findname_loop sv name nentries (i + 1) found i
          else
            let sfd_name' = (sfd_name tsd)[SFS_NAMELEN - 1 := 0] in
            if cstr_of sfd_name' = name then
              kthen (kassert (\<lambda>_. found = None))
                (sfs_dir_findname_loop sv name nentries (i + 1) (Some (sfd_ino tsd, i)) emptyslot)
            else sfs_dir_findname_loop sv name nentries (i + 1) found emptyslot)
      else kret (found, emptyslot))"
  by pat_completeness auto
termination
  by (relation "measure (\<lambda>(sv, name, nentries, i, found, emptyslot). nat (nentries - i))") auto

text \<open>
  \<open>emptyslot\<close> is what the caller's variable holds before the call. The function sets it also
  when the name is not there, so the code 0 or \<open>ENOENT\<close> it returns is part of the value; any
  other code is an error.
\<close>

definition sfs_dir_findname :: "nat \<Rightarrow> cstr \<Rightarrow> int \<Rightarrow> (sfs_fs, (errno + nat \<times> int) \<times> int) kfun" where
  "sfs_dir_findname sv name emptyslot =
     kbind (sfs_dir_nentries sv) (\<lambda>nentries.
     kbind (sfs_dir_findname_loop sv name nentries 0 None emptyslot) (\<lambda>(found, emptyslot).
       kret (case found of Some r \<Rightarrow> Inr r | None \<Rightarrow> Inl ENOENT, emptyslot)))"

text \<open>\<open>bzero\<close> of the entry and \<open>strcpy\<close> of the name into it.\<close>

definition sfs_mkdirentry :: "nat \<Rightarrow> cstr \<Rightarrow> sfs_direntry" where
  "sfs_mkdirentry ino name = \<lparr>sfd_ino = ino, sfd_name = name @ replicate (SFS_NAMELEN - length name) 0\<rparr>"

definition sfs_dir_link :: "nat \<Rightarrow> cstr \<Rightarrow> nat \<Rightarrow> (sfs_fs, int) kfun" where
  "sfs_dir_link sv name ino =
     kbind (sfs_dir_findname sv name (-1)) (\<lambda>(result, emptyslot).
       case result of
         Inr _ \<Rightarrow> kfail EEXIST
       | Inl _ \<Rightarrow>
           if length name + 1 > SFS_NAMELEN then kfail ENAMETOOLONG
           else
             kbind (if emptyslot < 0 then sfs_dir_nentries sv else kret emptyslot) (\<lambda>emptyslot.
             kthen (sfs_writedir sv emptyslot (sfs_mkdirentry ino name)) (kret emptyslot)))"

definition sfs_dir_unlink :: "nat \<Rightarrow> int \<Rightarrow> (sfs_fs, unit) kfun" where
  "sfs_dir_unlink sv slot = sfs_writedir sv slot \<lparr>sfd_ino = SFS_NOINO, sfd_name = replicate SFS_NAMELEN 0\<rparr>"

text \<open>The vnode and the slot of a name.\<close>

definition sfs_lookonce :: "nat \<Rightarrow> cstr \<Rightarrow> (sfs_fs, nat \<times> int) kfun" where
  "sfs_lookonce sv name =
     kbind (sfs_dir_findname sv name (-1)) (\<lambda>(result, _).
       case result of
         Inl e \<Rightarrow> kfail e
       | Inr (ino, slot) \<Rightarrow>
           kbind (sfs_loadvnode ino SFS_TYPE_INVAL) (\<lambda>ret.
           kbind (sv_get ret (\<lambda>v. sfi_linkcount (sv_i v))) (\<lambda>linkcount.
             if linkcount = 0 then kpanic else kret (ret, slot))))"

declare sfs_dir_findname_loop.simps [simp del]

end
