(* ===== verification/Sfs_Names.thy ===== *)
theory Sfs_Names
  imports Sfs_Objects Sfs_Dir
begin

text \<open>
  Directories as maps from names to inodes: what the operations of \<open>kern/fs/sfs/sfs_dir.c\<close>
  (modelled in \<open>Sfs_Dir\<close>) do to a sound volume and to the map of a directory.
\<close>


subsection \<open>The slots of a directory\<close>

text \<open>
  Entry \<open>k\<close> of a directory is bytes \<open>64 k\<close> to \<open>64 k + 63\<close> of its data. \<open>live\<close> are the entries in
  use; \<open>ename\<close> is the name \<open>sfs_dir_findname\<close> compares with.
\<close>

definition dirent :: "byte list \<Rightarrow> nat \<Rightarrow> sfs_direntry" where
  "dirent bs k = bytes_to_direntry (take 64 (drop (64 * k) bs))"

definition slots :: "sfs_fs \<Rightarrow> nat \<Rightarrow> sfs_direntry list" where
  "slots s d = map (dirent (file_data (disk s) (inode_at s d))) [0 ..< sfi_size (inode_at s d) div 64]"

definition live :: "sfs_direntry \<Rightarrow> bool" where
  "live e \<longleftrightarrow> sfd_ino e \<noteq> SFS_NOINO"

definition ename :: "sfs_direntry \<Rightarrow> cstr" where
  "ename e = cstr_of ((sfd_name e)[SFS_NAMELEN - 1 := 0])"

definition names_at :: "sfs_direntry list \<Rightarrow> cstr \<Rightarrow> nat \<Rightarrow> bool" where
  "names_at L name i \<longleftrightarrow> i < length L \<and> live (L ! i) \<and> ename (L ! i) = name"

text \<open>No name is there twice.\<close>

definition dir_wf :: "sfs_direntry list \<Rightarrow> bool" where
  "dir_wf L \<longleftrightarrow> (\<forall>name i j. names_at L name i \<longrightarrow> names_at L name j \<longrightarrow> i = j)"

definition is_dir :: "sfs_fs \<Rightarrow> nat \<Rightarrow> bool" where
  "is_dir s d \<longleftrightarrow> sfi_type (inode_at s d) = SFS_TYPE_DIR \<and> sfi_size (inode_at s d) mod 64 = 0 \<and> dir_wf (slots s d)"

definition MAXSLOTS :: nat where
  "MAXSLOTS = 1144"

lemma maxslots: "k < MAXSLOTS \<Longrightarrow> 64 * k + 64 \<le> MAXFILE"
  by (simp add: MAXSLOTS_def MAXFILE_def)

lemma keeps_slots: "keeps s t d \<Longrightarrow> slots t d = slots s d"
  by (simp add: keeps_def slots_def)

lemma quiet_slots: "quiet s t \<Longrightarrow> slots t d = slots s d"
  by (rule keeps_slots) (rule quiet_same)

lemma quiet_is_dir: "quiet s t \<Longrightarrow> is_dir t d = is_dir s d"
  using quiet_same(5) [of s t] quiet_slots [of s t d] by (simp add: is_dir_def)

lemma slot_offset:
  assumes "k < MAXSLOTS"
  shows "64 * k = (k div 8) * 512 + 64 * (k mod 8)" "64 * (k mod 8) < 512" "64 * (k mod 8) + 64 \<le> 512" "k div 8 < 143"
    "u32_of_int (int k * 64) = 64 * k"
proof -
  show "64 * k = (k div 8) * 512 + 64 * (k mod 8)" using div_mult_mod_eq [of k 8] by linarith
  have "k mod 8 \<le> 7" by simp
  then show "64 * (k mod 8) < 512" "64 * (k mod 8) + 64 \<le> 512" by linarith+
  show "k div 8 < 143" using assms by (simp add: MAXSLOTS_def div_less_iff_less_mult)
  have "64 * k < 2 ^ 32" using assms by (simp add: MAXSLOTS_def)
  then show "u32_of_int (int k * 64) = 64 * k" using u32_of_int_nat [of "64 * k"] by (simp add: mult.commute)
qed

lemma slots_nth:
  "k < length (slots s d) \<Longrightarrow> slots s d ! k = dirent (file_data (disk s) (inode_at s d)) k"
  by (simp add: slots_def)

lemma length_slots: "length (slots s d) = sfi_size (inode_at s d) div 64"
  by (simp add: slots_def)

lemma slots_bound:
  assumes "vol_ok s F X" "d \<in> F"
  shows "length (slots s d) \<le> MAXSLOTS"
proof -
  have "sfi_size (inode_at s d) \<le> MAXFILE" using vol_ok_parts(6) [OF assms] by (simp add: file_ok_def)
  then have "sfi_size (inode_at s d) div 64 \<le> MAXFILE div 64" by (rule div_le_mono)
  then show ?thesis by (simp add: length_slots MAXFILE_def MAXSLOTS_def)
qed

subsection \<open>Reading and writing entries\<close>

lemma sfs_readdir_wp:
  assumes s: "vol_ok s F X" "p \<in> set (tab s)" "v = vn_of s p" and k: "k < MAXSLOTS"
  shows "wp (sfs_readdir p (int k)) (\<lambda>e t. e = dirent (file_data (disk s) (sv_i v)) k \<and> quiet s t) E s"
proof -
  note vv = vol_vnode [OF s] and o = slot_offset [OF k]
  have "wp (sfs_metaio p (int (64 * k)) (replicate 64 0) UIO_READ)
      (\<lambda>r t. bytes_to_direntry r = dirent (file_data (disk s) (sv_i v)) k \<and> quiet s t) E s"
    by (rule wp_conseq [OF sfs_metaio_read [OF vv(1-3) o(1,2) _ o(4)]])
      (use o(3) dev_step_quiet vv(1) in \<open>auto simp: dirent_def\<close>)
  then show ?thesis by (simp add: sfs_readdir_def o(5))
qed

lemma dirent_splice:
  assumes "64 * k + 64 \<le> length bs" "64 * j + 64 \<le> length bs" "direntry_wf e"
  shows "dirent (splice_at (64 * k) (direntry_to_bytes e) bs) j = (if j = k then e else dirent bs j)"
proof (cases "j = k")
  case True
  have "take 64 (drop (64 * k) (splice_at (64 * k) (direntry_to_bytes e) bs)) = direntry_to_bytes e"
    using take_drop_splice_at [of "64 * k" "direntry_to_bytes e" bs] assms by (simp add: length_direntry_to_bytes)
  then show ?thesis using True assms(3) by (simp add: dirent_def direntry_roundtrip)
next
  case False
  have l: "length (direntry_to_bytes e) = 64" by (rule length_direntry_to_bytes [OF assms(3)])
  have "take 64 (drop (64 * j) (splice_at (64 * k) (direntry_to_bytes e) bs)) = take 64 (drop (64 * j) bs)"
  proof (rule nth_equalityI)
    fix i assume "i < length (take 64 (drop (64 * j) (splice_at (64 * k) (direntry_to_bytes e) bs)))"
    then have i: "i < 64" "64 * j + i < length bs" using assms l by simp_all
    have "64 * j + i < 64 * k \<or> 64 * k + 64 \<le> 64 * j + i" using False i(1) by linarith
    then show "take 64 (drop (64 * j) (splice_at (64 * k) (direntry_to_bytes e) bs)) ! i = take 64 (drop (64 * j) bs) ! i"
      using i assms l by (auto simp: nth_splice_at)
  qed (use assms l in simp)
  then show ?thesis using False by (simp add: dirent_def)
qed

text \<open>An entry of the directory at \<open>p\<close> was set.\<close>

definition slot_set :: "nat \<Rightarrow> nat \<Rightarrow> sfs_direntry list \<Rightarrow> sfs_fs \<Rightarrow> sfs_fs \<Rightarrow> bool" where
  "slot_set p d L s t \<longleftrightarrow> slots t d = L \<and> is_dir t d \<and> sfi_linkcount (inode_at t d) = sfi_linkcount (inode_at s d) \<and>
     refs t = refs s \<and> tab t = tab s \<and> ino_of t = ino_of s \<and> (\<forall>q. q \<noteq> p \<longrightarrow> vn_at q t = vn_at q s) \<and>
     sfs_sb t = sfs_sb s \<and> sfs_superdirty t = sfs_superdirty s \<and> biglock_depth t = biglock_depth s"

lemma live_block:
  assumes "k < MAXSLOTS" "live (dirent (file_data d i) k)"
  shows "bmap_of d i ! (k div 8) \<noteq> 0"
proof
  assume z: "bmap_of d i ! (k div 8) = 0"
  note o = slot_offset [OF assms(1)]
  have "take 64 (drop (64 * k) (file_data d i)) = replicate 64 0"
  proof (rule nth_equalityI)
    fix n assume "n < length (take 64 (drop (64 * k) (file_data d i)))"
    then have n: "n < 64" "64 * k + n < MAXFILE" using maxslots [OF assms(1)] by auto
    have "(64 * k + n) div 512 = k div 8"
    proof -
      have "64 * k + n = (64 * (k mod 8) + n) + (k div 8) * 512" using o(1) by simp
      then have "(64 * k + n) div 512 = (64 * (k mod 8) + n) div 512 + k div 8" by (metis div_mult_self1 add.commute zero_neq_numeral)
      then show ?thesis using o(3) n(1) by simp
    qed
    then have "file_data d i ! (64 * k + n) = 0" using n z o(4)
      by (simp add: file_data_nth file_block_def blk_bytes_def zeros_def)
    then show "take 64 (drop (64 * k) (file_data d i)) ! n = replicate 64 0 ! n" using n by simp
  qed (use maxslots [OF assms(1)] in simp)
  then have "sfd_ino (dirent (file_data d i) k) = be_dec (replicate 4 0)" by (simp add: dirent_def bytes_to_direntry_def)
  also have "replicate 4 (0 :: byte) = [0, 0, 0, 0]" by (simp add: eval_nat_numeral)
  finally show False using assms(2) by (simp add: live_def SFS_NOINO_def)
qed

lemma step_tab:
  assumes s: "vol_ok s F X" "p \<in> set (tab s)" "v = vn_of s p" and st: "inode_step p s v t v'" and sz: "sfi_size (sv_i v') \<le> MAXFILE"
  shows "vol_ok t F X" "vn_of t p = v'" "inode_at t (sv_ino v) = sv_i v'" "refs t = refs s" "tab t = tab s"
    "\<And>q. q \<noteq> p \<Longrightarrow> vn_at q t = vn_at q s" "\<And>i. i \<in> F \<Longrightarrow> i \<noteq> sv_ino v \<Longrightarrow> keeps s t i" "ino_of t = ino_of s"
    "sfs_sb t = sfs_sb s" "sfs_superdirty t = sfs_superdirty s" "biglock_depth t = biglock_depth s" "vn_at p t = Some v'"
proof -
  note ch = step_change [OF s st sz]
  note vc = vol_change [OF s ch] and vn = vn_of_change [OF ch vol_vnode(2) [OF s]]
  show "vol_ok t F X" "vn_of t p = v'" "inode_at t (sv_ino v) = sv_i v'" "tab t = tab s" "ino_of t = ino_of s" "vn_at p t = Some v'"
    "\<And>q. q \<noteq> p \<Longrightarrow> vn_at q t = vn_at q s" "\<And>i. i \<in> F \<Longrightarrow> i \<noteq> sv_ino v \<Longrightarrow> keeps s t i"
    using vc vn change_keeps(1) [OF s ch] by simp_all
  show "refs t = refs s" by (rule change_refs [OF s ch]) (use st in \<open>simp add: inode_step_def\<close>)
  show "sfs_sb t = sfs_sb s" "sfs_superdirty t = sfs_superdirty s" "biglock_depth t = biglock_depth s"
    using st by (simp_all add: inode_step_def fs_same_def)
qed

lemma slots_splice:
  assumes k: "k \<le> n" "k < MAXSLOTS" "n \<le> MAXSLOTS" and e: "direntry_wf e"
    and new: "fd' = splice_at (64 * k) (direntry_to_bytes e) fd" "length fd = MAXFILE"
  shows "map (dirent fd') [0 ..< max (64 * n) (64 * k + 64) div 64] =
    (if k < n then (map (dirent fd) [0 ..< n])[k := e] else map (dirent fd) [0 ..< n] @ [e])"
proof -
  have d: "dirent fd' j = (if j = k then e else dirent fd j)" if "j < MAXSLOTS" for j
    unfolding new(1) by (rule dirent_splice) (use that maxslots k new(2) e in auto)
  show ?thesis
  proof (cases "k < n")
    case True
    then have "max (64 * n) (64 * k + 64) div 64 = n" by (simp add: max_def)
    then show ?thesis using True d k(3) by (auto intro!: nth_equalityI simp: nth_list_update)
  next
    case False
    then have "max (64 * n) (64 * k + 64) div 64 = Suc k" "k = n" using k(1) by (simp_all add: max_def)
    then show ?thesis using False d k(2) by (auto intro!: nth_equalityI simp: nth_append less_Suc_eq)
  qed
qed

lemma sfs_writedir_wp:
  assumes s: "vol_ok s F X" "p \<in> set (tab s)" "v = vn_of s p" and d: "d = sv_ino v" "is_dir s d"
    and k: "k \<le> length (slots s d)" and e: "direntry_wf e"
    and L: "L = (if k < length (slots s d) then (slots s d)[k := e] else slots s d @ [e])" "dir_wf L"
  shows "wp (sfs_writedir p (int k) e)
    (\<lambda>_ t. vol_ok t F X \<and> slot_set p d L s t \<and> (\<forall>i \<in> F - {d}. keeps s t i))
    (\<lambda>e t. (e = ENOSPC \<or> e = EFBIG) \<and> (k < length (slots s d) \<longrightarrow> \<not> live (slots s d ! k)) \<and>
       vol_ok t F X \<and> slot_set p d (slots s d) s t \<and> (\<forall>i \<in> F - {d}. keeps s t i)) s"
proof -
  note vv = vol_vnode [OF s]
  let ?n = "length (slots s d)" and ?fd = "file_data (disk s) (sv_i v)"
  have i: "inode_at s d = sv_i v" using vv(9) d by simp
  have sz: "sfi_size (sv_i v) = 64 * ?n" using d(2) i by (auto simp: length_slots is_dir_def)
  have sl: "slots s d = map (dirent ?fd) [0 ..< ?n]" using sz by (simp add: slots_def i)
  have n: "?n \<le> MAXSLOTS" using slots_bound [OF s(1) vv(4)] d by simp
  have len: "length (direntry_to_bytes e) = 64" by (rule length_direntry_to_bytes [OF e])
  show ?thesis
  proof (cases "k < MAXSLOTS")
    case True
    note o = slot_offset [OF True]
    have big: "max (64 * ?n) (64 * k + 64) \<le> MAXFILE" using maxslots [OF True] n by (simp add: MAXFILE_def MAXSLOTS_def)
    have "wp (sfs_metaio p (int (64 * k)) (direntry_to_bytes e) UIO_WRITE)
      (\<lambda>_ t. vol_ok t F X \<and> slot_set p d L s t \<and> (\<forall>i \<in> F - {d}. keeps s t i))
      (\<lambda>e t. (e = ENOSPC \<or> e = EFBIG) \<and> (k < length (slots s d) \<longrightarrow> \<not> live (slots s d ! k)) \<and>
         vol_ok t F X \<and> slot_set p d (slots s d) s t \<and> (\<forall>i \<in> F - {d}. keeps s t i)) s"
    proof (rule wp_conseq [OF sfs_metaio_write [OF vv(1-3) o(1,2) _ o(4)]], goal_cases)
      case 1
      show ?case using o(3) len by simp
    next
      case (2 r t)
      then obtain v' where m: "inode_step p s v t v'" "sfi_size (sv_i v') = max (64 * ?n) (64 * k + 64)"
        "file_data (disk t) (sv_i v') = splice_at (64 * k) (direntry_to_bytes e) ?fd"
        by (auto simp: meta_wrote_def len sz)
      have le: "sfi_size (sv_i v') \<le> MAXFILE" using m(2) big by simp
      note st = step_tab [OF s m(1) le, folded d(1)]
      have "slots t d = map (dirent (file_data (disk t) (sv_i v'))) [0 ..< max (64 * ?n) (64 * k + 64) div 64]"
        by (simp only: slots_def st(3) m(2))
      also have "\<dots> = L" unfolding slots_splice [OF k True n e m(3) length_file_data] L(1) sl [symmetric] ..
      finally have "slots t d = L" .
      moreover have "sfi_size (inode_at t d) mod 64 = 0" using st(3) m(2) by (simp add: max_def)
      moreover have "sfi_type (sv_i v') = SFS_TYPE_DIR" "sfi_linkcount (sv_i v') = sfi_linkcount (sv_i v)"
        using m(1) d(2) i by (simp_all add: inode_step_def is_dir_def)
      ultimately have "slot_set p d L s t" using st L(2) i by (simp add: slot_set_def is_dir_def)
      then show ?case using st(1,7) by simp
    next
      case (3 x t)
      then obtain v' where m: "x = ENOSPC" "bmap_of (disk s) (sv_i v) ! (k div 8) = 0" "inode_step p s v t v'"
        "sfi_size (sv_i v') = sfi_size (sv_i v)" "file_data (disk t) (sv_i v') = ?fd"
        by (auto simp: wrote_def)
      have le: "sfi_size (sv_i v') \<le> MAXFILE" using m(4) vv(10) by simp
      note st = step_tab [OF s m(3) le, folded d(1)]
      have S: "slots t d = slots s d" by (simp add: slots_def st(3) m(4,5) i)
      moreover have "sfi_type (sv_i v') = SFS_TYPE_DIR" "sfi_linkcount (sv_i v') = sfi_linkcount (sv_i v)"
        using m(3) d(2) i by (simp_all add: inode_step_def is_dir_def)
      ultimately have "slot_set p d (slots s d) s t" using st d(2) i m(4) by (simp add: slot_set_def is_dir_def)
      moreover have "\<not> live (slots s d ! k)" if "k < ?n"
        using live_block [OF True, of "disk s" "sv_i v"] m(2) slots_nth [OF that] i by auto
      ultimately show ?case using st(1,7) m(1) by simp
    qed
    then show ?thesis unfolding sfs_writedir_def Let_def o(5) by simp
  next
    case False
    then have kn: "k = ?n" "?n = MAXSLOTS" using k n by simp_all
    then have off: "143 * 512 \<le> 64 * k" "64 * k < 2 ^ 32" by (simp_all add: MAXSLOTS_def)
    have u: "u32_of_int (int k * 64) = 64 * k" using u32_of_int_nat [OF off(2)] by (simp add: mult.commute)
    have "slot_set p d (slots s d) s s" using d(2) by (simp add: slot_set_def)
    then have "wp (sfs_metaio p (int (64 * k)) (direntry_to_bytes e) UIO_WRITE)
      (\<lambda>_ t. vol_ok t F X \<and> slot_set p d L s t \<and> (\<forall>i \<in> F - {d}. keeps s t i))
      (\<lambda>e t. (e = ENOSPC \<or> e = EFBIG) \<and> (k < length (slots s d) \<longrightarrow> \<not> live (slots s d ! k)) \<and>
         vol_ok t F X \<and> slot_set p d (slots s d) s t \<and> (\<forall>i \<in> F - {d}. keeps s t i)) s"
      by (intro wp_conseq [OF sfs_metaio_big [OF vv(1-3) off]]) (use kn s(1) in auto)
    then show ?thesis unfolding sfs_writedir_def Let_def u by simp
  qed
qed

subsection \<open>Finding a name\<close>

text \<open>What the search knows after \<open>i\<close> entries.\<close>

definition scanned :: "sfs_direntry list \<Rightarrow> cstr \<Rightarrow> int \<Rightarrow> nat \<Rightarrow> (nat \<times> int) option \<Rightarrow> int \<Rightarrow> bool" where
  "scanned L name es0 i found es \<longleftrightarrow>
     (case found of
        None \<Rightarrow> \<forall>j < i. \<not> names_at L name j
      | Some (ino, slot) \<Rightarrow> \<exists>j < i. slot = int j \<and> ino = sfd_ino (L ! j) \<and> names_at L name j) \<and>
     (es = es0 \<and> (\<forall>j < i. live (L ! j)) \<or> (\<exists>j < i. es = int j \<and> \<not> live (L ! j)))"

lemma scanned_step:
  assumes "scanned L name es0 i found es" "i < length L" "dir_wf L"
  shows "\<not> live (L ! i) \<Longrightarrow> scanned L name es0 (Suc i) found (int i)"
    "names_at L name i \<Longrightarrow> found = None \<and> scanned L name es0 (Suc i) (Some (sfd_ino (L ! i), int i)) es"
    "live (L ! i) \<Longrightarrow> \<not> names_at L name i \<Longrightarrow> scanned L name es0 (Suc i) found es"
proof -
  show "scanned L name es0 (Suc i) found (int i)" if "\<not> live (L ! i)"
    using assms(1) that by (auto simp: scanned_def names_at_def less_Suc_eq split: option.splits)
  show "scanned L name es0 (Suc i) found es" if "live (L ! i)" "\<not> names_at L name i"
    using assms(1) that by (auto simp: scanned_def less_Suc_eq split: option.splits)
  assume n: "names_at L name i"
  have "found = None"
  proof (rule ccontr)
    assume "found \<noteq> None"
    then obtain j where "j < i" "names_at L name j" using assms(1) by (auto simp: scanned_def)
    then show False using n assms(3) by (auto simp: dir_wf_def)
  qed
  moreover have "live (L ! i)" using n by (simp add: names_at_def)
  ultimately show "found = None \<and> scanned L name es0 (Suc i) (Some (sfd_ino (L ! i), int i)) es"
    using assms(1) n by (auto simp: scanned_def less_Suc_eq)
qed

lemma sfs_dir_findname_loop_wp:
  assumes s: "vol_ok s F X" "p \<in> set (tab s)" "v = vn_of s p" and d: "d = sv_ino v" "is_dir s d"
    and n: "n = length (slots s d)"
  shows "quiet s t \<Longrightarrow> i \<le> n \<Longrightarrow> scanned (slots s d) name es0 i found es \<Longrightarrow>
    wp (sfs_dir_findname_loop p name (int n) (int i) found es)
      (\<lambda>(found, es) t. quiet s t \<and> scanned (slots s d) name es0 n found es) E t"
proof (induction "n - i" arbitrary: i found es t)
  case 0
  then show ?case by (subst sfs_dir_findname_loop.simps) simp
next
  case (Suc m)
  have i: "i < n" using Suc.hyps(2) by simp
  let ?L = "slots s d"
  note vv = vol_vnode [OF s] and q = quiet_same [OF Suc.prems(1)]
  have t: "vol_ok t F X" "p \<in> set (tab t)" "v = vn_of t p" using quiet_vol [OF Suc.prems(1) s(1)] s q by simp_all
  have k: "i < MAXSLOTS" using i n slots_bound [OF s(1) vv(4)] d by simp
  have e: "dirent (file_data (disk t) (sv_i v)) i = ?L ! i"
    using i n slots_nth [of i s d] vv(9) d q by simp
  have dw: "dir_wf ?L" using d(2) by (simp add: is_dir_def)
  note sc = scanned_step [OF Suc.prems(3) i [unfolded n] dw]
  have IH: "wp (sfs_dir_findname_loop p name (int n) (int i + 1) f e)
      (\<lambda>(found, es) t. quiet s t \<and> scanned ?L name es0 n found es) E u"
    if "quiet s u" "scanned ?L name es0 (Suc i) f e" for u f e
    using Suc.hyps(1) [of "Suc i" u f e] Suc.hyps(2) that i by (simp add: add.commute)
  show ?case
    unfolding sfs_dir_findname_loop.simps [of p name "int n" "int i" found es] wp_kbind
    using i
  proof (simp cong: if_cong, intro wp_conseq [OF sfs_readdir_wp [OF t k]], goal_cases)
    case (1 x u)
    then have x: "x = ?L ! i" "quiet s u" using e quiet_trans [OF Suc.prems(1)] by simp_all
    have nm: "names_at ?L name i \<longleftrightarrow> live x \<and> cstr_of ((sfd_name x)[SFS_NAMELEN - 1 := 0]) = name"
      using i n x by (simp add: names_at_def ename_def)
    show ?case
    proof (cases "live x")
      case False
      then show ?thesis using IH [OF x(2) sc(1)] x(1) by (simp add: live_def)
    next
      case True
      then show ?thesis
        using IH [OF x(2)] sc(2,3) nm x(1) by (auto simp: live_def Let_def)
    qed
  qed simp
qed

text \<open>The name is there, or it is not; and there is an empty slot, or there is none.\<close>

lemma sfs_dir_nentries_wp:
  assumes s: "vol_ok s F X" "p \<in> set (tab s)" "v = vn_of s p" and d: "d = sv_ino v" "is_dir s d"
  shows "wp (sfs_dir_nentries p) (\<lambda>r t. r = int (length (slots s d)) \<and> t = s) E s"
  using vol_vnode(2,9) [OF s] d by (simp add: sfs_dir_nentries_def is_dir_def length_slots)

lemma sfs_dir_findname_wp:
  assumes s: "vol_ok s F X" "p \<in> set (tab s)" "v = vn_of s p" and d: "d = sv_ino v" "is_dir s d"
  shows "wp (sfs_dir_findname p name es0)
    (\<lambda>(r, es) t. quiet s t \<and> (r = Inl ENOENT \<or> (\<exists>x. r = Inr x)) \<and>
       scanned (slots s d) name es0 (length (slots s d)) (case r of Inl _ \<Rightarrow> None | Inr x \<Rightarrow> Some x) es) E s"
  unfolding sfs_dir_findname_def wp_kbind
proof (rule wp_conseq [OF sfs_dir_nentries_wp [OF s d]], goal_cases)
  case (1 r t)
  have "quiet s s" using vol_vnode(1) [OF s] by (rule quiet_refl)
  moreover have "scanned (slots s d) name es0 0 None es0" by (simp add: scanned_def)
  ultimately have "wp (sfs_dir_findname_loop p name (int (length (slots s d))) (int 0) None es0)
      (\<lambda>(found, es) t. quiet s t \<and> scanned (slots s d) name es0 (length (slots s d)) found es) E s"
    by (intro sfs_dir_findname_loop_wp [OF s d refl]) simp_all
  then have W: "wp (sfs_dir_findname_loop p name (int (length (slots s d))) 0 None es0)
      (\<lambda>(found, es) t. quiet s t \<and> scanned (slots s d) name es0 (length (slots s d)) found es) E s" by simp
  have e: "r = int (length (slots s d))" "t = s" using 1 by simp_all
  show ?case
    unfolding e by (rule wp_conseq [OF W]) (auto split: option.split)
qed simp

subsection \<open>The directory as a map\<close>

definition dmap :: "sfs_direntry list \<Rightarrow> cstr \<Rightarrow> nat option" where
  "dmap L = map_of (map (\<lambda>e. (ename e, sfd_ino e)) (filter live L))"

definition links :: "sfs_direntry list \<Rightarrow> nat \<Rightarrow> nat" where
  "links L ino = length (filter (\<lambda>e. sfd_ino e = ino) L)"

text \<open>Setting one entry, or appending one.\<close>

definition put_slot :: "nat \<Rightarrow> sfs_direntry \<Rightarrow> sfs_direntry list \<Rightarrow> sfs_direntry list" where
  "put_slot k e L = (if k < length L then L[k := e] else L @ [e])"

lemma dmap_None: "dmap L name = None \<longleftrightarrow> (\<forall>i. \<not> names_at L name i)"
  by (auto simp: dmap_def map_of_eq_None_iff names_at_def in_set_conv_nth image_iff)

lemma dmap_Some:
  assumes "dir_wf L"
  shows "dmap L name = Some ino \<longleftrightarrow> (\<exists>i. names_at L name i \<and> sfd_ino (L ! i) = ino)"
proof
  assume "dmap L name = Some ino"
  then have "(name, ino) \<in> set (map (\<lambda>e. (ename e, sfd_ino e)) (filter live L))" unfolding dmap_def by (rule map_of_SomeD)
  then show "\<exists>i. names_at L name i \<and> sfd_ino (L ! i) = ino" by (auto simp: names_at_def in_set_conv_nth)
next
  assume "\<exists>i. names_at L name i \<and> sfd_ino (L ! i) = ino"
  then obtain i where i: "names_at L name i" "sfd_ino (L ! i) = ino" by blast
  then obtain ino' where d: "dmap L name = Some ino'" using dmap_None [of L name] by (cases "dmap L name") auto
  then have "(name, ino') \<in> set (map (\<lambda>e. (ename e, sfd_ino e)) (filter live L))" unfolding dmap_def by (rule map_of_SomeD)
  then obtain j where "names_at L name j" "sfd_ino (L ! j) = ino'" by (auto simp: names_at_def in_set_conv_nth)
  then show "dmap L name = Some ino" using d i assms by (auto simp: dir_wf_def)
qed

lemma names_at_put:
  assumes "k \<le> length L"
  shows "names_at (put_slot k e L) name i \<longleftrightarrow> (if i = k then live e \<and> ename e = name else names_at L name i)"
  using assms by (auto simp: names_at_def put_slot_def nth_append nth_list_update)

lemma nth_put_slot: "k \<le> length L \<Longrightarrow> i < length (put_slot k e L) \<Longrightarrow> put_slot k e L ! i = (if i = k then e else L ! i)"
  by (auto simp: put_slot_def nth_append nth_list_update split: if_splits)

lemma dir_wf_put:
  assumes "dir_wf L" "k \<le> length L" "live e \<Longrightarrow> \<forall>i. i \<noteq> k \<longrightarrow> \<not> names_at L (ename e) i"
  shows "dir_wf (put_slot k e L)"
  unfolding dir_wf_def
proof (intro allI impI)
  fix name i j assume a: "names_at (put_slot k e L) name i" "names_at (put_slot k e L) name j"
  show "i = j"
  proof (cases "i = k \<or> j = k")
    case True
    then show ?thesis using a assms(2,3) by (auto simp: names_at_put split: if_splits)
  next
    case False
    then show ?thesis using a assms(1,2) by (auto simp: names_at_put dir_wf_def)
  qed
qed

lemma option_eqI: "(\<And>x. a = Some x \<longleftrightarrow> b = Some x) \<Longrightarrow> a = b"
  by (cases a; cases b) auto

lemma put_names:
  assumes "k \<le> length L" "names_at L name i" "i \<noteq> k"
  shows "names_at (put_slot k e L) name i \<and> put_slot k e L ! i = L ! i"
proof -
  have n: "names_at (put_slot k e L) name i" using names_at_put [OF assms(1)] assms(2,3) by simp
  then have "i < length (put_slot k e L)" by (simp add: names_at_def)
  then show ?thesis using n nth_put_slot [OF assms(1)] assms(3) by simp
qed

lemma dmap_link:
  assumes wf: "dir_wf L" and k: "k \<le> length L" "k < length L \<Longrightarrow> \<not> live (L ! k)" and e: "live e" "dmap L (ename e) = None"
  shows "dir_wf (put_slot k e L)" "dmap (put_slot k e L) = (dmap L)(ename e \<mapsto> sfd_ino e)"
proof -
  have no: "\<forall>i. \<not> names_at L (ename e) i" using e(2) by (simp add: dmap_None)
  show wf': "dir_wf (put_slot k e L)" using dir_wf_put [OF wf k(1)] no by blast
  have kn: "\<not> names_at L name k" for name using k(2) by (auto simp: names_at_def)
  have kl: "k < length (put_slot k e L)" using k(1) by (simp add: put_slot_def)
  show "dmap (put_slot k e L) = (dmap L)(ename e \<mapsto> sfd_ino e)"
  proof (rule ext, rule option_eqI)
    fix name ino
    show "dmap (put_slot k e L) name = Some ino \<longleftrightarrow> ((dmap L)(ename e \<mapsto> sfd_ino e)) name = Some ino"
    proof (cases "name = ename e")
      case True
      have "names_at (put_slot k e L) name k" using True e(1) names_at_put [OF k(1)] by simp
      then have "dmap (put_slot k e L) name = Some (sfd_ino e)"
        using dmap_Some [OF wf', of name "sfd_ino e"] nth_put_slot [OF k(1) kl] by auto
      then show ?thesis using True by simp
    next
      case False
      have "names_at (put_slot k e L) name i \<and> sfd_ino (put_slot k e L ! i) = ino \<longleftrightarrow> names_at L name i \<and> sfd_ino (L ! i) = ino" for i
        using False kn put_names [OF k(1), of name i e] names_at_put [OF k(1), of e name i] by (cases "i = k") auto
      then show ?thesis using False by (simp add: dmap_Some [OF wf'] dmap_Some [OF wf])
    qed
  qed
qed

lemma dmap_unlink:
  assumes wf: "dir_wf L" and k: "names_at L nm k" and e: "\<not> live e"
  shows "dir_wf (put_slot k e L)" "dmap (put_slot k e L) = (dmap L)(nm := None)" "put_slot k e L = L[k := e]"
proof -
  have kl: "k \<le> length L" "k < length L" using k by (simp_all add: names_at_def)
  show wf': "dir_wf (put_slot k e L)" using dir_wf_put [OF wf kl(1)] e by blast
  show "put_slot k e L = L[k := e]" using kl by (simp add: put_slot_def)
  show "dmap (put_slot k e L) = (dmap L)(nm := None)"
  proof (rule ext, rule option_eqI)
    fix name ino
    have "names_at (put_slot k e L) name i \<and> sfd_ino (put_slot k e L ! i) = ino \<longleftrightarrow>
        i \<noteq> k \<and> names_at L name i \<and> sfd_ino (L ! i) = ino" for i
      using e put_names [OF kl(1), of name i e] names_at_put [OF kl(1), of e name i] by (cases "i = k") auto
    moreover have "i \<noteq> k \<and> names_at L name i \<longleftrightarrow> name \<noteq> nm \<and> names_at L name i" for i
      using k wf by (auto simp: dir_wf_def names_at_def)
    ultimately show "dmap (put_slot k e L) name = Some ino \<longleftrightarrow> ((dmap L)(nm := None)) name = Some ino"
      by (auto simp: dmap_Some [OF wf'] dmap_Some [OF wf])
  qed
qed

lemma links_update:
  "k < length L \<Longrightarrow> links (L[k := e]) ino + of_bool (sfd_ino (L ! k) = ino) = links L ino + of_bool (sfd_ino e = ino)"
proof (induction L arbitrary: k)
  case (Cons x L)
  then show ?case by (cases k) (auto simp: links_def)
qed simp

lemma links_put:
  assumes "k \<le> length L"
  shows "links (put_slot k e L) ino + of_bool (k < length L \<and> sfd_ino (L ! k) = ino) = links L ino + of_bool (sfd_ino e = ino)"
  using links_update [of k L e ino] by (auto simp: put_slot_def links_def)

lemma links_bound: "links L ino \<le> length L"
  by (simp add: links_def)

lemma mkdirentry:
  assumes "0 \<notin> set name" "length name < SFS_NAMELEN" "ino < 2 ^ 32" "ino \<noteq> 0"
  shows "direntry_wf (sfs_mkdirentry ino name)" "live (sfs_mkdirentry ino name)" "ename (sfs_mkdirentry ino name) = name"
    "sfd_ino (sfs_mkdirentry ino name) = ino"
proof -
  show "direntry_wf (sfs_mkdirentry ino name)" "live (sfs_mkdirentry ino name)" "sfd_ino (sfs_mkdirentry ino name) = ino"
    using assms by (simp_all add: direntry_wf_def sfs_mkdirentry_def live_def SFS_NOINO_def)
  let ?n = "SFS_NAMELEN - length name"
  have "(name @ replicate ?n 0)[SFS_NAMELEN - 1 := 0] = name @ (replicate ?n 0)[?n - 1 := 0]"
    using assms(2) by (auto simp: list_update_append)
  also have "(replicate ?n (0 :: byte))[?n - 1 := 0] = replicate ?n 0"
    using assms(2) by (intro list_update_same_conv [THEN iffD2]) auto
  finally have "ename (sfs_mkdirentry ino name) = takeWhile (\<lambda>c. c \<noteq> 0) (name @ replicate ?n 0)"
    by (simp add: ename_def cstr_of_def sfs_mkdirentry_def)
  also have "\<dots> = name" using assms(1) by (subst takeWhile_append2) (auto simp: takeWhile_replicate)
  finally show "ename (sfs_mkdirentry ino name) = name" .
qed

subsection \<open>Linking and unlinking\<close>

text \<open>The directory \<open>d\<close>, whose vnode is at \<open>p\<close>, now has the entries \<open>L\<close>; no other file changed.\<close>

definition dir_step :: "nat \<Rightarrow> nat \<Rightarrow> nat set \<Rightarrow> nat set \<Rightarrow> sfs_direntry list \<Rightarrow> sfs_fs \<Rightarrow> sfs_fs \<Rightarrow> bool" where
  "dir_step p d F X L s t \<longleftrightarrow> vol_ok t F X \<and> slot_set p d L s t \<and> (\<forall>i \<in> F - {d}. keeps s t i)"

lemma quiet_dir_step:
  assumes "quiet s t" "dir_step p d F X L t u"
  shows "dir_step p d F X L s u"
proof -
  note q = quiet_same [OF assms(1)]
  have "keeps s u i" if "i \<in> F - {d}" for i
    by (rule keeps_trans [OF q(10)]) (use assms(2) that in \<open>simp add: dir_step_def\<close>)
  then show ?thesis using assms q by (simp add: dir_step_def slot_set_def quiet_def)
qed

lemma quiet_dir_same:
  assumes "quiet s t" "vol_ok s F X" "is_dir s d"
  shows "dir_step p d F X (slots s d) s t"
  using quiet_vol [OF assms(1,2)] quiet_same [OF assms(1)] quiet_slots [OF assms(1)] quiet_is_dir [OF assms(1)] assms
  by (simp add: dir_step_def slot_set_def quiet_def)

lemma sfs_dir_link_wp:
  assumes s: "vol_ok s F X" "p \<in> set (tab s)" "v = vn_of s p" and d: "d = sv_ino v" "is_dir s d"
    and nm: "0 \<notin> set name" and ino: "ino < 2 ^ 32" "ino \<noteq> 0"
  shows "wp (sfs_dir_link p name ino)
    (\<lambda>slot t. \<exists>k. slot = int k \<and> k \<le> length (slots s d) \<and> (k < length (slots s d) \<longrightarrow> \<not> live (slots s d ! k)) \<and>
       dmap (slots s d) name = None \<and> length name < SFS_NAMELEN \<and>
       dir_step p d F X (put_slot k (sfs_mkdirentry ino name) (slots s d)) s t)
    (\<lambda>e t. (e = EEXIST \<and> dmap (slots s d) name \<noteq> None \<or>
          dmap (slots s d) name = None \<and> (e = ENAMETOOLONG \<and> SFS_NAMELEN \<le> length name \<or>
            (e = ENOSPC \<or> e = EFBIG) \<and> length name < SFS_NAMELEN)) \<and>
       dir_step p d F X (slots s d) s t) s"
    (is "wp _ ?Q ?E s")
proof -
  let ?L = "slots s d"
  have wf: "dir_wf ?L" using d(2) by (simp add: is_dir_def)
  have wrt: "wp (kthen (sfs_writedir p (int k) (sfs_mkdirentry ino name)) (kret (int k))) ?Q ?E t"
    if t: "quiet s t" and k: "k \<le> length ?L" "k < length ?L \<Longrightarrow> \<not> live (?L ! k)"
      and no: "dmap ?L name = None" "length name < SFS_NAMELEN" for t k
  proof -
    note q = quiet_same [OF t] and qs = quiet_slots [OF t]
    note mk = mkdirentry [OF nm no(2) ino]
    have t': "vol_ok t F X" "p \<in> set (tab t)" "v = vn_of t p" "is_dir t d"
      using quiet_vol [OF t s(1)] s d q quiet_is_dir [OF t] by simp_all
    have w: "dir_wf (put_slot k (sfs_mkdirentry ino name) ?L)"
      by (rule dmap_link(1) [OF wf k mk(2)]) (simp_all add: no mk(3))
    note wr = sfs_writedir_wp [OF t'(1-3) d(1) t'(4), unfolded qs, OF k(1) mk(1) put_slot_def [of k _ ?L], OF w]
    have "wp (sfs_writedir p (int k) (sfs_mkdirentry ino name)) (\<lambda>_. ?Q (int k)) ?E t"
    proof (rule wp_conseq [OF wr], goal_cases)
      case (1 x u)
      then have "dir_step p d F X (put_slot k (sfs_mkdirentry ino name) ?L) s u"
        by (intro quiet_dir_step [OF t]) (simp add: dir_step_def)
      then show ?case using k no by auto
    next
      case (2 e u)
      then have "dir_step p d F X ?L s u" by (intro quiet_dir_step [OF t]) (simp add: dir_step_def)
      then show ?case using 2 no by auto
    qed
    then show ?thesis by simp
  qed
  have nent: "wp (sfs_dir_nentries p) (\<lambda>es. wp (kthen (sfs_writedir p es (sfs_mkdirentry ino name)) (kret es)) ?Q ?E) ?E t"
    if t: "quiet s t" and no: "dmap ?L name = None" "length name < SFS_NAMELEN" for t
  proof -
    note q = quiet_same [OF t] and qs = quiet_slots [OF t]
    have t': "vol_ok t F X" "p \<in> set (tab t)" "v = vn_of t p" "is_dir t d"
      using quiet_vol [OF t s(1)] s d q quiet_is_dir [OF t] by simp_all
    show ?thesis
      by (rule wp_conseq [OF sfs_dir_nentries_wp [OF t'(1-3) d(1) t'(4)]])
        (use wrt [OF t _ _ no, of "length ?L"] qs in auto)
  qed
  show ?thesis
    unfolding sfs_dir_link_def wp_kbind
  proof (rule wp_conseq [OF sfs_dir_findname_wp [OF s d]], goal_cases)
    case (1 x t)
    obtain r es where x: "x = (r, es)" by (cases x)
    have f: "quiet s t" "r = Inl ENOENT \<or> (\<exists>y. r = Inr y)"
      "scanned ?L name (-1) (length ?L) (case r of Inl _ \<Rightarrow> None | Inr x \<Rightarrow> Some x) es" using 1 x by simp_all
    have same: "dir_step p d F X ?L s t" by (rule quiet_dir_same [OF f(1) s(1) d(2)])
    show ?case
    proof (cases "r = Inl ENOENT")
      case False
      then obtain y where y: "r = Inr y" using f(2) by blast
      then have "dmap ?L name \<noteq> None" using f(3) by (auto simp: scanned_def dmap_None split: prod.splits)
      then show ?thesis using y x same by simp
    next
      case True
      then have no: "dmap ?L name = None" using f(3) by (auto simp: scanned_def dmap_None names_at_def)
      show ?thesis
      proof (cases "length name < SFS_NAMELEN")
        case False
        then show ?thesis using True x no same by simp
      next
        case len: True
        have "es < 0 \<or> (\<exists>j < length ?L. es = int j \<and> \<not> live (?L ! j))" using f(3) by (auto simp: scanned_def)
        then show ?thesis
        proof (elim disjE exE conjE)
          assume "es < 0"
          then show ?thesis using True x len nent [OF f(1) no len] by simp
        next
          fix j assume "j < length ?L" "es = int j" "\<not> live (?L ! j)"
          then show ?thesis using True x len wrt [OF f(1) _ _ no len, of j] by simp
        qed
      qed
    qed
  qed simp
qed

lemma sfs_dir_unlink_wp:
  assumes s: "vol_ok s F X" "p \<in> set (tab s)" "v = vn_of s p" and d: "d = sv_ino v" "is_dir s d"
    and k: "names_at (slots s d) name k"
  shows "wp (sfs_dir_unlink p (int k))
    (\<lambda>_ t. dir_step p d F X (put_slot k \<lparr>sfd_ino = SFS_NOINO, sfd_name = replicate SFS_NAMELEN 0\<rparr> (slots s d)) s t) E s"
proof -
  let ?e = "\<lparr>sfd_ino = SFS_NOINO, sfd_name = replicate SFS_NAMELEN 0\<rparr>"
  have wf: "dir_wf (slots s d)" using d(2) by (simp add: is_dir_def)
  have e: "direntry_wf ?e" "\<not> live ?e" by (simp_all add: direntry_wf_def live_def SFS_NOINO_def)
  have kl: "k \<le> length (slots s d)" "k < length (slots s d)" "live (slots s d ! k)" using k by (simp_all add: names_at_def)
  show ?thesis
    unfolding sfs_dir_unlink_def
    by (rule wp_conseq [OF sfs_writedir_wp [OF s d kl(1) e(1) put_slot_def dmap_unlink(1) [OF wf k e(2)]]])
      (use kl in \<open>auto simp: dir_step_def\<close>)
qed

text \<open>Looking up a name loads its inode.\<close>

lemma sfs_lookonce_wp:
  assumes s: "vol_ok s F X" "p \<in> set (tab s)" "v = vn_of s p" and d: "d = sv_ino v" "is_dir s d"
    and inos: "\<And>ino. dmap (slots s d) name = Some ino \<Longrightarrow> ino \<in> F \<and> sfi_linkcount (inode_at s ino) > 0"
  shows "wp (sfs_lookonce p name)
    (\<lambda>(r, slot) t. \<exists>ino k. dmap (slots s d) name = Some ino \<and> slot = int k \<and> names_at (slots s d) name k \<and>
       sfd_ino (slots s d ! k) = ino \<and> vol_ok t F X \<and> got r ino s t)
    (\<lambda>e t. (e = ENOENT \<and> dmap (slots s d) name = None \<or> e = ENOMEM \<and> dmap (slots s d) name \<noteq> None) \<and> quiet s t) s"
    (is "wp _ ?Q ?E s")
proof -
  let ?L = "slots s d"
  have wf: "dir_wf ?L" using d(2) by (simp add: is_dir_def)
  show ?thesis
    unfolding sfs_lookonce_def wp_kbind
  proof (rule wp_conseq [OF sfs_dir_findname_wp [OF s d]], goal_cases)
    case (1 x t)
    obtain r es where x: "x = (r, es)" by (cases x)
    have f: "quiet s t" "r = Inl ENOENT \<or> (\<exists>y. r = Inr y)"
      "scanned ?L name (-1) (length ?L) (case r of Inl _ \<Rightarrow> None | Inr x \<Rightarrow> Some x) es" using 1 x by simp_all
    show ?case
    proof (cases "r = Inl ENOENT")
      case True
      then have "dmap ?L name = None" using f(3) by (auto simp: scanned_def dmap_None names_at_def)
      then show ?thesis using True x f(1) by simp
    next
      case False
      then obtain ino k where r: "r = Inr (ino, int k)" "names_at ?L name k" "ino = sfd_ino (?L ! k)"
        using f(2,3) by (fastforce simp: scanned_def)
      have m: "dmap ?L name = Some ino" using r dmap_Some [OF wf, of name ino] by blast
      note io = inos [OF m]
      have t: "vol_ok t F X" by (rule quiet_vol [OF f(1) s(1)])
      have "wp (sfs_loadvnode ino SFS_TYPE_INVAL)
          (\<lambda>ret. wp (kbind (sv_get ret (\<lambda>v. sfi_linkcount (sv_i v))) (\<lambda>linkcount.
             if linkcount = 0 then kpanic else kret (ret, int k))) ?Q ?E) ?E t"
      proof (rule wp_conseq [OF sfs_loadvnode_wp [OF t]], goal_cases)
        case 1
        then show ?case using io by simp
      next
        case (2 q u)
        then have u: "vol_ok u F X" "got q ino t u" by simp_all
        have q: "q \<in> set (tab u)" "sv_ino (vn_of u q) = ino" using u(2) by (simp_all add: got_def ino_of_def)
        note vq = vol_vnode [OF u(1) q(1) refl]
        have "sv_i (vn_of u q) = inode_at s ino" using vq(9) q(2) u(2) quiet_same(5) [OF f(1)] by (simp add: got_def)
        moreover have "got q ino s u" by (rule got_quiet [OF f(1) u(2)])
        ultimately show ?case using vq(2) io u(1) m r by auto
      next
        case (3 e u)
        then show ?case using quiet_trans [OF f(1)] m by simp
      qed
      then show ?thesis using x r(1) by simp
    qed
  qed simp
qed

end
