(* ===== verification/Sfs_Fsops.thy ===== *)
theory Sfs_Fsops
  imports Sfs_Dir
begin

text \<open>
  Filesystem operations, \<open>kern/fs/sfs/sfs_fsops.c\<close>: writing everything back, mounting and
  unmounting.
\<close>

subsection \<open>Model\<close>

text \<open>The loop of \<open>sfs_freemapio\<close> over the blocks of the map.\<close>

function sfs_freemapio_loop :: "uio_rw \<Rightarrow> nat \<Rightarrow> nat \<Rightarrow> (sfs_fs, unit) kfun" where
  "sfs_freemapio_loop rw freemapblocks j =
     (if j < freemapblocks then
        kbind (kget (\<lambda>s. take SFS_BLOCKSIZE (drop (j * SFS_BLOCKSIZE) (bitmap_getdata (sfs_freemap s))))) (\<lambda>ptr.
        kthen (if rw = UIO_READ then
                 kbind (sfs_readblock (SFS_FREEMAP_START + j) ptr) (\<lambda>buf.
                   kmod (\<lambda>s. s\<lparr>sfs_freemap := (sfs_freemap s)\<lparr>bm_v := splice_at (j * SFS_BLOCKSIZE) buf (bm_v (sfs_freemap s))\<rparr>\<rparr>))
               else sfs_writeblock (SFS_FREEMAP_START + j) ptr)
          (sfs_freemapio_loop rw freemapblocks (Suc j)))
      else kret ())"
  by pat_completeness auto
termination
  by (relation "measure (\<lambda>(rw, freemapblocks, j). freemapblocks - j)") auto

definition sfs_freemapio :: "uio_rw \<Rightarrow> (sfs_fs, unit) kfun" where
  "sfs_freemapio rw =
     kbind (kget (\<lambda>s. SFS_FREEMAPBLOCKS (sb_nblocks (sfs_sb s)))) (\<lambda>freemapblocks.
       sfs_freemapio_loop rw freemapblocks 0)"

text \<open>\<open>sfs_fsync\<close> of \<open>sfs_vnops.c\<close>, and \<open>VOP_FSYNC\<close>: both operations tables have it.\<close>

definition sfs_fsync :: "nat \<Rightarrow> (sfs_fs, unit) kfun" where
  "sfs_fsync v =
     kthen biglock_acquire
     (kbind (ktry (sfs_sync_inode v)) (\<lambda>result.
      kthen biglock_release (case result of Inl e \<Rightarrow> kfail e | Inr _ \<Rightarrow> kret ())))"

definition VOP_FSYNC :: "nat \<Rightarrow> (sfs_fs, unit) kfun" where
  "VOP_FSYNC v = kthen (on_vn v vnode_check) (sfs_fsync v)"

text \<open>The result of \<open>VOP_FSYNC\<close> is dropped.\<close>

function sfs_sync_vnodes_loop :: "nat \<Rightarrow> nat \<Rightarrow> (sfs_fs, unit) kfun" where
  "sfs_sync_vnodes_loop num i =
     (if i < num then
        kbind (vnodearray_get i) (\<lambda>v. kthen (ktry (VOP_FSYNC v)) (sfs_sync_vnodes_loop num (Suc i)))
      else kret ())"
  by pat_completeness auto
termination
  by (relation "measure (\<lambda>(num, i). num - i)") auto

definition sfs_sync_vnodes :: "(sfs_fs, unit) kfun" where
  "sfs_sync_vnodes =
     kbind (kget (\<lambda>s. unat (array_num (sfs_vnodes s)))) (\<lambda>num. sfs_sync_vnodes_loop num 0)"

definition sfs_sync_freemap :: "(sfs_fs, unit) kfun" where
  "sfs_sync_freemap =
     kbind (kget sfs_freemapdirty) (\<lambda>dirty.
       if dirty then kthen (sfs_freemapio UIO_WRITE) (kmod (\<lambda>s. s\<lparr>sfs_freemapdirty := False\<rparr>))
       else kret ())"

definition sfs_sync_superblock :: "(sfs_fs, unit) kfun" where
  "sfs_sync_superblock =
     kbind (kget sfs_superdirty) (\<lambda>dirty.
       if dirty then
         kbind (kget (\<lambda>s. superblock_to_block (sfs_sb s))) (\<lambda>sb.
         kthen (sfs_writeblock SFS_SUPER_BLOCK sb) (kmod (\<lambda>s. s\<lparr>sfs_superdirty := False\<rparr>)))
       else kret ())"

definition sfs_sync :: "(sfs_fs, unit) kfun" where
  "sfs_sync =
     kthen biglock_acquire
     (kbind (ktry (kthen sfs_sync_vnodes (kthen sfs_sync_freemap sfs_sync_superblock))) (\<lambda>result.
        kthen biglock_release (case result of Inl e \<Rightarrow> kfail e | Inr _ \<Rightarrow> kret ())))"

definition sfs_getvolname :: "(sfs_fs, byte list) kfun" where
  "sfs_getvolname =
     kthen biglock_acquire
     (kbind (kget (\<lambda>s. sb_volname (sfs_sb s))) (\<lambda>ret. kthen biglock_release (kret ret)))"

text \<open>What is left of the structure after \<open>kfree\<close> has no meaning.\<close>

definition sfs_fs_destroy :: "(sfs_fs, unit) kfun" where
  "sfs_fs_destroy =
     kthen (on_vnodes array_destroy) (kassert (\<lambda>s. \<not> sfs_device s))"

definition sfs_unmount :: "(sfs_fs, unit) kfun" where
  "sfs_unmount =
     kthen biglock_acquire
     (kbind (kget (\<lambda>s. array_num (sfs_vnodes s))) (\<lambda>num.
        if num > 0 then kthen biglock_release (kfail EBUSY)
        else
          kthen (kassert (\<lambda>s. \<not> sfs_superdirty s))
          (kthen (kassert (\<lambda>s. \<not> sfs_freemapdirty s))
          (kthen (kmod (\<lambda>s. s\<lparr>sfs_device := False\<rparr>))
          (kthen sfs_fs_destroy biglock_release)))))"

text \<open>
  \<open>sfs_fs_create\<close>: the fields of the new structure before the volume is read. The null
  pointer to the map is the map of no bits. Two allocations, of the structure and of its
  vnode table.
\<close>

definition sfs_fs_create :: "(sfs_fs, bool) kfun" where
  "sfs_fs_create =
     kbind kmalloc_next (\<lambda>ok.
       if \<not> ok then kret False
       else
         kthen (kmod (\<lambda>s. s\<lparr>sfs_superdirty := False, sfs_device := False\<rparr>))
         (kbind kmalloc_next (\<lambda>ok.
          case array_create (\<lambda>_. ok) of
            None \<Rightarrow> kret False
          | Some a \<Rightarrow>
              kthen (kmod (\<lambda>s. s\<lparr>sfs_vnodes := a, sfs_freemap := \<lparr>bm_nbits = 0, bm_v = []\<rparr>,
                                sfs_freemapdirty := False\<rparr>))
                (kret True))))"

text \<open>The part of \<open>sfs_domount\<close> with the device set: read the superblock and the map.\<close>

definition sfs_domount_read :: "(sfs_fs, unit) kfun" where
  "sfs_domount_read =
     kbind (sfs_readblock SFS_SUPER_BLOCK iobuf) (\<lambda>buf.
     kthen (kmod (\<lambda>s. s\<lparr>sfs_sb := block_to_superblock buf\<rparr>))
     (kbind (kget sfs_sb) (\<lambda>sb.
        if sb_magic sb \<noteq> SFS_MAGIC then kfail EINVAL
        else
          kthen (kmod (\<lambda>s. s\<lparr>sfs_sb := (sfs_sb s)\<lparr>sb_volname := (sb_volname (sfs_sb s))[31 := 0]\<rparr>\<rparr>))
          (kbind kmalloc_next (\<lambda>ok.
           kbind kmalloc_next (\<lambda>ok'.
             case bitmap_create (\<lambda>n. if n = 8 then ok else ok') (SFS_FREEMAPBITS (sb_nblocks sb)) of
               Ok (Some m) \<Rightarrow>
                 kthen (kmod (\<lambda>s. s\<lparr>sfs_freemap := m\<rparr>)) (sfs_freemapio UIO_READ)
             | Ok None \<Rightarrow> kfail ENOMEM
             | _ \<Rightarrow> kpanic))))))"

definition sfs_domount :: "nat \<Rightarrow> (sfs_fs, unit) kfun" where
  "sfs_domount d_blocksize =
     kthen biglock_acquire
     (if d_blocksize \<noteq> SFS_BLOCKSIZE then kthen biglock_release (kfail ENXIO)
      else
        kbind sfs_fs_create (\<lambda>created.
          if \<not> created then kthen biglock_release (kfail ENOMEM)
          else
            kthen (kmod (\<lambda>s. s\<lparr>sfs_device := True\<rparr>))
            (kbind (ktry sfs_domount_read) (\<lambda>result.
               case result of
                 Inl e \<Rightarrow>
                   kthen (kmod (\<lambda>s. s\<lparr>sfs_device := False\<rparr>))
                   (kthen sfs_fs_destroy (kthen biglock_release (kfail e)))
               | Inr _ \<Rightarrow> biglock_release))))"

declare sfs_freemapio_loop.simps [simp del] sfs_sync_vnodes_loop.simps [simp del]

end
