(* ===== verification/Vfs_Fail.thy ===== *)
theory Vfs_Fail
  imports Os161_Prelude
begin

text \<open>
  \<open>kern/vfs/vfsfail.c\<close>: the vnode operations that only fail, for the slots of an operations
  table that make no sense for the kind of object.
\<close>

definition vopfail_uio_notdir :: "('s, 'a) kfun" where
  "vopfail_uio_notdir = kfail ENOTDIR"

definition vopfail_uio_isdir :: "('s, 'a) kfun" where
  "vopfail_uio_isdir = kfail EISDIR"

definition vopfail_uio_inval :: "('s, 'a) kfun" where
  "vopfail_uio_inval = kfail EINVAL"

definition vopfail_uio_nosys :: "('s, 'a) kfun" where
  "vopfail_uio_nosys = kfail ENOSYS"

definition vopfail_mmap_isdir :: "('s, 'a) kfun" where
  "vopfail_mmap_isdir = kfail EISDIR"

definition vopfail_mmap_perm :: "('s, 'a) kfun" where
  "vopfail_mmap_perm = kfail EPERM"

definition vopfail_mmap_nosys :: "('s, 'a) kfun" where
  "vopfail_mmap_nosys = kfail ENOSYS"

definition vopfail_truncate_isdir :: "('s, 'a) kfun" where
  "vopfail_truncate_isdir = kfail EISDIR"

definition vopfail_creat_notdir :: "('s, 'a) kfun" where
  "vopfail_creat_notdir = kfail ENOTDIR"

definition vopfail_symlink_notdir :: "('s, 'a) kfun" where
  "vopfail_symlink_notdir = kfail ENOTDIR"

definition vopfail_symlink_nosys :: "('s, 'a) kfun" where
  "vopfail_symlink_nosys = kfail ENOSYS"

definition vopfail_mkdir_notdir :: "('s, 'a) kfun" where
  "vopfail_mkdir_notdir = kfail ENOTDIR"

definition vopfail_mkdir_nosys :: "('s, 'a) kfun" where
  "vopfail_mkdir_nosys = kfail ENOSYS"

definition vopfail_link_notdir :: "('s, 'a) kfun" where
  "vopfail_link_notdir = kfail ENOTDIR"

definition vopfail_link_nosys :: "('s, 'a) kfun" where
  "vopfail_link_nosys = kfail ENOSYS"

definition vopfail_string_notdir :: "('s, 'a) kfun" where
  "vopfail_string_notdir = kfail ENOTDIR"

definition vopfail_string_nosys :: "('s, 'a) kfun" where
  "vopfail_string_nosys = kfail ENOSYS"

definition vopfail_rename_notdir :: "('s, 'a) kfun" where
  "vopfail_rename_notdir = kfail ENOTDIR"

definition vopfail_rename_nosys :: "('s, 'a) kfun" where
  "vopfail_rename_nosys = kfail ENOSYS"

definition vopfail_lookup_notdir :: "('s, 'a) kfun" where
  "vopfail_lookup_notdir = kfail ENOTDIR"

definition vopfail_lookparent_notdir :: "('s, 'a) kfun" where
  "vopfail_lookparent_notdir = kfail ENOTDIR"

lemmas vopfail_defs = vopfail_uio_notdir_def vopfail_uio_isdir_def vopfail_uio_inval_def
  vopfail_uio_nosys_def vopfail_mmap_isdir_def vopfail_mmap_perm_def vopfail_mmap_nosys_def
  vopfail_truncate_isdir_def vopfail_creat_notdir_def vopfail_symlink_notdir_def
  vopfail_symlink_nosys_def vopfail_mkdir_notdir_def vopfail_mkdir_nosys_def
  vopfail_link_notdir_def vopfail_link_nosys_def vopfail_string_notdir_def
  vopfail_string_nosys_def vopfail_rename_notdir_def vopfail_rename_nosys_def
  vopfail_lookup_notdir_def vopfail_lookparent_notdir_def

end
