(* ===== verification/Sfs_Vnops.thy ===== *)
theory Sfs_Vnops
  imports Sfs_Fsops Vfs_Fail
begin

text \<open>
  The vnode operations of SFS and its two operations tables, \<open>kern/fs/sfs/sfs_vnops.c\<close>. Each
  operation takes the big lock around its work and gives it back on every path.
\<close>

subsection \<open>Model\<close>

definition O_RDONLY :: nat where "O_RDONLY = 0"
definition O_APPEND :: nat where "O_APPEND = 32"
definition O_ACCMODE :: nat where "O_ACCMODE = 3"
definition S_IFREG :: nat where "S_IFREG = 4096"
definition S_IFDIR :: nat where "S_IFDIR = 8192"

text \<open>The end of an operation: give the big lock back and return the code.\<close>

definition unlock_return :: "errno + 'a \<Rightarrow> (sfs_fs, 'a) kfun" where
  "unlock_return result = kthen biglock_release (case result of Inl e \<Rightarrow> kfail e | Inr x \<Rightarrow> kret x)"

definition sfs_eachopen :: "nat \<Rightarrow> (sfs_fs, unit) kfun" where
  "sfs_eachopen openflags = kret ()"

definition sfs_eachopendir :: "nat \<Rightarrow> (sfs_fs, unit) kfun" where
  "sfs_eachopendir openflags =
     (if openflags AND O_ACCMODE \<noteq> O_RDONLY then kfail EISDIR
      else if openflags AND O_APPEND \<noteq> 0 then kfail EISDIR
      else kret ())"

definition sfs_read :: "nat \<Rightarrow> (sfs_fs \<times> uenv, unit) kfun" where
  "sfs_read v =
     kthen (kassert (\<lambda>(s, u). uio_rw u = UIO_READ))
     (kthen (on_fs biglock_acquire)
     (kbind (ktry (sfs_io v)) (\<lambda>result. on_fs (unlock_return result))))"

definition sfs_write :: "nat \<Rightarrow> (sfs_fs \<times> uenv, unit) kfun" where
  "sfs_write v =
     kthen (kassert (\<lambda>(s, u). uio_rw u = UIO_WRITE))
     (kthen (on_fs biglock_acquire)
     (kbind (ktry (sfs_io v)) (\<lambda>result. on_fs (unlock_return result))))"

definition sfs_ioctl :: "(sfs_fs, unit) kfun" where
  "sfs_ioctl = kfail EINVAL"

definition sfs_gettype :: "nat \<Rightarrow> (sfs_fs, nat) kfun" where
  "sfs_gettype v =
     kthen biglock_acquire
     (kbind (sv_get v (\<lambda>v. sfi_type (sv_i v))) (\<lambda>type.
        if type = SFS_TYPE_FILE then kthen biglock_release (kret S_IFREG)
        else if type = SFS_TYPE_DIR then kthen biglock_release (kret S_IFDIR)
        else kpanic))"

text \<open>The fields of \<open>struct stat\<close> that are set; the others are zero.\<close>

record sfs_statbuf =
  st_size :: nat
  st_mode :: nat
  st_nlink :: nat
  st_blocks :: nat

definition sfs_stat :: "nat \<Rightarrow> (sfs_fs, sfs_statbuf) kfun" where
  "sfs_stat v =
     kthen (on_vn v vnode_check)
     (kbind (sfs_gettype v) (\<lambda>mode.
      kbind (sv_get v sv_i) (\<lambda>i.
        kret \<lparr>st_size = sfi_size i, st_mode = mode, st_nlink = sfi_linkcount i, st_blocks = 0\<rparr>)))"

definition sfs_isseekable :: bool where
  "sfs_isseekable = True"

definition sfs_mmap :: "(sfs_fs, unit) kfun" where
  "sfs_mmap = kfail ENOSYS"

definition sfs_truncate :: "nat \<Rightarrow> int \<Rightarrow> (sfs_fs, unit) kfun" where
  "sfs_truncate v len = sfs_itrunc v len"

definition sfs_namefile :: "nat \<Rightarrow> (sfs_fs, unit) kfun" where
  "sfs_namefile vv =
     kbind (sv_get vv sv_ino) (\<lambda>ino. kassert (\<lambda>_. ino = SFS_ROOTDIR_INO))"

text \<open>\<open>sfi_linkcount\<close> is a 16-bit field.\<close>

definition linkcount_inc :: "nat \<Rightarrow> (sfs_fs, unit) kfun" where
  "linkcount_inc f =
     sv_mod f (\<lambda>v. v\<lparr>sv_i := (sv_i v)\<lparr>sfi_linkcount := (sfi_linkcount (sv_i v) + 1) mod 2 ^ 16\<rparr>, sv_dirty := True\<rparr>)"

definition linkcount_dec :: "nat \<Rightarrow> (sfs_fs, unit) kfun" where
  "linkcount_dec f =
     kbind (sv_get f (\<lambda>v. sfi_linkcount (sv_i v))) (\<lambda>n.
     kthen (kassert (\<lambda>_. n > 0))
       (sv_mod f (\<lambda>v. v\<lparr>sv_i := (sv_i v)\<lparr>sfi_linkcount := sfi_linkcount (sv_i v) - 1\<rparr>, sv_dirty := True\<rparr>)))"

text \<open>The body of \<open>sfs_creat\<close>, under the big lock.\<close>

definition sfs_creat_body :: "nat \<Rightarrow> cstr \<Rightarrow> bool \<Rightarrow> (sfs_fs, nat) kfun" where
  "sfs_creat_body sv name excl =
     kbind (sfs_dir_findname sv name (-1)) (\<lambda>(result, _).
       case result of
         Inr (ino, _) \<Rightarrow>
           if excl then kfail EEXIST else sfs_loadvnode ino SFS_TYPE_INVAL
       | Inl _ \<Rightarrow>
           kbind (sfs_makeobj SFS_TYPE_FILE) (\<lambda>newguy.
           kbind (sv_get newguy sv_ino) (\<lambda>ino.
           kbind (ktry (sfs_dir_link sv name ino)) (\<lambda>result.
             case result of
               Inl e \<Rightarrow> kthen (sfs_decref newguy) (kfail e)
             | Inr _ \<Rightarrow> kthen (linkcount_inc newguy) (kret newguy)))))"

definition sfs_creat :: "nat \<Rightarrow> cstr \<Rightarrow> bool \<Rightarrow> (sfs_fs, nat) kfun" where
  "sfs_creat v name excl =
     kthen biglock_acquire (kbind (ktry (sfs_creat_body v name excl)) unlock_return)"

definition sfs_link :: "nat \<Rightarrow> cstr \<Rightarrow> nat \<Rightarrow> (sfs_fs, unit) kfun" where
  "sfs_link dir name file =
     kbind (sv_get file vn_fs) (\<lambda>ffs.
     kbind (sv_get dir vn_fs) (\<lambda>dfs.
     kthen (kassert (\<lambda>_. ffs = dfs))
     (kthen biglock_acquire
     (kbind (ktry
        (kbind (sv_get file (\<lambda>f. sfi_type (sv_i f))) (\<lambda>type.
           if type = SFS_TYPE_DIR then kfail EINVAL
           else
             kbind (sv_get file sv_ino) (\<lambda>ino.
             kthen (sfs_dir_link dir name ino) (linkcount_inc file))))) unlock_return))))"

definition sfs_remove :: "nat \<Rightarrow> cstr \<Rightarrow> (sfs_fs, unit) kfun" where
  "sfs_remove dir name =
     kthen biglock_acquire
     (kbind (ktry
        (kbind (sfs_lookonce dir name) (\<lambda>(victim, slot).
         kbind (ktry (sfs_dir_unlink dir slot)) (\<lambda>result.
         kthen (case result of Inr _ \<Rightarrow> linkcount_dec victim | Inl _ \<Rightarrow> kret ())
         (kthen (sfs_decref victim)
           (case result of Inr _ \<Rightarrow> kret () | Inl e \<Rightarrow> kfail e)))))) unlock_return)"

text \<open>
  \<open>sfs_rename\<close> behind the lookup of the old name: the labels \<open>puke_harder\<close> and \<open>puke\<close> are the
  two error branches. At \<open>puke_harder\<close> the link count is decremented without a check.
\<close>

definition sfs_rename_linked :: "nat \<Rightarrow> cstr \<Rightarrow> nat \<Rightarrow> int \<Rightarrow> (sfs_fs, unit) kfun" where
  "sfs_rename_linked sv n2 g1 slot1 =
     kbind (sv_get g1 sv_ino) (\<lambda>ino.
     kbind (sfs_dir_link sv n2 ino) (\<lambda>slot2.
     kthen (linkcount_inc g1)
     (kbind (ktry (sfs_dir_unlink sv slot1)) (\<lambda>result.
        case result of
          Inr _ \<Rightarrow> linkcount_dec g1
        | Inl e \<Rightarrow>
            kbind (ktry (sfs_dir_unlink sv slot2)) (\<lambda>result2.
              case result2 of
                Inl _ \<Rightarrow> kpanic
              | Inr _ \<Rightarrow>
                  kthen (sv_mod g1 (\<lambda>v. v\<lparr>sv_i := (sv_i v)\<lparr>sfi_linkcount :=
                     (sfi_linkcount (sv_i v) + 2 ^ 16 - 1) mod 2 ^ 16\<rparr>\<rparr>)) (kfail e))))))"

definition sfs_rename :: "nat \<Rightarrow> cstr \<Rightarrow> nat \<Rightarrow> cstr \<Rightarrow> (sfs_fs, unit) kfun" where
  "sfs_rename d1 n1 d2 n2 =
     kthen biglock_acquire
     (kthen (kassert (\<lambda>_. d1 = d2))
     (kbind (sv_get d1 sv_ino) (\<lambda>ino.
      kthen (kassert (\<lambda>_. ino = SFS_ROOTDIR_INO))
      (kbind (ktry
         (kbind (sfs_lookonce d1 n1) (\<lambda>(g1, slot1).
          kbind (sv_get g1 (\<lambda>v. sfi_type (sv_i v))) (\<lambda>type.
          kthen (kassert (\<lambda>_. type = SFS_TYPE_FILE))
          (kbind (ktry (sfs_rename_linked d1 n2 g1 slot1)) (\<lambda>result.
           kthen (sfs_decref g1)
             (case result of Inr _ \<Rightarrow> kret () | Inl e \<Rightarrow> kfail e))))))) unlock_return))))"

text \<open>The directory is handed back, and the path is copied into the buffer of \<open>buflen\<close> bytes.\<close>

definition sfs_lookparent :: "nat \<Rightarrow> cstr \<Rightarrow> nat \<Rightarrow> (sfs_fs, nat \<times> cstr) kfun" where
  "sfs_lookparent v path buflen =
     kthen biglock_acquire
     (kbind (sv_get v (\<lambda>v. sfi_type (sv_i v))) (\<lambda>type.
        if type \<noteq> SFS_TYPE_DIR then kthen biglock_release (kfail ENOTDIR)
        else if length path + 1 > buflen then kthen biglock_release (kfail ENAMETOOLONG)
        else kthen (on_vn v vnode_incref) (kthen biglock_release (kret (v, path)))))"

definition sfs_lookup :: "nat \<Rightarrow> cstr \<Rightarrow> (sfs_fs, nat) kfun" where
  "sfs_lookup v path =
     kthen biglock_acquire
     (kbind (sv_get v (\<lambda>v. sfi_type (sv_i v))) (\<lambda>type.
        if type \<noteq> SFS_TYPE_DIR then kthen biglock_release (kfail ENOTDIR)
        else
          kbind (ktry (kbind (sfs_lookonce v path) (\<lambda>(final, _). kret final))) unlock_return))"

subsection \<open>Operations tables\<close>

text \<open>
  The calls through the tables \<open>sfs_fileops\<close> and \<open>sfs_dirops\<close>: \<open>vnode_check\<close>, then the
  function in the slot.
\<close>

definition vop :: "nat \<Rightarrow> (sfs_fs, 'a) kfun \<Rightarrow> (sfs_fs, 'a) kfun \<Rightarrow> (sfs_fs, 'a) kfun" where
  "vop v file_op dir_op =
     kthen (on_vn v vnode_check)
     (kbind (sv_get v vn_ops) (\<lambda>ops.
        case ops of
          Some Sfs_fileops \<Rightarrow> file_op
        | Some Sfs_dirops \<Rightarrow> dir_op
        | _ \<Rightarrow> kpanic))"

definition vop_uio :: "nat \<Rightarrow> (sfs_fs \<times> uenv, unit) kfun \<Rightarrow> (sfs_fs \<times> uenv, unit) kfun \<Rightarrow> (sfs_fs \<times> uenv, unit) kfun" where
  "vop_uio v file_op dir_op =
     kthen (on_fs (on_vn v vnode_check))
     (kbind (on_fs (sv_get v vn_ops)) (\<lambda>ops.
        case ops of
          Some Sfs_fileops \<Rightarrow> file_op
        | Some Sfs_dirops \<Rightarrow> dir_op
        | _ \<Rightarrow> kpanic))"

definition VOP_EACHOPEN :: "nat \<Rightarrow> nat \<Rightarrow> (sfs_fs, unit) kfun" where
  "VOP_EACHOPEN v flags = vop v (sfs_eachopen flags) (sfs_eachopendir flags)"

definition VOP_READ :: "nat \<Rightarrow> (sfs_fs \<times> uenv, unit) kfun" where
  "VOP_READ v = vop_uio v (sfs_read v) vopfail_uio_isdir"

definition VOP_READLINK :: "nat \<Rightarrow> (sfs_fs \<times> uenv, unit) kfun" where
  "VOP_READLINK v = vop_uio v vopfail_uio_notdir vopfail_uio_inval"

definition VOP_GETDIRENTRY :: "nat \<Rightarrow> (sfs_fs \<times> uenv, unit) kfun" where
  "VOP_GETDIRENTRY v = vop_uio v vopfail_uio_notdir vopfail_uio_nosys"

definition VOP_WRITE :: "nat \<Rightarrow> (sfs_fs \<times> uenv, unit) kfun" where
  "VOP_WRITE v = vop_uio v (sfs_write v) vopfail_uio_isdir"

definition VOP_IOCTL :: "nat \<Rightarrow> (sfs_fs, unit) kfun" where
  "VOP_IOCTL v = vop v sfs_ioctl sfs_ioctl"

definition VOP_STAT :: "nat \<Rightarrow> (sfs_fs, sfs_statbuf) kfun" where
  "VOP_STAT v = vop v (sfs_stat v) (sfs_stat v)"

definition VOP_GETTYPE :: "nat \<Rightarrow> (sfs_fs, nat) kfun" where
  "VOP_GETTYPE v = vop v (sfs_gettype v) (sfs_gettype v)"

definition VOP_ISSEEKABLE :: "nat \<Rightarrow> (sfs_fs, bool) kfun" where
  "VOP_ISSEEKABLE v = vop v (kret sfs_isseekable) (kret sfs_isseekable)"

definition VOP_MMAP :: "nat \<Rightarrow> (sfs_fs, unit) kfun" where
  "VOP_MMAP v = vop v sfs_mmap vopfail_mmap_isdir"

definition VOP_TRUNCATE :: "nat \<Rightarrow> int \<Rightarrow> (sfs_fs, unit) kfun" where
  "VOP_TRUNCATE v pos = vop v (sfs_truncate v pos) vopfail_truncate_isdir"

definition VOP_NAMEFILE :: "nat \<Rightarrow> (sfs_fs, unit) kfun" where
  "VOP_NAMEFILE v = vop v vopfail_uio_notdir (sfs_namefile v)"

definition VOP_CREAT :: "nat \<Rightarrow> cstr \<Rightarrow> bool \<Rightarrow> (sfs_fs, nat) kfun" where
  "VOP_CREAT v name excl = vop v vopfail_creat_notdir (sfs_creat v name excl)"

definition VOP_SYMLINK :: "nat \<Rightarrow> (sfs_fs, unit) kfun" where
  "VOP_SYMLINK v = vop v vopfail_symlink_notdir vopfail_symlink_nosys"

definition VOP_MKDIR :: "nat \<Rightarrow> (sfs_fs, unit) kfun" where
  "VOP_MKDIR v = vop v vopfail_mkdir_notdir vopfail_mkdir_nosys"

definition VOP_LINK :: "nat \<Rightarrow> cstr \<Rightarrow> nat \<Rightarrow> (sfs_fs, unit) kfun" where
  "VOP_LINK v name v2 = vop v vopfail_link_notdir (sfs_link v name v2)"

definition VOP_REMOVE :: "nat \<Rightarrow> cstr \<Rightarrow> (sfs_fs, unit) kfun" where
  "VOP_REMOVE v name = vop v vopfail_string_notdir (sfs_remove v name)"

definition VOP_RMDIR :: "nat \<Rightarrow> (sfs_fs, unit) kfun" where
  "VOP_RMDIR v = vop v vopfail_string_notdir vopfail_string_nosys"

definition VOP_RENAME :: "nat \<Rightarrow> cstr \<Rightarrow> nat \<Rightarrow> cstr \<Rightarrow> (sfs_fs, unit) kfun" where
  "VOP_RENAME v1 name1 v2 name2 = vop v1 vopfail_rename_notdir (sfs_rename v1 name1 v2 name2)"

definition VOP_LOOKUP :: "nat \<Rightarrow> cstr \<Rightarrow> (sfs_fs, nat) kfun" where
  "VOP_LOOKUP v name = vop v vopfail_lookup_notdir (sfs_lookup v name)"

definition VOP_LOOKPARENT :: "nat \<Rightarrow> cstr \<Rightarrow> nat \<Rightarrow> (sfs_fs, nat \<times> cstr) kfun" where
  "VOP_LOOKPARENT v path buflen = vop v vopfail_lookparent_notdir (sfs_lookparent v path buflen)"

end
