(* ===== verification/Sfs_Namespace.thy ===== *)
theory Sfs_Namespace
  imports Sfs_Names Sfs_Vnops
begin

text \<open>
  The names of a volume: the invariant that ties the entries of the root directory to the
  inodes and their link counts, and that creating a file keeps it.
\<close>


subsection \<open>The namespace\<close>

text \<open>
  A volume has one directory, the root. Every other inode in use is a file, has as many links
  as the root directory has entries for it, and is in use because of them or because a vnode
  of it is referenced. \<open>fmap\<close> is the map from names to inodes.
\<close>

abbreviation ROOT :: nat where
  "ROOT \<equiv> SFS_ROOTDIR_INO"

definition fmap :: "sfs_fs \<Rightarrow> cstr \<Rightarrow> nat option" where
  "fmap s = dmap (slots s ROOT)"

definition ns_ok :: "sfs_fs \<Rightarrow> nat set \<Rightarrow> bool" where
  "ns_ok s F \<longleftrightarrow> vol_ok s F {} \<and> ROOT \<in> F \<and> is_dir s ROOT \<and> sfi_linkcount (inode_at s ROOT) > 0 \<and>
     (\<forall>e \<in> set (slots s ROOT). live e \<longrightarrow> sfd_ino e \<in> F - {ROOT}) \<and>
     (\<forall>i \<in> F - {ROOT}. sfi_type (inode_at s i) = SFS_TYPE_FILE \<and> sfi_linkcount (inode_at s i) = links (slots s ROOT) i \<and>
        (links (slots s ROOT) i = 0 \<longrightarrow> refs s i > 0))"

lemma ns_parts:
  assumes "ns_ok s F"
  shows "vol_ok s F {}" "ROOT \<in> F" "is_dir s ROOT" "dir_wf (slots s ROOT)"
    "\<And>i. i \<in> F \<Longrightarrow> i \<noteq> ROOT \<Longrightarrow> sfi_linkcount (inode_at s i) = links (slots s ROOT) i"
    "\<And>i. i \<in> F \<Longrightarrow> i \<noteq> ROOT \<Longrightarrow> sfi_type (inode_at s i) = SFS_TYPE_FILE"
    "\<And>e. e \<in> set (slots s ROOT) \<Longrightarrow> live e \<Longrightarrow> sfd_ino e \<in> F \<and> sfd_ino e \<noteq> ROOT"
    "\<And>i. i \<in> F \<Longrightarrow> i \<noteq> ROOT \<Longrightarrow> links (slots s ROOT) i = 0 \<Longrightarrow> refs s i > 0"
  using assms by (auto simp: ns_ok_def is_dir_def)

lemma file_no: "vol_ok s F X \<Longrightarrow> i \<in> F \<Longrightarrow> i \<noteq> 0 \<and> i < 2 ^ 32"
proof -
  assume a: "vol_ok s F X" "i \<in> F"
  note vo = vol_ok_parts [OF a(1)]
  have "owned s i \<inter> (sys_blocks s \<union> X) = {}" using vo(4) a(2) by (simp add: owners_ok_def)
  then have "i \<noteq> 0" by (auto simp: owned_def sys_blocks_def)
  moreover have "i < nblocks s" using vo(6) [OF a(2)] by (simp add: file_ok_def)
  ultimately show ?thesis using vo(2) by (simp add: vol_small_def)
qed

lemma links_pos: "links L ino > 0 \<longleftrightarrow> (\<exists>e \<in> set L. sfd_ino e = ino)"
  by (auto simp: links_def filter_empty_conv)

lemma fmap_file:
  assumes "ns_ok s F" "fmap s name = Some ino"
  shows "ino \<in> F" "ino \<noteq> ROOT" "sfi_linkcount (inode_at s ino) > 0" "links (slots s ROOT) ino > 0"
proof -
  note n = ns_parts [OF assms(1)]
  obtain k where k: "names_at (slots s ROOT) name k" "sfd_ino (slots s ROOT ! k) = ino"
    using assms(2) dmap_Some [OF n(4)] by (auto simp: fmap_def)
  then have e: "slots s ROOT ! k \<in> set (slots s ROOT)" "live (slots s ROOT ! k)" by (simp_all add: names_at_def)
  show i: "ino \<in> F" "ino \<noteq> ROOT" using n(7) [OF e] k(2) by simp_all
  show "links (slots s ROOT) ino > 0" using e(1) k(2) links_pos by blast
  then show "sfi_linkcount (inode_at s ino) > 0" using n(5) [OF i] by simp
qed

text \<open>What a step does that leaves the directory and the files as they are.\<close>

definition ns_keep :: "nat set \<Rightarrow> sfs_fs \<Rightarrow> sfs_fs \<Rightarrow> bool" where
  "ns_keep F s t \<longleftrightarrow> vol_ok t F {} \<and> (\<forall>i \<in> F - {ROOT}. keeps s t i) \<and> slots t ROOT = slots s ROOT \<and> is_dir t ROOT \<and>
     sfi_linkcount (inode_at t ROOT) = sfi_linkcount (inode_at s ROOT) \<and>
     sfs_sb t = sfs_sb s \<and> sfs_superdirty t = sfs_superdirty s \<and> biglock_depth t = biglock_depth s"

lemma ns_keep_ok:
  assumes s: "ns_ok s F" and t: "ns_keep F s t"
    and r: "\<And>i. i \<in> F \<Longrightarrow> refs s i > 0 \<Longrightarrow> refs t i > 0"
  shows "ns_ok t F" "fmap t = fmap s"
proof -
  have k: "inode_at t i = inode_at s i" if "i \<in> F - {ROOT}" for i using t that by (simp add: ns_keep_def keeps_def)
  have e: "slots t ROOT = slots s ROOT" "is_dir t ROOT" "vol_ok t F {}"
    "sfi_linkcount (inode_at t ROOT) = sfi_linkcount (inode_at s ROOT)" using t by (simp_all add: ns_keep_def)
  show "ns_ok t F"
    using s e k r unfolding ns_ok_def by simp
  show "fmap t = fmap s" by (simp add: fmap_def e)
qed

lemma ns_keep_trans: "ns_keep F s t \<Longrightarrow> ns_keep F t u \<Longrightarrow> ns_keep F s u"
  using keeps_trans by (fastforce simp: ns_keep_def)

lemma keeps_ns_keep:
  assumes "is_dir s ROOT" "ROOT \<in> F" "vol_ok t F {}" "\<And>i. i \<in> F \<Longrightarrow> keeps s t i"
    "sfs_sb t = sfs_sb s" "sfs_superdirty t = sfs_superdirty s" "biglock_depth t = biglock_depth s"
  shows "ns_keep F s t"
proof -
  have "keeps s t ROOT" using assms by simp
  then have "inode_at t ROOT = inode_at s ROOT" "slots t ROOT = slots s ROOT" by (simp_all add: keeps_slots) (simp add: keeps_def)
  then show ?thesis using assms by (simp add: ns_keep_def is_dir_def)
qed

lemma quiet_ns_keep:
  assumes "ns_ok s F" "quiet s t"
  shows "ns_keep F s t" "refs t = refs s"
  using ns_parts [OF assms(1)] quiet_vol [OF assms(2)] quiet_same [OF assms(2)] assms(2)
  by (auto intro!: keeps_ns_keep simp: quiet_def)

lemma quiet_ns:
  assumes "ns_ok s F" "quiet s t"
  shows "ns_ok t F" "fmap t = fmap s"
  using ns_keep_ok [OF assms(1) quiet_ns_keep(1) [OF assms]] quiet_ns_keep(2) [OF assms] by simp_all

lemma got_ns:
  assumes "ns_ok s F" "got p ino s t" "vol_ok t F {}"
  shows "ns_keep F s t" "ns_ok t F" "fmap t = fmap s"
proof -
  note n = ns_parts [OF assms(1)]
  have "keeps s t i" for i using assms(2) by (simp add: got_def keeps_def owned_def)
  then show k: "ns_keep F s t" using n assms(2,3) by (intro keeps_ns_keep) (auto simp: got_def)
  have "refs t i > 0" if "refs s i > 0" for i using assms(2) that by (auto simp: got_def)
  then show "ns_ok t F" "fmap t = fmap s" using ns_keep_ok [OF assms(1) k] by simp_all
qed

lemma dir_step_ns_keep:
  assumes "dir_step p ROOT F {} (slots s ROOT) s t"
  shows "ns_keep F s t" "refs t = refs s"
  using assms by (simp_all add: dir_step_def slot_set_def ns_keep_def)

lemma dropped_ns_keep:
  assumes "is_dir s ROOT" "ROOT \<in> G" "dropped p v G s t"
  shows "ns_keep G s t"
  using assms by (intro keeps_ns_keep) (auto simp: dropped_def)

subsection \<open>Link counts\<close>

lemma relink_vol:
  assumes s: "vol_ok s F X" and p: "p \<in> set (tab s)" and v: "v = vn_of s p" and n: "n < 2 ^ 16"
  defines "v' \<equiv> v\<lparr>sv_i := (sv_i v)\<lparr>sfi_linkcount := n\<rparr>, sv_dirty := True\<rparr>"
  defines "t \<equiv> vn_put p v' s"
  shows "vol_ok t F X" "inode_at t = (inode_at s)(sv_ino v := (sv_i v)\<lparr>sfi_linkcount := n\<rparr>)" "refs t = refs s" "tab t = tab s"
    "\<And>q. q \<noteq> p \<Longrightarrow> vn_at q t = vn_at q s" "\<And>i. i \<noteq> sv_ino v \<Longrightarrow> keeps s t i" "vn_of t p = v'"
    "contents t (sv_ino v) = contents s (sv_ino v)" "vn_at p t = Some v'"
proof -
  note vv = vol_vnode [OF s p v]
  have wf: "dinode_wf (sv_i v')" using vv(3) n by (simp add: v'_def inode_ok_def dinode_wf_def)
  have ch: "inode_change p s v t v'"
    using vv(7,10) wf unfolding t_def by (intro put_change [OF s p v]) (auto simp: v'_def vnode_ok_def)
  note vn = vn_of_change [OF ch vv(2)]
  show "vol_ok t F X" "tab t = tab s" "vn_of t p = v'" "\<And>q. q \<noteq> p \<Longrightarrow> vn_at q t = vn_at q s" "vn_at p t = Some v'"
    using vol_change [OF s p v ch] vn by simp_all
  show "refs t = refs s" by (rule change_refs [OF s p v ch]) (simp add: v'_def)
  have d: "disk t = disk s" by (simp add: t_def)
  have ld: "loaded s (sv_ino v) = Some p" using loaded_SomeI [OF vol_ok_parts(3) [OF s] p] v by (simp add: ino_of_def)
  have ne: "q \<noteq> p" if "loaded s i = Some q" "i \<noteq> sv_ino v" for i q using that v loaded_SomeD [OF that(1)] by (auto simp: ino_of_def)
  show at: "inode_at t = (inode_at s)(sv_ino v := (sv_i v)\<lparr>sfi_linkcount := n\<rparr>)"
    by (rule ext) (use ne ld vn(2,4) d in \<open>auto simp: inode_at_def vn(7) v'_def split: option.split\<close>)
  show "keeps s t i" if "i \<noteq> sv_ino v" for i using that at d by (simp add: keeps_def owned_def)
  have "bmap_of d (sv_i v\<lparr>sfi_linkcount := n\<rparr>) = bmap_of d (sv_i v)" for d by (simp add: bmap_of_def)
  then have "file_data d (sv_i v\<lparr>sfi_linkcount := n\<rparr>) = file_data d (sv_i v)" for d
    by (simp add: file_data_def file_block_def)
  then show "contents t (sv_ino v) = contents s (sv_ino v)" using at d vv(9) by (simp add: contents_def)
qed

text \<open>A file gets, or loses, an entry of the root directory and the link count that goes with it.\<close>

lemma tab_vn_at: "tab_ok s \<Longrightarrow> p \<in> set (tab s) \<longleftrightarrow> vn_at p s \<noteq> None"
  by (simp add: tab_ok_def)

lemma dir_step_other:
  assumes st: "dir_step p d F X L s t" and q: "q \<in> set (tab s)" "q \<noteq> p"
  shows "q \<in> set (tab t)" "vn_of t q = vn_of s q" "vn_at q t = vn_at q s"
  using assms by (simp_all add: dir_step_def slot_set_def vn_of_def)

lemma ns_relink:
  assumes s: "vol_ok s F {}" "ROOT \<in> F" "sfi_linkcount (inode_at s ROOT) > 0"
    and st: "dir_step p ROOT F {} L s t" and L: "\<And>e. e \<in> set L \<Longrightarrow> live e \<Longrightarrow> sfd_ino e \<in> F - {ROOT}"
    and q: "q \<in> set (tab s)" "q \<noteq> p" "v = vn_of s q" "sv_ino v \<noteq> ROOT" and n: "n = links L (sv_ino v)" "n < 2 ^ 16"
    and u: "u = vn_put q (v\<lparr>sv_i := (sv_i v)\<lparr>sfi_linkcount := n\<rparr>, sv_dirty := True\<rparr>) t"
    and old: "\<And>i. i \<in> F - {ROOT} \<Longrightarrow> sfi_type (inode_at s i) = SFS_TYPE_FILE"
      "\<And>i. i \<in> F - {ROOT} \<Longrightarrow> i \<noteq> sv_ino v \<Longrightarrow> sfi_linkcount (inode_at s i) = links L i \<and> (links L i = 0 \<longrightarrow> refs s i > 0)"
  shows "ns_ok u F" "fmap u = dmap L" "refs u = refs s" "\<And>i. i \<in> F - {ROOT, sv_ino v} \<Longrightarrow> keeps s u i"
    "contents u (sv_ino v) = contents s (sv_ino v)" "biglock_depth u = biglock_depth s"
    "q \<in> set (tab u)" "vn_of u q = v\<lparr>sv_i := (sv_i v)\<lparr>sfi_linkcount := n\<rparr>, sv_dirty := True\<rparr>" "slots u ROOT = L"
    "tab u = tab s" "sfs_sb u = sfs_sb s" "sfs_superdirty u = sfs_superdirty s" "\<And>r. r \<noteq> p \<Longrightarrow> r \<noteq> q \<Longrightarrow> vn_at r u = vn_at r s"
proof -
  have t: "vol_ok t F {}" "\<And>i. i \<in> F - {ROOT} \<Longrightarrow> keeps s t i" "slots t ROOT = L" "is_dir t ROOT"
    "sfi_linkcount (inode_at t ROOT) = sfi_linkcount (inode_at s ROOT)" "refs t = refs s" "biglock_depth t = biglock_depth s"
    using st by (simp_all add: dir_step_def slot_set_def)
  note qt = dir_step_other [OF st q(1,2)]
  have v: "v = vn_of t q" using qt q(3) by simp
  have vF: "sv_ino v \<in> F" by (rule vol_vnode(4) [OF s(1) q(1,3)])
  note r = relink_vol [OF t(1) qt(1) v n(2), folded u]
  have ku: "keeps t u i" if "i \<noteq> sv_ino v" for i by (rule r(6) [OF that])
  have kr: "keeps t u ROOT" using ku q(4) by simp
  show "refs u = refs s" "slots u ROOT = L" "biglock_depth u = biglock_depth s"
    using r(3) t(3,6,7) keeps_slots [OF kr] by (simp_all add: u)
  then show "fmap u = dmap L" by (simp add: fmap_def)
  show "keeps s u i" if "i \<in> F - {ROOT, sv_ino v}" for i
    by (rule keeps_trans [OF t(2) ku]) (use that in auto)
  have "contents u (sv_ino v) = contents t (sv_ino v)" by (rule r(8))
  also have "\<dots> = contents s (sv_ino v)" by (rule keeps_contents [OF t(2)]) (use vF q(4) in simp)
  finally show "contents u (sv_ino v) = contents s (sv_ino v)" .
  show "q \<in> set (tab u)" "vn_of u q = v\<lparr>sv_i := (sv_i v)\<lparr>sfi_linkcount := n\<rparr>, sv_dirty := True\<rparr>" using r(4,7) qt(1) by simp_all
  show "tab u = tab s" "sfs_sb u = sfs_sb s" "sfs_superdirty u = sfs_superdirty s"
    using r(4) st by (simp_all add: dir_step_def slot_set_def u)
  show "vn_at x u = vn_at x s" if "x \<noteq> p" "x \<noteq> q" for x
    using r(5) [OF that(2)] st that(1) by (simp add: dir_step_def slot_set_def)
  have at: "inode_at u i = inode_at s i" if "i \<in> F - {ROOT, sv_ino v}" for i
    using ku [of i] t(2) [of i] that by (simp add: keeps_def)
  have av: "inode_at u (sv_ino v) = (sv_i v)\<lparr>sfi_linkcount := n\<rparr>" using r(2) by simp
  have ai: "inode_at s (sv_ino v) = sv_i v" by (rule vol_vnode(9) [OF s(1) q(1,3)])
  have ar: "inode_at u ROOT = inode_at t ROOT" using kr by (simp add: keeps_def)
  have "refs s (sv_ino v) > 0"
    using refs_loaded [OF vol_ok_parts(3) [OF s(1)] q(1)] vol_vnode(7) [OF s(1) q(1,3)] q(3) by (simp add: ino_of_def vnode_ok_def)
  then have "sfi_type (inode_at u i) = SFS_TYPE_FILE \<and> sfi_linkcount (inode_at u i) = links L i \<and> (links L i = 0 \<longrightarrow> refs s i > 0)"
    if "i \<in> F - {ROOT}" for i
    using that old [OF that] at [of i] av ai n(1) by (cases "i = sv_ino v") auto
  then have "\<forall>i \<in> F - {ROOT}. sfi_type (inode_at u i) = SFS_TYPE_FILE \<and> sfi_linkcount (inode_at u i) = links L i \<and>
    (links L i = 0 \<longrightarrow> refs s i > 0)" ..
  moreover have "\<forall>e \<in> set L. live e \<longrightarrow> sfd_ino e \<in> F - {ROOT}" using L by blast
  moreover have "is_dir u ROOT" using t(4) ar keeps_slots [OF kr] by (simp add: is_dir_def)
  moreover have "sfi_linkcount (inode_at u ROOT) > 0" using ar t(5) s(3) by simp
  ultimately show "ns_ok u F"
    using r(1) s(2) unfolding ns_ok_def \<open>slots u ROOT = L\<close> \<open>refs u = refs s\<close> by (intro conjI)
qed

subsection \<open>Under the big lock\<close>

lemma namespace_biglock [simp]:
  "slots (s\<lparr>biglock_depth := d\<rparr>) = slots s" "fmap (s\<lparr>biglock_depth := d\<rparr>) = fmap s"
  "is_dir (s\<lparr>biglock_depth := d\<rparr>) = is_dir s" "ns_ok (s\<lparr>biglock_depth := d\<rparr>) F = ns_ok s F"
  "keeps (s\<lparr>biglock_depth := d\<rparr>) t i = keeps s t i" "keeps s (t\<lparr>biglock_depth := d\<rparr>) i = keeps s t i"
proof -
  show sl: "slots (s\<lparr>biglock_depth := d\<rparr>) = slots s" by (rule ext) (simp add: slots_def)
  show "fmap (s\<lparr>biglock_depth := d\<rparr>) = fmap s" by (simp add: fmap_def sl)
  show di: "is_dir (s\<lparr>biglock_depth := d\<rparr>) = is_dir s" by (rule ext) (simp add: is_dir_def sl)
  show "ns_ok (s\<lparr>biglock_depth := d\<rparr>) F = ns_ok s F" by (simp add: ns_ok_def sl di)
  show "keeps (s\<lparr>biglock_depth := d\<rparr>) t i = keeps s t i" "keeps s (t\<lparr>biglock_depth := d\<rparr>) i = keeps s t i"
    by (simp_all add: keeps_def)
qed

lemma wp_unlock_return:
  "wp (unlock_return r) Q E = (\<lambda>s. biglock_depth s > 0 \<and>
     (case r of Inl e \<Rightarrow> E e | Inr x \<Rightarrow> Q x) (s\<lparr>biglock_depth := biglock_depth s - 1\<rparr>))"
  by (rule ext) (cases r; simp add: unlock_return_def)

lemma locked_wp:
  assumes "wp m (\<lambda>x t. biglock_depth t = Suc (biglock_depth s) \<and> Q x (t\<lparr>biglock_depth := biglock_depth s\<rparr>))
      (\<lambda>e t. biglock_depth t = Suc (biglock_depth s) \<and> E e (t\<lparr>biglock_depth := biglock_depth s\<rparr>))
      (s\<lparr>biglock_depth := Suc (biglock_depth s)\<rparr>)"
  shows "wp (kthen biglock_acquire (kbind (ktry m) unlock_return)) Q E s"
  unfolding wp_kthen wp_biglock wp_kbind wp_ktry
  by (rule wp_conseq [OF assms]) (simp_all add: wp_unlock_return)

subsection \<open>Creating a file\<close>

text \<open>A new, empty file \<open>ino\<close> under the name \<open>name\<close>, and its vnode at \<open>q\<close>.\<close>

definition created :: "cstr \<Rightarrow> nat \<Rightarrow> nat \<Rightarrow> nat set \<Rightarrow> sfs_fs \<Rightarrow> sfs_fs \<Rightarrow> bool" where
  "created name q ino F s t \<longleftrightarrow> ino \<notin> F \<and> ns_ok t (insert ino F) \<and> fmap t = (fmap s)(name \<mapsto> ino) \<and>
     q \<in> set (tab t) \<and> ino_of t q = ino \<and> refs t = (refs s)(ino := 1) \<and> contents t ino = [] \<and>
     (\<forall>i \<in> F - {ROOT}. keeps s t i)"

lemma refs_unused: "vol_ok s F X \<Longrightarrow> ino \<notin> F \<Longrightarrow> refs s ino = 0"
  using vol_ok_parts(5) [of s F X] by (auto simp: refs_def dest!: loaded_SomeD split: option.split)

lemma links_unused:
  assumes "ns_ok s F" "ino \<notin> F" "ino \<noteq> 0"
  shows "links (slots s ROOT) ino = 0"
proof -
  have "sfd_ino e \<noteq> ino" if "e \<in> set (slots s ROOT)" for e
    using ns_parts(7) [OF assms(1) that] assms(2,3) by (auto simp: live_def SFS_NOINO_def)
  then show ?thesis by (simp add: links_def)
qed

lemma put_link:
  assumes "k \<le> length L" "k < length L \<Longrightarrow> \<not> live (L ! k)" "live e" "i \<noteq> 0"
  shows "links (put_slot k e L) i = links L i + of_bool (i = sfd_ino e)"
proof -
  have "\<not> (k < length L \<and> sfd_ino (L ! k) = i)" using assms(2,4) by (auto simp: live_def SFS_NOINO_def)
  then show ?thesis using links_put [OF assms(1), of e i] by auto
qed

lemma set_put_slot: "e' \<in> set (put_slot k e L) \<Longrightarrow> e' = e \<or> e' \<in> set L"
  by (auto simp: put_slot_def dest: set_update_subset_insert [THEN subsetD] split: if_splits)

lemma made_root:
  assumes s: "ns_ok s F" and m: "made q ino SFS_TYPE_FILE F s t" and p: "p \<in> set (tab s)"
  shows "vol_ok t (insert ino F) {}" "is_dir t ROOT" "slots t ROOT = slots s ROOT" "ROOT \<in> F" "p \<noteq> q" "p \<in> set (tab t)" "vn_of t p = vn_of s p"
    "inode_at t ROOT = inode_at s ROOT"
proof -
  note n = ns_parts [OF s]
  show v: "vol_ok t (insert ino F) {}" using m by (simp add: made_def)
  have k: "keeps s t ROOT" using m n(2) by (simp add: made_def)
  then show "inode_at t ROOT = inode_at s ROOT" "slots t ROOT = slots s ROOT" by (simp_all add: keeps_slots) (simp add: keeps_def)
  then show "is_dir t ROOT" using n(3) by (simp add: is_dir_def)
  show "ROOT \<in> F" by (rule n)
  have np: "vn_at p s \<noteq> None" using p tab_vn_at [OF vol_ok_parts(3) [OF n(1)]] by blast
  then show pq: "p \<noteq> q" using m by (auto simp: made_def)
  then have "vn_at p t = vn_at p s" using m by (simp add: made_def)
  then show "p \<in> set (tab t)" "vn_of t p = vn_of s p"
    using np tab_vn_at [OF vol_ok_parts(3) [OF v], of p] by (simp_all add: vn_of_def)
qed

lemma creat_linked:
  assumes s: "ns_ok s F" and m: "made q ino SFS_TYPE_FILE F s t" and p: "p \<in> set (tab s)" "ino_of s p = ROOT"
    and k: "k \<le> length (slots s ROOT)" "k < length (slots s ROOT) \<Longrightarrow> \<not> live (slots s ROOT ! k)"
    and nm: "dmap (slots s ROOT) name = None" "length name < SFS_NAMELEN" "0 \<notin> set name"
    and st: "dir_step p ROOT (insert ino F) {} (put_slot k (sfs_mkdirentry ino name) (slots s ROOT)) t u"
  shows "wp (kthen (linkcount_inc q) (kret q)) (\<lambda>r w. created name r ino F s w \<and> biglock_depth w = biglock_depth s) E u"
proof -
  let ?L = "slots s ROOT" and ?e = "sfs_mkdirentry ino name"
  note n = ns_parts [OF s] and mr = made_root [OF s m p(1)]
  define v where "v = vn_of t q"
  have q: "q \<in> set (tab t)" "ino_of t q = ino" "ino \<notin> F" using m by (simp_all add: made_def)
  have vi: "sv_ino v = ino" "sv_i v = zero_inode\<lparr>sfi_type := SFS_TYPE_FILE\<rparr>"
    using q m vol_vnode(9) [OF mr(1) q(1) refl] by (simp_all add: v_def ino_of_def made_def)
  have ino: "ino \<noteq> 0" "ino < 2 ^ 32" using file_no [OF mr(1), of ino] by simp_all
  note mk = mkdirentry [OF nm(3,2) ino(2,1)]
  have lk: "links (put_slot k ?e ?L) i = links ?L i + of_bool (i = ino)" if "i \<noteq> 0" for i
    using put_link [OF k mk(2) that] mk(4) by simp
  have l1: "links (put_slot k ?e ?L) ino = 1" using lk [OF ino(1)] links_unused [OF s q(3) ino(1)] by simp
  have ne: "sv_ino v \<noteq> ROOT" using vi(1) q(3) n(2) by auto
  have kt: "keeps s t i" if "i \<in> F" for i using m that by (simp add: made_def)
  have at: "inode_at t i = inode_at s i" if "i \<in> F" for i using kt [OF that] by (simp add: keeps_def)
  have rt: "refs t = (refs s)(ino := 1)" using m by (simp add: made_def)
  have ent: "sfd_ino e \<in> insert ino F - {ROOT}" if "e \<in> set (put_slot k ?e ?L)" "live e" for e
    using set_put_slot [OF that(1)] mk(4) n(7) [of e] that(2) ne vi(1) by auto
  have ty: "sfi_type (inode_at t i) = SFS_TYPE_FILE" if "i \<in> insert ino F - {ROOT}" for i
    using that n(6) [of i] at [of i] m by (auto simp: made_def)
  have lc: "sfi_linkcount (inode_at t i) = links (put_slot k ?e ?L) i \<and> (links (put_slot k ?e ?L) i = 0 \<longrightarrow> refs t i > 0)"
    if "i \<in> insert ino F - {ROOT}" "i \<noteq> sv_ino v" for i
  proof -
    have i: "i \<in> F" "i \<noteq> ROOT" "i \<noteq> ino" "i \<noteq> 0" using that vi(1) file_no [OF n(1), of i] by auto
    then show ?thesis using n(5) [OF i(1,2)] n(8) [OF i(1,2)] at [OF i(1)] lk [OF i(4)] rt by simp
  qed
  have rl: "sfi_linkcount (inode_at t ROOT) > 0" using mr(8) s by (simp add: ns_ok_def)
  have one: "1 = links (put_slot k ?e ?L) (sv_ino v)" "(1 :: nat) < 2 ^ 16" using l1 vi(1) by simp_all
  note nr = ns_relink [OF mr(1) _ rl st ent q(1) mr(5) [symmetric] v_def ne one refl ty lc]
  have at_q: "vn_at q u = Some v"
    using dir_step_other(3) [OF st q(1) mr(5) [symmetric]] vol_vnode(2) [OF mr(1) q(1) v_def] by simp
  let ?w = "vn_put q (v\<lparr>sv_i := (sv_i v)\<lparr>sfi_linkcount := 1\<rparr>, sv_dirty := True\<rparr>) u"
  have "created name q ino F s ?w"
  proof -
    have "fmap ?w = (fmap s)(name \<mapsto> ino)"
      using nr(2) mr(4) dmap_link(2) [OF n(4) k mk(2)] mk(3,4) nm(1) by (simp add: fmap_def)
    moreover have "contents ?w ino = []"
    proof -
      have "contents ?w ino = contents t ino" using nr(5) mr(4) vi(1) by simp
      also have "inode_at t ino = zero_inode\<lparr>sfi_type := SFS_TYPE_FILE\<rparr>" using m by (simp add: made_def)
      then have "contents t ino = []" by (simp add: contents_def zero_inode_def)
      finally show ?thesis .
    qed
    moreover have "keeps s ?w i" if "i \<in> F - {ROOT}" for i
      by (rule keeps_trans [OF kt nr(4)]) (use that mr(4) vi(1) q(3) in auto)
    moreover have "ino_of ?w q = ino" "q \<in> set (tab ?w)" using nr(7,8) mr(4) vi(1) by (simp_all add: ino_of_def)
    moreover have "ns_ok ?w (insert ino F)" "refs ?w = refs t" using nr(1,3) mr(4) by simp_all
    ultimately show ?thesis using q(3) rt by (simp add: created_def)
  qed
  moreover have "biglock_depth ?w = biglock_depth s" using nr(6) mr(4) m by (simp add: made_def)
  ultimately show ?thesis using at_q vi(2) by (simp add: linkcount_inc_def zero_inode_def)
qed

lemma creat_undone:
  assumes s: "ns_ok s F" and m: "made q ino SFS_TYPE_FILE F s t" and p: "p \<in> set (tab s)"
    and st: "dir_step p ROOT (insert ino F) {} (slots s ROOT) t u"
  shows "wp (sfs_decref q) (\<lambda>_ w. ns_keep F s w \<and> refs w = refs s) E u"
proof -
  note n = ns_parts [OF s] and mr = made_root [OF s m p]
  have q: "q \<in> set (tab t)" "ino_of t q = ino" "ino \<notin> F" "refs t = (refs s)(ino := 1)" using m by (simp_all add: made_def)
  note qu = dir_step_other [OF st q(1) mr(5) [symmetric]]
  have u: "vol_ok u (insert ino F) {}" "refs u = refs t" "slots u ROOT = slots s ROOT" "is_dir u ROOT"
    "sfi_linkcount (inode_at u ROOT) = sfi_linkcount (inode_at t ROOT)"
    using st by (simp_all add: dir_step_def slot_set_def)
  define v where "v = vn_of u q"
  have vi: "sv_ino v = ino" using qu q(2) by (simp add: v_def ino_of_def)
  have "sv_i v = inode_at t ino" using vol_vnode(9) [OF mr(1) q(1) refl] qu(2) q(2) by (simp add: v_def ino_of_def)
  also have "\<dots> = zero_inode\<lparr>sfi_type := SFS_TYPE_FILE\<rparr>" using m by (simp add: made_def)
  finally have "sfi_linkcount (sv_i v) = 0" by (simp add: zero_inode_def)
  then have rem: "remaining (insert ino F) v = F" using vi q(3) by (simp add: remaining_def)
  have rc: "vn_refcount v = 1"
    using refs_loaded [OF vol_ok_parts(3) [OF u(1)] qu(1)] u(2) q(4) vi by (simp add: v_def ino_of_def)
  have r0: "refs s ino = 0" by (rule refs_unused [OF n(1) q(3)])
  show ?thesis
  proof (rule wp_conseq [OF sfs_decref_wp [OF u(1) qu(1) v_def]], goal_cases)
    case (1 x w)
    then have d: "dropped q v F u w" using rc rem by simp
    have "keeps s w i" if "i \<in> F - {ROOT}" for i
    proof (rule keeps_trans [OF keeps_trans])
      show "keeps s t i" "keeps t u i" "keeps u w i"
        using that m st d q(3) by (auto simp: made_def dir_step_def dropped_def)
    qed
    moreover have kr: "keeps u w ROOT" using d n(2) by (simp add: dropped_def)
    then have "inode_at w ROOT = inode_at u ROOT" by (simp add: keeps_def)
    ultimately have "ns_keep F s w"
      using d u(3-5) mr(8) keeps_slots [OF kr] m st
      by (simp add: ns_keep_def dropped_def is_dir_def made_def dir_step_def slot_set_def)
    moreover have "refs w = refs s" using d vi u(2) q(4) r0 by (simp add: dropped_def fun_eq_iff)
    ultimately show ?case by simp
  qed simp
qed

definition creat_error :: "cstr \<Rightarrow> bool \<Rightarrow> sfs_fs \<Rightarrow> errno \<Rightarrow> bool" where
  "creat_error name excl s e \<longleftrightarrow>
     (case fmap s name of
        Some _ \<Rightarrow> e = (if excl then EEXIST else ENOMEM)
      | None \<Rightarrow> e = ENOSPC \<or> e = ENOMEM \<or> e = EFBIG \<or> e = ENAMETOOLONG \<and> SFS_NAMELEN \<le> length name)"

lemma sfs_creat_body_wp:
  assumes s: "ns_ok s F" and p: "p \<in> set (tab s)" "ino_of s p = ROOT" and nm: "0 \<notin> set name"
  shows "wp (sfs_creat_body p name excl)
    (\<lambda>q t. biglock_depth t = biglock_depth s \<and>
       (case fmap s name of
          Some ino \<Rightarrow> \<not> excl \<and> vol_ok t F {} \<and> got q ino s t
        | None \<Rightarrow> length name < SFS_NAMELEN \<and> (\<exists>ino. created name q ino F s t)))
    (\<lambda>e t. creat_error name excl s e \<and> ns_keep F s t \<and> refs t = refs s) s"
    (is "wp _ ?Q ?E s")
proof -
  let ?L = "slots s ROOT"
  note n = ns_parts [OF s]
  define v where "v = vn_of s p"
  have v: "ROOT = sv_ino v" using p(2) by (simp add: v_def ino_of_def)
  have new: "wp (kbind (sfs_makeobj SFS_TYPE_FILE) (\<lambda>newguy.
           kbind (sv_get newguy sv_ino) (\<lambda>ino.
           kbind (ktry (sfs_dir_link p name ino)) (\<lambda>result.
             case result of
               Inl e \<Rightarrow> kthen (sfs_decref newguy) (kfail e)
             | Inr _ \<Rightarrow> kthen (linkcount_inc newguy) (kret newguy))))) ?Q ?E t"
    if t: "quiet s t" and no: "fmap s name = None" for t
  proof -
    note q = quiet_same [OF t] and qn = quiet_ns [OF s t] and qk = quiet_ns_keep [OF s t]
    have pt: "p \<in> set (tab t)" "ino_of t p = ROOT" using p q by simp_all
    have st: "slots t ROOT = ?L" using qk(1) by (simp add: ns_keep_def)
    have bl: "biglock_depth t = biglock_depth s" using t by (simp add: quiet_def)
    have cr: "created name r ino F s w" if "created name r ino F t w" for r ino w
      using that q(9) qn(2) keeps_trans [OF q(10)] by (auto simp: created_def)
    have ty: "SFS_TYPE_FILE \<noteq> 0" "sfs_ops_of_type SFS_TYPE_FILE \<noteq> None"
      by (simp_all add: SFS_TYPE_FILE_def sfs_ops_of_type_def)
    note vt = ns_parts(1) [OF qn(1)]
    show ?thesis
      unfolding wp_kbind
    proof (rule wp_conseq [OF sfs_makeobj_wp [OF vt ty]], goal_cases)
      case (1 g u)
      then obtain ino where m: "made g ino SFS_TYPE_FILE F t u" by blast
      note mr = made_root [OF qn(1) m pt(1)]
      have g: "g \<in> set (tab u)" "ino_of u g = ino" using m by (simp_all add: made_def)
      have io: "ino < 2 ^ 32" "ino \<noteq> 0" using file_no [OF mr(1), of ino] by simp_all
      have gu: "vn_at g u = Some (vn_of u g)" "sv_ino (vn_of u g) = ino"
        using vol_vnode(2) [OF mr(1) g(1) refl] g(2) by (simp_all add: ino_of_def)
      have vu: "ROOT = sv_ino (vn_of u p)" using mr(7) pt(2) by (simp add: ino_of_def)
      have su: "slots u ROOT = ?L" using mr(3) st by simp
      note link = sfs_dir_link_wp [OF mr(1,6) refl vu mr(2) nm io, unfolded su]
      have ok: "wp (kthen (linkcount_inc g) (kret g)) ?Q ?E w"
        if "\<exists>k. slot = int k \<and> k \<le> length ?L \<and> (k < length ?L \<longrightarrow> \<not> live (?L ! k)) \<and>
            dmap ?L name = None \<and> length name < SFS_NAMELEN \<and>
            dir_step p ROOT (insert ino F) {} (put_slot k (sfs_mkdirentry ino name) ?L) u w" for slot w
      proof -
        from that obtain k where k: "k \<le> length (slots t ROOT)" "k < length (slots t ROOT) \<Longrightarrow> \<not> live (slots t ROOT ! k)"
          "dmap (slots t ROOT) name = None" "length name < SFS_NAMELEN"
          "dir_step p ROOT (insert ino F) {} (put_slot k (sfs_mkdirentry ino name) (slots t ROOT)) u w" unfolding st by blast
        show ?thesis
          by (rule wp_conseq [OF creat_linked [OF qn(1) m pt k(1-4) nm k(5), where E = ?E]])
            (use no k(4) cr bl in auto)
      qed
      have bad: "wp (kthen (sfs_decref g) (kfail e)) ?Q ?E w"
        if "dir_step p ROOT (insert ino F) {} ?L u w" "creat_error name excl s e" for e w
      proof -
        have "dir_step p ROOT (insert ino F) {} (slots t ROOT) u w" using that(1) st by simp
        from creat_undone [OF qn(1) m pt(1) this, where E = ?E] show ?thesis
          unfolding wp_kthen wp_kfail
          by (rule wp_conseq) (use that(2) ns_keep_trans [OF qk(1)] qk(2) in auto)
      qed
      have "wp (sfs_dir_link p name ino) (\<lambda>_. wp (kthen (linkcount_inc g) (kret g)) ?Q ?E)
          (\<lambda>e. wp (kthen (sfs_decref g) (kfail e)) ?Q ?E) u"
      proof (rule wp_conseq [OF link], goal_cases)
        case (1 slot w)
        then show ?case by (rule ok)
      next
        case (2 e w)
        have d: "dir_step p ROOT (insert ino F) {} ?L u w" using 2 by simp
        have "dmap ?L name = None" using no by (simp add: fmap_def)
        then have "creat_error name excl s e" using 2 no by (auto simp: creat_error_def)
        then show ?case by (rule bad [OF d])
      qed
      then show ?case using gu by simp
    next
      case (2 e u)
      then have "ns_keep F t u" "refs u = refs t"
        using ns_parts(2,3) [OF qn(1)] by (auto intro!: keeps_ns_keep simp: calm_def)
      then show ?case using 2 ns_keep_trans [OF qk(1)] qk(2) no by (auto simp: creat_error_def)
    qed
  qed
  have old: "wp (sfs_loadvnode ino SFS_TYPE_INVAL) ?Q ?E t"
    if t: "quiet s t" and so: "fmap s name = Some ino" "\<not> excl" for t ino
  proof -
    note q = quiet_same [OF t] and qk = quiet_ns_keep [OF s t]
    have vt: "vol_ok t F {}" by (rule quiet_vol [OF t n(1)])
    show ?thesis
    proof (rule wp_conseq [OF sfs_loadvnode_wp [OF vt fmap_file(1) [OF s so(1)]]], goal_cases)
      case (1 g u)
      then show ?case using so got_quiet [OF t, of g ino u] by (simp add: got_def)
    next
      case (2 e u)
      then show ?case using quiet_ns_keep [OF s quiet_trans [OF t]] so by (simp add: creat_error_def)
    qed
  qed
  show ?thesis
    unfolding sfs_creat_body_def wp_kbind
  proof (rule wp_conseq [OF sfs_dir_findname_wp [OF n(1) p(1) v_def v n(3)]], goal_cases)
    case (1 x t)
    obtain r es where x: "x = (r, es)" by (cases x)
    have f: "quiet s t" "r = Inl ENOENT \<or> (\<exists>y. r = Inr y)"
      "scanned ?L name (-1) (length ?L) (case r of Inl _ \<Rightarrow> None | Inr x \<Rightarrow> Some x) es" using 1 x by simp_all
    show ?case
    proof (cases "r = Inl ENOENT")
      case True
      then have "fmap s name = None" using f(3) by (auto simp: scanned_def dmap_None names_at_def fmap_def)
      then show ?thesis using new [OF f(1)] True x unfolding wp_kbind by simp
    next
      case False
      then obtain ino k where r: "r = Inr (ino, int k)" "names_at ?L name k" "ino = sfd_ino (?L ! k)"
        using f(2,3) by (fastforce simp: scanned_def)
      have so: "fmap s name = Some ino" using r dmap_Some [OF n(4), of name ino] by (auto simp: fmap_def)
      show ?thesis
      proof (cases excl)
        case True
        then show ?thesis using quiet_ns_keep [OF s f(1)] so x r(1) by (simp add: creat_error_def)
      next
        case False
        then show ?thesis using old [OF f(1) so False] x r(1) by simp
      qed
    qed
  qed simp
qed

end
