(* ===== verification/Sfs_Nameops.thy ===== *)
theory Sfs_Nameops
  imports Sfs_Namespace
begin

text \<open>
  The vnode operations on names of \<open>kern/fs/sfs/sfs_vnops.c\<close> (lookup, creat, link, remove and
  rename, modelled in \<open>Sfs_Vnops\<close>): each changes the map from names to inodes as it should,
  keeps the namespace sound and leaves the big lock as it found it.
\<close>

subsection \<open>Removing, linking and renaming\<close>

lemma dropped_ns:
  assumes s: "ns_ok s F" and v: "g \<in> set (tab s)" "v = vn_of s g"
    and G: "G = (if vn_refcount v = 1 then remaining F v else F)" and d: "dropped g v G s t"
  shows "ns_ok t G" "fmap t = fmap s" "ROOT \<in> G"
proof -
  note n = ns_parts [OF s] and vv = vol_vnode [OF ns_parts(1) [OF s] v]
  have t: "vol_ok t G {}" "refs t = (refs s)(sv_ino v := refs s (sv_ino v) - 1)" "\<And>i. i \<in> G \<Longrightarrow> keeps s t i"
    using d by (simp_all add: dropped_def)
  have rc: "refs s (sv_ino v) = vn_refcount v" "vn_refcount v \<ge> 1"
    using refs_loaded [OF vol_ok_parts(3) [OF n(1)] v(1)] v(2) vv(7) by (simp_all add: ino_of_def vnode_ok_def)
  have GF: "G \<subseteq> F" "\<And>i. i \<in> F \<Longrightarrow> i \<notin> G \<Longrightarrow> i = sv_ino v \<and> sfi_linkcount (sv_i v) = 0"
    using G by (auto simp: remaining_def split: if_splits)
  have root: "sfi_linkcount (inode_at s ROOT) > 0" using s by (simp add: ns_ok_def)
  show RG: "ROOT \<in> G" using GF(2) [OF n(2)] root vv(9) by (cases "ROOT \<in> G") auto
  have k: "keeps s t ROOT" by (rule t(3) [OF RG])
  have sl: "slots t ROOT = slots s ROOT" by (rule keeps_slots [OF k])
  then show "fmap t = fmap s" by (simp add: fmap_def)
  have at: "inode_at t i = inode_at s i" if "i \<in> G" for i using t(3) [OF that] by (simp add: keeps_def)
  have "is_dir t ROOT" using n(3) at [OF RG] sl by (simp add: is_dir_def)
  moreover have "sfd_ino e \<in> G - {ROOT}" if "e \<in> set (slots s ROOT)" "live e" for e
  proof -
    note e = n(7) [OF that]
    have "links (slots s ROOT) (sfd_ino e) > 0" using that(1) links_pos by blast
    then have "sfi_linkcount (inode_at s (sfd_ino e)) > 0" using n(5) e by simp
    then have "sfd_ino e \<in> G" using GF(2) e vv(9) by (cases "sfd_ino e \<in> G") auto
    then show ?thesis using e by simp
  qed
  moreover have "sfi_type (inode_at t i) = SFS_TYPE_FILE \<and> sfi_linkcount (inode_at t i) = links (slots s ROOT) i \<and>
      (links (slots s ROOT) i = 0 \<longrightarrow> refs t i > 0)" if "i \<in> G - {ROOT}" for i
  proof -
    have i: "i \<in> F" "i \<noteq> ROOT" "i \<in> G" using that GF(1) by auto
    have "refs t i > 0" if z: "links (slots s ROOT) i = 0"
    proof (cases "i = sv_ino v")
      case False
      then show ?thesis using n(8) [OF i(1,2) z] t(2) by simp
    next
      case True
      then have "sfi_linkcount (sv_i v) = 0" using n(5) [OF i(1,2)] z vv(9) by simp
      then have "vn_refcount v \<noteq> 1" using i(3) True G by (auto simp: remaining_def)
      then show ?thesis using t(2) rc True by simp
    qed
    then show ?thesis using at [OF i(3)] n(5,6) i by simp
  qed
  ultimately show "ns_ok t G"
    using t(1) RG root at [OF RG] unfolding ns_ok_def sl by simp
qed

text \<open>The state behind a lookup: the vnode \<open>g\<close> of the file has one reference more.\<close>

lemma got_vnode:
  assumes s: "ns_ok s F" and g: "got g ino s t" "vol_ok t F {}" and p: "p \<in> set (tab s)" "ino_of s p = ROOT" and ne: "ino \<noteq> ROOT"
  shows "g \<in> set (tab t)" "sv_ino (vn_of t g) = ino" "g \<noteq> p" "p \<in> set (tab t)" "vn_of t p = vn_of s p" "ino_of t p = ROOT"
    "sv_i (vn_of t g) = inode_at s ino" "slots t ROOT = slots s ROOT" "refs t = (refs s)(ino := refs s ino + 1)"
    "vn_refcount (vn_of t g) = refs s ino + 1" "inode_at t = inode_at s"
proof -
  show gt: "g \<in> set (tab t)" "sv_ino (vn_of t g) = ino" "inode_at t = inode_at s" "refs t = (refs s)(ino := refs s ino + 1)"
    using g(1) by (simp_all add: got_def ino_of_def)
  note vt = vol_vnode [OF g(2) gt(1) refl]
  show "sv_i (vn_of t g) = inode_at s ino" using vt(9) gt by simp
  show "slots t ROOT = slots s ROOT" using got_ns(1) [OF s g] by (simp add: ns_keep_def)
  show "vn_refcount (vn_of t g) = refs s ino + 1"
    using refs_loaded [OF vol_ok_parts(3) [OF g(2)] gt(1)] gt by (simp add: ino_of_def)
  have ps: "vn_at p s = Some (vn_of s p)" by (rule vol_vnode(2) [OF ns_parts(1) [OF s] p(1) refl])
  show gp: "g \<noteq> p"
  proof
    assume e: "g = p"
    have "refs s ROOT > 0"
      using refs_loaded [OF vol_ok_parts(3) [OF ns_parts(1) [OF s]] p(1)] p(2)
        vol_vnode(7) [OF ns_parts(1) [OF s] p(1) refl] by (simp add: vnode_ok_def)
    then have "refs t ROOT > 0" using gt(4) ne by simp
    then obtain q where q: "loaded t ROOT = Some q" by (auto simp: refs_def split: option.splits)
    then have "q \<in> set (tab t)" "ino_of t q = ROOT" using loaded_SomeD by auto
    then have "q \<noteq> g" using gt(2) ne by (auto simp: ino_of_def)
    then have qs: "vn_at q t = vn_at q s" using g(1) by (simp add: got_def)
    have "vn_at q t \<noteq> None" using \<open>q \<in> set (tab t)\<close> tab_vn_at [OF vol_ok_parts(3) [OF g(2)]] by blast
    then have "q \<in> set (tab s)" using qs tab_vn_at [OF vol_ok_parts(3) [OF ns_parts(1) [OF s]]] by simp
    moreover have "ino_of s q = ROOT" using \<open>ino_of t q = ROOT\<close> qs by (simp add: ino_of_def vn_of_def)
    ultimately have "q = p" using p vol_ok_parts(3) [OF ns_parts(1) [OF s]] by (auto simp: tab_ok_def inj_on_def)
    then show False using \<open>q \<noteq> g\<close> e by simp
  qed
  then have pt: "vn_at p t = vn_at p s" using g(1) by (simp add: got_def)
  then show "p \<in> set (tab t)" using ps tab_vn_at [OF vol_ok_parts(3) [OF g(2)], of p] by simp
  show "vn_of t p = vn_of s p" unfolding vn_of_def pt ..
  then show "ino_of t p = ROOT" using p(2) by (simp add: ino_of_def)
qed

lemma links_small: "vol_ok s F X \<Longrightarrow> d \<in> F \<Longrightarrow> links (slots s d) i < 2 ^ 16 - 1"
  using slots_bound [of s F X d] links_bound [of "slots s d" i] by (simp add: MAXSLOTS_def)

text \<open>Adding an entry for a file that is there, and counting it.\<close>

lemma link_counted:
  assumes s: "ns_ok s F" and p: "p \<in> set (tab s)" "ino_of s p = ROOT" and g: "g \<in> set (tab s)" "v = vn_of s g" "g \<noteq> p" "sv_ino v \<noteq> ROOT"
    and k: "k \<le> length (slots s ROOT)" "k < length (slots s ROOT) \<Longrightarrow> \<not> live (slots s ROOT ! k)"
    and nm: "dmap (slots s ROOT) name = None" "length name < SFS_NAMELEN" "0 \<notin> set name"
    and st: "dir_step p ROOT F {} (put_slot k (sfs_mkdirentry (sv_ino v) name) (slots s ROOT)) s t"
  shows "wp (linkcount_inc g) (\<lambda>_ u. ns_ok u F \<and> fmap u = (fmap s)(name \<mapsto> sv_ino v) \<and> refs u = refs s \<and>
       (\<forall>i \<in> F - {ROOT, sv_ino v}. keeps s u i) \<and> contents u (sv_ino v) = contents s (sv_ino v) \<and>
       biglock_depth u = biglock_depth s \<and> tab u = tab s \<and>
       vn_of u g = v\<lparr>sv_i := (sv_i v)\<lparr>sfi_linkcount := sfi_linkcount (sv_i v) + 1\<rparr>, sv_dirty := True\<rparr> \<and> ino_of u p = ROOT \<and>
       slots u ROOT = put_slot k (sfs_mkdirentry (sv_ino v) name) (slots s ROOT)) E t"
proof -
  let ?L = "slots s ROOT" and ?e = "sfs_mkdirentry (sv_ino v) name"
  note n = ns_parts [OF s] and vv = vol_vnode [OF ns_parts(1) [OF s] g(1,2)]
  have ino: "sv_ino v \<noteq> 0" "sv_ino v < 2 ^ 32" using file_no [OF n(1) vv(4)] by simp_all
  note mk = mkdirentry [OF nm(3,2) ino(2,1)]
  have lk: "links (put_slot k ?e ?L) i = links ?L i + of_bool (i = sv_ino v)" if "i \<noteq> 0" for i
    using put_link [OF k mk(2) that] mk(4) by simp
  have lv: "sfi_linkcount (sv_i v) = links ?L (sv_ino v)" using n(5) [OF vv(4) g(4)] vv(9) by simp
  have n1: "sfi_linkcount (sv_i v) + 1 = links (put_slot k ?e ?L) (sv_ino v)" "sfi_linkcount (sv_i v) + 1 < 2 ^ 16"
    using lk [OF ino(1)] lv links_small [OF n(1,2), of "sv_ino v"] by simp_all
  have ent: "sfd_ino e \<in> F - {ROOT}" if "e \<in> set (put_slot k ?e ?L)" "live e" for e
    using set_put_slot [OF that(1)] mk(4) n(7) [of e] that(2) g(4) vv(4) by auto
  have rl: "sfi_linkcount (inode_at s ROOT) > 0" using s by (simp add: ns_ok_def)
  have lc: "sfi_linkcount (inode_at s i) = links (put_slot k ?e ?L) i \<and> (links (put_slot k ?e ?L) i = 0 \<longrightarrow> refs s i > 0)"
    if "i \<in> F - {ROOT}" "i \<noteq> sv_ino v" for i
    using that n(5,8) [of i] lk [of i] file_no [OF n(1), of i] by auto
  have ty: "sfi_type (inode_at s i) = SFS_TYPE_FILE" if "i \<in> F - {ROOT}" for i using that n(6) by simp
  note nr = ns_relink [OF n(1,2) rl st ent g(1,3,2,4) n1 refl ty lc]
  have at: "vn_at g t = Some v" using dir_step_other(3) [OF st g(1,3)] vv(2) by simp
  have fm: "dmap (put_slot k ?e ?L) = (fmap s)(name \<mapsto> sv_ino v)"
    using dmap_link(2) [OF n(4) k mk(2)] mk(3,4) nm(1) by (simp add: fmap_def)
  let ?u = "vn_put g (v\<lparr>sv_i := (sv_i v)\<lparr>sfi_linkcount := sfi_linkcount (sv_i v) + 1\<rparr>, sv_dirty := True\<rparr>) t"
  have "ino_of t p = ROOT" using st p(2) by (simp add: dir_step_def slot_set_def)
  then have "ino_of ?u p = ROOT" using g(3) by (simp add: ino_of_def vn_of_def)
  moreover have "(sfi_linkcount (sv_i v) + 1) mod 2 ^ 16 = sfi_linkcount (sv_i v) + 1" using n1(2) by simp
  ultimately show ?thesis
    unfolding linkcount_inc_def wp_sv_mod at option.case
    using nr(1) nr(2) [unfolded fm] nr(3) nr(4) nr(5) nr(6) nr(8) nr(9) nr(10) by simp
qed

text \<open>Taking an entry away, and counting it.\<close>

definition no_entry :: sfs_direntry where
  "no_entry = \<lparr>sfd_ino = SFS_NOINO, sfd_name = replicate SFS_NAMELEN 0\<rparr>"

lemma no_entry_dead: "\<not> live no_entry" "sfd_ino no_entry = 0"
  by (simp_all add: no_entry_def live_def SFS_NOINO_def)

lemma unlink_counted:
  assumes s: "ns_ok s F" and p: "p \<in> set (tab s)" "ino_of s p = ROOT" and g: "g \<in> set (tab s)" "v = vn_of s g" "g \<noteq> p"
    and k: "names_at (slots s ROOT) name k" "sfd_ino (slots s ROOT ! k) = sv_ino v"
    and st: "dir_step p ROOT F {} (put_slot k no_entry (slots s ROOT)) s t"
  shows "wp (linkcount_dec g) (\<lambda>_ u. ns_ok u F \<and> fmap u = (fmap s)(name := None) \<and> refs u = refs s \<and>
       (\<forall>i \<in> F - {ROOT, sv_ino v}. keeps s u i) \<and> contents u (sv_ino v) = contents s (sv_ino v) \<and>
       biglock_depth u = biglock_depth s \<and> tab u = tab s \<and>
       vn_of u g = v\<lparr>sv_i := (sv_i v)\<lparr>sfi_linkcount := sfi_linkcount (sv_i v) - 1\<rparr>, sv_dirty := True\<rparr>) E t"
proof -
  let ?L = "slots s ROOT"
  note n = ns_parts [OF s] and vv = vol_vnode [OF ns_parts(1) [OF s] g(1,2)]
  have kl: "k \<le> length ?L" "k < length ?L" "live (?L ! k)" using k(1) by (simp_all add: names_at_def)
  have ino: "sv_ino v \<noteq> 0" "sv_ino v \<noteq> ROOT" using file_no [OF n(1) vv(4)] n(7) [of "?L ! k"] kl k(2) by simp_all
  have lk: "links (put_slot k no_entry ?L) i + of_bool (i = sv_ino v) = links ?L i" if "i \<noteq> 0" for i
    using links_put [OF kl(1), of no_entry i] kl(2) k(2) no_entry_dead(2) that by auto
  have lv: "sfi_linkcount (sv_i v) = links ?L (sv_ino v)" using n(5) [OF vv(4) ino(2)] vv(9) by simp
  have pos: "sfi_linkcount (sv_i v) > 0" using lk [OF ino(1)] lv by simp
  have n1: "sfi_linkcount (sv_i v) - 1 = links (put_slot k no_entry ?L) (sv_ino v)" "sfi_linkcount (sv_i v) - 1 < 2 ^ 16"
    using lk [OF ino(1)] lv links_small [OF n(1,2), of "sv_ino v"] by simp_all
  have ent: "sfd_ino e \<in> F - {ROOT}" if "e \<in> set (put_slot k no_entry ?L)" "live e" for e
    using set_put_slot [OF that(1)] no_entry_dead n(7) [of e] that(2) by auto
  have rl: "sfi_linkcount (inode_at s ROOT) > 0" using s by (simp add: ns_ok_def)
  have lc: "sfi_linkcount (inode_at s i) = links (put_slot k no_entry ?L) i \<and> (links (put_slot k no_entry ?L) i = 0 \<longrightarrow> refs s i > 0)"
    if "i \<in> F - {ROOT}" "i \<noteq> sv_ino v" for i
    using that n(5,8) [of i] lk [of i] file_no [OF n(1), of i] by auto
  have ty: "sfi_type (inode_at s i) = SFS_TYPE_FILE" if "i \<in> F - {ROOT}" for i using that n(6) by simp
  note nr = ns_relink [OF n(1,2) rl st ent g(1,3,2) ino(2) n1 refl ty lc]
  have at: "vn_at g t = Some v" using dir_step_other(3) [OF st g(1,3)] vv(2) by simp
  have fm: "dmap (put_slot k no_entry ?L) = (fmap s)(name := None)"
    using dmap_unlink(2) [OF n(4) k(1) no_entry_dead(1)] by (simp add: fmap_def)
  show ?thesis
    unfolding linkcount_dec_def wp_kbind wp_sv_get wp_kthen wp_kassert wp_sv_mod at option.case
    using nr(1) nr(2) [unfolded fm] nr(3) nr(4) nr(5) nr(6) nr(8) nr(10) pos by simp
qed

text \<open>What removing leaves: all files, or all but the one whose last link and reference it was.\<close>

definition removed :: "nat set \<Rightarrow> nat \<Rightarrow> sfs_fs \<Rightarrow> nat set" where
  "removed F ino s = (if sfi_linkcount (inode_at s ino) = 1 \<and> refs s ino = 0 then F - {ino} else F)"

lemma remove_body_wp:
  assumes s: "ns_ok s F" and p: "p \<in> set (tab s)" "ino_of s p = ROOT"
  shows "wp (kbind (sfs_lookonce p name) (\<lambda>(victim, slot).
         kbind (ktry (sfs_dir_unlink p slot)) (\<lambda>result.
         kthen (case result of Inr _ \<Rightarrow> linkcount_dec victim | Inl _ \<Rightarrow> kret ())
         (kthen (sfs_decref victim)
           (case result of Inr _ \<Rightarrow> kret () | Inl e \<Rightarrow> kfail e)))))
    (\<lambda>_ t. biglock_depth t = biglock_depth s \<and> (\<exists>ino. fmap s name = Some ino \<and> ns_ok t (removed F ino s) \<and>
       fmap t = (fmap s)(name := None) \<and> refs t = refs s \<and> (\<forall>i \<in> F - {ROOT, ino}. keeps s t i) \<and>
       (ino \<in> removed F ino s \<longrightarrow> contents t ino = contents s ino)))
    (\<lambda>e t. (e = ENOENT \<and> fmap s name = None \<or> e = ENOMEM \<and> fmap s name \<noteq> None) \<and> ns_keep F s t \<and> refs t = refs s) s"
    (is "wp _ ?Q ?E s")
proof -
  let ?L = "slots s ROOT"
  note n = ns_parts [OF s]
  define pv where "pv = vn_of s p"
  have pv: "ROOT = sv_ino pv" using p(2) by (simp add: pv_def ino_of_def)
  have io: "ino \<in> F \<and> sfi_linkcount (inode_at s ino) > 0" if "dmap ?L name = Some ino" for ino
    using fmap_file [OF s] that by (simp add: fmap_def)
  have main: "wp (sfs_dir_unlink p (int k))
        (\<lambda>_. wp (linkcount_dec g) (\<lambda>_. wp (sfs_decref g) ?Q ?E) ?E) E' t"
    if g: "got g ino s t" "vol_ok t F {}" and k: "fmap s name = Some ino" "names_at ?L name k" "sfd_ino (?L ! k) = ino" for g ino k t E'
  proof -
    note ff = fmap_file [OF s k(1)]
    note gv = got_vnode [OF s g p ff(2)] and gn = got_ns [OF s g]
    define v where "v = vn_of t g"
    have vi: "sv_ino v = ino" "sv_i v = inode_at s ino" "vn_refcount v = refs s ino + 1" using gv by (simp_all add: v_def)
    have pt: "ROOT = sv_ino (vn_of t p)" using gv(6) by (simp add: ino_of_def)
    have kt: "names_at (slots t ROOT) name k" "sfd_ino (slots t ROOT ! k) = sv_ino v" using k gv(8) vi by simp_all
    note tn = ns_parts [OF gn(2)]
    have kst: "keeps s t i" for i using g(1) by (simp add: got_def keeps_def owned_def)
    have dec: "?Q () w" if u: "ns_ok u F" "fmap u = (fmap t)(name := None)" "refs u = refs t"
        "\<forall>i \<in> F - {ROOT, sv_ino v}. keeps t u i" "contents u (sv_ino v) = contents t (sv_ino v)"
        "biglock_depth u = biglock_depth t" "tab u = tab t"
        "vn_of u g = v\<lparr>sv_i := (sv_i v)\<lparr>sfi_linkcount := sfi_linkcount (sv_i v) - 1\<rparr>, sv_dirty := True\<rparr>"
      and w: "dropped g (vn_of u g) (if vn_refcount (vn_of u g) = 1 then remaining F (vn_of u g) else F) u w" for u w
    proof -
      have gu: "g \<in> set (tab u)" using u(7) gv(1) by simp
      have G: "(if vn_refcount (vn_of u g) = 1 then remaining F (vn_of u g) else F) = removed F ino s"
        using u(8) vi ff(3) by (auto simp: remaining_def removed_def)
      note dn = dropped_ns [OF u(1) gu refl G [symmetric] w [unfolded G]]
      have d: "refs w = (refs u)(ino := refs u ino - 1)" "\<forall>i \<in> removed F ino s. keeps u w i" "biglock_depth w = biglock_depth u"
        using w [unfolded G] u(8) vi(1) by (simp_all add: dropped_def)
      have "refs w = refs s" using d(1) u(3) gv(9) by (simp add: fun_eq_iff)
      moreover have "keeps s w i" if "i \<in> F - {ROOT, ino}" for i
      proof (rule keeps_trans [OF keeps_trans])
        show "keeps s t i" "keeps t u i" "keeps u w i" using that kst u(4) d(2) vi(1) by (auto simp: removed_def)
      qed
      moreover have "contents w ino = contents s ino" if "ino \<in> removed F ino s"
      proof -
        have "contents w ino = contents u ino" by (rule keeps_contents) (use d(2) that in blast)
        also have "\<dots> = contents t ino" using u(5) vi(1) by simp
        also have "\<dots> = contents s ino" by (rule keeps_contents [OF kst])
        finally show ?thesis .
      qed
      moreover have "biglock_depth t = biglock_depth s" using g(1) by (simp add: got_def)
      ultimately show ?thesis using dn(1,2) u(2,6) gn(3) d(3) k(1) by simp
    qed
    show ?thesis
    proof (rule wp_conseq [OF sfs_dir_unlink_wp [OF tn(1) gv(4) refl pt tn(3) kt(1)]], goal_cases)
      case (1 x t2)
      then have st: "dir_step p ROOT F {} (put_slot k no_entry (slots t ROOT)) t t2" by (simp add: no_entry_def)
      show ?case
      proof (rule wp_conseq [OF unlink_counted [OF gn(2) gv(4,6) gv(1) v_def gv(3) kt st]], goal_cases)
        case (1 y u)
        then have gu: "g \<in> set (tab u)" "ns_ok u F" using gv(1) by simp_all
        show ?case
          by (rule wp_conseq [OF sfs_decref_wp [OF ns_parts(1) [OF gu(2)] gu(1) refl]]) (use dec [of u] 1 in simp_all)
      qed simp
    qed simp
  qed
  show ?thesis
    unfolding wp_kbind
  proof (rule wp_conseq [OF sfs_lookonce_wp [OF n(1) p(1) pv_def pv n(3) io]], goal_cases)
    case (2 x t)
    obtain g slot where x: "x = (g, slot)" by (cases x)
    then obtain ino k where g: "dmap ?L name = Some ino" "slot = int k" "names_at ?L name k" "sfd_ino (?L ! k) = ino"
      "vol_ok t F {}" "got g ino s t" using 2 by auto
    show ?case
      using main [OF g(6,5) _ g(3,4)] g(1) x g(2) by (simp add: fmap_def)
  next
    case (3 e t)
    then show ?case using quiet_ns_keep [OF s, of t] by (auto simp: fmap_def)
  qed simp_all
qed

text \<open>Both entries of a rename, and both counts; the reference of the lookup is still there.\<close>

definition link_error :: "cstr \<Rightarrow> sfs_fs \<Rightarrow> errno \<Rightarrow> bool" where
  "link_error name s e \<longleftrightarrow> e = EEXIST \<and> fmap s name \<noteq> None \<or>
     fmap s name = None \<and> (e = ENAMETOOLONG \<and> SFS_NAMELEN \<le> length name \<or> e = ENOSPC \<or> e = EFBIG)"

lemma link_body_wp:
  assumes s: "ns_ok s F" and p: "p \<in> set (tab s)" "ino_of s p = ROOT" and g: "g \<in> set (tab s)" "v = vn_of s g" "sv_ino v \<noteq> ROOT"
    and nm: "0 \<notin> set name"
  shows "wp (kbind (sfs_dir_link p name (sv_ino v)) (\<lambda>slot. kthen (linkcount_inc g) (kret slot)))
    (\<lambda>slot u. ns_ok u F \<and> fmap s name = None \<and> fmap u = (fmap s)(name \<mapsto> sv_ino v) \<and> refs u = refs s \<and>
       (\<forall>i \<in> F - {ROOT, sv_ino v}. keeps s u i) \<and> contents u (sv_ino v) = contents s (sv_ino v) \<and>
       biglock_depth u = biglock_depth s \<and> tab u = tab s \<and>
       vn_of u g = v\<lparr>sv_i := (sv_i v)\<lparr>sfi_linkcount := sfi_linkcount (sv_i v) + 1\<rparr>, sv_dirty := True\<rparr> \<and> ino_of u p = ROOT \<and>
       (\<exists>k. slot = int k \<and> (\<forall>nm i. names_at (slots s ROOT) nm i \<longrightarrow> names_at (slots u ROOT) nm i \<and> slots u ROOT ! i = slots s ROOT ! i)))
    (\<lambda>e t. link_error name s e \<and> dir_step p ROOT F {} (slots s ROOT) s t) s"
    (is "wp _ ?Q ?E s")
proof -
  let ?L = "slots s ROOT"
  note n = ns_parts [OF s] and vv = vol_vnode [OF ns_parts(1) [OF s] g(1,2)]
  have pv: "ROOT = sv_ino (vn_of s p)" using p(2) by (simp add: ino_of_def)
  have gp: "g \<noteq> p" using pv g(2,3) by auto
  have ino: "sv_ino v < 2 ^ 32" "sv_ino v \<noteq> 0" using file_no [OF n(1) vv(4)] by simp_all
  show ?thesis
    unfolding wp_kbind
  proof (rule wp_conseq [OF sfs_dir_link_wp [OF n(1) p(1) refl pv n(3) nm ino]], goal_cases)
    case (1 slot t)
    then obtain k where k: "slot = int k" "k \<le> length ?L" "k < length ?L \<Longrightarrow> \<not> live (?L ! k)" "dmap ?L name = None"
      "length name < SFS_NAMELEN" "dir_step p ROOT F {} (put_slot k (sfs_mkdirentry (sv_ino v) name) ?L) s t" by blast
    have keep: "names_at (put_slot k (sfs_mkdirentry (sv_ino v) name) ?L) nm i \<and> put_slot k (sfs_mkdirentry (sv_ino v) name) ?L ! i = ?L ! i"
      if "names_at ?L nm i" for nm i
      by (rule put_names [OF k(2) that]) (use that k(3) in \<open>auto simp: names_at_def\<close>)
    have "wp (linkcount_inc g) (\<lambda>_. ?Q slot) ?E t"
    proof (rule wp_conseq [OF link_counted [OF s p g(1,2) gp g(3) k(2) _ k(4,5) nm k(6)]], goal_cases)
      case 1
      then show ?case by (rule k(3))
    next
      case (2 y u)
      moreover have "fmap s name = None" using k(4) by (simp add: fmap_def)
      ultimately show ?case using k(1) keep by simp
    qed simp
    then show ?case by simp
  next
    case (2 e t)
    then show ?case by (auto simp: link_error_def fmap_def)
  qed
qed

lemma rename_linked_wp:
  assumes s: "ns_ok s F" and p: "p \<in> set (tab s)" "ino_of s p = ROOT" and g: "g \<in> set (tab s)" "v = vn_of s g" "sv_ino v \<noteq> ROOT"
    and nm: "0 \<notin> set n2" and k: "names_at (slots s ROOT) n1 k" "sfd_ino (slots s ROOT ! k) = sv_ino v"
  shows "wp (sfs_rename_linked p n2 g (int k))
    (\<lambda>_ u. fmap s n2 = None \<and> ns_ok u F \<and> fmap u = (fmap s)(n2 \<mapsto> sv_ino v, n1 := None) \<and> refs u = refs s \<and>
       (\<forall>i \<in> F - {ROOT, sv_ino v}. keeps s u i) \<and> contents u (sv_ino v) = contents s (sv_ino v) \<and>
       biglock_depth u = biglock_depth s \<and> tab u = tab s \<and>
       sv_ino (vn_of u g) = sv_ino v \<and> vn_refcount (vn_of u g) = vn_refcount v \<and> sfi_linkcount (sv_i (vn_of u g)) = sfi_linkcount (sv_i v))
    (\<lambda>e t. link_error n2 s e \<and> dir_step p ROOT F {} (slots s ROOT) s t) s"
    (is "wp _ ?Q ?E s")
proof -
  let ?L = "slots s ROOT"
  note n = ns_parts [OF s] and vv = vol_vnode [OF ns_parts(1) [OF s] g(1,2)]
  have gp: "g \<noteq> p" using p(2) g(2,3) by (auto simp: ino_of_def)
  have rest: "wp (sfs_dir_unlink p (int k)) (\<lambda>_. wp (linkcount_dec g) ?Q ?E) E' u"
    if u: "ns_ok u F" "fmap s n2 = None" "fmap u = (fmap s)(n2 \<mapsto> sv_ino v)" "refs u = refs s"
      "\<forall>i \<in> F - {ROOT, sv_ino v}. keeps s u i" "contents u (sv_ino v) = contents s (sv_ino v)"
      "biglock_depth u = biglock_depth s" "tab u = tab s"
      "vn_of u g = v\<lparr>sv_i := (sv_i v)\<lparr>sfi_linkcount := sfi_linkcount (sv_i v) + 1\<rparr>, sv_dirty := True\<rparr>" "ino_of u p = ROOT"
      "\<forall>nm i. names_at ?L nm i \<longrightarrow> names_at (slots u ROOT) nm i \<and> slots u ROOT ! i = ?L ! i" for u E'
  proof -
    note un = ns_parts [OF u(1)]
    have pu: "p \<in> set (tab u)" "g \<in> set (tab u)" using u(8) p g by simp_all
    have rp: "ROOT = sv_ino (vn_of u p)" using u(10) by (simp add: ino_of_def)
    have ku: "names_at (slots u ROOT) n1 k" "sfd_ino (slots u ROOT ! k) = sv_ino (vn_of u g)" using u(9,11) k by simp_all
    show ?thesis
    proof (rule wp_conseq [OF sfs_dir_unlink_wp [OF un(1) pu(1) refl rp un(3) ku(1)]], goal_cases)
      case (1 x t2)
      then have st: "dir_step p ROOT F {} (put_slot k no_entry (slots u ROOT)) u t2" by (simp add: no_entry_def)
      show ?case
      proof (rule wp_conseq [OF unlink_counted [OF u(1) pu(1) u(10) pu(2) refl gp ku st]], goal_cases)
        case (1 y w)
        have "keeps s w i" if "i \<in> F - {ROOT, sv_ino v}" for i
        proof (rule keeps_trans)
          show "keeps s u i" "keeps u w i" using that u(5,9) 1 by simp_all
        qed
        then show ?case using 1 u by simp
      qed simp
    qed simp
  qed
  have "wp (kbind (sfs_dir_link p n2 (sv_ino v)) (\<lambda>slot. kthen (linkcount_inc g) (kret slot)))
     (\<lambda>slot2. wp (kbind (ktry (sfs_dir_unlink p (int k))) (\<lambda>result.
        case result of
          Inr _ \<Rightarrow> linkcount_dec g
        | Inl e \<Rightarrow>
            kbind (ktry (sfs_dir_unlink p slot2)) (\<lambda>result2.
              case result2 of
                Inl _ \<Rightarrow> kpanic
              | Inr _ \<Rightarrow>
                  kthen (sv_mod g (\<lambda>v. v\<lparr>sv_i := (sv_i v)\<lparr>sfi_linkcount :=
                     (sfi_linkcount (sv_i v) + 2 ^ 16 - 1) mod 2 ^ 16\<rparr>\<rparr>)) (kfail e)))) ?Q ?E) ?E s"
  proof (rule wp_conseq [OF link_body_wp [OF s p g nm]], goal_cases)
    case (1 slot u)
    then have "wp (sfs_dir_unlink p (int k)) (\<lambda>_. wp (linkcount_dec g) ?Q ?E) E' u" for E' by (intro rest) auto
    then show ?case by simp
  qed simp
  then show ?thesis
    unfolding sfs_rename_linked_def wp_kbind wp_sv_get vv(2) option.case wp_kthen wp_kret by simp
qed

subsection \<open>The vnode operations on names\<close>

text \<open>What callers see has not changed.\<close>

definition unchanged :: "nat set \<Rightarrow> sfs_fs \<Rightarrow> sfs_fs \<Rightarrow> bool" where
  "unchanged F s t \<longleftrightarrow> ns_ok t F \<and> fmap t = fmap s \<and> refs t = refs s \<and> (\<forall>i \<in> F - {ROOT}. view t i = view s i) \<and>
     biglock_depth t = biglock_depth s"

lemma unchanged_locked:
  assumes s: "ns_ok s F" and t: "ns_keep F (s\<lparr>biglock_depth := Suc (biglock_depth s)\<rparr>) t" "refs t = refs s"
  shows "biglock_depth t = Suc (biglock_depth s) \<and> unchanged F s (t\<lparr>biglock_depth := biglock_depth s\<rparr>)"
proof -
  let ?s = "s\<lparr>biglock_depth := Suc (biglock_depth s)\<rparr>"
  have s0: "ns_ok ?s F" using s by simp
  have "ns_ok t F" "fmap t = fmap s" using ns_keep_ok [OF s0 t(1)] t(2) by simp_all
  moreover have "view t i = view s i" if "i \<in> F - {ROOT}" for i
    using keeps_view [of s t i] t(1) that by (simp add: ns_keep_def)
  moreover have "biglock_depth t = Suc (biglock_depth s)" using t(1) by (simp add: ns_keep_def)
  ultimately show ?thesis using t(2) by (simp add: unchanged_def)
qed

lemma got_locked:
  assumes s: "ns_ok s F" and t: "got q ino (s\<lparr>biglock_depth := Suc (biglock_depth s)\<rparr>) t" "vol_ok t F {}"
  shows "biglock_depth t = Suc (biglock_depth s) \<and> q \<in> set (tab t) \<and> ino_of t q = ino \<and> ns_ok t F \<and> fmap t = fmap s \<and>
    refs t = (refs s)(ino := refs s ino + 1) \<and> view t = view s"
proof -
  let ?s = "s\<lparr>biglock_depth := Suc (biglock_depth s)\<rparr>"
  have s0: "ns_ok ?s F" using s by simp
  show ?thesis using got_ns [OF s0 t] got_view [OF t(1)] t(1) by (simp add: got_def)
qed

lemma sfs_lookup_wp:
  assumes s: "ns_ok s F" and p: "p \<in> set (tab s)" "ino_of s p = ROOT"
  shows "wp (sfs_lookup p name)
    (\<lambda>q t. \<exists>ino. fmap s name = Some ino \<and> q \<in> set (tab t) \<and> ino_of t q = ino \<and> ns_ok t F \<and> fmap t = fmap s \<and>
       refs t = (refs s)(ino := refs s ino + 1) \<and> view t = view s \<and> biglock_depth t = biglock_depth s)
    (\<lambda>e t. (e = ENOENT \<and> fmap s name = None \<or> e = ENOMEM \<and> fmap s name \<noteq> None) \<and> unchanged F s t) s"
    (is "wp _ ?Q ?E s")
proof -
  define s0 where "s0 = s\<lparr>biglock_depth := Suc (biglock_depth s)\<rparr>"
  have s0: "ns_ok s0 F" "p \<in> set (tab s0)" "fmap s0 = fmap s" "refs s0 = refs s" using s p by (simp_all add: s0_def)
  note n = ns_parts [OF s0(1)]
  have pv: "ROOT = sv_ino (vn_of s0 p)" using p(2) by (simp add: s0_def ino_of_def)
  note vv = vol_vnode [OF n(1) s0(2) refl]
  have ty: "sfi_type (sv_i (vn_of s0 p)) = SFS_TYPE_DIR" using vv(9) pv n(3) by (simp add: is_dir_def)
  have io: "ino \<in> F \<and> sfi_linkcount (inode_at s0 ino) > 0" if "dmap (slots s0 ROOT) name = Some ino" for ino
    using fmap_file [OF s0(1)] that by (simp add: fmap_def)
  have "wp (sfs_lookonce p name)
     (\<lambda>x t. biglock_depth t = Suc (biglock_depth s) \<and> ?Q (fst x) (t\<lparr>biglock_depth := biglock_depth s\<rparr>))
     (\<lambda>e t. biglock_depth t = Suc (biglock_depth s) \<and> ?E e (t\<lparr>biglock_depth := biglock_depth s\<rparr>)) s0"
  proof (rule wp_conseq [OF sfs_lookonce_wp [OF n(1) s0(2) refl pv n(3) io]], goal_cases)
    case (2 x t)
    then obtain ino where g: "dmap (slots s0 ROOT) name = Some ino" "got (fst x) ino s0 t" "vol_ok t F {}"
      by (auto split: prod.splits)
    show ?case using got_locked [OF s g(2,3) [unfolded s0_def]] g(1) s0(3) by (simp add: fmap_def)
  next
    case (3 e t)
    then have "ns_keep F s0 t" "refs t = refs s" using quiet_ns_keep [OF s0(1), of t] s0(4) by simp_all
    then show ?case using unchanged_locked [OF s, of t] 3 s0(3) unfolding s0_def [symmetric] by (auto simp: fmap_def)
  qed simp_all
  then have "wp (kbind (ktry (kbind (sfs_lookonce p name) (\<lambda>(final, _). kret final))) unlock_return) ?Q ?E s0"
    unfolding wp_kbind wp_ktry
    by (rule wp_conseq) (auto simp: wp_unlock_return case_prod_unfold)
  then show ?thesis
    unfolding sfs_lookup_def wp_kthen wp_biglock s0_def [symmetric] wp_kbind [of "sv_get _ _"] wp_sv_get vv(2) option.case ty
    by (simp only: not_True_eq_False if_False simp_thms)
qed

lemma sfs_creat_wp:
  assumes s: "ns_ok s F" and p: "p \<in> set (tab s)" "ino_of s p = ROOT" and nm: "0 \<notin> set name"
  shows "wp (sfs_creat p name excl)
    (\<lambda>q t. biglock_depth t = biglock_depth s \<and>
       (case fmap s name of
          Some ino \<Rightarrow> \<not> excl \<and> q \<in> set (tab t) \<and> ino_of t q = ino \<and> ns_ok t F \<and> fmap t = fmap s \<and>
            refs t = (refs s)(ino := refs s ino + 1) \<and> view t = view s
        | None \<Rightarrow> length name < SFS_NAMELEN \<and> (\<exists>ino. created name q ino F s t)))
    (\<lambda>e t. creat_error name excl s e \<and> unchanged F s t) s"
    (is "wp _ ?Q ?E s")
  unfolding sfs_creat_def
proof (rule locked_wp, goal_cases)
  case 1
  define s0 where "s0 = s\<lparr>biglock_depth := Suc (biglock_depth s)\<rparr>"
  have s0: "ns_ok s0 F" "p \<in> set (tab s0)" "ino_of s0 p = ROOT" "fmap s0 = fmap s" "refs s0 = refs s" using s p by (simp_all add: s0_def)
  have ce: "creat_error name excl s0 = creat_error name excl s" by (rule ext) (simp add: creat_error_def s0(4))
  show ?case
    unfolding s0_def [symmetric]
  proof (rule wp_conseq [OF sfs_creat_body_wp [OF s0(1-3) nm]], goal_cases)
    case (1 q t)
    show ?case
    proof (cases "fmap s name")
      case (Some ino)
      then have "got q ino s0 t" "vol_ok t F {}" "\<not> excl" using 1 s0(4) by simp_all
      then show ?thesis using got_locked [OF s, of q ino t] Some unfolding s0_def by simp
    next
      case None
      then show ?thesis using 1 s0(4) by (auto simp: created_def s0_def)
    qed
  next
    case (2 e t)
    then show ?case using unchanged_locked [OF s, of t] s0(5) ce unfolding s0_def [symmetric] by simp
  qed
qed

lemma sfs_remove_wp:
  assumes s: "ns_ok s F" and p: "p \<in> set (tab s)" "ino_of s p = ROOT"
  shows "wp (sfs_remove p name)
    (\<lambda>_ t. biglock_depth t = biglock_depth s \<and> (\<exists>ino. fmap s name = Some ino \<and> ns_ok t (removed F ino s) \<and>
       fmap t = (fmap s)(name := None) \<and> refs t = refs s \<and> (\<forall>i \<in> F - {ROOT, ino}. view t i = view s i) \<and>
       (ino \<in> removed F ino s \<longrightarrow> contents t ino = contents s ino)))
    (\<lambda>e t. (e = ENOENT \<and> fmap s name = None \<or> e = ENOMEM \<and> fmap s name \<noteq> None) \<and> unchanged F s t) s"
  unfolding sfs_remove_def
proof (rule locked_wp, goal_cases)
  case 1
  define s0 where "s0 = s\<lparr>biglock_depth := Suc (biglock_depth s)\<rparr>"
  have s0: "ns_ok s0 F" "p \<in> set (tab s0)" "ino_of s0 p = ROOT" "fmap s0 = fmap s" "refs s0 = refs s" using s p by (simp_all add: s0_def)
  have rm: "removed F ino s0 = removed F ino s" "contents s0 = contents s" "keeps s0 t i = keeps s t i" for ino t i
    by (simp_all add: removed_def s0_def)
  show ?case
    unfolding s0_def [symmetric]
  proof (rule wp_conseq [OF remove_body_wp [OF s0(1-3)]], goal_cases)
    case (1 x t)
    then show ?case using keeps_view [of s t] rm s0 by (auto simp: s0_def)
  next
    case (2 e t)
    then show ?case using unchanged_locked [OF s, of t] s0(4,5) unfolding s0_def [symmetric] by simp
  qed
qed

definition rename_error :: "cstr \<Rightarrow> cstr \<Rightarrow> sfs_fs \<Rightarrow> errno \<Rightarrow> bool" where
  "rename_error n1 n2 s e \<longleftrightarrow>
     (if fmap s n1 = None then e = ENOENT else e = ENOMEM \<or> link_error n2 s e)"

lemma rename_body_wp:
  assumes s: "ns_ok s F" and p: "p \<in> set (tab s)" "ino_of s p = ROOT" and nm: "0 \<notin> set n2"
  shows "wp (kbind (sfs_lookonce p n1) (\<lambda>(g1, slot1).
          kbind (sv_get g1 (\<lambda>v. sfi_type (sv_i v))) (\<lambda>type.
          kthen (kassert (\<lambda>_. type = SFS_TYPE_FILE))
          (kbind (ktry (sfs_rename_linked p n2 g1 slot1)) (\<lambda>result.
           kthen (sfs_decref g1)
             (case result of Inr _ \<Rightarrow> kret () | Inl e \<Rightarrow> kfail e))))))
    (\<lambda>_ t. biglock_depth t = biglock_depth s \<and> (\<exists>ino. fmap s n1 = Some ino \<and> fmap s n2 = None \<and> ns_ok t F \<and>
       fmap t = (fmap s)(n2 \<mapsto> ino, n1 := None) \<and> refs t = refs s \<and> (\<forall>i \<in> F - {ROOT, ino}. keeps s t i) \<and>
       contents t ino = contents s ino))
    (\<lambda>e t. rename_error n1 n2 s e \<and> ns_keep F s t \<and> refs t = refs s) s"
    (is "wp _ ?Q ?E s")
proof -
  let ?L = "slots s ROOT"
  note n = ns_parts [OF s]
  define pv where "pv = vn_of s p"
  have pv: "ROOT = sv_ino pv" using p(2) by (simp add: pv_def ino_of_def)
  have io: "ino \<in> F \<and> sfi_linkcount (inode_at s ino) > 0" if "dmap ?L n1 = Some ino" for ino
    using fmap_file [OF s] that by (simp add: fmap_def)
  have main: "wp (sfs_rename_linked p n2 g (int k)) (\<lambda>_. wp (sfs_decref g) ?Q ?E)
      (\<lambda>e. wp (sfs_decref g) (\<lambda>_. ?E e) ?E) t"
    if g: "got g ino s t" "vol_ok t F {}" and k: "fmap s n1 = Some ino" "names_at ?L n1 k" "sfd_ino (?L ! k) = ino" for g ino k t
  proof -
    note ff = fmap_file [OF s k(1)]
    note gv = got_vnode [OF s g p ff(2)] and gn = got_ns [OF s g]
    define v where "v = vn_of t g"
    have vi: "sv_ino v = ino" "sv_i v = inode_at s ino" "vn_refcount v = refs s ino + 1" using gv by (simp_all add: v_def)
    have ne: "sv_ino v \<noteq> ROOT" using ff(2) vi by simp
    have kt: "names_at (slots t ROOT) n1 k" "sfd_ino (slots t ROOT ! k) = sv_ino v" using k gv(8) vi by simp_all
    have kst: "keeps s t i" for i using g(1) by (simp add: got_def keeps_def owned_def)
    have bl: "biglock_depth t = biglock_depth s" using g(1) by (simp add: got_def)
    have dec: "wp (sfs_decref g) (\<lambda>_ w. ns_ok w F \<and> fmap w = fmap u \<and> refs w = refs s \<and> (\<forall>i \<in> F. keeps u w i) \<and>
        biglock_depth w = biglock_depth u \<and> sfs_sb w = sfs_sb u \<and> sfs_superdirty w = sfs_superdirty u) E' u"
      if u: "ns_ok u F" "refs u = refs t" "g \<in> set (tab u)" "sv_ino (vn_of u g) = ino" "sfi_linkcount (sv_i (vn_of u g)) > 0" for u E'
    proof (rule wp_conseq [OF sfs_decref_wp [OF ns_parts(1) [OF u(1)] u(3) refl]], goal_cases)
      case (1 x w)
      have G: "F = (if vn_refcount (vn_of u g) = 1 then remaining F (vn_of u g) else F)"
        using u(5) by (simp add: remaining_def)
      from 1 have d: "dropped g (vn_of u g) F u w" using G by simp
      have "refs w = refs s" using d u(2,4) gv(9) by (simp add: dropped_def fun_eq_iff)
      then show ?case using dropped_ns [OF u(1,3) refl G d] d by (simp add: dropped_def)
    qed simp
    show ?thesis
    proof (rule wp_conseq [OF rename_linked_wp [OF gn(2) gv(4,6) gv(1) v_def ne nm kt]], goal_cases)
      case (1 x u)
      note r = this
      then have u: "ns_ok u F" "refs u = refs t" "g \<in> set (tab u)" "sv_ino (vn_of u g) = ino" "sfi_linkcount (sv_i (vn_of u g)) > 0"
        using gv(1) vi ff(3) by simp_all
      show ?case
      proof (rule wp_conseq [OF dec [OF u]], goal_cases)
        case (1 y w)
        have "keeps s w i" if i: "i \<in> F - {ROOT, ino}" for i
        proof (rule keeps_trans [OF keeps_trans])
          show "keeps s t i" by (rule kst)
          show "keeps t u i" using i r vi(1) by simp
          show "keeps u w i" using i 1 by simp
        qed
        moreover have "contents w ino = contents s ino"
        proof -
          have "contents w ino = contents u ino" by (rule keeps_contents) (use 1 ff(1) in blast)
          also have "\<dots> = contents t ino" using r vi(1) by simp
          also have "\<dots> = contents s ino" by (rule keeps_contents [OF kst])
          finally show ?thesis .
        qed
        ultimately show ?case using 1 r gn(3) bl k(1) vi(1) by simp
      qed simp
    next
      case (2 e u)
      then have st: "dir_step p ROOT F {} (slots t ROOT) t u" "link_error n2 t e" by simp_all
      have er: "rename_error n1 n2 s e" using st(2) gn(3) k(1) by (simp add: rename_error_def link_error_def)
      note dk = dir_step_ns_keep [OF st(1)]
      have un: "ns_ok u F" using ns_keep_ok(1) [OF gn(2) dk(1)] dk(2) by simp
      note go = dir_step_other [OF st(1) gv(1,3)]
      have u: "g \<in> set (tab u)" "sv_ino (vn_of u g) = ino" "sfi_linkcount (sv_i (vn_of u g)) > 0"
        using go vi ff(3) by (simp_all add: v_def)
      show ?case
      proof (rule wp_conseq [OF dec [OF un dk(2) u]], goal_cases)
        case (1 y w)
        then have "ns_keep F u w" using ns_parts [OF un] ns_parts(1) [of w F] by (intro keeps_ns_keep) auto
        then have "ns_keep F s w" using ns_keep_trans [OF ns_keep_trans [OF gn(1) dk(1)]] by blast
        then show ?case using er 1 by simp
      qed simp
    qed
  qed
  show ?thesis
    unfolding wp_kbind
  proof (rule wp_conseq [OF sfs_lookonce_wp [OF n(1) p(1) pv_def pv n(3) io]], goal_cases)
    case (2 x t)
    obtain g slot where x: "x = (g, slot)" by (cases x)
    then obtain ino k where g: "dmap ?L n1 = Some ino" "slot = int k" "names_at ?L n1 k" "sfd_ino (?L ! k) = ino"
      "vol_ok t F {}" "got g ino s t" using 2 by auto
    have so: "fmap s n1 = Some ino" using g(1) by (simp add: fmap_def)
    note ff = fmap_file [OF s so] and gv = got_vnode [OF s g(6,5) p fmap_file(2) [OF s so]]
    have "vn_at g t = Some (vn_of t g)" by (rule vol_vnode(2) [OF g(5) gv(1) refl])
    moreover have "sfi_type (sv_i (vn_of t g)) = SFS_TYPE_FILE" using gv(7) n(6) [OF ff(1,2)] by simp
    ultimately show ?case
      using main [OF g(6,5) so g(3,4)] x g(2) by simp
  next
    case (3 e t)
    then show ?case using quiet_ns_keep [OF s, of t] by (auto simp: fmap_def rename_error_def)
  qed simp_all
qed

lemma sfs_rename_wp:
  assumes s: "ns_ok s F" and p: "p \<in> set (tab s)" "ino_of s p = ROOT" and nm: "0 \<notin> set n2"
  shows "wp (sfs_rename p n1 p n2)
    (\<lambda>_ t. biglock_depth t = biglock_depth s \<and> (\<exists>ino. fmap s n1 = Some ino \<and> fmap s n2 = None \<and> ns_ok t F \<and>
       fmap t = (fmap s)(n2 \<mapsto> ino, n1 := None) \<and> refs t = refs s \<and> (\<forall>i \<in> F - {ROOT, ino}. view t i = view s i) \<and>
       contents t ino = contents s ino))
    (\<lambda>e t. rename_error n1 n2 s e \<and> unchanged F s t) s"
    (is "wp _ ?Q ?E s")
proof -
  define s0 where "s0 = s\<lparr>biglock_depth := Suc (biglock_depth s)\<rparr>"
  have s0: "ns_ok s0 F" "p \<in> set (tab s0)" "ino_of s0 p = ROOT" "fmap s0 = fmap s" "refs s0 = refs s" using s p by (simp_all add: s0_def)
  have rm: "contents s0 = contents s" "keeps s0 t i = keeps s t i" for t i by (simp_all add: s0_def)
  have re: "rename_error n1 n2 s0 = rename_error n1 n2 s"
    by (rule ext) (simp add: rename_error_def link_error_def s0(4))
  have at: "vn_at p s0 = Some (vn_of s0 p)" by (rule vol_vnode(2) [OF ns_parts(1) [OF s0(1)] s0(2) refl])
  have rt: "sv_ino (vn_of s0 p) = ROOT" using s0(3) by (simp add: ino_of_def)
  let ?m = "kbind (sfs_lookonce p n1) (\<lambda>(g1, slot1).
          kbind (sv_get g1 (\<lambda>v. sfi_type (sv_i v))) (\<lambda>type.
          kthen (kassert (\<lambda>_. type = SFS_TYPE_FILE))
          (kbind (ktry (sfs_rename_linked p n2 g1 slot1)) (\<lambda>result.
           kthen (sfs_decref g1)
             (case result of Inr _ \<Rightarrow> kret () | Inl e \<Rightarrow> kfail e)))))"
  have body: "wp ?m (\<lambda>x t. biglock_depth t = Suc (biglock_depth s) \<and> ?Q x (t\<lparr>biglock_depth := biglock_depth s\<rparr>))
      (\<lambda>e t. biglock_depth t = Suc (biglock_depth s) \<and> ?E e (t\<lparr>biglock_depth := biglock_depth s\<rparr>)) s0"
  proof (rule wp_conseq [OF rename_body_wp [OF s0(1-3) nm]], goal_cases)
    case (1 x t)
    then show ?case using keeps_view [of s t] rm s0 by (auto simp: s0_def)
  next
    case (2 e t)
    then show ?case using unchanged_locked [OF s, of t] s0(5) re unfolding s0_def [symmetric] by simp
  qed
  have "wp (kbind (ktry ?m) unlock_return) ?Q ?E s0"
    unfolding wp_kbind [of "ktry _"] wp_ktry
    by (rule wp_conseq [OF body]) (auto simp: wp_unlock_return)
  then show ?thesis
    unfolding sfs_rename_def wp_kthen wp_biglock s0_def [symmetric] wp_kassert
      wp_kbind [of "sv_get p sv_ino"] wp_sv_get at option.case rt
    by (simp only: simp_thms)
qed

lemma sfs_link_wp:
  assumes s: "ns_ok s F" and p: "p \<in> set (tab s)" "ino_of s p = ROOT" and f: "f \<in> set (tab s)" and nm: "0 \<notin> set name"
  shows "wp (sfs_link p name f)
    (\<lambda>_ t. biglock_depth t = biglock_depth s \<and> ino_of s f \<noteq> ROOT \<and> fmap s name = None \<and> ns_ok t F \<and>
       fmap t = (fmap s)(name \<mapsto> ino_of s f) \<and> refs t = refs s \<and> (\<forall>i \<in> F - {ROOT, ino_of s f}. view t i = view s i) \<and>
       contents t (ino_of s f) = contents s (ino_of s f))
    (\<lambda>e t. (if ino_of s f = ROOT then e = EINVAL else link_error name s e) \<and> unchanged F s t) s"
    (is "wp _ ?Q ?E s")
proof -
  define s0 where "s0 = s\<lparr>biglock_depth := Suc (biglock_depth s)\<rparr>"
  have s0: "ns_ok s0 F" "p \<in> set (tab s0)" "ino_of s0 p = ROOT" "fmap s0 = fmap s" "refs s0 = refs s" "f \<in> set (tab s0)"
    using s p f by (simp_all add: s0_def)
  have rm: "contents s0 = contents s" "keeps s0 t i = keeps s t i" "ino_of s0 = ino_of s" for t i by (simp_all add: s0_def)
  have le: "link_error name s0 = link_error name s" by (rule ext) (simp add: link_error_def s0(4))
  define v where "v = vn_of s0 f"
  note n = ns_parts [OF s0(1)] and vv = vol_vnode [OF ns_parts(1) [OF s0(1)] s0(6) v_def]
  have vi: "sv_ino v = ino_of s f" using rm(3) by (simp add: v_def ino_of_def [symmetric])
  have ty: "sfi_type (sv_i v) = SFS_TYPE_DIR \<longleftrightarrow> ino_of s f = ROOT"
    using vv(4,9) n(3) n(6) [of "sv_ino v"] vi
    by (cases "ino_of s f = ROOT") (auto simp: is_dir_def SFS_TYPE_FILE_def SFS_TYPE_DIR_def)
  have same: "vn_at f s = Some v" "vn_at p s = Some (vn_of s0 p)"
    using vv(2) vol_vnode(2) [OF n(1) s0(2) refl] by (simp_all add: s0_def)
  have fs: "vn_fs v" "vn_fs (vn_of s0 p)" using vv(7) vol_vnode(7) [OF n(1) s0(2) refl] by (simp_all add: vnode_ok_def)
  let ?m = "kbind (sv_get f (\<lambda>f. sfi_type (sv_i f))) (\<lambda>type.
           if type = SFS_TYPE_DIR then kfail EINVAL
           else kbind (sv_get f sv_ino) (\<lambda>ino. kthen (sfs_dir_link p name ino) (linkcount_inc f)))"
  have nk: "ns_keep F s0 s0" using n by (intro keeps_ns_keep) auto
  have body: "wp ?m (\<lambda>x t. biglock_depth t = Suc (biglock_depth s) \<and> ?Q x (t\<lparr>biglock_depth := biglock_depth s\<rparr>))
      (\<lambda>e t. biglock_depth t = Suc (biglock_depth s) \<and> ?E e (t\<lparr>biglock_depth := biglock_depth s\<rparr>)) s0"
  proof (cases "ino_of s f = ROOT")
    case True
    then show ?thesis using unchanged_locked [OF s, of s0] nk s0(5) ty vv(2) unfolding s0_def [symmetric] by simp
  next
    case False
    then have ne: "sv_ino v \<noteq> ROOT" using vi by simp
    note lb = link_body_wp [OF s0(1-3) s0(6) v_def ne nm]
    have "wp (kthen (sfs_dir_link p name (sv_ino v)) (linkcount_inc f))
      (\<lambda>x t. biglock_depth t = Suc (biglock_depth s) \<and> ?Q x (t\<lparr>biglock_depth := biglock_depth s\<rparr>))
      (\<lambda>e t. biglock_depth t = Suc (biglock_depth s) \<and> ?E e (t\<lparr>biglock_depth := biglock_depth s\<rparr>)) s0"
      unfolding wp_kthen
    proof (rule wp_conseq [OF lb [unfolded wp_kbind wp_kthen wp_kret]], goal_cases)
      case (1 slot t)
      then show ?case
      proof (rule wp_conseq, goal_cases)
        case (1 x u)
        then show ?case using keeps_view [of s u] rm s0(4,5) False vi by (auto simp: s0_def)
      next
        case (2 e u)
        then show ?case
          using dir_step_ns_keep [of p F s0 u] unchanged_locked [OF s, of u] s0(5) le False unfolding s0_def [symmetric] by simp
      qed
    next
      case (2 e u)
      then show ?case
        using dir_step_ns_keep [of p F s0 u] unchanged_locked [OF s, of u] s0(5) le False unfolding s0_def [symmetric] by simp
    qed
    then show ?thesis using False ty vv(2) by simp
  qed
  have "wp (kbind (ktry ?m) unlock_return) ?Q ?E s0"
    unfolding wp_kbind [of "ktry _"] wp_ktry
    by (rule wp_conseq [OF body]) (auto simp: wp_unlock_return)
  then show ?thesis
    unfolding sfs_link_def wp_kthen wp_biglock s0_def [symmetric] wp_kassert
      wp_kbind [of "sv_get _ vn_fs"] wp_sv_get same option.case
    using fs by (simp only: simp_thms)
qed

end
