(* ===== verification/Sfs_Files.thy ===== *)
theory Sfs_Files
  imports Sfs_Nameops
begin

text \<open>
  Reading, writing and truncating files through the operations tables
  (\<open>kern/fs/sfs/sfs_vnops.c\<close>): what happens to the contents of the file, and that the rest of
  the volume stays as it is.
\<close>


subsection \<open>Operations through the tables\<close>

lemma wp_vop:
  assumes "vol_ok s F X" "p \<in> set (tab s)"
  shows "wp (vop p f d) Q E s = wp (if sfi_type (sv_i (vn_of s p)) = SFS_TYPE_FILE then f else d) Q E s"
proof -
  note vv = vol_vnode [OF assms refl]
  have "vn_refcount (vn_of s p) > 0" "vn_ops (vn_of s p) = sfs_ops_of_type (sfi_type (sv_i (vn_of s p)))"
    "sfs_ops_of_type (sfi_type (sv_i (vn_of s p))) \<noteq> None" using vv(7) by (auto simp: vnode_ok_def)
  then show ?thesis
    using vv(2) by (auto simp: vop_def on_vn_def sfs_ops_of_type_def split: if_splits)
qed

lemma wp_vop_uio:
  assumes "vol_ok s F X" "p \<in> set (tab s)"
  shows "wp (vop_uio p f d) Q E (s, u) = wp (if sfi_type (sv_i (vn_of s p)) = SFS_TYPE_FILE then f else d) Q E (s, u)"
proof -
  note vv = vol_vnode [OF assms refl]
  have "vn_refcount (vn_of s p) > 0" "vn_ops (vn_of s p) = sfs_ops_of_type (sfi_type (sv_i (vn_of s p)))"
    "sfs_ops_of_type (sfi_type (sv_i (vn_of s p))) \<noteq> None" using vv(7) by (auto simp: vnode_ok_def)
  then show ?thesis
    using vv(2) by (auto simp: vop_uio_def on_vn_def sfs_ops_of_type_def split: if_splits)
qed

text \<open>A vnode of a file, other than the root directory.\<close>

lemma ns_file:
  assumes s: "ns_ok s F" and p: "p \<in> set (tab s)" "v = vn_of s p" "sv_ino v \<noteq> ROOT"
  shows "sv_ino v \<in> F" "sfi_type (sv_i v) = SFS_TYPE_FILE" "inode_at s (sv_ino v) = sv_i v"
  using vol_vnode [OF ns_parts(1) [OF s] p(1,2)] ns_parts(6) [OF s, of "sv_ino v"] p(3) by simp_all

subsection \<open>A change of one file\<close>

lemma change_ns:
  assumes s: "ns_ok s F" and p: "p \<in> set (tab s)" "v = vn_of s p" "sv_ino v \<noteq> ROOT"
    and ch: "inode_change p s v t v'" and same: "sfi_type (sv_i v') = sfi_type (sv_i v)"
      "sfi_linkcount (sv_i v') = sfi_linkcount (sv_i v)" "vn_refcount v' = vn_refcount v"
  shows "ns_ok t F" "fmap t = fmap s" "refs t = refs s" "\<And>i. i \<in> F - {sv_ino v} \<Longrightarrow> view t i = view s i"
    "inode_at t (sv_ino v) = sv_i v'"
proof -
  note n = ns_parts [OF s] and vc = vol_change [OF ns_parts(1) [OF s] p(1,2) ch] and nf = ns_file [OF s p]
  have k: "keeps s t i" if "i \<in> F" "i \<noteq> sv_ino v" for i by (rule change_keeps(1) [OF n(1) p(1,2) ch that])
  show "inode_at t (sv_ino v) = sv_i v'" by (rule vc)
  show "refs t = refs s" by (rule change_refs [OF n(1) p(1,2) ch same(3)])
  show "view t i = view s i" if "i \<in> F - {sv_ino v}" for i using keeps_view k that by simp
  have kr: "keeps s t ROOT" using k n(2) p(3) by auto
  have sl: "slots t ROOT = slots s ROOT" by (rule keeps_slots [OF kr])
  then show "fmap t = fmap s" by (simp add: fmap_def)
  have ar: "inode_at t ROOT = inode_at s ROOT" using kr by (simp add: keeps_def)
  have "sfi_type (inode_at t i) = sfi_type (inode_at s i) \<and> sfi_linkcount (inode_at t i) = sfi_linkcount (inode_at s i)"
    if "i \<in> F" for i
    using k [OF that] vc(3) same(1,2) nf(3) by (cases "i = sv_ino v") (auto simp: keeps_def)
  moreover have "is_dir t ROOT" using n(3) ar sl by (simp add: is_dir_def)
  ultimately show "ns_ok t F"
    using s vc(1) ar unfolding ns_ok_def sl \<open>refs t = refs s\<close> by simp
qed

subsection \<open>Writing\<close>

lemma take_splice:
  assumes "off \<le> sz" "sz \<le> length fd" "off + length data \<le> length fd"
  shows "take (max sz (off + length data)) (splice_at off data fd) =
    take off (take sz fd) @ data @ drop (off + length data) (take sz fd)"
proof -
  have "take (sz - (off + length data)) (drop (off + length data) fd) = drop (off + length data) (take sz fd)" by (simp add: drop_take)
  then show ?thesis using assms by (auto simp: splice_at_def max_def min_def take_append)
qed

text \<open>The bytes \<open>data\<close> written at \<open>off\<close> over the file contents \<open>c\<close>.\<close>

definition overwrite :: "nat \<Rightarrow> byte list \<Rightarrow> byte list \<Rightarrow> byte list" where
  "overwrite off data c = take off c @ data @ drop (off + length data) c"

lemma locked_io:
  assumes "wp (sfs_io p) (\<lambda>x (t, u'). biglock_depth t = Suc (biglock_depth s) \<and> Q x (t\<lparr>biglock_depth := biglock_depth s\<rparr>, u'))
      (\<lambda>e (t, u'). biglock_depth t = Suc (biglock_depth s) \<and> E e (t\<lparr>biglock_depth := biglock_depth s\<rparr>, u'))
      (s\<lparr>biglock_depth := Suc (biglock_depth s)\<rparr>, u)"
  shows "uio_rw u = UIO_WRITE \<Longrightarrow> wp (sfs_write p) Q E (s, u)" "uio_rw u = UIO_READ \<Longrightarrow> wp (sfs_read p) Q E (s, u)"
proof -
  have "wp (kthen (on_fs biglock_acquire) (kbind (ktry (sfs_io p)) (\<lambda>result. on_fs (unlock_return result)))) Q E (s, u)"
    unfolding wp_kthen wp_on_fs wp_biglock wp_kbind wp_ktry prod.case
    by (rule wp_conseq [OF assms]) (auto simp: wp_unlock_return)
  then show "uio_rw u = UIO_WRITE \<Longrightarrow> wp (sfs_write p) Q E (s, u)" "uio_rw u = UIO_READ \<Longrightarrow> wp (sfs_read p) Q E (s, u)"
    by (simp_all add: sfs_write_def sfs_read_def)
qed

lemma VOP_WRITE_wp:
  assumes s: "ns_ok s F" and p: "p \<in> set (tab s)" "ino_of s p = ino" "ino \<noteq> ROOT"
    and u: "uio_ok u" "uio_rw u = UIO_WRITE" "uio_offset u = int off"
    and fit: "off + uio_resid u \<le> MAXFILE" "off \<le> length (contents s ino)"
  shows "wp (VOP_WRITE p)
    (\<lambda>_ (t, u'). ns_ok t F \<and> fmap t = fmap s \<and> refs t = refs s \<and> (\<forall>i \<in> F - {ino}. view t i = view s i) \<and>
       contents t ino = overwrite off (uio_bytes (uio_resid u) u) (contents s ino) \<and>
       uio_resid u' = 0 \<and> uio_offset u' = uio_offset u + int (uio_resid u) \<and> biglock_depth t = biglock_depth s \<and>
       p \<in> set (tab t) \<and> ino_of t p = ino)
    (\<lambda>e (t, u'). (e = EFAULT \<and> uio_segflg u \<noteq> UIO_SYSSPACE \<or> e = ENOSPC) \<and>
       ns_ok t F \<and> fmap t = fmap s \<and> refs t = refs s \<and> (\<forall>i \<in> F - {ino}. view t i = view s i) \<and>
       biglock_depth t = biglock_depth s) (s, u)"
    (is "wp _ ?Q ?E _")
proof -
  define s0 where "s0 = s\<lparr>biglock_depth := Suc (biglock_depth s)\<rparr>"
  define v where "v = vn_of s0 p"
  have s0: "ns_ok s0 F" "p \<in> set (tab s0)" "sv_ino v = ino" using s p by (simp_all add: s0_def v_def ino_of_def)
  have ne: "sv_ino v \<noteq> ROOT" using s0(3) p(3) by simp
  note n = ns_parts [OF s0(1)] and vv = vol_vnode [OF ns_parts(1) [OF s0(1)] s0(2) v_def] and nf = ns_file [OF s0(1,2) v_def ne]
  let ?n = "uio_resid u" and ?sz = "sfi_size (sv_i v)" and ?fd = "file_data (disk s0) (sv_i v)"
  have c: "contents s ino = take ?sz ?fd" using nf(3) s0(3) by (simp add: contents_def s0_def)
  have sz: "?sz \<le> MAXFILE" "off \<le> ?sz" using vv(10) fit(2) c by simp_all
  have st: "ns_ok t F \<and> fmap t = fmap s \<and> refs t = refs s \<and> (\<forall>i \<in> F - {ino}. view t i = view s i) \<and>
      biglock_depth t = Suc (biglock_depth s) \<and> inode_at t ino = sv_i v' \<and> p \<in> set (tab t) \<and> ino_of t p = ino"
    if "inode_step p s0 v t v'" "sfi_size (sv_i v') \<le> MAXFILE" for t v'
  proof -
    note ch = step_change [OF n(1) s0(2) v_def that]
    have "sfi_type (sv_i v') = sfi_type (sv_i v)" "sfi_linkcount (sv_i v') = sfi_linkcount (sv_i v)" "vn_refcount v' = vn_refcount v"
      using that(1) by (simp_all add: inode_step_def)
    note cn = change_ns [OF s0(1,2) v_def ne ch this]
    have "p \<in> set (tab t)" "ino_of t p = ino"
      using s0(2,3) vn_of_change(5,6) [OF ch vv(2)] v_def by (simp_all add: ino_of_def)
    then show ?thesis using cn s0(3) that(1) by (simp add: s0_def inode_step_def fs_same_def)
  qed
  have len: "length (uio_bytes ?n u) = ?n" using u(1) by simp
  have "wp (sfs_io p) (\<lambda>x (t, u'). biglock_depth t = Suc (biglock_depth s) \<and> ?Q x (t\<lparr>biglock_depth := biglock_depth s\<rparr>, u'))
      (\<lambda>e (t, u'). biglock_depth t = Suc (biglock_depth s) \<and> ?E e (t\<lparr>biglock_depth := biglock_depth s\<rparr>, u')) (s0, u)"
  proof (rule wp_conseq [OF sfs_io_write [OF vv(1,11,2,3) u fit(1)]], goal_cases)
    case (1 x z)
    obtain t u' where z: "z = (t, u')" by (cases z)
    then obtain v' where w: "inode_step p s0 v t v'" "uio_moved ?n u u'"
      "sfi_size (sv_i v') = (if ?n = 0 then ?sz else max ?sz (off + ?n))"
      "file_data (disk t) (sv_i v') = splice_at off (uio_bytes ?n u) ?fd" using 1 by auto
    have szv: "sfi_size (sv_i v') = max ?sz (off + ?n)" using w(3) sz(2) by simp
    then have le: "sfi_size (sv_i v') \<le> MAXFILE" using sz fit(1) by simp
    note r = st [OF w(1) le]
    have "contents t ino = take (max ?sz (off + ?n)) (splice_at off (uio_bytes ?n u) ?fd)"
      using r w(4) szv by (simp add: contents_def)
    also have "\<dots> = overwrite off (uio_bytes ?n u) (contents s ino)"
      using take_splice [of off ?sz ?fd "uio_bytes ?n u"] sz fit(1) len unfolding overwrite_def c by simp
    finally show ?case using r w(2) z by (simp add: uio_moved_def)
  next
    case (2 e z)
    obtain t u' where z: "z = (t, u')" by (cases z)
    then obtain v' where w: "inode_step p s0 v t v'" "sfi_size (sv_i v') \<le> max ?sz (off + ?n)"
      "e = EFAULT \<and> uio_segflg u \<noteq> UIO_SYSSPACE \<or> e = ENOSPC" using 2 by auto
    have le: "sfi_size (sv_i v') \<le> MAXFILE" using w(2) sz fit(1) by simp
    show ?case using st [OF w(1) le] w(3) z by simp
  qed
  from locked_io(1) [OF this [unfolded s0_def] u(2)] have "wp (sfs_write p) ?Q ?E (s, u)" .
  moreover have "sfi_type (sv_i (vn_of s p)) = SFS_TYPE_FILE" using nf(2) by (simp add: v_def s0_def)
  ultimately show ?thesis
    unfolding VOP_WRITE_def wp_vop_uio [OF ns_parts(1) [OF s] p(1)] by simp
qed

subsection \<open>Reading\<close>

lemma VOP_READ_wp:
  assumes s: "ns_ok s F" and p: "p \<in> set (tab s)" "ino_of s p = ino" "ino \<noteq> ROOT"
    and u: "uio_ok u" "uio_rw u = UIO_READ" "uio_offset u = int off"
  defines "data \<equiv> take (uio_resid u) (drop off (contents s ino))"
  shows "wp (VOP_READ p)
    (\<lambda>_ (t, u'). unchanged F s t \<and> uio_mem u' = mem_put (uio_mem u) (take (length data) (uio_addrs u)) data \<and>
       uio_resid u' = uio_resid u - length data \<and> uio_offset u' = uio_offset u + int (length data))
    (\<lambda>e (t, u'). e = EFAULT \<and> uio_segflg u \<noteq> UIO_SYSSPACE \<and> unchanged F s t) (s, u)"
    (is "wp _ ?Q ?E _")
proof -
  define s0 where "s0 = s\<lparr>biglock_depth := Suc (biglock_depth s)\<rparr>"
  define v where "v = vn_of s0 p"
  have s0: "ns_ok s0 F" "p \<in> set (tab s0)" "sv_ino v = ino" using s p by (simp_all add: s0_def v_def ino_of_def)
  have ne: "sv_ino v \<noteq> ROOT" using s0(3) p(3) by simp
  note n = ns_parts [OF s0(1)] and vv = vol_vnode [OF ns_parts(1) [OF s0(1)] s0(2) v_def] and nf = ns_file [OF s0(1,2) v_def ne]
  let ?sz = "sfi_size (sv_i v)" and ?fd = "file_data (disk s0) (sv_i v)"
  let ?k = "min (uio_resid u) (?sz - off)"
  have c: "contents s ino = take ?sz ?fd" using nf(3) s0(3) by (simp add: contents_def s0_def)
  have sz: "?sz \<le> MAXFILE" by (rule vv)
  have data: "data = take ?k (drop off ?fd)" by (simp add: data_def c drop_take min.commute)
  have ld: "length data = ?k" using sz by (auto simp: data_def c)
  have same: "biglock_depth t = Suc (biglock_depth s) \<and> unchanged F s (t\<lparr>biglock_depth := biglock_depth s\<rparr>)"
    if "dev_step s0 (disk s0) t" for t
  proof -
    have q: "quiet s0 t" by (rule dev_step_quiet [OF that vv(1)])
    have "refs t = refs s" using quiet_ns_keep(2) [OF s0(1) q] by (simp add: s0_def)
    then show ?thesis using unchanged_locked [OF s quiet_ns_keep(1) [OF s0(1) q, unfolded s0_def]] by simp
  qed
  have "wp (sfs_io p) (\<lambda>x (t, u'). biglock_depth t = Suc (biglock_depth s) \<and> ?Q x (t\<lparr>biglock_depth := biglock_depth s\<rparr>, u'))
      (\<lambda>e (t, u'). biglock_depth t = Suc (biglock_depth s) \<and> ?E e (t\<lparr>biglock_depth := biglock_depth s\<rparr>, u')) (s0, u)"
  proof (rule wp_conseq [OF sfs_io_read [OF vv(1,11,2,3,10) u]], goal_cases)
    case (1 x z)
    obtain t u' where z: "z = (t, u')" by (cases z)
    then have r: "dev_step s0 (disk s0) t" "uio_moved ?k u u'"
      "uio_mem u' = mem_put (uio_mem u) (take ?k (uio_addrs u)) (take ?k (drop off ?fd))"
      using 1 by (simp_all add: read_step_def)
    show ?case using same [OF r(1)] r(2,3) z ld data by (simp add: uio_moved_def)
  next
    case (2 e z)
    obtain t u' where z: "z = (t, u')" by (cases z)
    then show ?case using 2 same [of t] by (simp add: read_fault_def)
  qed
  from locked_io(2) [OF this [unfolded s0_def] u(2)] have "wp (sfs_read p) ?Q ?E (s, u)" .
  moreover have "sfi_type (sv_i (vn_of s p)) = SFS_TYPE_FILE" using nf(2) by (simp add: v_def s0_def)
  ultimately show ?thesis
    unfolding VOP_READ_def wp_vop_uio [OF ns_parts(1) [OF s] p(1)] by simp
qed

subsection \<open>Truncating\<close>

lemma trunc_data:
  assumes ok: "fs_ok s" "inode_ok s i" and d: "\<And>c. c \<noteq> sfi_indirect i \<or> c = 0 \<Longrightarrow> d' c = disk s c"
    and m: "bmap_of d' i' = trunc_map ((len + 511) div 512) (bmap_of (disk s) i)" and n: "n < MAXFILE" "n div 512 < (len + 511) div 512"
  shows "file_data d' i' ! n = file_data (disk s) i ! n"
proof -
  let ?b = "bmap_of (disk s) i ! (n div 512)"
  have l: "length (bmap_of (disk s) i) = 143" using ok by (simp add: length_bmap_of inode_ok_def)
  have k: "n div 512 < 143" using n(1) by (simp add: MAXFILE_def div_less_iff_less_mult)
  have "bmap_of d' i' ! (n div 512) = ?b" using n(2) k l by (simp add: m trunc_map_def)
  moreover have "blk_bytes d' ?b = blk_bytes (disk s) ?b"
    using d [of ?b] inode_ok_nth(3) [OF ok k refl] by (cases "?b = 0") (simp_all add: blk_bytes_def)
  ultimately show ?thesis using n(1) by (simp add: file_data_nth file_block_def)
qed

lemma VOP_TRUNCATE_wp:
  assumes s: "ns_ok s F" and p: "p \<in> set (tab s)" "ino_of s p = ino" "ino \<noteq> ROOT" and len: "len \<le> length (contents s ino)"
  shows "wp (VOP_TRUNCATE p (int len))
    (\<lambda>_ t. ns_ok t F \<and> fmap t = fmap s \<and> refs t = refs s \<and> (\<forall>i \<in> F - {ino}. view t i = view s i) \<and>
       contents t ino = take len (contents s ino) \<and> biglock_depth t = biglock_depth s)
    (\<lambda>_ _. False) s"
proof -
  define v where "v = vn_of s p"
  have vi: "sv_ino v = ino" using p(2) by (simp add: v_def ino_of_def)
  have ne: "sv_ino v \<noteq> ROOT" using vi p(3) by simp
  note n = ns_parts [OF s] and vv = vol_vnode [OF ns_parts(1) [OF s] p(1) v_def] and nf = ns_file [OF s p(1) v_def ne]
  have c: "contents s ino = take (sfi_size (sv_i v)) (file_data (disk s) (sv_i v))" using nf(3) vi by (simp add: contents_def)
  have sz: "sfi_size (sv_i v) \<le> MAXFILE" by (rule vv)
  have le: "len \<le> sfi_size (sv_i v)" "len \<le> MAXFILE" using len c sz by simp_all
  have small: "(0 :: int) \<le> int len" "int len < 2 ^ 32" using le(2) by (simp_all add: MAXFILE_def)
  have "wp (sfs_itrunc p (int len))
    (\<lambda>_ t. ns_ok t F \<and> fmap t = fmap s \<and> refs t = refs s \<and> (\<forall>i \<in> F - {ino}. view t i = view s i) \<and>
       contents t ino = take len (contents s ino) \<and> biglock_depth t = biglock_depth s) (\<lambda>_ _. False) s"
  proof (rule wp_conseq [OF sfs_itrunc_wp [OF vv(1-3) small]], goal_cases)
    case (1 x t)
    then obtain v' where w: "inode_shrink p s v t v'" "sfi_size (sv_i v') = len"
      "bmap_of (disk t) (sv_i v') = trunc_map ((len + 511) div 512) (bmap_of (disk s) (sv_i v))" by auto
    have szv: "sfi_size (sv_i v') \<le> MAXFILE" using w(2) le(2) by simp
    note ch = shrink_change [OF n(1) p(1) v_def w(1) szv]
    have sh: "sfi_type (sv_i v') = sfi_type (sv_i v)" "sfi_linkcount (sv_i v') = sfi_linkcount (sv_i v)" "vn_refcount v' = vn_refcount v"
      "\<And>c. c \<noteq> sfi_indirect (sv_i v) \<or> c = 0 \<Longrightarrow> disk t c = disk s c" "biglock_depth t = biglock_depth s"
      using w(1) by (simp_all add: inode_shrink_def fs_same_def)
    note cn = change_ns [OF s p(1) v_def ne ch sh(1-3)]
    have "file_data (disk t) (sv_i v') ! k = file_data (disk s) (sv_i v) ! k" if "k < len" for k
    proof (rule trunc_data [OF vv(1,3) sh(4) w(3)])
      show "k < MAXFILE" using that le(2) by simp
      show "k div 512 < (len + 511) div 512" using that by linarith
    qed
    then have "take len (file_data (disk t) (sv_i v')) = take len (file_data (disk s) (sv_i v))"
      using le(2) by (intro nth_take_lemma) simp_all
    then have "contents t ino = take len (contents s ino)" using cn(5) vi w(2) le c by (simp add: contents_def min_def)
    then show ?case using cn vi sh(5) by simp
  qed
  then show ?thesis
    unfolding VOP_TRUNCATE_def wp_vop [OF ns_parts(1) [OF s] p(1)] sfs_truncate_def using nf(2) by (simp add: v_def)
qed

end
