(* ===== verification/Sfs_Sync.thy ===== *)
theory Sfs_Sync
  imports Sfs_Files
begin

text \<open>
  Writing a volume back and mounting it: \<open>sfs_sync\<close> brings the inodes, the free map and the
  superblock on the disk up to date, and a mount of that disk, whatever happened to the
  memory in between, finds the same volume.
\<close>

subsection \<open>Writing the inodes back\<close>

lemma inode_change_unlock:
  "inode_change p (s\<lparr>biglock_depth := Suc (biglock_depth s)\<rparr>) v t v' \<Longrightarrow>
   inode_change p s v (t\<lparr>biglock_depth := biglock_depth s\<rparr>) v' \<and> biglock_depth t = Suc (biglock_depth s)"
  by (auto simp: inode_change_def fs_same_def clean_def)

text \<open>The volume with the vnodes in \<open>P\<close> written back.\<close>

definition flushed :: "nat set \<Rightarrow> nat set \<Rightarrow> sfs_fs \<Rightarrow> sfs_fs \<Rightarrow> bool" where
  "flushed P F s t \<longleftrightarrow> vol_ok t F {} \<and> tab t = tab s \<and> ino_of t = ino_of s \<and> refs t = refs s \<and> (\<forall>i \<in> F. keeps s t i) \<and>
     (\<forall>q \<in> P. \<not> sv_dirty (vn_of t q)) \<and>
     sfs_freemap t = sfs_freemap s \<and> sfs_freemapdirty t = sfs_freemapdirty s \<and> sfs_sb t = sfs_sb s \<and>
     sfs_superdirty t = sfs_superdirty s \<and> biglock_depth t = biglock_depth s"

lemma flushed_refl: "vol_ok s F {} \<Longrightarrow> flushed {} F s s"
  by (simp add: flushed_def)

lemma VOP_FSYNC_wp:
  assumes s: "vol_ok s F {}" and p: "p \<in> set (tab s)"
  shows "wp (VOP_FSYNC p) (\<lambda>_ t. flushed {p} F s t \<and> (\<forall>q. q \<noteq> p \<longrightarrow> vn_of t q = vn_of s q)) E s"
proof -
  define s0 where "s0 = s\<lparr>biglock_depth := Suc (biglock_depth s)\<rparr>"
  define v where "v = vn_of s0 p"
  have s0: "vol_ok s0 F {}" "p \<in> set (tab s0)" "v = vn_of s p" using s p by (simp_all add: s0_def v_def)
  note vv = vol_vnode [OF s0(1,2) v_def] and sv = vol_vnode [OF s p s0(3)]
  let ?v = "v\<lparr>sv_dirty := False\<rparr>"
  have st: "biglock_depth t = Suc (biglock_depth s) \<and> flushed {p} F s (t\<lparr>biglock_depth := biglock_depth s\<rparr>) \<and>
      (\<forall>q. q \<noteq> p \<longrightarrow> vn_of (t\<lparr>biglock_depth := biglock_depth s\<rparr>) q = vn_of s q)"
    if ch0: "inode_change p s0 v t ?v" "\<forall>c. c \<noteq> sv_ino v \<longrightarrow> disk t c = disk s0 c"
      "sfs_freemap t = sfs_freemap s0" "sfs_freemapdirty t = sfs_freemapdirty s0" for t
  proof -
    let ?t = "t\<lparr>biglock_depth := biglock_depth s\<rparr>"
    have ch: "inode_change p s v ?t ?v" and d: "biglock_depth t = Suc (biglock_depth s)"
      using inode_change_unlock [OF ch0(1) [unfolded s0_def]] by simp_all
    note vc = vol_change [OF s p s0(3) ch] and vn = vn_of_change [OF ch sv(2)]
    have keep: "keeps s ?t i" if i: "i \<in> F" for i
    proof (cases "i = sv_ino v")
      case False
      then show ?thesis by (rule change_keeps(1) [OF s p s0(3) ch i])
    next
      case True
      show ?thesis
      proof (rule keepsI)
        show "inode_at ?t i = inode_at s i" using vc(3) sv(9) True by simp
        show "disk ?t c = disk s c" if "c \<in> inode_blocks (disk s) (inode_at s i)" for c
        proof -
          have "c \<noteq> sv_ino v" using that sv(6,9) True by auto
          then show ?thesis using ch0(2) by (simp add: s0_def)
        qed
        show "file_ok s i" by (rule vol_ok_parts(6) [OF s i])
      qed (rule sv)
    qed
    have "refs ?t = refs s" by (rule change_refs [OF s p s0(3) ch]) simp
    moreover have "fs_same s ?t" using ch by (simp add: inode_change_def)
    moreover have "vn_of t q = vn_of s q" if "q \<noteq> p" for q using vn(4) [OF that] by simp
    moreover have "vn_of t p = ?v" using vn(2) by simp
    ultimately show ?thesis
      using vc(1) vn(5,6) keep d ch0(3,4) by (simp add: flushed_def fs_same_def s0_def)
  qed
  have "wp (sfs_fsync p) (\<lambda>_ t. flushed {p} F s t \<and> (\<forall>q. q \<noteq> p \<longrightarrow> vn_of t q = vn_of s q)) E s"
    unfolding sfs_fsync_def wp_kthen wp_biglock s0_def [symmetric] wp_kbind wp_ktry
  proof (rule wp_conseq [OF sfs_sync_inode_wp [OF s0(1,2) v_def]], goal_cases)
    case (1 x t)
    then show ?case using st [of t] by simp
  qed simp
  moreover have "vn_ops v \<noteq> None" "vn_refcount v > 0" using sv(7) by (auto simp: vnode_ok_def)
  ultimately show ?thesis
    using sv(2) by (simp add: VOP_FSYNC_def on_vn_def)
qed

lemma flushed_trans:
  assumes "flushed P F s t" "flushed {p} F t u" "\<forall>q. q \<noteq> p \<longrightarrow> vn_of u q = vn_of t q"
  shows "flushed (insert p P) F s u"
proof -
  have "keeps s u i" if "i \<in> F" for i
    by (rule keeps_trans [of s t]) (use assms that in \<open>auto simp: flushed_def\<close>)
  moreover have "\<not> sv_dirty (vn_of u q)" if "q \<in> insert p P" for q
    using that assms by (cases "q = p") (auto simp: flushed_def)
  ultimately show ?thesis using assms(1,2) by (simp add: flushed_def)
qed

lemma sfs_sync_vnodes_loop_wp:
  assumes s: "vol_ok s F {}" and num: "num = length (tab s)"
  shows "i \<le> num \<Longrightarrow> flushed (set (take i (tab s))) F s t \<Longrightarrow>
    wp (sfs_sync_vnodes_loop num i) (\<lambda>_ u. flushed (set (tab s)) F s u) E t"
proof (induction "num - i" arbitrary: i t)
  case 0
  then show ?case using num by (subst sfs_sync_vnodes_loop.simps) simp
next
  case (Suc n)
  then have i: "i < num" by simp
  have t: "vol_ok t F {}" "tab t = tab s" using Suc.prems(2) by (simp_all add: flushed_def)
  have tk: "tab_ok t" by (rule vol_ok_parts(3) [OF t(1)])
  have it: "i < length (tab t)" using i t(2) num by simp
  have p: "tab s ! i \<in> set (tab t)" using it t(2) by simp
  have IH: "wp (sfs_sync_vnodes_loop num (Suc i)) (\<lambda>_ u. flushed (set (tab s)) F s u) E u"
    if "flushed {tab s ! i} F t u" "\<forall>q. q \<noteq> tab s ! i \<longrightarrow> vn_of u q = vn_of t q" for u
  proof (rule Suc.hyps(1))
    show "n = num - Suc i" "Suc i \<le> num" using Suc.hyps(2) i by simp_all
    have "set (take (Suc i) (tab s)) = insert (tab s ! i) (set (take i (tab s)))"
      using i num by (simp add: take_Suc_conv_app_nth)
    then show "flushed (set (take (Suc i) (tab s))) F s u" using flushed_trans [OF Suc.prems(2) that] by simp
  qed
  have step: "wp (kthen (ktry (VOP_FSYNC (tab s ! i))) (sfs_sync_vnodes_loop num (Suc i))) (\<lambda>_ u. flushed (set (tab s)) F s u) E t"
    unfolding wp_kthen wp_ktry
    by (rule wp_conseq [OF VOP_FSYNC_wp [OF t(1) p]]) (use IH in auto)
  show ?case
    unfolding sfs_sync_vnodes_loop.simps [of num i] if_P [OF i] wp_kbind
  proof (rule wp_conseq [OF vnodearray_get_wp [OF tk it]], goal_cases)
    case (1 q u)
    then have "q = tab s ! i" "u = t" using t(2) by simp_all
    then show ?case using step by simp
  qed simp
qed

lemma sfs_sync_vnodes_wp:
  assumes s: "vol_ok s F {}"
  shows "wp sfs_sync_vnodes (\<lambda>_ t. flushed (set (tab s)) F s t) E s"
  unfolding sfs_sync_vnodes_def wp_kbind wp_kget num_tab [OF vol_ok_parts(3) [OF s]]
  by (rule sfs_sync_vnodes_loop_wp [OF s refl]) (simp_all add: flushed_refl [OF s])

subsection \<open>Writing the free map and the superblock back\<close>

lemma freemap_size:
  assumes "vol_ok s F X"
  shows "SFS_FREEMAPBITS (nblocks s) = 4096 * SFS_FREEMAPBLOCKS (nblocks s)"
    "length (bm_v (sfs_freemap s)) = 512 * SFS_FREEMAPBLOCKS (nblocks s)"
    "\<And>j. j < SFS_FREEMAPBLOCKS (nblocks s) \<Longrightarrow> 2 + j < nblocks s" "SFS_FREEMAPBLOCKS (nblocks s) \<le> 2048"
proof -
  note vo = vol_ok_parts [OF assms]
  have n: "nblocks s \<le> 2 ^ 23" using vo(2) by (simp add: vol_small_def)
  define k where "k = (nblocks s + 4095) div 4096"
  have k: "k \<le> 2048" using n by (simp add: k_def)
  have "SFS_FREEMAPBITS (nblocks s) = 4096 * k"
    using n k by (simp add: SFS_FREEMAPBITS_def SFS_ROUNDUP_def SFS_BITSPERBLOCK_def SFS_BLOCKSIZE_def u32_def k_def mult.commute)
  then show b: "SFS_FREEMAPBITS (nblocks s) = 4096 * SFS_FREEMAPBLOCKS (nblocks s)" and "SFS_FREEMAPBLOCKS (nblocks s) \<le> 2048"
    using k by (simp_all add: SFS_FREEMAPBLOCKS_def SFS_BITSPERBLOCK_def SFS_BLOCKSIZE_def)
  have "bitmap_ok (sfs_freemap s)" "bm_nbits (sfs_freemap s) = 4096 * SFS_FREEMAPBLOCKS (nblocks s)"
    using vo(1,7) b by (simp_all add: fs_ok_def meta_ok_def)
  then show "length (bm_v (sfs_freemap s)) = 512 * SFS_FREEMAPBLOCKS (nblocks s)" by (simp add: bitmap_ok_def divroundup_8)
  have "sys_blocks s \<subseteq> {..<nblocks s}" using vo(4) by (auto simp: owners_ok_def)
  then show "2 + j < nblocks s" if "j < SFS_FREEMAPBLOCKS (nblocks s)" for j
    using that by (auto simp: sys_blocks_def subset_eq)
qed

lemma length_fm_block:
  assumes "vol_ok s F X" "j < SFS_FREEMAPBLOCKS (nblocks s)"
  shows "length (fm_block s j) = 512"
proof -
  have "(j + 1) * 512 \<le> SFS_FREEMAPBLOCKS (nblocks s) * 512" using assms(2) by (intro mult_le_mono1) simp
  then show ?thesis using freemap_size(2) [OF assms(1)] by (simp add: fm_block_def SFS_BLOCKSIZE_def)
qed

text \<open>The disk with the first \<open>j\<close> blocks of the map written.\<close>

definition fm_disk :: "sfs_fs \<Rightarrow> nat \<Rightarrow> nat \<Rightarrow> byte list" where
  "fm_disk s j c = (if 2 \<le> c \<and> c < 2 + j then fm_block s (c - 2) else disk s c)"

lemma sfs_freemapio_write:
  assumes s: "vol_ok s F X" and n: "n = SFS_FREEMAPBLOCKS (nblocks s)"
  shows "j \<le> n \<Longrightarrow> dev_step s (fm_disk s j) t \<Longrightarrow>
    wp (sfs_freemapio_loop UIO_WRITE n j) (\<lambda>_ u. dev_step s (fm_disk s n) u) E t"
proof (induction "n - j" arbitrary: j t)
  case 0
  then show ?case by (subst sfs_freemapio_loop.simps) simp
next
  case (Suc m)
  then have j: "j < n" by simp
  note d = dev_step_simps [OF Suc.prems(2)]
  have fmj: "take SFS_BLOCKSIZE (drop (j * SFS_BLOCKSIZE) (bitmap_getdata (sfs_freemap t))) = fm_block s j"
    by (simp add: bitmap_getdata_def fm_block_def d)
  have ok: "fs_ok t" using d vol_ok_parts(1) [OF s] by simp
  have next_disk: "(disk t)(2 + j := fm_block s j) = fm_disk s (Suc j)"
    by (rule ext) (auto simp: d fm_disk_def)
  have "wp (sfs_writeblock (2 + j) (fm_block s j)) (\<lambda>_. wp (sfs_freemapio_loop UIO_WRITE n (Suc j)) (\<lambda>_ u. dev_step s (fm_disk s n) u) E) E t"
  proof (rule wp_conseq [OF writeblock_wp [OF ok]], goal_cases)
    case 1
    then show ?case using freemap_size(3) [OF s] j n d by simp
  next
    case 2
    then show ?case using length_fm_block [OF s] j n by simp
  next
    case (3 x u)
    then have "dev_step s (fm_disk s (Suc j)) u" using dev_step_trans [OF Suc.prems(2)] next_disk by simp
    then show ?case using Suc.hyps(1) [of "Suc j" u] Suc.hyps(2) j by simp
  qed simp
  then show ?case
    unfolding sfs_freemapio_loop.simps [of UIO_WRITE n j]
    using j fmj by (simp add: SFS_FREEMAP_START_def)
qed

text \<open>Steps that write the superblock and the map.\<close>

definition saved :: "nat set \<Rightarrow> sfs_fs \<Rightarrow> sfs_fs \<Rightarrow> bool" where
  "saved F s t \<longleftrightarrow> vol_ok t F {} \<and> tab t = tab s \<and> (\<forall>q. vn_at q t = vn_at q s) \<and> refs t = refs s \<and> (\<forall>i \<in> F. keeps s t i) \<and>
     sfs_freemap t = sfs_freemap s \<and> sfs_sb t = sfs_sb s \<and> biglock_depth t = biglock_depth s"

lemma saved_trans:
  assumes "saved F s t" "saved F t u"
  shows "saved F s u"
proof -
  have "keeps s u i" if "i \<in> F" for i by (rule keeps_trans [of s t]) (use assms that in \<open>auto simp: saved_def\<close>)
  then show ?thesis using assms by (simp add: saved_def)
qed

lemma sys_saved:
  assumes s: "vol_ok s F {}" and t: "fs_ok t" "sfs_vnodes t = sfs_vnodes s" "vn_heap t = vn_heap s" "sfs_freemap t = sfs_freemap s"
      "sfs_sb t = sfs_sb s" "biglock_depth t = biglock_depth s" and d: "\<And>c. c \<notin> sys_blocks s \<Longrightarrow> disk t c = disk s c" and m: "meta_ok t"
  shows "saved F s t"
proof -
  have o: "owners_ok s F {}" by (rule vol_ok_parts(4) [OF s])
  have dis: "disk t c = disk s c" if "c \<in> (\<Union>a \<in> F. owned s a)" for c
    by (rule d) (use that o in \<open>auto simp: owners_ok_def\<close>)
  have us: "used t \<inter> {..<nblocks s} = sys_blocks s \<union> (\<Union>a \<in> F. owned s a) \<union> {}" using o t(4) by (simp add: owners_ok_def)
  have t2: "sfs_sb t = sfs_sb s \<and> sfs_vnodes t = sfs_vnodes s \<and> biglock_depth t = biglock_depth s" using t by simp
  note b = blocks_step [OF s t(1) t2 t(3) dis m us]
  show ?thesis using b t by (simp add: saved_def)
qed

lemma sfs_sync_freemap_wp:
  assumes s: "vol_ok s F {}"
  shows "wp sfs_sync_freemap (\<lambda>_ t. saved F s t \<and> \<not> sfs_freemapdirty t \<and> sfs_superdirty t = sfs_superdirty s) E s"
proof (cases "sfs_freemapdirty s")
  case False
  then show ?thesis using s by (simp add: sfs_sync_freemap_def saved_def)
next
  case True
  note vo = vol_ok_parts [OF s]
  let ?n = "SFS_FREEMAPBLOCKS (nblocks s)"
  have z: "fm_disk s 0 = disk s" by (rule ext) (auto simp: fm_disk_def)
  have fin: "saved F s (t\<lparr>sfs_freemapdirty := False\<rparr>) \<and> sfs_superdirty t = sfs_superdirty s" if t: "dev_step s (fm_disk s ?n) t" for t
  proof -
    note d = dev_step_simps [OF t]
    have ok: "fs_ok (t\<lparr>sfs_freemapdirty := False\<rparr>)" using d(15) [OF vo(1)] by (simp add: fs_ok_def dev_ok_def)
    have dk: "disk (t\<lparr>sfs_freemapdirty := False\<rparr>) = fm_disk s ?n" using d(1) by (simp add: disk_def)
    have m: "meta_ok (t\<lparr>sfs_freemapdirty := False\<rparr>)"
      using vo(7) by (auto simp: meta_ok_def dk d fm_disk_def fm_block_def SFS_SUPER_BLOCK_def SFS_FREEMAP_START_def)
    have "saved F s (t\<lparr>sfs_freemapdirty := False\<rparr>)"
      by (rule sys_saved [OF s ok _ _ _ _ _ _ m]) (auto simp: d(2-) dk fm_disk_def sys_blocks_def)
    then show ?thesis using d by simp
  qed
  have "wp (sfs_freemapio_loop UIO_WRITE ?n 0) (\<lambda>_ t. saved F s (t\<lparr>sfs_freemapdirty := False\<rparr>) \<and> sfs_superdirty t = sfs_superdirty s) E s"
    by (rule wp_conseq [OF sfs_freemapio_write [OF s refl]]) (use fin dev_step_refl [OF vo(1)] z in simp_all)
  then show ?thesis using True by (simp add: sfs_sync_freemap_def sfs_freemapio_def)
qed

lemma sfs_sync_superblock_wp:
  assumes s: "vol_ok s F {}"
  shows "wp sfs_sync_superblock (\<lambda>_ t. saved F s t \<and> \<not> sfs_superdirty t \<and> sfs_freemapdirty t = sfs_freemapdirty s) E s"
proof (cases "sfs_superdirty s")
  case False
  then show ?thesis using s by (simp add: sfs_sync_superblock_def saved_def)
next
  case True
  note vo = vol_ok_parts [OF s]
  have len: "length (superblock_to_block (sfs_sb s)) = 512" using vo(7) by (simp add: meta_ok_def length_superblock_to_block)
  have zero: "SFS_SUPER_BLOCK < nblocks s" using vo(4) by (auto simp: owners_ok_def sys_blocks_def SFS_SUPER_BLOCK_def)
  have fin: "saved F s (t\<lparr>sfs_superdirty := False\<rparr>) \<and> sfs_freemapdirty t = sfs_freemapdirty s"
    if t: "dev_step s ((disk s)(SFS_SUPER_BLOCK := superblock_to_block (sfs_sb s))) t" for t
  proof -
    note d = dev_step_simps [OF t]
    have ok: "fs_ok (t\<lparr>sfs_superdirty := False\<rparr>)" using d(15) [OF vo(1)] by (simp add: fs_ok_def dev_ok_def)
    have dk: "disk (t\<lparr>sfs_superdirty := False\<rparr>) = (disk s)(SFS_SUPER_BLOCK := superblock_to_block (sfs_sb s))" using d(1) by (simp add: disk_def)
    have m: "meta_ok (t\<lparr>sfs_superdirty := False\<rparr>)"
      using vo(7) by (auto simp: meta_ok_def dk d fm_block_def SFS_SUPER_BLOCK_def SFS_FREEMAP_START_def)
    have "saved F s (t\<lparr>sfs_superdirty := False\<rparr>)"
      by (rule sys_saved [OF s ok _ _ _ _ _ _ m]) (auto simp: d(2-) dk sys_blocks_def SFS_SUPER_BLOCK_def)
    then show ?thesis using d by simp
  qed
  then show ?thesis
    using True by (simp add: sfs_sync_superblock_def) (rule wp_conseq [OF writeblock_wp [OF vo(1) zero len]]; simp)
qed

text \<open>Everything that is in memory is also on the disk.\<close>

definition synced :: "sfs_fs \<Rightarrow> nat set \<Rightarrow> bool" where
  "synced s F \<longleftrightarrow> (\<forall>i \<in> F. disk s i = dinode_to_block (inode_at s i)) \<and>
     disk s SFS_SUPER_BLOCK = superblock_to_block (sfs_sb s) \<and>
     (\<forall>j < SFS_FREEMAPBLOCKS (nblocks s). disk s (SFS_FREEMAP_START + j) = fm_block s j)"

lemma syncedI:
  assumes s: "vol_ok s F {}" and c: "\<not> sfs_superdirty s" "\<not> sfs_freemapdirty s" "\<And>q. q \<in> set (tab s) \<Longrightarrow> \<not> sv_dirty (vn_of s q)"
  shows "synced s F"
proof -
  note vo = vol_ok_parts [OF s]
  have "disk s i = dinode_to_block (inode_at s i)" if "i \<in> F" for i
  proof (cases "loaded s i")
    case None
    then show ?thesis using vo(1) by (simp add: inode_at_def dinode_block_roundtrip)
  next
    case (Some q)
    then have q: "q \<in> set (tab s)" "ino_of s q = i" using loaded_SomeD by auto
    then show ?thesis using tab_ok_vn(3) [OF vo(3) q(1)] c(3) [OF q(1)] Some by (simp add: clean_def inode_at_def ino_of_def)
  qed
  then show ?thesis using vo(7) c(1,2) by (simp add: synced_def meta_ok_def)
qed

lemma sfs_sync_wp:
  assumes s: "vol_ok s F {}"
  shows "wp sfs_sync (\<lambda>_ t. vol_ok t F {} \<and> synced t F \<and> \<not> sfs_superdirty t \<and> \<not> sfs_freemapdirty t \<and>
      (\<forall>i \<in> F. keeps s t i) \<and> refs t = refs s \<and> tab t = tab s \<and> sfs_freemap t = sfs_freemap s \<and> sfs_sb t = sfs_sb s \<and>
      biglock_depth t = biglock_depth s) E s"
proof -
  define s0 where "s0 = s\<lparr>biglock_depth := Suc (biglock_depth s)\<rparr>"
  have s0: "vol_ok s0 F {}" using s by (simp add: s0_def)
  let ?Q = "\<lambda>_ t. vol_ok t F {} \<and> synced t F \<and> \<not> sfs_superdirty t \<and> \<not> sfs_freemapdirty t \<and>
      (\<forall>i \<in> F. keeps s t i) \<and> refs t = refs s \<and> tab t = tab s \<and> sfs_freemap t = sfs_freemap s \<and> sfs_sb t = sfs_sb s \<and>
      biglock_depth t = Suc (biglock_depth s)"
  have fin: "?Q () w" if t: "flushed (set (tab s0)) F s0 t" and u: "saved F t u" "\<not> sfs_freemapdirty u"
      and w: "saved F u w" "\<not> sfs_superdirty w" "sfs_freemapdirty w = sfs_freemapdirty u" for t u w
  proof -
    have sv: "saved F t w" by (rule saved_trans [OF u(1) w(1)])
    have vw: "vol_ok w F {}" using w(1) by (simp add: saved_def)
    have "vn_of w q = vn_of t q" for q using sv by (simp add: saved_def vn_of_def)
    then have "\<not> sv_dirty (vn_of w q)" if "q \<in> set (tab w)" for q using that t sv by (simp add: saved_def flushed_def)
    then have "synced w F" using u(2) w(2,3) by (intro syncedI [OF vw]) simp_all
    moreover have "keeps s w i" if "i \<in> F" for i
    proof -
      have "keeps s0 t i" "keeps t w i" using t sv that by (simp_all add: flushed_def saved_def)
      then have "keeps s0 w i" by (rule keeps_trans)
      then show ?thesis by (simp add: s0_def)
    qed
    ultimately show ?thesis using vw w u t sv by (simp add: saved_def flushed_def s0_def)
  qed
  have fs: "flushed (set (tab s0)) F s0 t \<Longrightarrow> vol_ok t F {}" for t by (simp add: flushed_def)
  have body: "wp (kthen sfs_sync_vnodes (kthen sfs_sync_freemap sfs_sync_superblock)) ?Q E' s0" for E'
    unfolding wp_kthen
  proof (rule wp_conseq [OF sfs_sync_vnodes_wp [OF s0]], goal_cases)
    case (1 x t)
    note t = this
    show ?case
    proof (rule wp_conseq [OF sfs_sync_freemap_wp [OF fs [OF t]]], goal_cases)
      case (1 y u)
      then have u: "saved F t u" "\<not> sfs_freemapdirty u" "vol_ok u F {}" by (simp_all add: saved_def)
      show ?case
        by (rule wp_conseq [OF sfs_sync_superblock_wp [OF u(3)]]) (use fin [OF t u(1,2)] in auto)
    qed simp
  qed simp
  have e: "sfs_sync = kthen biglock_acquire (kbind (ktry (kthen sfs_sync_vnodes (kthen sfs_sync_freemap sfs_sync_superblock))) unlock_return)"
  proof -
    have "unlock_return = (\<lambda>result. kthen biglock_release (case result of Inl e \<Rightarrow> kfail e | Inr _ \<Rightarrow> kret ()))"
      by (rule ext) (simp add: unlock_return_def split: sum.split)
    then show ?thesis by (simp add: sfs_sync_def)
  qed
  have syn: "synced (t\<lparr>biglock_depth := d\<rparr>) F = synced t F" for t d by (simp add: synced_def fm_block_def)
  show ?thesis
    unfolding e by (rule locked_wp, unfold s0_def [symmetric], rule wp_conseq [OF body]) (auto simp: syn)
qed

subsection \<open>Mounting\<close>

text \<open>
  The steps of a mount leave the disk as it is, and of the state all but the driver and the
  bytes of the map.
\<close>

definition mount_step :: "sfs_fs \<Rightarrow> sfs_fs \<Rightarrow> bool" where
  "mount_step s t \<longleftrightarrow> dev_ok t \<and> disk t = disk s \<and> d_blocks (sfs_dev t) = d_blocks (sfs_dev s) \<and>
     sfs_sb t = sfs_sb s \<and> sfs_superdirty t = sfs_superdirty s \<and> sfs_freemapdirty t = sfs_freemapdirty s \<and>
     sfs_vnodes t = sfs_vnodes s \<and> vn_heap t = vn_heap s \<and> biglock_depth t = biglock_depth s \<and>
     bm_nbits (sfs_freemap t) = bm_nbits (sfs_freemap s) \<and>
     length (bm_v (sfs_freemap t)) = length (bm_v (sfs_freemap s))"

lemma take_next_chunk:
  assumes "take k v = take k w" "length v = length w" "k + length b \<le> length w" "b = take (length b) (drop k w)"
  shows "take (k + length b) (splice_at k b v) = take (k + length b) w"
proof -
  have "take (k + length b) (splice_at k b v) = take k v @ b" using assms(2,3) by (simp add: splice_at_def)
  also have "\<dots> = take k w @ take (length b) (drop k w)" using assms(1,4) by simp
  also have "\<dots> = take (k + length b) w" by (simp add: take_add)
  finally show ?thesis .
qed

lemma sfs_freemapio_read:
  assumes s: "dev_ok s" "n + 2 \<le> d_blocks (sfs_dev s)" "length (bm_v (sfs_freemap s)) = 512 * n" "length w = 512 * n"
      "\<And>j. j < n \<Longrightarrow> disk s (2 + j) = take 512 (drop (j * 512) w)"
  shows "j \<le> n \<Longrightarrow> mount_step s t \<Longrightarrow> take (j * 512) (bm_v (sfs_freemap t)) = take (j * 512) w \<Longrightarrow>
    wp (sfs_freemapio_loop UIO_READ n j) (\<lambda>_ u. mount_step s u \<and> bm_v (sfs_freemap u) = w) E t"
proof (induction "n - j" arbitrary: j t)
  case 0
  then have "bm_v (sfs_freemap t) = w" using s(3,4) by (simp add: mount_step_def)
  with 0 show ?case by (subst sfs_freemapio_loop.simps) simp
next
  case (Suc m)
  then have j: "j < n" by simp
  then have jl: "(j + 1) * 512 \<le> n * 512" by (intro mult_le_mono1) simp
  let ?b = "disk s (2 + j)"
  have m: "dev_ok t" "disk t = disk s" "d_blocks (sfs_dev t) = d_blocks (sfs_dev s)" "length (bm_v (sfs_freemap t)) = 512 * n"
    using Suc.prems(2) s(3) by (simp_all add: mount_step_def)
  have b: "length ?b = 512" using m(1,2) bs.blk_length [of t] by simp
  have "wp (sfs_readblock (2 + j) (take 512 (drop (j * 512) (bm_v (sfs_freemap t)))))
      (\<lambda>buf u. wp (sfs_freemapio_loop UIO_READ n (Suc j)) (\<lambda>_ u. mount_step s u \<and> bm_v (sfs_freemap u) = w) E
        (u\<lparr>sfs_freemap := (sfs_freemap u)\<lparr>bm_v := splice_at (j * 512) buf (bm_v (sfs_freemap u))\<rparr>\<rparr>)) E t"
  proof (rule wp_conseq [OF bs.rd_wp [OF m(1)]], goal_cases)
    case 1
    then show ?case using s(2) j m(3) by simp
  next
    case 2
    then show ?case using jl m(4) by simp
  next
    case (3 buf u)
    then have u: "buf = ?b" "dev_step t (disk t) u" using m(2) by simp_all
    note d = dev_step_simps [OF u(2)]
    let ?u = "u\<lparr>sfs_freemap := (sfs_freemap u)\<lparr>bm_v := splice_at (j * 512) buf (bm_v (sfs_freemap u))\<rparr>\<rparr>"
    have f: "j * 512 + length ?b \<le> length w" using jl b s(4) by simp
    have "mount_step s ?u"
      using Suc.prems(2) d u(1) f b s(3,4) by (simp add: mount_step_def dev_ok_def disk_def)
    moreover have "take (j * 512 + length ?b) (splice_at (j * 512) ?b (bm_v (sfs_freemap t))) = take (j * 512 + length ?b) w"
      by (rule take_next_chunk) (use Suc.prems(3) f m(4) s(4,5) j b in simp_all)
    then have "take (Suc j * 512) (bm_v (sfs_freemap ?u)) = take (Suc j * 512) w" using u(1) d(4) b by (simp add: add.commute)
    ultimately show ?case using Suc.hyps(1) [of "Suc j" ?u] Suc.hyps(2) j by simp
  qed simp
  then show ?case
    unfolding sfs_freemapio_loop.simps [of UIO_READ n j]
    using j by (simp add: SFS_FREEMAP_START_def SFS_BLOCKSIZE_def bitmap_getdata_def)
qed

text \<open>A state at the start of a mount: a working disk, and no vnodes in memory.\<close>

definition booted :: "(nat \<Rightarrow> byte list) \<Rightarrow> nat \<Rightarrow> sfs_fs \<Rightarrow> bool" where
  "booted f n u \<longleftrightarrow> disk u = f \<and> d_blocks (sfs_dev u) = n \<and> lhd_ok (sfs_dev u) \<and> hw_good (sfs_dev u) \<and> (\<forall>p. vn_at p u = None)"

text \<open>What a mount makes of a synced volume.\<close>

definition mounted :: "sfs_fs \<Rightarrow> sfs_fs \<Rightarrow> bool" where
  "mounted t w \<longleftrightarrow> dev_ok w \<and> disk w = disk t \<and> d_blocks (sfs_dev w) = d_blocks (sfs_dev t) \<and> sfs_sb w = sfs_sb t \<and>
     \<not> sfs_superdirty w \<and> \<not> sfs_freemapdirty w \<and> sfs_freemap w = sfs_freemap t \<and> sfs_vnodes w = array_init \<and>
     (\<forall>p. vn_at p w = None)"

lemma sfs_domount_read_wp:
  assumes t: "vol_ok t F X" "synced t F"
    and u: "booted (disk t) (d_blocks (sfs_dev t)) u" "sfs_device u" "sfs_vnodes u = array_init" "\<not> sfs_superdirty u" "\<not> sfs_freemapdirty u"
  shows "wp sfs_domount_read (\<lambda>_ w. mounted t w \<and> biglock_depth w = biglock_depth u)
    (\<lambda>e w. e = ENOMEM \<and> sfs_vnodes w = array_init \<and> biglock_depth w = biglock_depth u) u"
proof -
  note vo = vol_ok_parts [OF t(1)] and fm = freemap_size [OF t(1)]
  let ?n = "SFS_FREEMAPBLOCKS (nblocks t)" and ?E = "\<lambda>e w. e = ENOMEM \<and> sfs_vnodes w = array_init \<and> biglock_depth w = biglock_depth u"
  have meta: "superblock_wf (sfs_sb t)" "sb_magic (sfs_sb t) = SFS_MAGIC" "sb_volname (sfs_sb t) ! 31 = 0"
    "bm_nbits (sfs_freemap t) = SFS_FREEMAPBITS (nblocks t)" using vo(7) by (simp_all add: meta_ok_def)
  have sb: "block_to_superblock (disk t 0) = sfs_sb t"
    using t(2) superblock_roundtrip [OF meta(1)] by (simp add: synced_def SFS_SUPER_BLOCK_def)
  have vn: "(sfs_sb t)\<lparr>sb_volname := (sb_volname (sfs_sb t))[31 := 0]\<rparr> = sfs_sb t"
  proof -
    have "(sb_volname (sfs_sb t))[31 := 0] = sb_volname (sfs_sb t)" by (metis meta(3) list_update_id)
    then show ?thesis by simp
  qed
  have du: "dev_ok u" using u(1,2) by (simp add: dev_ok_def booted_def)
  have n0: "0 < nblocks t" "nblocks t \<le> d_blocks (sfs_dev t)" "?n + 2 \<le> d_blocks (sfs_dev t)"
  proof -
    show z: "0 < nblocks t" using vo(4) by (auto simp: owners_ok_def sys_blocks_def)
    show e: "nblocks t \<le> d_blocks (sfs_dev t)" using vo(1) by (simp add: fs_ok_def)
    have "?n > 0" using fm(1) z vo(1) meta(4) by (auto simp: fs_ok_def intro: ccontr)
    then show "?n + 2 \<le> d_blocks (sfs_dev t)" using fm(3) [of "?n - 1"] e by simp
  qed
  have bnd: "SFS_FREEMAPBITS (nblocks t) + 8 < 2 ^ 32" using fm(1,4) by simp
  have main: "wp (kthen (kmod (\<lambda>s. s\<lparr>sfs_freemap := m\<rparr>)) (sfs_freemapio UIO_READ)) (\<lambda>_ w. mounted t w \<and> biglock_depth w = biglock_depth u) ?E r"
    if m: "bitmap_ok m" "bm_nbits m = SFS_FREEMAPBITS (nblocks t)"
      and r: "dev_step u (disk u) r0" "r = r0\<lparr>sfs_sb := sfs_sb t, kmalloc_script := ks\<rparr>" for m r r0 ks
  proof -
    note d = dev_step_simps [OF r(1)]
    let ?r = "r\<lparr>sfs_freemap := m\<rparr>"
    have dr: "dev_ok ?r" "disk ?r = disk t" "d_blocks (sfs_dev ?r) = d_blocks (sfs_dev t)"
      using d r(2) u(1) by (simp_all add: dev_ok_def disk_def booted_def)
    have lm: "length (bm_v m) = 512 * ?n" using m fm(1) by (simp add: bitmap_ok_def divroundup_8)
    have rd: "wp (sfs_freemapio_loop UIO_READ ?n 0) (\<lambda>_ w. mount_step ?r w \<and> bm_v (sfs_freemap w) = bm_v (sfs_freemap t)) ?E ?r"
    proof (rule sfs_freemapio_read [OF dr(1)], goal_cases)
      case (4 j)
      then show ?case using t(2) dr(2) by (simp add: synced_def fm_block_def SFS_FREEMAP_START_def SFS_BLOCKSIZE_def)
    next
      case 6
      then show ?case using dr(1) by (simp add: mount_step_def)
    qed (use n0 dr lm fm(2) in simp_all)
    have fin: "mounted t w \<and> biglock_depth w = biglock_depth u" if "mount_step ?r w" "bm_v (sfs_freemap w) = bm_v (sfs_freemap t)" for w
    proof -
      have "sfs_freemap w = sfs_freemap t" using that m(2) meta(4) by (simp add: mount_step_def)
      moreover have "vn_heap w = vn_heap u" using that(1) d(3) r(2) by (simp add: mount_step_def)
      then have "vn_at p w = vn_at p u" for p by (simp add: vn_at_def)
      then have "vn_at p w = None" for p using u(1) by (simp add: booted_def)
      ultimately show ?thesis using that(1) d(5,8,9,12) r(2) u dr by (simp add: mounted_def mount_step_def)
    qed
    have "wp (sfs_freemapio_loop UIO_READ ?n 0) (\<lambda>_ w. mounted t w \<and> biglock_depth w = biglock_depth u) ?E ?r"
      by (rule wp_conseq [OF rd]) (use fin in auto)
    then show ?thesis by (simp add: sfs_freemapio_def r(2))
  qed
  show ?thesis
    unfolding sfs_domount_read_def wp_kbind SFS_SUPER_BLOCK_def
  proof (rule wp_conseq [OF bs.rd_wp [OF du]], goal_cases)
    case (3 buf r0)
    then have r0: "buf = disk t 0" "dev_step u (disk u) r0" using u(1) by (simp_all add: booted_def)
    note d = dev_step_simps [OF r0(2)]
    have cr: "wp (case bitmap_create k (SFS_FREEMAPBITS (nblocks t)) of
            Ok (Some m) \<Rightarrow> kthen (kmod (\<lambda>s. s\<lparr>sfs_freemap := m\<rparr>)) (sfs_freemapio UIO_READ)
          | Ok None \<Rightarrow> kfail ENOMEM | _ \<Rightarrow> kpanic)
          (\<lambda>_ w. mounted t w \<and> biglock_depth w = biglock_depth u) ?E (r0\<lparr>sfs_sb := sfs_sb t, kmalloc_script := ks\<rparr>)" for k ks
      using bitmap_create_ok [OF bnd refl, of k] main [OF _ _ r0(2) refl, of _ ks] d(9,12) u(3) by auto
    show ?case
      using cr by (simp add: r0(1) sb vn meta(2) d(10))
  qed (use n0 u(1) in \<open>simp_all add: booted_def iobuf_def SFS_BLOCKSIZE_def\<close>)
qed

lemma sfs_domount_wp:
  assumes t: "vol_ok t F X" "synced t F" and u: "booted (disk t) (d_blocks (sfs_dev t)) u"
  shows "wp (sfs_domount 512) (\<lambda>_ w. mounted t w \<and> biglock_depth w = biglock_depth u)
    (\<lambda>e w. e = ENOMEM \<and> biglock_depth w = biglock_depth u) u"
proof -
  have boot: "booted (disk t) (d_blocks (sfs_dev t)) r" if "sfs_dev r = sfs_dev u" "vn_heap r = vn_heap u" for r
  proof -
    have "vn_at p r = vn_at p u" for p using that(2) by (simp add: vn_at_def)
    then show ?thesis using that(1) u by (simp add: booted_def disk_def)
  qed
  have destroy: "wp sfs_fs_destroy (\<lambda>_ w. biglock_depth w = biglock_depth s) E (s\<lparr>sfs_device := False\<rparr>)"
    if "sfs_vnodes s = array_init" for s E
    using that by (simp add: sfs_fs_destroy_def on_vnodes_def array_destroy_def array_cleanup_def array_init_def)
  have bl: "mounted t (s\<lparr>biglock_depth := d\<rparr>) = mounted t s" for s d by (simp add: mounted_def dev_ok_def)
  show ?thesis
    unfolding sfs_domount_def sfs_fs_create_def
    by (simp add: SFS_BLOCKSIZE_def array_create_def, intro impI, rule wp_conseq [OF sfs_domount_read_wp [OF t boot]])
      (auto simp: bl intro!: wp_conseq [OF destroy [where E = "\<lambda>_ _. False"]])
qed

lemma mounted_vol:
  assumes t: "vol_ok t F {}" "synced t F" and w: "mounted t w"
  shows "vol_ok w F {}" "\<And>i. i \<in> F \<Longrightarrow> keeps t w i" "tab w = []" "refs w = (\<lambda>_. 0)"
proof -
  note vo = vol_ok_parts [OF t(1)]
  note m = w [unfolded mounted_def]
  have T: "tab w = []" using m by (simp add: tab_def array_init_def array_list_def)
  have L: "loaded w i = None" for i by (simp add: loaded_def T)
  show "tab w = []" "refs w = (\<lambda>_. 0)" by (simp_all add: T refs_def L fun_eq_iff)
  have at: "inode_at w i = inode_at t i" if "i \<in> F" for i
  proof -
    have "inode_at w i = block_to_dinode (dinode_to_block (inode_at t i))"
      using t(2) that m by (simp add: inode_at_def [of w] L synced_def)
    then show ?thesis using vo(6) [OF that] by (simp add: dinode_roundtrip file_ok_def inode_ok_def)
  qed
  show k: "keeps t w i" if "i \<in> F" for i by (rule keepsI [OF at [OF that]]) (use m vo(1,6) that in simp_all)
  have e: "sfs_sb w = sfs_sb t" "sfs_freemap w = sfs_freemap t" "disk w = disk t" using m by simp_all
  have own: "owned w i = owned t i" if "i \<in> F" for i using k [OF that] by (simp add: keeps_def)
  have "fs_ok w" using vo(1) m by (simp add: fs_ok_def)
  moreover have "tab_ok w" using m by (simp add: tab_ok_def T array_init_def array_list_def array_ok_def array_sizes_def)
  moreover have "file_ok w i" if "i \<in> F" for i
    by (rule keeps_file_ok [OF k [OF that] vo(6) [OF that]]) (use vo(4) e that in \<open>auto simp: owners_ok_def\<close>)
  moreover have "owners_ok w F {}" using vo(4) own by (simp add: owners_ok_def e sys_blocks_def)
  moreover have "meta_ok w" using vo(7) t(2) by (simp add: meta_ok_def e synced_def fm_block_def)
  ultimately show "vol_ok w F {}" using vo(2) by (simp add: vol_ok_def T vol_small_def e)
qed

lemma sfs_unmount_wp:
  assumes s: "vol_ok s F {}" and c: "\<not> sfs_superdirty s" "\<not> sfs_freemapdirty s"
  shows "wp sfs_unmount (\<lambda>_ t. tab s = [] \<and> \<not> sfs_device t \<and> sfs_dev t = sfs_dev s \<and> biglock_depth t = biglock_depth s)
    (\<lambda>e t. e = EBUSY \<and> tab s \<noteq> [] \<and> t = s) s"
proof (cases "tab s = []")
  case True
  then have n: "arr_num (sfs_vnodes s) = 0" using num_tab [OF vol_ok_parts(3) [OF s]] by (simp add: array_num_def unat_eq_0)
  then show ?thesis
    using True c by (simp add: sfs_unmount_def sfs_fs_destroy_def on_vnodes_def array_destroy_def array_cleanup_def array_num_def)
next
  case False
  then have "array_num (sfs_vnodes s) > 0" using num_tab [OF vol_ok_parts(3) [OF s]] by (auto simp: word_greater_zero_iff)
  then show ?thesis using False by (simp add: sfs_unmount_def)
qed

subsection \<open>What is on the disk after a sync\<close>

text \<open>
  The volume that a mount finds on the disk of a synced volume, whatever was in memory before
  it: the same names, and the same files under them.
\<close>

definition recovers :: "nat set \<Rightarrow> sfs_fs \<Rightarrow> sfs_fs \<Rightarrow> bool" where
  "recovers F s w \<longleftrightarrow> vol_ok w F {} \<and> fmap w = fmap s \<and> (\<forall>i \<in> F. view w i = view s i) \<and> tab w = [] \<and>
     ((\<forall>i \<in> F - {ROOT}. links (slots s ROOT) i > 0) \<longrightarrow> ns_ok w F)"

lemma sync_recovers:
  assumes s: "ns_ok s F"
  shows "wp sfs_sync (\<lambda>_ t. ns_ok t F \<and> fmap t = fmap s \<and> (\<forall>i \<in> F. view t i = view s i) \<and> biglock_depth t = biglock_depth s \<and> refs t = refs s \<and>
      (\<forall>u. booted (disk t) (d_blocks (sfs_dev t)) u \<longrightarrow>
        wp (sfs_domount 512) (\<lambda>_ w. recovers F s w) (\<lambda>e _. e = ENOMEM) u)) E s"
proof (rule wp_conseq [OF sfs_sync_wp [OF ns_parts(1) [OF s]]], goal_cases)
  case (1 x t)
  note n = ns_parts [OF s]
  have t: "vol_ok t F {}" "synced t F" "\<And>i. i \<in> F \<Longrightarrow> keeps s t i" "refs t = refs s" "biglock_depth t = biglock_depth s"
    using 1 by simp_all
  have keep: "slots w ROOT = slots s ROOT" "is_dir w ROOT" "fmap w = fmap s" "inode_at w ROOT = inode_at s ROOT"
    if "\<And>i. i \<in> F \<Longrightarrow> keeps s w i" for w
  proof -
    have k: "keeps s w ROOT" using that n(2) by simp
    show "slots w ROOT = slots s ROOT" by (rule keeps_slots [OF k])
    then show "is_dir w ROOT" "fmap w = fmap s" "inode_at w ROOT = inode_at s ROOT" using n(3) k by (simp_all add: is_dir_def fmap_def keeps_def)
  qed
  have ns: "ns_ok w F" if w: "vol_ok w F {}" "\<And>i. i \<in> F \<Longrightarrow> keeps s w i"
      and r: "\<And>i. i \<in> F - {ROOT} \<Longrightarrow> links (slots s ROOT) i = 0 \<Longrightarrow> refs w i > 0" for w
  proof -
    have "inode_at w i = inode_at s i" if "i \<in> F" for i using w(2) [OF that] by (simp add: keeps_def)
    then show ?thesis using s w(1) r keep(1,2,4) [OF w(2)] unfolding ns_ok_def by simp
  qed
  have "recovers F s w" if w: "mounted t w" for w
  proof -
    note m = mounted_vol [OF t(1,2) w]
    have k: "keeps s w i" if "i \<in> F" for i by (rule keeps_trans [OF t(3) [OF that] m(2) [OF that]])
    have "ns_ok w F" if "\<forall>i \<in> F - {ROOT}. links (slots s ROOT) i > 0"
      by (rule ns [OF m(1) k]) (use that in force)+
    then show ?thesis using m(1,3) keep(3) [OF k] keeps_view [OF k] by (simp add: recovers_def)
  qed
  then have "wp (sfs_domount 512) (\<lambda>_ w. recovers F s w) (\<lambda>e _. e = ENOMEM) u" if "booted (disk t) (d_blocks (sfs_dev t)) u" for u
    by (rule_tac wp_conseq [OF sfs_domount_wp [OF t(1,2) that]]) auto
  moreover have "ns_ok t F" by (rule ns [OF t(1,3)]) (use n(8) t(4) in auto)
  ultimately show ?case using keep(3) [OF t(3)] keeps_view [OF t(3)] t(4,5) by simp
qed simp

end
