(* ===== verification/Sfs_Calls.thy ===== *)
theory Sfs_Calls
  imports Sfs_Sync
begin

text \<open>
  Sequences of calls on a mounted volume: each leaves the volume sound and the big lock as it
  found it, so a volume stays sound however long it is in use.
\<close>

subsection \<open>Calls\<close>

text \<open>
  The calls of the layer above on a mounted volume. \<open>p\<close> and \<open>f\<close> are addresses of vnodes, \<open>u\<close>
  is the transfer descriptor of a read or write.
\<close>

datatype sfs_call =
    Getroot
  | Lookup nat cstr
  | Creat nat cstr bool
  | Link nat cstr nat
  | Remove nat cstr
  | Rename nat cstr cstr
  | Read nat uenv
  | Write nat uenv
  | Truncate nat nat
  | Fsync nat
  | Decref nat
  | Sync

text \<open>The call as a step of the volume; the descriptor is the caller's.\<close>

definition with_uio :: "(sfs_fs \<times> uenv, unit) kfun \<Rightarrow> uenv \<Rightarrow> (sfs_fs, unit) kfun" where
  "with_uio m u s = (case m (s, u) of (r, (t, _)) \<Rightarrow> (r, t))"

fun sfs_exec :: "sfs_call \<Rightarrow> (sfs_fs, unit) kfun" where
  "sfs_exec Getroot = kbind sfs_getroot (\<lambda>_. kret ())"
| "sfs_exec (Lookup p name) = kbind (sfs_lookup p name) (\<lambda>_. kret ())"
| "sfs_exec (Creat p name excl) = kbind (sfs_creat p name excl) (\<lambda>_. kret ())"
| "sfs_exec (Link p name f) = sfs_link p name f"
| "sfs_exec (Remove p name) = sfs_remove p name"
| "sfs_exec (Rename p n1 n2) = sfs_rename p n1 p n2"
| "sfs_exec (Read p u) = with_uio (VOP_READ p) u"
| "sfs_exec (Write p u) = with_uio (VOP_WRITE p) u"
| "sfs_exec (Truncate p len) = VOP_TRUNCATE p (int len)"
| "sfs_exec (Fsync p) = VOP_FSYNC p"
| "sfs_exec (Decref p) = sfs_decref p"
| "sfs_exec Sync = sfs_sync"

text \<open>
  What a caller has to see to: it names vnodes it holds, directories where directories are
  due and files where files are, strings without a zero byte, and it reads and writes within
  the largest file, from no further than the end of the file on.
\<close>

fun proper :: "sfs_fs \<Rightarrow> sfs_call \<Rightarrow> bool" where
  "proper s Getroot \<longleftrightarrow> True"
| "proper s (Lookup p name) \<longleftrightarrow> p \<in> set (tab s) \<and> ino_of s p = ROOT"
| "proper s (Creat p name excl) \<longleftrightarrow> p \<in> set (tab s) \<and> ino_of s p = ROOT \<and> 0 \<notin> set name"
| "proper s (Link p name f) \<longleftrightarrow> p \<in> set (tab s) \<and> ino_of s p = ROOT \<and> f \<in> set (tab s) \<and> 0 \<notin> set name"
| "proper s (Remove p name) \<longleftrightarrow> p \<in> set (tab s) \<and> ino_of s p = ROOT"
| "proper s (Rename p n1 n2) \<longleftrightarrow> p \<in> set (tab s) \<and> ino_of s p = ROOT \<and> 0 \<notin> set n2"
| "proper s (Read p u) \<longleftrightarrow> p \<in> set (tab s) \<and> ino_of s p \<noteq> ROOT \<and> uio_ok u \<and> uio_rw u = UIO_READ \<and> 0 \<le> uio_offset u"
| "proper s (Write p u) \<longleftrightarrow> p \<in> set (tab s) \<and> ino_of s p \<noteq> ROOT \<and> uio_ok u \<and> uio_rw u = UIO_WRITE \<and> 0 \<le> uio_offset u \<and>
     uio_offset u + int (uio_resid u) \<le> int MAXFILE \<and> uio_offset u \<le> int (length (contents s (ino_of s p)))"
| "proper s (Truncate p len) \<longleftrightarrow> p \<in> set (tab s) \<and> ino_of s p \<noteq> ROOT \<and> len \<le> length (contents s (ino_of s p))"
| "proper s (Fsync p) \<longleftrightarrow> p \<in> set (tab s)"
| "proper s (Decref p) \<longleftrightarrow> p \<in> set (tab s)"
| "proper s Sync \<longleftrightarrow> True"

text \<open>
  \<open>vn_refcount\<close> is a C \<open>int\<close>, and nothing in \<open>vnode_incref\<close> keeps it from passing \<open>INT_MAX\<close>. So a
  call that takes a reference, for its caller or while it runs, is made only when no vnode has
  \<open>INT_MAX\<close> of them; the counts then stay in range.
\<close>

definition INT_MAX :: int where "INT_MAX = 2147483647"

definition refs_at_most :: "int \<Rightarrow> sfs_fs \<Rightarrow> bool" where
  "refs_at_most n s = list_all (\<lambda>p. vn_refcount (vn_of s p) \<le> n) (tab s)"

fun takes :: "sfs_call \<Rightarrow> int" where
  "takes Getroot = 1"
| "takes (Lookup p name) = 1"
| "takes (Creat p name excl) = 1"
| "takes (Remove p name) = 1"
| "takes (Rename p n1 n2) = 1"
| "takes _ = 0"

definition may :: "sfs_fs \<Rightarrow> sfs_call \<Rightarrow> bool" where
  "may s c \<longleftrightarrow> proper s c \<and> refs_at_most (INT_MAX - takes c) s"

text \<open>The states a volume goes through.\<close>

abbreviation sfs_run :: "sfs_fs \<Rightarrow> sfs_fs \<Rightarrow> bool" where
  "sfs_run \<equiv> runs may sfs_exec"

subsection \<open>Every call keeps the volume sound\<close>

definition sound_after :: "int \<Rightarrow> sfs_fs \<Rightarrow> sfs_fs \<Rightarrow> bool" where
  "sound_after n s t \<longleftrightarrow> (\<exists>G. ns_ok t G) \<and> biglock_depth t = biglock_depth s \<and> (\<forall>i. refs t i \<le> refs s i + n)"

lemma refs_at_most:
  assumes "tab_ok s" "0 \<le> n"
  shows "refs_at_most n s \<longleftrightarrow> (\<forall>i. refs s i \<le> n)"
proof
  assume a: "refs_at_most n s"
  show "\<forall>i. refs s i \<le> n"
    using a assms(2) by (auto simp: refs_def refs_at_most_def list_all_iff dest!: loaded_SomeD split: option.split)
next
  assume a: "\<forall>i. refs s i \<le> n"
  have "vn_refcount (vn_of s p) \<le> n" if "p \<in> set (tab s)" for p using a refs_loaded [OF assms(1) that] by metis
  then show "refs_at_most n s" by (simp add: refs_at_most_def list_all_iff)
qed

lemma wp_with_uio: "wp (with_uio m u) Q E s = wp m (\<lambda>x (t, _). Q x t) (\<lambda>e (t, _). E e t) (s, u)"
  by (auto simp: wp_def with_uio_def split: prod.splits outcome.splits)

lemma unchanged_sound: "unchanged F s t \<Longrightarrow> 0 \<le> n \<Longrightarrow> sound_after n s t"
  by (auto simp: sound_after_def unchanged_def)

lemma flushed_ns:
  assumes s: "ns_ok s F" and t: "flushed P F s t"
  shows "ns_ok t F"
proof (rule ns_keep_ok(1) [OF s])
  show "ns_keep F s t"
    by (rule keeps_ns_keep) (use ns_parts [OF s] t in \<open>auto simp: flushed_def\<close>)
  show "refs t i > 0" if "refs s i > 0" for i using t that by (simp add: flushed_def)
qed

lemma call_sound:
  assumes s: "ns_ok s F" and c: "proper s c"
  shows "wp (sfs_exec c) (\<lambda>_. sound_after (takes c) s) (\<lambda>_. sound_after (takes c) s) s"
proof (cases c)
  case Getroot
  have "sfi_type (inode_at s ROOT) = SFS_TYPE_DIR" using ns_parts(3) [OF s] by (simp add: is_dir_def)
  note w = sfs_getroot_wp [OF ns_parts(1,2) [OF s] this]
  show ?thesis
    unfolding Getroot sfs_exec.simps wp_kbind wp_kret
  proof (rule wp_conseq [OF w], goal_cases)
    case (1 p t)
    then have g: "got p ROOT s t" "vol_ok t F {}" by simp_all
    have "ns_ok t F" by (rule got_ns(2) [OF s g])
    then show ?case using g(1) Getroot by (auto simp: sound_after_def got_def)
  next
    case (2 e t)
    then have q: "quiet s t" by simp
    have "ns_ok t F" by (rule quiet_ns(1) [OF s q])
    then show ?case using q quiet_same(9) [OF q] Getroot by (auto simp: sound_after_def quiet_def)
  qed
next
  case (Lookup p name)
  then show ?thesis
    using c by (auto intro!: wp_conseq [OF sfs_lookup_wp [OF s]] simp: unchanged_sound) (auto simp: sound_after_def)
next
  case (Creat p name excl)
  then show ?thesis
    using c by (auto intro!: wp_conseq [OF sfs_creat_wp [OF s]] simp: unchanged_sound)
      (auto simp: sound_after_def created_def refs_unused [OF ns_parts(1) [OF s]] split: option.splits)
next
  case (Link p name f)
  then show ?thesis
    using c by (auto intro!: wp_conseq [OF sfs_link_wp [OF s]] simp: unchanged_sound) (auto simp: sound_after_def)
next
  case (Remove p name)
  then show ?thesis
    using c by (auto intro!: wp_conseq [OF sfs_remove_wp [OF s]] simp: unchanged_sound) (auto simp: sound_after_def)
next
  case (Rename p n1 n2)
  then show ?thesis
    using c by (auto intro!: wp_conseq [OF sfs_rename_wp [OF s]] simp: unchanged_sound) (auto simp: sound_after_def)
next
  case (Read p u)
  then have off: "uio_offset u = int (nat (uio_offset u))" using c by simp
  show ?thesis
    using c unfolding Read sfs_exec.simps wp_with_uio proper.simps
    by (intro wp_conseq [OF VOP_READ_wp [OF s _ refl _ _ _ off]]) (auto simp: unchanged_sound)
next
  case (Write p u)
  then have off: "uio_offset u = int (nat (uio_offset u))" using c by simp
  show ?thesis
    using c unfolding Write sfs_exec.simps wp_with_uio proper.simps
    by (intro wp_conseq [OF VOP_WRITE_wp [OF s _ refl _ _ _ off]]) (auto simp: sound_after_def)
next
  case (Truncate p len)
  then show ?thesis
    using c by (auto intro!: wp_conseq [OF VOP_TRUNCATE_wp [OF s _ refl]] simp: sound_after_def)
next
  case (Fsync p)
  then show ?thesis
    using c flushed_ns [OF s]
    by (auto intro!: wp_conseq [OF VOP_FSYNC_wp [OF ns_parts(1) [OF s]]] simp: sound_after_def) (auto simp: flushed_def)
next
  case (Decref p)
  then have p: "p \<in> set (tab s)" using c by simp
  show ?thesis
    unfolding Decref sfs_exec.simps
    by (rule wp_conseq [OF sfs_decref_wp [OF ns_parts(1) [OF s] p refl]])
      (use dropped_ns(1) [OF s p refl refl] in \<open>auto simp: sound_after_def dropped_def\<close>)
next
  case Sync
  then show ?thesis by (auto intro!: wp_conseq [OF sync_recovers [OF s]] simp: sound_after_def)
qed

text \<open>Between calls: sound, with the counts of the vnodes in the range of a C \<open>int\<close>.\<close>

definition in_use :: "nat \<Rightarrow> sfs_fs \<Rightarrow> bool" where
  "in_use d s \<longleftrightarrow> (\<exists>G. ns_ok s G) \<and> biglock_depth s = d \<and> refs_at_most INT_MAX s"

lemma in_use_after:
  assumes s: "in_use d s" "refs_at_most (INT_MAX - takes c) s" and t: "sound_after (takes c) s t"
  shows "in_use d t"
proof -
  obtain G where G: "ns_ok s G" "biglock_depth s = d" using s(1) by (auto simp: in_use_def)
  obtain H where H: "ns_ok t H" "biglock_depth t = biglock_depth s" "\<And>i. refs t i \<le> refs s i + takes c"
    using t by (auto simp: sound_after_def)
  have tk: "0 \<le> INT_MAX - takes c" "0 \<le> INT_MAX" by (cases c; simp add: INT_MAX_def)+
  have "refs s i \<le> INT_MAX - takes c" for i
    using s(2) refs_at_most [OF vol_ok_parts(3) [OF ns_parts(1) [OF G(1)]] tk(1)] by blast
  then have "refs t i \<le> INT_MAX" for i using H(3) [of i] by (smt (verit))
  then have "refs_at_most INT_MAX t" using refs_at_most [OF vol_ok_parts(3) [OF ns_parts(1) [OF H(1)]] tk(2)] by blast
  then show ?thesis using H(1,2) G(2) by (auto simp: in_use_def)
qed

interpretation vol: safe_calls may sfs_exec "in_use d" for d
proof
  fix s c assume s: "in_use d s" "may s c"
  then obtain F where F: "ns_ok s F" "proper s c" "refs_at_most (INT_MAX - takes c) s" by (auto simp: in_use_def may_def)
  show "wp (sfs_exec c) (\<lambda>_. in_use d) (\<lambda>_. in_use d) s"
    by (rule wp_conseq [OF call_sound [OF F(1,2)]]) (rule in_use_after [OF s(1) F(3)], assumption)+
qed

end
