(* ===== verification/Sfs_Demo.thy ===== *)
theory Sfs_Demo
  imports Sfs_Files
begin

text \<open>
  A concrete volume of 4096 blocks that is sound: the root directory (inode 1, its entries in
  block 3) has one entry \<open>a\<close> for the file of inode 4, which holds the five bytes \<open>hello\<close> in
  block 5. Both are loaded, at the addresses 0 and 1.
\<close>

subsection \<open>The volume\<close>

definition demo_sb :: sfs_superblock where
  "demo_sb = \<lparr>sb_magic = SFS_MAGIC, sb_nblocks = 4096, sb_volname = replicate 32 0, sb_reserved = replicate 118 0\<rparr>"

definition demo_root :: sfs_dinode where
  "demo_root = \<lparr>sfi_size = 64, sfi_type = SFS_TYPE_DIR, sfi_linkcount = 1, sfi_direct = 3 # replicate 14 0,
     sfi_indirect = 0, sfi_waste = replicate 110 0\<rparr>"

definition demo_file :: sfs_dinode where
  "demo_file = \<lparr>sfi_size = 5, sfi_type = SFS_TYPE_FILE, sfi_linkcount = 1, sfi_direct = 5 # replicate 14 0,
     sfi_indirect = 0, sfi_waste = replicate 110 0\<rparr>"

definition demo_entry :: sfs_direntry where
  "demo_entry = \<lparr>sfd_ino = 4, sfd_name = 97 # replicate 59 0\<rparr>"

definition demo_text :: "byte list" where
  "demo_text = [104, 101, 108, 108, 111]"

definition demo_disk :: "nat \<Rightarrow> byte list" where
  "demo_disk b =
     (if b = 0 then superblock_to_block demo_sb
      else if b = 1 then dinode_to_block demo_root
      else if b = 2 then 63 # replicate 511 0
      else if b = 3 then direntry_to_bytes demo_entry @ replicate 448 0
      else if b = 4 then dinode_to_block demo_file
      else if b = 5 then demo_text @ replicate 507 0
      else replicate 512 0)"

definition demo_vnode :: "nat \<Rightarrow> sfs_dinode \<Rightarrow> vnode_ops \<Rightarrow> sfs_vnode" where
  "demo_vnode ino i ops = \<lparr>vn_refcount = 1, vn_fs = True, vn_ops = Some ops, sv_i = i, sv_ino = ino, sv_dirty = False\<rparr>"

definition demo :: sfs_fs where
  "demo =
     \<lparr>sfs_sb = demo_sb, sfs_superdirty = False, sfs_device = True,
      sfs_vnodes = \<lparr>arr_v = [Some 0, Some 1, None, None], arr_num = 2, arr_max = 4\<rparr>,
      sfs_freemap = \<lparr>bm_nbits = 4096, bm_v = 63 # replicate 511 0\<rparr>, sfs_freemapdirty = False,
      sfs_dev = \<lparr>d_blocks = 4096, lh_buf = replicate 512 0, lh_result = None, lh_clear = 1, lh_done = 0,
        reg_stat = 0, reg_sect = 0, hw_sect = demo_disk, hw_script = []\<rparr>,
      vn_heap = [Some (demo_vnode 1 demo_root Sfs_dirops), Some (demo_vnode 4 demo_file Sfs_fileops)],
      biglock_depth = 0, kmalloc_script = []\<rparr>"

text \<open>The inodes in use.\<close>

definition demo_files :: "nat set" where
  "demo_files = {1, 4}"

subsection \<open>It is sound\<close>

lemma demo_inodes: "dinode_wf demo_root" "dinode_wf demo_file" "superblock_wf demo_sb"
  by (simp_all add: dinode_wf_def demo_root_def demo_file_def superblock_wf_def demo_sb_def SFS_TYPE_DIR_def SFS_TYPE_FILE_def SFS_MAGIC_def)

lemma length_demo_disk: "length (demo_disk b) = 512"
proof -
  have "direntry_wf demo_entry" by (simp add: direntry_wf_def demo_entry_def SFS_NAMELEN_def)
  then show ?thesis
    using demo_inodes by (simp add: demo_disk_def length_superblock_to_block length_dinode_to_block length_direntry_to_bytes demo_text_def)
qed

lemma demo_used: "bitmap_bit (sfs_freemap demo) i \<longleftrightarrow> i < 6" if "i < 4096"
proof (cases "i div 8")
  case 0
  then have i: "i < 8" by (simp add: div_eq_0_iff)
  have b: "bit (63 :: byte) i \<longleftrightarrow> i < 6"
  proof -
    have m: "(63 :: byte) = mask 6" by (simp add: mask_eq_exp_minus_1)
    show ?thesis unfolding m bit_mask_iff using i by simp
  qed
  then show ?thesis using 0 i by (simp add: bitmap_bit_def demo_def)
next
  case (Suc k)
  then have "\<not> i < 6" by auto
  moreover have "k < 511" using Suc that by linarith
  ultimately show ?thesis using Suc by (simp add: bitmap_bit_def demo_def)
qed

lemma demo_used_set: "used demo = {..<6}" "bm_nbits (sfs_freemap demo) = 4096" "nblocks demo = 4096" "disk demo = demo_disk"
proof -
  show n: "bm_nbits (sfs_freemap demo) = 4096" by (simp add: demo_def)
  show "used demo = {..<6}" using demo_used by (auto simp: bitmap_used_def n)
  show "nblocks demo = 4096" "disk demo = demo_disk" by (simp_all add: demo_def demo_sb_def disk_def)
qed

lemma demo_fs_ok: "fs_ok demo" "vol_small demo"
proof -
  have "bitmap_ok (sfs_freemap demo)" by (simp add: bitmap_ok_def demo_def divroundup_8)
  moreover have "dev_ok demo"
    by (simp add: dev_ok_def demo_def lhd_ok_def hw_good_def script_ok_def LHD_SECTSIZE_def length_demo_disk)
  ultimately show "fs_ok demo" by (simp add: fs_ok_def demo_used_set) (simp add: demo_def)
  show "vol_small demo" by (simp add: vol_small_def demo_used_set)
qed

lemma demo_tab: "tab demo = [0, 1]" "vn_of demo 0 = demo_vnode 1 demo_root Sfs_dirops" "vn_of demo (Suc 0) = demo_vnode 4 demo_file Sfs_fileops"
  "\<And>p. vn_at p demo \<noteq> None \<longleftrightarrow> p = 0 \<or> p = 1"
  by (auto simp: tab_def array_list_def demo_def vn_of_def vn_at_def less_Suc_eq)

lemma demo_inode_at [simplified, simp]: "inode_at demo 1 = demo_root" "inode_at demo 4 = demo_file" "refs demo 1 = 1" "refs demo 4 = 1"
  by (simp_all add: inode_at_def refs_def loaded_def demo_tab ino_of_def demo_vnode_def)

lemma demo_tab_ok: "tab_ok demo"
proof -
  have "array_ok (sfs_vnodes demo)" "None \<notin> set (array_list (sfs_vnodes demo))"
    by (auto simp: array_ok_def array_list_def demo_def array_sizes_def intro!: exI [of _ "0 :: nat"])
  moreover have "vnode_ok (demo_vnode 1 demo_root Sfs_dirops)" "vnode_ok (demo_vnode 4 demo_file Sfs_fileops)"
    by (simp_all add: vnode_ok_def demo_vnode_def demo_root_def demo_file_def sfs_ops_of_type_def SFS_TYPE_DIR_def SFS_TYPE_FILE_def)
  moreover have "clean demo (demo_vnode 1 demo_root Sfs_dirops)" "clean demo (demo_vnode 4 demo_file Sfs_fileops)"
    by (simp_all add: clean_def demo_vnode_def demo_used_set demo_disk_def)
  ultimately show ?thesis
    using demo_tab(4) by (simp add: tab_ok_def demo_tab(1-3)) (simp add: ino_of_def demo_tab demo_vnode_def)
qed

lemma demo_bmap: "bmap_of demo_disk demo_root = 3 # replicate 142 0" "bmap_of demo_disk demo_file = 5 # replicate 142 0"
  by (simp_all add: bmap_of_def demo_root_def demo_file_def idwords_def replicate_add [symmetric])

lemma demo_blocks: "inode_blocks demo_disk demo_root = {3}" "inode_blocks demo_disk demo_file = {5}"
  by (auto simp: inode_blocks_def demo_bmap) (simp_all add: demo_root_def demo_file_def)


lemma demo_vol_ok: "vol_ok demo {1, 4} {}"
proof -
  have fm: "SFS_FREEMAPBLOCKS 4096 = 1" "SFS_FREEMAPBITS 4096 = 4096"
    by (simp_all add: SFS_FREEMAPBLOCKS_def SFS_FREEMAPBITS_def SFS_ROUNDUP_def SFS_BITSPERBLOCK_def SFS_BLOCKSIZE_def u32_def)
  have sys: "sys_blocks demo = {0, 2}" by (auto simp: sys_blocks_def demo_used_set fm)
  have own [simplified]: "owned demo 1 = {1, 3}" "owned demo 4 = {4, 5}" by (simp_all add: owned_def demo_inode_at demo_used_set demo_blocks)
  have "owners_ok demo {1, 4} {}" by (auto simp: owners_ok_def sys own demo_used_set)
  moreover have "file_ok demo i" if "i \<in> {1, 4}" for i
    using that demo_inodes
    by (auto simp: file_ok_def demo_inode_at demo_used_set demo_blocks inode_ok_def demo_bmap no_share_def filter_replicate)
      (simp_all add: demo_root_def demo_file_def sfs_ops_of_type_def SFS_TYPE_DIR_def SFS_TYPE_FILE_def MAXFILE_def)
  moreover have "meta_ok demo"
    unfolding meta_ok_def demo_used_set fm using demo_inodes(3)
    by (simp add: demo_def demo_sb_def demo_disk_def SFS_SUPER_BLOCK_def SFS_FREEMAP_START_def fm_block_def SFS_BLOCKSIZE_def)
  ultimately show ?thesis
    using demo_fs_ok demo_tab_ok by (auto simp: vol_ok_def demo_tab ino_of_def demo_vnode_def)
qed

lemma take_file_data:
  assumes "n \<le> 512" "length (file_block d i 0) = 512"
  shows "take n (file_data d i) = take n (file_block d i 0)"
proof (rule nth_equalityI)
  show "length (take n (file_data d i)) = length (take n (file_block d i 0))" using assms by (simp add: MAXFILE_def)
next
  fix k assume "k < length (take n (file_data d i))"
  then have "k < n" "k < 512" "k < MAXFILE" using assms(1) by simp_all
  then show "take n (file_data d i) ! k = take n (file_block d i 0) ! k" by (simp add: file_data_def)
qed

lemma demo_slots: "slots demo ROOT = [demo_entry]"
proof -
  have wf: "direntry_wf demo_entry" by (simp add: direntry_wf_def demo_entry_def SFS_NAMELEN_def)
  have b: "file_block demo_disk demo_root 0 = direntry_to_bytes demo_entry @ replicate 448 0"
    by (simp add: file_block_def demo_bmap blk_bytes_def demo_disk_def)
  have "take 64 (file_data demo_disk demo_root) = direntry_to_bytes demo_entry"
    using take_file_data [of 64 demo_disk demo_root] length_direntry_to_bytes [OF wf] by (simp add: b)
  then have "dirent (file_data demo_disk demo_root) 0 = demo_entry" by (simp add: dirent_def direntry_roundtrip [OF wf])
  moreover have "sfi_size demo_root = 64" by (simp add: demo_root_def)
  ultimately show ?thesis by (simp add: slots_def SFS_ROOTDIR_INO_def demo_used_set)
qed

lemma demo_fmap: "fmap demo = [[97] \<mapsto> 4]" "contents demo 4 = demo_text"
proof -
  have "(replicate 59 (0 :: byte))[58 := 0] = replicate 59 0" by (rule nth_equalityI) (simp_all add: nth_list_update)
  then have "ename demo_entry = [97]" by (simp add: ename_def demo_entry_def SFS_NAMELEN_def cstr_of_def)
  then show "fmap demo = [[97] \<mapsto> 4]" by (simp add: fmap_def demo_slots dmap_def live_def SFS_NOINO_def) (simp add: demo_entry_def)
  have b: "file_block demo_disk demo_file 0 = demo_text @ replicate 507 0"
    by (simp add: file_block_def demo_bmap blk_bytes_def demo_disk_def)
  show "contents demo 4 = demo_text"
    using take_file_data [of 5 demo_disk demo_file] by (simp add: contents_def demo_used_set b) (simp add: demo_file_def demo_text_def)
qed

lemma demo_ns_ok: "ns_ok demo demo_files"
proof -
  have d: "is_dir demo ROOT" using demo_slots
    by (auto simp: is_dir_def dir_wf_def names_at_def SFS_ROOTDIR_INO_def) (simp_all add: demo_root_def)
  have l: "links [demo_entry] 4 = 1" "sfd_ino demo_entry = 4" by (simp_all add: links_def demo_entry_def)
  show ?thesis
    unfolding ns_ok_def demo_slots demo_files_def using demo_vol_ok d l
    by (simp add: SFS_ROOTDIR_INO_def) (simp add: demo_root_def demo_file_def)
qed

lemma demo_vnodes: "0 \<in> set (tab demo)" "ino_of demo 0 = ROOT" "1 \<in> set (tab demo)" "ino_of demo 1 = 4" "4 \<noteq> ROOT"
  "biglock_depth demo = 0"
  by (simp_all add: demo_tab ino_of_def demo_vnode_def SFS_ROOTDIR_INO_def) (simp add: demo_def)

end
