(* ===== verification/Sfs_Properties.thy ===== *)
theory Sfs_Properties
  imports Sfs_Calls Sfs_Demo
begin

text \<open>
  What the simple file system promises its callers, stated over its operations. The proofs
  rest on the theories of the components; every statement with a hypothesis is applied to
  the volume of \<open>Sfs_Demo\<close>.
\<close>

subsection \<open>The volume as a map from names to files\<close>

text \<open>
  C6: \<open>sfs_creat\<close> on the root directory refines the insertion into the map from names to
  inodes. If the name is there and the call is not exclusive, it returns a vnode of that file
  with one more reference and changes nothing else. If it is not there, it makes a new empty
  file under it and leaves all other files as they are. On an error (and only the errors
  listed in \<open>creat_error\<close>) names, references and files are as before, and the inode and
  directory slot allocated on the way are given back. The big lock is released.
\<close>

theorem sfs_creat_refines:
  assumes "ns_ok s F" "p \<in> set (tab s)" "ino_of s p = ROOT" "0 \<notin> set name"
  shows "wp (sfs_creat p name excl)
    (\<lambda>q t. biglock_depth t = biglock_depth s \<and>
       (case fmap s name of
          Some ino \<Rightarrow> \<not> excl \<and> q \<in> set (tab t) \<and> ino_of t q = ino \<and> ns_ok t F \<and> fmap t = fmap s \<and>
            refs t = (refs s)(ino := refs s ino + 1) \<and> view t = view s
        | None \<Rightarrow> length name < SFS_NAMELEN \<and> (\<exists>ino. created name q ino F s t)))
    (\<lambda>e t. creat_error name excl s e \<and> unchanged F s t) s"
  by (rule sfs_creat_wp [OF assms])

theorem sfs_creat_refines_witness:
  "ns_ok demo demo_files \<and>
   wp (sfs_creat 0 [98] True) (\<lambda>q t. \<exists>ino. created [98] q ino demo_files demo t) (\<lambda>e t. unchanged demo_files demo t) demo"
proof -
  have z: "(0 :: byte) \<notin> set [98]" by simp
  show ?thesis
    by (intro conjI wp_conseq [OF sfs_creat_refines [OF demo_ns_ok demo_vnodes(1,2) z, of True]])
      (auto simp: demo_fmap demo_ns_ok)
qed

text \<open>
  C15: \<open>sfs_lookup\<close> on the root directory finds exactly the names of the map: it returns a
  vnode of the file the name stands for, with one more reference, and answers \<open>ENOENT\<close> exactly
  when the name is not there (\<open>ENOMEM\<close> when the vnode cannot be allocated). The volume does
  not change.
\<close>

theorem sfs_lookup_refines:
  assumes "ns_ok s F" "p \<in> set (tab s)" "ino_of s p = ROOT"
  shows "wp (sfs_lookup p name)
    (\<lambda>q t. \<exists>ino. fmap s name = Some ino \<and> q \<in> set (tab t) \<and> ino_of t q = ino \<and> ns_ok t F \<and> fmap t = fmap s \<and>
       refs t = (refs s)(ino := refs s ino + 1) \<and> view t = view s \<and> biglock_depth t = biglock_depth s)
    (\<lambda>e t. (e = ENOENT \<and> fmap s name = None \<or> e = ENOMEM \<and> fmap s name \<noteq> None) \<and> unchanged F s t) s"
  by (rule sfs_lookup_wp [OF assms])

theorem sfs_lookup_refines_witness:
  "wp (sfs_lookup 0 [97]) (\<lambda>q t. ino_of t q = 4 \<and> refs t 4 = 2) (\<lambda>e t. e = ENOMEM) demo"
  by (rule wp_conseq [OF sfs_lookup_refines [OF demo_ns_ok demo_vnodes(1,2), of "[97]"]]) (auto simp: demo_fmap)

text \<open>
  C8: \<open>sfs_remove\<close> takes one name out of the map. The file goes away with its last name unless
  someone still holds a vnode of it; until then, and when it has other names, its contents
  stay. All other files stay as they are, and on an error nothing changes.
\<close>

theorem sfs_remove_refines:
  assumes "ns_ok s F" "p \<in> set (tab s)" "ino_of s p = ROOT"
  shows "wp (sfs_remove p name)
    (\<lambda>_ t. biglock_depth t = biglock_depth s \<and> (\<exists>ino. fmap s name = Some ino \<and> ns_ok t (removed F ino s) \<and>
       fmap t = (fmap s)(name := None) \<and> refs t = refs s \<and> (\<forall>i \<in> F - {ROOT, ino}. view t i = view s i) \<and>
       (ino \<in> removed F ino s \<longrightarrow> contents t ino = contents s ino)))
    (\<lambda>e t. (e = ENOENT \<and> fmap s name = None \<or> e = ENOMEM \<and> fmap s name \<noteq> None) \<and> unchanged F s t) s"
  by (rule sfs_remove_wp [OF assms])

theorem sfs_remove_refines_witness:
  "wp (sfs_remove 0 [97]) (\<lambda>_ t. fmap t = Map.empty \<and> ns_ok t demo_files \<and> contents t 4 = demo_text)
     (\<lambda>e t. unchanged demo_files demo t) demo"
proof -
  have r: "removed demo_files 4 demo = demo_files" "4 \<in> demo_files" by (simp_all add: removed_def demo_files_def)
  show ?thesis
    by (rule wp_conseq [OF sfs_remove_refines [OF demo_ns_ok demo_vnodes(1,2), of "[97]"]])
      (auto simp: demo_fmap r)
qed

text \<open>
  C13: \<open>sfs_rename\<close> moves a name within the root directory: it succeeds only when the old name
  is there and the new one is not, the new name then stands for the same file, with the same
  contents, and the old one is gone. On every error names and files are as before. In particular a
  new name that is in use, be it by the same file, is refused with \<open>EEXIST\<close> (or \<open>ENOMEM\<close>) and not
  replaced; the manual page of \<open>rename\<close> asks for the opposite.
\<close>

theorem sfs_rename_refines:
  assumes "ns_ok s F" "p \<in> set (tab s)" "ino_of s p = ROOT" "0 \<notin> set n2"
  shows "wp (sfs_rename p n1 p n2)
    (\<lambda>_ t. biglock_depth t = biglock_depth s \<and> (\<exists>ino. fmap s n1 = Some ino \<and> fmap s n2 = None \<and> ns_ok t F \<and>
       fmap t = (fmap s)(n2 \<mapsto> ino, n1 := None) \<and> refs t = refs s \<and> (\<forall>i \<in> F - {ROOT, ino}. view t i = view s i) \<and>
       contents t ino = contents s ino))
    (\<lambda>e t. rename_error n1 n2 s e \<and> unchanged F s t) s"
  by (rule sfs_rename_wp [OF assms])

theorem sfs_rename_refines_witness:
  "wp (sfs_rename 0 [97] 0 [98]) (\<lambda>_ t. fmap t = [[98] \<mapsto> 4] \<and> contents t 4 = demo_text)
     (\<lambda>e t. unchanged demo_files demo t) demo"
proof -
  have z: "(0 :: byte) \<notin> set [98]" by simp
  show ?thesis
    by (rule wp_conseq [OF sfs_rename_refines [OF demo_ns_ok demo_vnodes(1,2) z, of "[97]"]])
      (auto simp: demo_fmap fun_eq_iff)
qed

text \<open>
  C14: \<open>sfs_link\<close> gives a file one more name; the name must be free and short enough, and a
  directory cannot be linked. The contents of the file and all other files stay as they are,
  and on every error nothing changes. The error for a directory is \<open>EINVAL\<close>, where the manual page
  of \<open>link\<close> names \<open>EISDIR\<close>.
\<close>

theorem sfs_link_refines:
  assumes "ns_ok s F" "p \<in> set (tab s)" "ino_of s p = ROOT" "f \<in> set (tab s)" "0 \<notin> set name"
  shows "wp (sfs_link p name f)
    (\<lambda>_ t. biglock_depth t = biglock_depth s \<and> ino_of s f \<noteq> ROOT \<and> fmap s name = None \<and> ns_ok t F \<and>
       fmap t = (fmap s)(name \<mapsto> ino_of s f) \<and> refs t = refs s \<and> (\<forall>i \<in> F - {ROOT, ino_of s f}. view t i = view s i) \<and>
       contents t (ino_of s f) = contents s (ino_of s f))
    (\<lambda>e t. (if ino_of s f = ROOT then e = EINVAL else link_error name s e) \<and> unchanged F s t) s"
  by (rule sfs_link_wp [OF assms])

theorem sfs_link_refines_witness:
  "wp (sfs_link 0 [98] 1) (\<lambda>_ t. fmap t = [[97] \<mapsto> 4, [98] \<mapsto> 4] \<and> contents t 4 = demo_text)
     (\<lambda>e t. unchanged demo_files demo t) demo"
proof -
  have z: "(0 :: byte) \<notin> set [98]" by simp
  show ?thesis
    by (rule wp_conseq [OF sfs_link_refines [OF demo_ns_ok demo_vnodes(1-3) z]])
      (auto simp: demo_fmap demo_vnodes [simplified])
qed

subsection \<open>Files as byte sequences\<close>

text \<open>
  C16: \<open>VOP_WRITE\<close> on a file puts the bytes of the descriptor over the contents from the
  offset on, and extends the file where they go past its end. Other files, names and
  references stay as they are. It fails only with \<open>EFAULT\<close> on user memory or \<open>ENOSPC\<close> on a full
  volume, and then still leaves the volume sound and all other files alone.
\<close>

theorem VOP_WRITE_contents:
  assumes "ns_ok s F" "p \<in> set (tab s)" "ino_of s p = ino" "ino \<noteq> ROOT"
    "uio_ok u" "uio_rw u = UIO_WRITE" "uio_offset u = int off"
    "off + uio_resid u \<le> MAXFILE" "off \<le> length (contents s ino)"
  shows "wp (VOP_WRITE p)
    (\<lambda>_ (t, u'). ns_ok t F \<and> fmap t = fmap s \<and> refs t = refs s \<and> (\<forall>i \<in> F - {ino}. view t i = view s i) \<and>
       contents t ino = overwrite off (uio_bytes (uio_resid u) u) (contents s ino) \<and>
       uio_resid u' = 0 \<and> uio_offset u' = uio_offset u + int (uio_resid u) \<and> biglock_depth t = biglock_depth s)
    (\<lambda>e (t, u'). (e = EFAULT \<and> uio_segflg u \<noteq> UIO_SYSSPACE \<or> e = ENOSPC) \<and>
       ns_ok t F \<and> fmap t = fmap s \<and> refs t = refs s \<and> (\<forall>i \<in> F - {ino}. view t i = view s i) \<and>
       biglock_depth t = biglock_depth s) (s, u)"
  by (rule wp_conseq [OF VOP_WRITE_wp [OF assms]]) auto

lemma demo_write: "uio_ok (uio_kinit [112, 33] 4 UIO_WRITE)" "uio_bytes 2 (uio_kinit [112, 33] 4 UIO_WRITE) = [112, 33]"
  by (simp_all add: uio_kinit_ok uio_bytes_def) (simp add: uio_kinit_def uio_mem_def upt_rec)

theorem VOP_WRITE_contents_witness:
  "wp (VOP_WRITE 1) (\<lambda>_ (t, u'). contents t 4 = [104, 101, 108, 108, 112, 33]) (\<lambda>e _. e = ENOSPC)
     (demo, uio_kinit [112, 33] 4 UIO_WRITE)"
proof -
  have c: "4 + uio_resid (uio_kinit [112, 33] 4 UIO_WRITE) \<le> MAXFILE" "4 \<le> length (contents demo 4)"
    "uio_offset (uio_kinit [112, 33] 4 UIO_WRITE) = int 4"
    by (simp_all add: MAXFILE_def demo_fmap demo_text_def)
  show ?thesis
    by (rule wp_conseq [OF VOP_WRITE_contents [OF demo_ns_ok demo_vnodes(3-5) demo_write(1) _ c(3,1,2)]])
      (auto simp: demo_write(2) [unfolded numeral_2_eq_2] demo_fmap demo_text_def overwrite_def)
qed

text \<open>
  C9: reading back gives what was written. After a successful \<open>VOP_WRITE\<close>, a \<open>VOP_READ\<close> of as
  many bytes at the same offset into kernel memory delivers exactly the bytes written, in
  full, and does not change the volume.
\<close>

theorem VOP_WRITE_READ:
  assumes "ns_ok s F" "p \<in> set (tab s)" "ino_of s p = ino" "ino \<noteq> ROOT"
    "uio_ok u" "uio_rw u = UIO_WRITE" "uio_offset u = int off"
    "off + uio_resid u \<le> MAXFILE" "off \<le> length (contents s ino)"
  shows "wp (VOP_WRITE p)
    (\<lambda>_ (t, _). \<forall>r. uio_ok r \<and> uio_rw r = UIO_READ \<and> uio_offset r = int off \<and> uio_resid r = uio_resid u \<and>
         uio_segflg r = UIO_SYSSPACE \<longrightarrow>
       wp (VOP_READ p) (\<lambda>_ (w, r'). unchanged F t w \<and> uio_resid r' = 0 \<and>
           uio_mem r' = mem_put (uio_mem r) (take (uio_resid u) (uio_addrs r)) (uio_bytes (uio_resid u) u))
         (\<lambda>_ _. False) (t, r))
    (\<lambda>_ _. True) (s, u)"
proof (rule wp_conseq [OF VOP_WRITE_wp [OF assms]], goal_cases)
  case (1 x z)
  obtain t u' where z: "z = (t, u')" by (cases z)
  let ?d = "uio_bytes (uio_resid u) u"
  have t: "ns_ok t F" "p \<in> set (tab t)" "ino_of t p = ino" "contents t ino = overwrite off ?d (contents s ino)"
    using 1 z by auto
  have d: "length ?d = uio_resid u" using assms(5) by simp
  have data: "take (uio_resid u) (drop off (contents t ino)) = ?d" using assms(9) d by (simp add: t(4) overwrite_def)
  have "wp (VOP_READ p) (\<lambda>_ (w, r'). unchanged F t w \<and> uio_resid r' = 0 \<and>
         uio_mem r' = mem_put (uio_mem r) (take (uio_resid u) (uio_addrs r)) ?d) (\<lambda>_ _. False) (t, r)"
    if r: "uio_ok r" "uio_rw r = UIO_READ" "uio_offset r = int off" "uio_resid r = uio_resid u" "uio_segflg r = UIO_SYSSPACE" for r
  proof -
    have "wp (VOP_READ p) (\<lambda>_ (w, r'). (unchanged F t w \<and> uio_mem r' = mem_put (uio_mem r) (take (length ?d) (uio_addrs r)) ?d \<and>
         uio_resid r' = uio_resid u - length ?d \<and> uio_offset r' = uio_offset r + int (length ?d)))
      (\<lambda>e (w, r'). e = EFAULT \<and> uio_segflg r \<noteq> UIO_SYSSPACE \<and> unchanged F t w) (t, r)"
      using VOP_READ_wp [OF t(1-3) assms(4) r(1-3)] unfolding r(4) data by simp
    then show ?thesis
      by (rule wp_conseq) (use r(5) d in auto)
  qed
  then show ?case using z by simp
qed simp

theorem VOP_WRITE_READ_witness:
  "wp (VOP_WRITE 1) (\<lambda>_ (t, _). wp (VOP_READ 1)
        (\<lambda>_ (w, r'). uio_mem r' = mem_put (\<lambda>_. 0) [0, 1] [112, 33]) (\<lambda>_ _. False) (t, uio_kinit [0, 0] 4 UIO_READ))
     (\<lambda>_ _. True) (demo, uio_kinit [112, 33] 4 UIO_WRITE)"
proof -
  have c: "4 + uio_resid (uio_kinit [112, 33] 4 UIO_WRITE) \<le> MAXFILE" "4 \<le> length (contents demo 4)"
    "uio_offset (uio_kinit [112, 33] 4 UIO_WRITE) = int 4"
    by (simp_all add: MAXFILE_def demo_fmap demo_text_def)
  have r: "uio_ok (uio_kinit [0, 0] 4 UIO_READ)" "uio_mem (uio_kinit [0, 0] 4 UIO_READ) = (\<lambda>_. 0)" "[0 ..< 2] = [0, 1]"
    by (simp_all add: uio_kinit_ok) (auto simp: uio_kinit_def uio_mem_def less_Suc_eq upt_rec)
  show ?thesis
  proof (rule wp_conseq [OF VOP_WRITE_READ [OF demo_ns_ok demo_vnodes(3-5) demo_write(1) _ c(3,1,2)]], goal_cases)
    case (2 x z)
    obtain t u' where z: "z = (t, u')" by (cases z)
    show ?case
      unfolding z prod.case
      by (rule wp_conseq [OF 2 [unfolded z prod.case, THEN spec [of _ "uio_kinit [0, 0] 4 UIO_READ"], THEN mp]])
        (use r demo_write(2) in \<open>auto simp: numeral_2_eq_2\<close>)
  qed simp_all
qed

text \<open>
  C17: \<open>VOP_TRUNCATE\<close> to a length below the size cuts the contents off there, cannot fail, and
  leaves all other files, the names and the references as they are.
\<close>

theorem VOP_TRUNCATE_contents:
  assumes "ns_ok s F" "p \<in> set (tab s)" "ino_of s p = ino" "ino \<noteq> ROOT" "len \<le> length (contents s ino)"
  shows "wp (VOP_TRUNCATE p (int len))
    (\<lambda>_ t. ns_ok t F \<and> fmap t = fmap s \<and> refs t = refs s \<and> (\<forall>i \<in> F - {ino}. view t i = view s i) \<and>
       contents t ino = take len (contents s ino) \<and> biglock_depth t = biglock_depth s)
    (\<lambda>_ _. False) s"
  by (rule VOP_TRUNCATE_wp [OF assms])

theorem VOP_TRUNCATE_contents_witness:
  "wp (VOP_TRUNCATE 1 2) (\<lambda>_ t. contents t 4 = [104, 101]) (\<lambda>_ _. False) demo"
proof -
  have c: "2 \<le> length (contents demo 4)" by (simp add: demo_fmap demo_text_def)
  show ?thesis
    using VOP_TRUNCATE_contents [OF demo_ns_ok demo_vnodes(3-5) c]
    by (auto intro: wp_conseq simp: demo_fmap demo_text_def)
qed

text \<open>
  C20: the exact block map of a file after \<open>sfs_itrunc\<close>, and that the blocks taken off it, and
  no others, become free. Direct blocks from the new block length on are dropped, but of the
  indirectly mapped ones only those behind it: the block whose index equals the new length in
  blocks stays allocated when that index is 15 or more.
\<close>

theorem sfs_itrunc_map:
  assumes "fs_ok s" "vn_at p s = Some v" "inode_ok s (sv_i v)" "0 \<le> len" "len < 2 ^ 32"
  shows "wp (sfs_itrunc p len)
    (\<lambda>_ t. \<exists>v'. vn_at p t = Some v' \<and> sfi_size (sv_i v') = nat len \<and> inode_ok t (sv_i v') \<and>
       bmap_of (disk t) (sv_i v') = map (\<lambda>k. if k < 15 \<and> (nat len + 511) div 512 \<le> k \<or> 15 \<le> k \<and> (nat len + 511) div 512 < k
          then 0 else bmap_of (disk s) (sv_i v) ! k) [0 ..< 143] \<and>
       used t = used s - (inode_blocks (disk s) (sv_i v) - inode_blocks (disk t) (sv_i v')))
    (\<lambda>_ _. False) s"
proof (rule wp_conseq [OF sfs_itrunc_wp [OF assms]], goal_cases)
  case (1 x t)
  then obtain v' where w: "inode_shrink p s v t v'" "sfi_size (sv_i v') = nat len"
    "bmap_of (disk t) (sv_i v') = trunc_map ((nat len + 511) div 512) (bmap_of (disk s) (sv_i v))" by blast
  have "length (bmap_of (disk s) (sv_i v)) = 143" using assms(1,3) by (simp add: length_bmap_of inode_ok_def)
  then show ?case
    using w inode_shrink_vn_at [OF w(1) assms(2)] by (auto simp: trunc_map_def inode_shrink_def intro!: exI [of _ v'])
qed simp

theorem sfs_itrunc_map_witness:
  "wp (sfs_itrunc 1 0) (\<lambda>_ t. \<exists>v'. vn_at 1 t = Some v' \<and> sfi_size (sv_i v') = 0 \<and> bmap_of (disk t) (sv_i v') = replicate 143 0)
     (\<lambda>_ _. False) demo"
proof -
  have v: "vn_at 1 demo = Some (demo_vnode 4 demo_file Sfs_fileops)" by (simp add: vn_at_def demo_def)
  have i: "inode_ok demo (sv_i (demo_vnode 4 demo_file Sfs_fileops))"
    using vol_ok_parts(6) [OF demo_vol_ok, of 4] by (simp add: file_ok_def demo_vnode_def)
  have m: "bmap_of demo_disk demo_file ! k = 0" if "15 \<le> k" "k < 143" for k
    using that by (simp add: demo_bmap nth_Cons')
  show ?thesis
    by (rule wp_conseq [OF sfs_itrunc_map [OF demo_fs_ok(1) v i, of 0]])
      (auto simp: demo_used_set demo_vnode_def m intro!: nth_equalityI)
qed

subsection \<open>Durability\<close>

text \<open>
  C3: after \<open>sfs_sync\<close>, the disk alone has everything. Whatever happens to the memory, a
  mount of a disk with the same blocks (\<open>booted\<close>: a working driver, no vnodes loaded) gives a
  sound volume with the same names, and under each inode the same type, link count and
  contents, or fails with \<open>ENOMEM\<close>. The sync itself cannot fail on a disk that does not.
\<close>

theorem sfs_sync_durable:
  assumes "ns_ok s F"
  shows "wp sfs_sync
    (\<lambda>_ t. ns_ok t F \<and> fmap t = fmap s \<and> (\<forall>i \<in> F. view t i = view s i) \<and> biglock_depth t = biglock_depth s \<and>
      (\<forall>u. booted (disk t) (d_blocks (sfs_dev t)) u \<longrightarrow>
        wp (sfs_domount 512)
          (\<lambda>_ w. vol_ok w F {} \<and> fmap w = fmap s \<and> (\<forall>i \<in> F. view w i = view s i) \<and> tab w = [])
          (\<lambda>e _. e = ENOMEM) u))
    (\<lambda>_ _. False) s"
proof (rule wp_conseq [OF sync_recovers [OF assms]], goal_cases)
  case (1 x t)
  have "wp (sfs_domount 512) (\<lambda>_ w. vol_ok w F {} \<and> fmap w = fmap s \<and> (\<forall>i \<in> F. view w i = view s i) \<and> tab w = [])
      (\<lambda>e _. e = ENOMEM) u" if "booted (disk t) (d_blocks (sfs_dev t)) u" for u
    by (rule wp_conseq [of _ "\<lambda>_ w. recovers F s w" "\<lambda>e _. e = ENOMEM"]) (use 1 that in \<open>auto simp: recovers_def\<close>)
  then show ?case using 1 by simp
qed simp

theorem sfs_sync_durable_witness:
  "wp sfs_sync (\<lambda>_ t. wp (sfs_domount 512) (\<lambda>_ w. fmap w = [[97] \<mapsto> 4] \<and> contents w 4 = demo_text) (\<lambda>e _. e = ENOMEM)
       (t\<lparr>vn_heap := [], sfs_vnodes := array_init, sfs_freemap := \<lparr>bm_nbits = 0, bm_v = []\<rparr>\<rparr>))
     (\<lambda>_ _. False) demo"
proof (rule wp_conseq [OF sfs_sync_durable [OF demo_ns_ok]], goal_cases)
  case (1 x t)
  let ?u = "t\<lparr>vn_heap := [], sfs_vnodes := array_init, sfs_freemap := \<lparr>bm_nbits = 0, bm_v = []\<rparr>\<rparr>"
  have "dev_ok t" using 1 ns_parts(1) [of t demo_files] vol_ok_parts(1) [of t demo_files "{}"] by (simp add: fs_ok_def)
  then have "booted (disk t) (d_blocks (sfs_dev t)) ?u" by (simp add: booted_def dev_ok_def disk_def vn_at_def)
  then have "wp (sfs_domount 512) (\<lambda>_ w. vol_ok w demo_files {} \<and> fmap w = fmap demo \<and> (\<forall>i \<in> demo_files. view w i = view demo i) \<and> tab w = [])
      (\<lambda>e _. e = ENOMEM) ?u" using 1 by blast
  then show ?case by (rule wp_conseq) (auto simp: demo_fmap demo_files_def view_def)
qed simp

text \<open>
  C24: a volume in use cannot be unmounted, and one that is not is. With vnodes loaded
  \<open>sfs_unmount\<close> answers \<open>EBUSY\<close> and changes nothing; without, and with superblock and free map
  written back, it lets go of the device and leaves what is on the disk as it is.
\<close>

theorem sfs_unmount_busy:
  assumes "vol_ok s F {}" "\<not> sfs_superdirty s" "\<not> sfs_freemapdirty s"
  shows "wp sfs_unmount (\<lambda>_ t. tab s = [] \<and> \<not> sfs_device t \<and> sfs_dev t = sfs_dev s \<and> biglock_depth t = biglock_depth s)
    (\<lambda>e t. e = EBUSY \<and> tab s \<noteq> [] \<and> t = s) s"
  by (rule sfs_unmount_wp [OF assms])

theorem sfs_unmount_busy_witness:
  "wp sfs_unmount (\<lambda>_ _. False) (\<lambda>e t. e = EBUSY \<and> t = demo) demo"
proof -
  have c: "\<not> sfs_superdirty demo" "\<not> sfs_freemapdirty demo" by (simp_all add: demo_def)
  show ?thesis by (rule wp_conseq [OF sfs_unmount_busy [OF demo_vol_ok c]]) (simp_all add: demo_tab)
qed

subsection \<open>A volume in use\<close>

text \<open>
  C1: however long a sound volume is in use, it stays sound. After any sequence of calls
  (lookup, create, link, remove, rename, read, write, truncate, fsync, sync, taking and
  dropping references), each allowed by \<open>may\<close> when it is made, whether it succeeded or not,
  the volume satisfies its invariant: no block belongs to two owners, the free map marks
  exactly the owned blocks, link counts equal the number of names, no name is there twice.
  The big lock is balanced, the reference counts are within the range of a C \<open>int\<close>, and no
  further call panics or hangs. Among other things \<open>may\<close> asks that a call that takes a reference
  is not made while a vnode has \<open>INT_MAX\<close> references, as the source has no check of its own.
\<close>

theorem sfs_run_safe:
  assumes "ns_ok s F" "refs_at_most INT_MAX s" "sfs_run s t"
  shows "(\<exists>G. ns_ok t G) \<and> biglock_depth t = biglock_depth s \<and> refs_at_most INT_MAX t \<and>
    (\<forall>c. may t c \<longrightarrow> fst (sfs_exec c t) \<noteq> Panic \<and> fst (sfs_exec c t) \<noteq> Hang)"
proof -
  have u: "in_use (biglock_depth s) s" using assms(1,2) by (auto simp: in_use_def)
  have "in_use (biglock_depth s) t" by (rule vol.runs_inv [OF assms(3) u])
  moreover have "\<forall>c. may t c \<longrightarrow> fst (sfs_exec c t) \<noteq> Panic \<and> fst (sfs_exec c t) \<noteq> Hang"
    using vol.runs_return [OF assms(3) u] by iprover
  ultimately show ?thesis unfolding in_use_def by (elim conjE) (intro conjI)
qed

theorem sfs_run_safe_witness:
  "(\<exists>G. ns_ok (snd (sfs_exec (Creat 0 [98] True) demo)) G) \<and> refs_at_most INT_MAX (snd (sfs_exec (Creat 0 [98] True) demo))"
proof -
  have r: "vn_refcount (vn_of demo p) = 1" if "p \<in> set (tab demo)" for p
    using that by (auto simp: demo_tab(1-3) demo_vnode_def)
  have m: "may demo (Creat 0 [98] True)" "refs_at_most INT_MAX demo"
    using demo_vnodes by (simp_all add: may_def refs_at_most_def list_all_iff r INT_MAX_def)
  have "sfs_run demo (snd (sfs_exec (Creat 0 [98] True) demo))"
    by (rule runs.call [where allow = may, OF runs.start]) (rule m(1), rule prod.collapse [symmetric])
  from sfs_run_safe [OF demo_ns_ok m(2) this] show ?thesis by (elim conjE) (intro conjI)
qed

text \<open>
  C18: dropping the last reference to a vnode unloads it, and if its file has no name left
  frees the inode and every block of the file: the volume is sound with that inode gone from
  the ones in use. All other files and vnodes stay as they are.
\<close>

theorem sfs_decref_reclaims:
  assumes "vol_ok s F {}" "p \<in> set (tab s)" "v = vn_of s p" "vn_refcount v = 1"
  shows "wp (sfs_decref p)
    (\<lambda>_ t. vol_ok t (if sfi_linkcount (sv_i v) = 0 then F - {sv_ino v} else F) {} \<and> refs t (sv_ino v) = 0 \<and>
       (\<forall>i \<in> F - {sv_ino v}. view t i = view s i) \<and> (\<forall>q. q \<noteq> p \<longrightarrow> vn_at q t = vn_at q s) \<and>
       biglock_depth t = biglock_depth s)
    (\<lambda>_ _. False) s"
proof (rule wp_conseq [OF sfs_decref_wp [OF assms(1-3)]], goal_cases)
  case (1 x t)
  then have d: "dropped p v (remaining F v) s t" using assms(4) by simp
  have "refs s (sv_ino v) = 1"
    using refs_loaded [OF vol_ok_parts(3) [OF assms(1)] assms(2)] assms(3,4) by (simp add: ino_of_def)
  moreover have "view t i = view s i" if "i \<in> F - {sv_ino v}" for i
    by (rule keeps_view) (use d that in \<open>auto simp: dropped_def remaining_def\<close>)
  ultimately show ?case using d by (simp add: dropped_def remaining_def)
qed simp

theorem sfs_decref_reclaims_witness:
  "wp (sfs_decref 1) (\<lambda>_ t. vol_ok t {1, 4} {} \<and> refs t 4 = 0) (\<lambda>_ _. False) demo"
proof -
  have v: "vn_of demo 1 = demo_vnode 4 demo_file Sfs_fileops" using demo_tab(3) by simp
  have r: "vn_refcount (demo_vnode 4 demo_file Sfs_fileops) = 1" by (simp add: demo_vnode_def)
  show ?thesis
    by (rule wp_conseq [OF sfs_decref_reclaims [OF demo_vol_ok demo_vnodes(3) v [symmetric] r]])
      (simp_all add: demo_vnode_def demo_file_def)
qed

subsection \<open>Blocks\<close>

text \<open>
  C19: \<open>sfs_bmap\<close> with allocation maps any block of a file of up to 143 blocks. A block that
  is mapped is returned as it is. One that is not gets a fresh zeroed block, which no other
  file had, together with an indirect block if one is needed; the map changes at that one
  index and no block mapped before changes. Without allocation it reads the map.
\<close>

theorem sfs_bmap_maps:
  assumes "fs_ok s" "vn_at p s = Some v" "inode_ok s (sv_i v)"
  shows "wp (sfs_bmap p fb doalloc)
    (\<lambda>b t. fb < 143 \<and> (\<exists>v'. vn_at p t = Some v' \<and> inode_ok t (sv_i v') \<and>
       (if doalloc \<and> bmap_of (disk s) (sv_i v) ! fb = 0
        then b \<noteq> 0 \<and> b \<notin> used s \<and> b \<in> used t \<and> disk t b = zeros else b = bmap_of (disk s) (sv_i v) ! fb) \<and>
       bmap_of (disk t) (sv_i v') = (bmap_of (disk s) (sv_i v))[fb := b] \<and>
       (\<forall>c \<in> set (bmap_of (disk s) (sv_i v)) - {0}. disk t c = disk s c)))
    (\<lambda>e t. e = EFBIG \<and> 143 \<le> fb \<or> e = ENOSPC \<and> doalloc) s"
proof (cases doalloc)
  case False
  then have d: "doalloc = False" by simp
  show ?thesis
    unfolding d
  proof (rule wp_conseq [OF sfs_bmap_lookup [OF assms]], goal_cases)
    case (1 b t)
    then have b: "fb < 143" "b = bmap_of (disk s) (sv_i v) ! fb" and t: "dev_step s (disk s) t" by simp_all
    note d = dev_step_simps [OF t]
    have "inode_ok t (sv_i v)" using assms(3) by (simp add: inode_ok_def d(1,4,6))
    then show ?case using b assms(2) by (simp add: d(1,14))
  qed simp
next
  case True
  have d: "doalloc = True" using True by simp
  have u: "b \<in> used t" if "bmap_alloc p fb b s v t v'" for b t v'
  proof -
    have l: "length (bmap_of (disk s) (sv_i v)) = 143" using assms by (simp add: length_bmap_of inode_ok_def)
    have "inode_ok t (sv_i v')" "b \<in> set (bmap_of (disk t) (sv_i v'))" "b \<noteq> 0"
      using that l by (simp_all add: bmap_alloc_def inode_step_def set_update_memI)
    then show ?thesis by (auto simp: inode_ok_def inode_blocks_def)
  qed
  show ?thesis
    unfolding d
  proof (rule wp_conseq [OF sfs_bmap_alloc [OF assms]], goal_cases)
    case (1 b t)
    then obtain v' where a: "bmap_alloc p fb b s v t v'" by blast
    then have st: "inode_step p s v t v'" by (simp add: bmap_alloc_def)
    have i: "inode_ok t (sv_i v')" using st by (simp add: inode_step_def)
    show ?case
      using a inode_step_vn_at(1) [OF st assms(2)] i u [OF a]
      by (intro conjI exI [of _ v']) (simp_all add: bmap_alloc_def split: if_splits)
  next
    case (2 e t)
    then show ?case by (auto simp: bmap_failed_def)
  qed
qed

theorem sfs_bmap_maps_witness:
  "wp (sfs_bmap 1 1 True) (\<lambda>b t. b \<notin> {..<6} \<and> disk t b = zeros) (\<lambda>e t. e = ENOSPC) demo"
proof -
  have v: "vn_at 1 demo = Some (demo_vnode 4 demo_file Sfs_fileops)" by (simp add: vn_at_def demo_def)
  have i: "inode_ok demo (sv_i (demo_vnode 4 demo_file Sfs_fileops))"
    using vol_ok_parts(6) [OF demo_vol_ok, of 4] by (simp add: file_ok_def demo_vnode_def)
  have m: "bmap_of demo_disk demo_file ! 1 = 0" by (simp add: demo_bmap)
  show ?thesis
    by (rule wp_conseq [OF sfs_bmap_maps [OF demo_fs_ok(1) v i, of 1 True]])
      (use m in \<open>auto simp: demo_used_set demo_vnode_def\<close>)
qed

text \<open>
  C21: reading a block survives transient errors. If up to ten attempts in a row fail with a
  media error and the next one succeeds, \<open>sfs_readblock\<close> returns the block, and takes exactly
  that many disk operations.
\<close>

theorem sfs_readblock_survives:
  assumes "sfs_device s" "lhd_ok (sfs_dev s)" "b < d_blocks (sfs_dev s)" "length buf = 512"
    "\<And>i. i < k \<Longrightarrow> hw_code (sfs_dev s) i = LHD_MEDIA" "hw_code (sfs_dev s) k = LHD_OK" "k \<le> 10"
  shows "wp (sfs_readblock b buf)
    (\<lambda>r t. r = disk s b \<and> disk t = disk s \<and> hw_script (sfs_dev t) = drop (Suc k) (hw_script (sfs_dev s)))
    (\<lambda>_ _. False) s"
  by (rule wp_conseq [OF sfs_readblock_retries [OF assms]]) (auto simp: dev_moved_simps)

text \<open>A disk whose next operation fails, leaving zeros in the sector of a write.\<close>

definition demo_flaky :: sfs_fs where
  "demo_flaky = demo\<lparr>sfs_dev := (sfs_dev demo)\<lparr>hw_script := [(LHD_MEDIA, zeros)]\<rparr>\<rparr>"

lemma demo_flaky: "sfs_device demo_flaky" "lhd_ok (sfs_dev demo_flaky)" "3 < d_blocks (sfs_dev demo_flaky)"
    "hw_code (sfs_dev demo_flaky) 0 = LHD_MEDIA" "hw_code (sfs_dev demo_flaky) 1 = LHD_OK" "disk demo_flaky = demo_disk"
  by (simp_all add: demo_flaky_def demo_def lhd_ok_def script_ok_def LHD_SECTSIZE_def length_demo_disk hw_code_def disk_def)

theorem sfs_readblock_survives_witness:
  "wp (sfs_readblock 3 zeros) (\<lambda>r t. r = demo_disk 3) (\<lambda>_ _. False) demo_flaky"
proof -
  have "hw_code (sfs_dev demo_flaky) i = LHD_MEDIA" if "i < 1" for i using that demo_flaky(4) by simp
  then show ?thesis
    by (intro wp_conseq [OF sfs_readblock_survives [OF demo_flaky(1-3) length_zeros _ demo_flaky(5)]]) (auto simp: demo_flaky(6))
qed

text \<open>
  C22: eleven media errors in a row make \<open>sfs_readblock\<close> give up with \<open>EIO\<close>, with the disk as
  it was.
\<close>

theorem sfs_readblock_eio:
  assumes "sfs_device s" "lhd_ok (sfs_dev s)" "b < d_blocks (sfs_dev s)" "length buf = 512"
    "\<And>i. i \<le> 10 \<Longrightarrow> hw_code (sfs_dev s) i = LHD_MEDIA"
  shows "wp (sfs_readblock b buf) (\<lambda>_ _. False) (\<lambda>e t. e = EIO \<and> disk t = disk s) s"
  by (rule wp_conseq [OF sfs_readblock_gives_up [OF assms]]) (auto simp: dev_moved_simps)

theorem sfs_readblock_eio_witness:
  "wp (sfs_readblock 3 zeros) (\<lambda>_ _. False) (\<lambda>e t. e = EIO)
     (demo\<lparr>sfs_dev := (sfs_dev demo)\<lparr>hw_script := replicate 11 (LHD_MEDIA, zeros)\<rparr>\<rparr>)"
    (is "wp _ _ _ ?s")
proof -
  have d: "sfs_device ?s" "lhd_ok (sfs_dev ?s)" "3 < d_blocks (sfs_dev ?s)"
    by (auto simp: demo_def lhd_ok_def script_ok_def LHD_SECTSIZE_def length_demo_disk)
  have c: "hw_code (sfs_dev ?s) i = LHD_MEDIA" if "i \<le> 10" for i using that by (simp add: hw_code_def nth_replicate)
  show ?thesis by (rule wp_conseq [OF sfs_readblock_eio [OF d length_zeros c]]) auto
qed

text \<open>
  C23: a failed write is not repeated but reported as done. \<open>lhd_io\<close> consumes the transfer
  descriptor before it knows the outcome, so the retry in \<open>sfs_rwblock\<close> after a media error
  has nothing left to transfer and succeeds at once: \<open>sfs_writeblock\<close> returns success while the
  sector holds whatever the failed operation left there.
\<close>

theorem sfs_writeblock_lost:
  assumes "sfs_device s" "lhd_ok (sfs_dev s)" "b < d_blocks (sfs_dev s)" "length buf = 512"
    "hw_code (sfs_dev s) 0 = LHD_MEDIA"
  shows "wp (sfs_writeblock b buf)
    (\<lambda>_ t. disk t = (disk s)(b := snd (hw_next (sfs_dev s))) \<and> hw_script (sfs_dev t) = tl (hw_script (sfs_dev s)))
    (\<lambda>_ _. False) s"
proof (rule wp_conseq [OF sfs_writeblock_codes [OF assms(1-4)]], goal_cases)
  case 1
  then show ?case using assms(5) by simp
next
  case (2 x t)
  have "LHD_MEDIA \<noteq> LHD_OK" by (simp add: lhd_codes)
  then show ?case using 2 assms(5) by (auto simp: dev_moved_simps)
qed simp

theorem sfs_writeblock_lost_witness:
  "wp (sfs_writeblock 5 (replicate 512 1)) (\<lambda>_ t. disk t 5 = zeros) (\<lambda>_ _. False) demo_flaky"
proof -
  have b: "5 < d_blocks (sfs_dev demo_flaky)" by (simp add: demo_flaky_def demo_def)
  have n: "snd (hw_next (sfs_dev demo_flaky)) = zeros" by (simp add: demo_flaky_def hw_next_def)
  show ?thesis
    by (rule wp_conseq [OF sfs_writeblock_lost [OF demo_flaky(1,2) b length_replicate demo_flaky(4)]]) (simp_all add: n)
qed

end
