(* ===== verification/Kern_Threadlist.thy ===== *)
theory Kern_Threadlist
  imports Os161_Prelude
begin

text \<open>
  Lists of threads (\<open>kern/thread/threadlist.c\<close>, \<open>kern/include/threadlist.h\<close>): doubly linked
  through nodes that live in the threads, between two bookend nodes that live in the list
  structure. The pointer structure is modelled as it is; \<open>tl_rel\<close> relates it to one HOL list per
  thread list, and every operation is shown to be the expected operation on that list.
\<close>

subsection \<open>Nodes and lists\<close>

text \<open>
  A \<open>struct threadlistnode\<close> is the \<open>tl_head\<close> or the \<open>tl_tail\<close> of a list or the \<open>t_listnode\<close> of a
  thread. Threads and lists are named by their addresses.
\<close>

type_synonym tid = nat

datatype 'l threadlistnode = TlHead 'l | TlTail 'l | TlThread tid

record 'l threadlists =
  tln_prev :: "'l threadlistnode \<Rightarrow> 'l threadlistnode option"
  tln_next :: "'l threadlistnode \<Rightarrow> 'l threadlistnode option"
  tln_self :: "'l threadlistnode \<Rightarrow> tid option"
  tl_count :: "'l \<Rightarrow> u32w"

definition set_prev :: "'l threadlistnode \<Rightarrow> 'l threadlistnode option \<Rightarrow> ('l threadlists, unit) kfun" where
  "set_prev n p = kmod (\<lambda>h. h\<lparr>tln_prev := (tln_prev h)(n := p)\<rparr>)"

definition set_next :: "'l threadlistnode \<Rightarrow> 'l threadlistnode option \<Rightarrow> ('l threadlists, unit) kfun" where
  "set_next n p = kmod (\<lambda>h. h\<lparr>tln_next := (tln_next h)(n := p)\<rparr>)"

definition set_self :: "'l threadlistnode \<Rightarrow> tid option \<Rightarrow> ('l threadlists, unit) kfun" where
  "set_self n t = kmod (\<lambda>h. h\<lparr>tln_self := (tln_self h)(n := t)\<rparr>)"

definition set_count :: "'l \<Rightarrow> (u32w \<Rightarrow> u32w) \<Rightarrow> ('l threadlists, unit) kfun" where
  "set_count l f = kmod (\<lambda>h. h\<lparr>tl_count := (tl_count h)(l := f (tl_count h l))\<rparr>)"

definition get_prev :: "'l threadlistnode \<Rightarrow> ('l threadlists, 'l threadlistnode) kfun" where
  "get_prev n = kbind (kget (\<lambda>h. tln_prev h n)) knonnull"

definition get_next :: "'l threadlistnode \<Rightarrow> ('l threadlists, 'l threadlistnode) kfun" where
  "get_next n = kbind (kget (\<lambda>h. tln_next h n)) knonnull"

subsection \<open>Operations\<close>

definition threadlistnode_init :: "tid \<Rightarrow> ('l threadlists, unit) kfun" where
  "threadlistnode_init t =
     kthen (set_next (TlThread t) None)
       (kthen (set_prev (TlThread t) None) (set_self (TlThread t) (Some t)))"

definition threadlistnode_cleanup :: "tid \<Rightarrow> ('l threadlists, unit) kfun" where
  "threadlistnode_cleanup t =
     kthen (kassert (\<lambda>h. tln_next h (TlThread t) = None))
       (kthen (kassert (\<lambda>h. tln_prev h (TlThread t) = None))
          (kassert (\<lambda>h. tln_self h (TlThread t) \<noteq> None)))"

definition threadlist_init :: "'l \<Rightarrow> ('l threadlists, unit) kfun" where
  "threadlist_init l =
     kthen (set_next (TlHead l) (Some (TlTail l)))
       (kthen (set_prev (TlHead l) None)
          (kthen (set_next (TlTail l) None)
             (kthen (set_prev (TlTail l) (Some (TlHead l)))
                (kthen (set_self (TlHead l) None)
                   (kthen (set_self (TlTail l) None)
                      (set_count l (\<lambda>_. 0)))))))"

definition threadlist_isempty :: "'l \<Rightarrow> ('l threadlists, bool) kfun" where
  "threadlist_isempty l = kget (\<lambda>h. tl_count h l = 0)"

definition threadlist_cleanup :: "'l \<Rightarrow> ('l threadlists, unit) kfun" where
  "threadlist_cleanup l =
     kbind (threadlist_isempty l) (\<lambda>e.
       kthen (kassert (\<lambda>_. e)) (kassert (\<lambda>h. tl_count h l = 0)))"

definition threadlist_insertafternode :: "'l threadlistnode \<Rightarrow> tid \<Rightarrow> ('l threadlists, unit) kfun" where
  "threadlist_insertafternode onlist t =
     (let addee = TlThread t in
      kthen (set_prev addee (Some onlist))
        (kbind (kget (\<lambda>h. tln_next h onlist)) (\<lambda>n.
           kthen (set_next addee n)
             (kbind (get_prev addee) (\<lambda>p.
                kthen (set_next p (Some addee))
                  (kbind (get_next addee) (\<lambda>q. set_prev q (Some addee))))))))"

definition threadlist_insertbeforenode :: "tid \<Rightarrow> 'l threadlistnode \<Rightarrow> ('l threadlists, unit) kfun" where
  "threadlist_insertbeforenode t onlist =
     (let addee = TlThread t in
      kbind (kget (\<lambda>h. tln_prev h onlist)) (\<lambda>p.
        kthen (set_prev addee p)
          (kthen (set_next addee (Some onlist))
             (kbind (get_prev addee) (\<lambda>p.
                kthen (set_next p (Some addee))
                  (kbind (get_next addee) (\<lambda>q. set_prev q (Some addee))))))))"

definition threadlist_removenode :: "'l threadlistnode \<Rightarrow> ('l threadlists, unit) kfun" where
  "threadlist_removenode tln =
     kbind (get_prev tln) (\<lambda>p.
       kbind (kget (\<lambda>h. tln_next h tln)) (\<lambda>n.
         kthen (set_next p n)
           (kbind (get_next tln) (\<lambda>q.
              kbind (kget (\<lambda>h. tln_prev h tln)) (\<lambda>p'.
                kthen (set_prev q p')
                  (kthen (set_prev tln None) (set_next tln None)))))))"

definition threadlist_addhead :: "'l \<Rightarrow> tid \<Rightarrow> ('l threadlists, unit) kfun" where
  "threadlist_addhead l t = kthen (threadlist_insertafternode (TlHead l) t) (set_count l (\<lambda>n. n + 1))"

definition threadlist_addtail :: "'l \<Rightarrow> tid \<Rightarrow> ('l threadlists, unit) kfun" where
  "threadlist_addtail l t = kthen (threadlist_insertbeforenode t (TlTail l)) (set_count l (\<lambda>n. n + 1))"

definition threadlist_remhead :: "'l \<Rightarrow> ('l threadlists, tid option) kfun" where
  "threadlist_remhead l =
     kbind (get_next (TlHead l)) (\<lambda>tln.
       kbind (kget (\<lambda>h. tln_next h tln)) (\<lambda>n.
         if n = None then kret None
         else kthen (threadlist_removenode tln)
                (kthen (set_count l (\<lambda>n. n - 1)) (kget (\<lambda>h. tln_self h tln)))))"

definition threadlist_remtail :: "'l \<Rightarrow> ('l threadlists, tid option) kfun" where
  "threadlist_remtail l =
     kbind (get_prev (TlTail l)) (\<lambda>tln.
       kbind (kget (\<lambda>h. tln_prev h tln)) (\<lambda>p.
         if p = None then kret None
         else kthen (threadlist_removenode tln)
                (kthen (set_count l (\<lambda>n. n - 1)) (kget (\<lambda>h. tln_self h tln)))))"

definition threadlist_insertafter :: "'l \<Rightarrow> tid \<Rightarrow> tid \<Rightarrow> ('l threadlists, unit) kfun" where
  "threadlist_insertafter l onlist addee =
     kthen (threadlist_insertafternode (TlThread onlist) addee) (set_count l (\<lambda>n. n + 1))"

definition threadlist_insertbefore :: "'l \<Rightarrow> tid \<Rightarrow> tid \<Rightarrow> ('l threadlists, unit) kfun" where
  "threadlist_insertbefore l addee onlist =
     kthen (threadlist_insertbeforenode addee (TlThread onlist)) (set_count l (\<lambda>n. n + 1))"

definition threadlist_remove :: "'l \<Rightarrow> tid \<Rightarrow> ('l threadlists, unit) kfun" where
  "threadlist_remove l t = kthen (threadlist_removenode (TlThread t)) (set_count l (\<lambda>n. n - 1))"

lemmas node_defs = set_prev_def set_next_def set_self_def set_count_def get_prev_def get_next_def

subsection \<open>Chains\<close>

fun links :: "'l threadlists \<Rightarrow> 'l threadlistnode list \<Rightarrow> bool" where
  "links h (a # b # ns) = (tln_next h a = Some b \<and> tln_prev h b = Some a \<and> links h (b # ns))"
| "links h _ = True"

definition nodes :: "'l \<Rightarrow> tid list \<Rightarrow> 'l threadlistnode list" where
  "nodes l xs = TlHead l # map TlThread xs @ [TlTail l]"

lemma links_append: "links h (xs @ a # ys) = (links h (xs @ [a]) \<and> links h (a # ys))"
proof (induction xs)
  case (Cons x xs)
  then show ?case by (cases xs) auto
qed simp

lemma links_cong:
  assumes "\<And>n. n \<in> set (butlast ns) \<Longrightarrow> tln_next h' n = tln_next h n"
    and "\<And>n. n \<in> set (tl ns) \<Longrightarrow> tln_prev h' n = tln_prev h n"
  shows "links h' ns = links h ns"
  using assms
proof (induction ns rule: induct_list012)
  case (3 a b ns)
  have "links h' (b # ns) = links h (b # ns)" by (rule "3.IH"(2)) (use 3 in auto)
  with 3 show ?case by simp
qed simp_all

lemma distinct_nodes [simp]: "distinct (nodes l xs) = distinct xs"
  by (auto simp: nodes_def distinct_map inj_on_def)

text \<open>One list: its chain, its bookends and its count.\<close>

definition tl_list :: "'l threadlists \<Rightarrow> 'l \<Rightarrow> tid list \<Rightarrow> bool" where
  "tl_list h l xs \<longleftrightarrow> distinct xs \<and> links h (nodes l xs) \<and>
     tln_prev h (TlHead l) = None \<and> tln_next h (TlTail l) = None \<and>
     tln_self h (TlHead l) = None \<and> tln_self h (TlTail l) = None \<and> tl_count h l = of_nat (length xs)"

text \<open>
  All lists together: \<open>T\<close> are the threads whose node is initialised (nonnull 32-bit addresses),
  \<open>F\<close> gives each initialised list its contents. A thread is on one list at most, and the node
  of a thread that is on none has null links.
\<close>

definition on_list :: "('l \<rightharpoonup> tid list) \<Rightarrow> tid \<Rightarrow> 'l \<Rightarrow> bool" where
  "on_list F t l \<longleftrightarrow> (\<exists>xs. F l = Some xs \<and> t \<in> set xs)"

definition off_lists :: "('l \<rightharpoonup> tid list) \<Rightarrow> tid \<Rightarrow> bool" where
  "off_lists F t \<longleftrightarrow> (\<forall>l. \<not> on_list F t l)"

definition tl_rel :: "tid set \<Rightarrow> ('l \<rightharpoonup> tid list) \<Rightarrow> 'l threadlists \<Rightarrow> bool" where
  "tl_rel T F h \<longleftrightarrow> (\<forall>l xs. F l = Some xs \<longrightarrow> tl_list h l xs) \<and>
     (\<forall>t l l'. on_list F t l \<longrightarrow> on_list F t l' \<longrightarrow> l = l') \<and>
     (\<forall>t l. on_list F t l \<longrightarrow> t \<in> T) \<and> T \<subseteq> {0 <..< 2 ^ 32} \<and>
     (\<forall>t \<in> T. tln_self h (TlThread t) = Some t) \<and>
     (\<forall>t \<in> T. off_lists F t \<longrightarrow> tln_prev h (TlThread t) = None \<and> tln_next h (TlThread t) = None)"


lemma in_set_tl: "x \<in> set (tl xs) \<Longrightarrow> x \<in> set xs"
  by (cases xs) auto

lemma tl_list_frame:
  assumes "tl_list h l xs"
    and "\<And>n. n \<in> set (nodes l xs) \<Longrightarrow> tln_prev h' n = tln_prev h n \<and> tln_next h' n = tln_next h n \<and> tln_self h' n = tln_self h n"
    and "tl_count h' l = tl_count h l"
  shows "tl_list h' l xs"
proof -
  have "links h' (nodes l xs) = links h (nodes l xs)"
    by (rule links_cong) (use assms(2) in \<open>auto dest: in_set_butlastD in_set_tl\<close>)
  moreover have "TlHead l \<in> set (nodes l xs)" "TlTail l \<in> set (nodes l xs)" by (auto simp: nodes_def)
  ultimately show ?thesis using assms by (simp add: tl_list_def)
qed

text \<open>The neighbours of a position in a list.\<close>

definition before :: "'l \<Rightarrow> tid list \<Rightarrow> 'l threadlistnode" where
  "before l ps = (if ps = [] then TlHead l else TlThread (last ps))"

definition after :: "'l \<Rightarrow> tid list \<Rightarrow> 'l threadlistnode" where
  "after l qs = (if qs = [] then TlTail l else TlThread (hd qs))"

lemma nodes_split:
  obtains pre post where
    "nodes l (ps @ qs) = pre @ before l ps # after l qs # post"
    "\<And>x. nodes l (ps @ x # qs) = pre @ before l ps # TlThread x # after l qs # post"
proof
  show "nodes l (ps @ qs) =
      butlast (TlHead l # map TlThread ps) @ before l ps # after l qs # tl (map TlThread qs @ [TlTail l])"
    by (cases ps rule: rev_cases; cases qs) (simp_all add: nodes_def before_def after_def)
  show "nodes l (ps @ x # qs) =
      butlast (TlHead l # map TlThread ps) @ before l ps # TlThread x # after l qs # tl (map TlThread qs @ [TlTail l])" for x
    by (cases ps rule: rev_cases; cases qs) (simp_all add: nodes_def before_def after_def)
qed

definition insert_at :: "tid \<Rightarrow> 'l threadlistnode \<Rightarrow> 'l threadlistnode \<Rightarrow> 'l \<Rightarrow> 'l threadlists \<Rightarrow> 'l threadlists" where
  "insert_at x a b l h = h\<lparr>tln_next := (tln_next h)(TlThread x := Some b, a := Some (TlThread x)),
     tln_prev := (tln_prev h)(TlThread x := Some a, b := Some (TlThread x)),
     tl_count := (tl_count h)(l := tl_count h l + 1)\<rparr>"

definition remove_at :: "tid \<Rightarrow> 'l threadlistnode \<Rightarrow> 'l threadlistnode \<Rightarrow> 'l \<Rightarrow> 'l threadlists \<Rightarrow> 'l threadlists" where
  "remove_at x a b l h = h\<lparr>tln_prev := (tln_prev h)(b := Some a, TlThread x := None),
     tln_next := (tln_next h)(a := Some b, TlThread x := None),
     tl_count := (tl_count h)(l := tl_count h l - 1)\<rparr>"

lemma links_insert:
  assumes "links h (pre @ a # b # post)" "distinct (pre @ a # TlThread x # b # post)"
  shows "links (insert_at x a b l h) (pre @ a # TlThread x # b # post)"
proof -
  have "links h (pre @ [a])" "links h (b # post)"
    using assms(1) links_append [of h pre a "b # post"] by auto
  moreover have "links (insert_at x a b l h) (pre @ [a]) = links h (pre @ [a])"
    by (rule links_cong) (use assms(2) in \<open>auto simp: insert_at_def dest: in_set_tl\<close>)
  moreover have "links (insert_at x a b l h) (b # post) = links h (b # post)"
    by (rule links_cong) (use assms(2) in \<open>auto simp: insert_at_def dest: in_set_butlastD split: if_splits\<close>)
  ultimately show ?thesis
    using assms(2) links_append [of _ pre a "TlThread x # b # post"] by (auto simp: insert_at_def)
qed

lemma links_remove:
  assumes "links h (pre @ a # TlThread x # b # post)" "distinct (pre @ a # TlThread x # b # post)"
  shows "links (remove_at x a b l h) (pre @ a # b # post)"
proof -
  have "links h (pre @ [a])" "links h (b # post)"
    using assms(1) links_append [of h pre a "TlThread x # b # post"] by auto
  moreover have "links (remove_at x a b l h) (pre @ [a]) = links h (pre @ [a])"
    by (rule links_cong) (use assms(2) in \<open>auto simp: remove_at_def dest: in_set_tl\<close>)
  moreover have "links (remove_at x a b l h) (b # post) = links h (b # post)"
    by (rule links_cong) (use assms(2) in \<open>auto simp: remove_at_def dest: in_set_butlastD split: if_splits\<close>)
  ultimately show ?thesis
    using assms(2) links_append [of _ pre a "b # post"] by (auto simp: remove_at_def)
qed


lemma tl_relD:
  assumes "tl_rel T F h"
  shows "F l = Some xs \<Longrightarrow> tl_list h l xs" "on_list F t l \<Longrightarrow> on_list F t l' \<Longrightarrow> l = l'"
    "on_list F t l \<Longrightarrow> t \<in> T" "t \<in> T \<Longrightarrow> tln_self h (TlThread t) = Some t"
    "t \<in> T \<Longrightarrow> off_lists F t \<Longrightarrow> tln_prev h (TlThread t) = None \<and> tln_next h (TlThread t) = None"
  using assms by (auto simp: tl_rel_def)

lemma tl_relI:
  assumes "\<And>l xs. F l = Some xs \<Longrightarrow> tl_list h l xs"
    and "\<And>t l l'. on_list F t l \<Longrightarrow> on_list F t l' \<Longrightarrow> l = l'" and "\<And>t l. on_list F t l \<Longrightarrow> t \<in> T"
    and "T \<subseteq> {0 <..< 2 ^ 32}" and "\<And>t. t \<in> T \<Longrightarrow> tln_self h (TlThread t) = Some t"
    and "\<And>t. t \<in> T \<Longrightarrow> off_lists F t \<Longrightarrow> tln_prev h (TlThread t) = None \<and> tln_next h (TlThread t) = None"
  shows "tl_rel T F h"
  unfolding tl_rel_def using assms by blast

lemma tl_rel_ptr: "tl_rel T F h \<Longrightarrow> T \<subseteq> {0 <..< 2 ^ 32}"
  by (simp add: tl_rel_def)

lemma on_list_upd: "on_list (F(l \<mapsto> xs)) t l' = (if l' = l then t \<in> set xs else on_list F t l')"
  by (simp add: on_list_def)

lemma before_in: "before l ps \<in> set (nodes l (ps @ qs))"
  by (auto simp: before_def nodes_def)

lemma after_in: "after l qs \<in> set (nodes l (ps @ qs))"
  by (auto simp: after_def nodes_def)

lemma nodes_disjoint:
  assumes "tl_rel T F h" "F l = Some xs" "F l' = Some ys" "l \<noteq> l'" "n \<in> set (nodes l xs)"
  shows "n \<notin> set (nodes l' ys)"
  using assms tl_relD(2) [OF assms(1)] by (auto simp: nodes_def on_list_def)

text \<open>Insertion and removal, at any position, as operations on the lists.\<close>

lemma tl_rel_insert:
  assumes r: "tl_rel T F h" and F: "F l = Some (ps @ qs)" and x: "x \<in> T" "off_lists F x"
  shows "tl_rel T (F(l \<mapsto> ps @ x # qs)) (insert_at x (before l ps) (after l qs) l h)" (is "tl_rel T ?F ?h")
proof -
  obtain pre post where n: "nodes l (ps @ qs) = pre @ before l ps # after l qs # post"
      "nodes l (ps @ x # qs) = pre @ before l ps # TlThread x # after l qs # post"
    using nodes_split [of l ps qs] by metis
  have l: "tl_list h l (ps @ qs)" by (rule tl_relD(1) [OF r F])
  have new: "x \<notin> set (ps @ qs)" using x(2) F unfolding off_lists_def on_list_def by blast
  have d: "distinct (ps @ x # qs)" using l new by (auto simp: tl_list_def)
  have "links ?h (nodes l (ps @ x # qs))"
    unfolding n(2) by (rule links_insert) (use l d n distinct_nodes [of l "ps @ x # qs"] in \<open>auto simp: tl_list_def\<close>)
  then have this_one: "tl_list ?h l (ps @ x # qs)"
    using l d by (auto simp: tl_list_def insert_at_def before_def after_def)
  have others: "tl_list ?h l' ys" if "F l' = Some ys" "l' \<noteq> l" for l' ys
  proof (rule tl_list_frame [OF tl_relD(1) [OF r that(1)]])
    fix m assume m: "m \<in> set (nodes l' ys)"
    then have "m \<noteq> TlThread x" using x(2) that(1) by (auto simp: off_lists_def on_list_def nodes_def)
    moreover have "m \<noteq> before l ps" "m \<noteq> after l qs"
      using nodes_disjoint [OF r that(1) F that(2) m] before_in after_in by metis+
    ultimately show "tln_prev ?h m = tln_prev h m \<and> tln_next ?h m = tln_next h m \<and> tln_self ?h m = tln_self h m"
      by (simp add: insert_at_def)
  qed (simp add: insert_at_def that(2))
  have off: "tln_prev ?h (TlThread t) = None \<and> tln_next ?h (TlThread t) = None" if t: "t \<in> T" "off_lists ?F t" for t
  proof -
    have no: "\<not> on_list ?F t l'" for l' using t(2) by (simp add: off_lists_def)
    have "t \<noteq> x" "t \<notin> set (ps @ qs)" using no [of l] by (simp_all add: on_list_def)
    moreover have "\<not> on_list F t l'" for l'
      using no [of l'] F by (cases "l' = l") (auto simp: on_list_def)
    then have "off_lists F t" by (simp add: off_lists_def)
    ultimately show ?thesis using tl_relD(5) [OF r t(1)]
      by (auto simp: insert_at_def before_def after_def split: if_splits)
  qed
  have sub: "on_list ?F t l' \<Longrightarrow> on_list F t l' \<or> t = x \<and> l' = l" for t l'
    using F by (auto simp: on_list_def split: if_splits)
  show ?thesis
  proof (rule tl_relI)
    show "tl_list ?h l' ys" if "?F l' = Some ys" for l' ys
      using that this_one others by (cases "l' = l") auto
    show "l1 = l2" if "on_list ?F t l1" "on_list ?F t l2" for t l1 l2
      using sub [OF that(1)] sub [OF that(2)] tl_relD(2) [OF r] x(2) by (auto simp: off_lists_def)
    show "t \<in> T" if "on_list ?F t l'" for t l' using sub [OF that] tl_relD(3) [OF r] x(1) by auto
    show "tln_self ?h (TlThread t) = Some t" if "t \<in> T" for t using tl_relD(4) [OF r that] by (simp add: insert_at_def)
  qed (fact tl_rel_ptr [OF r], fact off)
qed

lemma tl_rel_remove:
  assumes r: "tl_rel T F h" and F: "F l = Some (ps @ x # qs)"
  shows "tl_rel T (F(l \<mapsto> ps @ qs)) (remove_at x (before l ps) (after l qs) l h)" (is "tl_rel T ?F ?h")
proof -
  obtain pre post where n: "nodes l (ps @ qs) = pre @ before l ps # after l qs # post"
      "nodes l (ps @ x # qs) = pre @ before l ps # TlThread x # after l qs # post"
    using nodes_split [of l ps qs] by metis
  have l: "tl_list h l (ps @ x # qs)" by (rule tl_relD(1) [OF r F])
  then have d: "distinct (ps @ x # qs)" by (simp add: tl_list_def)
  have "links ?h (nodes l (ps @ qs))"
    unfolding n(1) by (rule links_remove) (use l d n distinct_nodes [of l "ps @ x # qs"] in \<open>auto simp: tl_list_def\<close>)
  then have this_one: "tl_list ?h l (ps @ qs)"
    using l d by (auto simp: tl_list_def remove_at_def before_def after_def)
  have others: "tl_list ?h l' ys" if "F l' = Some ys" "l' \<noteq> l" for l' ys
  proof (rule tl_list_frame [OF tl_relD(1) [OF r that(1)]])
    fix m assume m: "m \<in> set (nodes l' ys)"
    have "m \<notin> set (nodes l (ps @ x # qs))" by (rule nodes_disjoint [OF r that(1) F that(2) m])
    then show "tln_prev ?h m = tln_prev h m \<and> tln_next ?h m = tln_next h m \<and> tln_self ?h m = tln_self h m"
      unfolding n(2) by (auto simp: remove_at_def)
  qed (simp add: remove_at_def that(2))
  have off: "tln_prev ?h (TlThread t) = None \<and> tln_next ?h (TlThread t) = None" if t: "t \<in> T" "off_lists ?F t" for t
  proof (cases "t = x")
    case False
    have no: "\<not> on_list ?F t l'" for l' using t(2) by (simp add: off_lists_def)
    have "t \<notin> set (ps @ qs)" using no [of l] by (simp add: on_list_def)
    moreover have "\<not> on_list F t l'" for l'
      using no [of l'] False F by (cases "l' = l") (auto simp: on_list_def)
    then have "off_lists F t" by (simp add: off_lists_def)
    ultimately show ?thesis using tl_relD(5) [OF r t(1)]
      by (auto simp: remove_at_def before_def after_def split: if_splits)
  qed (simp add: remove_at_def)
  have sub: "on_list ?F t l' \<Longrightarrow> on_list F t l'" for t l' using F by (auto simp: on_list_def split: if_splits)
  show ?thesis
  proof (rule tl_relI)
    show "tl_list ?h l' ys" if "?F l' = Some ys" for l' ys
      using that this_one others by (cases "l' = l") auto
    show "l1 = l2" if "on_list ?F t l1" "on_list ?F t l2" for t l1 l2
      by (rule tl_relD(2) [OF r sub [OF that(1)] sub [OF that(2)]])
    show "t \<in> T" if "on_list ?F t l'" for t l' by (rule tl_relD(3) [OF r sub [OF that]])
    show "tln_self ?h (TlThread t) = Some t" if "t \<in> T" for t using tl_relD(4) [OF r that] by (simp add: remove_at_def)
  qed (fact tl_rel_ptr [OF r], fact off)
qed

subsection \<open>The operations on the lists\<close>

lemma tl_list_neighbours:
  assumes "tl_list h l (ps @ qs)"
  shows "tln_next h (before l ps) = Some (after l qs)" "tln_prev h (after l qs) = Some (before l ps)"
proof -
  obtain pre post where n: "nodes l (ps @ qs) = pre @ before l ps # after l qs # post"
    using nodes_split [of l ps qs] by metis
  have "links h (before l ps # after l qs # post)"
    using assms n links_append [of h pre "before l ps" "after l qs # post"] by (simp add: tl_list_def)
  then show "tln_next h (before l ps) = Some (after l qs)" "tln_prev h (after l qs) = Some (before l ps)" by simp_all
qed

lemma before_snoc [simp]: "before l (ps @ [x]) = TlThread x" "before l [] = TlHead l"
  by (simp_all add: before_def)

lemma after_Cons [simp]: "after l (x # qs) = TlThread x" "after l [] = TlTail l"
  by (simp_all add: after_def)

lemma insertafternode_wp:
  assumes r: "tl_rel T F h" and F: "F l = Some (ps @ qs)" and x: "x \<in> T" "off_lists F x"
    and Q: "\<And>h'. tl_rel T (F(l \<mapsto> ps @ x # qs)) h' \<Longrightarrow> Q () h'"
  shows "wp (kthen (threadlist_insertafternode (before l ps) x) (set_count l (\<lambda>n. n + 1))) Q E h"
proof -
  have n: "tln_next h (before l ps) = Some (after l qs)" by (rule tl_list_neighbours(1) [OF tl_relD(1) [OF r F]])
  have "x \<notin> set (ps @ qs)" using x(2) F unfolding off_lists_def on_list_def by blast
  then have ne: "before l ps \<noteq> TlThread x" by (auto simp: before_def)
  have "Q () (insert_at x (before l ps) (after l qs) l h)" by (rule Q, rule tl_rel_insert [OF r F x])
  then show ?thesis using n ne by (simp add: threadlist_insertafternode_def node_defs insert_at_def Let_def)
qed

lemma insertbeforenode_wp:
  assumes r: "tl_rel T F h" and F: "F l = Some (ps @ qs)" and x: "x \<in> T" "off_lists F x"
    and Q: "\<And>h'. tl_rel T (F(l \<mapsto> ps @ x # qs)) h' \<Longrightarrow> Q () h'"
  shows "wp (kthen (threadlist_insertbeforenode x (after l qs)) (set_count l (\<lambda>n. n + 1))) Q E h"
proof -
  have n: "tln_prev h (after l qs) = Some (before l ps)" by (rule tl_list_neighbours(2) [OF tl_relD(1) [OF r F]])
  have "x \<notin> set (ps @ qs)" using x(2) F unfolding off_lists_def on_list_def by blast
  then have ne: "before l ps \<noteq> TlThread x" "after l qs \<noteq> TlThread x" by (auto simp: before_def after_def)
  have "Q () (insert_at x (before l ps) (after l qs) l h)" by (rule Q, rule tl_rel_insert [OF r F x])
  then show ?thesis using n ne by (simp add: threadlist_insertbeforenode_def node_defs insert_at_def Let_def fun_upd_twist)
qed

lemma removenode_wp:
  assumes r: "tl_rel T F h" and F: "F l = Some (ps @ x # qs)"
    and Q: "\<And>h'. tl_rel T (F(l \<mapsto> ps @ qs)) h' \<Longrightarrow> Q () h'"
  shows "wp (kthen (threadlist_removenode (TlThread x)) (set_count l (\<lambda>n. n - 1))) Q E h"
proof -
  have l: "tl_list h l (ps @ x # qs)" by (rule tl_relD(1) [OF r F])
  have p: "tln_prev h (TlThread x) = Some (before l ps)" using tl_list_neighbours(2) [OF l] by simp
  have q: "tln_next h (TlThread x) = Some (after l qs)"
    using tl_list_neighbours(1) [of h l "ps @ [x]" qs] l by simp
  have "x \<notin> set (ps @ qs)" using l by (auto simp: tl_list_def)
  then have ne: "before l ps \<noteq> TlThread x" "after l qs \<noteq> TlThread x" by (auto simp: before_def after_def)
  have "Q () (remove_at x (before l ps) (after l qs) l h)" by (rule Q, rule tl_rel_remove [OF r F])
  then show ?thesis by (simp add: threadlist_removenode_def node_defs p q ne) (unfold remove_at_def)
qed


lemma threadlist_addhead_wp:
  assumes "tl_rel T F h" "F l = Some xs" "x \<in> T" "off_lists F x"
  shows "wp (threadlist_addhead l x) (\<lambda>_. tl_rel T (F(l \<mapsto> x # xs))) E h"
  using insertafternode_wp [of T F h l "[]" xs x "\<lambda>_. tl_rel T (F(l \<mapsto> x # xs))" E] assms
  by (simp add: threadlist_addhead_def)

lemma threadlist_addtail_wp:
  assumes "tl_rel T F h" "F l = Some xs" "x \<in> T" "off_lists F x"
  shows "wp (threadlist_addtail l x) (\<lambda>_. tl_rel T (F(l \<mapsto> xs @ [x]))) E h"
  using insertbeforenode_wp [of T F h l xs "[]" x "\<lambda>_. tl_rel T (F(l \<mapsto> xs @ [x]))" E] assms
  by (simp add: threadlist_addtail_def)

lemma threadlist_insertafter_wp:
  assumes "tl_rel T F h" "F l = Some (ps @ y # qs)" "x \<in> T" "off_lists F x"
  shows "wp (threadlist_insertafter l y x) (\<lambda>_. tl_rel T (F(l \<mapsto> ps @ y # x # qs))) E h"
  using insertafternode_wp [of T F h l "ps @ [y]" qs x "\<lambda>_. tl_rel T (F(l \<mapsto> ps @ y # x # qs))" E] assms
  by (simp add: threadlist_insertafter_def)

lemma threadlist_insertbefore_wp:
  assumes "tl_rel T F h" "F l = Some (ps @ y # qs)" "x \<in> T" "off_lists F x"
  shows "wp (threadlist_insertbefore l x y) (\<lambda>_. tl_rel T (F(l \<mapsto> ps @ x # y # qs))) E h"
  using insertbeforenode_wp [of T F h l ps "y # qs" x "\<lambda>_. tl_rel T (F(l \<mapsto> ps @ x # y # qs))" E] assms
  by (simp add: threadlist_insertbefore_def)

lemma threadlist_remove_wp:
  assumes "tl_rel T F h" "F l = Some (ps @ x # qs)"
  shows "wp (threadlist_remove l x) (\<lambda>_. tl_rel T (F(l \<mapsto> ps @ qs))) E h"
  using removenode_wp [of T F h l ps x qs "\<lambda>_. tl_rel T (F(l \<mapsto> ps @ qs))" E] assms
  by (simp add: threadlist_remove_def)

lemma on_list_live: "tl_rel T F h \<Longrightarrow> F l = Some xs \<Longrightarrow> x \<in> set xs \<Longrightarrow> x \<in> T"
  using tl_relD(3) by (metis on_list_def)

lemma threadlist_remhead_wp:
  assumes r: "tl_rel T F h" and F: "F l = Some xs"
  shows "wp (threadlist_remhead l)
    (\<lambda>o' h'. case xs of [] \<Rightarrow> o' = None \<and> h' = h | x # ys \<Rightarrow> o' = Some x \<and> tl_rel T (F(l \<mapsto> ys)) h') E h"
proof (cases xs)
  case Nil
  then have "tln_next h (TlHead l) = Some (TlTail l)" "tln_next h (TlTail l) = None"
    using tl_relD(1) [OF r F] by (auto simp: tl_list_def nodes_def)
  then show ?thesis using Nil by (simp add: threadlist_remhead_def get_next_def)
next
  case (Cons x ys)
  have l: "tl_list h l ([] @ x # ys)" using tl_relD(1) [OF r F] Cons by simp
  have n: "tln_next h (TlHead l) = Some (TlThread x)" "tln_next h (TlThread x) = Some (after l ys)"
    using tl_list_neighbours(1) [OF l] tl_list_neighbours(1) [of h l "[x]" ys] l by (auto simp: before_def)
  have x: "x \<in> T" using on_list_live [OF r F, of x] Cons by simp
  have "wp (kthen (threadlist_removenode (TlThread x)) (set_count l (\<lambda>n. n - 1)))
      (\<lambda>_ h'. tln_self h' (TlThread x) = Some x \<and> tl_rel T (F(l \<mapsto> ys)) h') E h"
    by (rule removenode_wp [OF r, of l "[]" x ys]) (use F Cons x tl_relD(4) in auto)
  then show ?thesis using n Cons by (simp add: threadlist_remhead_def get_next_def)
qed

lemma threadlist_remtail_wp:
  assumes r: "tl_rel T F h" and F: "F l = Some xs"
  shows "wp (threadlist_remtail l)
    (\<lambda>o' h'. if xs = [] then o' = None \<and> h' = h else o' = Some (last xs) \<and> tl_rel T (F(l \<mapsto> butlast xs)) h') E h"
proof (cases xs rule: rev_cases)
  case Nil
  then have "tln_prev h (TlTail l) = Some (TlHead l)" "tln_prev h (TlHead l) = None"
    using tl_relD(1) [OF r F] by (auto simp: tl_list_def nodes_def)
  then show ?thesis using Nil by (simp add: threadlist_remtail_def get_prev_def)
next
  case (snoc ys x)
  have l: "tl_list h l (ys @ [x])" using tl_relD(1) [OF r F] snoc by simp
  have n: "tln_prev h (TlTail l) = Some (TlThread x)" "tln_prev h (TlThread x) = Some (before l ys)"
    using tl_list_neighbours(2) [of h l "ys @ [x]" "[]"] tl_list_neighbours(2) [OF l] l by (auto simp: after_def)
  have x: "x \<in> T" using on_list_live [OF r F, of x] snoc by simp
  have "wp (kthen (threadlist_removenode (TlThread x)) (set_count l (\<lambda>n. n - 1)))
      (\<lambda>_ h'. tln_self h' (TlThread x) = Some x \<and> tl_rel T (F(l \<mapsto> ys)) h') E h"
    by (rule removenode_wp [OF r, of l ys x "[]"]) (use F snoc x tl_relD(4) in auto)
  then show ?thesis using n snoc by (simp add: threadlist_remtail_def get_prev_def)
qed

text \<open>The count is a 32-bit number; as threads are nonnull 32-bit addresses it never wraps.\<close>

lemma tl_rel_length:
  assumes "tl_rel T F h" "F l = Some xs"
  shows "length xs < 2 ^ 32"
proof -
  have "distinct xs" using tl_relD(1) [OF assms] by (simp add: tl_list_def)
  then have "length xs = card (set xs)" by (simp add: distinct_card)
  also have "\<dots> \<le> card {0 :: nat <..< 2 ^ 32}"
    using on_list_live [OF assms] tl_rel_ptr [OF assms(1)] by (intro card_mono) auto
  also have "\<dots> < 2 ^ 32" by simp
  finally show ?thesis .
qed

lemma tl_rel_count:
  assumes "tl_rel T F h" "F l = Some xs"
  shows "tl_count h l = of_nat (length xs)" "unat (tl_count h l) = length xs" "tl_count h l = 0 \<longleftrightarrow> xs = []"
proof -
  show c: "tl_count h l = of_nat (length xs)" using tl_relD(1) [OF assms] by (simp add: tl_list_def)
  show u: "unat (tl_count h l) = length xs"
    using tl_rel_length [OF assms] by (simp add: c unat_of_nat take_bit_nat_eq_self)
  show "tl_count h l = 0 \<longleftrightarrow> xs = []" using u by (metis length_0_conv unat_0 unat_eq_zero)
qed

lemma threadlist_isempty_wp:
  assumes "tl_rel T F h" "F l = Some xs" "Q (xs = []) h"
  shows "wp (threadlist_isempty l) Q E h"
  using assms tl_rel_count(3) [OF assms(1,2)] by (simp add: threadlist_isempty_def)

lemma threadlist_cleanup_wp:
  assumes "tl_rel T F h" "F l = Some []" "Q () h"
  shows "wp (threadlist_cleanup l) Q E h"
  using assms tl_rel_count(3) [OF assms(1,2)] by (simp add: threadlist_cleanup_def threadlist_isempty_def)


lemma threadlist_init_wp:
  assumes r: "tl_rel T F h" and F: "F l = None \<or> F l = Some []"
  shows "wp (threadlist_init l) (\<lambda>_. tl_rel T (F(l \<mapsto> []))) E h"
proof -
  let ?h = "h\<lparr>tln_next := (tln_next h)(TlHead l := Some (TlTail l), TlTail l := None),
     tln_prev := (tln_prev h)(TlHead l := None, TlTail l := Some (TlHead l)),
     tln_self := (tln_self h)(TlHead l := None, TlTail l := None), tl_count := (tl_count h)(l := 0)\<rparr>"
  have sub: "on_list (F(l \<mapsto> [])) t l' \<longleftrightarrow> on_list F t l'" for t l' using F by (auto simp: on_list_def)
  have off: "off_lists (F(l \<mapsto> [])) t \<longleftrightarrow> off_lists F t" for t by (simp add: off_lists_def sub)
  have "tl_rel T (F(l \<mapsto> [])) ?h"
  proof (rule tl_relI)
    fix l' xs assume l': "(F(l \<mapsto> [])) l' = Some xs"
    show "tl_list ?h l' xs"
    proof (cases "l' = l")
      case True
      then show ?thesis using l' by (auto simp: tl_list_def nodes_def)
    next
      case False
      then have "tl_list h l' xs" using l' tl_relD(1) [OF r] by simp
      then show ?thesis by (rule tl_list_frame) (use False in \<open>auto simp: nodes_def\<close>)
    qed
  next
    show "l1 = l2" if "on_list (F(l \<mapsto> [])) t l1" "on_list (F(l \<mapsto> [])) t l2" for t l1 l2
      using that tl_relD(2) [OF r] sub by blast
    show "t \<in> T" if "on_list (F(l \<mapsto> [])) t l'" for t l' using that tl_relD(3) [OF r] sub by blast
    show "tln_self ?h (TlThread t) = Some t" if "t \<in> T" for t using tl_relD(4) [OF r that] by simp
    show "tln_prev ?h (TlThread t) = None \<and> tln_next ?h (TlThread t) = None"
      if "t \<in> T" "off_lists (F(l \<mapsto> [])) t" for t
      using tl_relD(5) [OF r] that off by simp
  qed (fact tl_rel_ptr [OF r])
  then show ?thesis by (simp add: threadlist_init_def node_defs fun_upd_twist)
qed

lemma threadlistnode_init_wp:
  assumes r: "tl_rel T F h" and t: "t \<notin> T" "0 < t" "t < 2 ^ 32"
  shows "wp (threadlistnode_init t) (\<lambda>_. tl_rel (insert t T) F) E h"
proof -
  let ?h = "h\<lparr>tln_next := (tln_next h)(TlThread t := None), tln_prev := (tln_prev h)(TlThread t := None),
     tln_self := (tln_self h)(TlThread t := Some t)\<rparr>"
  have "tl_rel (insert t T) F ?h"
  proof (rule tl_relI)
    show "tl_list ?h l xs" if "F l = Some xs" for l xs
      using tl_relD(1) [OF r that]
      by (rule tl_list_frame) (use t(1) on_list_live [OF r that] in \<open>auto simp: nodes_def\<close>)
    show "insert t T \<subseteq> {0 <..< 2 ^ 32}" using tl_rel_ptr [OF r] t by auto
    show "l1 = l2" if "on_list F u l1" "on_list F u l2" for u l1 l2 by (rule tl_relD(2) [OF r that])
    show "u \<in> insert t T" if "on_list F u l" for u l using tl_relD(3) [OF r that] by simp
  qed (use tl_relD(4,5) [OF r] in auto)
  then show ?thesis by (simp add: threadlistnode_init_def node_defs)
qed

lemma threadlistnode_cleanup_wp:
  assumes "tl_rel T F h" "t \<in> T" "off_lists F t" "Q () h"
  shows "wp (threadlistnode_cleanup t) Q E h"
  using tl_relD(4) [OF assms(1,2)] tl_relD(5) [OF assms(1-3)] assms(4)
  by (simp add: threadlistnode_cleanup_def)

lemma tl_rel_drop_list:
  assumes r: "tl_rel T F h" and F: "F l = Some []"
  shows "tl_rel T (F(l := None)) h"
proof -
  have sub: "on_list (F(l := None)) t l' \<longleftrightarrow> on_list F t l'" for t l' using F by (auto simp: on_list_def)
  then have off: "off_lists (F(l := None)) t \<longleftrightarrow> off_lists F t" for t by (simp add: off_lists_def)
  show ?thesis
  proof (rule tl_relI)
    show "tl_list h l' xs" if "(F(l := None)) l' = Some xs" for l' xs
      using tl_relD(1) [OF r] that by (simp split: if_splits)
    show "l1 = l2" if "on_list (F(l := None)) t l1" "on_list (F(l := None)) t l2" for t l1 l2
      using that tl_relD(2) [OF r] sub by blast
    show "t \<in> T" if "on_list (F(l := None)) t l'" for t l' using that tl_relD(3) [OF r] sub by blast
  qed (use tl_rel_ptr [OF r] tl_relD(4,5) [OF r] off in auto)
qed

lemma tl_rel_drop_thread:
  assumes r: "tl_rel T F h" and t: "off_lists F t"
  shows "tl_rel (T - {t}) F h"
proof (rule tl_relI)
  show "u \<in> T - {t}" if "on_list F u l" for u l using tl_relD(3) [OF r that] t that by (auto simp: off_lists_def)
  show "l1 = l2" if "on_list F u l1" "on_list F u l2" for u l1 l2 by (rule tl_relD(2) [OF r that])
qed (use tl_rel_ptr [OF r] tl_relD(1,4,5) [OF r] in auto)

subsection \<open>The contents of a list\<close>

text \<open>
  The threads on a list in their order, by the links, the way \<open>THREADLIST_FORALL\<close> goes through them; as
  many steps as the count says are enough.
\<close>

fun threads_from :: "'l threadlists \<Rightarrow> nat \<Rightarrow> 'l threadlistnode \<Rightarrow> tid list" where
  "threads_from h 0 n = []"
| "threads_from h (Suc k) n =
     (case tln_next h n of
        None \<Rightarrow> []
      | Some m \<Rightarrow> (case tln_self h m of None \<Rightarrow> [] | Some t \<Rightarrow> t # threads_from h k (TlThread t)))"

definition threads_on :: "'l threadlists \<Rightarrow> 'l \<Rightarrow> tid list" where
  "threads_on h l = threads_from h (unat (tl_count h l)) (TlHead l)"

lemma threads_from_chain:
  assumes "links h (n # map TlThread xs @ [TlTail l])" "\<And>t. t \<in> set xs \<Longrightarrow> tln_self h (TlThread t) = Some t"
  shows "threads_from h (length xs) n = xs"
  using assms by (induction xs arbitrary: n) auto

lemma threads_on:
  assumes r: "tl_rel T F h" "F l = Some xs"
  shows "threads_on h l = xs"
proof -
  have "links h (TlHead l # map TlThread xs @ [TlTail l])" using tl_relD(1) [OF r] by (simp add: tl_list_def nodes_def)
  moreover have "tln_self h (TlThread t) = Some t" if "t \<in> set xs" for t
    using tl_relD(3,4) [OF r(1)] r(2) that by (auto simp: on_list_def)
  ultimately show ?thesis using tl_rel_count(2) [OF r] by (simp add: threads_on_def threads_from_chain)
qed

subsection \<open>The interface\<close>

text \<open>
  What the users of thread lists rely on: a relation to HOL lists under which adding and removing
  at the ends does what it says. The two loops that move threads between lists (in
  \<open>wchan_wakeall\<close> and \<open>thread_consider_migration\<close>) are verified from these laws alone.
\<close>

definition moveall :: "('l \<Rightarrow> ('s, tid option) kfun) \<Rightarrow> ('l \<Rightarrow> tid \<Rightarrow> ('s, unit) kfun) \<Rightarrow> 'l \<Rightarrow> 'l \<Rightarrow> ('s, unit) kfun" where
  "moveall rem add src dst = kloop (\<lambda>_. kbind (rem src) (\<lambda>t.
     case t of None \<Rightarrow> kret (Inr ()) | Some t \<Rightarrow> kthen (add dst t) (kret (Inl ())))) ()"

primrec movesome :: "('l \<Rightarrow> ('s, tid option) kfun) \<Rightarrow> ('l \<Rightarrow> tid \<Rightarrow> ('s, unit) kfun) \<Rightarrow> 'l \<Rightarrow> 'l \<Rightarrow> nat \<Rightarrow> ('s, unit) kfun" where
  "movesome rem add src dst 0 = kret ()"
| "movesome rem add src dst (Suc n) =
     kbind (rem src) (\<lambda>t. kbind (knonnull t) (\<lambda>t. kthen (add dst t) (movesome rem add src dst n)))"

locale thread_deque =
  fixes rel :: "tid set \<Rightarrow> ('l \<rightharpoonup> tid list) \<Rightarrow> 's \<Rightarrow> bool"
    and addhead :: "'l \<Rightarrow> tid \<Rightarrow> ('s, unit) kfun" and addtail :: "'l \<Rightarrow> tid \<Rightarrow> ('s, unit) kfun"
    and remhead :: "'l \<Rightarrow> ('s, tid option) kfun" and remtail :: "'l \<Rightarrow> ('s, tid option) kfun"
  assumes live: "rel T F s \<Longrightarrow> F l = Some xs \<Longrightarrow> x \<in> set xs \<Longrightarrow> x \<in> T"
    and apart: "rel T F s \<Longrightarrow> F l = Some (x # xs) \<Longrightarrow> off_lists (F(l \<mapsto> xs)) x"
    and addhead: "rel T F s \<Longrightarrow> F l = Some xs \<Longrightarrow> x \<in> T \<Longrightarrow> off_lists F x \<Longrightarrow>
      wp (addhead l x) (\<lambda>_. rel T (F(l \<mapsto> x # xs))) E s"
    and addtail: "rel T F s \<Longrightarrow> F l = Some xs \<Longrightarrow> x \<in> T \<Longrightarrow> off_lists F x \<Longrightarrow>
      wp (addtail l x) (\<lambda>_. rel T (F(l \<mapsto> xs @ [x]))) E s"
    and remhead_Nil: "rel T F s \<Longrightarrow> F l = Some [] \<Longrightarrow> wp (remhead l) (\<lambda>t s'. t = None \<and> rel T F s') E s"
    and remhead_Cons: "rel T F s \<Longrightarrow> F l = Some (x # xs) \<Longrightarrow>
      wp (remhead l) (\<lambda>t s'. t = Some x \<and> rel T (F(l \<mapsto> xs)) s') E s"
    and remtail_snoc: "rel T F s \<Longrightarrow> F l = Some (xs @ [x]) \<Longrightarrow>
      wp (remtail l) (\<lambda>t s'. t = Some x \<and> rel T (F(l \<mapsto> xs)) s' \<and> off_lists (F(l \<mapsto> xs)) x) E s"
begin

lemma moveall:
  assumes "rel T F s" "F src = Some xs" "F dst = Some ys" "src \<noteq> dst"
  shows "wp (moveall remhead addtail src dst) (\<lambda>_. rel T (F(src \<mapsto> [], dst \<mapsto> ys @ xs))) E s"
  unfolding moveall_def
proof (rule wp_kloop [where I = "\<lambda>n _ s'. \<exists>us vs. length vs = n \<and> xs = us @ vs \<and> rel T (F(src \<mapsto> vs, dst \<mapsto> ys @ us)) s'"])
  have "F(src \<mapsto> xs, dst \<mapsto> ys @ []) = F" using assms(2,3) by (auto simp: fun_eq_iff)
  then show "\<exists>us vs. length vs = length xs \<and> xs = us @ vs \<and> rel T (F(src \<mapsto> vs, dst \<mapsto> ys @ us)) s"
    using assms(1) by (intro exI [of _ "[]"] exI [of _ xs]) simp
next
  fix n x s' assume "\<exists>us vs. length vs = n \<and> xs = us @ vs \<and> rel T (F(src \<mapsto> vs, dst \<mapsto> ys @ us)) s'"
  then obtain us vs where v: "length vs = n" "xs = us @ vs" and r: "rel T (F(src \<mapsto> vs, dst \<mapsto> ys @ us)) s'" by blast
  let ?F = "F(src \<mapsto> vs, dst \<mapsto> ys @ us)"
  have src: "?F src = Some vs" using assms(4) by simp
  show "wp (kbind (remhead src) (\<lambda>t. case t of None \<Rightarrow> kret (Inr ()) | Some t \<Rightarrow> kthen (addtail dst t) (kret (Inl ()))))
     (\<lambda>r s'. case r of Inl y \<Rightarrow> \<exists>m<n. \<exists>us vs. length vs = m \<and> xs = us @ vs \<and> rel T (F(src \<mapsto> vs, dst \<mapsto> ys @ us)) s'
      | Inr z \<Rightarrow> rel T (F(src \<mapsto> [], dst \<mapsto> ys @ xs)) s') E s'"
  proof (cases vs)
    case Nil
    show ?thesis
      unfolding wp_kbind by (rule wp_conseq [OF remhead_Nil [OF r]]) (use Nil v in \<open>auto simp: assms(4)\<close>)
  next
    case (Cons v vs')
    have u: "?F(src \<mapsto> vs') = F(src \<mapsto> vs', dst \<mapsto> ys @ us)" using assms(4) by (simp add: fun_upd_twist)
    have srcv: "?F src = Some (v # vs')" using src Cons by simp
    have vT: "v \<in> T" by (rule live [OF r srcv]) simp
    have off: "off_lists (F(src \<mapsto> vs', dst \<mapsto> ys @ us)) v" using apart [OF r srcv] unfolding u .
    have w: "wp (addtail dst v) (\<lambda>_. rel T (F(src \<mapsto> vs', dst \<mapsto> ys @ us @ [v]))) E s''"
      if "rel T (F(src \<mapsto> vs', dst \<mapsto> ys @ us)) s''" for s''
      using addtail [OF that _ vT off, of dst "ys @ us" E] by simp
    have round: "\<exists>m<n. \<exists>us vs. length vs = m \<and> xs = us @ vs \<and> rel T (F(src \<mapsto> vs, dst \<mapsto> ys @ us)) s''"
      if "rel T (F(src \<mapsto> vs', dst \<mapsto> ys @ us @ [v])) s''" for s''
      by (rule exI [of _ "length vs'"], rule conjI, use v Cons in simp, rule exI [of _ "us @ [v]"], rule exI [of _ vs'])
        (use v Cons that in simp)
    show ?thesis
      unfolding wp_kbind
    proof (rule wp_conseq [OF remhead_Cons [OF r srcv]])
      fix t s'' assume "t = Some v \<and> rel T (?F(src \<mapsto> vs')) s''"
      then have t: "t = Some v" "rel T (F(src \<mapsto> vs', dst \<mapsto> ys @ us)) s''" by (simp_all add: u)
      show "wp (case t of None \<Rightarrow> kret (Inr ()) | Some t \<Rightarrow> kthen (addtail dst t) (kret (Inl ())))
       (\<lambda>r s'. case r of Inl y \<Rightarrow> \<exists>m<n. \<exists>us vs. length vs = m \<and> xs = us @ vs \<and> rel T (F(src \<mapsto> vs, dst \<mapsto> ys @ us)) s'
        | Inr z \<Rightarrow> rel T (F(src \<mapsto> [], dst \<mapsto> ys @ xs)) s') E s''"
        unfolding t(1) option.case wp_kthen
        by (rule wp_conseq [OF w [OF t(2)]])
          (simp_all add: round)
    qed
  qed
qed

lemma movesome:
  assumes "rel T F s" "F src = Some (us @ vs)" "F dst = Some ys" "src \<noteq> dst"
  shows "wp (movesome remtail addhead src dst (length vs)) (\<lambda>_. rel T (F(src \<mapsto> us, dst \<mapsto> vs @ ys))) E s"
  using assms
proof (induction vs arbitrary: F ys s rule: rev_induct)
  case Nil
  then have "F(src \<mapsto> us, dst \<mapsto> ys) = F" by (auto simp: fun_eq_iff)
  with Nil(1) show ?case by (simp only: list.size(3) movesome.simps wp_kret append_Nil)
next
  case (snoc v vs)
  have vT: "v \<in> T" using live [OF snoc.prems(1,2)] by simp
  have src: "F src = Some ((us @ vs) @ [v])" using snoc.prems(2) by simp
  have "wp (addhead dst v) (\<lambda>_. wp (movesome remtail addhead src dst (length vs))
      (\<lambda>_. rel T (F(src \<mapsto> us, dst \<mapsto> vs @ v # ys))) E) E s'"
    if "rel T (F(src \<mapsto> us @ vs)) s'" "off_lists (F(src \<mapsto> us @ vs)) v" for s'
  proof (rule wp_conseq [OF addhead [OF that(1) _ vT that(2), of dst ys E]])
    show "(F(src \<mapsto> us @ vs)) dst = Some ys" using snoc.prems(3,4) by simp
    fix x :: unit and s'' assume "rel T (F(src \<mapsto> us @ vs, dst \<mapsto> v # ys)) s''"
    moreover have "F(src \<mapsto> us @ vs, dst \<mapsto> v # ys, src \<mapsto> us, dst \<mapsto> vs @ v # ys) = F(src \<mapsto> us, dst \<mapsto> vs @ v # ys)"
      by (auto simp: fun_eq_iff)
    ultimately show "wp (movesome remtail addhead src dst (length vs)) (\<lambda>_. rel T (F(src \<mapsto> us, dst \<mapsto> vs @ v # ys))) E s''"
      using snoc.IH [of "F(src \<mapsto> us @ vs, dst \<mapsto> v # ys)" s'' "v # ys"] snoc.prems(4) by (simp del: fun_upd_apply add: fun_upd_same fun_upd_other)
  qed
  then show ?case
    by (simp del: fun_upd_apply) (rule wp_conseq [OF remtail_snoc [OF snoc.prems(1) src]], auto)
qed

end


lemma tl_rel_apart:
  assumes r: "tl_rel T F h" and F: "F l = Some (ps @ x # qs)"
  shows "off_lists (F(l \<mapsto> ps @ qs)) x"
proof -
  have "x \<notin> set (ps @ qs)" using tl_relD(1) [OF r F] by (auto simp: tl_list_def)
  moreover have "\<not> on_list F x l'" if "l' \<noteq> l" for l'
    using tl_relD(2) [OF r, of x l' l] that F by (auto simp: on_list_def)
  ultimately show ?thesis by (auto simp: off_lists_def on_list_upd)
qed

interpretation tq: thread_deque tl_rel threadlist_addhead threadlist_addtail threadlist_remhead threadlist_remtail
proof unfold_locales
  fix T :: "tid set" and F h l xs x E
  assume r: "tl_rel T F h"
  show "F l = Some xs \<Longrightarrow> x \<in> set xs \<Longrightarrow> x \<in> T" by (rule on_list_live [OF r])
  show "F l = Some (x # xs) \<Longrightarrow> off_lists (F(l \<mapsto> xs)) x" using tl_rel_apart [OF r, of l "[]" x xs] by simp
  show "F l = Some [] \<Longrightarrow> wp (threadlist_remhead l) (\<lambda>t h'. t = None \<and> tl_rel T F h') E h"
    by (rule wp_conseq [OF threadlist_remhead_wp [OF r]]) (use r in auto)
  show "F l = Some (x # xs) \<Longrightarrow> wp (threadlist_remhead l) (\<lambda>t h'. t = Some x \<and> tl_rel T (F(l \<mapsto> xs)) h') E h"
    by (rule wp_conseq [OF threadlist_remhead_wp [OF r]]) auto
  show "F l = Some (xs @ [x]) \<Longrightarrow> wp (threadlist_remtail l)
      (\<lambda>t h'. t = Some x \<and> tl_rel T (F(l \<mapsto> xs)) h' \<and> off_lists (F(l \<mapsto> xs)) x) E h"
    by (rule wp_conseq [OF threadlist_remtail_wp [OF r]]) (use tl_rel_apart [OF r, of l xs x "[]"] in auto)
qed (fact threadlist_addhead_wp threadlist_addtail_wp)+

subsection \<open>Refinement\<close>

text \<open>The operations on a list node and on lists as calls, and what they do to HOL lists.\<close>

datatype 'l tl_call =
    Init 'l | Cleanup 'l | Isempty 'l | Addhead 'l tid | Addtail 'l tid | Remhead 'l | Remtail 'l
  | Insertafter 'l tid tid | Insertbefore 'l tid tid | Remove 'l tid

datatype tl_result = Nothing | Flag bool | Thread "tid option"

definition kmap :: "('a \<Rightarrow> 'b) \<Rightarrow> ('s, 'a) kfun \<Rightarrow> ('s, 'b) kfun" where
  "kmap f m = kbind m (\<lambda>x. kret (f x))"

fun tl_exec :: "'l tl_call \<Rightarrow> ('l threadlists, tl_result) kfun" where
  "tl_exec (Init l) = kmap (\<lambda>_. Nothing) (threadlist_init l)"
| "tl_exec (Cleanup l) = kmap (\<lambda>_. Nothing) (threadlist_cleanup l)"
| "tl_exec (Isempty l) = kmap Flag (threadlist_isempty l)"
| "tl_exec (Addhead l t) = kmap (\<lambda>_. Nothing) (threadlist_addhead l t)"
| "tl_exec (Addtail l t) = kmap (\<lambda>_. Nothing) (threadlist_addtail l t)"
| "tl_exec (Remhead l) = kmap Thread (threadlist_remhead l)"
| "tl_exec (Remtail l) = kmap Thread (threadlist_remtail l)"
| "tl_exec (Insertafter l onlist t) = kmap (\<lambda>_. Nothing) (threadlist_insertafter l onlist t)"
| "tl_exec (Insertbefore l t onlist) = kmap (\<lambda>_. Nothing) (threadlist_insertbefore l t onlist)"
| "tl_exec (Remove l t) = kmap (\<lambda>_. Nothing) (threadlist_remove l t)"

fun tl_execs :: "'l tl_call list \<Rightarrow> ('l threadlists, tl_result list) kfun" where
  "tl_execs [] = kret []"
| "tl_execs (c # cs) = kbind (tl_exec c) (\<lambda>r. kbind (tl_execs cs) (\<lambda>rs. kret (r # rs)))"

text \<open>
  The specification. A call is \<open>legal\<close> when its list is initialised (for \<open>Init\<close>: is not, or is
  empty), a thread that is added is live and on no list, a thread named as a position or for
  removal is on the list, and the list to clean up is empty.
\<close>

definition insert_after :: "'a \<Rightarrow> 'a \<Rightarrow> 'a list \<Rightarrow> 'a list" where
  "insert_after y x xs = takeWhile ((\<noteq>) y) xs @ y # x # tl (dropWhile ((\<noteq>) y) xs)"

definition insert_before :: "'a \<Rightarrow> 'a \<Rightarrow> 'a list \<Rightarrow> 'a list" where
  "insert_before x y xs = takeWhile ((\<noteq>) y) xs @ x # dropWhile ((\<noteq>) y) xs"

fun tl_legal :: "tid set \<Rightarrow> ('l \<rightharpoonup> tid list) \<Rightarrow> 'l tl_call \<Rightarrow> bool" where
  "tl_legal T F (Init l) = (F l = None \<or> F l = Some [])"
| "tl_legal T F (Cleanup l) = (F l = Some [])"
| "tl_legal T F (Isempty l) = (F l \<noteq> None)"
| "tl_legal T F (Addhead l t) = (F l \<noteq> None \<and> t \<in> T \<and> off_lists F t)"
| "tl_legal T F (Addtail l t) = (F l \<noteq> None \<and> t \<in> T \<and> off_lists F t)"
| "tl_legal T F (Remhead l) = (F l \<noteq> None)"
| "tl_legal T F (Remtail l) = (F l \<noteq> None)"
| "tl_legal T F (Insertafter l y t) = (on_list F y l \<and> t \<in> T \<and> off_lists F t)"
| "tl_legal T F (Insertbefore l t y) = (on_list F y l \<and> t \<in> T \<and> off_lists F t)"
| "tl_legal T F (Remove l t) = on_list F t l"

fun tl_spec :: "'l tl_call \<Rightarrow> ('l \<rightharpoonup> tid list) \<Rightarrow> tl_result \<times> ('l \<rightharpoonup> tid list)" where
  "tl_spec (Init l) F = (Nothing, F(l \<mapsto> []))"
| "tl_spec (Cleanup l) F = (Nothing, F)"
| "tl_spec (Isempty l) F = (Flag (the (F l) = []), F)"
| "tl_spec (Addhead l t) F = (Nothing, F(l \<mapsto> t # the (F l)))"
| "tl_spec (Addtail l t) F = (Nothing, F(l \<mapsto> the (F l) @ [t]))"
| "tl_spec (Remhead l) F = (case the (F l) of [] \<Rightarrow> (Thread None, F) | t # ts \<Rightarrow> (Thread (Some t), F(l \<mapsto> ts)))"
| "tl_spec (Remtail l) F =
     (if the (F l) = [] then (Thread None, F) else (Thread (Some (last (the (F l)))), F(l \<mapsto> butlast (the (F l)))))"
| "tl_spec (Insertafter l y t) F = (Nothing, F(l \<mapsto> insert_after y t (the (F l))))"
| "tl_spec (Insertbefore l t y) F = (Nothing, F(l \<mapsto> insert_before t y (the (F l))))"
| "tl_spec (Remove l t) F = (Nothing, F(l \<mapsto> remove1 t (the (F l))))"

fun tl_legals :: "tid set \<Rightarrow> ('l \<rightharpoonup> tid list) \<Rightarrow> 'l tl_call list \<Rightarrow> bool" where
  "tl_legals T F [] = True"
| "tl_legals T F (c # cs) = (tl_legal T F c \<and> tl_legals T (snd (tl_spec c F)) cs)"

fun tl_specs :: "'l tl_call list \<Rightarrow> ('l \<rightharpoonup> tid list) \<Rightarrow> tl_result list \<times> ('l \<rightharpoonup> tid list)" where
  "tl_specs [] F = ([], F)"
| "tl_specs (c # cs) F = (let (r, F') = tl_spec c F; (rs, F'') = tl_specs cs F' in (r # rs, F''))"

lemma wp_kmap [simp]: "wp (kmap f m) Q E = wp m (\<lambda>x. Q (f x)) E"
  by (simp add: kmap_def)

lemma split_at:
  assumes "y \<in> set xs" "distinct xs"
  obtains ps qs where "xs = ps @ y # qs" "insert_after y x xs = ps @ y # x # qs"
    "insert_before x y xs = ps @ x # y # qs" "remove1 y xs = ps @ qs"
proof -
  obtain ps qs where xs: "xs = ps @ y # qs" "y \<notin> set ps" using assms(1) by (meson split_list_first)
  then have "takeWhile ((\<noteq>) y) xs = ps" "dropWhile ((\<noteq>) y) xs = y # qs" by (simp_all add: takeWhile_append dropWhile_append)
  with xs that [of ps qs] show thesis by (simp add: insert_after_def insert_before_def remove1_append)
qed

lemma tl_exec_wp:
  assumes r: "tl_rel T F h" and c: "tl_legal T F c"
  shows "wp (tl_exec c) (\<lambda>r h'. r = fst (tl_spec c F) \<and> tl_rel T (snd (tl_spec c F)) h') E h"
proof (cases c)
  case (Init l)
  then show ?thesis using threadlist_init_wp [OF r, of l] c by simp
next
  case (Cleanup l)
  then show ?thesis using threadlist_cleanup_wp [OF r, of l] c r by simp
next
  case (Isempty l)
  then show ?thesis using threadlist_isempty_wp [OF r, of l] c r by auto
next
  case (Addhead l t)
  then show ?thesis using threadlist_addhead_wp [OF r, of l _ t E] c by auto
next
  case (Addtail l t)
  then show ?thesis using threadlist_addtail_wp [OF r, of l _ t E] c by auto
next
  case (Remhead l)
  then obtain xs where "F l = Some xs" using c by auto
  then show ?thesis using Remhead
    by simp (rule wp_conseq [OF threadlist_remhead_wp [OF r]], auto simp: r split: list.splits)
next
  case (Remtail l)
  then obtain xs where "F l = Some xs" using c by auto
  then show ?thesis
    unfolding Remtail tl_exec.simps wp_kmap
    by (intro wp_conseq [OF threadlist_remtail_wp [OF r]]) (auto simp: r split: if_splits)
next
  case (Insertafter l y t)
  then obtain xs where xs: "F l = Some xs" "y \<in> set xs" using c by (auto simp: on_list_def)
  moreover obtain ps qs where "xs = ps @ y # qs" "insert_after y t xs = ps @ y # t # qs"
    using split_at [OF xs(2)] tl_relD(1) [OF r xs(1)] by (metis tl_list_def)
  ultimately show ?thesis using threadlist_insertafter_wp [OF r, of l ps y qs t E] c Insertafter by simp
next
  case (Insertbefore l t y)
  then obtain xs where xs: "F l = Some xs" "y \<in> set xs" using c by (auto simp: on_list_def)
  moreover obtain ps qs where "xs = ps @ y # qs" "insert_before t y xs = ps @ t # y # qs"
    using split_at [OF xs(2)] tl_relD(1) [OF r xs(1)] by (metis tl_list_def)
  ultimately show ?thesis using threadlist_insertbefore_wp [OF r, of l ps y qs t E] c Insertbefore by simp
next
  case (Remove l t)
  then obtain xs where xs: "F l = Some xs" "t \<in> set xs" using c by (auto simp: on_list_def)
  moreover obtain ps qs where "xs = ps @ t # qs" "remove1 t xs = ps @ qs"
    using split_at [OF xs(2)] tl_relD(1) [OF r xs(1)] by (metis tl_list_def)
  ultimately show ?thesis using threadlist_remove_wp [OF r, of l ps t qs E] Remove by simp
qed


text \<open>
  C31: thread lists are lists. Every sequence of legal calls on the linked structures returns,
  without a null dereference or a failed assertion; each call hands back what the same call on HOL
  lists does, and the pointers and counts still represent the lists the calls lead to. In
  particular no list, count or node of another list is ever disturbed.
\<close>

theorem threadlist_refines:
  assumes "tl_rel T F h" "tl_legals T F cs"
  shows "\<exists>h'. tl_execs cs h = (Ok (fst (tl_specs cs F)), h') \<and> tl_rel T (snd (tl_specs cs F)) h'"
  using assms
proof (induction cs arbitrary: F h)
  case (Cons c cs)
  from tl_exec_wp [OF Cons.prems(1), of c "\<lambda>_ _. False"] Cons.prems(2)
  obtain h1 where 1: "tl_exec c h = (Ok (fst (tl_spec c F)), h1)" "tl_rel T (snd (tl_spec c F)) h1"
    by (auto elim!: wp_run)
  obtain h2 where "tl_execs cs h1 = (Ok (fst (tl_specs cs (snd (tl_spec c F)))), h2)"
      "tl_rel T (snd (tl_specs cs (snd (tl_spec c F)))) h2"
    using Cons.IH [OF 1(2)] Cons.prems(2) by auto
  with 1(1) show ?case by (auto simp: kbind_def kret_def Let_def split: prod.splits)
qed (simp add: kret_def)

definition three_threads :: "nat threadlists" where
  "three_threads = \<lparr>tln_prev = (\<lambda>_. None), tln_next = (\<lambda>_. None),
     tln_self = (\<lambda>n. case n of TlThread t \<Rightarrow> Some t | _ \<Rightarrow> None), tl_count = (\<lambda>_. 0)\<rparr>"

lemma three_threads_rel: "tl_rel {8, 16, 24} Map.empty three_threads"
  by (rule tl_relI) (auto simp: three_threads_def on_list_def)

theorem threadlist_refines_witness:
  "\<exists>h'. tl_execs [Init 0, Addtail 0 8, Addtail 0 16, Insertafter 0 8 24, Remtail 0, Remhead 0, Isempty 0] three_threads =
     (Ok [Nothing, Nothing, Nothing, Nothing, Thread (Some 16), Thread (Some 8), Flag False], h') \<and>
     tl_rel {8, 16, 24} [0 \<mapsto> [24]] h'"
  using threadlist_refines [OF three_threads_rel,
      of "[Init 0, Addtail 0 8, Addtail 0 16, Insertafter 0 8 24, Remtail 0, Remhead 0, Isempty 0]"]
  by (simp add: off_lists_def on_list_def insert_after_def)

end
