(* ===== verification/Kern_Spinlock.thy ===== *)
theory Kern_Spinlock
  imports Kern_Threadlist
begin

text \<open>
  Interrupt priority levels and spinlocks (\<open>kern/thread/spl.c\<close>, \<open>kern/thread/spinlock.c\<close> and the
  \<open>spinlock_data\<close> operations of \<open>arch/mips/include/spinlock.h\<close>). The functions run on the part of
  the kernel's state they use: the interrupt fields of the threads, the count of spinlocks and the
  interrupt enable bit of each processor, and the locks. \<open>cur\<close> is \<open>curthread\<close> and \<open>c\<close> is
  \<open>curcpu->c_self\<close>; the model starts when these exist.
\<close>

type_synonym cpuid = nat

definition IPL_NONE :: int where "IPL_NONE = 0"
definition IPL_HIGH :: int where "IPL_HIGH = 1"

lemmas ipl_defs = IPL_NONE_def IPL_HIGH_def

text \<open>The group ``Interrupt state fields'' of \<open>struct thread\<close>.\<close>

record intr_state =
  t_in_interrupt :: bool
  t_curspl :: int
  t_iplhigh_count :: int

record spinlock =
  splk_lock :: u32w
  splk_holder :: "cpuid option"

text \<open>\<open>irqs_on\<close> is the interrupt enable bit \<open>CST_IEc\<close> of the status register of a processor.\<close>

record 'k splstate =
  intr :: "tid \<Rightarrow> intr_state"
  c_spinlocks :: "cpuid \<Rightarrow> u32w"
  irqs_on :: "cpuid \<Rightarrow> bool"
  spinlocks :: "'k \<Rightarrow> spinlock"

subsection \<open>Interrupt priority levels\<close>

definition cpu_irqoff :: "cpuid \<Rightarrow> ('k splstate, unit) kfun" where
  "cpu_irqoff c = kmod (\<lambda>p. p\<lparr>irqs_on := (irqs_on p)(c := False)\<rparr>)"

definition cpu_irqon :: "cpuid \<Rightarrow> ('k splstate, unit) kfun" where
  "cpu_irqon c = kmod (\<lambda>p. p\<lparr>irqs_on := (irqs_on p)(c := True)\<rparr>)"

definition upd_intr :: "tid \<Rightarrow> (intr_state \<Rightarrow> intr_state) \<Rightarrow> ('k splstate, unit) kfun" where
  "upd_intr t f = kmod (\<lambda>p. p\<lparr>intr := (intr p)(t := f (intr p t))\<rparr>)"

definition splraise :: "tid \<Rightarrow> cpuid \<Rightarrow> int \<Rightarrow> int \<Rightarrow> ('k splstate, unit) kfun" where
  "splraise cur c oldspl newspl =
     kthen (kassert (\<lambda>_. oldspl = IPL_NONE))
       (kthen (kassert (\<lambda>_. newspl = IPL_HIGH))
          (kbind (kget (\<lambda>p. t_iplhigh_count (intr p cur))) (\<lambda>n.
             kthen (kwhen (n = 0) (cpu_irqoff c))
               (upd_intr cur (\<lambda>i. i\<lparr>t_iplhigh_count := t_iplhigh_count i + 1\<rparr>)))))"

definition spllower :: "tid \<Rightarrow> cpuid \<Rightarrow> int \<Rightarrow> int \<Rightarrow> ('k splstate, unit) kfun" where
  "spllower cur c oldspl newspl =
     kthen (kassert (\<lambda>_. oldspl = IPL_HIGH))
       (kthen (kassert (\<lambda>_. newspl = IPL_NONE))
          (kthen (upd_intr cur (\<lambda>i. i\<lparr>t_iplhigh_count := t_iplhigh_count i - 1\<rparr>))
             (kbind (kget (\<lambda>p. t_iplhigh_count (intr p cur))) (\<lambda>n.
                kwhen (n = 0) (cpu_irqon c)))))"

definition splx :: "tid \<Rightarrow> cpuid \<Rightarrow> int \<Rightarrow> ('k splstate, int) kfun" where
  "splx cur c spl =
     kbind (kget (\<lambda>p. t_curspl (intr p cur))) (\<lambda>curspl.
       if curspl < spl then
         kthen (splraise cur c curspl spl)
           (kbind (kget (\<lambda>p. t_curspl (intr p cur))) (\<lambda>ret.
              kthen (upd_intr cur (\<lambda>i. i\<lparr>t_curspl := spl\<rparr>)) (kret ret)))
       else if curspl > spl then
         kbind (kget (\<lambda>p. t_curspl (intr p cur))) (\<lambda>ret.
           kthen (upd_intr cur (\<lambda>i. i\<lparr>t_curspl := spl\<rparr>))
             (kthen (spllower cur c ret spl) (kret ret)))
       else kret spl)"

definition spl0 :: "tid \<Rightarrow> cpuid \<Rightarrow> ('k splstate, int) kfun" where
  "spl0 cur c = splx cur c IPL_NONE"

definition splhigh :: "tid \<Rightarrow> cpuid \<Rightarrow> ('k splstate, int) kfun" where
  "splhigh cur c = splx cur c IPL_HIGH"

subsection \<open>Spinlocks\<close>

definition upd_lock :: "'k \<Rightarrow> (spinlock \<Rightarrow> spinlock) \<Rightarrow> ('k splstate, unit) kfun" where
  "upd_lock k f = kmod (\<lambda>p. p\<lparr>spinlocks := (spinlocks p)(k := f (spinlocks p k))\<rparr>)"

definition spinlock_data_set :: "'k \<Rightarrow> u32w \<Rightarrow> ('k splstate, unit) kfun" where
  "spinlock_data_set k v = upd_lock k (\<lambda>l. l\<lparr>splk_lock := v\<rparr>)"

definition spinlock_data_get :: "'k \<Rightarrow> ('k splstate, u32w) kfun" where
  "spinlock_data_get k = kget (\<lambda>p. splk_lock (spinlocks p k))"

text \<open>The store conditional succeeds: nothing else runs between the two instructions.\<close>

definition spinlock_data_testandset :: "'k \<Rightarrow> ('k splstate, u32w) kfun" where
  "spinlock_data_testandset k =
     kbind (kget (\<lambda>p. splk_lock (spinlocks p k))) (\<lambda>x.
       kthen (upd_lock k (\<lambda>l. l\<lparr>splk_lock := 1\<rparr>)) (kret x))"

definition spinlock_init :: "'k \<Rightarrow> ('k splstate, unit) kfun" where
  "spinlock_init k = kthen (spinlock_data_set k 0) (upd_lock k (\<lambda>l. l\<lparr>splk_holder := None\<rparr>))"

definition spinlock_cleanup :: "'k \<Rightarrow> ('k splstate, unit) kfun" where
  "spinlock_cleanup k =
     kthen (kassert (\<lambda>p. splk_holder (spinlocks p k) = None))
       (kbind (spinlock_data_get k) (\<lambda>v. kassert (\<lambda>_. v = 0)))"

definition spinlock_acquire :: "tid \<Rightarrow> cpuid \<Rightarrow> 'k \<Rightarrow> ('k splstate, unit) kfun" where
  "spinlock_acquire cur c k =
     kthen (splraise cur c IPL_NONE IPL_HIGH)
       (kbind (kget (\<lambda>p. splk_holder (spinlocks p k))) (\<lambda>h.
          kthen (if h = Some c then kpanic else kret ())
            (kthen (kmod (\<lambda>p. p\<lparr>c_spinlocks := (c_spinlocks p)(c := c_spinlocks p c + 1)\<rparr>))
               (kthen
                  (kloop (\<lambda>_. kbind (spinlock_data_get k) (\<lambda>v.
                     if v \<noteq> 0 then kret (Inl ())
                     else kbind (spinlock_data_testandset k) (\<lambda>v.
                       if v \<noteq> 0 then kret (Inl ()) else kret (Inr ())))) ())
                  (upd_lock k (\<lambda>l. l\<lparr>splk_holder := Some c\<rparr>))))))"

definition spinlock_release :: "tid \<Rightarrow> cpuid \<Rightarrow> 'k \<Rightarrow> ('k splstate, unit) kfun" where
  "spinlock_release cur c k =
     kthen (kassert (\<lambda>p. splk_holder (spinlocks p k) = Some c))
       (kthen (kassert (\<lambda>p. c_spinlocks p c > 0))
          (kthen (kmod (\<lambda>p. p\<lparr>c_spinlocks := (c_spinlocks p)(c := c_spinlocks p c - 1)\<rparr>))
             (kthen (upd_lock k (\<lambda>l. l\<lparr>splk_holder := None\<rparr>))
                (kthen (spinlock_data_set k 0)
                   (spllower cur c IPL_HIGH IPL_NONE)))))"

definition spinlock_do_i_hold :: "cpuid \<Rightarrow> 'k \<Rightarrow> ('k splstate, bool) kfun" where
  "spinlock_do_i_hold c k = kget (\<lambda>p. splk_holder (spinlocks p k) = Some c)"

lemmas spl_defs = cpu_irqoff_def cpu_irqon_def upd_intr_def upd_lock_def spinlock_data_set_def
  spinlock_data_get_def spinlock_data_testandset_def splraise_def spllower_def ipl_defs

subsection \<open>The invariant of interrupt state and locks\<close>

text \<open>
  Processor \<open>c\<close> runs thread \<open>cur\<close> and holds exactly the locks \<open>held\<close> (eight at most); nobody else
  holds a lock. The count of raises is the priority level plus the number of locks held, and
  interrupts are enabled exactly when it is 0.
\<close>

definition lock_of :: "cpuid \<Rightarrow> 'k list \<Rightarrow> 'k \<Rightarrow> spinlock" where
  "lock_of c held k = (if k \<in> set held then \<lparr>splk_lock = 1, splk_holder = Some c\<rparr> else \<lparr>splk_lock = 0, splk_holder = None\<rparr>)"

definition spl_ok :: "tid \<Rightarrow> cpuid \<Rightarrow> 'k list \<Rightarrow> 'k splstate \<Rightarrow> bool" where
  "spl_ok cur c held p \<longleftrightarrow> t_curspl (intr p cur) \<in> {IPL_NONE, IPL_HIGH} \<and>
     t_iplhigh_count (intr p cur) = t_curspl (intr p cur) + int (length held) \<and>
     c_spinlocks p c = of_nat (length held) \<and> irqs_on p c = (t_iplhigh_count (intr p cur) = 0) \<and>
     distinct held \<and> length held \<le> 8 \<and> spinlocks p = lock_of c held"

text \<open>What the functions leave alone.\<close>

definition spl_frame :: "tid \<Rightarrow> cpuid \<Rightarrow> 'k splstate \<Rightarrow> 'k splstate \<Rightarrow> bool" where
  "spl_frame cur c p p' \<longleftrightarrow> (\<forall>t. t \<noteq> cur \<longrightarrow> intr p' t = intr p t) \<and>
     t_in_interrupt (intr p' cur) = t_in_interrupt (intr p cur) \<and>
     (\<forall>c'. c' \<noteq> c \<longrightarrow> irqs_on p' c' = irqs_on p c' \<and> c_spinlocks p' c' = c_spinlocks p c')"

lemma spl_frame_refl [simp]: "spl_frame cur c p p"
  by (simp add: spl_frame_def)

lemma spl_frame_trans: "spl_frame cur c p q \<Longrightarrow> spl_frame cur c q r \<Longrightarrow> spl_frame cur c p r"
  by (auto simp: spl_frame_def)

lemma spinlock_acquire_wp:
  assumes ok: "spl_ok cur c held p" and k: "k \<notin> set held" "length held < 8"
    and Q: "\<And>p'. spl_ok cur c (k # held) p' \<Longrightarrow> spl_frame cur c p p' \<Longrightarrow>
      t_curspl (intr p' cur) = t_curspl (intr p cur) \<Longrightarrow> Q () p'"
  shows "wp (spinlock_acquire cur c k) Q E p"
proof -
  have lk: "spinlocks p k = \<lparr>splk_lock = 0, splk_holder = None\<rparr>" using ok k by (simp add: spl_ok_def lock_of_def)
  have loop: "wp (kloop (\<lambda>_. kbind (spinlock_data_get k) (\<lambda>v. if v \<noteq> 0 then kret (Inl ())
        else kbind (spinlock_data_testandset k) (\<lambda>v. if v \<noteq> 0 then kret (Inl ()) else kret (Inr ())))) ()) R E q"
    if "splk_lock (spinlocks q k) = 0" "R () (q\<lparr>spinlocks := (spinlocks q)(k := (spinlocks q k)\<lparr>splk_lock := 1\<rparr>)\<rparr>)" for q and R :: "unit \<Rightarrow> 'a splstate \<Rightarrow> bool"
    by (rule wp_kloop [where I = "\<lambda>n _ q'. q' = q" and n = 0]) (use that in \<open>auto simp: spl_defs\<close>)
  let ?p = "p\<lparr>irqs_on := (irqs_on p)(c := False),
      intr := (intr p)(cur := (intr p cur)\<lparr>t_iplhigh_count := t_iplhigh_count (intr p cur) + 1\<rparr>),
      c_spinlocks := (c_spinlocks p)(c := c_spinlocks p c + 1),
      spinlocks := (spinlocks p)(k := \<lparr>splk_lock = 1, splk_holder = Some c\<rparr>)\<rparr>"
  have "spinlocks ?p = lock_of c (k # held)" using ok by (auto simp: spl_ok_def lock_of_def fun_eq_iff)
  then have "Q () ?p" using ok k by (intro Q) (auto simp: spl_ok_def spl_frame_def ipl_defs)
  moreover have "irqs_on p c \<longleftrightarrow> t_iplhigh_count (intr p cur) = 0" using ok by (simp add: spl_ok_def)
  then have "\<not> t_iplhigh_count (intr p cur) = 0 \<Longrightarrow> (irqs_on p)(c := False) = irqs_on p" by (auto simp: fun_eq_iff)
  ultimately show ?thesis
    using lk unfolding spinlock_acquire_def
    by (cases "t_iplhigh_count (intr p cur) = 0") (auto simp: splraise_def cpu_irqoff_def upd_intr_def upd_lock_def ipl_defs intro!: loop)
qed


lemma spinlock_release_wp:
  assumes ok: "spl_ok cur c held p" and k: "k \<in> set held"
    and Q: "\<And>p'. spl_ok cur c (remove1 k held) p' \<Longrightarrow> spl_frame cur c p p' \<Longrightarrow>
      t_curspl (intr p' cur) = t_curspl (intr p cur) \<Longrightarrow> Q () p'"
  shows "wp (spinlock_release cur c k) Q E p"
proof -
  let ?n = "t_iplhigh_count (intr p cur) - 1"
  let ?p = "p\<lparr>c_spinlocks := (c_spinlocks p)(c := c_spinlocks p c - 1),
      spinlocks := (spinlocks p)(k := \<lparr>splk_lock = 0, splk_holder = None\<rparr>),
      intr := (intr p)(cur := (intr p cur)\<lparr>t_iplhigh_count := ?n\<rparr>),
      irqs_on := (irqs_on p)(c := (?n = 0))\<rparr>"
  have lk: "spinlocks p k = \<lparr>splk_lock = 1, splk_holder = Some c\<rparr>" using ok k by (simp add: spl_ok_def lock_of_def)
  have pos: "1 \<le> length held" "length held \<le> 8" using k ok by (cases held; simp add: spl_ok_def)+
  have cnt: "c_spinlocks p c = of_nat (length held)" using ok by (simp add: spl_ok_def)
  have gt: "0 < c_spinlocks p c"
    using pos(2) k by (auto simp: cnt word_less_nat_alt unat_of_nat take_bit_nat_eq_self)
  have "spinlocks ?p = lock_of c (remove1 k held)" using ok by (auto simp: spl_ok_def lock_of_def fun_eq_iff)
  moreover have "of_nat (length (remove1 k held)) = c_spinlocks p c - 1"
    using pos k by (simp add: cnt length_remove1)
  moreover have "int (length (remove1 k held)) = int (length held) - 1" using pos k by (simp add: length_remove1)
  ultimately have "Q () ?p" using ok k pos by (intro Q) (auto simp: spl_ok_def spl_frame_def length_remove1)
  moreover have "?n \<noteq> 0 \<Longrightarrow> (irqs_on p)(c := (?n = 0)) = irqs_on p"
    using ok pos by (auto simp: spl_ok_def fun_eq_iff ipl_defs)
  ultimately show ?thesis
    using lk gt by (cases "?n = 0") (auto simp: spinlock_release_def spl_defs)
qed

lemma splx_wp:
  assumes ok: "spl_ok cur c held p" and spl: "spl \<in> {IPL_NONE, IPL_HIGH}"
    and Q: "\<And>p'. spl_ok cur c held p' \<Longrightarrow> spl_frame cur c p p' \<Longrightarrow> t_curspl (intr p' cur) = spl \<Longrightarrow>
      Q (t_curspl (intr p cur)) p'"
  shows "wp (splx cur c spl) Q E p"
proof -
  let ?i = "intr p cur"
  have i: "t_curspl ?i = 0 \<or> t_curspl ?i = 1" "irqs_on p c = (t_iplhigh_count ?i = 0)"
      "t_iplhigh_count ?i = t_curspl ?i + int (length held)"
    using ok by (auto simp: spl_ok_def ipl_defs)
  consider (same) "t_curspl ?i = spl" | (up) "t_curspl ?i = 0" "spl = 1" | (down) "t_curspl ?i = 1" "spl = 0"
    using i(1) spl by (auto simp: ipl_defs)
  then show ?thesis
  proof cases
    case same
    then show ?thesis using Q [OF ok spl_frame_refl] by (simp add: splx_def)
  next
    case up
    let ?p = "p\<lparr>irqs_on := (irqs_on p)(c := False),
      intr := (intr p)(cur := ?i\<lparr>t_iplhigh_count := t_iplhigh_count ?i + 1, t_curspl := 1\<rparr>)\<rparr>"
    have "Q 0 ?p" using Q [of ?p] ok up by (auto simp: spl_ok_def spl_frame_def ipl_defs)
    moreover have "t_iplhigh_count ?i \<noteq> 0 \<Longrightarrow> (irqs_on p)(c := False) = irqs_on p" using i(2) by (auto simp: fun_eq_iff)
    ultimately show ?thesis using up
      by (cases "t_iplhigh_count ?i = 0") (auto simp: splx_def spl_defs)
  next
    case down
    let ?n = "t_iplhigh_count ?i - 1"
    let ?p = "p\<lparr>intr := (intr p)(cur := ?i\<lparr>t_curspl := 0, t_iplhigh_count := ?n\<rparr>),
      irqs_on := (irqs_on p)(c := (?n = 0))\<rparr>"
    have "Q 1 ?p" using Q [of ?p] ok down by (auto simp: spl_ok_def spl_frame_def ipl_defs)
    moreover have "?n \<noteq> 0 \<Longrightarrow> (irqs_on p)(c := (?n = 0)) = irqs_on p" using i down by (auto simp: fun_eq_iff)
    ultimately show ?thesis using down
      by (cases "?n = 0") (auto simp: splx_def spl_defs)
  qed
qed

lemma splhigh_wp:
  assumes "spl_ok cur c held p"
    and "\<And>p'. spl_ok cur c held p' \<Longrightarrow> spl_frame cur c p p' \<Longrightarrow> t_curspl (intr p' cur) = IPL_HIGH \<Longrightarrow>
      Q (t_curspl (intr p cur)) p'"
  shows "wp (splhigh cur c) Q E p"
  unfolding splhigh_def by (rule splx_wp [OF assms(1)]) (use assms(2) in auto)

lemma spinlock_do_i_hold_wp:
  assumes "spl_ok cur c held p" "Q (k \<in> set held) p"
  shows "wp (spinlock_do_i_hold c k) Q E p"
  using assms by (auto simp: spinlock_do_i_hold_def spl_ok_def lock_of_def)

text \<open>
  A processor that takes a lock it already holds panics; one that finds the lock taken by another
  spins for as long as nothing else runs.
\<close>

lemma spinlock_acquire_again:
  assumes "spl_ok cur c held p" "k \<in> set held"
  shows "fst (spinlock_acquire cur c k p) = Panic"
  using assms by (simp add: spinlock_acquire_def spl_ok_def lock_of_def spl_defs kfun_defs)

end
