(* ===== verification/Kern_Thread.thy ===== *)
theory Kern_Thread
  imports Kern_Spinlock
begin

text \<open>
  The thread system: \<open>kern/thread/thread.c\<close>, the thread part of \<open>kern/proc/proc.c\<close>,
  semaphores (\<open>kern/thread/synch.c\<close>), the clock (\<open>kern/thread/clock.c\<close>), the interrupt part of
  \<open>mips_trap\<close> and \<open>as_activate\<close> of \<open>dumbvm.c\<close>.

  The state of the machine holds every thread, processor, thread list, wait channel, semaphore and
  process. A function of the kernel takes \<open>curthread\<close> as its first argument \<open>cur\<close>; as on the MIPS,
  \<open>curcpu\<close> is \<open>curthread->t_cpu\<close>. A call that gives up the processor cannot return in its caller,
  so what is left to do on the stack of the thread is written down as frames in \<open>t_context\<close>: it is
  done when the thread runs again.
\<close>

subsection \<open>State\<close>

datatype lockid = RunqueueLock cpuid | IpiLock cpuid | SemLock nat | LboltLock | ProcLock nat

text \<open>\<open>LocalList t\<close> is a \<open>struct threadlist\<close> that is a local variable of a call made by \<open>t\<close>.\<close>

datatype listid = Runqueue cpuid | Zombies cpuid | WcThreads nat | LocalList tid

datatype threadstate = S_RUN | S_READY | S_SLEEP | S_ZOMBIE

text \<open>
  The calls that can be on the kernel stack of a thread that does not run, innermost first:
  \<open>thread_switch\<close> at the call of \<open>switchframe_switch\<close> with its local \<open>spl\<close>; \<open>mips_threadstart\<close> of
  a new thread with the entry point and its arguments; the entry point called from
  \<open>thread_startup\<close>; \<open>P\<close> and \<open>clocksleep\<close> in \<open>wchan_sleep\<close>; the interrupt branch of \<open>mips_trap\<close>
  with \<open>old_in\<close> and \<open>doadjust\<close>; \<open>thread_exit\<close>.
\<close>

datatype frame =
    InSwitch int | ToStartup nat nat nat | InEntry nat nat nat | InP nat | InClocksleep int
  | InIrq bool bool | InExit

record thread =
  t_name :: string
  t_wchan_name :: "string option"
  t_state :: threadstate
  t_stack :: "u32w list option"
  t_context :: "frame list"
  t_cpu :: "cpuid option"
  t_proc :: "nat option"

record cpu =
  c_number :: nat
  c_hardware_number :: u32w
  c_curthread :: tid
  c_hardclocks :: u32w
  c_isidle :: bool
  c_ipi_pending :: u32w
  c_shootdown :: "int list"

record semaphore =
  sem_name :: string
  sem_wchan :: nat
  sem_count :: u32w

record proc =
  p_name :: string
  p_numthreads :: u32w
  p_addrspace :: "nat option"
  p_cwd :: "nat option"

text \<open>
  \<open>k_cpus\<close> is \<open>allcpus\<close>; \<open>k_wchans\<close> gives each wait channel its name; \<open>k_tlb\<close> is the TLB of each
  processor and \<open>k_ipiline\<close> its inter-processor interrupt line.
\<close>

record machine =
  k_spl :: "lockid splstate"
  k_lists :: "listid threadlists"
  k_threads :: "tid \<rightharpoonup> thread"
  k_cpus :: "cpu list"
  k_wchans :: "nat \<rightharpoonup> string"
  k_sems :: "nat \<rightharpoonup> semaphore"
  k_procs :: "nat \<rightharpoonup> proc"
  k_kproc :: nat
  k_lbolt :: nat
  k_tlb :: "cpuid \<Rightarrow> (u32w \<times> u32w) list"
  k_ipiline :: "cpuid \<Rightarrow> bool"

type_synonym 'a kern = "(machine, 'a) kfun"

definition on_spl :: "(lockid splstate, 'a) kfun \<Rightarrow> 'a kern" where
  "on_spl = kzoom k_spl (\<lambda>p s. s\<lparr>k_spl := p\<rparr>)"

definition on_lists :: "(listid threadlists, 'a) kfun \<Rightarrow> 'a kern" where
  "on_lists = kzoom k_lists (\<lambda>h s. s\<lparr>k_lists := h\<rparr>)"

definition on_thread :: "tid \<Rightarrow> (thread, 'a) kfun \<Rightarrow> 'a kern" where
  "on_thread t = kderef (\<lambda>s. k_threads s t) (\<lambda>v s. s\<lparr>k_threads := (k_threads s)(t \<mapsto> v)\<rparr>)"

definition on_cpu :: "cpuid \<Rightarrow> (cpu, 'a) kfun \<Rightarrow> 'a kern" where
  "on_cpu c = kderef (\<lambda>s. if c < length (k_cpus s) then Some (k_cpus s ! c) else None)
     (\<lambda>v s. s\<lparr>k_cpus := (k_cpus s)[c := v]\<rparr>)"

definition on_sem :: "nat \<Rightarrow> (semaphore, 'a) kfun \<Rightarrow> 'a kern" where
  "on_sem i = kderef (\<lambda>s. k_sems s i) (\<lambda>v s. s\<lparr>k_sems := (k_sems s)(i \<mapsto> v)\<rparr>)"

definition on_proc :: "nat \<Rightarrow> (proc, 'a) kfun \<Rightarrow> 'a kern" where
  "on_proc i = kderef (\<lambda>s. k_procs s i) (\<lambda>v s. s\<lparr>k_procs := (k_procs s)(i \<mapsto> v)\<rparr>)"

lemmas on_defs = on_spl_def on_lists_def on_thread_def on_cpu_def on_sem_def on_proc_def

definition curcpu :: "tid \<Rightarrow> cpuid kern" where
  "curcpu cur = kbind (on_thread cur (kget t_cpu)) knonnull"

definition acquire :: "tid \<Rightarrow> lockid \<Rightarrow> unit kern" where
  "acquire cur k = kbind (curcpu cur) (\<lambda>c. on_spl (spinlock_acquire cur c k))"

definition release :: "tid \<Rightarrow> lockid \<Rightarrow> unit kern" where
  "release cur k = kbind (curcpu cur) (\<lambda>c. on_spl (spinlock_release cur c k))"

definition do_i_hold :: "tid \<Rightarrow> lockid \<Rightarrow> bool kern" where
  "do_i_hold cur k = kbind (curcpu cur) (\<lambda>c. on_spl (spinlock_do_i_hold c k))"

definition set_spl :: "tid \<Rightarrow> int \<Rightarrow> int kern" where
  "set_spl cur i = kbind (curcpu cur) (\<lambda>c. on_spl (splx cur c i))"

text \<open>Entering and leaving calls on the stack of a thread.\<close>

definition push_frames :: "tid \<Rightarrow> frame list \<Rightarrow> unit kern" where
  "push_frames t fs = on_thread t (kmod (\<lambda>T. T\<lparr>t_context := fs @ t_context T\<rparr>))"

definition pop_frame :: "tid \<Rightarrow> unit kern" where
  "pop_frame t = on_thread t (kmod (\<lambda>T. T\<lparr>t_context := tl (t_context T)\<rparr>))"

subsection \<open>Processes\<close>

definition proc_addthread :: "tid \<Rightarrow> nat \<Rightarrow> tid \<Rightarrow> unit kern" where
  "proc_addthread cur p t =
     kbind (on_thread t (kget t_proc)) (\<lambda>tp. kthen (kassert (\<lambda>_. tp = None))
       (kthen (acquire cur (ProcLock p))
          (kthen (on_proc p (kmod (\<lambda>P. P\<lparr>p_numthreads := p_numthreads P + 1\<rparr>)))
             (kthen (release cur (ProcLock p))
                (kbind (set_spl cur IPL_HIGH) (\<lambda>spl.
                   kthen (on_thread t (kmod (\<lambda>T. T\<lparr>t_proc := Some p\<rparr>)))
                     (kthen (set_spl cur spl) (kret ()))))))))"

definition proc_remthread :: "tid \<Rightarrow> tid \<Rightarrow> unit kern" where
  "proc_remthread cur t =
     kbind (on_thread t (kget t_proc)) (\<lambda>tp. kbind (knonnull tp) (\<lambda>p.
       kthen (acquire cur (ProcLock p))
         (kthen (on_proc p (kassert (\<lambda>P. p_numthreads P > 0)))
            (kthen (on_proc p (kmod (\<lambda>P. P\<lparr>p_numthreads := p_numthreads P - 1\<rparr>)))
               (kthen (release cur (ProcLock p))
                  (kbind (set_spl cur IPL_HIGH) (\<lambda>spl.
                     kthen (on_thread t (kmod (\<lambda>T. T\<lparr>t_proc := None\<rparr>)))
                       (kthen (set_spl cur spl) (kret ())))))))))"

definition proc_getas :: "tid \<Rightarrow> nat option kern" where
  "proc_getas cur =
     kbind (on_thread cur (kget t_proc)) (\<lambda>tp.
       case tp of
         None \<Rightarrow> kret None
       | Some p \<Rightarrow>
           kthen (acquire cur (ProcLock p))
             (kbind (on_proc p (kget p_addrspace)) (\<lambda>as.
                kthen (release cur (ProcLock p)) (kret as))))"

definition proc_setas :: "tid \<Rightarrow> nat option \<Rightarrow> nat option kern" where
  "proc_setas cur newas =
     kbind (on_thread cur (kget t_proc)) (\<lambda>tp. kbind (knonnull tp) (\<lambda>p.
       kthen (acquire cur (ProcLock p))
         (kbind (on_proc p (kget p_addrspace)) (\<lambda>oldas.
            kthen (on_proc p (kmod (\<lambda>P. P\<lparr>p_addrspace := newas\<rparr>)))
              (kthen (release cur (ProcLock p)) (kret oldas))))))"

definition NUM_TLB :: nat where "NUM_TLB = 64"

definition TLBHI_INVALID :: "nat \<Rightarrow> u32w" where
  "TLBHI_INVALID entryno = push_bit 12 (0x80000 + of_nat entryno)"

definition TLBLO_INVALID :: u32w where "TLBLO_INVALID = 0"

definition as_activate :: "tid \<Rightarrow> unit kern" where
  "as_activate cur =
     kbind (proc_getas cur) (\<lambda>as.
       if as = None then kret ()
       else kbind (set_spl cur IPL_HIGH) (\<lambda>spl.
         kbind (curcpu cur) (\<lambda>c.
           kthen (kmod (\<lambda>s. s\<lparr>k_tlb := (k_tlb s)(c := map (\<lambda>i. (TLBHI_INVALID i, TLBLO_INVALID)) [0 ..< NUM_TLB])\<rparr>))
             (kthen (set_spl cur spl) (kret ())))))"


text \<open>\<open>np\<close> is the block \<open>kmalloc\<close> returns, \<open>kstrdup_ok\<close> says whether \<open>kstrdup\<close> succeeds.\<close>

definition proc_create :: "string \<Rightarrow> nat option \<Rightarrow> bool \<Rightarrow> nat option kern" where
  "proc_create name np kstrdup_ok =
     (case np of
        None \<Rightarrow> kret None
      | Some p \<Rightarrow>
          if \<not> kstrdup_ok then kret None
          else kthen (kmod (\<lambda>s. s\<lparr>k_procs := (k_procs s)(p \<mapsto>
                   \<lparr>p_name = name, p_numthreads = 0, p_addrspace = None, p_cwd = None\<rparr>)\<rparr>))
                 (kthen (on_spl (spinlock_init (ProcLock p))) (kret (Some p))))"

subsection \<open>Threads\<close>

definition THREAD_STACK_MAGIC :: u32w where "THREAD_STACK_MAGIC = 0xbaadf00d"

text \<open>The four words at the bottom end of the stack are the part of it the model keeps.\<close>

definition thread_checkstack_init :: "tid \<Rightarrow> unit kern" where
  "thread_checkstack_init t =
     kthen (on_thread t (kassert (\<lambda>T. t_stack T \<noteq> None)))
       (on_thread t (kmod (\<lambda>T. T\<lparr>t_stack := Some (replicate 4 THREAD_STACK_MAGIC)\<rparr>)))"

definition thread_checkstack :: "tid \<Rightarrow> unit kern" where
  "thread_checkstack t =
     kbind (on_thread t (kget t_stack)) (\<lambda>st.
       case st of
         None \<Rightarrow> kret ()
       | Some ws \<Rightarrow> kassert (\<lambda>_. ws = replicate 4 THREAD_STACK_MAGIC))"

text \<open>\<open>nt\<close> is the block \<open>kmalloc\<close> returns for the structure.\<close>

definition thread_create :: "string \<Rightarrow> tid option \<Rightarrow> bool \<Rightarrow> tid option kern" where
  "thread_create name nt kstrdup_ok =
     (case nt of
        None \<Rightarrow> kret None
      | Some t \<Rightarrow>
          if \<not> kstrdup_ok then kret None
          else kthen (kmod (\<lambda>s. s\<lparr>k_threads := (k_threads s)(t \<mapsto>
                   \<lparr>t_name = name, t_wchan_name = Some ''NEW'', t_state = S_READY, t_stack = None,
                    t_context = [], t_cpu = None, t_proc = None\<rparr>)\<rparr>))
                 (kthen (on_lists (threadlistnode_init t))
                    (kthen (on_spl (upd_intr t (\<lambda>_. \<lparr>t_in_interrupt = False, t_curspl = IPL_HIGH, t_iplhigh_count = 1\<rparr>)))
                       (kret (Some t)))))"

definition thread_destroy :: "tid \<Rightarrow> tid \<Rightarrow> unit kern" where
  "thread_destroy cur t =
     kthen (kassert (\<lambda>_. t \<noteq> cur))
       (kthen (on_thread t (kassert (\<lambda>T. t_state T \<noteq> S_RUN)))
          (kthen (on_thread t (kassert (\<lambda>T. t_proc T = None)))
             (kthen (on_lists (threadlistnode_cleanup t))
                (kmod (\<lambda>s. s\<lparr>k_threads := (k_threads s)(t := None)\<rparr>)))))"

definition exorcise :: "tid \<Rightarrow> unit kern" where
  "exorcise cur = kloop (\<lambda>_.
     kbind (curcpu cur) (\<lambda>c.
       kbind (on_lists (threadlist_remhead (Zombies c))) (\<lambda>z.
         case z of
           None \<Rightarrow> kret (Inr ())
         | Some z \<Rightarrow>
             kthen (kassert (\<lambda>_. z \<noteq> cur))
               (kthen (on_thread z (kassert (\<lambda>T. t_state T = S_ZOMBIE)))
                  (kthen (thread_destroy cur z) (kret (Inl ()))))))) ()"

subsection \<open>Inter-processor interrupts\<close>

definition IPI_PANIC :: nat where "IPI_PANIC = 0"
definition IPI_OFFLINE :: nat where "IPI_OFFLINE = 1"
definition IPI_UNIDLE :: nat where "IPI_UNIDLE = 2"
definition IPI_TLBSHOOTDOWN :: nat where "IPI_TLBSHOOTDOWN = 3"
definition TLBSHOOTDOWN_MAX :: nat where "TLBSHOOTDOWN_MAX = 16"

definition mainbus_send_ipi :: "cpuid \<Rightarrow> unit kern" where
  "mainbus_send_ipi c = kmod (\<lambda>s. s\<lparr>k_ipiline := (k_ipiline s)(c := True)\<rparr>)"

definition ipi_send :: "tid \<Rightarrow> cpuid \<Rightarrow> nat \<Rightarrow> unit kern" where
  "ipi_send cur target code =
     kthen (kassert (\<lambda>_. code < 32))
       (kthen (acquire cur (IpiLock target))
          (kthen (on_cpu target (kmod (\<lambda>C. C\<lparr>c_ipi_pending := c_ipi_pending C OR push_bit code 1\<rparr>)))
             (kthen (mainbus_send_ipi target)
                (release cur (IpiLock target)))))"

primrec ipi_broadcast_from :: "tid \<Rightarrow> nat \<Rightarrow> cpuid list \<Rightarrow> unit kern" where
  "ipi_broadcast_from cur code [] = kret ()"
| "ipi_broadcast_from cur code (i # is) =
     kbind (curcpu cur) (\<lambda>c.
       kthen (kwhen (i \<noteq> c) (ipi_send cur i code)) (ipi_broadcast_from cur code is))"

definition ipi_broadcast :: "tid \<Rightarrow> nat \<Rightarrow> unit kern" where
  "ipi_broadcast cur code =
     kbind (kget (\<lambda>s. length (k_cpus s))) (\<lambda>n. ipi_broadcast_from cur code [0 ..< n])"

definition ipi_tlbshootdown :: "tid \<Rightarrow> cpuid \<Rightarrow> int \<Rightarrow> unit kern" where
  "ipi_tlbshootdown cur target mapping =
     kthen (acquire cur (IpiLock target))
       (kbind (on_cpu target (kget c_shootdown)) (\<lambda>q.
          kthen (if length q = TLBSHOOTDOWN_MAX then kpanic
                 else on_cpu target (kmod (\<lambda>C. C\<lparr>c_shootdown := q @ [mapping]\<rparr>)))
            (kthen (on_cpu target (kmod (\<lambda>C. C\<lparr>c_ipi_pending := c_ipi_pending C OR push_bit IPI_TLBSHOOTDOWN 1\<rparr>)))
               (kthen (mainbus_send_ipi target)
                  (release cur (IpiLock target))))))"

text \<open>\<open>vm_tlbshootdown\<close> of \<open>dumbvm.c\<close> panics; \<open>cpu_halt\<close> does not return.\<close>

definition vm_tlbshootdown :: "int \<Rightarrow> unit kern" where
  "vm_tlbshootdown ts = kpanic"

primrec tlbshootdowns :: "int list \<Rightarrow> unit kern" where
  "tlbshootdowns [] = kret ()"
| "tlbshootdowns (ts # tss) = kthen (vm_tlbshootdown ts) (tlbshootdowns tss)"

definition interprocessor_interrupt :: "tid \<Rightarrow> unit kern" where
  "interprocessor_interrupt cur =
     kbind (curcpu cur) (\<lambda>c.
       kthen (acquire cur (IpiLock c))
         (kbind (on_cpu c (kget c_ipi_pending)) (\<lambda>bits.
            kthen (kwhen (bit bits IPI_PANIC) (kthen (release cur (IpiLock c)) khang))
              (kthen (kwhen (bit bits IPI_OFFLINE)
                        (kthen (release cur (IpiLock c))
                           (kthen (acquire cur (RunqueueLock c))
                              (kthen (release cur (RunqueueLock c)) khang))))
                 (kthen (kwhen (bit bits IPI_TLBSHOOTDOWN)
                           (kbind (on_cpu c (kget c_shootdown)) (\<lambda>q.
                              kthen (tlbshootdowns q) (on_cpu c (kmod (\<lambda>C. C\<lparr>c_shootdown := []\<rparr>))))))
                    (kthen (on_cpu c (kmod (\<lambda>C. C\<lparr>c_ipi_pending := 0\<rparr>)))
                       (release cur (IpiLock c))))))))"

subsection \<open>Making threads runnable; the context switch\<close>

definition thread_make_runnable :: "tid \<Rightarrow> tid \<Rightarrow> bool \<Rightarrow> unit kern" where
  "thread_make_runnable cur target already_have_lock =
     kbind (on_thread target (kget t_cpu)) (\<lambda>tc. kbind (knonnull tc) (\<lambda>targetcpu.
       kthen (if already_have_lock
              then kbind (do_i_hold cur (RunqueueLock targetcpu)) (\<lambda>b. kassert (\<lambda>_. b))
              else acquire cur (RunqueueLock targetcpu))
         (kthen (on_thread target (kmod (\<lambda>T. T\<lparr>t_state := S_READY\<rparr>)))
            (kthen (on_lists (threadlist_addtail (Runqueue targetcpu) target))
               (kbind (on_cpu targetcpu (kget c_isidle)) (\<lambda>idle.
                  kbind (curcpu cur) (\<lambda>c.
                    kthen (kwhen (idle \<and> targetcpu \<noteq> c) (ipi_send cur targetcpu IPI_UNIDLE))
                      (kwhen (\<not> already_have_lock) (release cur (RunqueueLock targetcpu))))))))))"

text \<open>
  The end of \<open>thread_switch\<close>, in the thread that was switched to, and the beginning of
  \<open>thread_startup\<close> in a new one.
\<close>

definition thread_resume :: "tid \<Rightarrow> unit kern" where
  "thread_resume cur =
     kbind (on_thread cur (kget t_context)) (\<lambda>ctx.
       kthen (pop_frame cur)
         (kthen (on_thread cur (kmod (\<lambda>T. T\<lparr>t_wchan_name := None\<rparr>)))
            (kthen (on_thread cur (kmod (\<lambda>T. T\<lparr>t_state := S_RUN\<rparr>)))
               (kbind (curcpu cur) (\<lambda>c.
                  kthen (release cur (RunqueueLock c))
                    (kthen (as_activate cur)
                       (kthen (exorcise cur)
                          (case ctx of
                             InSwitch spl # _ \<Rightarrow> kthen (set_spl cur spl) (kret ())
                           | ToStartup e d1 d2 # _ \<Rightarrow>
                               kthen (set_spl cur IPL_NONE) (push_frames cur [InEntry e d1 d2])
                           | _ \<Rightarrow> kpanic))))))))"

text \<open>
  One round of the loop that looks for the next thread, the run queue locked. Without a thread the
  processor idles: it stays in the loop, with the run queue unlocked, until \<open>cpu_idle\<close> returns.
\<close>

definition thread_switch_next :: "tid \<Rightarrow> unit kern" where
  "thread_switch_next cur =
     kbind (curcpu cur) (\<lambda>c.
       kbind (on_lists (threadlist_remhead (Runqueue c))) (\<lambda>next.
         case next of
           None \<Rightarrow> release cur (RunqueueLock c)
         | Some next \<Rightarrow>
             kthen (on_cpu c (kmod (\<lambda>C. C\<lparr>c_isidle := False\<rparr>)))
               (kthen (on_cpu c (kmod (\<lambda>C. C\<lparr>c_curthread := next\<rparr>)))
                  (thread_resume next))))"

definition thread_switch_idle :: "tid \<Rightarrow> unit kern" where
  "thread_switch_idle cur =
     kbind (curcpu cur) (\<lambda>c. kthen (acquire cur (RunqueueLock c)) (thread_switch_next cur))"

text \<open>
  The \<open>switch\<close> statement that puts the thread in the right place; \<open>wl\<close> is the wait channel and its
  lock, for \<open>S_SLEEP\<close>.
\<close>

definition thread_enqueue :: "tid \<Rightarrow> cpuid \<Rightarrow> threadstate \<Rightarrow> (nat \<times> lockid) option \<Rightarrow> unit kern" where
  "thread_enqueue cur c newstate wl =
     (case newstate of
        S_RUN \<Rightarrow> kpanic
      | S_READY \<Rightarrow> thread_make_runnable cur cur True
      | S_SLEEP \<Rightarrow>
          kbind (knonnull wl) (\<lambda>(w, lk).
            kbind (kget (\<lambda>s. k_wchans s w)) (\<lambda>wo. kbind (knonnull wo) (\<lambda>wc_name.
              kthen (on_thread cur (kmod (\<lambda>T. T\<lparr>t_wchan_name := Some wc_name\<rparr>)))
                (kthen (on_lists (threadlist_addtail (WcThreads w) cur))
                   (release cur lk)))))
      | S_ZOMBIE \<Rightarrow>
          kthen (on_thread cur (kmod (\<lambda>T. T\<lparr>t_wchan_name := Some ''ZOMBIE''\<rparr>)))
            (on_lists (threadlist_addtail (Zombies c) cur)))"

text \<open>\<open>fs\<close> are the calls to come back to.\<close>

definition thread_switch :: "tid \<Rightarrow> threadstate \<Rightarrow> (nat \<times> lockid) option \<Rightarrow> frame list \<Rightarrow> unit kern" where
  "thread_switch cur newstate wl fs =
     kbind (set_spl cur IPL_HIGH) (\<lambda>spl.
       kbind (curcpu cur) (\<lambda>c.
         kbind (on_cpu c (kget c_isidle)) (\<lambda>idle.
           if idle then kthen (set_spl cur spl) (push_frames cur fs)
           else
             kthen (thread_checkstack cur)
               (kthen (acquire cur (RunqueueLock c))
                  (kbind (on_lists (threadlist_isempty (Runqueue c))) (\<lambda>empty.
                     if newstate = S_READY \<and> empty then
                       kthen (release cur (RunqueueLock c))
                         (kthen (set_spl cur spl) (push_frames cur fs))
                     else
                       kthen (thread_enqueue cur c newstate wl)
                         (kthen (on_thread cur (kmod (\<lambda>T. T\<lparr>t_state := newstate\<rparr>)))
                            (kthen (push_frames cur (InSwitch spl # fs))
                               (kthen (on_cpu c (kmod (\<lambda>C. C\<lparr>c_isidle := True\<rparr>)))
                                  (thread_switch_next cur))))))))))"

definition thread_yield :: "tid \<Rightarrow> unit kern" where
  "thread_yield cur = thread_switch cur S_READY None []"

definition thread_exit :: "tid \<Rightarrow> unit kern" where
  "thread_exit cur =
     kthen (proc_remthread cur cur)
       (kthen (on_thread cur (kassert (\<lambda>T. t_proc T = None)))
          (kthen (thread_checkstack cur)
             (kthen (set_spl cur IPL_HIGH)
                (thread_switch cur S_ZOMBIE None [InExit]))))"


definition switchframe_init :: "tid \<Rightarrow> nat \<Rightarrow> nat \<Rightarrow> nat \<Rightarrow> unit kern" where
  "switchframe_init t entrypoint data1 data2 =
     on_thread t (kmod (\<lambda>T. T\<lparr>t_context := [ToStartup entrypoint data1 data2]\<rparr>))"

text \<open>\<open>stack_ok\<close> says whether \<open>kmalloc\<close> of the stack succeeds.\<close>

definition thread_fork ::
    "tid \<Rightarrow> string \<Rightarrow> nat option \<Rightarrow> nat \<Rightarrow> nat \<Rightarrow> nat \<Rightarrow> tid option \<Rightarrow> bool \<Rightarrow> bool \<Rightarrow> unit kern" where
  "thread_fork cur name proc entrypoint data1 data2 nt kstrdup_ok stack_ok =
     kbind (thread_create name nt kstrdup_ok) (\<lambda>newthread.
       case newthread of
         None \<Rightarrow> kfail ENOMEM
       | Some newthread \<Rightarrow>
           if \<not> stack_ok then kthen (thread_destroy cur newthread) (kfail ENOMEM)
           else
             kthen (on_thread newthread (kmod (\<lambda>T. T\<lparr>t_stack := Some (replicate 4 0)\<rparr>)))
               (kthen (thread_checkstack_init newthread)
                  (kbind (on_thread cur (kget t_cpu)) (\<lambda>tc.
                     kthen (on_thread newthread (kmod (\<lambda>T. T\<lparr>t_cpu := tc\<rparr>)))
                       (kbind (on_thread cur (kget t_proc)) (\<lambda>curproc.
                          kbind (knonnull (if proc = None then curproc else proc)) (\<lambda>proc.
                            kbind (ktry (proc_addthread cur proc newthread)) (\<lambda>result.
                              case result of
                                Inl e \<Rightarrow> kthen (thread_destroy cur newthread) (kfail e)
                              | Inr _ \<Rightarrow>
                                  kthen (on_spl (upd_intr newthread (\<lambda>i. i\<lparr>t_iplhigh_count := t_iplhigh_count i + 1\<rparr>)))
                                    (kthen (switchframe_init newthread entrypoint data1 data2)
                                       (thread_make_runnable cur newthread False))))))))))"

text \<open>
  \<open>cpu_create\<close>: the first processor has no current thread yet (\<open>curo\<close> is \<open>None\<close>) and keeps the
  boot stack. A failed allocation is a panic; \<open>t\<close> is the block for the thread, which gets the name
  \<open>name\<close> that \<open>snprintf\<close> makes.
\<close>

definition cpu_create :: "tid option \<Rightarrow> u32w \<Rightarrow> tid option \<Rightarrow> string \<Rightarrow> bool \<Rightarrow> cpuid kern" where
  "cpu_create curo hardware_number nt name alloc_ok =
     kthen (kassert (\<lambda>_. alloc_ok))
       (kbind (kget (\<lambda>s. length (k_cpus s))) (\<lambda>c.
          kthen (on_lists (threadlist_init (Zombies c)))
            (kthen (on_spl (kmod (\<lambda>p. p\<lparr>c_spinlocks := (c_spinlocks p)(c := 0)\<rparr>)))
               (kthen (on_lists (threadlist_init (Runqueue c)))
                  (kthen (on_spl (spinlock_init (RunqueueLock c)))
                     (kthen (on_spl (spinlock_init (IpiLock c)))
                        (kbind (thread_create name nt True) (\<lambda>to.
                           kbind (knonnull to) (\<lambda>t.
                             kthen (kmod (\<lambda>s. s\<lparr>k_cpus := k_cpus s @
                                       [\<lparr>c_number = c, c_hardware_number = hardware_number, c_curthread = t,
                                         c_hardclocks = 0, c_isidle = False, c_ipi_pending = 0, c_shootdown = []\<rparr>]\<rparr>))
                               (kthen (on_thread t (kmod (\<lambda>T. T\<lparr>t_cpu := Some c\<rparr>)))
                                  (kthen (kwhen (c \<noteq> 0)
                                            (kthen (on_thread t (kmod (\<lambda>T. T\<lparr>t_stack := Some (replicate 4 0)\<rparr>)))
                                               (thread_checkstack_init t)))
                                     (kbind (kget k_kproc) (\<lambda>kproc.
                                        kthen (proc_addthread (case curo of None \<Rightarrow> t | Some cur \<Rightarrow> cur) kproc t)
                                          (kret c))))))))))))))"

subsection \<open>Wait channels\<close>

definition wchan_create :: "string \<Rightarrow> nat option \<Rightarrow> nat option kern" where
  "wchan_create name nw =
     (case nw of
        None \<Rightarrow> kret None
      | Some w \<Rightarrow>
          kthen (on_lists (threadlist_init (WcThreads w)))
            (kthen (kmod (\<lambda>s. s\<lparr>k_wchans := (k_wchans s)(w \<mapsto> name)\<rparr>)) (kret (Some w))))"

definition wchan_destroy :: "nat \<Rightarrow> unit kern" where
  "wchan_destroy w =
     kthen (on_lists (threadlist_cleanup (WcThreads w)))
       (kmod (\<lambda>s. s\<lparr>k_wchans := (k_wchans s)(w := None)\<rparr>))"

definition check_hold :: "tid \<Rightarrow> lockid \<Rightarrow> unit kern" where
  "check_hold cur lk = kbind (do_i_hold cur lk) (\<lambda>b. kassert (\<lambda>_. b))"

text \<open>The last line, \<open>spinlock_acquire(lk)\<close>, is done when the frames \<open>fs\<close> are come back to.\<close>

definition wchan_sleep :: "tid \<Rightarrow> nat \<Rightarrow> lockid \<Rightarrow> frame list \<Rightarrow> unit kern" where
  "wchan_sleep cur w lk fs =
     kthen (on_spl (kassert (\<lambda>p. \<not> t_in_interrupt (intr p cur))))
       (kthen (check_hold cur lk)
          (kbind (curcpu cur) (\<lambda>c.
             kthen (on_spl (kassert (\<lambda>p. c_spinlocks p c = 1)))
               (thread_switch cur S_SLEEP (Some (w, lk)) fs))))"

definition wchan_wakeone :: "tid \<Rightarrow> nat \<Rightarrow> lockid \<Rightarrow> unit kern" where
  "wchan_wakeone cur w lk =
     kthen (check_hold cur lk)
       (kbind (on_lists (threadlist_remhead (WcThreads w))) (\<lambda>target.
          case target of
            None \<Rightarrow> kret ()
          | Some target \<Rightarrow> thread_make_runnable cur target False))"

definition wchan_wakeall :: "tid \<Rightarrow> nat \<Rightarrow> lockid \<Rightarrow> unit kern" where
  "wchan_wakeall cur w lk =
     kthen (check_hold cur lk)
       (kthen (on_lists (threadlist_init (LocalList cur)))
          (kthen (on_lists (moveall threadlist_remhead threadlist_addtail (WcThreads w) (LocalList cur)))
             (kthen (kloop (\<lambda>_.
                kbind (on_lists (threadlist_remhead (LocalList cur))) (\<lambda>target.
                  case target of
                    None \<Rightarrow> kret (Inr ())
                  | Some target \<Rightarrow> kthen (thread_make_runnable cur target False) (kret (Inl ())))) ())
                (on_lists (threadlist_cleanup (LocalList cur))))))"

definition wchan_isempty :: "tid \<Rightarrow> nat \<Rightarrow> lockid \<Rightarrow> bool kern" where
  "wchan_isempty cur w lk = kthen (check_hold cur lk) (on_lists (threadlist_isempty (WcThreads w)))"

subsection \<open>Migration\<close>

text \<open>The loop that counts: \<open>my_count\<close> and \<open>total_count\<close>.\<close>

primrec migration_counts :: "tid \<Rightarrow> cpuid list \<Rightarrow> u32w \<Rightarrow> u32w \<Rightarrow> (u32w \<times> u32w) kern" where
  "migration_counts cur [] my_count total_count = kret (my_count, total_count)"
| "migration_counts cur (c # cs) my_count total_count =
     kthen (acquire cur (RunqueueLock c))
       (kbind (on_lists (kget (\<lambda>h. tl_count h (Runqueue c)))) (\<lambda>n.
          kbind (curcpu cur) (\<lambda>me.
            kthen (release cur (RunqueueLock c))
              (migration_counts cur cs (if c = me then n else my_count) (total_count + n)))))"

text \<open>
  The inner loop for processor \<open>c\<close>. Every round lowers \<open>to_send\<close> by one; the result is what is left
  of it.
\<close>

primrec migrate_to :: "tid \<Rightarrow> cpuid \<Rightarrow> u32w \<Rightarrow> nat \<Rightarrow> nat kern" where
  "migrate_to cur c one_share 0 = kret 0"
| "migrate_to cur c one_share (Suc to_send) =
     kbind (on_lists (kget (\<lambda>h. tl_count h (Runqueue c)))) (\<lambda>n.
       if n < one_share then
         kbind (on_lists (threadlist_remhead (LocalList cur))) (\<lambda>to.
           if to = Some cur then
             kthen (on_lists (threadlist_addtail (LocalList cur) cur)) (migrate_to cur c one_share to_send)
           else
             kbind (knonnull to) (\<lambda>t.
               kthen (on_thread t (kmod (\<lambda>T. T\<lparr>t_cpu := Some c\<rparr>)))
                 (kthen (on_lists (threadlist_addtail (Runqueue c) t))
                    (kbind (on_cpu c (kget c_isidle)) (\<lambda>idle.
                       kthen (kwhen idle (ipi_send cur c IPI_UNIDLE))
                         (migrate_to cur c one_share to_send))))))
       else kret (Suc to_send))"

primrec migrate_all :: "tid \<Rightarrow> cpuid list \<Rightarrow> u32w \<Rightarrow> nat \<Rightarrow> nat kern" where
  "migrate_all cur [] one_share to_send = kret to_send"
| "migrate_all cur (c # cs) one_share to_send =
     (if to_send = 0 then kret to_send
      else kbind (curcpu cur) (\<lambda>me.
        if c = me then migrate_all cur cs one_share to_send
        else kthen (acquire cur (RunqueueLock c))
               (kbind (migrate_to cur c one_share to_send) (\<lambda>to_send.
                  kthen (release cur (RunqueueLock c)) (migrate_all cur cs one_share to_send)))))"

definition thread_consider_migration :: "tid \<Rightarrow> unit kern" where
  "thread_consider_migration cur =
     kbind (kget (\<lambda>s. length (k_cpus s))) (\<lambda>numcpus.
       kbind (migration_counts cur [0 ..< numcpus] 0 0) (\<lambda>(my_count, total_count).
         let one_share = (total_count + of_nat numcpus - 1) div of_nat numcpus in
         if my_count < one_share then kret ()
         else
           let to_send = unat (my_count - one_share) in
           kthen (on_lists (threadlist_init (LocalList cur)))
             (kbind (curcpu cur) (\<lambda>me.
                kthen (acquire cur (RunqueueLock me))
                  (kthen (on_lists (movesome threadlist_remtail threadlist_addhead (Runqueue me) (LocalList cur) to_send))
                     (kthen (release cur (RunqueueLock me))
                        (kthen (migrate_all cur [0 ..< numcpus] one_share to_send)
                           (kbind (on_lists (threadlist_isempty (LocalList cur))) (\<lambda>empty.
                              kthen (kwhen (\<not> empty)
                                       (kbind (curcpu cur) (\<lambda>me.
                                          kthen (acquire cur (RunqueueLock me))
                                            (kthen (on_lists (moveall threadlist_remhead threadlist_addtail (LocalList cur) (Runqueue me)))
                                               (release cur (RunqueueLock me))))))
                                (kbind (on_lists (threadlist_isempty (LocalList cur))) (\<lambda>empty.
                                   kthen (kassert (\<lambda>_. empty))
                                     (on_lists (threadlist_cleanup (LocalList cur))))))))))))))"

end
