(* ===== verification/Kern_Synch.thy ===== *)
theory Kern_Synch
  imports Kern_Thread
begin

text \<open>
  Semaphores (\<open>kern/thread/synch.c\<close>), the clock (\<open>kern/thread/clock.c\<close>), the interrupt branch of
  \<open>mips_trap\<close> (\<open>arch/mips/locore/trap.c\<close>) with \<open>mainbus_interrupt\<close>, and what a thread goes on with
  when it has been switched back to. The sleep locks and condition variables of \<open>synch.c\<close> are
  unwritten in the source.
\<close>

subsection \<open>Semaphores\<close>

text \<open>\<open>ns\<close> and \<open>nw\<close> are the blocks \<open>kmalloc\<close> returns for the semaphore and its wait channel.\<close>

definition sem_create :: "string \<Rightarrow> u32w \<Rightarrow> nat option \<Rightarrow> bool \<Rightarrow> nat option \<Rightarrow> nat option kern" where
  "sem_create name initial_count ns kstrdup_ok nw =
     (case ns of
        None \<Rightarrow> kret None
      | Some i \<Rightarrow>
          if \<not> kstrdup_ok then kret None
          else kbind (wchan_create name nw) (\<lambda>wo.
            case wo of
              None \<Rightarrow> kret None
            | Some w \<Rightarrow>
                kthen (on_spl (spinlock_init (SemLock i)))
                  (kthen (kmod (\<lambda>s. s\<lparr>k_sems := (k_sems s)(i \<mapsto>
                       \<lparr>sem_name = name, sem_wchan = w, sem_count = initial_count\<rparr>)\<rparr>))
                     (kret (Some i)))))"

definition sem_destroy :: "nat \<Rightarrow> unit kern" where
  "sem_destroy i =
     kthen (on_spl (spinlock_cleanup (SemLock i)))
       (kbind (on_sem i (kget sem_wchan)) (\<lambda>w.
          kthen (wchan_destroy w)
            (kmod (\<lambda>s. s\<lparr>k_sems := (k_sems s)(i := None)\<rparr>))))"

text \<open>The loop of \<open>P\<close>, the lock held: a pass that finds the count 0 goes to sleep.\<close>

definition P_loop :: "tid \<Rightarrow> nat \<Rightarrow> unit kern" where
  "P_loop cur i =
     kbind (on_sem i (kget sem_count)) (\<lambda>n.
       if n = 0 then kbind (on_sem i (kget sem_wchan)) (\<lambda>w. wchan_sleep cur w (SemLock i) [InP i])
       else
         kthen (on_sem i (kassert (\<lambda>S. sem_count S > 0)))
           (kthen (on_sem i (kmod (\<lambda>S. S\<lparr>sem_count := sem_count S - 1\<rparr>)))
              (release cur (SemLock i))))"

definition P :: "tid \<Rightarrow> nat \<Rightarrow> unit kern" where
  "P cur i =
     kthen (on_spl (kassert (\<lambda>p. \<not> t_in_interrupt (intr p cur))))
       (kthen (acquire cur (SemLock i)) (P_loop cur i))"

definition V :: "tid \<Rightarrow> nat \<Rightarrow> unit kern" where
  "V cur i =
     kthen (acquire cur (SemLock i))
       (kthen (on_sem i (kmod (\<lambda>S. S\<lparr>sem_count := sem_count S + 1\<rparr>)))
          (kthen (on_sem i (kassert (\<lambda>S. sem_count S > 0)))
             (kbind (on_sem i (kget sem_wchan)) (\<lambda>w.
                kthen (wchan_wakeone cur w (SemLock i))
                  (release cur (SemLock i))))))"

subsection \<open>The clock\<close>

definition hardclock_bootstrap :: "nat option \<Rightarrow> unit kern" where
  "hardclock_bootstrap nw =
     kthen (on_spl (spinlock_init LboltLock))
       (kbind (wchan_create ''lbolt'' nw) (\<lambda>wo.
          kbind (knonnull wo) (\<lambda>w. kmod (\<lambda>s. s\<lparr>k_lbolt := w\<rparr>))))"

definition timerclock :: "tid \<Rightarrow> unit kern" where
  "timerclock cur =
     kthen (acquire cur LboltLock)
       (kbind (kget k_lbolt) (\<lambda>w.
          kthen (wchan_wakeall cur w LboltLock)
            (release cur LboltLock)))"

definition clocksleep_loop :: "tid \<Rightarrow> int \<Rightarrow> unit kern" where
  "clocksleep_loop cur num_secs =
     (if num_secs > 0 then kbind (kget k_lbolt) (\<lambda>w. wchan_sleep cur w LboltLock [InClocksleep num_secs])
      else release cur LboltLock)"

definition clocksleep :: "tid \<Rightarrow> int \<Rightarrow> unit kern" where
  "clocksleep cur num_secs = kthen (acquire cur LboltLock) (clocksleep_loop cur num_secs)"

definition MIGRATE_HARDCLOCKS :: u32w where "MIGRATE_HARDCLOCKS = 16"

text \<open>\<open>schedule\<close>, called every four ticks, is empty in the source.\<close>

definition hardclock :: "tid \<Rightarrow> unit kern" where
  "hardclock cur =
     kbind (curcpu cur) (\<lambda>c.
       kthen (on_cpu c (kmod (\<lambda>C. C\<lparr>c_hardclocks := c_hardclocks C + 1\<rparr>)))
         (kbind (on_cpu c (kget c_hardclocks)) (\<lambda>n.
            kthen (kwhen (n mod MIGRATE_HARDCLOCKS = 0) (thread_consider_migration cur))
              (thread_yield cur))))"

subsection \<open>Starting processors\<close>

text \<open>
  \<open>thread_bootstrap\<close> makes the first processor and the thread that is already running on it;
  \<open>cpu_hatch\<close> is where the thread of another processor begins, with \<open>cpu_startup_sem\<close> the semaphore
  \<open>i\<close>.
\<close>

definition thread_bootstrap :: "tid option \<Rightarrow> string \<Rightarrow> bool \<Rightarrow> unit kern" where
  "thread_bootstrap nt name alloc_ok =
     kthen (kassert (\<lambda>s. k_cpus s = []))
       (kbind (cpu_create None 0 nt name alloc_ok) (\<lambda>c.
          kbind (on_cpu c (kget c_curthread)) (\<lambda>cur.
            kbind (on_thread cur (kget t_proc)) (\<lambda>p.
              kthen (kassert (\<lambda>_. p \<noteq> None)) (kassert (\<lambda>s. p = Some (k_kproc s)))))))"

definition cpu_hatch :: "tid \<Rightarrow> nat \<Rightarrow> nat \<Rightarrow> unit kern" where
  "cpu_hatch cur i software_number =
     kbind (curcpu cur) (\<lambda>c.
       kbind (on_cpu c (kget c_number)) (\<lambda>n.
         kthen (kassert (\<lambda>_. n = software_number))
           (kthen (set_spl cur IPL_NONE)
              (kthen (V cur i) (thread_exit cur)))))"

subsection \<open>Interrupts\<close>

text \<open>
  The causes of an interrupt: the timer, another processor, the clock device's second, and a
  device whose handler does a \<open>V\<close>.
\<close>

datatype irq = TimerIrq | IpiIrq | SecondIrq | DeviceIrq nat

fun mainbus_interrupt :: "tid \<Rightarrow> irq \<Rightarrow> unit kern" where
  "mainbus_interrupt cur TimerIrq = hardclock cur"
| "mainbus_interrupt cur IpiIrq =
     kthen (interprocessor_interrupt cur)
       (kbind (curcpu cur) (\<lambda>c. kmod (\<lambda>s. s\<lparr>k_ipiline := (k_ipiline s)(c := False)\<rparr>)))"
| "mainbus_interrupt cur SecondIrq = timerclock cur"
| "mainbus_interrupt cur (DeviceIrq i) = V cur i"

text \<open>
  \<open>mips_trap\<close> for an interrupt, up to the call of the handler: the processor has turned interrupts
  off. The results are \<open>old_in\<close> and \<open>doadjust\<close>.
\<close>

definition irq_enter :: "tid \<Rightarrow> (bool \<times> bool) kern" where
  "irq_enter cur =
     kbind (curcpu cur) (\<lambda>c. kthen (on_spl (cpu_irqoff c))
       (kbind (on_spl (kget (\<lambda>p. t_in_interrupt (intr p cur)))) (\<lambda>old_in.
          kthen (on_spl (upd_intr cur (\<lambda>i. i\<lparr>t_in_interrupt := True\<rparr>)))
            (kbind (on_spl (kget (\<lambda>p. t_curspl (intr p cur)))) (\<lambda>curspl.
               if curspl = 0 then
                 kthen (on_spl (kassert (\<lambda>p. t_iplhigh_count (intr p cur) = 0)))
                   (kthen (on_spl (upd_intr cur (\<lambda>i. i\<lparr>t_curspl := IPL_HIGH, t_iplhigh_count := t_iplhigh_count i + 1\<rparr>)))
                      (kret (old_in, True)))
               else kret (old_in, False))))))"

text \<open>The rest; returning from the exception restores the interrupt enable bit to \<open>was_on\<close>.\<close>

definition irq_leave :: "tid \<Rightarrow> bool \<Rightarrow> bool \<Rightarrow> bool \<Rightarrow> unit kern" where
  "irq_leave cur old_in doadjust was_on =
     kthen (kwhen doadjust
              (kthen (on_spl (kassert (\<lambda>p. t_curspl (intr p cur) = IPL_HIGH)))
                 (kthen (on_spl (kassert (\<lambda>p. t_iplhigh_count (intr p cur) = 1)))
                    (on_spl (upd_intr cur (\<lambda>i. i\<lparr>t_iplhigh_count := t_iplhigh_count i - 1, t_curspl := 0\<rparr>))))))
       (kthen (on_spl (upd_intr cur (\<lambda>i. i\<lparr>t_in_interrupt := old_in\<rparr>)))
          (kbind (curcpu cur) (\<lambda>c. kwhen was_on (on_spl (cpu_irqon c)))))"

text \<open>
  An interrupt in a running thread: the handler may switch to another thread, so its end is a
  frame. An interrupt while the processor idles in \<open>cpu_idle\<close>: the handler comes back at once.
\<close>

definition trap_irq :: "tid \<Rightarrow> irq \<Rightarrow> unit kern" where
  "trap_irq cur i =
     kbind (irq_enter cur) (\<lambda>(old_in, doadjust).
       kthen (push_frames cur [InIrq old_in doadjust]) (mainbus_interrupt cur i))"

definition idle_irq :: "tid \<Rightarrow> irq \<Rightarrow> unit kern" where
  "idle_irq cur i =
     kbind (irq_enter cur) (\<lambda>(old_in, doadjust).
       kthen (mainbus_interrupt cur i) (irq_leave cur old_in doadjust False))"

subsection \<open>Going on after a switch\<close>

text \<open>
  The innermost call on the stack of the running thread goes on: \<open>wchan_sleep\<close> takes its lock again
  and \<open>P\<close> or \<open>clocksleep\<close> loop, an interrupt handler returns, \<open>thread_exit\<close> panics, and an entry
  point that returns makes its thread exit.
\<close>

definition go_on :: "tid \<Rightarrow> unit kern" where
  "go_on cur =
     kbind (on_thread cur (kget t_context)) (\<lambda>ctx.
       case ctx of
         InP i # _ \<Rightarrow> kthen (pop_frame cur) (kthen (acquire cur (SemLock i)) (P_loop cur i))
       | InClocksleep n # _ \<Rightarrow> kthen (pop_frame cur) (kthen (acquire cur LboltLock) (clocksleep_loop cur (n - 1)))
       | InIrq old_in doadjust # _ \<Rightarrow> kthen (pop_frame cur) (irq_leave cur old_in doadjust True)
       | InEntry _ _ _ # _ \<Rightarrow> thread_exit cur
       | _ \<Rightarrow> kpanic)"

end
