(* ===== verification/Kern_Inv.thy ===== *)
theory Kern_Inv
  imports Kern_Synch
begin

text \<open>
  The invariant of the thread system, and how the elementary changes of the state act on it.
\<close>

subsection \<open>Threads at rest\<close>

abbreviation curth :: "machine \<Rightarrow> cpuid \<Rightarrow> tid" where
  "curth s c \<equiv> c_curthread (k_cpus s ! c)"

abbreviation idle :: "machine \<Rightarrow> cpuid \<Rightarrow> bool" where
  "idle s c \<equiv> c_isidle (k_cpus s ! c)"

abbreviation ncpu :: "machine \<Rightarrow> nat" where
  "ncpu s \<equiv> length (k_cpus s)"

abbreviation in_irq :: "machine \<Rightarrow> tid \<Rightarrow> bool" where
  "in_irq s t \<equiv> t_in_interrupt (intr (k_spl s) t)"

text \<open>
  The stacks a thread can have: at the bottom nothing or the entry point, above it at most one
  call that sleeps, above that at most one interrupt. An interrupt is taken at level 0 only, so
  it has raised the level, and the level is still high when its handler goes on.
\<close>

definition entry_ok :: "frame list \<Rightarrow> bool" where
  "entry_ok fs \<longleftrightarrow> fs = [] \<or> (\<exists>e d1 d2. fs = [InEntry e d1 d2])"

definition base_ok :: "frame list \<Rightarrow> bool" where
  "base_ok fs = (case fs of
      InP i # r \<Rightarrow> entry_ok r
    | InClocksleep n # r \<Rightarrow> 0 < n \<and> entry_ok r
    | _ \<Rightarrow> entry_ok fs)"

definition frames_ok :: "bool \<Rightarrow> int \<Rightarrow> frame list \<Rightarrow> bool" where
  "frames_ok irq spl fs = (case fs of
      InIrq old_in doadjust # r \<Rightarrow> irq \<and> \<not> old_in \<and> doadjust \<and> spl = IPL_HIGH \<and> base_ok r
    | _ \<Rightarrow> \<not> irq \<and> base_ok fs)"

definition has_irq :: "frame list \<Rightarrow> bool" where
  "has_irq fs \<longleftrightarrow> (\<exists>old_in doadjust. InIrq old_in doadjust \<in> set fs)"

definition saved_ok :: "frame list \<Rightarrow> bool" where
  "saved_ok fs = (case fs of
      InSwitch spl # r \<Rightarrow> spl \<in> {IPL_NONE, IPL_HIGH} \<and> frames_ok (has_irq r) spl r
    | ToStartup e d1 d2 # r \<Rightarrow> r = []
    | _ \<Rightarrow> False)"

text \<open>
  The interrupt state of a thread that no processor has as its current thread: the level is high,
  and raised once more by the lock of the run queue that is held when the thread is switched to.
\<close>

definition parked :: "lockid splstate \<Rightarrow> tid \<Rightarrow> thread \<Rightarrow> bool" where
  "parked p t T \<longleftrightarrow> t_curspl (intr p t) = IPL_HIGH \<and> t_iplhigh_count (intr p t) = 2 \<and>
     t_in_interrupt (intr p t) = has_irq (t_context T)"

text \<open>The wait channel a stack sleeps on.\<close>

definition sleeps_on :: "machine \<Rightarrow> nat \<Rightarrow> frame list \<Rightarrow> bool" where
  "sleeps_on s w fs = (case fs of
      InSwitch spl # InP i # _ \<Rightarrow> (\<exists>S. k_sems s i = Some S \<and> sem_wchan S = w)
    | InSwitch spl # InClocksleep n # _ \<Rightarrow> w = k_lbolt s
    | _ \<Rightarrow> False)"

text \<open>A thread that is neither running nor on a list, about to be put on a run queue.\<close>

definition in_transit :: "machine \<Rightarrow> tid \<Rightarrow> bool" where
  "in_transit s t \<longleftrightarrow> (\<exists>T. k_threads s t = Some T \<and> (\<exists>c < ncpu s. t_cpu T = Some c) \<and> t_proc T \<noteq> None \<and>
     saved_ok (t_context T) \<and> (\<forall>c < ncpu s. curth s c = t \<longrightarrow> idle s c) \<and>
     ((\<forall>c < ncpu s. curth s c \<noteq> t) \<longrightarrow> parked (k_spl s) t T))"

definition listed_ok :: "machine \<Rightarrow> listid \<Rightarrow> tid \<Rightarrow> bool" where
  "listed_ok s l t \<longleftrightarrow> (\<exists>T. k_threads s t = Some T \<and> (\<exists>c < ncpu s. t_cpu T = Some c) \<and>
     (case l of
        Runqueue c \<Rightarrow> t_state T = S_READY \<and> t_cpu T = Some c \<and> t_proc T \<noteq> None \<and> saved_ok (t_context T)
      | Zombies c \<Rightarrow> t_state T = S_ZOMBIE \<and> t_cpu T = Some c \<and> t_proc T = None \<and> \<not> has_irq (t_context T) \<and>
          (\<exists>spl r. t_context T = InSwitch spl # InExit # r)
      | WcThreads w \<Rightarrow> t_state T = S_SLEEP \<and> t_proc T \<noteq> None \<and> saved_ok (t_context T) \<and>
          sleeps_on s w (t_context T)
      | LocalList u \<Rightarrow> False))"

text \<open>A running thread.\<close>

definition running_ok :: "(listid \<rightharpoonup> tid list) \<Rightarrow> machine \<Rightarrow> cpuid \<Rightarrow> bool" where
  "running_ok F s c \<longleftrightarrow> (\<exists>T. k_threads s (curth s c) = Some T \<and> t_state T \<in> {S_RUN, S_READY} \<and> t_proc T \<noteq> None \<and>
     frames_ok (in_irq s (curth s c)) (t_curspl (intr (k_spl s) (curth s c))) (t_context T)) \<and> off_lists F (curth s c)"

subsection \<open>The invariant\<close>

text \<open>
  What the rest of the kernel sees of a thread: the semaphore it is in the middle of a \<open>P\<close> on, and
  its process.
\<close>

fun pend :: "frame list \<Rightarrow> nat option" where
  "pend (InSwitch spl # fs) = pend fs"
| "pend (InIrq old_in doadjust # fs) = pend fs"
| "pend (InP i # fs) = Some i"
| "pend _ = None"

definition tview :: "machine \<Rightarrow> tid \<Rightarrow> nat option \<times> nat option" where
  "tview s t = (case k_threads s t of None \<Rightarrow> (None, None) | Some T \<Rightarrow> (pend (t_context T), t_proc T))"

definition procs_ok :: "machine \<Rightarrow> bool" where
  "procs_ok s \<longleftrightarrow> k_kproc s \<in> dom (k_procs s) \<and>
     (\<forall>t p. snd (tview s t) = Some p \<longrightarrow> p \<in> dom (k_procs s)) \<and>
     (\<forall>p R. k_procs s p = Some R \<longrightarrow> p_numthreads R = of_nat (card {t. snd (tview s t) = Some p}))"

definition sems_ok :: "machine \<Rightarrow> bool" where
  "sems_ok s \<longleftrightarrow> k_lbolt s \<in> dom (k_wchans s) \<and>
     (\<forall>i S. k_sems s i = Some S \<longrightarrow> sem_wchan S \<in> dom (k_wchans s) \<and> sem_wchan S \<noteq> k_lbolt s) \<and>
     (\<forall>i j S S'. k_sems s i = Some S \<longrightarrow> k_sems s j = Some S' \<longrightarrow> sem_wchan S = sem_wchan S' \<longrightarrow> i = j)"

definition stack_ok :: "thread \<Rightarrow> bool" where
  "stack_ok T \<longleftrightarrow> t_stack T = None \<or> t_stack T = Some (replicate 4 THREAD_STACK_MAGIC)"

definition lists_ok :: "(listid \<rightharpoonup> tid list) \<Rightarrow> machine \<Rightarrow> bool" where
  "lists_ok F s \<longleftrightarrow> (\<forall>c. F (Runqueue c) \<noteq> None \<longleftrightarrow> c < ncpu s) \<and> (\<forall>c. F (Zombies c) \<noteq> None \<longleftrightarrow> c < ncpu s) \<and>
     (\<forall>w. F (WcThreads w) \<noteq> None \<longleftrightarrow> w \<in> dom (k_wchans s))"

text \<open>A processor other than the one that runs the current operation.\<close>

definition other_ok :: "(listid \<rightharpoonup> tid list) \<Rightarrow> machine \<Rightarrow> cpuid \<Rightarrow> bool" where
  "other_ok F s c \<longleftrightarrow> (let i = intr (k_spl s) (curth s c) in
     t_curspl i \<in> {IPL_NONE, IPL_HIGH} \<and> t_iplhigh_count i = t_curspl i \<and>
     irqs_on (k_spl s) c = (t_iplhigh_count i = 0) \<and> c_spinlocks (k_spl s) c = 0 \<and>
     (if idle s c
      then t_curspl i = IPL_HIGH \<and> (\<exists>T. k_threads s (curth s c) = Some T \<and> t_in_interrupt i = has_irq (t_context T))
      else running_ok F s c))"

text \<open>
  The state in the middle of an operation: processor \<open>c0\<close> runs it and holds the locks \<open>held\<close>; the
  threads in \<open>Y\<close> are being moved about, and nothing is said about where they are.
\<close>

definition kinv :: "tid set \<Rightarrow> (listid \<rightharpoonup> tid list) \<Rightarrow> cpuid \<Rightarrow> lockid list \<Rightarrow> machine \<Rightarrow> bool" where
  "kinv Y F c0 held s \<longleftrightarrow>
     tl_rel (dom (k_threads s)) F (k_lists s) \<and>
     c0 < ncpu s \<and> spl_ok (curth s c0) c0 held (k_spl s) \<and>
     (\<forall>c < ncpu s. \<exists>T. k_threads s (curth s c) = Some T \<and> t_cpu T = Some c) \<and>
     (\<forall>c < ncpu s. c \<noteq> c0 \<longrightarrow> other_ok F s c) \<and>
     (\<forall>t l. on_list F t l \<longrightarrow> t \<notin> Y \<longrightarrow> listed_ok s l t) \<and>
     (\<forall>t \<in> dom (k_threads s). t \<notin> Y \<longrightarrow> off_lists F t \<longrightarrow> (\<exists>c < ncpu s. c \<noteq> c0 \<and> \<not> idle s c \<and> curth s c = t)) \<and>
     (\<forall>t T. k_threads s t = Some T \<longrightarrow> (\<forall>c < ncpu s. curth s c \<noteq> t) \<longrightarrow> t \<notin> Y \<longrightarrow> parked (k_spl s) t T) \<and>
     (\<forall>t T. k_threads s t = Some T \<longrightarrow> stack_ok T) \<and>
     lists_ok F s \<and> sems_ok s \<and> (\<forall>c < ncpu s. c_ipi_pending (k_cpus s ! c) \<in> {0, 4})"


lemma sems_ok_upd [simp]:
  "sems_ok (s\<lparr>k_spl := x0\<rparr>) = sems_ok s"
  "sems_ok (s\<lparr>k_lists := x1\<rparr>) = sems_ok s"
  "sems_ok (s\<lparr>k_threads := x2\<rparr>) = sems_ok s"
  "sems_ok (s\<lparr>k_cpus := x3\<rparr>) = sems_ok s"
  "sems_ok (s\<lparr>k_procs := x6\<rparr>) = sems_ok s"
  "sems_ok (s\<lparr>k_kproc := x7\<rparr>) = sems_ok s"
  "sems_ok (s\<lparr>k_tlb := x9\<rparr>) = sems_ok s"
  "sems_ok (s\<lparr>k_ipiline := x10\<rparr>) = sems_ok s"
  by (simp_all add: sems_ok_def)

lemma lists_ok_upd [simp]:
  "lists_ok F (s\<lparr>k_spl := x0\<rparr>) = lists_ok F s"
  "lists_ok F (s\<lparr>k_lists := x1\<rparr>) = lists_ok F s"
  "lists_ok F (s\<lparr>k_threads := x2\<rparr>) = lists_ok F s"
  "lists_ok F (s\<lparr>k_sems := x5\<rparr>) = lists_ok F s"
  "lists_ok F (s\<lparr>k_procs := x6\<rparr>) = lists_ok F s"
  "lists_ok F (s\<lparr>k_kproc := x7\<rparr>) = lists_ok F s"
  "lists_ok F (s\<lparr>k_lbolt := x8\<rparr>) = lists_ok F s"
  "lists_ok F (s\<lparr>k_tlb := x9\<rparr>) = lists_ok F s"
  "lists_ok F (s\<lparr>k_ipiline := x10\<rparr>) = lists_ok F s"
  by (simp_all add: lists_ok_def)

lemma kinvI:
  assumes "tl_rel (dom (k_threads s)) F (k_lists s)" "c0 < ncpu s" "spl_ok (curth s c0) c0 held (k_spl s)"
    and "\<And>c. c < ncpu s \<Longrightarrow> \<exists>T. k_threads s (curth s c) = Some T \<and> t_cpu T = Some c"
    and "\<And>c. c < ncpu s \<Longrightarrow> c \<noteq> c0 \<Longrightarrow> other_ok F s c"
    and "\<And>t l. on_list F t l \<Longrightarrow> t \<notin> Y \<Longrightarrow> listed_ok s l t"
    and "\<And>t T. k_threads s t = Some T \<Longrightarrow> t \<notin> Y \<Longrightarrow> off_lists F t \<Longrightarrow> \<exists>c < ncpu s. c \<noteq> c0 \<and> \<not> idle s c \<and> curth s c = t"
    and "\<And>t T. k_threads s t = Some T \<Longrightarrow> (\<forall>c < ncpu s. curth s c \<noteq> t) \<Longrightarrow> t \<notin> Y \<Longrightarrow> parked (k_spl s) t T"
    and "\<And>t T. k_threads s t = Some T \<Longrightarrow> stack_ok T"
    and "lists_ok F s" "sems_ok s" "\<And>c. c < ncpu s \<Longrightarrow> c_ipi_pending (k_cpus s ! c) \<in> {0, 4}"
  shows "kinv Y F c0 held s"
  using assms unfolding kinv_def by blast

lemma kinvD:
  assumes "kinv Y F c0 held s"
  shows "tl_rel (dom (k_threads s)) F (k_lists s)" "c0 < ncpu s" "spl_ok (curth s c0) c0 held (k_spl s)"
    and "\<And>c. c < ncpu s \<Longrightarrow> \<exists>T. k_threads s (curth s c) = Some T \<and> t_cpu T = Some c"
    and "\<And>c. c < ncpu s \<Longrightarrow> c \<noteq> c0 \<Longrightarrow> other_ok F s c"
    and "\<And>t l. on_list F t l \<Longrightarrow> t \<notin> Y \<Longrightarrow> listed_ok s l t"
    and "\<And>t T. k_threads s t = Some T \<Longrightarrow> t \<notin> Y \<Longrightarrow> off_lists F t \<Longrightarrow> \<exists>c < ncpu s. c \<noteq> c0 \<and> \<not> idle s c \<and> curth s c = t"
    and "\<And>t T. k_threads s t = Some T \<Longrightarrow> (\<forall>c < ncpu s. curth s c \<noteq> t) \<Longrightarrow> t \<notin> Y \<Longrightarrow> parked (k_spl s) t T"
    and "\<And>t T. k_threads s t = Some T \<Longrightarrow> stack_ok T"
    and "lists_ok F s" "sems_ok s" "\<And>c. c < ncpu s \<Longrightarrow> c_ipi_pending (k_cpus s ! c) \<in> {0, 4}"
  using assms unfolding kinv_def by blast+

lemma curth_inj:
  assumes "kinv Y F c0 held s" "c < ncpu s" "c' < ncpu s" "curth s c = curth s c'"
  shows "c = c'"
  using kinvD(4) [OF assms(1,2)] kinvD(4) [OF assms(1,3)] assms(4) by auto

lemma curth_live: "kinv Y F c0 held s \<Longrightarrow> \<exists>T. k_threads s (curth s c0) = Some T \<and> t_cpu T = Some c0"
  using kinvD(2,4) by blast

lemma listed_live: "kinv Y F c0 held s \<Longrightarrow> on_list F t l \<Longrightarrow> \<exists>T. k_threads s t = Some T"
  using tl_relD(3) kinvD(1) by (metis domD)

lemma other_ok_cong:
  assumes "curth s' c = curth s c" "idle s' c = idle s c" "intr (k_spl s') (curth s c) = intr (k_spl s) (curth s c)"
    and "irqs_on (k_spl s') c = irqs_on (k_spl s) c" "c_spinlocks (k_spl s') c = c_spinlocks (k_spl s) c"
    and "\<not> idle s c \<Longrightarrow> k_threads s' (curth s c) = k_threads s (curth s c)"
    and "idle s c \<Longrightarrow> map_option t_context (k_threads s' (curth s c)) = map_option t_context (k_threads s (curth s c))"
    and "\<not> idle s c \<Longrightarrow> off_lists F (curth s c) \<Longrightarrow> off_lists F' (curth s c)"
  shows "other_ok F s c \<Longrightarrow> other_ok F' s' c"
  using assms by (auto simp: other_ok_def running_ok_def Let_def map_option_case split: option.splits)

lemma listed_ok_cong:
  assumes "k_threads s' t = k_threads s t" "ncpu s' = ncpu s"
    and "k_lbolt s' = k_lbolt s" "\<And>i S. k_sems s i = Some S \<Longrightarrow> \<exists>S'. k_sems s' i = Some S' \<and> sem_wchan S' = sem_wchan S"
  shows "listed_ok s l t \<Longrightarrow> listed_ok s' l t"
proof -
  have "sleeps_on s w fs \<Longrightarrow> sleeps_on s' w fs" for w fs
    using assms(3,4) by (auto simp: sleeps_on_def split: list.splits frame.splits)
  then show "listed_ok s l t \<Longrightarrow> listed_ok s' l t" using assms(1,2) by (auto simp: listed_ok_def split: listid.splits)
qed

lemma in_transit_cong:
  assumes "k_threads s' t = k_threads s t" "ncpu s' = ncpu s"
    and "\<And>c. curth s' c = curth s c" "\<And>c. idle s c \<Longrightarrow> idle s' c"
    and "(\<forall>c < ncpu s. curth s c \<noteq> t) \<Longrightarrow> intr (k_spl s') t = intr (k_spl s) t"
  shows "in_transit s t \<Longrightarrow> in_transit s' t"
  using assms by (auto simp: in_transit_def parked_def)

text \<open>Changes of interrupt state and locks by the current processor.\<close>

lemma kinv_intr:
  assumes k: "kinv Y F c0 held s" and p: "spl_ok (curth s c0) c0 held' p"
    "\<And>t. t \<noteq> curth s c0 \<Longrightarrow> intr p t = intr (k_spl s) t"
    "\<And>c. c < ncpu s \<Longrightarrow> c \<noteq> c0 \<Longrightarrow> irqs_on p c = irqs_on (k_spl s) c \<and> c_spinlocks p c = c_spinlocks (k_spl s) c"
  shows "kinv Y F c0 held' (s\<lparr>k_spl := p\<rparr>)"
proof (rule kinvI)
  fix c assume c: "c < ncpu (s\<lparr>k_spl := p\<rparr>)" "c \<noteq> c0"
  then have ne: "curth s c \<noteq> curth s c0" using curth_inj [OF k, of c c0] kinvD(2) [OF k] by auto
  show "other_ok F (s\<lparr>k_spl := p\<rparr>) c"
    by (rule other_ok_cong [rotated 8, OF kinvD(5) [OF k]]) (use c ne p(2,3) in auto)
next
  fix t l assume "on_list F t l" "t \<notin> Y"
  then show "listed_ok (s\<lparr>k_spl := p\<rparr>) l t"
    by (rule listed_ok_cong [rotated 4, OF kinvD(6) [OF k]]) simp_all
next
  fix t T assume t: "k_threads (s\<lparr>k_spl := p\<rparr>) t = Some T" "\<forall>c < ncpu (s\<lparr>k_spl := p\<rparr>). curth (s\<lparr>k_spl := p\<rparr>) c \<noteq> t" "t \<notin> Y"
  then have "intr p t = intr (k_spl s) t" using kinvD(2) [OF k] by (intro p(2)) auto
  then show "parked (k_spl (s\<lparr>k_spl := p\<rparr>)) t T"
    using kinvD(8) [OF k] t by (simp add: parked_def)
qed (use kinvD(1,2,4,7,9-12) [OF k] p in simp_all)

lemma kinv_spl:
  assumes k: "kinv Y F c0 held s" and p: "spl_ok (curth s c0) c0 held' p" "spl_frame (curth s c0) c0 (k_spl s) p"
  shows "kinv Y F c0 held' (s\<lparr>k_spl := p\<rparr>)"
  by (rule kinv_intr [OF k p(1)]) (use p(2) in \<open>simp_all add: spl_frame_def\<close>)

text \<open>Changes of a thread that is being moved about.\<close>

lemma kinv_thread:
  assumes k: "kinv Y F c0 held s" and T: "k_threads s t = Some T" "t_cpu T' = t_cpu T" "stack_ok T'"
    and t: "t \<in> Y" "\<And>c. c < ncpu s \<Longrightarrow> c \<noteq> c0 \<Longrightarrow> curth s c = t \<Longrightarrow> idle s c \<and> t_context T' = t_context T"
  shows "kinv Y F c0 held (s\<lparr>k_threads := (k_threads s)(t \<mapsto> T')\<rparr>)"
proof -
  let ?s = "s\<lparr>k_threads := (k_threads s)(t \<mapsto> T')\<rparr>"
  have dom: "dom (k_threads ?s) = dom (k_threads s)" using T(1) by auto
  show ?thesis
  proof (rule kinvI)
    show "tl_rel (dom (k_threads ?s)) F (k_lists ?s)" using kinvD(1) [OF k] dom by simp
    show "\<exists>U. k_threads ?s (curth ?s c) = Some U \<and> t_cpu U = Some c" if "c < ncpu ?s" for c
      using kinvD(4) [OF k, of c] that T by auto
    show "other_ok F ?s c" if "c < ncpu ?s" "c \<noteq> c0" for c
      by (rule other_ok_cong [rotated 8, OF kinvD(5) [OF k]]) (use that t(2) [of c] T(1) in auto)
    show "listed_ok ?s l u" if "on_list F u l" "u \<notin> Y" for u l
      by (rule listed_ok_cong [rotated 4, OF kinvD(6) [OF k that]]) (use that t(1) in auto)
    show "\<exists>c < ncpu ?s. c \<noteq> c0 \<and> \<not> idle ?s c \<and> curth ?s c = u" if "k_threads ?s u = Some U" "u \<notin> Y" "off_lists F u" for u U
      using kinvD(7) [OF k, of u] that t(1) by (auto split: if_splits)
    show "parked (k_spl ?s) u U"
      if "k_threads ?s u = Some U" "\<forall>c < ncpu ?s. curth ?s c \<noteq> u" "u \<notin> Y" for u U
      using kinvD(8) [OF k, of u] that t(1) by (auto split: if_splits)
    show "stack_ok U" if "k_threads ?s u = Some U" for u U
      using kinvD(9) [OF k, of u] that T(3) by (auto split: if_splits)
  qed (use kinvD(2,3,10-12) [OF k] in auto)
qed


text \<open>Threads moved between lists.\<close>

lemma kinv_lists:
  assumes k: "kinv Y F c0 held s" and h: "tl_rel (dom (k_threads s)) F' h" "lists_ok F' s"
    and listed: "\<And>t l. on_list F' t l \<Longrightarrow> t \<notin> Y' \<Longrightarrow> listed_ok s l t"
    and off: "\<And>t T. k_threads s t = Some T \<Longrightarrow> t \<notin> Y' \<Longrightarrow> off_lists F' t \<Longrightarrow> off_lists F t \<and> t \<notin> Y"
    and ipl: "\<And>t T. k_threads s t = Some T \<Longrightarrow> t \<notin> Y' \<Longrightarrow> t \<in> Y \<Longrightarrow> (\<forall>c < ncpu s. curth s c \<noteq> t) \<Longrightarrow>
      parked (k_spl s) t T"
    and run: "\<And>c. c < ncpu s \<Longrightarrow> c \<noteq> c0 \<Longrightarrow> \<not> idle s c \<Longrightarrow> off_lists F (curth s c) \<Longrightarrow> off_lists F' (curth s c)"
  shows "kinv Y' F' c0 held (s\<lparr>k_lists := h\<rparr>)"
proof -
  let ?s = "s\<lparr>k_lists := h\<rparr>"
  show ?thesis
  proof (rule kinvI)
    show "other_ok F' ?s c" if "c < ncpu ?s" "c \<noteq> c0" for c
      by (rule other_ok_cong [rotated 8, OF kinvD(5) [OF k]]) (use that run [of c] in auto)
    show "listed_ok ?s l t" if "on_list F' t l" "t \<notin> Y'" for t l
      by (rule listed_ok_cong [rotated 4, OF listed [OF that]]) auto
    show "\<exists>c < ncpu ?s. c \<noteq> c0 \<and> \<not> idle ?s c \<and> curth ?s c = t" if "k_threads ?s t = Some T" "t \<notin> Y'" "off_lists F' t" for t T
      using kinvD(7) [OF k, of t T] off [of t T] that by simp
    show "parked (k_spl ?s) t T"
      if "k_threads ?s t = Some T" "\<forall>c < ncpu ?s. curth ?s c \<noteq> t" "t \<notin> Y'" for t T
      using kinvD(8) [OF k, of t T] ipl [of t T] that by (cases "t \<in> Y") simp_all
  qed (use kinvD(2-4,9-12) [OF k] h in simp_all)
qed

lemma lists_ok_mono: "lists_ok F s \<Longrightarrow> F l \<noteq> None \<Longrightarrow> lists_ok (F(l \<mapsto> xs)) s"
  by (auto simp: lists_ok_def)

text \<open>Taking a thread off a list.\<close>

lemma kinv_take:
  assumes k: "kinv Y F c0 held s" and F: "F l = Some xs" and h: "tl_rel (dom (k_threads s)) (F(l \<mapsto> ys)) h"
    and ys: "set xs \<subseteq> insert t (set ys)" "set ys \<subseteq> set xs"
  shows "kinv (insert t Y) (F(l \<mapsto> ys)) c0 held (s\<lparr>k_lists := h\<rparr>)"
proof -
  have sub: "on_list (F(l \<mapsto> ys)) u l' \<Longrightarrow> on_list F u l'" for u l'
    using F ys(2) by (auto simp: on_list_def split: if_splits)
  have sup: "on_list F u l' \<Longrightarrow> u \<noteq> t \<Longrightarrow> on_list (F(l \<mapsto> ys)) u l'" for u l'
    using F ys(1) by (cases "l' = l") (auto simp: on_list_def)
  show ?thesis
  proof (rule kinv_lists [OF k h])
    show "listed_ok s l' u" if "on_list (F(l \<mapsto> ys)) u l'" "u \<notin> insert t Y" for u l'
      using kinvD(6) [OF k sub [OF that(1)]] that(2) by simp
    show "off_lists F u \<and> u \<notin> Y" if "u \<notin> insert t Y" "off_lists (F(l \<mapsto> ys)) u" for u
      using that sup by (auto simp: off_lists_def)
    show "off_lists (F(l \<mapsto> ys)) (curth s c)" if "off_lists F (curth s c)" for c
      using that sub by (auto simp: off_lists_def)
  qed (use kinvD(10) [OF k] lists_ok_mono F in auto)
qed

text \<open>Putting a thread that is being moved about on a list, and the end of its move.\<close>

lemma kinv_put:
  assumes k: "kinv Y F c0 held s" and F: "F l = Some xs" and h: "tl_rel (dom (k_threads s)) (F(l \<mapsto> ys)) h"
    and ys: "set ys = insert t (set xs)"
    and t: "t \<in> Y" "\<And>c. c < ncpu s \<Longrightarrow> c \<noteq> c0 \<Longrightarrow> curth s c = t \<Longrightarrow> idle s c"
  shows "kinv Y (F(l \<mapsto> ys)) c0 held (s\<lparr>k_lists := h\<rparr>)"
proof -
  have on: "on_list (F(l \<mapsto> ys)) u l' \<longleftrightarrow> on_list F u l' \<or> u = t \<and> l' = l" for u l'
    using F ys by (auto simp: on_list_def)
  show ?thesis
  proof (rule kinv_lists [OF k h])
    show "listed_ok s l' u" if "on_list (F(l \<mapsto> ys)) u l'" "u \<notin> Y" for u l'
      using that t(1) kinvD(6) [OF k, of u l'] by (auto simp: on)
    show "off_lists F u \<and> u \<notin> Y" if "u \<notin> Y" "off_lists (F(l \<mapsto> ys)) u" for u
      using that by (auto simp: on off_lists_def)
    show "off_lists (F(l \<mapsto> ys)) (curth s c)" if "c < ncpu s" "c \<noteq> c0" "\<not> idle s c" "off_lists F (curth s c)" for c
      using that t(2) [of c] by (auto simp: on off_lists_def)
    show "lists_ok (F(l \<mapsto> ys)) s" using lists_ok_mono [OF kinvD(10) [OF k]] F by simp
  qed blast
qed

lemma kinv_settle:
  assumes k: "kinv Y F c0 held s" and t: "on_list F t l" "listed_ok s l t"
    and ipl: "\<And>T. k_threads s t = Some T \<Longrightarrow> (\<forall>c < ncpu s. curth s c \<noteq> t) \<Longrightarrow> parked (k_spl s) t T"
  shows "kinv (Y - {t}) F c0 held s"
proof (rule kinvI)
  show "listed_ok s l' u" if "on_list F u l'" "u \<notin> Y - {t}" for u l'
  proof (cases "u = t")
    case True
    with that(1) have "l = l'" by (intro tl_relD(2) [OF kinvD(1) [OF k] t(1)]) simp
    then show ?thesis using t(2) True by simp
  next
    case False
    then show ?thesis using that by (intro kinvD(6) [OF k that(1)]) simp
  qed
  show "\<exists>c < ncpu s. c \<noteq> c0 \<and> \<not> idle s c \<and> curth s c = u" if "k_threads s u = Some U" "u \<notin> Y - {t}" "off_lists F u" for u U
    using kinvD(7) [OF k that(1)] that t(1) by (cases "u = t") (auto simp: off_lists_def)
  show "parked (k_spl s) u U"
    if "k_threads s u = Some U" "\<forall>c < ncpu s. curth s c \<noteq> u" "u \<notin> Y - {t}" for u U
    using kinvD(8) [OF k that(1,2)] that ipl by (cases "u = t") auto
qed (fact kinvD [OF k])+

text \<open>A thread that is nowhere ceases to exist.\<close>

lemma kinv_delete:
  assumes k: "kinv Y F c0 held s" and t: "off_lists F t" "\<And>c. c < ncpu s \<Longrightarrow> curth s c \<noteq> t"
  shows "kinv (Y - {t}) F c0 held (s\<lparr>k_threads := (k_threads s)(t := None)\<rparr>)"
proof -
  let ?s = "s\<lparr>k_threads := (k_threads s)(t := None)\<rparr>"
  show ?thesis
  proof (rule kinvI)
    show "tl_rel (dom (k_threads ?s)) F (k_lists ?s)"
      using tl_rel_drop_thread [OF kinvD(1) [OF k] t(1)] by simp
    show "\<exists>U. k_threads ?s (curth ?s c) = Some U \<and> t_cpu U = Some c" if "c < ncpu ?s" for c
      using kinvD(4) [OF k, of c] t(2) [of c] that by auto
    show "other_ok F ?s c" if "c < ncpu ?s" "c \<noteq> c0" for c
      by (rule other_ok_cong [rotated 8, OF kinvD(5) [OF k]]) (use that t(2) [of c] in auto)
    show "listed_ok ?s l u" if "on_list F u l" "u \<notin> Y - {t}" for u l
    proof -
      have "u \<noteq> t" using that(1) t(1) by (auto simp: off_lists_def)
      then show ?thesis
        by (intro listed_ok_cong [rotated 4, OF kinvD(6) [OF k that(1)]]) (use that(2) in auto)
    qed
    show "\<exists>c < ncpu ?s. c \<noteq> c0 \<and> \<not> idle ?s c \<and> curth ?s c = u" if "k_threads ?s u = Some U" "u \<notin> Y - {t}" "off_lists F u" for u U
      using kinvD(7) [OF k, of u U] that by (auto split: if_splits)
    show "parked (k_spl ?s) u U"
      if "k_threads ?s u = Some U" "\<forall>c < ncpu ?s. curth ?s c \<noteq> u" "u \<notin> Y - {t}" for u U
      using kinvD(8) [OF k, of u U] that by (auto split: if_splits)
    show "stack_ok U" if "k_threads ?s u = Some U" for u U
      using kinvD(9) [OF k, of u U] that by (auto split: if_splits)
  qed (use kinvD(2,3,10-12) [OF k] in auto)
qed

text \<open>Local lists hold threads that are being moved about.\<close>

lemma kinv_local:
  assumes k: "kinv Y F c0 held s" and h: "tl_rel (dom (k_threads s)) (F(LocalList u := ys)) h"
    and old: "\<And>xs. F (LocalList u) = Some xs \<Longrightarrow> set xs \<subseteq> Y" and new: "\<And>xs. ys = Some xs \<Longrightarrow> set xs \<subseteq> Y"
    and run: "\<And>c xs. ys = Some xs \<Longrightarrow> c < ncpu s \<Longrightarrow> c \<noteq> c0 \<Longrightarrow> \<not> idle s c \<Longrightarrow> curth s c \<notin> set xs"
  shows "kinv Y (F(LocalList u := ys)) c0 held (s\<lparr>k_lists := h\<rparr>)"
proof -
  have on: "on_list (F(LocalList u := ys)) t l \<Longrightarrow> t \<notin> Y \<Longrightarrow> on_list F t l" for t l
    using new by (auto simp: on_list_def split: if_splits)
  have "on_list F t l \<Longrightarrow> t \<notin> Y \<Longrightarrow> on_list (F(LocalList u := ys)) t l" for t l
    using old by (cases "l = LocalList u") (auto simp: on_list_def)
  then have off: "off_lists (F(LocalList u := ys)) t \<Longrightarrow> t \<notin> Y \<Longrightarrow> off_lists F t" for t
    by (auto simp: off_lists_def)
  show ?thesis
  proof (rule kinv_lists [OF k h])
    show "lists_ok (F(LocalList u := ys)) s" using kinvD(10) [OF k] by (simp add: lists_ok_def)
    show "off_lists (F(LocalList u := ys)) (curth s c)"
      if "c < ncpu s" "c \<noteq> c0" "\<not> idle s c" "off_lists F (curth s c)" for c
      using that run [of _ c] by (auto simp: off_lists_def on_list_def split: if_splits)
  qed (use kinvD(6) [OF k] on off in auto)
qed


text \<open>Changes of a processor that leave its current thread alone.\<close>

lemma kinv_cpu:
  assumes k: "kinv Y F c0 held s" and c: "c < ncpu s" "c_curthread C = curth s c" "c_ipi_pending C \<in> {0, 4}"
    "c \<noteq> c0 \<Longrightarrow> c_isidle C = idle s c"
  shows "kinv Y F c0 held (s\<lparr>k_cpus := (k_cpus s)[c := C]\<rparr>)"
proof -
  let ?s = "s\<lparr>k_cpus := (k_cpus s)[c := C]\<rparr>"
  have cur: "c_curthread ((k_cpus s)[c := C] ! c') = curth s c'" for c' using c by (cases "c' = c") simp_all
  have id: "c_isidle ((k_cpus s)[c := C] ! c') = idle s c'" if "c' \<noteq> c0" for c' using c that by (cases "c' = c") simp_all
  show ?thesis
  proof (rule kinvI)
    show "other_ok F ?s c'" if "c' < ncpu ?s" "c' \<noteq> c0" for c'
      by (rule other_ok_cong [rotated 8, OF kinvD(5) [OF k]]) (use that cur id in auto)
    show "listed_ok ?s l t" if "on_list F t l" "t \<notin> Y" for t l
      by (rule listed_ok_cong [rotated 4, OF kinvD(6) [OF k that]]) auto
    show "\<exists>c' < ncpu ?s. c' \<noteq> c0 \<and> \<not> idle ?s c' \<and> curth ?s c' = t" if "k_threads ?s t = Some T" "t \<notin> Y" "off_lists F t" for t T
      using kinvD(7) [OF k, of t T] that cur id by auto
    show "c_ipi_pending (k_cpus ?s ! c') \<in> {0, 4}" if "c' < ncpu ?s" for c'
      using kinvD(12) [OF k, of c'] that c by (cases "c' = c") auto
    show "lists_ok F ?s" using kinvD(10) [OF k] by (simp add: lists_ok_def)
  qed (use kinvD(1-4,8,9,11) [OF k] in \<open>simp_all add: cur\<close>)
qed

lemma listed_ok_misc:
  "listed_ok (s\<lparr>k_tlb := x0\<rparr>) l t = listed_ok s l t"
  "listed_ok (s\<lparr>k_ipiline := x1\<rparr>) l t = listed_ok s l t"
  "listed_ok (s\<lparr>k_procs := x2\<rparr>) l t = listed_ok s l t"
  by (rule iffI; erule listed_ok_cong [rotated 4]; simp)+

lemma other_ok_misc:
  "other_ok F (s\<lparr>k_tlb := x0\<rparr>) c = other_ok F s c"
  "other_ok F (s\<lparr>k_ipiline := x1\<rparr>) c = other_ok F s c"
  "other_ok F (s\<lparr>k_procs := x2\<rparr>) c = other_ok F s c"
  unfolding other_ok_def running_ok_def Let_def by simp_all

lemma kinv_misc:
  assumes "kinv Y F c0 held s"
  shows "kinv Y F c0 held (s\<lparr>k_tlb := x\<rparr>)" "kinv Y F c0 held (s\<lparr>k_ipiline := y\<rparr>)" "kinv Y F c0 held (s\<lparr>k_procs := z\<rparr>)"
  using assms unfolding kinv_def by (simp_all add: listed_ok_misc other_ok_misc)

lemma kinv_sem:
  assumes k: "kinv Y F c0 held s" and S: "k_sems s i = Some S" "sem_wchan S' = sem_wchan S"
  shows "kinv Y F c0 held (s\<lparr>k_sems := (k_sems s)(i \<mapsto> S')\<rparr>)"
proof -
  let ?s = "s\<lparr>k_sems := (k_sems s)(i \<mapsto> S')\<rparr>"
  show ?thesis
  proof (rule kinvI)
    show "other_ok F ?s c" if "c < ncpu ?s" "c \<noteq> c0" for c
      by (rule other_ok_cong [rotated 8, OF kinvD(5) [OF k]]) (use that in auto)
    show "listed_ok ?s l t" if "on_list F t l" "t \<notin> Y" for t l
      by (rule listed_ok_cong [rotated 4, OF kinvD(6) [OF k that]]) (use S in auto)
    show "sems_ok ?s" using kinvD(11) [OF k] S unfolding sems_ok_def by (auto split: if_splits)
  qed (use kinvD(1-4,7-10,12) [OF k] in simp_all)
qed

text \<open>
  The context switch: the old thread, its level high, has its saved count of 2 already, and so has
  the next thread.
\<close>

lemma kinv_switch:
  assumes k: "kinv Y F c0 [lk] s" and cur: "t_curspl (intr (k_spl s) (curth s c0)) = IPL_HIGH"
    and n: "k_threads s n = Some T" "t_cpu T = Some c0" "\<And>c. c < ncpu s \<Longrightarrow> curth s c = n \<Longrightarrow> c = c0"
    and ipl: "n \<noteq> curth s c0 \<Longrightarrow> parked (k_spl s) n T"
    and old: "\<And>T. k_threads s (curth s c0) = Some T \<Longrightarrow> in_irq s (curth s c0) = has_irq (t_context T)"
    and C: "c_curthread C = n" "c_ipi_pending C \<in> {0, 4}"
  shows "kinv Y F c0 [lk] (s\<lparr>k_cpus := (k_cpus s)[c0 := C]\<rparr>)"
proof -
  let ?s = "s\<lparr>k_cpus := (k_cpus s)[c0 := C]\<rparr>"
  note c0 = kinvD(2) [OF k]
  have cpu: "k_cpus ?s ! c = k_cpus s ! c" if "c \<noteq> c0" for c using that by simp
  have cur0: "curth ?s c0 = n" using c0 C by simp
  have p: "t_iplhigh_count (intr (k_spl s) (curth s c0)) = 2" using kinvD(3) [OF k] cur by (simp add: spl_ok_def ipl_defs)
  show ?thesis
  proof (rule kinvI)
    show "spl_ok (curth ?s c0) c0 [lk] (k_spl ?s)"
      using kinvD(3) [OF k] ipl cur p unfolding cur0 by (cases "n = curth s c0") (auto simp: spl_ok_def ipl_defs parked_def)
    show "\<exists>T. k_threads ?s (curth ?s c) = Some T \<and> t_cpu T = Some c" if "c < ncpu ?s" for c
      using kinvD(4) [OF k, of c] that n C by (cases "c = c0") auto
    show "other_ok F ?s c" if "c < ncpu ?s" "c \<noteq> c0" for c
      by (rule other_ok_cong [rotated 8, OF kinvD(5) [OF k]]) (use that in auto)
    show "listed_ok ?s l t" if "on_list F t l" "t \<notin> Y" for t l
      by (rule listed_ok_cong [rotated 4, OF kinvD(6) [OF k that]]) auto
    show "\<exists>c' < ncpu ?s. c' \<noteq> c0 \<and> \<not> idle ?s c' \<and> curth ?s c' = t" if "k_threads ?s t = Some T" "t \<notin> Y" "off_lists F t" for t T
      using kinvD(7) [OF k, of t T] that by auto
    show "parked (k_spl ?s) t T"
      if "k_threads ?s t = Some T" "\<forall>c < ncpu ?s. curth ?s c \<noteq> t" "t \<notin> Y" for t T
    proof (cases "t = curth s c0")
      case False
      have "curth s c \<noteq> t" if "c < ncpu s" for c
        using \<open>\<forall>c < ncpu ?s. curth ?s c \<noteq> t\<close> False cpu [of c] that by (cases "c = c0") auto
      then show ?thesis using kinvD(8) [OF k, of t T] that by simp
    qed (use cur p old that in \<open>simp add: parked_def\<close>)
    show "c_ipi_pending (k_cpus ?s ! c') \<in> {0, 4}" if "c' < ncpu ?s" for c'
      using kinvD(12) [OF k, of c'] that C by (cases "c' = c0") auto
    show "lists_ok F ?s" using kinvD(10) [OF k] by (simp add: lists_ok_def)
  qed (use kinvD(1,2,9,11) [OF k] in simp_all)
qed

subsection \<open>Reading and writing the parts of the state\<close>

lemma same_part [simp]:
  "s\<lparr>k_spl := k_spl s\<rparr> = s" "s\<lparr>k_lists := k_lists s\<rparr> = s" "s\<lparr>k_threads := k_threads s\<rparr> = s"
  "s\<lparr>k_cpus := k_cpus s\<rparr> = s" "s\<lparr>k_sems := k_sems s\<rparr> = s" "s\<lparr>k_procs := k_procs s\<rparr> = s"
  by simp_all

lemma wp_on_spl [simp]:
  "wp (on_spl m) Q E = (\<lambda>s. wp m (\<lambda>x p. Q x (s\<lparr>k_spl := p\<rparr>)) (\<lambda>e p. E e (s\<lparr>k_spl := p\<rparr>)) (k_spl s))"
  by (rule ext) (simp add: on_spl_def)

lemma wp_on_lists [simp]:
  "wp (on_lists m) Q E = (\<lambda>s. wp m (\<lambda>x p. Q x (s\<lparr>k_lists := p\<rparr>)) (\<lambda>e p. E e (s\<lparr>k_lists := p\<rparr>)) (k_lists s))"
  by (rule ext) (simp add: on_lists_def)

lemma wp_on_thread [simp]:
  "wp (on_thread t (kget f)) Q0 E = (\<lambda>s. (case k_threads s t of None \<Rightarrow> False | Some T \<Rightarrow> Q0 (f T) s))"
  "wp (on_thread t (kassert b)) Q E = (\<lambda>s. (case k_threads s t of None \<Rightarrow> False | Some T \<Rightarrow> b T \<and> Q () s))"
  "wp (on_thread t (kmod g)) Q E = (\<lambda>s. (case k_threads s t of None \<Rightarrow> False | Some T \<Rightarrow> Q () (s\<lparr>k_threads := (k_threads s)(t \<mapsto> g T)\<rparr>)))"
  by (rule ext; auto simp: on_thread_def map_upd_triv split: option.splits)+

lemma wp_on_sem [simp]:
  "wp (on_sem i (kget f)) Q0 E = (\<lambda>s. (case k_sems s i of None \<Rightarrow> False | Some S \<Rightarrow> Q0 (f S) s))"
  "wp (on_sem i (kassert b)) Q E = (\<lambda>s. (case k_sems s i of None \<Rightarrow> False | Some S \<Rightarrow> b S \<and> Q () s))"
  "wp (on_sem i (kmod g)) Q E = (\<lambda>s. (case k_sems s i of None \<Rightarrow> False | Some S \<Rightarrow> Q () (s\<lparr>k_sems := (k_sems s)(i \<mapsto> g S)\<rparr>)))"
  by (rule ext; auto simp: on_sem_def map_upd_triv split: option.splits)+

lemma wp_on_proc [simp]:
  "wp (on_proc i (kget f)) Q0 E = (\<lambda>s. (case k_procs s i of None \<Rightarrow> False | Some R \<Rightarrow> Q0 (f R) s))"
  "wp (on_proc i (kassert b)) Q E = (\<lambda>s. (case k_procs s i of None \<Rightarrow> False | Some R \<Rightarrow> b R \<and> Q () s))"
  "wp (on_proc i (kmod g)) Q E = (\<lambda>s. (case k_procs s i of None \<Rightarrow> False | Some R \<Rightarrow> Q () (s\<lparr>k_procs := (k_procs s)(i \<mapsto> g R)\<rparr>)))"
  by (rule ext; auto simp: on_proc_def map_upd_triv split: option.splits)+

lemma wp_on_cpu [simp]:
  "wp (on_cpu c (kget f)) Q0 E = (\<lambda>s. (c < ncpu s \<and> Q0 (f (k_cpus s ! c)) s))"
  "wp (on_cpu c (kmod g)) Q E = (\<lambda>s. (c < ncpu s \<and> Q () (s\<lparr>k_cpus := (k_cpus s)[c := g (k_cpus s ! c)]\<rparr>)))"
  by (rule ext; auto simp: on_cpu_def)+

subsection \<open>Locks, levels and interrupts under the invariant\<close>

abbreviation lvl :: "machine \<Rightarrow> tid \<Rightarrow> int" where
  "lvl s t \<equiv> t_curspl (intr (k_spl s) t)"

text \<open>
  What functions leave alone that only move threads and take locks (\<open>kcalm\<close>), and what functions
  leave alone that only take and release locks, change the level, or send interrupts (\<open>steady\<close>).
\<close>

definition kcalm :: "tid \<Rightarrow> machine \<Rightarrow> machine \<Rightarrow> bool" where
  "kcalm cur s s' \<longleftrightarrow> ncpu s' = ncpu s \<and> (\<forall>c < ncpu s. curth s' c = curth s c \<and> idle s' c = idle s c) \<and>
     k_wchans s' = k_wchans s \<and> k_sems s' = k_sems s \<and> k_procs s' = k_procs s \<and> k_kproc s' = k_kproc s \<and>
     k_lbolt s' = k_lbolt s \<and> (\<forall>t. t \<noteq> cur \<longrightarrow> intr (k_spl s') t = intr (k_spl s) t) \<and>
     in_irq s' cur = in_irq s cur \<and>
     (\<forall>c \<ge> ncpu s. irqs_on (k_spl s') c = irqs_on (k_spl s) c \<and> c_spinlocks (k_spl s') c = c_spinlocks (k_spl s) c)"

definition steady :: "tid \<Rightarrow> machine \<Rightarrow> machine \<Rightarrow> bool" where
  "steady cur s s' \<longleftrightarrow> k_threads s' = k_threads s \<and> k_lists s' = k_lists s \<and> kcalm cur s s'"

lemma kcalm_refl [simp]: "kcalm cur s s"
  by (simp add: kcalm_def)

lemma kcalm_trans: "kcalm cur s s' \<Longrightarrow> kcalm cur s' s'' \<Longrightarrow> kcalm cur s s''"
  by (simp add: kcalm_def)

lemma steady_refl [simp]: "steady cur s s"
  by (simp add: steady_def)

lemma steady_trans: "steady cur s s' \<Longrightarrow> steady cur s' s'' \<Longrightarrow> steady cur s s''"
  by (auto simp: steady_def intro: kcalm_trans)

lemma steady_calm: "steady cur s s' \<Longrightarrow> kcalm cur s s'"
  by (simp add: steady_def)

lemma kcalm_upd [simp]:
  "kcalm cur s (s\<lparr>k_threads := x\<rparr>)" "kcalm cur s (s\<lparr>k_lists := y\<rparr>)" "kcalm cur s (s\<lparr>k_tlb := z\<rparr>)" "kcalm cur s (s\<lparr>k_ipiline := u\<rparr>)"
  by (simp_all add: kcalm_def)

lemma steady_upd [simp]: "steady cur s (s\<lparr>k_tlb := z\<rparr>)" "steady cur s (s\<lparr>k_ipiline := u\<rparr>)"
  by (simp_all add: steady_def)

lemma kcalmD:
  assumes "kcalm cur s s'"
  shows "ncpu s' = ncpu s" "c < ncpu s \<Longrightarrow> curth s' c = curth s c" "c < ncpu s \<Longrightarrow> idle s' c = idle s c"
    "k_wchans s' = k_wchans s" "k_sems s' = k_sems s" "k_procs s' = k_procs s" "k_kproc s' = k_kproc s"
    "k_lbolt s' = k_lbolt s" "t \<noteq> cur \<Longrightarrow> intr (k_spl s') t = intr (k_spl s) t" "in_irq s' t = in_irq s t"
  using assms by (cases "t = cur"; simp add: kcalm_def)+

lemma kcalm_beyond:
  "kcalm cur s s' \<Longrightarrow> ncpu s \<le> c \<Longrightarrow> irqs_on (k_spl s') c = irqs_on (k_spl s) c \<and> c_spinlocks (k_spl s') c = c_spinlocks (k_spl s) c"
  by (simp add: kcalm_def)

lemma steadyD:
  assumes "steady cur s s'"
  shows "k_threads s' = k_threads s" "k_lists s' = k_lists s"
  using assms by (simp_all add: steady_def)

lemma steady_spl: "spl_frame cur c (k_spl s) p \<Longrightarrow> c < ncpu s \<Longrightarrow> steady cur s (s\<lparr>k_spl := p\<rparr>)"
  by (auto simp: steady_def kcalm_def spl_frame_def)

lemma curcpu_wp:
  assumes "kinv Y F c held s" "cur = curth s c" "Q c s"
  shows "wp (curcpu cur) Q E s"
  using curth_live [OF assms(1)] assms(2,3) by (auto simp: curcpu_def)

lemma acquire_wp:
  assumes k: "kinv Y F c held s" "cur = curth s c" and lk: "lk \<notin> set held" "length held < 8"
    and Q: "\<And>s'. kinv Y F c (lk # held) s' \<Longrightarrow> steady cur s s' \<Longrightarrow> lvl s' cur = lvl s cur \<Longrightarrow> Q () s'"
  shows "wp (acquire cur lk) Q E s"
  unfolding acquire_def wp_kbind
  by (rule curcpu_wp [OF k]) (auto simp: k(2) intro!: spinlock_acquire_wp [OF kinvD(3) [OF k(1)] lk]
      Q [unfolded k(2)] kinv_spl [OF k(1)] steady_spl kinvD(2) [OF k(1)])

lemma release_wp:
  assumes k: "kinv Y F c held s" "cur = curth s c" and lk: "lk \<in> set held"
    and Q: "\<And>s'. kinv Y F c (remove1 lk held) s' \<Longrightarrow> steady cur s s' \<Longrightarrow> lvl s' cur = lvl s cur \<Longrightarrow> Q () s'"
  shows "wp (release cur lk) Q E s"
  unfolding release_def wp_kbind
  by (rule curcpu_wp [OF k]) (auto simp: k(2) intro!: spinlock_release_wp [OF kinvD(3) [OF k(1)] lk]
      Q [unfolded k(2)] kinv_spl [OF k(1)] steady_spl kinvD(2) [OF k(1)])

lemma set_spl_wp:
  assumes k: "kinv Y F c held s" "cur = curth s c" and i: "i \<in> {IPL_NONE, IPL_HIGH}"
    and Q: "\<And>s'. kinv Y F c held s' \<Longrightarrow> steady cur s s' \<Longrightarrow> lvl s' cur = i \<Longrightarrow> Q (lvl s cur) s'"
  shows "wp (set_spl cur i) Q E s"
  unfolding set_spl_def wp_kbind
  by (rule curcpu_wp [OF k]) (auto simp: k(2) intro!: splx_wp [OF kinvD(3) [OF k(1)] i]
      Q [unfolded k(2)] kinv_spl [OF k(1)] steady_spl kinvD(2) [OF k(1)])

lemma do_i_hold_wp:
  assumes k: "kinv Y F c held s" "cur = curth s c" and Q: "Q (lk \<in> set held) s"
  shows "wp (do_i_hold cur lk) Q E s"
  unfolding do_i_hold_def wp_kbind
  by (rule curcpu_wp [OF k]) (use Q in \<open>auto intro!: spinlock_do_i_hold_wp [OF kinvD(3) [OF k(1)]]\<close>)

end
