(* ===== verification/Kern_Ops.thy ===== *)
theory Kern_Ops
  imports Kern_Inv
begin

text \<open>
  The functions of the thread system under the invariant: none of them panics or hangs, and each
  leads back to the invariant.
\<close>

subsection \<open>Interrupts to other processors, address spaces\<close>

lemma or4: "(x :: u32w) \<in> {0, 4} \<Longrightarrow> x OR push_bit IPI_UNIDLE 1 \<in> {0, 4}"
  by (auto simp: IPI_UNIDLE_def)

lemma ipi_send_wp:
  assumes k: "kinv Y F c held s" "cur = curth s c" and lk: "IpiLock tc \<notin> set held" "length held < 8" "tc < ncpu s"
    and Q: "\<And>s'. kinv Y F c held s' \<Longrightarrow> steady cur s s' \<Longrightarrow> lvl s' cur = lvl s cur \<Longrightarrow> Q () s'"
  shows "wp (ipi_send cur tc IPI_UNIDLE) Q E s"
proof -
  note c = kinvD(2) [OF k(1)]
  have rel: "wp (release cur (IpiLock tc)) Q E
      (s1\<lparr>k_cpus := (k_cpus s1)[tc := (k_cpus s1 ! tc)\<lparr>c_ipi_pending := c_ipi_pending (k_cpus s1 ! tc) OR push_bit IPI_UNIDLE 1\<rparr>],
          k_ipiline := (k_ipiline s1)(tc := True)\<rparr>)" (is "wp _ _ _ ?s")
    if k1: "kinv Y F c (IpiLock tc # held) s1" "steady cur s s1" "lvl s1 cur = lvl s cur" for s1
  proof -
    let ?s' = "s1\<lparr>k_cpus := (k_cpus s1)[tc := (k_cpus s1 ! tc)\<lparr>c_ipi_pending := c_ipi_pending (k_cpus s1 ! tc) OR push_bit IPI_UNIDLE 1\<rparr>]\<rparr>"
    have n: "ncpu s1 = ncpu s" "curth s1 c = cur" using kcalmD [OF steady_calm [OF k1(2)]] c k(2) by simp_all
    have "kinv Y F c (IpiLock tc # held) ?s'"
      by (rule kinv_cpu [OF k1(1)]) (use lk(3) n kinvD(12) [OF k1(1), of tc] or4 in auto)
    then have k2: "kinv Y F c (IpiLock tc # held) ?s" by (rule kinv_misc(2))
    have cur2: "curth ?s c' = curth s1 c'" "idle ?s c' = idle s1 c'" for c'
      using lk(3) n(1) by (cases "c' = tc"; simp)+
    have st: "steady cur s1 ?s" using cur2 by (simp add: steady_def kcalm_def)
    show ?thesis
    proof (rule release_wp [OF k2])
      show "cur = curth ?s c" using cur2(1) [of c] n(2) by simp
      show "Q () s'" if "kinv Y F c (remove1 (IpiLock tc) (IpiLock tc # held)) s'" "steady cur ?s s'" "lvl s' cur = lvl ?s cur" for s'
        by (rule Q) (use that k1 st in \<open>auto intro: steady_trans\<close>)
    qed simp
  qed
  show ?thesis
    unfolding ipi_send_def mainbus_send_ipi_def wp_kthen wp_kassert
    using lk rel kcalmD(1) [OF steady_calm]
    by (auto simp: IPI_UNIDLE_def intro!: acquire_wp [OF k])
qed

text \<open>The process of the current thread exists.\<close>

definition curproc_ok :: "machine \<Rightarrow> tid \<Rightarrow> bool" where
  "curproc_ok s cur \<longleftrightarrow> (\<forall>p. snd (tview s cur) = Some p \<longrightarrow> p \<in> dom (k_procs s))"

lemma procs_ok_cur: "procs_ok s \<Longrightarrow> curproc_ok s cur"
  by (auto simp: procs_ok_def curproc_ok_def)

lemma proc_getas_wp:
  assumes k: "kinv Y F c held s" "cur = curth s c" and lk: "\<And>p. ProcLock p \<notin> set held" "length held < 8"
    and p: "curproc_ok s cur"
    and Q: "\<And>s' as. kinv Y F c held s' \<Longrightarrow> steady cur s s' \<Longrightarrow> lvl s' cur = lvl s cur \<Longrightarrow> Q as s'"
  shows "wp (proc_getas cur) Q E s"
proof -
  obtain T where T: "k_threads s cur = Some T" using curth_live [OF k(1)] k(2) by auto
  show ?thesis
  proof (cases "t_proc T")
    case None
    then show ?thesis using T Q [OF k(1)] by (simp add: proc_getas_def)
  next
    case (Some p)
    then obtain R where R: "k_procs s p = Some R" using p T by (auto simp: curproc_ok_def tview_def)
    have "wp (release cur (ProcLock p)) (\<lambda>_. Q (p_addrspace R)) E s1"
      if k1: "kinv Y F c (ProcLock p # held) s1" "steady cur s s1" "lvl s1 cur = lvl s cur" for s1
    proof (rule release_wp [OF k1(1)])
      show "cur = curth s1 c" using kcalmD(2) [OF steady_calm [OF k1(2)]] kinvD(2) [OF k(1)] k(2) by simp
      show "Q (p_addrspace R) s'" if "kinv Y F c (remove1 (ProcLock p) (ProcLock p # held)) s'" "steady cur s1 s'" "lvl s' cur = lvl s1 cur" for s'
        by (rule Q) (use that k1 in \<open>auto intro: steady_trans\<close>)
    qed simp
    then have "wp (acquire cur (ProcLock p)) (\<lambda>_ s. case k_procs s p of None \<Rightarrow> False
        | Some R \<Rightarrow> wp (release cur (ProcLock p)) (\<lambda>_. Q (p_addrspace R)) E s) E s"
      by (intro acquire_wp [OF k lk]) (auto simp: kcalmD(6) [OF steady_calm] R)
    then show ?thesis using T Some by (simp add: proc_getas_def)
  qed
qed

lemma as_activate_wp:
  assumes k: "kinv Y F c held s" "cur = curth s c" and lk: "\<And>p. ProcLock p \<notin> set held" "length held < 8"
    and p: "curproc_ok s cur"
    and Q: "\<And>s'. kinv Y F c held s' \<Longrightarrow> steady cur s s' \<Longrightarrow> lvl s' cur = lvl s cur \<Longrightarrow> Q () s'"
  shows "wp (as_activate cur) Q E s"
proof -
  have flush: "wp (kbind (set_spl cur IPL_HIGH) (\<lambda>spl.
         kbind (curcpu cur) (\<lambda>c.
           kthen (kmod (\<lambda>s. s\<lparr>k_tlb := (k_tlb s)(c := map (\<lambda>i. (TLBHI_INVALID i, TLBLO_INVALID)) [0 ..< NUM_TLB])\<rparr>))
             (kthen (set_spl cur spl) (kret ()))))) Q E s1"
    if k1: "kinv Y F c held s1" "steady cur s s1" "lvl s1 cur = lvl s cur" for s1
    unfolding wp_kbind
  proof (rule set_spl_wp [OF k1(1)])
    show cur1: "cur = curth s1 c" using kcalmD(2) [OF steady_calm [OF k1(2)]] kinvD(2) [OF k(1)] k(2) by simp
    have l: "lvl s1 cur \<in> {IPL_NONE, IPL_HIGH}" using kinvD(3) [OF k1(1)] cur1 by (simp add: spl_ok_def)
    fix s2 assume k2: "kinv Y F c held s2" "steady cur s1 s2" "lvl s2 cur = IPL_HIGH"
    let ?s = "s2\<lparr>k_tlb := (k_tlb s2)(c := map (\<lambda>i. (TLBHI_INVALID i, TLBLO_INVALID)) [0 ..< NUM_TLB])\<rparr>"
    have cur2: "cur = curth s2 c" using kcalmD(2) [OF steady_calm [OF k2(2)]] kinvD(2) [OF k1(1)] cur1 by simp
    have st: "steady cur s ?s" by (rule steady_trans [OF k1(2) steady_trans [OF k2(2) steady_upd(1)]])
    have "wp (set_spl cur (lvl s1 cur)) (\<lambda>_. Q ()) E ?s"
    proof (rule set_spl_wp [OF kinv_misc(1) [OF k2(1)] _ l])
      show "Q () s'" if "kinv Y F c held s'" "steady cur ?s s'" "lvl s' cur = lvl s1 cur" for s'
        by (rule Q) (use that k1 in \<open>auto intro: steady_trans [OF st]\<close>)
    qed (simp add: cur2)
    then show "wp (curcpu cur) (\<lambda>c. wp (kthen (kmod (\<lambda>s. s\<lparr>k_tlb := (k_tlb s)(c := map (\<lambda>i. (TLBHI_INVALID i, TLBLO_INVALID)) [0 ..< NUM_TLB])\<rparr>))
             (kthen (set_spl cur (lvl s1 cur)) (kret ()))) Q E) E s2"
      by (intro curcpu_wp [OF k2(1) cur2]) simp
  qed simp
  show ?thesis
    unfolding as_activate_def wp_kbind
    by (rule proc_getas_wp [OF k lk p]) (use flush Q in auto)
qed


subsection \<open>Making threads runnable\<close>

lemma addtail_wp:
  assumes k: "kinv Y F c held s" and F: "F l = Some xs" and t: "t \<in> Y" "k_threads s t = Some T" "off_lists F t"
      "\<And>c'. c' < ncpu s \<Longrightarrow> c' \<noteq> c \<Longrightarrow> curth s c' = t \<Longrightarrow> idle s c'"
    and Q: "\<And>h. kinv Y (F(l \<mapsto> xs @ [t])) c held (s\<lparr>k_lists := h\<rparr>) \<Longrightarrow> Q () (s\<lparr>k_lists := h\<rparr>)"
  shows "wp (on_lists (threadlist_addtail l t)) Q E s"
proof -
  have "wp (threadlist_addtail l t) (\<lambda>_. tl_rel (dom (k_threads s)) (F(l \<mapsto> xs @ [t]))) (\<lambda>e p. E e (s\<lparr>k_lists := p\<rparr>)) (k_lists s)"
    by (rule threadlist_addtail_wp [OF kinvD(1) [OF k] F]) (use t in auto)
  then show ?thesis
    unfolding wp_on_lists
    by (rule wp_conseq) (use kinv_put [OF k F _ _ t(1)] t(4) Q in auto)
qed

lemma runqueue_some: "kinv Y F c held s \<Longrightarrow> tc < ncpu s \<Longrightarrow> \<exists>xs. F (Runqueue tc) = Some xs"
  using kinvD(10) by (auto simp: lists_ok_def)

lemma make_runnable_core:
  assumes k: "kinv Y F c held s" "cur = curth s c" and t: "t \<in> Y" "k_threads s t = Some T" "off_lists F t" "tc < ncpu s"
      "\<And>c'. c' < ncpu s \<Longrightarrow> c' \<noteq> c \<Longrightarrow> curth s c' = t \<Longrightarrow> idle s c'"
    and lk: "IpiLock tc \<notin> set held" "length held < 8"
    and Q: "\<And>s' xs. F (Runqueue tc) = Some xs \<Longrightarrow> kinv Y (F(Runqueue tc \<mapsto> xs @ [t])) c held s' \<Longrightarrow>
      k_threads s' = (k_threads s)(t \<mapsto> T\<lparr>t_state := S_READY\<rparr>) \<Longrightarrow> kcalm cur s s' \<Longrightarrow> lvl s' cur = lvl s cur \<Longrightarrow> Q () s'"
  shows "wp (kthen (on_thread t (kmod (\<lambda>T. T\<lparr>t_state := S_READY\<rparr>)))
            (kthen (on_lists (threadlist_addtail (Runqueue tc) t))
               (kbind (on_cpu tc (kget c_isidle)) (\<lambda>idle.
                  kbind (curcpu cur) (\<lambda>c.
                    kwhen (idle \<and> tc \<noteq> c) (ipi_send cur tc IPI_UNIDLE)))))) Q E s"
proof -
  obtain xs where F: "F (Runqueue tc) = Some xs" using runqueue_some [OF k(1) t(4)] by blast
  let ?s = "s\<lparr>k_threads := (k_threads s)(t \<mapsto> T\<lparr>t_state := S_READY\<rparr>)\<rparr>"
  have k1: "kinv Y F c held ?s"
    by (rule kinv_thread [OF k(1) t(2)]) (use kinvD(9) [OF k(1) t(2)] t in \<open>auto simp: stack_ok_def\<close>)
  have "wp (on_lists (threadlist_addtail (Runqueue tc) t)) (\<lambda>_. wp (kbind (on_cpu tc (kget c_isidle)) (\<lambda>idle.
                  kbind (curcpu cur) (\<lambda>c. kwhen (idle \<and> tc \<noteq> c) (ipi_send cur tc IPI_UNIDLE)))) Q E) E ?s"
  proof (rule addtail_wp [OF k1 F t(1)])
    fix h let ?s2 = "?s\<lparr>k_lists := h\<rparr>"
    assume k2: "kinv Y (F(Runqueue tc \<mapsto> xs @ [t])) c held ?s2"
    have cur2: "cur = curth ?s2 c" using k(2) by simp
    have st: "kcalm cur s ?s2" by (simp add: kcalm_def)
    have "wp (ipi_send cur tc IPI_UNIDLE) Q E ?s2"
      by (rule ipi_send_wp [OF k2 cur2 lk])
        (use t(4) in \<open>auto intro!: Q [OF F] kcalm_trans [OF st] dest: steadyD(1) steady_calm\<close>)
    moreover have "Q () ?s2" by (rule Q [OF F k2]) (use st in simp_all)
    ultimately have "wp (curcpu cur) (\<lambda>c. wp (kwhen (idle ?s2 tc \<and> tc \<noteq> c) (ipi_send cur tc IPI_UNIDLE)) Q E) E ?s2"
      by (intro curcpu_wp [OF k2 cur2]) simp
    then show "wp (kbind (on_cpu tc (kget c_isidle)) (\<lambda>idle.
                  kbind (curcpu cur) (\<lambda>c. kwhen (idle \<and> tc \<noteq> c) (ipi_send cur tc IPI_UNIDLE)))) Q E ?s2"
      using t(4) by simp
  qed (use t in auto)
  then show ?thesis using t(2) by simp
qed

lemma kbind_assoc: "kbind (kbind m k) j = kbind m (\<lambda>x. kbind (k x) j)"
  by (rule ext) (simp add: kbind_def split: prod.splits outcome.splits)

lemma make_runnable_alt: "thread_make_runnable cur t have_lock =
     kbind (on_thread t (kget t_cpu)) (\<lambda>tc. kbind (knonnull tc) (\<lambda>tc.
       kthen (if have_lock
              then kbind (do_i_hold cur (RunqueueLock tc)) (\<lambda>b. kassert (\<lambda>_. b))
              else acquire cur (RunqueueLock tc))
         (kthen (kthen (on_thread t (kmod (\<lambda>T. T\<lparr>t_state := S_READY\<rparr>)))
            (kthen (on_lists (threadlist_addtail (Runqueue tc) t))
               (kbind (on_cpu tc (kget c_isidle)) (\<lambda>idle.
                  kbind (curcpu cur) (\<lambda>c.
                    kwhen (idle \<and> tc \<noteq> c) (ipi_send cur tc IPI_UNIDLE))))))
           (kwhen (\<not> have_lock) (release cur (RunqueueLock tc))))))"
  unfolding thread_make_runnable_def by (simp add: kthen_def kbind_assoc)

lemma thread_make_runnable_wp:
  assumes k: "kinv Y F c held s" "cur = curth s c"
    and t: "t \<in> Y" "k_threads s t = Some T" "off_lists F t" "t_cpu T = Some tc" "tc < ncpu s"
      "\<And>c'. c' < ncpu s \<Longrightarrow> c' \<noteq> c \<Longrightarrow> curth s c' = t \<Longrightarrow> idle s c'"
    and lk: "IpiLock tc \<notin> set held" "length held < 7" "have_lock \<longleftrightarrow> RunqueueLock tc \<in> set held"
    and Q: "\<And>s' xs. F (Runqueue tc) = Some xs \<Longrightarrow> kinv Y (F(Runqueue tc \<mapsto> xs @ [t])) c held s' \<Longrightarrow>
      k_threads s' = (k_threads s)(t \<mapsto> T\<lparr>t_state := S_READY\<rparr>) \<Longrightarrow> kcalm cur s s' \<Longrightarrow> lvl s' cur = lvl s cur \<Longrightarrow> Q () s'"
  shows "wp (thread_make_runnable cur t have_lock) Q E s"
proof (cases have_lock)
  case True
  have "wp (do_i_hold cur (RunqueueLock tc)) (\<lambda>b s. b \<and> wp (kthen (on_thread t (kmod (\<lambda>T. T\<lparr>t_state := S_READY\<rparr>)))
            (kthen (on_lists (threadlist_addtail (Runqueue tc) t))
               (kbind (on_cpu tc (kget c_isidle)) (\<lambda>idle.
                  kbind (curcpu cur) (\<lambda>c.
                    kwhen (idle \<and> tc \<noteq> c) (ipi_send cur tc IPI_UNIDLE)))))) Q E s) E s"
    by (rule do_i_hold_wp [OF k], rule conjI, use lk True in simp, rule make_runnable_core [OF k t(1-3,5,6) lk(1)])
      (use lk Q in auto)
  then show ?thesis using True t(2,4) by (simp add: make_runnable_alt)
next
  case False
  have "wp (acquire cur (RunqueueLock tc)) (\<lambda>_. wp (kthen (on_thread t (kmod (\<lambda>T. T\<lparr>t_state := S_READY\<rparr>)))
            (kthen (on_lists (threadlist_addtail (Runqueue tc) t))
               (kbind (on_cpu tc (kget c_isidle)) (\<lambda>idle.
                  kbind (curcpu cur) (\<lambda>c.
                    kwhen (idle \<and> tc \<noteq> c) (ipi_send cur tc IPI_UNIDLE))))))
      (\<lambda>_. wp (release cur (RunqueueLock tc)) Q E) E) E s"
  proof (rule acquire_wp [OF k])
    fix s1 assume k1: "kinv Y F c (RunqueueLock tc # held) s1" "steady cur s s1" "lvl s1 cur = lvl s cur"
    note st = kcalmD [OF steady_calm [OF k1(2)]] steadyD [OF k1(2)]
    have cur1: "cur = curth s1 c" using st(2) kinvD(2) [OF k(1)] k(2) by simp
    show "wp (kthen (on_thread t (kmod (\<lambda>T. T\<lparr>t_state := S_READY\<rparr>)))
            (kthen (on_lists (threadlist_addtail (Runqueue tc) t))
               (kbind (on_cpu tc (kget c_isidle)) (\<lambda>idle.
                  kbind (curcpu cur) (\<lambda>c.
                    kwhen (idle \<and> tc \<noteq> c) (ipi_send cur tc IPI_UNIDLE))))))
      (\<lambda>_. wp (release cur (RunqueueLock tc)) Q E) E s1"
    proof (rule make_runnable_core [OF k1(1) cur1 t(1) _ t(3)])
      fix s2 xs assume k2: "F (Runqueue tc) = Some xs" "kinv Y (F(Runqueue tc \<mapsto> xs @ [t])) c (RunqueueLock tc # held) s2"
        "k_threads s2 = (k_threads s1)(t \<mapsto> T\<lparr>t_state := S_READY\<rparr>)" "kcalm cur s1 s2" "lvl s2 cur = lvl s1 cur"
      have cur2: "cur = curth s2 c" using kcalmD(2) [OF k2(4)] kinvD(2) [OF k1(1)] cur1 by simp
      show "wp (release cur (RunqueueLock tc)) Q E s2"
      proof (rule release_wp [OF k2(2) cur2])
        fix s3 assume k3: "kinv Y (F(Runqueue tc \<mapsto> xs @ [t])) c (remove1 (RunqueueLock tc) (RunqueueLock tc # held)) s3"
          "steady cur s2 s3" "lvl s3 cur = lvl s2 cur"
        show "Q () s3"
          by (rule Q [OF k2(1)])
            (use k1 k2 k3 steadyD in \<open>auto intro: kcalm_trans [OF steady_calm [OF k1(2)]] kcalm_trans [OF k2(4)] dest: steady_calm\<close>)
      qed simp
    qed (use t lk st in auto)
  qed (use lk False in auto)
  then show ?thesis using False t(2,4) by (simp add: make_runnable_alt)
qed


subsection \<open>Zombies\<close>

lemma remhead_wp:
  assumes k: "kinv Y F c held s" and F: "F l = Some xs"
    and Nil: "xs = [] \<Longrightarrow> Q None s"
    and Cons: "\<And>x ys h. xs = x # ys \<Longrightarrow> kinv (insert x Y) (F(l \<mapsto> ys)) c held (s\<lparr>k_lists := h\<rparr>) \<Longrightarrow> off_lists (F(l \<mapsto> ys)) x \<Longrightarrow>
      Q (Some x) (s\<lparr>k_lists := h\<rparr>)"
  shows "wp (on_lists (threadlist_remhead l)) Q E s"
  unfolding wp_on_lists
proof (rule wp_conseq [OF threadlist_remhead_wp [OF kinvD(1) [OF k] F]])
  fix t h assume t: "case xs of [] \<Rightarrow> t = None \<and> h = k_lists s | x # ys \<Rightarrow> t = Some x \<and> tl_rel (dom (k_threads s)) (F(l \<mapsto> ys)) h"
  show "Q t (s\<lparr>k_lists := h\<rparr>)"
  proof (cases xs)
    case (Cons x ys)
    have "off_lists (F(l \<mapsto> ys)) x" using tl_rel_apart [OF kinvD(1) [OF k], of l "[]" x ys] F Cons by simp
    moreover have "kinv (insert x Y) (F(l \<mapsto> ys)) c held (s\<lparr>k_lists := h\<rparr>)"
      by (rule kinv_take [OF k F]) (use Cons t in auto)
    ultimately show ?thesis using t Cons assms(4) by auto
  qed (use t Nil in auto)
qed auto

lemma thread_destroy_wp:
  assumes k: "kinv Y F c held s" and t: "k_threads s t = Some T" "t \<noteq> cur" "t_state T \<noteq> S_RUN" "t_proc T = None" "off_lists F t"
      "\<And>c'. c' < ncpu s \<Longrightarrow> curth s c' \<noteq> t"
    and Q: "kinv (Y - {t}) F c held (s\<lparr>k_threads := (k_threads s)(t := None)\<rparr>) \<Longrightarrow> Q () (s\<lparr>k_threads := (k_threads s)(t := None)\<rparr>)"
  shows "wp (thread_destroy cur t) Q E s"
  unfolding thread_destroy_def
  using t Q kinv_delete [OF k t(5,6)] by (auto intro!: threadlistnode_cleanup_wp [OF kinvD(1) [OF k]])

lemma zombies_some: "kinv Y F c held s \<Longrightarrow> tc < ncpu s \<Longrightarrow> \<exists>xs. F (Zombies tc) = Some xs"
  using kinvD(10) by (auto simp: lists_ok_def)

lemma exorcise_wp:
  assumes k: "kinv {cur} F c held s" "cur = curth s c" "off_lists F cur"
    and Q: "\<And>s'. kinv {cur} (F(Zombies c \<mapsto> [])) c held s' \<Longrightarrow> k_threads s' cur = k_threads s cur \<Longrightarrow> tview s' = tview s \<Longrightarrow>
      kcalm cur s s' \<Longrightarrow> k_spl s' = k_spl s \<Longrightarrow> Q () s'"
  shows "wp (exorcise cur) Q E s"
proof -
  define I where "I n s' \<longleftrightarrow> (\<exists>zs. length zs = n \<and> kinv {cur} (F(Zombies c \<mapsto> zs)) c held s' \<and>
    off_lists (F(Zombies c \<mapsto> zs)) cur \<and>
    k_threads s' cur = k_threads s cur \<and> tview s' = tview s \<and> kcalm cur s s' \<and> k_spl s' = k_spl s)" for n s'
  obtain zs where zs: "F (Zombies c) = Some zs" using zombies_some [OF k(1)] kinvD(2) [OF k(1)] by auto
  have init: "I (length zs) s" unfolding I_def using k(1,3) zs by (intro exI [of _ zs]) (simp add: fun_upd_idem)
  let ?body = "kbind (curcpu cur) (\<lambda>c. kbind (on_lists (threadlist_remhead (Zombies c))) (\<lambda>z.
         case z of None \<Rightarrow> kret (Inr ())
         | Some z \<Rightarrow> kthen (kassert (\<lambda>_. z \<noteq> cur))
               (kthen (on_thread z (kassert (\<lambda>T. t_state T = S_ZOMBIE)))
                  (kthen (thread_destroy cur z) (kret (Inl ()))))))"
  have step: "wp ?body (\<lambda>r s'. case r of Inl y \<Rightarrow> \<exists>m<n. I m s' | Inr z \<Rightarrow> Q z s') E s1" if J: "I n s1" for n s1
  proof -
    obtain zs where zs: "length zs = n" and k1: "kinv {cur} (F(Zombies c \<mapsto> zs)) c held s1" "off_lists (F(Zombies c \<mapsto> zs)) cur"
      and s1: "k_threads s1 cur = k_threads s cur" "tview s1 = tview s" "kcalm cur s s1" "k_spl s1 = k_spl s"
      using J unfolding I_def by blast
    have cur1: "cur = curth s1 c" using kcalmD(2) [OF s1(3)] kinvD(2) [OF k(1)] k(2) by simp
    have destroy: "wp (kthen (kassert (\<lambda>_. z \<noteq> cur))
               (kthen (on_thread z (kassert (\<lambda>T. t_state T = S_ZOMBIE)))
                  (kthen (thread_destroy cur z) (kret (Inl ())))))
        (\<lambda>r s'. case r of Inl y \<Rightarrow> \<exists>m<n. I m s' | Inr z \<Rightarrow> Q z s') E (s1\<lparr>k_lists := h\<rparr>)"
      if z: "zs = z # ys" "kinv (insert z {cur}) (F(Zombies c \<mapsto> ys)) c held (s1\<lparr>k_lists := h\<rparr>)"
        "off_lists (F(Zombies c \<mapsto> ys)) z" for z ys h
    proof -
      have on: "on_list (F(Zombies c \<mapsto> zs)) z (Zombies c)" by (simp add: on_list_def z(1))
      then have ne: "z \<noteq> cur" using k1(2) by (auto simp: off_lists_def)
      then obtain T spl r where T: "k_threads s1 z = Some T" "t_state T = S_ZOMBIE" "t_cpu T = Some c" "t_proc T = None"
          "t_context T = InSwitch spl # InExit # r"
        using kinvD(6) [OF k1(1) on] by (auto simp: listed_ok_def)
      have nc: "curth s1 c' \<noteq> z" if "c' < ncpu s1" for c'
        using kinvD(4) [OF k1(1) that] T ne cur1 by auto
      have "wp (thread_destroy cur z) (\<lambda>_ s'. \<exists>m<n. I m s') E (s1\<lparr>k_lists := h\<rparr>)"
      proof (rule thread_destroy_wp [OF z(2)])
        let ?s = "s1\<lparr>k_lists := h, k_threads := (k_threads (s1\<lparr>k_lists := h\<rparr>))(z := None)\<rparr>"
        assume "kinv (insert z {cur} - {z}) (F(Zombies c \<mapsto> ys)) c held ?s"
        moreover have "insert z {cur} - {z} = {cur}" using ne by auto
        moreover have "off_lists (F(Zombies c \<mapsto> ys)) cur"
          using k1(2) z(1) by (auto simp: off_lists_def on_list_def split: if_splits)
        moreover have "tview ?s = tview s1" using T by (auto simp: tview_def fun_eq_iff)
        moreover have "kcalm cur s ?s" by (rule kcalm_trans [OF s1(3)]) (simp add: kcalm_def)
        ultimately have "I (length ys) ?s" unfolding I_def using s1 ne by (intro exI [of _ ys]) simp
        then show "\<exists>m<n. I m ?s" using zs z(1) by (intro exI [of _ "length ys"]) simp
      qed (use T ne z(3) nc in auto)
      then show ?thesis using ne T by simp
    qed
    show ?thesis
      unfolding wp_kbind
    proof (rule curcpu_wp [OF k1(1) cur1], rule remhead_wp [OF k1(1)])
      show "wp (case None of None \<Rightarrow> kret (Inr ()) | Some z \<Rightarrow> kthen (kassert (\<lambda>_. z \<noteq> cur))
               (kthen (on_thread z (kassert (\<lambda>T. t_state T = S_ZOMBIE)))
                  (kthen (thread_destroy cur z) (kret (Inl ())))))
          (\<lambda>r s'. case r of Inl y \<Rightarrow> \<exists>m<n. I m s' | Inr z \<Rightarrow> Q z s') E s1" if "zs = []"
        using Q [of s1] k1 s1 that by simp
    qed (use destroy in auto)
  qed
  show ?thesis
    unfolding exorcise_def
    by (rule wp_kloop [where I = "\<lambda>n _. I n"]) (rule init, rule step)
qed


subsection \<open>The context switch\<close>

text \<open>The state between operations, seen from one processor.\<close>

definition rest :: "(listid \<rightharpoonup> tid list) \<Rightarrow> cpuid \<Rightarrow> machine \<Rightarrow> bool" where
  "rest F c s \<longleftrightarrow> kinv (if idle s c then {} else {curth s c}) F c [] s \<and>
     (if idle s c
      then lvl s (curth s c) = IPL_HIGH \<and> (\<exists>T. k_threads s (curth s c) = Some T \<and> in_irq s (curth s c) = has_irq (t_context T))
      else running_ok F s c)"

text \<open>What the rest of the kernel sees of the threads, semaphores and processes.\<close>

definition view where
  "view F s = (tview s, k_sems s, (\<lambda>w. F (WcThreads w)), k_procs s, k_kproc s, k_wchans s, k_lbolt s, ncpu s)"

lemma view_calm:
  assumes "kcalm cur s s'" "tview s' = tview s" "\<And>w. F' (WcThreads w) = F (WcThreads w)"
  shows "view F' s' = view F s"
  using assms kcalmD [OF assms(1)] by (simp add: view_def)

lemma tview_upd: "tview (s\<lparr>k_threads := (k_threads s)(t \<mapsto> T)\<rparr>) = (tview s)(t := (pend (t_context T), t_proc T))"
  by (auto simp: tview_def fun_eq_iff)

lemma tview_steady: "steady cur s s' \<Longrightarrow> tview s' = tview s"
  by (simp add: tview_def steadyD fun_eq_iff)

lemma curproc_ok_cong: "curproc_ok s cur \<Longrightarrow> tview s' cur = tview s cur \<Longrightarrow> k_procs s' = k_procs s \<Longrightarrow> curproc_ok s' cur"
  by (simp add: curproc_ok_def)

lemma resume_tail:
  assumes k: "kinv {n} F c [RunqueueLock c] s" "n = curth s c" "\<not> idle s c" "off_lists F n" "curproc_ok s n"
    and Q: "\<And>s'. kinv {n} (F(Zombies c \<mapsto> [])) c [] s' \<Longrightarrow> kcalm n s s' \<Longrightarrow> k_threads s' n = k_threads s n \<Longrightarrow> tview s' = tview s \<Longrightarrow>
      lvl s' n = lvl s n \<Longrightarrow> wp m Q E s'"
  shows "wp (kbind (curcpu n) (\<lambda>c. kthen (release n (RunqueueLock c)) (kthen (as_activate n) (kthen (exorcise n) m)))) Q E s"
  unfolding wp_kbind wp_kthen
proof (rule curcpu_wp [OF k(1,2)], rule release_wp [OF k(1,2)])
  note c = kinvD(2) [OF k(1)]
  fix s1 assume k1: "kinv {n} F c (remove1 (RunqueueLock c) [RunqueueLock c]) s1" "steady n s s1" "lvl s1 n = lvl s n"
  have cur1: "n = curth s1 c" using kcalmD(2) [OF steady_calm [OF k1(2)]] c k(2) by simp
  show "wp (as_activate n) (\<lambda>_. wp (exorcise n) (\<lambda>_. wp m Q E) E) E s1"
  proof (rule as_activate_wp [OF k1(1) cur1])
    show "curproc_ok s1 n"
      by (rule curproc_ok_cong [OF k(5)]) (simp_all add: tview_steady [OF k1(2)] kcalmD(6) [OF steady_calm [OF k1(2)]])
    fix s2 assume k2: "kinv {n} F c (remove1 (RunqueueLock c) [RunqueueLock c]) s2" "steady n s1 s2" "lvl s2 n = lvl s1 n"
    have st: "steady n s s2" by (rule steady_trans [OF k1(2) k2(2)])
    have cur2: "n = curth s2 c" using kcalmD(2) [OF steady_calm [OF st]] c k(2) by simp
    show "wp (exorcise n) (\<lambda>_. wp m Q E) E s2"
    proof (rule exorcise_wp [OF _ cur2 k(4)])
      show "kinv {n} F c [] s2" using k2(1) by simp
      fix s3 assume "kinv {n} (F(Zombies c \<mapsto> [])) c [] s3" "k_threads s3 n = k_threads s2 n" "tview s3 = tview s2"
        "kcalm n s2 s3" "k_spl s3 = k_spl s2"
      then show "wp m Q E s3"
        using Q [of s3] kcalm_trans [OF steady_calm [OF st]] steadyD(1) [OF st] tview_steady [OF st] k1(3) k2(3) by simp
    qed
  qed auto
qed simp

lemma saved_cases:
  assumes "saved_ok fs"
  obtains (Switch) spl r where "fs = InSwitch spl # r" "spl \<in> {IPL_NONE, IPL_HIGH}" "frames_ok (has_irq fs) spl r"
  | (Start) e d1 d2 where "fs = [ToStartup e d1 d2]" "\<not> has_irq fs"
  using assms by (auto simp: saved_ok_def has_irq_def split: list.splits frame.splits)

lemma restI:
  assumes "kinv {cur} F c [] s" "cur = curth s c" "\<not> idle s c" "k_threads s cur = Some T" "t_state T \<in> {S_RUN, S_READY}"
    "t_proc T \<noteq> None" "off_lists F cur" "frames_ok (in_irq s cur) (lvl s cur) (t_context T)"
  shows "rest F c s"
  using assms by (auto simp: rest_def running_ok_def)

lemma thread_resume_wp:
  assumes k: "kinv {n} F c [RunqueueLock c] s" "n = curth s c" "\<not> idle s c" "off_lists F n" "curproc_ok s n"
    and T: "k_threads s n = Some T" "saved_ok (t_context T)" "t_proc T \<noteq> None" "in_irq s n = has_irq (t_context T)"
    and Q: "\<And>s' F'. rest F' c s' \<Longrightarrow> \<not> idle s' c \<Longrightarrow> curth s' c = n \<Longrightarrow> view F' s' = view F s \<Longrightarrow>
      (\<And>c'. F' (Runqueue c') = F (Runqueue c')) \<Longrightarrow> Q () s'"
  shows "wp (thread_resume n) Q E s"
proof -
  let ?T = "T\<lparr>t_context := tl (t_context T), t_wchan_name := None, t_state := S_RUN\<rparr>"
  let ?s = "s\<lparr>k_threads := (k_threads s)(n \<mapsto> ?T)\<rparr>"
  let ?m = "case t_context T of
       InSwitch spl # _ \<Rightarrow> kthen (set_spl n spl) (kret ())
     | ToStartup e d1 d2 # _ \<Rightarrow> kthen (set_spl n IPL_NONE) (push_frames n [InEntry e d1 d2])
     | _ \<Rightarrow> kpanic"
  note c = kinvD(2) [OF k(1)]
  have pend: "pend (tl (t_context T)) = pend (t_context T)" using T(2) by (cases rule: saved_cases) auto
  have tv: "tview ?s = tview s" using T(1) pend by (auto simp: tview_def fun_eq_iff)
  have k1: "kinv {n} F c [RunqueueLock c] ?s"
    by (rule kinv_thread [OF k(1) T(1)]) (use kinvD(9) [OF k(1) T(1)] curth_inj [OF k(1) _ c] k(2) in \<open>auto simp: stack_ok_def\<close>)
  have fin: "wp ?m Q E s1"
    if s1: "kinv {n} (F(Zombies c \<mapsto> [])) c [] s1" "kcalm n ?s s1" "k_threads s1 n = k_threads ?s n" "tview s1 = tview ?s" for s1
  proof -
    let ?F = "F(Zombies c \<mapsto> [])"
    have off: "off_lists ?F n" using k(4) by (auto simp: off_lists_def on_list_def)
    have T1: "k_threads s1 n = Some ?T" using s1(3) by simp
    have cur1: "n = curth s1 c" "\<not> idle s1 c" using kcalmD(2,3) [OF s1(2)] c k(2,3) by simp_all
    have irq: "in_irq s1 n = in_irq s n" using kcalmD(10) [OF s1(2), of n] by simp
    have ca: "kcalm n s s1" by (rule kcalm_trans [OF _ s1(2)]) simp
    show ?thesis
      using T(2)
    proof (cases rule: saved_cases)
      case (Switch spl r)
      have "wp (set_spl n spl) (\<lambda>_. Q ()) E s1"
      proof (rule set_spl_wp [OF s1(1) cur1(1) Switch(2)])
        fix s2 assume k2: "kinv {n} ?F c [] s2" "steady n s1 s2" "lvl s2 n = spl"
        note st = kcalmD [OF steady_calm [OF k2(2)]] steadyD [OF k2(2)]
        have cur2: "n = curth s2 c" "\<not> idle s2 c" using st(2,3) [of c] kinvD(2) [OF s1(1)] cur1 by simp_all
        have "rest ?F c s2"
          by (rule restI [OF k2(1) cur2, where T = ?T]) (use T1 st T(3,4) off Switch irq k2(3) in auto)
        moreover have "view ?F s2 = view F s"
          by (rule view_calm [OF kcalm_trans [OF ca steady_calm [OF k2(2)]]]) (simp_all add: tview_steady [OF k2(2)] s1(4) tv)
        ultimately show "Q () s2" using Q [of ?F s2] cur2 by simp
      qed
      then show ?thesis by (simp add: Switch(1))
    next
      case (Start e d1 d2)
      have "wp (set_spl n IPL_NONE) (\<lambda>_. wp (push_frames n [InEntry e d1 d2]) Q E) E s1"
      proof (rule set_spl_wp [OF s1(1) cur1(1)])
        fix s2 assume k2: "kinv {n} ?F c [] s2" "steady n s1 s2" "lvl s2 n = IPL_NONE"
        note st = kcalmD [OF steady_calm [OF k2(2)]] steadyD [OF k2(2)]
        let ?T2 = "?T\<lparr>t_context := [InEntry e d1 d2]\<rparr>"
        let ?s3 = "s2\<lparr>k_threads := (k_threads s2)(n \<mapsto> ?T2)\<rparr>"
        have T2: "k_threads s2 n = Some ?T" using T1 st by simp
        have cur2: "n = curth s2 c" "\<not> idle s2 c" using st(2,3) [of c] kinvD(2) [OF s1(1)] cur1 by simp_all
        have k3: "kinv {n} ?F c [] ?s3"
          by (rule kinv_thread [OF k2(1) T2])
            (use kinvD(9) [OF k2(1) T2] curth_inj [OF k2(1) _ kinvD(2) [OF k2(1)]] cur2 in \<open>auto simp: stack_ok_def\<close>)
        have "rest ?F c ?s3"
          by (rule restI [OF k3, where T = ?T2]) (use cur2 T(3,4) off Start irq st(10) [of n] in \<open>auto simp: frames_ok_def base_ok_def entry_ok_def\<close>)
        moreover have "view ?F ?s3 = view F s"
        proof (rule view_calm)
          show "kcalm n s ?s3" by (rule kcalm_trans [OF kcalm_trans [OF ca steady_calm [OF k2(2)]]]) simp
          have "tview s2 = tview s" by (simp add: tview_steady [OF k2(2)] s1(4) tv)
          moreover have "tview s n = (None, t_proc T)" using T(1) Start by (simp add: tview_def)
          ultimately show "tview ?s3 = tview s" unfolding tview_upd by auto
        qed simp
        ultimately show "wp (push_frames n [InEntry e d1 d2]) Q E s2"
          using Q [of ?F ?s3] cur2 T2 Start by (simp add: push_frames_def)
      qed simp
      then show ?thesis by (simp add: Start(1))
    qed
  qed
  have "wp (kbind (curcpu n) (\<lambda>c. kthen (release n (RunqueueLock c)) (kthen (as_activate n) (kthen (exorcise n) ?m)))) Q E ?s"
    by (rule resume_tail [OF k1]) (use k curproc_ok_cong [OF k(5), of ?s] tv fin in auto)
  then show ?thesis using T(1) by (simp add: thread_resume_def pop_frame_def)
qed


text \<open>What a processor runs next, with \<open>F\<close> the lists when it looks: the head of its run queue.\<close>

definition picks :: "cpuid \<Rightarrow> (listid \<rightharpoonup> tid list) \<Rightarrow> (listid \<rightharpoonup> tid list) \<Rightarrow> machine \<Rightarrow> bool" where
  "picks c F F' s' \<longleftrightarrow> (\<forall>c'. c' \<noteq> c \<longrightarrow> F' (Runqueue c') = F (Runqueue c')) \<and>
     (case F (Runqueue c) of
        Some (n # ns) \<Rightarrow> \<not> idle s' c \<and> curth s' c = n \<and> F' (Runqueue c) = Some ns
      | _ \<Rightarrow> idle s' c \<and> F' (Runqueue c) = F (Runqueue c))"

lemma view_lists: "view F' (s\<lparr>k_lists := h\<rparr>) = view F s" if "\<And>w. F' (WcThreads w) = F (WcThreads w)"
  using that by (simp add: view_def tview_def fun_eq_iff)

lemma view_cpus: "view F (s\<lparr>k_cpus := (k_cpus s)[c := C]\<rparr>) = view F s"
  by (simp add: view_def tview_def fun_eq_iff)

lemma thread_switch_next_wp:
  assumes k: "kinv {} F c [RunqueueLock c] s" "cur = curth s c" "idle s c" "lvl s cur = IPL_HIGH" "procs_ok s"
      "\<And>T. k_threads s cur = Some T \<Longrightarrow> in_irq s cur = has_irq (t_context T)"
    and Q: "\<And>F' s'. rest F' c s' \<Longrightarrow> view F' s' = view F s \<Longrightarrow> picks c F F' s' \<Longrightarrow> Q () s'"
  shows "wp (thread_switch_next cur) Q E s"
proof -
  note c = kinvD(2) [OF k(1)]
  obtain xs where F: "F (Runqueue c) = Some xs" using runqueue_some [OF k(1) c] by blast
  have none: "wp (release cur (RunqueueLock c)) Q E s" if e: "xs = []"
  proof (rule release_wp [OF k(1,2)])
    fix s1 assume k1: "kinv {} F c (remove1 (RunqueueLock c) [RunqueueLock c]) s1" "steady cur s s1" "lvl s1 cur = lvl s cur"
    note st = kcalmD [OF steady_calm [OF k1(2)]]
    obtain T where "k_threads s cur = Some T" using curth_live [OF k(1)] k(2) by auto
    then have "rest F c s1"
      using k1 k(2-4,6) c st(2,3,10) steadyD(1) [OF k1(2)] by (simp add: rest_def)
    moreover have "view F s1 = view F s" by (rule view_calm [OF steady_calm [OF k1(2)] tview_steady [OF k1(2)]]) simp
    moreover have "picks c F F s1" using F e st(3) c k(3) by (simp add: picks_def)
    ultimately show "Q () s1" by (rule Q)
  qed simp
  have some: "wp (kthen (on_cpu c (kmod (\<lambda>C. C\<lparr>c_isidle := False\<rparr>)))
               (kthen (on_cpu c (kmod (\<lambda>C. C\<lparr>c_curthread := n\<rparr>))) (thread_resume n))) Q E (s\<lparr>k_lists := h\<rparr>)"
    if n: "xs = n # ys" "kinv {n} (F(Runqueue c \<mapsto> ys)) c [RunqueueLock c] (s\<lparr>k_lists := h\<rparr>)"
      "off_lists (F(Runqueue c \<mapsto> ys)) n" for n ys h
  proof -
    let ?C = "(k_cpus s ! c)\<lparr>c_isidle := False, c_curthread := n\<rparr>"
    let ?s = "s\<lparr>k_lists := h, k_cpus := (k_cpus s)[c := ?C]\<rparr>"
    have on: "on_list F n (Runqueue c)" by (simp add: on_list_def F n(1))
    obtain T where T: "k_threads s n = Some T" "t_cpu T = Some c" "t_proc T \<noteq> None" "saved_ok (t_context T)"
      using kinvD(6) [OF k(1) on] by (auto simp: listed_ok_def)
    have only: "c' = c" if "c' < ncpu s" "curth s c' = n" for c'
      using kinvD(4) [OF k(1) that(1)] T that(2) by simp
    have ipl: "parked (k_spl s) n T" if "n \<noteq> cur"
      using kinvD(8) [OF k(1) T(1)] only that k(2) by auto
    have k2: "kinv {n} (F(Runqueue c \<mapsto> ys)) c [RunqueueLock c] ?s"
      using kinv_switch [OF n(2), of n T ?C] k(2,4,6) T only ipl kinvD(12) [OF k(1) c] by simp
    have irq: "in_irq s n = has_irq (t_context T)" using ipl k(6) T(1) by (cases "n = cur") (auto simp: parked_def)
    have v: "view (F(Runqueue c \<mapsto> ys)) ?s = view F s"
      using view_cpus [where F = "F(Runqueue c \<mapsto> ys)" and s = "s\<lparr>k_lists := h\<rparr>" and c = c and C = ?C] view_lists [of "F(Runqueue c \<mapsto> ys)" F h s] by simp
    have "wp (thread_resume n) Q E ?s"
    proof (rule thread_resume_wp [OF k2 _ _ n(3)])
      show "curproc_ok ?s n" by (rule curproc_ok_cong [OF procs_ok_cur [OF k(5)]]) (simp_all add: tview_def)
      fix s2 F2 assume r: "rest F2 c s2" "\<not> idle s2 c" "curth s2 c = n" "view F2 s2 = view (F(Runqueue c \<mapsto> ys)) ?s"
        "\<And>c'. F2 (Runqueue c') = (F(Runqueue c \<mapsto> ys)) (Runqueue c')"
      show "Q () s2" by (rule Q [OF r(1)]) (use r v F n(1) in \<open>auto simp: picks_def\<close>)
    qed (use c T irq in auto)
    then show ?thesis using c by simp
  qed
  have "wp (on_lists (threadlist_remhead (Runqueue c))) (\<lambda>n. wp (case n of
           None \<Rightarrow> release cur (RunqueueLock c)
         | Some n \<Rightarrow> kthen (on_cpu c (kmod (\<lambda>C. C\<lparr>c_isidle := False\<rparr>)))
               (kthen (on_cpu c (kmod (\<lambda>C. C\<lparr>c_curthread := n\<rparr>))) (thread_resume n))) Q E) E s"
  proof (rule remhead_wp [OF k(1) F], goal_cases)
    case 1
    then show ?case unfolding option.case by (intro none)
  next
    case (2 n ys h)
    then show ?case unfolding option.case by (intro some) auto
  qed
  then show ?thesis unfolding thread_switch_next_def wp_kbind by (intro curcpu_wp [OF k(1,2)])
qed

lemma thread_switch_idle_wp:
  assumes k: "rest F c s" "cur = curth s c" "idle s c" "procs_ok s"
    and Q: "\<And>F' s'. rest F' c s' \<Longrightarrow> view F' s' = view F s \<Longrightarrow> picks c F F' s' \<Longrightarrow> Q () s'"
  shows "wp (thread_switch_idle cur) Q E s"
proof -
  have k0: "kinv {} F c [] s" "lvl s cur = IPL_HIGH" "\<And>T. k_threads s cur = Some T \<Longrightarrow> in_irq s cur = has_irq (t_context T)"
    using k(1-3) by (auto simp: rest_def)
  note c = kinvD(2) [OF k0(1)]
  have "wp (acquire cur (RunqueueLock c)) (\<lambda>_. wp (thread_switch_next cur) Q E) E s"
  proof (rule acquire_wp [OF k0(1) k(2)])
    fix s1 assume k1: "kinv {} F c [RunqueueLock c] s1" "steady cur s s1" "lvl s1 cur = lvl s cur"
    note st = kcalmD [OF steady_calm [OF k1(2)]]
    have v: "view F s1 = view F s" by (rule view_calm [OF steady_calm [OF k1(2)] tview_steady [OF k1(2)]]) simp
    have "procs_ok s1" using k(4) st tview_steady [OF k1(2)] by (simp add: procs_ok_def)
    then show "wp (thread_switch_next cur) Q E s1"
      by (intro thread_switch_next_wp [OF k1(1)]) (use k(2,3) st(2,3,10) c k1(3) k0(2,3) steadyD(1) [OF k1(2)] Q v in auto)
  qed auto
  then show ?thesis unfolding thread_switch_idle_def wp_kbind wp_kthen by (intro curcpu_wp [OF k0(1) k(2)])
qed


lemma stack_ok_cong: "stack_ok T \<Longrightarrow> t_stack T' = t_stack T \<Longrightarrow> stack_ok T'"
  by (simp add: stack_ok_def)

lemma kinv_cur:
  assumes k: "kinv {cur} F c held s" "cur = curth s c" and T: "k_threads s cur = Some T" "t_cpu T' = t_cpu T" "t_stack T' = t_stack T"
  shows "kinv {cur} F c held (s\<lparr>k_threads := (k_threads s)(cur \<mapsto> T')\<rparr>)"
proof (rule kinv_thread [OF k(1) T(1,2) stack_ok_cong [OF kinvD(9) [OF k(1) T(1)] T(3)]])
  fix c' assume "c' < ncpu s" "c' \<noteq> c" "curth s c' = cur"
  then show "idle s c' \<and> t_context T' = t_context T" using curth_inj [OF k(1), of c' c] kinvD(2) [OF k(1)] k(2) by simp
qed simp

lemma switch_finish:
  fixes cur ns spl fs T s
  defines "T' \<equiv> T\<lparr>t_state := ns, t_context := (InSwitch spl # fs) @ t_context T\<rparr>"
  defines "s' \<equiv> s\<lparr>k_threads := (k_threads s)(cur \<mapsto> T')\<rparr>"
  assumes k: "kinv {cur} F c [RunqueueLock c] s" "cur = curth s c" and T: "k_threads s cur = Some T" "lvl s cur = IPL_HIGH"
    and l: "on_list F cur l" "listed_ok s' l cur" "in_irq s cur = has_irq (fs @ t_context T)" "procs_ok s'"
    and Q: "\<And>F' s''. rest F' c s'' \<Longrightarrow> view F' s'' = view F s' \<Longrightarrow> picks c F F' s'' \<Longrightarrow> Q () s''"
  shows "wp (kthen (on_thread cur (kmod (\<lambda>T. T\<lparr>t_state := ns\<rparr>)))
            (kthen (push_frames cur (InSwitch spl # fs))
               (kthen (on_cpu c (kmod (\<lambda>C. C\<lparr>c_isidle := True\<rparr>)))
                  (thread_switch_next cur)))) Q E s"
proof -
  note c = kinvD(2) [OF k(1)]
  let ?C = "(k_cpus s ! c)\<lparr>c_isidle := True\<rparr>"
  let ?s = "s'\<lparr>k_cpus := (k_cpus s)[c := ?C]\<rparr>"
  have "kinv {cur} F c [RunqueueLock c] s'"
    unfolding s'_def by (rule kinv_cur [OF k T(1)]) (simp_all add: T'_def)
  then have "kinv ({cur} - {cur}) F c [RunqueueLock c] s'"
    by (rule kinv_settle [OF _ l(1,2)]) (use k(2) c in \<open>auto simp: s'_def\<close>)
  then have k1: "kinv {} F c [RunqueueLock c] s'" by simp
  have k2: "kinv {} F c [RunqueueLock c] ?s"
    using kinv_cpu [OF k1, of c ?C] c kinvD(12) [OF k(1) c] by (simp add: s'_def)
  have tv: "tview ?s = tview s'" by (simp add: tview_def fun_eq_iff)
  have v: "view F ?s = view F s'" by (simp add: view_def tview_def s'_def fun_eq_iff)
  have "procs_ok ?s" using l(4) tv by (simp add: procs_ok_def s'_def)
  moreover have "in_irq s cur = has_irq (t_context T')" using l(3) by (simp add: T'_def has_irq_def)
  ultimately have "wp (thread_switch_next cur) Q E ?s"
    by (intro thread_switch_next_wp [OF k2]) (use c k(2) T l(3) Q v in \<open>auto simp: s'_def\<close>)
  then show ?thesis using T(1) c by (simp add: push_frames_def s'_def T'_def)
qed

lemma switch_begin:
  assumes k: "kinv {cur} F c held s" "cur = curth s c" "\<not> idle s c" and lk: "RunqueueLock c \<notin> set held" "length held < 8"
    and m: "\<And>s1. kinv {cur} F c (RunqueueLock c # held) s1 \<Longrightarrow> steady cur s s1 \<Longrightarrow> lvl s1 cur = IPL_HIGH \<Longrightarrow>
      wp (kbind (on_lists (threadlist_isempty (Runqueue c))) (\<lambda>empty.
            if ns = S_READY \<and> empty then
              kthen (release cur (RunqueueLock c)) (kthen (set_spl cur (lvl s cur)) (push_frames cur fs))
            else
              kthen (thread_enqueue cur c ns wl)
                (kthen (on_thread cur (kmod (\<lambda>T. T\<lparr>t_state := ns\<rparr>)))
                   (kthen (push_frames cur (InSwitch (lvl s cur) # fs))
                      (kthen (on_cpu c (kmod (\<lambda>C. C\<lparr>c_isidle := True\<rparr>)))
                         (thread_switch_next cur)))))) Q E s1"
  shows "wp (thread_switch cur ns wl fs) Q E s"
  unfolding thread_switch_def wp_kbind
proof (rule set_spl_wp [OF k(1,2)], goal_cases)
  case (2 s1)
  note c = kinvD(2) [OF k(1)]
  note st = kcalmD [OF steady_calm [OF 2(2)]] steadyD [OF 2(2)]
  have cur1: "cur = curth s1 c" "\<not> idle s1 c" "c < ncpu s1" using st(1-3) c k(2,3) by simp_all
  obtain T where T: "k_threads s1 cur = Some T" using curth_live [OF 2(1)] cur1(1) by auto
  have chk: "wp (thread_checkstack cur) R E s1" if "R () s1" for R
    using that T kinvD(9) [OF 2(1) T] by (auto simp: thread_checkstack_def stack_ok_def)
  show ?case
  proof (rule curcpu_wp [OF 2(1) cur1(1)], subst wp_on_cpu(1), rule conjI [OF cur1(3)],
      subst if_not_P [OF cur1(2)], subst wp_kthen, rule chk, subst wp_kthen, rule acquire_wp [OF 2(1) cur1(1) lk], goal_cases)
    case (1 s2)
    from m [OF 1(1) steady_trans [OF 2(2) 1(2)]] 1(3) 2(3) show ?case by simp
  qed
qed simp


lemma entry_no_irq: "entry_ok fs \<Longrightarrow> \<not> has_irq fs"
  by (auto simp: entry_ok_def has_irq_def)

lemma base_no_irq: "base_ok fs \<Longrightarrow> \<not> has_irq fs"
  by (auto simp: base_ok_def entry_ok_def has_irq_def split: list.splits frame.splits)

lemma frames_irq: "frames_ok irq spl fs \<Longrightarrow> irq = has_irq fs"
proof (cases "\<exists>a b r. fs = InIrq a b # r")
  case False
  assume "frames_ok irq spl fs"
  then have "\<not> irq \<and> base_ok fs" using False by (auto simp: frames_ok_def split: list.splits frame.splits)
  then show ?thesis using base_no_irq by blast
qed (force simp: frames_ok_def has_irq_def)

lemma running_facts:
  assumes k: "kinv {cur} F c held s" "cur = curth s c" "running_ok F s c"
  obtains T where "k_threads s cur = Some T" "t_cpu T = Some c" "t_proc T \<noteq> None" "off_lists F cur"
    "t_state T \<in> {S_RUN, S_READY}" "frames_ok (in_irq s cur) (lvl s cur) (t_context T)" "in_irq s cur = has_irq (t_context T)"
    "lvl s cur \<in> {IPL_NONE, IPL_HIGH}"
proof -
  obtain T where "k_threads s cur = Some T" "t_cpu T = Some c" using curth_live [OF k(1)] k(2) by auto
  moreover from this k(2,3) have "t_proc T \<noteq> None" "off_lists F cur" "t_state T \<in> {S_RUN, S_READY}"
      "frames_ok (in_irq s cur) (lvl s cur) (t_context T)"
    by (auto simp: running_ok_def)
  moreover from this(4) have "in_irq s cur = has_irq (t_context T)" by (rule frames_irq)
  moreover have "lvl s cur \<in> {IPL_NONE, IPL_HIGH}" using kinvD(3) [OF k(1)] k(2) by (simp add: spl_ok_def)
  ultimately show thesis by (rule that)
qed

lemma yield_idle_wp:
  assumes k: "kinv Y F c held s" "cur = curth s c" "idle s c" "lvl s cur = IPL_HIGH"
    and Q: "\<And>s'. kinv Y F c held s' \<Longrightarrow> steady cur s s' \<Longrightarrow> lvl s' cur = lvl s cur \<Longrightarrow> Q () s'"
  shows "wp (thread_yield cur) Q E s"
  unfolding thread_yield_def thread_switch_def wp_kbind
proof (rule set_spl_wp [OF k(1,2)], goal_cases)
  case (2 s1)
  note st = kcalmD [OF steady_calm [OF 2(2)]] steadyD [OF 2(2)]
  have cur1: "cur = curth s1 c" "idle s1 c" "c < ncpu s1" using st(1-3) kinvD(2) [OF k(1)] k(2,3) by simp_all
  show ?case
  proof (rule curcpu_wp [OF 2(1) cur1(1)], subst wp_on_cpu(1), rule conjI [OF cur1(3)],
      subst if_P [OF cur1(2)], subst wp_kthen, rule set_spl_wp [OF 2(1) cur1(1)], goal_cases)
    case (2 s2)
    have cur2: "cur = curth s2 c"
      using kcalmD(2) [OF steady_calm [OF 2(2)]] cur1 by simp
    then obtain T where T: "k_threads s2 cur = Some T" using curth_live [OF 2(1)] by auto
    have "Q () s2" using Q [OF 2(1) steady_trans [OF \<open>steady cur s s1\<close> 2(2)]] 2(3) by simp
    then show ?case using T by (simp add: push_frames_def map_upd_triv)
  qed (simp add: k(4))
qed simp

lemma procs_ok_cong:
  "procs_ok s \<Longrightarrow> (\<And>t. snd (tview s' t) = snd (tview s t)) \<Longrightarrow> k_procs s' = k_procs s \<Longrightarrow> k_kproc s' = k_kproc s \<Longrightarrow> procs_ok s'"
  by (simp add: procs_ok_def)

lemma yield_running_wp:
  assumes k: "kinv {cur} F c [] s" "cur = curth s c" "\<not> idle s c" "running_ok F s c" "procs_ok s"
    and Q: "\<And>F' s'. rest F' c s' \<Longrightarrow> view F' s' = view F s \<Longrightarrow>
      (if F (Runqueue c) = Some [] then F' = F \<and> curth s' c = cur \<and> \<not> idle s' c
       else picks c (F(Runqueue c \<mapsto> the (F (Runqueue c)) @ [cur])) F' s') \<Longrightarrow> Q () s'"
  shows "wp (thread_yield cur) Q E s"
  unfolding thread_yield_def
proof (rule switch_begin [OF k(1-3)], goal_cases)
  case (3 s1)
  obtain T where T: "k_threads s cur = Some T" "t_cpu T = Some c" "t_proc T \<noteq> None" "off_lists F cur"
    "t_state T \<in> {S_RUN, S_READY}" "frames_ok (in_irq s cur) (lvl s cur) (t_context T)" "in_irq s cur = has_irq (t_context T)"
    "lvl s cur \<in> {IPL_NONE, IPL_HIGH}"
    using running_facts [OF k(1,2,4)] by blast
  note c = kinvD(2) [OF k(1)]
  note st = kcalmD [OF steady_calm [OF 3(2)]] steadyD [OF 3(2)]
  have cur1: "cur = curth s1 c" "\<not> idle s1 c" "c < ncpu s1" using st(1-3) c k(2,3) by simp_all
  have T1: "k_threads s1 cur = Some T" using st T by simp
  obtain xs where F: "F (Runqueue c) = Some xs" using runqueue_some [OF k(1) c] by blast
  have v1: "view F s1 = view F s" by (rule view_calm [OF steady_calm [OF 3(2)] tview_steady [OF 3(2)]]) simp
  have empty: "wp (kthen (release cur (RunqueueLock c)) (kthen (set_spl cur (lvl s cur)) (push_frames cur []))) Q E s1" if e: "xs = []"
    unfolding wp_kthen
  proof (rule release_wp [OF 3(1) cur1(1)], simp, rule set_spl_wp [where i = "lvl s cur" and c = c and Y = "{cur}" and F = F and held = "[]"], goal_cases)
    case (2 s2)
    show ?case using kcalmD(2) [OF steady_calm [OF 2(2)]] cur1 by simp
  next
    case (4 s2 s3)
    have ss: "steady cur s s3" by (rule steady_trans [OF \<open>steady cur s s1\<close> steady_trans [OF 4(2,5)]])
    note st3 = kcalmD [OF steady_calm [OF ss]] steadyD [OF ss]
    have "rest F c s3"
      by (rule restI [where T = T]) (use 4 st3 T k(2,3) c in auto)
    moreover have "view F s3 = view F s" by (rule view_calm [OF steady_calm [OF ss] tview_steady [OF ss]]) simp
    moreover have "curth s3 c = cur" "\<not> idle s3 c" using st3(2,3) c k(2,3) by simp_all
    ultimately have "Q () s3" using F e by (intro Q) auto
    moreover have "k_threads s3 cur = Some T" using st3(11) T(1) by simp
    ultimately show ?case by (simp add: push_frames_def map_upd_triv)
  qed (use T(8) in auto)
  have some: "wp (kthen (thread_enqueue cur c S_READY None)
                (kthen (on_thread cur (kmod (\<lambda>T. T\<lparr>t_state := S_READY\<rparr>)))
                   (kthen (push_frames cur [InSwitch (lvl s cur)])
                      (kthen (on_cpu c (kmod (\<lambda>C. C\<lparr>c_isidle := True\<rparr>)))
                         (thread_switch_next cur))))) Q E s1" if ne: "xs \<noteq> []"
    unfolding thread_enqueue_def threadstate.case wp_kthen [of "thread_make_runnable _ _ _"]
  proof (rule thread_make_runnable_wp [OF 3(1) cur1(1) _ T1 T(4,2) cur1(3)], goal_cases)
    case (6 s2 ys)
    have ca: "kcalm cur s s2" by (rule kcalm_trans [OF steady_calm [OF 3(2)] 6(4)])
    note st2 = kcalmD [OF ca]
    let ?T = "T\<lparr>t_state := S_READY, t_context := [InSwitch (lvl s cur)] @ t_context T\<rparr>"
    let ?s = "s2\<lparr>k_threads := (k_threads s2)(cur \<mapsto> ?T)\<rparr>"
    have cur2: "cur = curth s2 c" using st2(2) c k(2) by simp
    have tv: "tview ?s = tview s" using 6(3) st(11) T(1) by (auto simp: tview_def fun_eq_iff)
    have "procs_ok ?s" by (rule procs_ok_cong [OF k(5)]) (use st2 tv in simp_all)
    moreover have "view (F(Runqueue c \<mapsto> ys @ [cur])) ?s = view F s"
      by (rule view_calm [OF kcalm_trans [OF ca] tv]) simp_all
    moreover have "Q () s'" if "rest F' c s'" "view F' s' = view F s" "picks c (F(Runqueue c \<mapsto> ys @ [cur])) F' s'" for F' s'
      by (rule Q [OF that(1,2)]) (use that(3) 6(1) F ne in simp)
    ultimately show ?case
      using 6(3) switch_finish [OF 6(2) cur2, where T = "T\<lparr>t_state := S_READY\<rparr>" and l = "Runqueue c" and ns = S_READY
          and spl = "lvl s cur" and fs = "[]" and Q = Q and E = E]
        6(5) 3(3) T st2(1,10) c
      by (simp add: on_list_def listed_ok_def saved_ok_def)
  qed (use k cur1 c curth_inj [OF 3(1)] in auto)
  show ?case
    unfolding wp_kbind wp_on_lists
    by (rule threadlist_isempty_wp [OF kinvD(1) [OF 3(1)] F]) (use empty some in auto)
qed simp_all


lemma wchan_some: "kinv Y F c held s \<Longrightarrow> w \<in> dom (k_wchans s) \<Longrightarrow> \<exists>xs. F (WcThreads w) = Some xs"
  using kinvD(10) by (auto simp: lists_ok_def)

lemma other_cur: "kinv {cur} F c held s \<Longrightarrow> cur = curth s c \<Longrightarrow> c' < ncpu s \<Longrightarrow> c' \<noteq> c \<Longrightarrow> curth s c' = cur \<Longrightarrow> P'"
  using curth_inj [of "{cur}" F c held s c' c] kinvD(2) [of "{cur}" F c held s] by simp

lemma switch_sleep_wp:
  assumes k: "kinv {cur} F c [lk] s" "cur = curth s c" "\<not> idle s c" "running_ok F s c" "procs_ok s"
    and lk: "lk \<noteq> RunqueueLock c" and w: "k_wchans s w = Some nm" "F (WcThreads w) = Some ws"
    and T: "k_threads s cur = Some T" "sleeps_on s w (InSwitch (lvl s cur) # fs @ t_context T)"
      "frames_ok False (lvl s cur) (fs @ t_context T)" "\<not> in_irq s cur"
    and Q: "\<And>F' s'. rest F' c s' \<Longrightarrow>
      view F' s' = view (F(WcThreads w \<mapsto> ws @ [cur])) (s\<lparr>k_threads := (k_threads s)(cur \<mapsto> T\<lparr>t_context := fs @ t_context T\<rparr>)\<rparr>) \<Longrightarrow>
      picks c F F' s' \<Longrightarrow> Q () s'"
  shows "wp (thread_switch cur S_SLEEP (Some (w, lk)) fs) Q E s"
proof (rule switch_begin [OF k(1-3)], goal_cases)
  case (3 s1)
  obtain U where U: "k_threads s cur = Some U" "t_cpu U = Some c" "t_proc U \<noteq> None" "off_lists F cur" "lvl s cur \<in> {IPL_NONE, IPL_HIGH}"
    using running_facts [OF k(1,2,4)] by blast
  then have T': "t_cpu T = Some c" "t_proc T \<noteq> None" using T(1) by simp_all
  note c = kinvD(2) [OF k(1)]
  note st = kcalmD [OF steady_calm [OF 3(2)]] steadyD [OF 3(2)]
  have cur1: "cur = curth s1 c" "c < ncpu s1" using st(1-3) c k(2) by simp_all
  let ?T1 = "T\<lparr>t_wchan_name := Some nm\<rparr>" let ?F = "F(WcThreads w \<mapsto> ws @ [cur])"
  let ?s1 = "s1\<lparr>k_threads := (k_threads s1)(cur \<mapsto> ?T1)\<rparr>"
  have T1: "k_threads s1 cur = Some T" using st T by simp
  have k1: "kinv {cur} F c [RunqueueLock c, lk] ?s1" by (rule kinv_cur [OF 3(1) cur1(1) T1]) simp_all
  let ?fin = "kthen (on_thread cur (kmod (\<lambda>T. T\<lparr>t_state := S_SLEEP\<rparr>)))
                   (kthen (push_frames cur (InSwitch (lvl s cur) # fs))
                      (kthen (on_cpu c (kmod (\<lambda>C. C\<lparr>c_isidle := True\<rparr>)))
                         (thread_switch_next cur)))"
  have fin: "wp ?fin Q E s2"
    if k2: "kinv {cur} ?F c [RunqueueLock c] s2" "k_threads s2 = k_threads ?s1" "kcalm cur ?s1 s2" "lvl s2 cur = lvl s1 cur" for s2
  proof -
    let ?T = "?T1\<lparr>t_state := S_SLEEP, t_context := (InSwitch (lvl s cur) # fs) @ t_context ?T1\<rparr>"
    let ?s = "s2\<lparr>k_threads := (k_threads s2)(cur \<mapsto> ?T)\<rparr>"
    have ca: "kcalm cur s s2" by (rule kcalm_trans [OF kcalm_trans [OF steady_calm [OF 3(2)]] k2(3)]) simp
    note st2 = kcalmD [OF ca]
    have cur2: "cur = curth s2 c" using st2(2) c k(2) by simp
    have v: "view ?F ?s = view ?F (s\<lparr>k_threads := (k_threads s)(cur \<mapsto> T\<lparr>t_context := fs @ t_context T\<rparr>)\<rparr>)"
      using st2 k2(2) st(11) by (simp add: view_def tview_def fun_eq_iff)
    have "procs_ok ?s"
      by (rule procs_ok_cong [OF k(5)]) (use k2(2) st(11) st2 T(1) in \<open>auto simp: tview_def\<close>)
    moreover have "saved_ok ((InSwitch (lvl s cur) # fs) @ t_context T)"
      using T(3) U(5) frames_irq [OF T(3)] by (auto simp: saved_ok_def)
    moreover have "sleeps_on ?s w ((InSwitch (lvl s cur) # fs) @ t_context T)"
      using T(2) st2 by (auto simp: sleeps_on_def split: list.splits frame.splits)
    moreover have "picks c ?F F' s' = picks c F F' s'" for F' s' by (simp add: picks_def split: option.split list.split)
    ultimately show ?thesis
      using switch_finish [OF k2(1) cur2, where T = ?T1 and l = "WcThreads w" and ns = S_SLEEP
          and spl = "lvl s cur" and fs = fs and Q = Q and E = E]
        k2(2,4) 3(3) T T' st2(1,10) Q v c frames_irq [OF T(3)]
      by (simp add: on_list_def listed_ok_def)
  qed
  have "wp (on_lists (threadlist_addtail (WcThreads w) cur)) (\<lambda>_. wp (release cur lk) (\<lambda>_. wp ?fin Q E) E) E ?s1"
  proof (rule addtail_wp [OF k1 w(2)], goal_cases)
    case (5 h)
    have cur2: "cur = curth (?s1\<lparr>k_lists := h\<rparr>) c" using cur1 by simp
    show ?case
    proof (rule release_wp [OF 5 cur2], goal_cases)
      case (2 s2)
      show ?case
        by (rule fin) (use 2 steadyD [OF 2(2)] lk in \<open>auto intro: kcalm_trans [OF _ steady_calm [OF 2(2)]]\<close>)
    qed simp
  qed (use U(4) other_cur [OF 3(1) cur1(1)] in auto)
  then have "wp (kthen (thread_enqueue cur c S_SLEEP (Some (w, lk))) ?fin) Q E s1"
    using w(1) st T1 by (simp add: thread_enqueue_def)
  moreover obtain xs where "F (Runqueue c) = Some xs" using runqueue_some [OF k(1) c] by blast
  ultimately show ?case
    unfolding wp_kbind wp_on_lists by (intro threadlist_isempty_wp [OF kinvD(1) [OF 3(1)]]) auto
qed (use lk in auto)


lemma switch_zombie_wp:
  assumes k: "kinv {cur} F c [] s" "cur = curth s c" "\<not> idle s c" "off_lists F cur" "procs_ok s"
    and T: "k_threads s cur = Some T" "t_cpu T = Some c" "t_proc T = None" "entry_ok (t_context T)" "\<not> in_irq s cur"
    and Q: "\<And>F' s'. rest F' c s' \<Longrightarrow>
      view F' s' = view F (s\<lparr>k_threads := (k_threads s)(cur \<mapsto> T\<lparr>t_context := InExit # t_context T\<rparr>)\<rparr>) \<Longrightarrow> Q () s'"
  shows "wp (thread_switch cur S_ZOMBIE None [InExit]) Q E s"
proof (rule switch_begin [OF k(1-3)], goal_cases)
  case (3 s1)
  note c = kinvD(2) [OF k(1)]
  note st = kcalmD [OF steady_calm [OF 3(2)]] steadyD [OF 3(2)]
  have cur1: "cur = curth s1 c" "c < ncpu s1" using st(1-3) c k(2) by simp_all
  obtain zs where zs: "F (Zombies c) = Some zs" using zombies_some [OF k(1) c] by blast
  let ?T1 = "T\<lparr>t_wchan_name := Some ''ZOMBIE''\<rparr>" let ?F = "F(Zombies c \<mapsto> zs @ [cur])"
  let ?s1 = "s1\<lparr>k_threads := (k_threads s1)(cur \<mapsto> ?T1)\<rparr>"
  have T1: "k_threads s1 cur = Some T" using st T by simp
  have k1: "kinv {cur} F c [RunqueueLock c] ?s1" by (rule kinv_cur [OF 3(1) cur1(1) T1]) simp_all
  let ?fin = "kthen (on_thread cur (kmod (\<lambda>T. T\<lparr>t_state := S_ZOMBIE\<rparr>)))
                   (kthen (push_frames cur (InSwitch (lvl s cur) # [InExit]))
                      (kthen (on_cpu c (kmod (\<lambda>C. C\<lparr>c_isidle := True\<rparr>)))
                         (thread_switch_next cur)))"
  have "wp (on_lists (threadlist_addtail (Zombies c) cur)) (\<lambda>_. wp ?fin Q E) E ?s1"
  proof (rule addtail_wp [OF k1 zs], goal_cases)
    case (5 h)
    let ?s2 = "?s1\<lparr>k_lists := h\<rparr>"
    let ?T = "?T1\<lparr>t_state := S_ZOMBIE, t_context := (InSwitch (lvl s cur) # [InExit]) @ t_context ?T1\<rparr>"
    let ?s = "?s2\<lparr>k_threads := (k_threads ?s2)(cur \<mapsto> ?T)\<rparr>"
    have cur2: "cur = curth ?s2 c" using cur1 by simp
    have irq: "\<not> has_irq (InExit # t_context T)" using entry_no_irq [OF T(4)] by (auto simp: has_irq_def)
    have v: "view ?F ?s = view F (s\<lparr>k_threads := (k_threads s)(cur \<mapsto> T\<lparr>t_context := InExit # t_context T\<rparr>)\<rparr>)"
      using st by (simp add: view_def tview_def fun_eq_iff)
    have "procs_ok ?s"
      by (rule procs_ok_cong [OF k(5)]) (use st T(1) in \<open>auto simp: tview_def\<close>)
    then show ?case
      using switch_finish [OF 5 cur2, where T = ?T1 and l = "Zombies c" and ns = S_ZOMBIE
          and spl = "lvl s cur" and fs = "[InExit]" and Q = Q and E = E]
        3(3) T st(1,10) Q v c irq
      by (simp add: on_list_def listed_ok_def has_irq_def)
  qed (use k(4) other_cur [OF 3(1) cur1(1)] in auto)
  then have "wp (kthen (thread_enqueue cur c S_ZOMBIE None) ?fin) Q E s1"
    using T1 by (simp add: thread_enqueue_def)
  moreover obtain xs where "F (Runqueue c) = Some xs" using runqueue_some [OF k(1) c] by blast
  ultimately show ?case
    unfolding wp_kbind wp_on_lists by (intro threadlist_isempty_wp [OF kinvD(1) [OF 3(1)]]) auto
qed auto

subsection \<open>Processes and the end of a thread\<close>

lemma proc_update_tail:
  assumes k: "kinv Y F c (ProcLock p # held) s" "cur = curth s c"
    and t: "t \<in> Y" "k_threads s t = Some T" "t_cpu (f T) = t_cpu T" "t_stack (f T) = t_stack T" "t_context (f T) = t_context T"
      "\<And>c'. c' < ncpu s \<Longrightarrow> c' \<noteq> c \<Longrightarrow> curth s c' = t \<Longrightarrow> idle s c'"
    and Q: "\<And>s'. kinv Y F c held s' \<Longrightarrow> k_threads s' = (k_threads s)(t \<mapsto> f T) \<Longrightarrow> kcalm cur s s' \<Longrightarrow> lvl s' cur = lvl s cur \<Longrightarrow> Q () s'"
  shows "wp (kthen (release cur (ProcLock p)) (kbind (set_spl cur IPL_HIGH) (\<lambda>spl.
            kthen (on_thread t (kmod f)) (kthen (set_spl cur spl) (kret ()))))) Q E s"
  unfolding wp_kthen wp_kbind
proof (rule release_wp [OF k], simp, goal_cases)
  case (1 s1)
  note st1 = kcalmD [OF steady_calm [OF 1(2)]] steadyD [OF 1(2)]
  have cur1: "cur = curth s1 c" using st1(2) kinvD(2) [OF k(1)] k(2) by simp
  have k1: "kinv Y F c held s1" using 1(1) by simp
  have l: "lvl s1 cur \<in> {IPL_NONE, IPL_HIGH}" using kinvD(3) [OF k1] cur1 by (simp add: spl_ok_def)
  show ?case
  proof (rule set_spl_wp [OF k1 cur1], simp, goal_cases)
    case (1 s2)
    note ss = steady_trans [OF \<open>steady cur s s1\<close> 1(2)]
    note st2 = kcalmD [OF steady_calm [OF ss]] steadyD [OF ss]
    have T2: "k_threads s2 t = Some T" using st2 t(2) by simp
    let ?s = "s2\<lparr>k_threads := (k_threads s2)(t \<mapsto> f T)\<rparr>"
    have k2: "kinv Y F c held ?s"
      by (rule kinv_thread [OF 1(1) T2 t(3)])
        (use stack_ok_cong [OF kinvD(9) [OF 1(1) T2] t(4)] t st2 in auto)
    have cur2: "cur = curth ?s c" using st2(2) kinvD(2) [OF k(1)] k(2) by simp
    have "wp (set_spl cur (lvl s1 cur)) (\<lambda>_. Q ()) E ?s"
    proof (rule set_spl_wp [OF k2 cur2 l], goal_cases)
      case (1 s3)
      show ?case
        by (rule Q) (use 1 steadyD [OF 1(2)] st2 \<open>lvl s1 cur = lvl s cur\<close> in
            \<open>auto intro: kcalm_trans [OF kcalm_trans [OF steady_calm [OF ss]] steady_calm [OF 1(2)]]\<close>)
    qed
    then show ?case using T2 by simp
  qed
qed

lemma card_threads:
  assumes "kinv Y F c held s" "S \<subseteq> dom (k_threads s)"
  shows "finite S" "card S < 2 ^ 32"
proof -
  have sub: "S \<subseteq> {0 <..< 2 ^ 32}" using tl_rel_ptr [OF kinvD(1) [OF assms(1)]] assms(2) by simp
  then show f: "finite S" by (rule finite_subset) simp
  have "card S \<le> card {0 :: nat <..< 2 ^ 32}" by (rule card_mono) (use sub in auto)
  then show "card S < 2 ^ 32" by simp
qed

lemma members_dom: "{t. snd (tview s t) = Some p} \<subseteq> dom (k_threads s)"
  by (auto simp: tview_def split: option.splits)

lemma proc_remthread_wp:
  assumes k: "kinv {cur} F c [] s" "cur = curth s c" "procs_ok s" and T: "k_threads s cur = Some T" "t_proc T = Some p"
    and Q: "\<And>s'. kinv {cur} F c [] s' \<Longrightarrow> k_threads s' = (k_threads s)(cur \<mapsto> T\<lparr>t_proc := None\<rparr>) \<Longrightarrow> procs_ok s' \<Longrightarrow>
      kcalm cur (s\<lparr>k_procs := k_procs s'\<rparr>) s' \<Longrightarrow> lvl s' cur = lvl s cur \<Longrightarrow> Q () s'"
  shows "wp (proc_remthread cur cur) Q E s"
proof -
  let ?S = "{t. snd (tview s t) = Some p}"
  have cur: "cur \<in> ?S" using T by (simp add: tview_def)
  obtain R where R: "k_procs s p = Some R" "p_numthreads R = of_nat (card ?S)"
    using k(3) cur unfolding procs_ok_def by blast
  note fin = card_threads [OF k(1) members_dom [of s p]]
  have pos: "0 < p_numthreads R"
    using fin cur by (auto simp: R(2) word_less_nat_alt unat_of_nat take_bit_nat_eq_self card_gt_0_iff)
  let ?R = "R\<lparr>p_numthreads := p_numthreads R - 1\<rparr>"
  have less: "p_numthreads R - 1 = of_nat (card (?S - {cur}))"
    unfolding R(2) card.remove [OF fin(1) cur] by simp
  have "wp (acquire cur (ProcLock p)) (\<lambda>_. wp (kthen (on_proc p (kassert (\<lambda>P. p_numthreads P > 0)))
            (kthen (on_proc p (kmod (\<lambda>P. P\<lparr>p_numthreads := p_numthreads P - 1\<rparr>)))
               (kthen (release cur (ProcLock p))
                  (kbind (set_spl cur IPL_HIGH) (\<lambda>spl.
                     kthen (on_thread cur (kmod (\<lambda>T. T\<lparr>t_proc := None\<rparr>)))
                       (kthen (set_spl cur spl) (kret ()))))))) Q E) E s"
  proof (rule acquire_wp [OF k(1,2)], goal_cases)
    case (3 s1)
    note st = kcalmD [OF steady_calm [OF 3(2)]] steadyD [OF 3(2)]
    let ?s = "s1\<lparr>k_procs := (k_procs s1)(p \<mapsto> ?R)\<rparr>"
    have cur1: "cur = curth ?s c" using st(2) kinvD(2) [OF k(1)] k(2) by simp
    have "wp (kthen (release cur (ProcLock p)) (kbind (set_spl cur IPL_HIGH) (\<lambda>spl.
        kthen (on_thread cur (kmod (\<lambda>T. T\<lparr>t_proc := None\<rparr>))) (kthen (set_spl cur spl) (kret ()))))) Q E ?s"
    proof (rule proc_update_tail [OF kinv_misc(3) [OF 3(1)] cur1, where T = T], goal_cases)
      case (7 s2)
      have th: "k_threads s2 = (k_threads s)(cur \<mapsto> T\<lparr>t_proc := None\<rparr>)" using 7(2) st(11) by simp
      have ca: "kcalm cur (s\<lparr>k_procs := k_procs s2\<rparr>) s2"
        using 7(3) st kcalm_beyond [OF steady_calm [OF 3(2)]] by (simp add: kcalm_def)
      have S: "{t. snd (tview s2 t) = Some q} = (if q = p then ?S - {cur} else {t. snd (tview s t) = Some q})" for q
        using T by (auto simp: tview_def th)
      have pr: "k_procs s2 = (k_procs s)(p \<mapsto> ?R)" "k_kproc s2 = k_kproc s" using kcalmD(6,7) [OF 7(3)] st by simp_all
      have "procs_ok s2"
        using k(3) R less unfolding procs_ok_def S pr
        by (auto simp: tview_def th split: option.splits if_splits)
      then show ?case using Q 7 th ca 3(3) by simp
    qed (use T st other_cur [OF 3(1)] cur1 in auto)
    then show ?case using R st pos by simp
  qed auto
  then show ?thesis using T by (simp add: proc_remthread_def)
qed

end
