(* ===== verification/Kern_Calls.thy ===== *)
theory Kern_Calls
  imports Kern_Ops
begin

text \<open>
  The calls a thread makes, and the interrupts it takes, under the invariant: exit and fork, waking
  up, semaphores, the clock, migration.
\<close>

subsection \<open>Exit and fork\<close>

text \<open>What concerns sleeping and waking up.\<close>

definition sview where
  "sview F s = (\<lambda>t. fst (tview s t), k_sems s, (\<lambda>w. F (WcThreads w)), k_wchans s, k_lbolt s, ncpu s)"

lemma view_sview: "view F' s' = view F s \<Longrightarrow> sview F' s' = sview F s"
  by (auto simp: view_def sview_def)

lemma view_procs: "view F' s' = view F s \<Longrightarrow> procs_ok s \<Longrightarrow> procs_ok s'"
  by (auto simp: view_def procs_ok_def)

text \<open>The state between operations.\<close>

definition good :: "(listid \<rightharpoonup> tid list) \<Rightarrow> cpuid \<Rightarrow> machine \<Rightarrow> bool" where
  "good F c s \<longleftrightarrow> rest F c s \<and> procs_ok s"

lemma pend_entry: "entry_ok fs \<Longrightarrow> pend fs = None"
  by (auto simp: entry_ok_def)

lemma thread_exit_wp:
  assumes g: "good F c s" "cur = curth s c" "\<not> idle s c" and T: "k_threads s cur = Some T" "entry_ok (t_context T)"
    and Q: "\<And>F' s'. good F' c s' \<Longrightarrow> sview F' s' = sview F s \<Longrightarrow> Q () s'"
  shows "wp (thread_exit cur) Q E s"
proof -
  have k: "kinv {cur} F c [] s" "running_ok F s c" "procs_ok s" using g by (auto simp: good_def rest_def)
  note c = kinvD(2) [OF k(1)]
  obtain p where p: "t_proc T = Some p" "t_cpu T = Some c" "off_lists F cur" "in_irq s cur = has_irq (t_context T)"
    using running_facts [OF k(1) g(2) k(2)] T(1) by (metis not_None_eq option.inject)
  have irq: "\<not> in_irq s cur" using p(4) entry_no_irq [OF T(2)] by simp
  show ?thesis
    unfolding thread_exit_def wp_kthen
  proof (rule proc_remthread_wp [OF k(1) g(2) k(3) T(1) p(1)], goal_cases)
    case (1 s1)
    let ?T = "T\<lparr>t_proc := None\<rparr>"
    note st = kcalmD [OF 1(4)] and th1 = 1(2)
    have T1: "k_threads s1 cur = Some ?T" using 1(2) by simp
    have cur1: "cur = curth s1 c" using st(2) c g(2) by simp
    have chk: "wp (thread_checkstack cur) R E s1" if "R () s1" for R
      using that T1 kinvD(9) [OF 1(1) T1] by (auto simp: thread_checkstack_def stack_ok_def)
    have "wp (set_spl cur IPL_HIGH) (\<lambda>_. wp (thread_switch cur S_ZOMBIE None [InExit]) Q E) E s1"
    proof (rule set_spl_wp [OF 1(1) cur1], goal_cases)
      case (2 s2)
      note st2 = kcalmD [OF steady_calm [OF 2(2)]] steadyD [OF 2(2)]
      show ?case
      proof (rule switch_zombie_wp [OF 2(1), where T = ?T], goal_cases)
        case 1
        show ?case using st2(2) kinvD(2) [OF \<open>kinv {cur} F c [] s1\<close>] cur1 by simp
      next
        case 2
        show ?case using st2(3) st(1,3) c g(3) kinvD(2) [OF \<open>kinv {cur} F c [] s1\<close>] by simp
      next
        case 4
        show ?case by (rule procs_ok_cong [OF \<open>procs_ok s1\<close>]) (use tview_steady [OF \<open>steady cur s1 s2\<close>] st2 in auto)
      next
        case 5
        show ?case using st2(11) T1 by simp
      next
        case (10 F' s')
        let ?s = "s2\<lparr>k_threads := (k_threads s2)(cur \<mapsto> ?T\<lparr>t_context := InExit # t_context ?T\<rparr>)\<rparr>"
        have "procs_ok ?s"
          by (rule procs_ok_cong [OF \<open>procs_ok s1\<close>]) (use st2 T1 in \<open>auto simp: tview_def\<close>)
        then have "good F' c s'" using 10 view_procs [OF 10(2)] by (simp add: good_def)
        moreover have "sview F ?s = sview F s"
          using st2 st th1 T pend_entry [OF T(2)] by (auto simp: sview_def tview_def fun_eq_iff)
        ultimately show ?case using Q view_sview [OF 10(2)] by simp
      qed (use p T irq st2(10) st(10) in auto)
    qed auto
    then show ?case using T1 by (simp add: chk)
  qed
qed


text \<open>A thread that is not current anywhere may come into being, and change in any way, while it is being moved about.\<close>

lemma kinv_off:
  assumes k: "kinv Y F c0 held s" and t: "t \<in> Y \<or> k_threads s t = None" "\<And>c. c < ncpu s \<Longrightarrow> curth s c \<noteq> t" and T: "stack_ok T"
    and h: "tl_rel (insert t (dom (k_threads s))) F h"
  shows "kinv (insert t Y) F c0 held (s\<lparr>k_threads := (k_threads s)(t \<mapsto> T), k_lists := h,
    k_spl := (k_spl s)\<lparr>intr := (intr (k_spl s))(t := i)\<rparr>\<rparr>)" (is "kinv ?Y F c0 held ?s")
proof -
  have ne: "curth s c \<noteq> t" if "c < ncpu s" for c using t(2) that .
  show ?thesis
  proof (rule kinvI)
    show "tl_rel (dom (k_threads ?s)) F (k_lists ?s)" using h by (simp add: dom_fun_upd)
    show "spl_ok (curth ?s c0) c0 held (k_spl ?s)" using kinvD(3) [OF k] ne [OF kinvD(2) [OF k]] by (simp add: spl_ok_def)
    show "\<exists>U. k_threads ?s (curth ?s c) = Some U \<and> t_cpu U = Some c" if "c < ncpu ?s" for c
      using kinvD(4) [OF k, of c] ne [of c] that by auto
    show "other_ok F ?s c" if "c < ncpu ?s" "c \<noteq> c0" for c
      by (rule other_ok_cong [rotated 8, OF kinvD(5) [OF k]]) (use that ne [of c] in auto)
    show "listed_ok ?s l u" if "on_list F u l" "u \<notin> ?Y" for u l
      by (rule listed_ok_cong [rotated 4, OF kinvD(6) [OF k that(1)]]) (use that in auto)
    show "\<exists>c < ncpu ?s. c \<noteq> c0 \<and> \<not> idle ?s c \<and> curth ?s c = u" if "k_threads ?s u = Some U" "u \<notin> ?Y" "off_lists F u" for u U
      using kinvD(7) [OF k, of u U] that by (auto split: if_splits)
    show "parked (k_spl ?s) u U" if "k_threads ?s u = Some U" "\<forall>c < ncpu ?s. curth ?s c \<noteq> u" "u \<notin> ?Y" for u U
      using kinvD(8) [OF k, of u U] that by (auto simp: parked_def split: if_splits)
    show "stack_ok U" if "k_threads ?s u = Some U" for u U
      using kinvD(9) [OF k, of u U] that T by (auto split: if_splits)
  qed (use kinvD(2,10-12) [OF k] in auto)
qed

lemma proc_addthread_wp:
  assumes k: "kinv Y F c held s" "cur = curth s c" "procs_ok s" and lk: "ProcLock p \<notin> set held" "length held < 8"
    and T: "t \<in> Y" "k_threads s t = Some T" "t_proc T = None" "p \<in> dom (k_procs s)"
      "\<And>c'. c' < ncpu s \<Longrightarrow> c' \<noteq> c \<Longrightarrow> curth s c' = t \<Longrightarrow> idle s c'"
    and Q: "\<And>s'. kinv Y F c held s' \<Longrightarrow> k_threads s' = (k_threads s)(t \<mapsto> T\<lparr>t_proc := Some p\<rparr>) \<Longrightarrow> procs_ok s' \<Longrightarrow>
      kcalm cur (s\<lparr>k_procs := k_procs s'\<rparr>) s' \<Longrightarrow> lvl s' cur = lvl s cur \<Longrightarrow> Q () s'"
  shows "wp (proc_addthread cur p t) Q E s"
proof -
  let ?S = "{t. snd (tview s t) = Some p}"
  have new: "t \<notin> ?S" using T by (simp add: tview_def)
  obtain R where R: "k_procs s p = Some R" "p_numthreads R = of_nat (card ?S)"
    using k(3) T(4) unfolding procs_ok_def by blast
  note fin = card_threads [OF k(1) members_dom [of s p]]
  let ?R = "R\<lparr>p_numthreads := p_numthreads R + 1\<rparr>"
  have more: "p_numthreads R + 1 = of_nat (card (insert t ?S))"
    unfolding R(2) card_insert_disjoint [OF fin(1) new] by simp
  have "wp (acquire cur (ProcLock p)) (\<lambda>_. wp (kthen (on_proc p (kmod (\<lambda>P. P\<lparr>p_numthreads := p_numthreads P + 1\<rparr>)))
               (kthen (release cur (ProcLock p))
                  (kbind (set_spl cur IPL_HIGH) (\<lambda>spl.
                     kthen (on_thread t (kmod (\<lambda>T. T\<lparr>t_proc := Some p\<rparr>)))
                       (kthen (set_spl cur spl) (kret ())))))) Q E) E s"
  proof (rule acquire_wp [OF k(1,2) lk], goal_cases)
    case (1 s1)
    note st = kcalmD [OF steady_calm [OF 1(2)]] steadyD [OF 1(2)] and l1 = 1(3)
    let ?s = "s1\<lparr>k_procs := (k_procs s1)(p \<mapsto> ?R)\<rparr>"
    have cur1: "cur = curth ?s c" using st(2) kinvD(2) [OF k(1)] k(2) by simp
    have "wp (kthen (release cur (ProcLock p)) (kbind (set_spl cur IPL_HIGH) (\<lambda>spl.
        kthen (on_thread t (kmod (\<lambda>T. T\<lparr>t_proc := Some p\<rparr>))) (kthen (set_spl cur spl) (kret ()))))) Q E ?s"
    proof (rule proc_update_tail [OF kinv_misc(3) [OF 1(1)] cur1, where T = T], goal_cases)
      case (7 s2)
      have th: "k_threads s2 = (k_threads s)(t \<mapsto> T\<lparr>t_proc := Some p\<rparr>)" using 7(2) st(11) by simp
      have ca: "kcalm cur (s\<lparr>k_procs := k_procs s2\<rparr>) s2"
        using 7(3) st kcalm_beyond [OF steady_calm [OF 1(2)]] by (simp add: kcalm_def)
      have S: "{u. snd (tview s2 u) = Some q} = (if q = p then insert t ?S else {t. snd (tview s t) = Some q})" for q
        using T by (auto simp: tview_def th)
      have pr: "k_procs s2 = (k_procs s)(p \<mapsto> ?R)" "k_kproc s2 = k_kproc s" using kcalmD(6,7) [OF 7(3)] st by simp_all
      have "procs_ok s2"
        using k(3) R more unfolding procs_ok_def S pr
        by (auto simp: tview_def th split: option.splits if_splits)
      then show ?case using Q 7 th ca l1 by simp
    qed (use T st in auto)
    then show ?case using R st by simp
  qed
  then show ?thesis using T by (simp add: proc_addthread_def)
qed

text \<open>A block that \<open>kmalloc\<close> hands out for a thread: nonnull and not in use.\<close>

definition fresh :: "machine \<Rightarrow> tid \<Rightarrow> bool" where
  "fresh s t \<longleftrightarrow> k_threads s t = None \<and> 0 < t \<and> t < 2 ^ 32"

definition new_thread :: "string \<Rightarrow> thread" where
  "new_thread name = \<lparr>t_name = name, t_wchan_name = Some ''NEW'', t_state = S_READY, t_stack = None,
     t_context = [], t_cpu = None, t_proc = None\<rparr>"

lemma thread_create_wp:
  assumes k: "kinv Y F c held s" and t: "\<And>t. nt = Some t \<Longrightarrow> fresh s t"
    and none: "nt = None \<or> \<not> ok \<Longrightarrow> Q None s"
    and some: "\<And>t h. nt = Some t \<Longrightarrow> ok \<Longrightarrow> tl_rel (insert t (dom (k_threads s))) F h \<Longrightarrow>
      Q (Some t) (s\<lparr>k_threads := (k_threads s)(t \<mapsto> new_thread name), k_lists := h,
        k_spl := (k_spl s)\<lparr>intr := (intr (k_spl s))(t := \<lparr>t_in_interrupt = False, t_curspl = IPL_HIGH, t_iplhigh_count = 1\<rparr>)\<rparr>\<rparr>)"
  shows "wp (thread_create name nt ok) Q E s"
proof (cases "nt = None \<or> \<not> ok")
  case False
  then obtain t where nt: "nt = Some t" "ok" by auto
  have "t \<notin> dom (k_threads s)" "0 < t" "t < 2 ^ 32" using t [OF nt(1)] by (auto simp: fresh_def)
  from threadlistnode_init_wp [OF kinvD(1) [OF k] this] show ?thesis
    using nt by (simp add: thread_create_def upd_intr_def) (rule wp_conseq, assumption, use some [OF nt] in \<open>auto simp: new_thread_def\<close>)
qed (use none in \<open>auto simp: thread_create_def split: option.splits\<close>)


text \<open>The current thread stays as it is while its call works on others.\<close>

lemma good_running:
  assumes g: "good F c s" "cur = curth s c" "\<not> idle s c" and k: "kinv {cur} F' c [] s'" "procs_ok s'"
    and same: "k_threads s' cur = k_threads s cur" "curth s' c = cur" "\<not> idle s' c" "lvl s' cur = lvl s cur" "in_irq s' cur = in_irq s cur"
      "off_lists F' cur"
  shows "good F' c s'"
  using assms by (simp add: good_def rest_def running_ok_def)

lemma fork_tail_wp:
  assumes k: "kinv {t, cur} F c [] s" "cur = curth s c" "procs_ok s" "t \<noteq> cur" "off_lists F t"
    and T: "k_threads s t = Some T" "t_cpu T = Some c" "t_proc T = None" "t_context T = []" "p \<in> dom (k_procs s)"
      "\<And>c'. c' < ncpu s \<Longrightarrow> curth s c' \<noteq> t"
    and i: "intr (k_spl s) t = \<lparr>t_in_interrupt = False, t_curspl = IPL_HIGH, t_iplhigh_count = 1\<rparr>"
    and Q: "\<And>F' s'. kinv {cur} F' c [] s' \<Longrightarrow> procs_ok s' \<Longrightarrow> k_threads s' cur = k_threads s cur \<Longrightarrow> curth s' c = cur \<Longrightarrow>
      idle s' c = idle s c \<Longrightarrow> lvl s' cur = lvl s cur \<Longrightarrow> in_irq s' cur = in_irq s cur \<Longrightarrow> (off_lists F cur \<Longrightarrow> off_lists F' cur) \<Longrightarrow>
      sview F' s' = sview F s \<Longrightarrow> F' = F(Runqueue c \<mapsto> the (F (Runqueue c)) @ [t]) \<Longrightarrow>
      k_threads s' = (k_threads s)(t \<mapsto> T\<lparr>t_proc := Some p, t_context := [ToStartup entrypoint data1 data2], t_state := S_READY\<rparr>) \<Longrightarrow> Q () s'"
  shows "wp (kbind (ktry (proc_addthread cur p t)) (\<lambda>result.
           case result of
             Inl e \<Rightarrow> kthen (thread_destroy cur t) (kfail e)
           | Inr _ \<Rightarrow>
               kthen (on_spl (upd_intr t (\<lambda>i. i\<lparr>t_iplhigh_count := t_iplhigh_count i + 1\<rparr>)))
                 (kthen (switchframe_init t entrypoint data1 data2)
                    (thread_make_runnable cur t False)))) Q E s"
  unfolding wp_kbind wp_ktry
proof (rule proc_addthread_wp [OF k(1-3), where T = T], goal_cases)
  case (8 s1)
  note st = kcalmD [OF 8(4)] and th1 = 8(2) and ca1 = 8(4) and l1 = 8(5) and p1 = 8(3)
  note c = kinvD(2) [OF k(1)]
  let ?T = "T\<lparr>t_proc := Some p, t_context := [ToStartup entrypoint data1 data2]\<rparr>"
  let ?i = "\<lparr>t_in_interrupt = False, t_curspl = IPL_HIGH, t_iplhigh_count = 2\<rparr>"
  let ?s = "s1\<lparr>k_spl := (k_spl s1)\<lparr>intr := (intr (k_spl s1))(t := ?i)\<rparr>, k_threads := (k_threads s1)(t \<mapsto> ?T)\<rparr>"
  have i1: "intr (k_spl s1) t = \<lparr>t_in_interrupt = False, t_curspl = IPL_HIGH, t_iplhigh_count = 1\<rparr>"
    using st(9) k(4) i by simp
  have T1: "k_threads s1 t = Some (T\<lparr>t_proc := Some p\<rparr>)" using th1 by simp
  have eq: "?s = s1\<lparr>k_threads := (k_threads s1)(t \<mapsto> ?T), k_lists := k_lists s1,
      k_spl := (k_spl s1)\<lparr>intr := (intr (k_spl s1))(t := ?i)\<rparr>\<rparr>"
    by (rule machine.equality) simp_all
  have ne: "curth s1 c' \<noteq> t" if "c' < ncpu s1" for c' using that st(1,2) T(6) by simp
  have "kinv (insert t {t, cur}) F c [] ?s"
    unfolding eq
    by (rule kinv_off [OF 8(1)]) (use T1 ne kinvD(1) [OF 8(1)] kinvD(9) [OF 8(1) T1] in \<open>auto simp: stack_ok_def insert_absorb domI\<close>)
  then have k2: "kinv {t, cur} F c [] ?s" by simp
  have cur2: "cur = curth ?s c" using st(2) c k(2) by simp
  have "wp (thread_make_runnable cur t False) Q E ?s"
  proof (rule thread_make_runnable_wp [OF k2 cur2, where T = ?T and tc = c], goal_cases)
    case (10 s3 xs)
    let ?F = "F(Runqueue c \<mapsto> xs @ [t])"
    note st3 = kcalmD [OF 10(4)]
    have th3: "k_threads s3 = (k_threads s)(t \<mapsto> ?T\<lparr>t_state := S_READY\<rparr>)" using 10(3) th1 by simp
    have "listed_ok s3 (Runqueue c) t"
      using th3 T(2) c st3(1) st(1) by (simp add: listed_ok_def saved_ok_def)
    moreover have "intr (k_spl s3) t = ?i" using st3(9) k(4) by simp
    ultimately have "kinv ({t, cur} - {t}) ?F c [] s3"
      by (intro kinv_settle [OF 10(2)]) (use th3 in \<open>auto simp: on_list_def parked_def has_irq_def\<close>)
    moreover have "{t, cur} - {t} = {cur}" using k(4) by auto
    moreover have tv: "snd (tview s3 u) = snd (tview s1 u)" for u using th3 th1 by (simp add: tview_def)
    have "procs_ok s3" by (rule procs_ok_cong [OF p1 tv]) (use st3 in simp_all)
    moreover have "sview F s = sview ?F s3"
      using th3 st st3 T by (auto simp: sview_def tview_def fun_eq_iff)
    ultimately show ?case
      by (intro Q) (use 10(1,5) l1 k(2,4) c th3 st st3 in \<open>auto simp: off_lists_def on_list_def\<close>)
  qed (use T1 T k ne c st(1) in auto)
  then show ?case using T1 i1 by (simp add: upd_intr_def switchframe_init_def)
qed (use T k in auto)


lemma threads_first: "s\<lparr>k_lists := h, k_spl := p, k_threads := x\<rparr> = s\<lparr>k_threads := x, k_lists := h, k_spl := p\<rparr>" for s :: machine
  by (rule machine.equality) simp_all

text \<open>A new thread either is on the run queue of its parent's processor, or nothing has happened.\<close>

definition child :: "string \<Rightarrow> cpuid \<Rightarrow> nat \<Rightarrow> nat \<Rightarrow> nat \<Rightarrow> nat \<Rightarrow> thread" where
  "child name c proc entrypoint data1 data2 = \<lparr>t_name = name, t_wchan_name = Some ''NEW'', t_state = S_READY,
     t_stack = Some (replicate 4 THREAD_STACK_MAGIC), t_context = [ToStartup entrypoint data1 data2], t_cpu = Some c, t_proc = Some proc\<rparr>"

lemma thread_fork_wp:
  assumes g: "good F c s" "cur = curth s c" "\<not> idle s c" and nt: "\<And>t. nt = Some t \<Longrightarrow> fresh s t"
    and p: "\<And>p. proc = Some p \<Longrightarrow> p \<in> dom (k_procs s)"
    and Q: "\<And>F' s'. good F' c s' \<Longrightarrow> sview F' s' = sview F s \<Longrightarrow> curth s' c = cur \<Longrightarrow> \<not> idle s' c \<Longrightarrow>
      (\<exists>t q. nt = Some t \<and> kstrdup_ok \<and> got_stack \<and> F' = F(Runqueue c \<mapsto> the (F (Runqueue c)) @ [t]) \<and> (if proc = None then snd (tview s cur) else proc) = Some q \<and>
        k_threads s' = (k_threads s)(t \<mapsto> child name c q entrypoint data1 data2)) \<Longrightarrow> Q () s'"
    and E: "\<And>F' s'. good F' c s' \<Longrightarrow> sview F' s' = sview F s \<Longrightarrow> curth s' c = cur \<Longrightarrow> \<not> idle s' c \<Longrightarrow>
      F' = F \<Longrightarrow> k_threads s' = k_threads s \<Longrightarrow> nt = None \<or> \<not> kstrdup_ok \<or> \<not> got_stack \<Longrightarrow> E ENOMEM s'"
  shows "wp (thread_fork cur name proc entrypoint data1 data2 nt kstrdup_ok got_stack) Q E s"
  unfolding thread_fork_def wp_kbind
proof (rule thread_create_wp [where F = F and c = c and Y = "{cur}" and held = "[]"], goal_cases)
  have k: "kinv {cur} F c [] s" "running_ok F s c" "procs_ok s" using g by (auto simp: good_def rest_def)
  note c = kinvD(2) [OF k(1)]
  obtain C where C: "k_threads s cur = Some C" "t_cpu C = Some c" "t_proc C \<noteq> None" "off_lists F cur"
    using running_facts [OF k(1) g(2) k(2)] by metis
  {
    case 1 show ?case by (rule k(1))
  next
    case (2 t) then show ?case by (rule nt)
  next
    case 3 then show ?case using E [OF g(1) refl] g(2,3) by auto
  next
    case (4 t h)
    let ?i = "\<lparr>t_in_interrupt = False, t_curspl = IPL_HIGH, t_iplhigh_count = 1\<rparr>"
    let ?new = "\<lambda>T. s\<lparr>k_threads := (k_threads s)(t \<mapsto> T), k_lists := h, k_spl := (k_spl s)\<lparr>intr := (intr (k_spl s))(t := ?i)\<rparr>\<rparr>"
    have t: "k_threads s t = None" using nt [OF 4(1)] by (auto simp: fresh_def)
    have ne: "curth s c' \<noteq> t" if "c' < ncpu s" for c' using kinvD(4) [OF k(1) that] t by auto
    have off: "off_lists F t" using tl_relD(3) [OF kinvD(1) [OF k(1)]] t by (auto simp: off_lists_def)
    have tc: "t \<noteq> cur" using ne [OF c] g(2) by simp
    have kn: "kinv {t, cur} F c [] (?new T)" if "stack_ok T" for T
      by (rule kinv_off [OF k(1)]) (use t ne that 4(3) in auto)
    show ?case
    proof (cases got_stack)
      case False
      let ?s = "?new (new_thread name)"
      have "wp (thread_destroy cur t) (\<lambda>_ s'. E ENOMEM s') E ?s"
      proof (rule thread_destroy_wp [OF kn, where T = "new_thread name"], goal_cases)
        case 8
        let ?s' = "?s\<lparr>k_threads := (k_threads ?s)(t := None)\<rparr>"
        have "kinv {cur} F c [] ?s'" using 8 tc by (simp add: insert_Diff_if)
        moreover have tv: "tview ?s' = tview s" using t by (auto simp: tview_def fun_eq_iff)
        moreover have "procs_ok ?s'" using k(3) unfolding procs_ok_def tv by simp
        ultimately have "good F c ?s'" by (rule_tac good_running [OF g]) (use tc g C in auto)
        moreover have "sview F ?s' = sview F s" unfolding sview_def tv by simp
        moreover have "k_threads ?s' = k_threads s" using t by (auto simp: fun_eq_iff)
        ultimately show ?case by (intro E [of F]) (use g False in auto)
      qed (use tc off ne in \<open>auto simp: new_thread_def stack_ok_def\<close>)
      then show ?thesis using False by simp
    next
      case True
      let ?T = "(new_thread name)\<lparr>t_stack := Some (replicate 4 THREAD_STACK_MAGIC), t_cpu := Some c\<rparr>"
      have tv: "tview (?new ?T) = tview s" using t by (auto simp: tview_def fun_eq_iff new_thread_def)
      have pr: "procs_ok (?new ?T)" using k(3) unfolding procs_ok_def tv by simp
      obtain q where q: "(if proc = None then t_proc C else proc) = Some q" "q \<in> dom (k_procs s)"
        using p C k(3) unfolding procs_ok_def by (cases proc) (auto simp: tview_def split: option.splits if_splits)
      have "wp (kbind (ktry (proc_addthread cur q t)) (\<lambda>result.
           case result of
             Inl e \<Rightarrow> kthen (thread_destroy cur t) (kfail e)
           | Inr _ \<Rightarrow>
               kthen (on_spl (upd_intr t (\<lambda>i. i\<lparr>t_iplhigh_count := t_iplhigh_count i + 1\<rparr>)))
                 (kthen (switchframe_init t entrypoint data1 data2)
                    (thread_make_runnable cur t False)))) Q E (?new ?T)"
      proof (rule fork_tail_wp [OF kn _ pr, where T = ?T], goal_cases)
        case (12 F' s')
        from 12 have "good F' c s'" by (rule_tac good_running [OF g]) (use tc g C in auto)
        moreover have "sview F' s' = sview F s" using 12(9) unfolding sview_def tv by simp
        moreover have "\<exists>t q. nt = Some t \<and> kstrdup_ok \<and> got_stack \<and> F' = F(Runqueue c \<mapsto> the (F (Runqueue c)) @ [t]) \<and> (if proc = None then snd (tview s cur) else proc) = Some q \<and>
            k_threads s' = (k_threads s)(t \<mapsto> child name c q entrypoint data1 data2)"
          using 12(10,11) 4(1,2) True q(1) C(1) by (rule_tac exI [of _ t], rule_tac exI [of _ q]) (simp add: child_def new_thread_def tview_def split: if_splits)
        ultimately show ?case by (intro Q [of F']) (use 12 g in auto)
      qed (use tc off ne g q in \<open>auto simp: new_thread_def stack_ok_def\<close>)
      then show ?thesis
        using True C q tc by (simp add: thread_checkstack_init_def new_thread_def threads_first)
    qed
  }
qed


subsection \<open>Waking up\<close>

text \<open>
  What a call does that neither gives up the processor nor makes or ends a thread: it may move
  other threads between lists and processors.
\<close>

definition moved :: "tid set \<Rightarrow> tid \<Rightarrow> (listid \<rightharpoonup> tid list) \<Rightarrow> machine \<Rightarrow> (listid \<rightharpoonup> tid list) \<Rightarrow> machine \<Rightarrow> bool" where
  "moved Y cur F s F' s' \<longleftrightarrow> kcalm cur s s' \<and> lvl s' cur = lvl s cur \<and> tview s' = tview s \<and>
     (\<forall>t \<in> Y. k_threads s' t = k_threads s t \<and> (off_lists F t \<longrightarrow> off_lists F' t)) \<and>
     (\<forall>t. map_option t_context (k_threads s' t) = map_option t_context (k_threads s t))"

lemma moved_refl [simp]: "moved Y cur F s F s"
  by (simp add: moved_def)

lemma moved_trans: "moved Y cur F s F' s' \<Longrightarrow> moved Y cur F' s' F'' s'' \<Longrightarrow> moved Y cur F s F'' s''"
  by (auto simp: moved_def intro: kcalm_trans)

lemma moved_steady: "steady cur s s' \<Longrightarrow> lvl s' cur = lvl s cur \<Longrightarrow> moved Y cur F s F s'"
  by (simp add: moved_def steady_calm tview_steady steadyD)

lemma moved_lists: "(\<And>t. t \<in> Y \<Longrightarrow> off_lists F t \<Longrightarrow> off_lists F' t) \<Longrightarrow> moved Y cur F s F' (s\<lparr>k_lists := h\<rparr>)"
  by (simp add: moved_def tview_def fun_eq_iff)

lemma movedD:
  assumes "moved Y cur F s F' s'"
  shows "kcalm cur s s'" "lvl s' cur = lvl s cur" "tview s' = tview s" "t \<in> Y \<Longrightarrow> k_threads s' t = k_threads s t"
    "t \<in> Y \<Longrightarrow> off_lists F t \<Longrightarrow> off_lists F' t" "map_option t_context (k_threads s' t) = map_option t_context (k_threads s t)"
  using assms by (simp_all add: moved_def)

abbreviation mine :: "machine \<Rightarrow> cpuid \<Rightarrow> tid set" where
  "mine s c \<equiv> (if idle s c then {} else {curth s c})"

lemma runnable_wp:
  assumes k: "kinv (insert x Y) F c held s" "cur = curth s c" and x: "x \<notin> Y" "off_lists F x" "in_transit s x"
    and lk: "\<And>c'. IpiLock c' \<notin> set held" "\<And>c'. RunqueueLock c' \<notin> set held" "length held < 7"
    and Q: "\<And>F' s'. kinv Y F' c held s' \<Longrightarrow> moved Y cur F s F' s' \<Longrightarrow> (\<And>l. (\<And>c'. l \<noteq> Runqueue c') \<Longrightarrow> F' l = F l) \<Longrightarrow>
      (\<And>t. t \<noteq> x \<Longrightarrow> k_threads s' t = k_threads s t) \<Longrightarrow> Q () s'"
  shows "wp (thread_make_runnable cur x False) Q E s"
proof -
  obtain T xc where T: "k_threads s x = Some T" "t_cpu T = Some xc" "xc < ncpu s" "t_proc T \<noteq> None" "saved_ok (t_context T)"
      "\<And>c. c < ncpu s \<Longrightarrow> curth s c = x \<Longrightarrow> idle s c" "(\<forall>c < ncpu s. curth s c \<noteq> x) \<Longrightarrow> parked (k_spl s) x T"
    using x(3) unfolding in_transit_def by blast
  note c = kinvD(2) [OF k(1)]
  show ?thesis
  proof (rule thread_make_runnable_wp [OF k, where T = T and tc = xc], goal_cases)
    case (10 s1 xs)
    note st = kcalmD [OF 10(4)]
    let ?F = "F(Runqueue xc \<mapsto> xs @ [x])"
    have "listed_ok s1 (Runqueue xc) x" using 10(3) T st(1) by (simp add: listed_ok_def)
    moreover have "parked (k_spl s1) x U" if "k_threads s1 x = Some U" "\<forall>c < ncpu s1. curth s1 c \<noteq> x" for U
    proof -
      have "\<forall>c < ncpu s. curth s c \<noteq> x" using that(2) st(1,2) by simp
      then show ?thesis using T(7) that(1) 10(3) st(9) [of x] c k(2) by (auto simp: parked_def)
    qed
    ultimately have "kinv (insert x Y - {x}) ?F c held s1"
      by (intro kinv_settle [OF 10(2)]) (auto simp: on_list_def)
    then have "kinv Y ?F c held s1" using x(1) by simp
    moreover have "moved Y cur F s ?F s1"
      using 10(1,3-5) T x(1) by (auto simp: moved_def tview_def fun_eq_iff off_lists_def on_list_def)
    ultimately show ?case by (rule Q) (use 10(3) in auto)
  qed (use T x lk in auto)
qed

lemma other_off: "other_ok F s c \<Longrightarrow> \<not> idle s c \<Longrightarrow> off_lists F (curth s c)"
  by (simp add: other_ok_def running_ok_def Let_def)

lemma listed_transit:
  assumes k: "kinv Y F c held s" "on_list F x (WcThreads w)" "x \<notin> Y" "idle s c \<or> x \<noteq> curth s c"
  shows "in_transit s x"
proof -
  have idle: "idle s c'" if "c' < ncpu s" "curth s c' = x" for c'
    using other_off [OF kinvD(5) [OF k(1) that(1)]] that k(2,4) by (cases "c' = c") (auto simp: off_lists_def)
  have "listed_ok s (WcThreads w) x" using kinvD(6) [OF k(1-3)] .
  then show ?thesis
    using kinvD(8) [OF k(1), of x] idle k(3) by (auto simp: in_transit_def listed_ok_def)
qed

lemma in_transit_lists [simp]: "in_transit (s\<lparr>k_lists := h\<rparr>) x = in_transit s x"
  by (simp add: in_transit_def)

lemma off_shrink:
  assumes "F l = Some xs" "set ys \<subseteq> set xs" "off_lists F t"
  shows "off_lists (F(l \<mapsto> ys)) t"
  unfolding off_lists_def
proof (intro allI notI)
  fix l' assume "on_list (F(l \<mapsto> ys)) t l'"
  then have "on_list F t l'" using assms(1,2) by (auto simp: on_list_def split: if_splits)
  then show False using assms(3) by (simp add: off_lists_def)
qed

lemma check_hold_wp:
  "kinv Y F c held s \<Longrightarrow> cur = curth s c \<Longrightarrow> lk \<in> set held \<Longrightarrow> Q () s \<Longrightarrow> wp (check_hold cur lk) Q E s"
  unfolding check_hold_def wp_kbind by (rule do_i_hold_wp) auto

lemma wchan_wakeone_wp:
  assumes k: "kinv Y F c [lk] s" "cur = curth s c" and Y: "set ws \<inter> Y = {}" "idle s c \<or> curth s c \<in> Y"
    and w: "F (WcThreads w) = Some ws"
    and lk: "\<And>c'. lk \<noteq> IpiLock c'" "\<And>c'. lk \<noteq> RunqueueLock c'"
    and Q: "\<And>F' s'. kinv Y F' c [lk] s' \<Longrightarrow> moved Y cur F s F' s' \<Longrightarrow> (\<And>v. F' (WcThreads v) = (F(WcThreads w \<mapsto> tl ws)) (WcThreads v)) \<Longrightarrow> Q () s'"
  shows "wp (wchan_wakeone cur w lk) Q E s"
  unfolding wchan_wakeone_def wp_kthen wp_kbind
proof (rule check_hold_wp [OF k], simp, rule remhead_wp [OF k(1) w], goal_cases)
  case 1
  then show ?case by simp (rule Q [OF k(1)], use 1 w in auto)
next
  case (2 x ys h)
  have on: "on_list F x (WcThreads w)" "x \<notin> Y" using 2(1) w Y by (auto simp: on_list_def)
  let ?s = "s\<lparr>k_lists := h\<rparr>"
  have tr: "in_transit ?s x" using listed_transit [OF k(1) on] on(2) Y(2) by auto
  have m: "moved Y cur F s (F(WcThreads w \<mapsto> ys)) ?s"
    by (rule moved_lists, rule off_shrink [of F "WcThreads w" ws]) (use w 2(1) in auto)
  have "wp (thread_make_runnable cur x False) Q E ?s"
  proof (rule runnable_wp [OF 2(2) _ on(2) 2(3) tr], goal_cases)
    case (5 F' s')
    show ?case by (rule Q [OF 5(1) moved_trans [OF m 5(2)]]) (use 5(3) 2(1) in simp)
  qed (use lk k(2) in auto)
  then show ?case by simp
qed


lemma moved_sems: "moved Y cur F s F' s' \<Longrightarrow> moved Y cur F (s\<lparr>k_sems := x\<rparr>) F' (s'\<lparr>k_sems := x\<rparr>)"
  by (simp add: moved_def kcalm_def tview_def fun_eq_iff)

lemma on_list_apart: "F l = Some xs \<Longrightarrow> (\<And>t. t \<in> Y \<Longrightarrow> off_lists F t) \<Longrightarrow> set xs \<inter> Y = {}"
  by (auto simp: off_lists_def on_list_def)

lemma sem_wchan_some:
  assumes "kinv Y F c held s" "k_sems s i = Some S"
  shows "\<exists>ws nm. F (WcThreads (sem_wchan S)) = Some ws \<and> k_wchans s (sem_wchan S) = Some nm"
  using kinvD(11) [OF assms(1)] wchan_some [OF assms(1)] assms(2) by (fastforce simp: sems_ok_def)

text \<open>\<open>V\<close> counts up and puts the first sleeper, if there is one, on a run queue.\<close>

lemma V_wp:
  assumes k: "kinv Y F c [] s" "cur = curth s c" and Y: "\<And>t. t \<in> Y \<Longrightarrow> off_lists F t" "idle s c \<or> curth s c \<in> Y"
    and S: "k_sems s i = Some S" "sem_count S \<noteq> -1" "F (WcThreads (sem_wchan S)) = Some ws"
    and Q: "\<And>F' s'. kinv Y F' c [] s' \<Longrightarrow> moved Y cur F (s\<lparr>k_sems := (k_sems s)(i \<mapsto> S\<lparr>sem_count := sem_count S + 1\<rparr>)\<rparr>) F' s' \<Longrightarrow>
      (\<And>v. F' (WcThreads v) = (F(WcThreads (sem_wchan S) \<mapsto> tl ws)) (WcThreads v)) \<Longrightarrow> Q () s'"
  shows "wp (V cur i) Q E s"
  unfolding V_def wp_kthen
proof (rule acquire_wp [OF k], goal_cases)
  case (3 s1)
  note st = kcalmD [OF steady_calm [OF 3(2)]]
  note c = kinvD(2) [OF k(1)]
  have S1: "k_sems s1 i = Some S" using st(5) S(1) by simp
  let ?S = "S\<lparr>sem_count := sem_count S + 1\<rparr>"
  let ?s = "s1\<lparr>k_sems := (k_sems s1)(i \<mapsto> ?S)\<rparr>"
  have k1: "kinv Y F c [SemLock i] ?s" by (rule kinv_sem [OF 3(1) S1]) simp
  have m1: "moved Y cur F (s\<lparr>k_sems := (k_sems s)(i \<mapsto> ?S)\<rparr>) F ?s"
    using moved_sems [OF moved_steady [OF 3(2,3)], of Y F "(k_sems s)(i \<mapsto> ?S)"] st(5) by simp
  have cur1: "cur = curth ?s c" "idle ?s c \<or> curth ?s c \<in> Y" using st(2,3) c k(2) Y(2) by auto
  have "sem_count S + 1 \<noteq> 0" using S(2) by (metis add_eq_0_iff add.commute)
  then have pos: "0 < sem_count S + 1" by (simp add: word_gt_0)
  have "wp (wchan_wakeone cur (sem_wchan S) (SemLock i)) (\<lambda>_. wp (release cur (SemLock i)) Q E) E ?s"
  proof (rule wchan_wakeone_wp [OF k1 cur1(1) on_list_apart [OF S(3) Y(1)] cur1(2) S(3)], goal_cases)
    case (4 F2 s2)
    note st2 = kcalmD [OF movedD(1) [OF 4(2)]]
    have cur2: "cur = curth s2 c" using st2(1,2) st(1) c cur1(1) by simp
    show ?case
    proof (rule release_wp [OF 4(1) cur2], simp)
      fix s3 assume r: "kinv Y F2 c (remove1 (SemLock i) [SemLock i]) s3" "steady cur s2 s3" "lvl s3 cur = lvl s2 cur"
      show "Q () s3"
        by (rule Q) (use r 4(3) moved_trans [OF moved_trans [OF m1 4(2)] moved_steady [OF r(2,3)]] in auto)
    qed
  qed auto
  then show ?case using S1 pos by simp
qed auto

lemma local_empty:
  assumes "kinv Y F c held s" "\<And>t. t \<in> Y \<Longrightarrow> off_lists F t"
  shows "F (LocalList u) = None \<or> F (LocalList u) = Some []"
proof (cases "F (LocalList u)")
  case (Some xs)
  have "t \<notin> set xs" for t
    using kinvD(6) [OF assms(1), of t "LocalList u"] assms(2) [of t] Some
    by (cases "t \<in> Y") (auto simp: off_lists_def on_list_def listed_ok_def)
  then show ?thesis using Some by (cases xs) auto
qed simp

lemma in_transit_calm:
  assumes "in_transit s t" "kcalm cur s s'" "cur = curth s c" "c < ncpu s" "k_threads s' t = k_threads s t"
  shows "in_transit s' t"
proof -
  note st = kcalmD [OF assms(2)]
  have "intr (k_spl s') t = intr (k_spl s) t" if "\<forall>c < ncpu s. curth s c \<noteq> t"
    using that assms(3,4) st(9) [of t] by auto
  then show ?thesis using assms(1,5) st(1-3) unfolding in_transit_def parked_def by auto
qed

lemma kinv_init_local:
  assumes k: "kinv Y F c held s" and F: "F (LocalList u) = None \<or> F (LocalList u) = Some []"
    and Q: "\<And>h. kinv Y (F(LocalList u \<mapsto> [])) c held (s\<lparr>k_lists := h\<rparr>) \<Longrightarrow> Q () (s\<lparr>k_lists := h\<rparr>)"
  shows "wp (on_lists (threadlist_init (LocalList u))) Q E s"
  unfolding wp_on_lists
proof (rule wp_conseq [OF threadlist_init_wp [OF kinvD(1) [OF k] F]])
  fix x h assume "tl_rel (dom (k_threads s)) (F(LocalList u \<mapsto> [])) h"
  then have "Q () (s\<lparr>k_lists := h\<rparr>)" by (intro Q kinv_local [OF k]) (use F in auto)
  then show "Q x (s\<lparr>k_lists := h\<rparr>)" by simp
qed simp


lemma kinv_moveall_local:
  assumes k: "kinv Y F c held s" and F: "F l = Some ws" "F (LocalList u) = Some []" "\<And>v. l \<noteq> LocalList v"
    and Q: "\<And>h. kinv (Y \<union> set ws) (F(l \<mapsto> [], LocalList u \<mapsto> ws)) c held (s\<lparr>k_lists := h\<rparr>) \<Longrightarrow> Q () (s\<lparr>k_lists := h\<rparr>)"
  shows "wp (on_lists (moveall threadlist_remhead threadlist_addtail l (LocalList u))) Q E s"
  unfolding wp_on_lists
proof (rule wp_conseq [OF tq.moveall [OF kinvD(1) [OF k] F(1,2,3)]])
  let ?F = "F(l \<mapsto> [], LocalList u \<mapsto> [] @ ws)"
  have on: "on_list ?F t l' \<Longrightarrow> t \<notin> set ws \<Longrightarrow> on_list F t l'" for t l'
    by (auto simp: on_list_def split: if_splits)
  have on': "on_list F t l' \<Longrightarrow> t \<notin> set ws \<Longrightarrow> on_list ?F t l'" for t l'
    using F by (auto simp: on_list_def split: if_splits)
  fix x h assume h: "tl_rel (dom (k_threads s)) ?F h"
  have "kinv (Y \<union> set ws) ?F c held (s\<lparr>k_lists := h\<rparr>)"
  proof (rule kinv_lists [OF k h])
    show "lists_ok ?F s" using kinvD(10) [OF k] F by (cases l) (auto simp: lists_ok_def)
    show "listed_ok s l' t" if "on_list ?F t l'" "t \<notin> Y \<union> set ws" for t l'
      using kinvD(6) [OF k on [OF that(1)]] that(2) by simp
    show "off_lists F t \<and> t \<notin> Y" if "t \<notin> Y \<union> set ws" "off_lists ?F t" for t
      using that on' by (auto simp: off_lists_def)
    show "off_lists ?F (curth s c')" if "off_lists F (curth s c')" for c'
    proof -
      have "curth s c' \<notin> set ws" using that F(1) by (auto simp: off_lists_def on_list_def)
      then show ?thesis using that on by (auto simp: off_lists_def)
    qed
  qed auto
  then have "Q () (s\<lparr>k_lists := h\<rparr>)" by (intro Q) simp
  then show "Q x (s\<lparr>k_lists := h\<rparr>)" by simp
qed simp


lemma wakeall_loop_wp:
  assumes k: "kinv (Y \<union> set ws) F c [lk] s" "cur = curth s c" "F (LocalList cur) = Some ws"
    and ws: "set ws \<inter> Y = {}" "\<And>x. x \<in> set ws \<Longrightarrow> in_transit s x"
    and lk: "\<And>c'. lk \<noteq> IpiLock c'" "\<And>c'. lk \<noteq> RunqueueLock c'"
    and Q: "\<And>F' s'. kinv Y F' c [lk] s' \<Longrightarrow> moved Y cur F s F' s' \<Longrightarrow> F' (LocalList cur) = Some [] \<Longrightarrow>
      (\<And>v. F' (WcThreads v) = F (WcThreads v)) \<Longrightarrow> Q () s'"
  shows "wp (kloop (\<lambda>_.
                kbind (on_lists (threadlist_remhead (LocalList cur))) (\<lambda>target.
                  case target of
                    None \<Rightarrow> kret (Inr ())
                  | Some target \<Rightarrow> kthen (thread_make_runnable cur target False) (kret (Inl ())))) ()) Q E s"
proof -
  define I where "I n s' \<longleftrightarrow> (\<exists>vs F'. length vs = n \<and> set vs \<subseteq> set ws \<and> kinv (Y \<union> set vs) F' c [lk] s' \<and>
    F' (LocalList cur) = Some vs \<and> (\<forall>x \<in> set vs. in_transit s' x) \<and> moved Y cur F s F' s' \<and>
    (\<forall>v. F' (WcThreads v) = F (WcThreads v)))" for n s'
  note c = kinvD(2) [OF k(1)]
  show ?thesis
  proof (rule wp_kloop [where I = "\<lambda>n _. I n"])
    show "I (length ws) s" unfolding I_def using k ws by (intro exI [of _ ws] exI [of _ F]) simp
  next
    fix n x s' assume "I n s'"
    then obtain vs F' where v: "length vs = n" "set vs \<subseteq> set ws" "kinv (Y \<union> set vs) F' c [lk] s'" "F' (LocalList cur) = Some vs"
        "\<And>x. x \<in> set vs \<Longrightarrow> in_transit s' x" "moved Y cur F s F' s'" "\<And>v. F' (WcThreads v) = F (WcThreads v)"
      unfolding I_def by blast
    note st = kcalmD [OF movedD(1) [OF v(6)]]
    have cur: "cur = curth s' c" using st(2) c k(2) by simp
    show "wp (kbind (on_lists (threadlist_remhead (LocalList cur))) (\<lambda>target.
                  case target of
                    None \<Rightarrow> kret (Inr ())
                  | Some target \<Rightarrow> kthen (thread_make_runnable cur target False) (kret (Inl ()))))
      (\<lambda>r s''. case r of Inl y \<Rightarrow> \<exists>m<n. I m s'' | Inr z \<Rightarrow> Q z s'') E s'"
      unfolding wp_kbind
    proof (rule remhead_wp [OF v(3,4)], goal_cases)
      case 1
      then show ?case using Q [OF _ v(6) _ v(7)] v(3,4) by simp
    next
      case (2 x vs' h)
      let ?s = "s'\<lparr>k_lists := h\<rparr>" let ?F = "F'(LocalList cur \<mapsto> vs')"
      have "\<not> on_list ?F x (LocalList cur)" using 2(3) unfolding off_lists_def by blast
      then have x: "x \<notin> set vs'" by (simp add: on_list_upd)
      have xY: "x \<notin> Y \<union> set vs'" using x 2(1) v(2) ws(1) by auto
      have k2: "kinv (insert x (Y \<union> set vs')) ?F c [lk] ?s" using 2(1,2) by (simp add: insert_absorb)
      have tr: "in_transit ?s x" using v(5) [of x] 2(1) by simp
      have m: "moved Y cur F' s' ?F ?s"
        by (rule moved_lists, rule off_shrink [of F' "LocalList cur" vs]) (use v(4) 2(1) in auto)
      have "wp (thread_make_runnable cur x False) (\<lambda>_ s''. \<exists>m<n. I m s'') E ?s"
      proof (rule runnable_wp [OF k2 _ xY 2(3) tr], goal_cases)
        case (5 F2 s2)
        have "moved Y cur ?F ?s F2 s2" using 5(2) by (simp add: moved_def)
        then have m2: "moved Y cur F s F2 s2" using v(6) m by (blast intro: moved_trans)
        have "in_transit s2 y" if "y \<in> set vs'" for y
          by (rule in_transit_calm [of ?s, OF _ movedD(1) [OF 5(2)], where c = c])
            (use that v(5) [of y] 2(1) 5(4) [of y] x cur st(1) c in auto)
        then have "I (length vs') s2"
          unfolding I_def using 5 m2 v(2,7) 2(1) by (intro exI [of _ vs'] exI [of _ F2]) auto
        then show ?case using v(1) 2(1) by auto
      qed (use lk cur in auto)
      then show ?case by simp
    qed
  qed
qed

lemma wchan_wakeall_wp:
  assumes k: "kinv Y F c [lk] s" "cur = curth s c" and Y: "\<And>t. t \<in> Y \<Longrightarrow> off_lists F t" "idle s c \<or> curth s c \<in> Y"
    and w: "F (WcThreads w) = Some ws"
    and lk: "\<And>c'. lk \<noteq> IpiLock c'" "\<And>c'. lk \<noteq> RunqueueLock c'"
    and Q: "\<And>F' s'. kinv Y F' c [lk] s' \<Longrightarrow> moved Y cur F s F' s' \<Longrightarrow> (\<And>v. F' (WcThreads v) = (F(WcThreads w \<mapsto> [])) (WcThreads v)) \<Longrightarrow> Q () s'"
  shows "wp (wchan_wakeall cur w lk) Q E s"
  unfolding wchan_wakeall_def wp_kthen
proof (rule check_hold_wp [OF k], simp, rule kinv_init_local [OF k(1) local_empty [OF k(1) Y(1)]], goal_cases)
  case (2 h)
  let ?F = "F(LocalList cur \<mapsto> [])" let ?s = "s\<lparr>k_lists := h\<rparr>"
  have ws: "set ws \<inter> Y = {}" using on_list_apart [OF w Y(1)] .
  have tr: "in_transit s x" if "x \<in> set ws" for x
    by (rule listed_transit [OF k(1), of x w]) (use that w ws Y(2) in \<open>auto simp: on_list_def\<close>)
  show ?case
  proof (rule kinv_moveall_local [OF 2, where ws = ws], goal_cases)
    case (4 h2)
    let ?F2 = "?F(WcThreads w \<mapsto> [], LocalList cur \<mapsto> ws)" let ?s2 = "?s\<lparr>k_lists := h2\<rparr>"
    have off: "off_lists ?F2 t" if "t \<in> Y" for t
      using Y(1) [OF that] that ws by (auto simp: off_lists_def on_list_def split: if_splits)
    have m: "moved Y cur F s ?F2 ?s2" using off by (simp add: moved_def tview_def fun_eq_iff)
    show ?case
    proof (rule wakeall_loop_wp [OF 4 _ _ ws _ lk], goal_cases)
      case (4 F3 s3)
      show ?case
        unfolding wp_on_lists
      proof (rule threadlist_cleanup_wp [OF kinvD(1) [OF 4(1)] 4(3)])
        have "Q () s3" by (rule Q [OF 4(1) moved_trans [OF m 4(2)]]) (use 4(4) in simp)
        then show "Q () (s3\<lparr>k_lists := k_lists s3\<rparr>)" by simp
      qed
    qed (use tr k(2) in auto)
  qed (use w in auto)
qed simp

lemma timerclock_wp:
  assumes k: "kinv Y F c [] s" "cur = curth s c" and Y: "\<And>t. t \<in> Y \<Longrightarrow> off_lists F t" "idle s c \<or> curth s c \<in> Y"
    and Q: "\<And>F' s'. kinv Y F' c [] s' \<Longrightarrow> moved Y cur F s F' s' \<Longrightarrow> (\<And>v. F' (WcThreads v) = (F(WcThreads (k_lbolt s) \<mapsto> [])) (WcThreads v)) \<Longrightarrow> Q () s'"
  shows "wp (timerclock cur) Q E s"
  unfolding timerclock_def wp_kthen wp_kbind
proof (rule acquire_wp [OF k], goal_cases)
  case (3 s1)
  note st = kcalmD [OF steady_calm [OF 3(2)]]
  note c = kinvD(2) [OF k(1)]
  obtain ws where ws: "F (WcThreads (k_lbolt s)) = Some ws"
    using kinvD(11) [OF k(1)] wchan_some [OF k(1), of "k_lbolt s"] by (auto simp: sems_ok_def)
  have cur1: "cur = curth s1 c" "idle s1 c \<or> curth s1 c \<in> Y" using st(2,3) c k(2) Y(2) by auto
  have "wp (wchan_wakeall cur (k_lbolt s) LboltLock) (\<lambda>_. wp (release cur LboltLock) Q E) E s1"
  proof (rule wchan_wakeall_wp [OF 3(1) cur1(1) Y(1) cur1(2) ws], goal_cases)
    case (4 F2 s2)
    note st2 = kcalmD [OF movedD(1) [OF 4(2)]]
    have cur2: "cur = curth s2 c" using st2(1,2) st(1) c cur1(1) by simp
    show ?case
    proof (rule release_wp [OF 4(1) cur2], simp)
      fix s3 assume r: "kinv Y F2 c (remove1 LboltLock [LboltLock]) s3" "steady cur s2 s3" "lvl s3 cur = lvl s2 cur"
      show "Q () s3"
        by (rule Q) (use r 4(3) moved_trans [OF moved_trans [OF moved_steady [OF 3(2,3)] 4(2)] moved_steady [OF r(2,3)]] in auto)
    qed
  qed auto
  then show ?case using st(8) by simp
qed auto

end
