(* ===== verification/Kern_Steps.thy ===== *)
theory Kern_Steps
  imports Kern_Calls
begin

text \<open>
  The calls that sleep, the clock, migration and interrupts: they leave the state between
  operations as it must be, and what they do to the semaphores and the sleepers.
\<close>

subsection \<open>Sleeping\<close>

lemma running_steady:
  assumes k: "kinv {cur} F c held s" "cur = curth s c" "\<not> idle s c" "running_ok F s c" "procs_ok s"
    and st: "steady cur s s'" "lvl s' cur = lvl s cur"
  shows "cur = curth s' c" "\<not> idle s' c" "running_ok F s' c" "procs_ok s'" "sview F s' = sview F s"
proof -
  note d = kcalmD [OF steady_calm [OF st(1)]] steadyD [OF st(1)]
  note c = kinvD(2) [OF k(1)]
  show cur: "cur = curth s' c" "\<not> idle s' c" using d(2,3) c k(2,3) by simp_all
  show "running_ok F s' c" using k(2,4) cur st(2) d by (simp add: running_ok_def)
  show "procs_ok s'" by (rule procs_ok_cong [OF k(5)]) (use d tview_steady [OF st(1)] in simp_all)
  show "sview F s' = sview F s" using d tview_steady [OF st(1)] by (simp add: sview_def)
qed

lemma good_unlocked:
  assumes k: "kinv {cur} F c held s" "cur = curth s c" "\<not> idle s c" "running_ok F s c" "procs_ok s"
    and st: "kinv {cur} F c [] s'" "steady cur s s'" "lvl s' cur = lvl s cur"
  shows "good F c s'"
  using running_steady [OF k st(2,3)] st(1) by (simp add: good_def rest_def)

lemma wchan_sleep_wp:
  assumes k: "kinv {cur} F c [lk] s" "cur = curth s c" "\<not> idle s c" "running_ok F s c" "procs_ok s"
    and lk: "lk \<noteq> RunqueueLock c" and w: "k_wchans s w = Some nm" "F (WcThreads w) = Some ws"
    and T: "k_threads s cur = Some T" "sleeps_on s w (InSwitch (lvl s cur) # fs @ t_context T)" "base_ok (fs @ t_context T)"
      "\<not> in_irq s cur"
    and Q: "\<And>F' s'. good F' c s' \<Longrightarrow>
      sview F' s' = sview (F(WcThreads w \<mapsto> ws @ [cur])) (s\<lparr>k_threads := (k_threads s)(cur \<mapsto> T\<lparr>t_context := fs @ t_context T\<rparr>)\<rparr>) \<Longrightarrow>
      picks c F F' s' \<Longrightarrow> Q () s'"
  shows "wp (wchan_sleep cur w lk fs) Q E s"
proof -
  let ?s = "s\<lparr>k_threads := (k_threads s)(cur \<mapsto> T\<lparr>t_context := fs @ t_context T\<rparr>)\<rparr>"
  have p: "procs_ok ?s" by (rule procs_ok_cong [OF k(5)]) (use T(1) in \<open>auto simp: tview_def\<close>)
  have ni: "fs @ t_context T \<noteq> InIrq a b # r" for a b r using base_no_irq [OF T(3)] by (metis has_irq_def list.set_intros(1))
  then have f: "frames_ok False (lvl s cur) (fs @ t_context T)"
    using T(3) by (auto simp: frames_ok_def split: list.splits frame.splits)
  have "wp (thread_switch cur S_SLEEP (Some (w, lk)) fs) Q E s"
  proof (rule switch_sleep_wp [OF k lk w T(1,2) f T(4)])
    fix F' s' assume r: "rest F' c s'" "view F' s' = view (F(WcThreads w \<mapsto> ws @ [cur])) ?s" "picks c F F' s'"
    show "Q () s'" by (rule Q [OF _ view_sview [OF r(2)] r(3)]) (use r(1) view_procs [OF r(2) p] in \<open>simp add: good_def\<close>)
  qed
  moreover have "c_spinlocks (k_spl s) c = 1" using kinvD(3) [OF k(1)] by (simp add: spl_ok_def)
  ultimately show ?thesis
    using T(4) unfolding wchan_sleep_def wp_kthen wp_kbind
    by (simp del: wp_kbind wp_kthen) (rule check_hold_wp [OF k(1,2)], simp, rule curcpu_wp [OF k(1,2)], simp)
qed

text \<open>A pass of the loop of \<open>P\<close>, the lock held.\<close>

lemma P_loop_wp:
  assumes k: "kinv {cur} F c [SemLock i] s" "cur = curth s c" "\<not> idle s c" "running_ok F s c" "procs_ok s"
    and S: "k_sems s i = Some S" "F (WcThreads (sem_wchan S)) = Some ws" and T: "k_threads s cur = Some T" "entry_ok (t_context T)"
    and sleep: "\<And>F' s'. sem_count S = 0 \<Longrightarrow> good F' c s' \<Longrightarrow>
      sview F' s' = sview (F(WcThreads (sem_wchan S) \<mapsto> ws @ [cur])) (s\<lparr>k_threads := (k_threads s)(cur \<mapsto> T\<lparr>t_context := InP i # t_context T\<rparr>)\<rparr>) \<Longrightarrow>
      picks c F F' s' \<Longrightarrow> Q () s'"
    and go: "\<And>F' s'. sem_count S \<noteq> 0 \<Longrightarrow> good F' c s' \<Longrightarrow>
      sview F' s' = sview F (s\<lparr>k_sems := (k_sems s)(i \<mapsto> S\<lparr>sem_count := sem_count S - 1\<rparr>)\<rparr>) \<Longrightarrow>
      curth s' c = cur \<Longrightarrow> \<not> idle s' c \<Longrightarrow> Q () s'"
  shows "wp (P_loop cur i) Q E s"
proof (cases "sem_count S = 0")
  case True
  obtain nm where nm: "k_wchans s (sem_wchan S) = Some nm" using sem_wchan_some [OF k(1) S(1)] by blast
  have "frames_ok (in_irq s cur) (lvl s cur) (t_context T)" using k(2,4) T(1) by (auto simp: running_ok_def)
  then have irq: "\<not> in_irq s cur" using frames_irq entry_no_irq [OF T(2)] by blast
  have "wp (wchan_sleep cur (sem_wchan S) (SemLock i) [InP i]) Q E s"
    by (rule wchan_sleep_wp [OF k _ nm S(2) T(1) _ _ irq])
      (use S(1) T(2) sleep True in \<open>auto simp: sleeps_on_def base_ok_def\<close>)
  then show ?thesis using S(1) True by (simp add: P_loop_def)
next
  case False
  let ?s = "s\<lparr>k_sems := (k_sems s)(i \<mapsto> S\<lparr>sem_count := sem_count S - 1\<rparr>)\<rparr>"
  have k2: "kinv {cur} F c [SemLock i] ?s" by (rule kinv_sem [OF k(1) S(1)]) simp
  have p2: "procs_ok ?s" by (rule procs_ok_cong [OF k(5)]) (auto simp: tview_def)
  have r2: "running_ok F ?s c" "cur = curth ?s c" "\<not> idle ?s c" using k by (simp_all add: running_ok_def)
  have "wp (release cur (SemLock i)) Q E ?s"
  proof (rule release_wp [OF k2 r2(2)], simp)
    fix s3 assume r: "kinv {cur} F c (remove1 (SemLock i) [SemLock i]) s3" "steady cur ?s s3" "lvl s3 cur = lvl ?s cur"
    show "Q () s3"
      by (rule go [OF False good_unlocked [OF k2 r2(2,3,1) p2 _ r(2,3)]])
        (use r(1) running_steady(1,2,5) [OF k2 r2(2,3,1) p2 r(2,3)] in auto)
  qed
  then show ?thesis using S(1) False by (simp add: P_loop_def word_gt_0)
qed


lemma good_parts:
  assumes "good F c s" "cur = curth s c" "\<not> idle s c"
  shows "kinv {cur} F c [] s" "running_ok F s c" "procs_ok s" "off_lists F cur"
  using assms by (auto simp: good_def rest_def running_ok_def)

lemma lock_P_wp:
  assumes g: "good F c s" "cur = curth s c" "\<not> idle s c"
    and S: "k_sems s i = Some S" "F (WcThreads (sem_wchan S)) = Some ws" and T: "k_threads s cur = Some T" "entry_ok (t_context T)"
    and sleep: "\<And>F' s'. sem_count S = 0 \<Longrightarrow> good F' c s' \<Longrightarrow>
      sview F' s' = sview (F(WcThreads (sem_wchan S) \<mapsto> ws @ [cur])) (s\<lparr>k_threads := (k_threads s)(cur \<mapsto> T\<lparr>t_context := InP i # t_context T\<rparr>)\<rparr>) \<Longrightarrow>
      picks c F F' s' \<Longrightarrow> Q () s'"
    and go: "\<And>F' s'. sem_count S \<noteq> 0 \<Longrightarrow> good F' c s' \<Longrightarrow>
      sview F' s' = sview F (s\<lparr>k_sems := (k_sems s)(i \<mapsto> S\<lparr>sem_count := sem_count S - 1\<rparr>)\<rparr>) \<Longrightarrow>
      curth s' c = cur \<Longrightarrow> \<not> idle s' c \<Longrightarrow> Q () s'"
  shows "wp (kthen (acquire cur (SemLock i)) (P_loop cur i)) Q E s"
  unfolding wp_kthen
proof (rule acquire_wp [OF good_parts(1) [OF g] g(2)], goal_cases)
  case (3 s1)
  note p = good_parts [OF g] note r = running_steady [OF p(1) g(2,3) p(2,3) 3(2,3)]
  note d = kcalmD [OF steady_calm [OF 3(2)]] steadyD [OF 3(2)]
  show ?case
  proof (rule P_loop_wp [OF 3(1) r(1-4), where S = S and T = T and ws = ws], goal_cases)
    case (5 F' s')
    from 5(3) have "sview F' s' = sview (F(WcThreads (sem_wchan S) \<mapsto> ws @ [cur])) (s\<lparr>k_threads := (k_threads s)(cur \<mapsto> T\<lparr>t_context := InP i # t_context T\<rparr>)\<rparr>)"
      using d by (simp add: sview_def tview_def)
    from 5(1,2) this 5(4) show ?case by (rule sleep)
  next
    case (6 F' s')
    from 6(3) have "sview F' s' = sview F (s\<lparr>k_sems := (k_sems s)(i \<mapsto> S\<lparr>sem_count := sem_count S - 1\<rparr>)\<rparr>)"
      using d by (simp add: sview_def tview_def)
    from 6(1,2) this 6(4,5) show ?case by (rule go)
  qed (use S T d in auto)
qed auto

lemma lock_clocksleep_wp:
  assumes g: "good F c s" "cur = curth s c" "\<not> idle s c" and w: "F (WcThreads (k_lbolt s)) = Some ws"
    and T: "k_threads s cur = Some T" "entry_ok (t_context T)"
    and sleep: "\<And>F' s'. n > 0 \<Longrightarrow> good F' c s' \<Longrightarrow> sview F' s' = sview (F(WcThreads (k_lbolt s) \<mapsto> ws @ [cur])) s \<Longrightarrow> Q () s'"
    and go: "\<And>F' s'. n \<le> 0 \<Longrightarrow> good F' c s' \<Longrightarrow> sview F' s' = sview F s \<Longrightarrow> Q () s'"
  shows "wp (kthen (acquire cur LboltLock) (clocksleep_loop cur n)) Q E s"
  unfolding wp_kthen
proof (rule acquire_wp [OF good_parts(1) [OF g] g(2)], goal_cases)
  case (3 s1)
  note p = good_parts [OF g] note r = running_steady [OF p(1) g(2,3) p(2,3) 3(2,3)]
  note d = kcalmD [OF steady_calm [OF 3(2)]] steadyD [OF 3(2)]
  show ?case
  proof (cases "n > 0")
    case True
    obtain nm where nm: "k_wchans s1 (k_lbolt s1) = Some nm" using kinvD(11) [OF 3(1)] by (auto simp: sems_ok_def)
    have T1: "k_threads s1 cur = Some T" using T(1) d by simp
    have "frames_ok (in_irq s cur) (lvl s cur) (t_context T)" using p(2) g(2) T(1) by (auto simp: running_ok_def)
    then have irq: "\<not> in_irq s1 cur" using frames_irq entry_no_irq [OF T(2)] d by auto
    have "wp (wchan_sleep cur (k_lbolt s1) LboltLock [InClocksleep n]) Q E s1"
    proof (rule wchan_sleep_wp [OF 3(1) r(1-4) _ nm _ T1 _ _ irq, where ws = ws], goal_cases)
      case (5 F' s')
      from 5(2) have "sview F' s' = sview (F(WcThreads (k_lbolt s) \<mapsto> ws @ [cur])) s"
        using d T pend_entry [OF T(2)] by (auto simp: sview_def tview_def fun_eq_iff)
      with True 5(1) show ?case by (rule sleep)
    qed (use w d T(2) True in \<open>auto simp: sleeps_on_def base_ok_def\<close>)
    then show ?thesis using True by (simp add: clocksleep_loop_def)
  next
    case False
    have "wp (release cur LboltLock) Q E s1"
    proof (rule release_wp [OF 3(1) r(1)], simp)
      fix s3 assume s3: "kinv {cur} F c (remove1 LboltLock [LboltLock]) s3" "steady cur s1 s3" "lvl s3 cur = lvl s1 cur"
      show "Q () s3"
        by (rule go [OF _ good_unlocked [OF 3(1) r(1-4) _ s3(2,3)]])
          (use s3(1) running_steady(5) [OF 3(1) r(1-4) s3(2,3)] r(5) False in auto)
    qed
    then show ?thesis using False by (simp add: clocksleep_loop_def)
  qed
qed auto

text \<open>The innermost call is done with.\<close>

lemma good_pop:
  assumes g: "good F c s" "cur = curth s c" "\<not> idle s c" and T: "k_threads s cur = Some T" "frames_ok (in_irq s cur) (lvl s cur) fs"
  shows "good F c (s\<lparr>k_threads := (k_threads s)(cur \<mapsto> T\<lparr>t_context := fs\<rparr>)\<rparr>)" (is "good F c ?s")
proof -
  note p = good_parts [OF g]
  have "kinv {cur} F c [] ?s" by (rule kinv_cur [OF p(1) g(2) T(1)]) simp_all
  moreover have "procs_ok ?s" by (rule procs_ok_cong [OF p(3)]) (use T(1) in \<open>auto simp: tview_def\<close>)
  ultimately show ?thesis using p(2) g(2,3) T by (auto simp: good_def rest_def running_ok_def)
qed


subsection \<open>Migration\<close>

text \<open>Threads move between run queues only; nobody who sleeps is touched.\<close>

definition shuffled :: "tid set \<Rightarrow> tid \<Rightarrow> (listid \<rightharpoonup> tid list) \<Rightarrow> machine \<Rightarrow> (listid \<rightharpoonup> tid list) \<Rightarrow> machine \<Rightarrow> bool" where
  "shuffled Y cur F s F' s' \<longleftrightarrow> moved Y cur F s F' s' \<and> (\<forall>w. F' (WcThreads w) = F (WcThreads w))"

lemma shuffled_refl [simp]: "shuffled Y cur F s F s"
  by (simp add: shuffled_def)

lemma shuffled_trans: "shuffled Y cur F s F' s' \<Longrightarrow> shuffled Y cur F' s' F'' s'' \<Longrightarrow> shuffled Y cur F s F'' s''"
  by (auto simp: shuffled_def intro: moved_trans)

lemma shuffled_steady: "steady cur s s' \<Longrightarrow> lvl s' cur = lvl s cur \<Longrightarrow> shuffled Y cur F s F s'"
  by (simp add: shuffled_def moved_steady)

lemma shuffled_sview: "shuffled Y cur F s F' s' \<Longrightarrow> sview F' s' = sview F s"
  using kcalmD [of cur s s'] by (simp add: shuffled_def moved_def sview_def)

lemma shuffledD: "shuffled Y cur F s F' s' \<Longrightarrow> kcalm cur s s'" "shuffled Y cur F s F' s' \<Longrightarrow> moved Y cur F s F' s'"
  by (simp_all add: shuffled_def moved_def)

lemma migration_counts_wp:
  assumes "kinv Y F c [] s" "cur = curth s c" "F (Runqueue c) = Some xs" "set cs \<subseteq> {..< ncpu s}"
    and "\<And>s' tot. kinv Y F c [] s' \<Longrightarrow> steady cur s s' \<Longrightarrow> lvl s' cur = lvl s cur \<Longrightarrow>
      Q (if c \<in> set cs then of_nat (length xs) else my, tot) s'"
  shows "wp (migration_counts cur cs my tot) Q E s"
  using assms
proof (induction cs arbitrary: s my tot)
  case (Cons c' cs)
  note c = kinvD(2) [OF Cons.prems(1)]
  show ?case
    unfolding migration_counts.simps wp_kthen wp_kbind
  proof (rule acquire_wp [OF Cons.prems(1,2)], goal_cases)
    case (3 s1)
    note st = kcalmD [OF steady_calm [OF 3(2)]]
    have cur1: "cur = curth s1 c" using st(2) c Cons.prems(2) by simp
    obtain ys where ys: "F (Runqueue c') = Some ys" using runqueue_some [OF Cons.prems(1), of c'] Cons.prems(4) by auto
    have n: "tl_count (k_lists s1) (Runqueue c') = of_nat (length ys)" by (rule tl_rel_count(1) [OF kinvD(1) [OF 3(1)] ys])
    have "wp (curcpu cur) (\<lambda>me. wp (release cur (RunqueueLock c')) (\<lambda>_. wp (migration_counts cur cs
       (if c' = me then of_nat (length ys) else my) (tot + of_nat (length ys))) Q E) E) E s1"
    proof (rule curcpu_wp [OF 3(1) cur1], rule release_wp [OF 3(1) cur1], simp)
      fix s2 assume 2: "kinv Y F c (remove1 (RunqueueLock c') [RunqueueLock c']) s2" "steady cur s1 s2" "lvl s2 cur = lvl s1 cur"
      note st2 = kcalmD [OF steady_calm [OF 2(2)]]
      have k2: "kinv Y F c [] s2" using 2(1) by simp
      have cur2: "cur = curth s2 c" using st2(1,2) st(1) c cur1 by simp
      show "wp (migration_counts cur cs (if c' = c then of_nat (length ys) else my) (tot + of_nat (length ys))) Q E s2"
      proof (rule Cons.IH [OF k2 cur2 Cons.prems(3)])
        show "set cs \<subseteq> {..< ncpu s2}" using Cons.prems(4) st(1) st2(1) by simp
        fix s' tot assume "kinv Y F c [] s'" "steady cur s2 s'" "lvl s' cur = lvl s2 cur"
        then show "Q (if c \<in> set cs then of_nat (length xs) else if c' = c then of_nat (length ys) else my, tot) s'"
          using Cons.prems(3) ys Cons.prems(5) [of s' tot] steady_trans [OF steady_trans [OF 3(2) 2(2)]] 2(3) 3(3) by auto
      qed
    qed
    then show ?case by (simp only: wp_on_lists wp_kget n same_part)
  qed auto
qed simp

text \<open>A thread that waits for processor \<open>c\<close>, and may be on no list for a moment.\<close>

definition waiting :: "machine \<Rightarrow> cpuid \<Rightarrow> tid \<Rightarrow> bool" where
  "waiting s c t \<longleftrightarrow> listed_ok s (Runqueue c) t \<and>
     (\<forall>T. k_threads s t = Some T \<longrightarrow> (\<forall>c' < ncpu s. curth s c' \<noteq> t) \<longrightarrow> parked (k_spl s) t T)"

lemma waiting_calm:
  assumes "waiting s c t" "kcalm cur s s'" "cur = curth s c0" "c0 < ncpu s" "k_threads s' t = k_threads s t"
  shows "waiting s' c t"
proof -
  note st = kcalmD [OF assms(2)]
  have "intr (k_spl s') t = intr (k_spl s) t" if "\<forall>c < ncpu s. curth s c \<noteq> t"
    using that assms(3,4) st(9) [of t] by auto
  then show ?thesis using assms(1,5) st(1-3) unfolding waiting_def parked_def listed_ok_def by auto
qed

lemma kinv_to_local:
  assumes k: "kinv Y F c held s" and F: "F l = Some xs" "F (LocalList u) = Some []" "\<And>v. l \<noteq> LocalList v"
    and xs: "set xs = set us \<union> set vs" and h: "tl_rel (dom (k_threads s)) (F(l \<mapsto> us, LocalList u \<mapsto> vs)) h"
  shows "kinv (Y \<union> set vs) (F(l \<mapsto> us, LocalList u \<mapsto> vs)) c held (s\<lparr>k_lists := h\<rparr>)"
proof -
  let ?F = "F(l \<mapsto> us, LocalList u \<mapsto> vs)"
  have on: "on_list ?F t l' \<Longrightarrow> t \<notin> set vs \<Longrightarrow> on_list F t l'" for t l'
    using F xs by (auto simp: on_list_def split: if_splits)
  have on': "on_list F t l' \<Longrightarrow> t \<notin> set vs \<Longrightarrow> on_list ?F t l'" for t l'
    using F xs by (auto simp: on_list_def split: if_splits)
  show ?thesis
  proof (rule kinv_lists [OF k h])
    show "lists_ok ?F s" using kinvD(10) [OF k] F by (cases l) (auto simp: lists_ok_def)
    show "listed_ok s l' t" if "on_list ?F t l'" "t \<notin> Y \<union> set vs" for t l'
      using kinvD(6) [OF k on [OF that(1)]] that(2) by simp
    show "off_lists F t \<and> t \<notin> Y" if "t \<notin> Y \<union> set vs" "off_lists ?F t" for t
      using that on' by (auto simp: off_lists_def)
    show "off_lists ?F (curth s c')" if "off_lists F (curth s c')" for c'
    proof -
      have "curth s c' \<notin> set vs" using that F(1) xs by (auto simp: off_lists_def on_list_def)
      then show ?thesis using that on by (auto simp: off_lists_def)
    qed
  qed auto
qed

lemma kinv_from_local:
  assumes k: "kinv (Y \<union> set vs) F c held s" and F: "F (Runqueue c) = Some xs" "F (LocalList u) = Some vs"
    and vs: "\<And>v. v \<in> set vs \<Longrightarrow> waiting s c v" "set vs \<inter> Y = {}"
    and h: "tl_rel (dom (k_threads s)) (F(LocalList u \<mapsto> [], Runqueue c \<mapsto> xs @ vs)) h"
  shows "kinv Y (F(LocalList u \<mapsto> [], Runqueue c \<mapsto> xs @ vs)) c held (s\<lparr>k_lists := h\<rparr>)"
proof -
  let ?F = "F(LocalList u \<mapsto> [], Runqueue c \<mapsto> xs @ vs)"
  have on: "on_list ?F t l \<Longrightarrow> (t \<in> set vs \<and> l = Runqueue c) \<or> on_list F t l" for t l
    using F by (auto simp: on_list_def split: if_splits)
  have on': "on_list F t l \<Longrightarrow> \<exists>l. on_list ?F t l" for t l
    by (rule exI [of _ "if l = LocalList u then Runqueue c else l"]) (use F in \<open>auto simp: on_list_def split: if_splits\<close>)
  show ?thesis
  proof (rule kinv_lists [OF k h])
    show "lists_ok ?F s" using kinvD(10) [OF k] F by (auto simp: lists_ok_def)
    show "listed_ok s l t" if "on_list ?F t l" "t \<notin> Y" for t l
    proof (cases "t \<in> set vs")
      case True
      then have "on_list F t (LocalList u)" "on_list ?F t (Runqueue c)" using F by (simp_all add: on_list_def)
      moreover have "l = Runqueue c" by (rule tl_relD(2) [OF h that(1)]) (use True in \<open>simp add: on_list_def\<close>)
      ultimately show ?thesis using vs(1) [OF True] by (simp add: waiting_def)
    next
      case False
      then show ?thesis using kinvD(6) [OF k, of t l] on [OF that(1)] that(2) by auto
    qed
    show "off_lists F t \<and> t \<notin> Y \<union> set vs" if "t \<notin> Y" "off_lists ?F t" for t
    proof -
      have off: "off_lists F t" using that(2) on' [of t] unfolding off_lists_def by blast
      then have "\<not> on_list F t (LocalList u)" unfolding off_lists_def by blast
      then show ?thesis using off that(1) F(2) by (simp add: on_list_def)
    qed
    show "parked (k_spl s) t T" if "k_threads s t = Some T" "t \<notin> Y" "t \<in> Y \<union> set vs" "\<forall>c' < ncpu s. curth s c' \<noteq> t" for t T
      using vs(1) [of t] that by (auto simp: waiting_def)
    show "off_lists ?F (curth s c')" if "off_lists F (curth s c')" for c'
    proof -
      have "\<not> on_list F (curth s c') (LocalList u)" using that unfolding off_lists_def by blast
      then have "curth s c' \<notin> set vs" using F(2) by (simp add: on_list_def)
      then show ?thesis using that on [of "curth s c'"] unfolding off_lists_def by blast
    qed
  qed
qed


text \<open>The victims: on a list of the caller, still waiting for its processor.\<close>

definition hand :: "tid set \<Rightarrow> cpuid \<Rightarrow> tid \<Rightarrow> (listid \<rightharpoonup> tid list) \<Rightarrow> tid list \<Rightarrow> machine \<Rightarrow> bool" where
  "hand Y c cur F vs s \<longleftrightarrow> F (LocalList cur) = Some vs \<and> set vs \<inter> Y = {} \<and> (\<forall>v \<in> set vs. waiting s c v)"

lemma handD:
  assumes "hand Y c cur F vs s"
  shows "F (LocalList cur) = Some vs" "set vs \<inter> Y = {}" "v \<in> set vs \<Longrightarrow> waiting s c v"
  using assms by (simp_all add: hand_def)

lemma hand_calm:
  assumes "hand Y c cur F vs s" "kcalm cur s s'" "cur = curth s c0" "c0 < ncpu s" "F' (LocalList cur) = Some vs'" "set vs' \<subseteq> set vs"
    and "\<And>v. v \<in> set vs' \<Longrightarrow> k_threads s' v = k_threads s v"
  shows "hand Y c cur F' vs' s'"
  using assms waiting_calm [of s c _ cur s' c0] unfolding hand_def by blast

lemma waiting_current:
  assumes "kinv Z F c0 held s" "waiting s c x" "c' < ncpu s" "curth s c' = x"
  shows "c' = c"
  using kinvD(4) [OF assms(1,3)] assms(2,4) by (auto simp: waiting_def listed_ok_def)

lemma shuffled_lists:
  "(\<And>t. t \<in> Y \<Longrightarrow> off_lists F t \<Longrightarrow> off_lists F' t) \<Longrightarrow> (\<And>w. F' (WcThreads w) = F (WcThreads w)) \<Longrightarrow> shuffled Y cur F s F' (s\<lparr>k_lists := h\<rparr>)"
  by (simp add: shuffled_def moved_lists)

lemma off_grow: "off_lists F t \<Longrightarrow> t \<notin> set ys \<Longrightarrow> off_lists (F(l \<mapsto> ys)) t"
  by (auto simp: off_lists_def on_list_def)

text \<open>One victim goes to processor \<open>c'\<close>.\<close>

lemma migrate_one_wp:
  assumes k: "kinv (insert x Z) F c [RunqueueLock c'] s" "cur = curth s c" "c' < ncpu s" "c' \<noteq> c"
    and x: "off_lists F x" "x \<notin> Z" "x \<noteq> cur" "waiting s c x" "Y \<subseteq> Z"
    and Q: "\<And>F' s'. kinv Z F' c [RunqueueLock c'] s' \<Longrightarrow> shuffled Y cur F s F' s' \<Longrightarrow> (\<And>v. v \<noteq> x \<Longrightarrow> k_threads s' v = k_threads s v) \<Longrightarrow>
      F' (LocalList cur) = F (LocalList cur) \<Longrightarrow> wp m Q E s'"
  shows "wp (kthen (on_thread x (kmod (\<lambda>T. T\<lparr>t_cpu := Some c'\<rparr>)))
              (kthen (on_lists (threadlist_addtail (Runqueue c') x))
                 (kbind (on_cpu c' (kget c_isidle)) (\<lambda>idle.
                    kthen (kwhen idle (ipi_send cur c' IPI_UNIDLE)) m)))) Q E s"
proof -
  obtain T where T: "k_threads s x = Some T" "t_state T = S_READY" "t_proc T \<noteq> None" "saved_ok (t_context T)"
    using x(4) by (auto simp: waiting_def listed_ok_def)
  note c = kinvD(2) [OF k(1)]
  have ne: "curth s c'' \<noteq> x" if "c'' < ncpu s" for c''
    using waiting_current [OF k(1) x(4) that] x(3) k(2) by auto
  have pk: "parked (k_spl s) x T" using x(4) T(1) ne by (auto simp: waiting_def)
  let ?T = "T\<lparr>t_cpu := Some c'\<rparr>"
  let ?s = "s\<lparr>k_threads := (k_threads s)(x \<mapsto> ?T)\<rparr>"
  have eq: "?s = s\<lparr>k_threads := (k_threads s)(x \<mapsto> ?T), k_lists := k_lists s, k_spl := (k_spl s)\<lparr>intr := (intr (k_spl s))(x := intr (k_spl s) x)\<rparr>\<rparr>"
    by (rule machine.equality) simp_all
  have k1: "kinv (insert x Z) F c [RunqueueLock c'] ?s"
  proof -
    have st: "stack_ok ?T" using kinvD(9) [OF k(1) T(1)] by (simp add: stack_ok_def)
    have dom: "tl_rel (insert x (dom (k_threads s))) F (k_lists s)" using kinvD(1) [OF k(1)] T(1) by (simp add: insert_absorb domI)
    have "kinv (insert x (insert x Z)) F c [RunqueueLock c'] ?s" by (subst eq, rule kinv_off [OF k(1) _ ne st dom]) simp
    then show ?thesis by simp
  qed
  obtain xs where xs: "F (Runqueue c') = Some xs" using runqueue_some [OF k(1,3)] by blast
  let ?F = "F(Runqueue c' \<mapsto> xs @ [x])"
  have "wp (on_lists (threadlist_addtail (Runqueue c') x))
     (\<lambda>_. wp (kbind (on_cpu c' (kget c_isidle)) (\<lambda>idle. kthen (kwhen idle (ipi_send cur c' IPI_UNIDLE)) m)) Q E) E ?s"
  proof (rule addtail_wp [OF k1 xs, where T = ?T], goal_cases)
    case (5 h)
    let ?s2 = "?s\<lparr>k_lists := h\<rparr>"
    have "kinv (insert x Z - {x}) ?F c [RunqueueLock c'] ?s2"
      by (rule kinv_settle [OF 5, where l = "Runqueue c'"])
        (use T k(3) pk ne in \<open>auto simp: on_list_def listed_ok_def parked_def\<close>)
    then have k2: "kinv Z ?F c [RunqueueLock c'] ?s2" using x(2) by simp
    have off: "off_lists ?F t" if "t \<in> Y" "off_lists F t" for t
      by (rule off_grow [OF that(2)]) (use that xs x(2,5) in \<open>auto simp: off_lists_def on_list_def\<close>)
    have sh: "shuffled Y cur F s ?F ?s2"
      using T(1) x(2,5) off by (auto simp: shuffled_def moved_def tview_def fun_eq_iff kcalm_def)
    have go: "wp m Q E s3" if "kinv Z ?F c [RunqueueLock c'] s3" "steady cur ?s2 s3" "lvl s3 cur = lvl ?s2 cur" for s3
      by (rule Q [OF that(1) shuffled_trans [OF sh shuffled_steady [OF that(2,3)]]]) (use steadyD [OF that(2)] in auto)
    have "wp (kwhen (idle s c') (ipi_send cur c' IPI_UNIDLE)) (\<lambda>_. wp m Q E) E ?s2"
    proof (cases "idle s c'")
      case True
      have "wp (ipi_send cur c' IPI_UNIDLE) (\<lambda>_. wp m Q E) E ?s2"
        by (rule ipi_send_wp [OF k2]) (use k go in auto)
      then show ?thesis using True by simp
    qed (use go [OF k2] in simp)
    then show ?case using k(3) by simp
  qed (use ne x(1) in auto)
  then show ?thesis using T(1) by simp
qed


lemma migrate_to_wp:
  assumes "kinv (Y \<union> set vs) F c [RunqueueLock c'] s" "cur = curth s c" "c' < ncpu s" "c' \<noteq> c" "hand Y c cur F vs s" "n \<le> length vs"
    and "\<And>n' vs' F' s'. kinv (Y \<union> set vs') F' c [RunqueueLock c'] s' \<Longrightarrow> shuffled Y cur F s F' s' \<Longrightarrow> hand Y c cur F' vs' s' \<Longrightarrow>
      n' \<le> length vs' \<Longrightarrow> Q n' s'"
  shows "wp (migrate_to cur c' one_share n) Q E s"
  using assms
proof (induction n arbitrary: vs F s)
  case 0
  then show ?case by simp
next
  case (Suc n)
  note k = Suc.prems(1) note cur = Suc.prems(2) note hd = handD [OF Suc.prems(5)]
  note c = kinvD(2) [OF k]
  have "wp (on_lists (threadlist_remhead (LocalList cur))) (\<lambda>to. wp (if to = Some cur then
             kthen (on_lists (threadlist_addtail (LocalList cur) cur)) (migrate_to cur c' one_share n)
           else
             kbind (knonnull to) (\<lambda>t.
               kthen (on_thread t (kmod (\<lambda>T. T\<lparr>t_cpu := Some c'\<rparr>)))
                 (kthen (on_lists (threadlist_addtail (Runqueue c') t))
                    (kbind (on_cpu c' (kget c_isidle)) (\<lambda>idle.
                       kthen (kwhen idle (ipi_send cur c' IPI_UNIDLE))
                         (migrate_to cur c' one_share n)))))) Q E) E s"
  proof (rule remhead_wp [OF k hd(1)], goal_cases)
    case 1
    then show ?case using Suc.prems(6) by simp
  next
    case (2 x ws h)
    let ?F = "F(LocalList cur \<mapsto> ws)" let ?s = "s\<lparr>k_lists := h\<rparr>"
    have k2: "kinv (insert x (Y \<union> set ws)) ?F c [RunqueueLock c'] ?s" using 2(1,2) by (simp add: insert_absorb)
    have "\<not> on_list ?F x (LocalList cur)" using 2(3) unfolding off_lists_def by blast
    then have x: "x \<notin> set ws" by (simp add: on_list_upd)
    have xY: "x \<notin> Y" "x \<in> set vs" using 2(1) hd(2) by auto
    have sh: "shuffled Y cur F s ?F ?s"
      by (rule shuffled_lists, rule off_shrink [of F "LocalList cur" vs]) (use hd(1) 2(1) in auto)
    have cs: "kcalm cur s ?s" by simp
    obtain T where T: "k_threads s x = Some T" using hd(3) [OF xY(2)] by (auto simp: waiting_def listed_ok_def)
    show ?case
    proof (cases "x = cur")
      case True
      have "wp (on_lists (threadlist_addtail (LocalList cur) cur)) (\<lambda>_. wp (migrate_to cur c' one_share n) Q E) E ?s"
      proof (rule addtail_wp [OF k2, where T = T and xs = ws], goal_cases)
        case (6 h2)
        let ?F3 = "?F(LocalList cur \<mapsto> ws @ [cur])" let ?s3 = "?s\<lparr>k_lists := h2\<rparr>"
        have cur3: "cur = curth ?s3 c" using cur by simp
        have k3: "kinv (Y \<union> set (ws @ [cur])) ?F3 c [RunqueueLock c'] ?s3" using 6 True by (simp add: insert_commute)
        have h3: "hand Y c cur ?F3 (ws @ [cur]) ?s3"
          by (rule hand_calm [OF Suc.prems(5) _ cur c]) (use 2(1) True in \<open>auto simp: kcalm_def\<close>)
        have sh3: "shuffled Y cur ?F ?s ?F3 ?s3"
          by (rule shuffled_lists, rule off_grow) (use xY True 2(1) hd(2) in auto)
        show ?case
        proof (rule Suc.IH [OF k3 cur3 _ Suc.prems(4) h3])
          fix n' vs' F' s' assume a: "kinv (Y \<union> set vs') F' c [RunqueueLock c'] s'" "shuffled Y cur ?F3 ?s3 F' s'"
            "hand Y c cur F' vs' s'" "n' \<le> length vs'"
          show "Q n' s'" by (rule Suc.prems(7) [OF a(1) shuffled_trans [OF sh shuffled_trans [OF sh3 a(2)]] a(3,4)])
        qed (use Suc.prems(3,6) 2(1) in simp_all)
      qed (use True T 2(3) waiting_current [OF k hd(3) [OF xY(2)]] in auto)
      then show ?thesis using True by simp
    next
      case False
      have "wp (kthen (on_thread x (kmod (\<lambda>T. T\<lparr>t_cpu := Some c'\<rparr>)))
                 (kthen (on_lists (threadlist_addtail (Runqueue c') x))
                    (kbind (on_cpu c' (kget c_isidle)) (\<lambda>idle.
                       kthen (kwhen idle (ipi_send cur c' IPI_UNIDLE))
                         (migrate_to cur c' one_share n))))) Q E ?s"
      proof (rule migrate_one_wp [OF k2 _ _ Suc.prems(4) 2(3) _ False, where Y = Y], goal_cases)
        case 4
        then show ?case by (rule waiting_calm [OF hd(3) [OF xY(2)] cs cur c]) simp
      next
        case (6 F3 s3)
        note st3 = kcalmD [OF shuffledD(1) [OF 6(2)]]
        have cur3: "cur = curth s3 c" using st3(2) c cur by simp
        have h3: "hand Y c cur F3 ws s3"
        proof (rule hand_calm [OF Suc.prems(5) kcalm_trans [OF cs shuffledD(1) [OF 6(2)]] cur c])
          show "k_threads s3 v = k_threads s v" if "v \<in> set ws" for v using 6(3) [of v] that x by auto
        qed (use 6(4) 2(1) in auto)
        show ?case
        proof (rule Suc.IH [OF 6(1) cur3 _ Suc.prems(4) h3])
          fix n' vs' F' s' assume a: "kinv (Y \<union> set vs') F' c [RunqueueLock c'] s'" "shuffled Y cur F3 s3 F' s'"
            "hand Y c cur F' vs' s'" "n' \<le> length vs'"
          show "Q n' s'" by (rule Suc.prems(7) [OF a(1) shuffled_trans [OF sh shuffled_trans [OF 6(2) a(2)]] a(3,4)])
        qed (use Suc.prems(3,6) 2(1) st3(1) in simp_all)
      qed (use cur Suc.prems(3) x xY in auto)
      then show ?thesis using False by simp
    qed
  qed
  moreover have "Q (Suc n) s" by (rule Suc.prems(7) [OF k shuffled_refl Suc.prems(5,6)])
  ultimately show ?case by (simp add: Let_def)
qed

lemma migrate_all_wp:
  assumes "kinv (Y \<union> set vs) F c [] s" "cur = curth s c" "set cs \<subseteq> {..< ncpu s}" "hand Y c cur F vs s" "n \<le> length vs"
    and "\<And>n' vs' F' s'. kinv (Y \<union> set vs') F' c [] s' \<Longrightarrow> shuffled Y cur F s F' s' \<Longrightarrow> hand Y c cur F' vs' s' \<Longrightarrow> Q n' s'"
  shows "wp (migrate_all cur cs one_share n) Q E s"
  using assms
proof (induction cs arbitrary: vs F s n)
  case Nil
  then show ?case by simp
next
  case (Cons c' cs)
  note k = Cons.prems(1) note cur = Cons.prems(2)
  note c = kinvD(2) [OF k]
  have loop: "wp (acquire cur (RunqueueLock c')) (\<lambda>_. wp (migrate_to cur c' one_share n) (\<lambda>n. wp (release cur (RunqueueLock c'))
        (\<lambda>_. wp (migrate_all cur cs one_share n) Q E) E) E) E s" if ne: "c' \<noteq> c"
  proof (rule acquire_wp [OF k cur], goal_cases)
    case (3 s1)
    note st = kcalmD [OF steady_calm [OF 3(2)]]
    have cur1: "cur = curth s1 c" "c' < ncpu s1" using st(1,2) c cur Cons.prems(3) by simp_all
    have h1: "hand Y c cur F vs s1"
      by (rule hand_calm [OF Cons.prems(4) steady_calm [OF 3(2)] cur c]) (use handD(1) [OF Cons.prems(4)] steadyD [OF 3(2)] in auto)
    show ?case
    proof (rule migrate_to_wp [OF 3(1) cur1 ne h1 Cons.prems(5)])
      fix n' vs' F' s2 assume a: "kinv (Y \<union> set vs') F' c [RunqueueLock c'] s2" "shuffled Y cur F s1 F' s2"
            "hand Y c cur F' vs' s2" "n' \<le> length vs'"
      note st2 = kcalmD [OF shuffledD(1) [OF a(2)]]
      have cur2: "cur = curth s2 c" "c < ncpu s2" using st2(1,2) st(1) c cur1 by simp_all
      show "wp (release cur (RunqueueLock c')) (\<lambda>_. wp (migrate_all cur cs one_share n') Q E) E s2"
      proof (rule release_wp [OF a(1) cur2(1)], simp)
        fix s3 assume s3: "kinv (Y \<union> set vs') F' c (remove1 (RunqueueLock c') [RunqueueLock c']) s3" "steady cur s2 s3" "lvl s3 cur = lvl s2 cur"
        note st3 = kcalmD [OF steady_calm [OF s3(2)]]
        have cur3: "cur = curth s3 c" using st3(2) cur2 by simp
        have h3: "hand Y c cur F' vs' s3"
          by (rule hand_calm [OF a(3) steady_calm [OF s3(2)] cur2]) (use handD(1) [OF a(3)] steadyD [OF s3(2)] in auto)
        have k3: "kinv (Y \<union> set vs') F' c [] s3" using s3(1) by simp
        have sh: "shuffled Y cur F s F' s3"
          by (rule shuffled_trans [OF shuffled_trans [OF shuffled_steady [OF 3(2,3)] a(2)] shuffled_steady [OF s3(2,3)]])
        show "wp (migrate_all cur cs one_share n') Q E s3"
        proof (rule Cons.IH [OF k3 cur3 _ h3 a(4)])
          fix n' vs' F'' s' assume b: "kinv (Y \<union> set vs') F'' c [] s'" "shuffled Y cur F' s3 F'' s'" "hand Y c cur F'' vs' s'"
          show "Q n' s'" by (rule Cons.prems(6) [OF b(1) shuffled_trans [OF sh b(2)] b(3)])
        qed (use Cons.prems(3) st st2 st3 in simp)
      qed
    qed
  qed auto
  have skip: "wp (migrate_all cur cs one_share n) Q E s"
    by (rule Cons.IH [OF k cur _ Cons.prems(4,5,6)]) (use Cons.prems(3) in auto)
  have stop: "Q 0 s" by (rule Cons.prems(6) [OF k shuffled_refl Cons.prems(4)])
  have "wp (curcpu cur) (\<lambda>me. wp (if c' = me then migrate_all cur cs one_share n
      else kthen (acquire cur (RunqueueLock c'))
               (kbind (migrate_to cur c' one_share n) (\<lambda>to_send.
                  kthen (release cur (RunqueueLock c')) (migrate_all cur cs one_share to_send)))) Q E) E s"
    by (rule curcpu_wp [OF k cur]) (use loop skip in auto)
  then show ?case using stop by simp
qed


lemma runqueue_waiting:
  assumes k: "kinv Y F c held s" and x: "F (Runqueue c) = Some xs" "x \<in> set xs" "x \<notin> Y"
  shows "waiting s c x"
  using kinvD(6) [OF k, of x "Runqueue c"] kinvD(8) [OF k, of x] x by (auto simp: waiting_def on_list_def)

text \<open>The victims are taken off the tail of the run queue.\<close>

lemma take_victims_wp:
  assumes k: "kinv Y F c [] s" "cur = curth s c" and Y: "\<And>t. t \<in> Y \<Longrightarrow> off_lists F t"
    and xs: "F (Runqueue c) = Some xs" "n \<le> length xs"
    and m: "\<And>vs F' s'. kinv (Y \<union> set vs) F' c [] s' \<Longrightarrow> shuffled Y cur F s F' s' \<Longrightarrow> hand Y c cur F' vs s' \<Longrightarrow> length vs = n \<Longrightarrow> wp m Q E s'"
  shows "wp (kthen (on_lists (threadlist_init (LocalList cur)))
             (kbind (curcpu cur) (\<lambda>me.
                kthen (acquire cur (RunqueueLock me))
                  (kthen (on_lists (movesome threadlist_remtail threadlist_addhead (Runqueue me) (LocalList cur) n))
                     (kthen (release cur (RunqueueLock me)) m))))) Q E s"
  unfolding wp_kthen wp_kbind
proof (rule kinv_init_local [OF k(1) local_empty [OF k(1) Y]], goal_cases)
  case (2 h)
  let ?F = "F(LocalList cur \<mapsto> [])" let ?s = "s\<lparr>k_lists := h\<rparr>"
  note c = kinvD(2) [OF k(1)]
  have cur1: "cur = curth ?s c" using k(2) by simp
  have sh1: "shuffled Y cur F s ?F ?s" by (rule shuffled_lists, rule off_grow) auto
  define us where "us = take (length xs - n) xs" define vs where "vs = drop (length xs - n) xs"
  have uv: "xs = us @ vs" "length vs = n" using xs(2) by (simp_all add: us_def vs_def)
  show ?case
  proof (rule curcpu_wp [OF 2 cur1], rule acquire_wp [OF 2 cur1], goal_cases)
    case (3 s2)
    note st = kcalmD [OF steady_calm [OF 3(2)]]
    have F3: "?F (Runqueue c) = Some (us @ vs)" "?F (LocalList cur) = Some []" using xs uv by simp_all
    have cur2: "cur = curth s2 c" "c < ncpu s2" using st(1,2) c cur1 by simp_all
    show ?case
      unfolding wp_on_lists uv(2) [symmetric]
    proof (rule wp_conseq [OF tq.movesome [OF kinvD(1) [OF 3(1)] F3]], simp)
      fix x h2 assume h2: "tl_rel (dom (k_threads s2)) (?F(Runqueue c \<mapsto> us, LocalList cur \<mapsto> vs @ [])) h2"
      let ?F3 = "?F(Runqueue c \<mapsto> us, LocalList cur \<mapsto> vs)" let ?s3 = "s2\<lparr>k_lists := h2\<rparr>"
      have k3: "kinv (Y \<union> set vs) ?F3 c [RunqueueLock c] ?s3"
        by (rule kinv_to_local [OF 3(1) F3 _ _ h2 [unfolded append_Nil2]]) auto
      have cur3: "cur = curth ?s3 c" using cur2 by simp
      have vY: "set vs \<inter> Y = {}" using on_list_apart [OF xs(1) Y] uv(1) by auto
      have "waiting s2 c v" if "v \<in> set vs" for v
        by (rule runqueue_waiting [OF 3(1) F3(1)]) (use that vY in auto)
      then have h2: "hand Y c cur ?F3 vs s2" using vY by (simp add: hand_def)
      have off: "off_lists ?F3 t" if "t \<in> Y" "off_lists ?F t" for t
        using off_grow [OF off_shrink [OF F3(1) _ that(2), of us], of vs "LocalList cur"] that(1) vY by auto
      have sh3: "shuffled Y cur ?F s2 ?F3 ?s3" by (rule shuffled_lists [OF off]) auto
      show "wp (release cur (RunqueueLock c)) (\<lambda>_. wp m Q E) E ?s3"
      proof (rule release_wp [OF k3 cur3], simp)
        fix s4 assume s4: "kinv (Y \<union> set vs) ?F3 c (remove1 (RunqueueLock c) [RunqueueLock c]) s4" "steady cur ?s3 s4" "lvl s4 cur = lvl ?s3 cur"
        have "kcalm cur s2 ?s3" by simp
        note ca = kcalm_trans [OF this steady_calm [OF s4(2)]]
        have h4: "hand Y c cur ?F3 vs s4" by (rule hand_calm [OF h2 ca cur2]) (use steadyD [OF s4(2)] in auto)
        have sh4: "shuffled Y cur F s ?F3 s4"
          by (rule shuffled_trans [OF sh1 shuffled_trans [OF shuffled_steady [OF 3(2,3)] shuffled_trans [OF sh3 shuffled_steady [OF s4(2,3)]]]])
        show "wp m Q E s4" by (rule m [OF _ sh4 h4 uv(2)]) (use s4(1) in simp)
      qed
    qed simp
  qed auto
qed simp

text \<open>Those that could not be sent away go back.\<close>

lemma return_victims_wp:
  assumes k: "kinv (Y \<union> set vs) F c [] s" "cur = curth s c" "hand Y c cur F vs s"
    and Q: "\<And>F' s'. kinv Y F' c [] s' \<Longrightarrow> shuffled Y cur F s F' s' \<Longrightarrow> Q () s'"
  shows "wp (kbind (on_lists (threadlist_isempty (LocalList cur))) (\<lambda>empty.
                kthen (kwhen (\<not> empty)
                   (kbind (curcpu cur) (\<lambda>me.
                      kthen (acquire cur (RunqueueLock me))
                        (kthen (on_lists (moveall threadlist_remhead threadlist_addtail (LocalList cur) (Runqueue me)))
                           (release cur (RunqueueLock me))))))
                (kbind (on_lists (threadlist_isempty (LocalList cur))) (\<lambda>empty.
                   kthen (kassert (\<lambda>_. empty))
                     (on_lists (threadlist_cleanup (LocalList cur))))))) Q E s"
proof -
  note c = kinvD(2) [OF k(1)] note hd = handD [OF k(3)]
  let ?last = "kbind (on_lists (threadlist_isempty (LocalList cur))) (\<lambda>empty.
                   kthen (kassert (\<lambda>_. empty)) (on_lists (threadlist_cleanup (LocalList cur))))"
  have fin: "wp ?last Q E s'" if s': "kinv Y F' c [] s'" "shuffled Y cur F s F' s'" "F' (LocalList cur) = Some []" for F' s'
    using Q [OF s'(1,2)] by (auto intro!: threadlist_isempty_wp [OF kinvD(1) [OF s'(1)] s'(3)] threadlist_cleanup_wp [OF kinvD(1) [OF s'(1)] s'(3)])
  have ret: "wp (kbind (curcpu cur) (\<lambda>me.
                      kthen (acquire cur (RunqueueLock me))
                        (kthen (on_lists (moveall threadlist_remhead threadlist_addtail (LocalList cur) (Runqueue me)))
                           (release cur (RunqueueLock me))))) (\<lambda>_. wp ?last Q E) E s"
    unfolding wp_kthen wp_kbind [of "curcpu cur"]
  proof (rule curcpu_wp [OF k(1,2)], rule acquire_wp [OF k(1,2)], goal_cases)
    case (3 s1)
    note st = kcalmD [OF steady_calm [OF 3(2)]]
    have cur1: "cur = curth s1 c" using st(2) c k(2) by simp
    obtain xs where xs: "F (Runqueue c) = Some xs" using runqueue_some [OF k(1) c] by blast
    have h1: "hand Y c cur F vs s1"
      by (rule hand_calm [OF k(3) steady_calm [OF 3(2)] k(2) c]) (use hd(1) steadyD [OF 3(2)] in auto)
    show ?case
      unfolding wp_on_lists
    proof (rule wp_conseq [OF tq.moveall [OF kinvD(1) [OF 3(1)] hd(1) xs]], simp)
      fix x h assume h: "tl_rel (dom (k_threads s1)) (F(LocalList cur \<mapsto> [], Runqueue c \<mapsto> xs @ vs)) h"
      let ?F = "F(LocalList cur \<mapsto> [], Runqueue c \<mapsto> xs @ vs)" let ?s = "s1\<lparr>k_lists := h\<rparr>"
      have k2: "kinv Y ?F c [RunqueueLock c] ?s"
        by (rule kinv_from_local [OF 3(1) xs hd(1) handD(3) [OF h1] hd(2) h])
      have off: "off_lists ?F t" if "t \<in> Y" "off_lists F t" for t
      proof -
        have "\<not> on_list F t (Runqueue c)" "t \<notin> set vs" using that hd(2) unfolding off_lists_def by auto
        then have "t \<notin> set (xs @ vs)" using xs by (simp add: on_list_def)
        then show ?thesis by (intro off_grow that(2)) simp_all
      qed
      have sh: "shuffled Y cur F s1 ?F ?s" by (rule shuffled_lists [OF off]) auto
      have cur2: "cur = curth ?s c" using cur1 by simp
      show "wp (release cur (RunqueueLock c)) (\<lambda>_. wp ?last Q E) E ?s"
      proof (rule release_wp [OF k2 cur2], simp)
        fix s2 assume s2: "kinv Y ?F c (remove1 (RunqueueLock c) [RunqueueLock c]) s2" "steady cur ?s s2" "lvl s2 cur = lvl ?s cur"
        show "wp ?last Q E s2"
          by (rule fin [OF _ shuffled_trans [OF shuffled_trans [OF shuffled_steady [OF 3(2,3)] sh] shuffled_steady [OF s2(2,3)]]])
            (use s2(1) in simp_all)
      qed
    qed simp
  qed auto
  show ?thesis
    unfolding wp_kbind [of "on_lists (threadlist_isempty (LocalList cur))"] wp_on_lists
    by (rule threadlist_isempty_wp [OF kinvD(1) [OF k(1)] hd(1)])
      (use ret fin [of F s] k(1) hd(1) in \<open>cases vs; simp del: wp_kbind\<close>)
qed

lemma thread_consider_migration_wp:
  assumes k: "kinv Y F c [] s" "cur = curth s c" and Y: "\<And>t. t \<in> Y \<Longrightarrow> off_lists F t"
    and Q: "\<And>F' s'. kinv Y F' c [] s' \<Longrightarrow> shuffled Y cur F s F' s' \<Longrightarrow> Q () s'"
  shows "wp (thread_consider_migration cur) Q E s"
proof -
  note c = kinvD(2) [OF k(1)]
  obtain xs where xs: "F (Runqueue c) = Some xs" using runqueue_some [OF k(1) c] by blast
  have len: "unat (of_nat (length xs) :: u32w) = length xs"
    using tl_rel_count(1,2) [OF kinvD(1) [OF k(1)] xs] by simp
  show ?thesis
    unfolding thread_consider_migration_def wp_kbind wp_kget
  proof (rule migration_counts_wp [OF k xs], goal_cases)
    case (2 s1 tot)
    note st = kcalmD [OF steady_calm [OF 2(2)]]
    have cur1: "cur = curth s1 c" using st(2) c k(2) by simp
    have sh1: "shuffled Y cur F s F s1" by (rule shuffled_steady [OF 2(2,3)])
    define one_share where "one_share = (tot + of_nat (ncpu s) - 1) div (of_nat (ncpu s) :: u32w)"
    define n where "n = unat ((of_nat (length xs) :: u32w) - one_share)"
    show ?case
    proof (cases "(of_nat (length xs) :: u32w) < one_share")
      case True
      then show ?thesis using c Q [OF 2(1) sh1] by (simp add: one_share_def Let_def)
    next
      case False
      then have n: "n \<le> length xs" using len unfolding n_def by (metis diff_le_self not_less unat_sub)
      have "wp (kthen (on_lists (threadlist_init (LocalList cur)))
             (kbind (curcpu cur) (\<lambda>me.
                kthen (acquire cur (RunqueueLock me))
                  (kthen (on_lists (movesome threadlist_remtail threadlist_addhead (Runqueue me) (LocalList cur) n))
                     (kthen (release cur (RunqueueLock me))
                        (kthen (migrate_all cur [0 ..< ncpu s] one_share n)
                           (kbind (on_lists (threadlist_isempty (LocalList cur))) (\<lambda>empty.
                              kthen (kwhen (\<not> empty)
                                       (kbind (curcpu cur) (\<lambda>me.
                                          kthen (acquire cur (RunqueueLock me))
                                            (kthen (on_lists (moveall threadlist_remhead threadlist_addtail (LocalList cur) (Runqueue me)))
                                               (release cur (RunqueueLock me))))))
                                (kbind (on_lists (threadlist_isempty (LocalList cur))) (\<lambda>empty.
                                   kthen (kassert (\<lambda>_. empty))
                                     (on_lists (threadlist_cleanup (LocalList cur)))))))))))) ) Q E s1"
      proof (rule take_victims_wp [OF 2(1) cur1 Y xs n], assumption, subst wp_kthen, goal_cases)
        case (1 vs F2 s2)
        note st2 = kcalmD [OF shuffledD(1) [OF 1(2)]]
        have cur2: "cur = curth s2 c" using st2(2) st(1) c cur1 by simp
        show ?case
        proof (rule migrate_all_wp [OF 1(1) cur2 _ 1(3)])
          fix n' vs' F3 s3 assume a: "kinv (Y \<union> set vs') F3 c [] s3" "shuffled Y cur F2 s2 F3 s3" "hand Y c cur F3 vs' s3"
          note st3 = kcalmD [OF shuffledD(1) [OF a(2)]]
          have cur3: "cur = curth s3 c" using st3(2) st2(1) st(1) c cur2 by simp
          show "wp (kbind (on_lists (threadlist_isempty (LocalList cur))) (\<lambda>empty.
                kthen (kwhen (\<not> empty)
                   (kbind (curcpu cur) (\<lambda>me.
                      kthen (acquire cur (RunqueueLock me))
                        (kthen (on_lists (moveall threadlist_remhead threadlist_addtail (LocalList cur) (Runqueue me)))
                           (release cur (RunqueueLock me))))))
                (kbind (on_lists (threadlist_isempty (LocalList cur))) (\<lambda>empty.
                   kthen (kassert (\<lambda>_. empty))
                     (on_lists (threadlist_cleanup (LocalList cur))))))) Q E s3"
            by (rule return_victims_wp [OF a(1) cur3 a(3)], rule Q)
              (auto intro: shuffled_trans [OF sh1 shuffled_trans [OF 1(2) shuffled_trans [OF a(2)]]])
        qed (use 1(4) st(1) st2(1) in auto)
      qed
      then show ?thesis using c False unfolding n_def one_share_def by (simp add: Let_def del: wp_kbind wp_kthen)
    qed
  qed auto
qed

end
