(* ===== verification/Kern_Wake.thy ===== *)
theory Kern_Wake
  imports Kern_Steps
begin

text \<open>
  Wakeups are not lost: while threads sleep on a semaphore, there are at least as many threads that
  have been woken and have still to try again as the semaphore counts. Who is in \<open>P\<close> is so on a
  semaphore that exists.
\<close>

subsection \<open>The invariant of the sleepers\<close>

definition wake_inv :: "(tid \<Rightarrow> nat option) \<Rightarrow> (nat \<rightharpoonup> semaphore) \<Rightarrow> (nat \<rightharpoonup> tid list) \<Rightarrow> bool" where
  "wake_inv pd sems wq \<longleftrightarrow> (\<forall>t i. pd t = Some i \<longrightarrow> i \<in> dom sems) \<and>
     (\<forall>i S ws. sems i = Some S \<longrightarrow> wq (sem_wchan S) = Some ws \<longrightarrow> ws \<noteq> [] \<longrightarrow>
     unat (sem_count S) \<le> card {t. pd t = Some i \<and> t \<notin> set ws})"

definition wake_ok :: "(listid \<rightharpoonup> tid list) \<Rightarrow> machine \<Rightarrow> bool" where
  "wake_ok F s = wake_inv (\<lambda>t. fst (tview s t)) (k_sems s) (\<lambda>w. F (WcThreads w))"

lemma wake_sview: "sview F' s' = sview F s \<Longrightarrow> wake_ok F s \<Longrightarrow> wake_ok F' s'"
  by (simp add: sview_def wake_ok_def)

lemma wake_invD:
  "wake_inv pd sems wq \<Longrightarrow> sems i = Some S \<Longrightarrow> wq (sem_wchan S) = Some ws \<Longrightarrow> ws \<noteq> [] \<Longrightarrow>
    unat (sem_count S) \<le> card {t. pd t = Some i \<and> t \<notin> set ws}"
  by (auto simp: wake_inv_def)

lemma wake_dom: "wake_ok F s \<Longrightarrow> fst (tview s t) = Some i \<Longrightarrow> \<exists>S. k_sems s i = Some S"
  by (auto simp: wake_ok_def wake_inv_def)

text \<open>Who sleeps on the channel of a semaphore is in \<open>P\<close>.\<close>

lemma sleeper_pend:
  assumes k: "kinv Y F c held s" and x: "F (WcThreads (sem_wchan S)) = Some ws" "x \<in> set ws" "x \<notin> Y" and S: "k_sems s i = Some S"
  shows "fst (tview s x) = Some i"
proof -
  have "listed_ok s (WcThreads (sem_wchan S)) x" using kinvD(6) [OF k, of x] x by (auto simp: on_list_def)
  then obtain T where T: "k_threads s x = Some T" "sleeps_on s (sem_wchan S) (t_context T)" by (auto simp: listed_ok_def)
  note so = kinvD(11) [OF k, unfolded sems_ok_def]
  have ne: "sem_wchan S \<noteq> k_lbolt s" using so S by blast
  obtain spl j S' r where j: "t_context T = InSwitch spl # InP j # r" "k_sems s j = Some S'" "sem_wchan S' = sem_wchan S"
    using T(2) ne by (auto simp: sleeps_on_def split: list.splits frame.splits)
  have "j = i" using so j(2,3) S by blast
  then show ?thesis using T(1) j(1) by (simp add: tview_def)
qed

lemma finite_pend:
  assumes "kinv Y F c held s"
  shows "finite {t. fst (tview s t) = Some i \<and> t \<notin> A}"
proof (rule finite_subset [OF _ card_threads(1) [OF assms order_refl]])
  show "{t. fst (tview s t) = Some i \<and> t \<notin> A} \<subseteq> dom (k_threads s)" by (auto simp: tview_def split: option.splits)
qed

lemma sems_wchan_inj:
  assumes "kinv Y F c held s" "k_sems s i = Some S" "k_sems s j = Some S'" "sem_wchan S = sem_wchan S'"
  shows "i = j"
  using kinvD(11) [OF assms(1)] assms(2-4) unfolding sems_ok_def by blast

lemma distinct_list: "kinv Y F c held s \<Longrightarrow> F l = Some xs \<Longrightarrow> distinct xs"
  using tl_relD(1) [OF kinvD(1)] by (fastforce simp: tl_list_def)

text \<open>\<open>V\<close>: one more is counted, and one more is on its way.\<close>

lemma wake_V:
  assumes k: "kinv Y F c held s" "wake_ok F s" and S: "k_sems s i = Some S" "sem_count S \<noteq> -1"
    and ws: "F (WcThreads (sem_wchan S)) = Some ws" "set ws \<inter> Y = {}"
  shows "wake_inv (\<lambda>t. fst (tview s t)) ((k_sems s)(i \<mapsto> S\<lparr>sem_count := sem_count S + 1\<rparr>))
     (\<lambda>v. (F(WcThreads (sem_wchan S) \<mapsto> tl ws)) (WcThreads v))" (is "wake_inv ?pd ?sems ?wq")
  unfolding wake_inv_def
proof (intro conjI allI impI)
  show "j \<in> dom ?sems" if "?pd t = Some j" for t j
    using that wake_dom [OF k(2)] by (auto split: if_splits)
  fix j S' us assume j: "?sems j = Some S'" "?wq (sem_wchan S') = Some us" "us \<noteq> []"
  note w = wake_invD [OF k(2) [unfolded wake_ok_def]]
  show "unat (sem_count S') \<le> card {t. ?pd t = Some j \<and> t \<notin> set us}"
  proof (cases "j = i")
    case True
    then have S': "S' = S\<lparr>sem_count := sem_count S + 1\<rparr>" using j(1) by simp
    then have us: "us = tl ws" using j(2) by simp
    with j(3) obtain x where x: "ws = x # us" by (cases ws) auto
    have pd: "?pd x = Some i" by (rule sleeper_pend [OF k(1) ws(1) _ _ S(1)]) (use x ws(2) in auto)
    have xu: "x \<notin> set us" using distinct_list [OF k(1) ws(1)] x by simp
    have eq: "{t. ?pd t = Some i \<and> t \<notin> set us} = insert x {t. ?pd t = Some i \<and> t \<notin> set ws}"
      using pd xu x by auto
    have "unat (sem_count S + 1) = Suc (unat (sem_count S))"
      using S(2) by (metis Suc_eq_plus1 add.commute unatSuc add_eq_0_iff)
    also have "\<dots> \<le> Suc (card {t. ?pd t = Some i \<and> t \<notin> set ws})" using w [OF S(1)] ws(1) x by simp
    also have "\<dots> = card {t. ?pd t = Some i \<and> t \<notin> set us}"
      unfolding eq by (subst card_insert_disjoint [OF finite_pend [OF k(1)]]) (simp_all add: x)
    finally show ?thesis using S' True by simp
  next
    case False
    then have S': "k_sems s j = Some S'" using j(1) by simp
    then have "sem_wchan S' \<noteq> sem_wchan S" using sems_wchan_inj [OF k(1) _ S(1)] False by metis
    then show ?thesis using w [OF S'] j(2,3) by simp
  qed
qed

lemma card_drop: "card A \<le> Suc (card (A - {x}))"
proof (cases "finite A \<and> x \<in> A")
  case True
  then show ?thesis using card_Suc_Diff1 [of A x] by simp
qed (auto simp: card.infinite)

text \<open>A pass of \<open>P\<close> that takes a count, or goes to sleep.\<close>

lemma wake_P_go:
  assumes k: "kinv Y F c held s" "wake_ok F s" and S: "k_sems s i = Some S" "sem_count S \<noteq> 0"
    and ws: "F (WcThreads (sem_wchan S)) = Some ws" "cur \<notin> set ws"
    and pd: "fst (tview s cur) \<in> {None, Some i}" "\<And>t. t \<noteq> cur \<Longrightarrow> pd t = fst (tview s t)" "pd cur = None"
  shows "wake_inv pd ((k_sems s)(i \<mapsto> S\<lparr>sem_count := sem_count S - 1\<rparr>)) (\<lambda>v. F (WcThreads v))" (is "wake_inv pd ?sems ?wq")
  unfolding wake_inv_def
proof (intro conjI allI impI)
  have pde: "pd t = (if t = cur then None else fst (tview s t))" for t using pd(2,3) by simp
  show "j \<in> dom ?sems" if "pd t = Some j" for t j
    using that pde wake_dom [OF k(2)] by (auto split: if_splits)
  fix j S' us assume j: "?sems j = Some S'" "?wq (sem_wchan S') = Some us" "us \<noteq> []"
  note w = wake_invD [OF k(2) [unfolded wake_ok_def]]
  show "unat (sem_count S') \<le> card {t. pd t = Some j \<and> t \<notin> set us}"
  proof (cases "j = i")
    case True
    then have S': "S' = S\<lparr>sem_count := sem_count S - 1\<rparr>" "us = ws" using j ws(1) by auto
    let ?A = "{t. fst (tview s t) = Some i \<and> t \<notin> set ws}"
    have "{t. pd t = Some i \<and> t \<notin> set ws} = ?A - {cur}" using pde by (auto split: if_splits)
    moreover have "card ?A \<le> Suc (card (?A - {cur}))" by (rule card_drop)
    moreover have "unat (sem_count S) \<le> card ?A" using w [OF S(1)] ws(1) j(3) S'(2) by simp
    moreover have "unat (sem_count S - 1) = unat (sem_count S) - 1" using S(2) by (simp add: unat_minus_one)
    ultimately show ?thesis using True S' by simp
  next
    case False
    then have S': "k_sems s j = Some S'" using j(1) by simp
    have "{t. pd t = Some j \<and> t \<notin> set us} = {t. fst (tview s t) = Some j \<and> t \<notin> set us}"
      using pde pd(1) False by (auto split: if_splits)
    then show ?thesis using w [OF S'] j(2,3) by simp
  qed
qed

lemma wake_P_sleep:
  assumes k: "kinv Y F c held s" "wake_ok F s" and S: "k_sems s i = Some S" "sem_count S = 0"
    and pd: "fst (tview s cur) \<in> {None, Some i}" "\<And>t. t \<noteq> cur \<Longrightarrow> pd t = fst (tview s t)" "pd cur = Some i"
  shows "wake_inv pd (k_sems s) (\<lambda>v. (F(WcThreads (sem_wchan S) \<mapsto> ws)) (WcThreads v))" (is "wake_inv pd ?sems ?wq")
  unfolding wake_inv_def
proof (intro conjI allI impI)
  have pde: "pd t = (if t = cur then Some i else fst (tview s t))" for t using pd(2,3) by simp
  show "j \<in> dom ?sems" if "pd t = Some j" for t j
    using that pde S(1) wake_dom [OF k(2)] by (auto split: if_splits)
  fix j S' us assume j: "?sems j = Some S'" "?wq (sem_wchan S') = Some us" "us \<noteq> []"
  note w = wake_invD [OF k(2) [unfolded wake_ok_def]]
  show "unat (sem_count S') \<le> card {t. pd t = Some j \<and> t \<notin> set us}"
  proof (cases "j = i")
    case True
    then show ?thesis using j(1) S by simp
  next
    case False
    have ne: "sem_wchan S' \<noteq> sem_wchan S" using sems_wchan_inj [OF k(1) j(1) S(1)] False by metis
    have "{t. pd t = Some j \<and> t \<notin> set us} = {t. fst (tview s t) = Some j \<and> t \<notin> set us}"
      using pde pd(1) False by (auto split: if_splits)
    then show ?thesis using w [OF j(1)] j(2,3) ne by simp
  qed
qed


subsection \<open>Handlers\<close>

text \<open>What an interrupt handler does that comes back: it may also count up a semaphore.\<close>

definition handled :: "tid set \<Rightarrow> tid \<Rightarrow> (listid \<rightharpoonup> tid list) \<Rightarrow> machine \<Rightarrow> (listid \<rightharpoonup> tid list) \<Rightarrow> machine \<Rightarrow> bool" where
  "handled Y cur F s F' s' \<longleftrightarrow> moved Y cur F (s\<lparr>k_sems := k_sems s'\<rparr>) F' s'"

lemma handledD:
  assumes "handled Y cur F s F' s'"
  shows "ncpu s' = ncpu s" "c < ncpu s \<Longrightarrow> curth s' c = curth s c" "c < ncpu s \<Longrightarrow> idle s' c = idle s c"
    "k_procs s' = k_procs s" "k_kproc s' = k_kproc s" "in_irq s' t = in_irq s t" "lvl s' cur = lvl s cur" "tview s' = tview s"
    "t \<in> Y \<Longrightarrow> k_threads s' t = k_threads s t" "t \<in> Y \<Longrightarrow> off_lists F t \<Longrightarrow> off_lists F' t"
    "map_option t_context (k_threads s' t) = map_option t_context (k_threads s t)"
proof -
  note m = assms [unfolded handled_def] note d = kcalmD [OF movedD(1) [OF m]]
  show "ncpu s' = ncpu s" "c < ncpu s \<Longrightarrow> curth s' c = curth s c" "c < ncpu s \<Longrightarrow> idle s' c = idle s c"
    "k_procs s' = k_procs s" "k_kproc s' = k_kproc s" "in_irq s' t = in_irq s t" using d by simp_all
  show "lvl s' cur = lvl s cur" "t \<in> Y \<Longrightarrow> k_threads s' t = k_threads s t" "t \<in> Y \<Longrightarrow> off_lists F t \<Longrightarrow> off_lists F' t"
    "map_option t_context (k_threads s' t) = map_option t_context (k_threads s t)"
    using movedD(2,4,5) [OF m] movedD(6) [OF m, of t] by simp_all
  show "tview s' = tview s" using movedD(3) [OF m] by (simp add: tview_def fun_eq_iff)
qed

lemma handled_moved: "moved Y cur F s F' s' \<Longrightarrow> handled Y cur F s F' s'"
  using kcalmD(5) [OF movedD(1), of Y cur F s F' s'] by (simp add: handled_def)

lemma good_again:
  assumes g: "good F c s" "cur = curth s c" and k: "kinv (mine s c) F' c [] s'"
    and same: "tview s' = tview s" "k_procs s' = k_procs s" "k_kproc s' = k_kproc s" "curth s' c = curth s c" "idle s' c = idle s c"
      "lvl s' cur = lvl s cur" "in_irq s' cur = in_irq s cur" "map_option t_context (k_threads s' cur) = map_option t_context (k_threads s cur)"
    and mine: "\<not> idle s c \<Longrightarrow> k_threads s' cur = k_threads s cur" "\<not> idle s c \<Longrightarrow> off_lists F cur \<Longrightarrow> off_lists F' cur"
  shows "good F' c s'"
proof -
  have "procs_ok s" using g(1) by (simp add: good_def)
  then have "procs_ok s'" by (rule procs_ok_cong) (use same in simp_all)
  moreover have "rest F' c s'"
  proof (cases "idle s c")
    case True
    with g obtain T where r: "lvl s cur = IPL_HIGH" "k_threads s cur = Some T" "in_irq s cur = has_irq (t_context T)"
      unfolding good_def rest_def by auto
    have "map_option t_context (k_threads s' cur) = Some (t_context T)" using same(8) r(2) by simp
    then obtain T' where "k_threads s' cur = Some T'" "t_context T' = t_context T" by blast
    then show ?thesis using k True r same(4-7) unfolding rest_def g(2) by simp
  next
    case False
    then have "running_ok F s c" using g by (simp add: good_def rest_def)
    then have "running_ok F' s' c" using False g(2) same mine by (simp add: running_ok_def)
    then show ?thesis using k False same by (simp add: rest_def)
  qed
  ultimately show ?thesis by (simp add: good_def)
qed

lemma good_handled:
  assumes g: "good F c s" "cur = curth s c" and k: "kinv (mine s c) F' c [] s'" "handled (mine s c) cur F s F' s'"
  shows "good F' c s'"
proof -
  have c: "c < ncpu s" using g(1) kinvD(2) unfolding good_def rest_def by blast
  note h = handledD [OF k(2)]
  show ?thesis
    by (rule good_again [OF g k(1)]) (use h(2,3) [OF c] h(4-8) h(9,10) [of cur] h(11) [of cur] g(2) in auto)
qed

lemma V_keeps:
  assumes k: "kinv Y F c [] s" "cur = curth s c" "wake_ok F s" and Y: "\<And>t. t \<in> Y \<Longrightarrow> off_lists F t" "idle s c \<or> curth s c \<in> Y"
    and S: "k_sems s i = Some S" "sem_count S \<noteq> -1"
    and Q: "\<And>F' s'. kinv Y F' c [] s' \<Longrightarrow> handled Y cur F s F' s' \<Longrightarrow> wake_ok F' s' \<Longrightarrow> Q () s'"
  shows "wp (V cur i) Q E s"
proof -
  obtain ws where ws: "F (WcThreads (sem_wchan S)) = Some ws" using sem_wchan_some [OF k(1) S(1)] by blast
  show ?thesis
  proof (rule V_wp [OF k(1,2) Y S ws])
    fix F' s' assume s': "kinv Y F' c [] s'" "moved Y cur F (s\<lparr>k_sems := (k_sems s)(i \<mapsto> S\<lparr>sem_count := sem_count S + 1\<rparr>)\<rparr>) F' s'"
      "\<And>v. F' (WcThreads v) = (F(WcThreads (sem_wchan S) \<mapsto> tl ws)) (WcThreads v)"
    have sems: "k_sems s' = (k_sems s)(i \<mapsto> S\<lparr>sem_count := sem_count S + 1\<rparr>)" using kcalmD(5) [OF movedD(1) [OF s'(2)]] by simp
    have h: "handled Y cur F s F' s'" using s'(2) by (simp add: handled_def sems)
    have "wake_ok F' s'"
      using wake_V [OF k(1,3) S ws on_list_apart [OF ws Y(1)]] unfolding wake_ok_def handledD(8) [OF h] sems s'(3) .
    with s'(1) h show "Q () s'" by (rule Q)
  qed
qed

lemma timerclock_keeps:
  assumes k: "kinv Y F c [] s" "cur = curth s c" "wake_ok F s" and Y: "\<And>t. t \<in> Y \<Longrightarrow> off_lists F t" "idle s c \<or> curth s c \<in> Y"
    and Q: "\<And>F' s'. kinv Y F' c [] s' \<Longrightarrow> handled Y cur F s F' s' \<Longrightarrow> wake_ok F' s' \<Longrightarrow> Q () s'"
  shows "wp (timerclock cur) Q E s"
proof (rule timerclock_wp [OF k(1,2) Y])
  fix F' s' assume s': "kinv Y F' c [] s'" "moved Y cur F s F' s'"
    "\<And>v. F' (WcThreads v) = (F(WcThreads (k_lbolt s) \<mapsto> [])) (WcThreads v)"
  have h: "handled Y cur F s F' s'" by (rule handled_moved [OF s'(2)])
  have sems: "k_sems s' = k_sems s" using kcalmD(5) [OF movedD(1) [OF s'(2)]] .
  have "sem_wchan S \<noteq> k_lbolt s" if "k_sems s i = Some S" for i S
    using kinvD(11) [OF k(1)] that unfolding sems_ok_def by blast
  then have "wake_ok F' s'"
    using k(3) unfolding wake_ok_def handledD(8) [OF h] sems s'(3) wake_inv_def by simp
  with s'(1) h show "Q () s'" by (rule Q)
qed

lemma interprocessor_interrupt_wp:
  assumes k: "kinv Y F c [] s" "cur = curth s c"
    and Q: "\<And>s'. kinv Y F c [] s' \<Longrightarrow> steady cur s s' \<Longrightarrow> lvl s' cur = lvl s cur \<Longrightarrow> Q () s'"
  shows "wp (interprocessor_interrupt cur) Q E s"
  unfolding interprocessor_interrupt_def wp_kbind wp_kthen
proof (rule curcpu_wp [OF k], rule acquire_wp [OF k], goal_cases)
  case (3 s1)
  note st = kcalmD [OF steady_calm [OF 3(2)]]
  have c: "c < ncpu s1" using kinvD(2) [OF 3(1)] .
  have bits: "c_ipi_pending (k_cpus s1 ! c) \<in> {0, 4}" using kinvD(12) [OF 3(1) c] .
  then have nb: "\<not> bit (c_ipi_pending (k_cpus s1 ! c)) IPI_PANIC" "\<not> bit (c_ipi_pending (k_cpus s1 ! c)) IPI_OFFLINE"
      "\<not> bit (c_ipi_pending (k_cpus s1 ! c)) IPI_TLBSHOOTDOWN"
    by (auto simp: IPI_PANIC_def IPI_OFFLINE_def IPI_TLBSHOOTDOWN_def)
  let ?s = "s1\<lparr>k_cpus := (k_cpus s1)[c := (k_cpus s1 ! c)\<lparr>c_ipi_pending := 0\<rparr>]\<rparr>"
  have k2: "kinv Y F c [IpiLock c] ?s" by (rule kinv_cpu [OF 3(1) c]) simp_all
  have nth: "(k_cpus s1)[c := C] ! c' = (if c' = c then C else k_cpus s1 ! c')" for C c' using c by (simp add: nth_list_update)
  have st2: "steady cur s1 ?s" by (simp add: steady_def kcalm_def nth)
  have cur2: "cur = curth ?s c" using st(1,2) c k(2) by simp
  have "wp (release cur (IpiLock c)) Q E ?s"
  proof (rule release_wp [OF k2 cur2], simp)
    fix s3 assume s3: "kinv Y F c (remove1 (IpiLock c) [IpiLock c]) s3" "steady cur ?s s3" "lvl s3 cur = lvl ?s cur"
    show "Q () s3" by (rule Q) (use s3 3(3) steady_trans [OF steady_trans [OF 3(2) st2] s3(2)] in auto)
  qed
  then show ?case using c nb by simp
qed auto

end
