(* ===== verification/Kern_Irq.thy ===== *)
theory Kern_Irq
  imports Kern_Wake
begin

text \<open>
  Interrupts, and going on after a switch: they keep the state between operations sound.
\<close>

definition okay :: "(listid \<rightharpoonup> tid list) \<Rightarrow> cpuid \<Rightarrow> machine \<Rightarrow> bool" where
  "okay F c s \<longleftrightarrow> good F c s \<and> wake_ok F s"

lemma okay_sview: "okay F c s \<Longrightarrow> good F' c s' \<Longrightarrow> sview F' s' = sview F s \<Longrightarrow> okay F' c s'"
  using wake_sview by (auto simp: okay_def)

lemma good_kinv: "good F c s \<Longrightarrow> kinv (mine s c) F c [] s" "good F c s \<Longrightarrow> c < ncpu s"
  using kinvD(2) by (auto simp: good_def rest_def)

lemma good_mine: "good F c s \<Longrightarrow> t \<in> mine s c \<Longrightarrow> off_lists F t"
  by (auto simp: good_def rest_def running_ok_def split: if_splits)

lemma okay_handled:
  assumes "okay F c s" "cur = curth s c" "kinv (mine s c) F' c [] s'" "handled (mine s c) cur F s F' s'" "wake_ok F' s'"
  shows "okay F' c s'"
  using assms good_handled [of F c s cur F' s'] by (simp add: okay_def)

text \<open>What an interrupt needs: a device's semaphore exists and does not overflow.\<close>

fun irq_ok :: "machine \<Rightarrow> irq \<Rightarrow> bool" where
  "irq_ok s (DeviceIrq i) = (case k_sems s i of None \<Rightarrow> False | Some S \<Rightarrow> sem_count S \<noteq> -1)"
| "irq_ok s _ = True"

lemma tick_kinv:
  fixes n :: u32w
  assumes k: "kinv Y F c [] s" "cur = curth s c"
  defines "s' \<equiv> s\<lparr>k_cpus := (k_cpus s)[c := (k_cpus s ! c)\<lparr>c_hardclocks := n\<rparr>]\<rparr>"
  shows "kinv Y F c [] s'" "steady cur s s'" "lvl s' cur = lvl s cur"
proof -
  note c = kinvD(2) [OF k(1)]
  have nth: "(k_cpus s)[c := C] ! c' = (if c' = c then C else k_cpus s ! c')" for C c' using c by (simp add: nth_list_update)
  show "kinv Y F c [] s'" unfolding s'_def by (rule kinv_cpu [OF k(1) c]) (use kinvD(12) [OF k(1) c] in simp_all)
  show "steady cur s s'" by (simp add: s'_def steady_def kcalm_def nth)
  show "lvl s' cur = lvl s cur" by (simp add: s'_def)
qed

text \<open>The clock tick, up to the yield.\<close>

lemma hardclock_wp:
  assumes k: "kinv Y F c [] s" "cur = curth s c" and Y: "\<And>t. t \<in> Y \<Longrightarrow> off_lists F t"
    and Q: "\<And>F' s'. kinv Y F' c [] s' \<Longrightarrow> shuffled Y cur F s F' s' \<Longrightarrow> wp (thread_yield cur) Q E s'"
  shows "wp (hardclock cur) Q E s"
proof -
  note c = kinvD(2) [OF k(1)]
  let ?n = "c_hardclocks (k_cpus s ! c) + 1"
  let ?s = "s\<lparr>k_cpus := (k_cpus s)[c := (k_cpus s ! c)\<lparr>c_hardclocks := ?n\<rparr>]\<rparr>"
  note t = tick_kinv [OF k, of ?n]
  have cur: "cur = curth ?s c" using k(2) c by simp
  note sh = shuffled_steady [OF t(2,3), of Y F]
  have "wp (kwhen (?n mod MIGRATE_HARDCLOCKS = 0) (thread_consider_migration cur)) (\<lambda>_. wp (thread_yield cur) Q E) E ?s"
  proof (cases "?n mod MIGRATE_HARDCLOCKS = 0")
    case True
    have "wp (thread_consider_migration cur) (\<lambda>_. wp (thread_yield cur) Q E) E ?s"
      by (rule thread_consider_migration_wp [OF t(1) cur Y]) (auto intro: Q shuffled_trans [OF sh])
    then show ?thesis using True by simp
  qed (use Q [OF t(1) sh] in simp)
  then have "wp (kbind (on_cpu c (kget c_hardclocks)) (\<lambda>n.
            kthen (kwhen (n mod MIGRATE_HARDCLOCKS = 0) (thread_consider_migration cur))
              (thread_yield cur))) Q E ?s" using c by simp
  then show ?thesis
    unfolding hardclock_def wp_kbind [of "curcpu cur"]
    by (intro curcpu_wp [OF k]) (use c in \<open>simp del: wp_kbind\<close>)
qed

lemma shuffled_handled: "shuffled Y cur F s F' s' \<Longrightarrow> handled Y cur F s F' s'"
  by (rule handled_moved [OF shuffledD(2)])

lemma ipi_handler_wp:
  assumes k: "kinv Y F c [] s" "cur = curth s c"
    and Q: "\<And>s'. kinv Y F c [] s' \<Longrightarrow> shuffled Y cur F s F s' \<Longrightarrow> Q () s'"
  shows "wp (mainbus_interrupt cur IpiIrq) Q E s"
  unfolding mainbus_interrupt.simps wp_kthen wp_kbind
proof (rule interprocessor_interrupt_wp [OF k])
  fix s1 assume s1: "kinv Y F c [] s1" "steady cur s s1" "lvl s1 cur = lvl s cur"
  have cur1: "cur = curth s1 c" using kcalmD(2) [OF steady_calm [OF s1(2)]] kinvD(2) [OF k(1)] k(2) by simp
  let ?s = "s1\<lparr>k_ipiline := (k_ipiline s1)(c := False)\<rparr>"
  have st: "steady cur s ?s" by (rule steady_trans [OF s1(2)]) simp
  have "Q () ?s" by (rule Q [OF kinv_misc(2) [OF s1(1)] shuffled_steady [OF st]]) (use s1(3) in simp)
  then show "wp (curcpu cur) (\<lambda>x. wp (kmod (\<lambda>s. s\<lparr>k_ipiline := (k_ipiline s)(x := False)\<rparr>)) Q E) E s1"
    by (intro curcpu_wp [OF s1(1) cur1]) simp
qed

text \<open>A handler in the idle loop comes back.\<close>

lemma idle_handler_wp:
  assumes k: "kinv {} F c [] s" "cur = curth s c" "wake_ok F s" and idle: "idle s c" "lvl s cur = IPL_HIGH" and q: "irq_ok s q"
    and Q: "\<And>F' s'. kinv {} F' c [] s' \<Longrightarrow> handled {} cur F s F' s' \<Longrightarrow> wake_ok F' s' \<Longrightarrow> Q () s'"
  shows "wp (mainbus_interrupt cur q) Q E s"
proof (cases q)
  case TimerIrq
  have "wp (hardclock cur) Q E s"
  proof (rule hardclock_wp [OF k(1,2)], simp)
    fix F1 s1 assume s1: "kinv {} F1 c [] s1" "shuffled {} cur F s F1 s1"
    note d = kcalmD [OF shuffledD(1) [OF s1(2)]] and c = kinvD(2) [OF k(1)]
    have cur1: "cur = curth s1 c" "idle s1 c" "lvl s1 cur = IPL_HIGH" using d(2,3) c k(2) idle movedD(2) [OF shuffledD(2) [OF s1(2)]] by simp_all
    show "wp (thread_yield cur) Q E s1"
    proof (rule yield_idle_wp [OF s1(1) cur1])
      fix s2 assume s2: "kinv {} F1 c [] s2" "steady cur s1 s2" "lvl s2 cur = lvl s1 cur"
      have sh: "shuffled {} cur F s F1 s2" by (rule shuffled_trans [OF s1(2) shuffled_steady [OF s2(2,3)]])
      show "Q () s2" by (rule Q [OF s2(1) shuffled_handled [OF sh] wake_sview [OF shuffled_sview [OF sh] k(3)]])
    qed
  qed
  then show ?thesis using TimerIrq by simp
next
  case IpiIrq
  show ?thesis
    unfolding IpiIrq by (rule ipi_handler_wp [OF k(1,2)]) (auto intro: Q shuffled_handled wake_sview [OF shuffled_sview k(3)])
next
  case SecondIrq
  have "wp (timerclock cur) Q E s" by (rule timerclock_keeps [OF k]) (use idle Q in auto)
  then show ?thesis using SecondIrq by simp
next
  case (DeviceIrq i)
  then obtain S where S: "k_sems s i = Some S" "sem_count S \<noteq> -1" using q by (auto split: option.splits)
  have "wp (V cur i) Q E s" by (rule V_keeps [OF k _ _ S]) (use idle Q in auto)
  then show ?thesis using DeviceIrq by simp
qed

text \<open>A handler in a running thread; the timer's may switch to another thread.\<close>

lemma run_handler_wp:
  assumes ok: "okay F c s" "cur = curth s c" "\<not> idle s c" and q: "irq_ok s q"
    and Q: "\<And>F' s'. okay F' c s' \<Longrightarrow> Q () s'"
  shows "wp (mainbus_interrupt cur q) Q E s"
proof -
  have g: "good F c s" "wake_ok F s" using ok(1) by (simp_all add: okay_def)
  have k: "kinv {cur} F c [] s" using good_parts(1) [OF g(1) ok(2,3)] .
  have Y: "off_lists F t" if "t \<in> {cur}" for t using good_parts(4) [OF g(1) ok(2,3)] that by simp
  have Yc: "idle s c \<or> curth s c \<in> {cur}" using ok(2) by simp
  have mine: "mine s c = {cur}" using ok(2,3) by simp
  have fin: "Q () s'" if "kinv {cur} F' c [] s'" "handled {cur} cur F s F' s'" "wake_ok F' s'" for F' s'
    by (rule Q [OF okay_handled [OF ok(1,2)]]) (use that mine in simp_all)
  show ?thesis
  proof (cases q)
    case TimerIrq
    have "wp (hardclock cur) Q E s"
    proof (rule hardclock_wp [OF k ok(2) Y], assumption)
      fix F1 s1 assume s1: "kinv {cur} F1 c [] s1" "shuffled {cur} cur F s F1 s1"
      have ok1: "okay F1 c s1"
        by (rule okay_handled [OF ok(1,2)]) (use s1 mine shuffled_handled wake_sview [OF shuffled_sview [OF s1(2)] g(2)] in simp_all)
      note d = kcalmD [OF shuffledD(1) [OF s1(2)]] and c = kinvD(2) [OF k]
      have cur1: "cur = curth s1 c" "\<not> idle s1 c" using d(2,3) c ok(2,3) by simp_all
      have g1: "good F1 c s1" using ok1 by (simp add: okay_def)
      note p = good_parts [OF g1 cur1]
      show "wp (thread_yield cur) Q E s1"
      proof (rule yield_running_wp [OF p(1) cur1 p(2,3)])
        fix F2 s2 assume s2: "rest F2 c s2" "view F2 s2 = view F1 s1"
        have g2: "good F2 c s2" using s2(1) view_procs [OF s2(2) p(3)] by (simp add: good_def)
        show "Q () s2" by (rule Q [OF okay_sview [OF ok1 g2 view_sview [OF s2(2)]]])
      qed
    qed
    then show ?thesis using TimerIrq by simp
  next
    case IpiIrq
    show ?thesis
      unfolding IpiIrq by (rule ipi_handler_wp [OF k ok(2)]) (auto intro: fin shuffled_handled wake_sview [OF shuffled_sview g(2)])
  next
    case SecondIrq
    have "wp (timerclock cur) Q E s" by (rule timerclock_keeps [OF k ok(2) g(2) Y Yc]) (use fin in auto)
    then show ?thesis using SecondIrq by simp
  next
    case (DeviceIrq i)
    then obtain S where S: "k_sems s i = Some S" "sem_count S \<noteq> -1" using q by (auto split: option.splits)
    have "wp (V cur i) Q E s" by (rule V_keeps [OF k ok(2) g(2) Y Yc S]) (use fin in auto)
    then show ?thesis using DeviceIrq by simp
  qed
qed


subsection \<open>Entering and leaving\<close>

lemma irq_enter_run:
  assumes k: "kinv Y F c [] s" "cur = curth s c" and l: "lvl s cur = IPL_NONE"
    and Q: "\<And>p. intr p = (intr (k_spl s))(cur := \<lparr>t_in_interrupt = True, t_curspl = IPL_HIGH, t_iplhigh_count = 1\<rparr>) \<Longrightarrow>
      kinv Y F c [] (s\<lparr>k_spl := p\<rparr>) \<Longrightarrow> Q (in_irq s cur, True) (s\<lparr>k_spl := p\<rparr>)"
  shows "wp (irq_enter cur) Q E s"
proof -
  note spl = kinvD(3) [OF k(1), unfolded spl_ok_def]
  have n: "t_iplhigh_count (intr (k_spl s) cur) = 0" using spl l k(2) by (simp add: ipl_defs)
  have i: "(intr (k_spl s) cur)\<lparr>t_in_interrupt := True, t_curspl := IPL_HIGH, t_iplhigh_count := 1\<rparr> =
      \<lparr>t_in_interrupt = True, t_curspl = IPL_HIGH, t_iplhigh_count = 1\<rparr>" by simp
  have fin: "Q (in_irq s cur, True) (s\<lparr>k_spl := p\<rparr>)"
    if p: "intr p = (intr (k_spl s))(cur := \<lparr>t_in_interrupt = True, t_curspl = IPL_HIGH, t_iplhigh_count = 1\<rparr>)"
      "irqs_on p = (irqs_on (k_spl s))(c := False)" "c_spinlocks p = c_spinlocks (k_spl s)" "spinlocks p = spinlocks (k_spl s)" for p
    by (rule Q [OF p(1) kinv_intr [OF k(1)]]) (use p spl k(2) in \<open>auto simp: spl_ok_def ipl_defs\<close>)
  show ?thesis
    unfolding irq_enter_def wp_kbind [of "curcpu cur"]
    by (rule curcpu_wp [OF k]) (use l n i in \<open>auto simp: cpu_irqoff_def upd_intr_def ipl_defs intro!: fin\<close>)
qed

lemma irq_enter_idle:
  assumes k: "kinv Y F c [] s" "cur = curth s c" and l: "lvl s cur = IPL_HIGH"
    and Q: "\<And>p. intr p = (intr (k_spl s))(cur := (intr (k_spl s) cur)\<lparr>t_in_interrupt := True\<rparr>) \<Longrightarrow>
      kinv Y F c [] (s\<lparr>k_spl := p\<rparr>) \<Longrightarrow> Q (in_irq s cur, False) (s\<lparr>k_spl := p\<rparr>)"
  shows "wp (irq_enter cur) Q E s"
proof -
  note spl = kinvD(3) [OF k(1), unfolded spl_ok_def]
  have n: "t_iplhigh_count (intr (k_spl s) cur) = 1" "\<not> irqs_on (k_spl s) c" using spl l k(2) by (auto simp: ipl_defs)
  have fin: "Q (in_irq s cur, False) (s\<lparr>k_spl := p\<rparr>)"
    if p: "intr p = (intr (k_spl s))(cur := (intr (k_spl s) cur)\<lparr>t_in_interrupt := True\<rparr>)"
      "irqs_on p = (irqs_on (k_spl s))(c := False)" "c_spinlocks p = c_spinlocks (k_spl s)" "spinlocks p = spinlocks (k_spl s)" for p
    by (rule Q [OF p(1) kinv_intr [OF k(1)]]) (use p spl n k(2) l in \<open>auto simp: spl_ok_def ipl_defs\<close>)
  show ?thesis
    unfolding irq_enter_def wp_kbind [of "curcpu cur"]
    by (rule curcpu_wp [OF k]) (use l n in \<open>auto simp: cpu_irqoff_def upd_intr_def ipl_defs intro!: fin\<close>)
qed

lemma irq_leave_run:
  assumes k: "kinv Y F c [] s" "cur = curth s c" and l: "lvl s cur = IPL_HIGH"
    and Q: "\<And>p. intr p = (intr (k_spl s))(cur := \<lparr>t_in_interrupt = old_in, t_curspl = IPL_NONE, t_iplhigh_count = 0\<rparr>) \<Longrightarrow>
      kinv Y F c [] (s\<lparr>k_spl := p\<rparr>) \<Longrightarrow> Q () (s\<lparr>k_spl := p\<rparr>)"
  shows "wp (irq_leave cur old_in True True) Q E s"
proof -
  note spl = kinvD(3) [OF k(1), unfolded spl_ok_def]
  have n: "t_iplhigh_count (intr (k_spl s) cur) = 1" "\<not> irqs_on (k_spl s) c" using spl l k(2) by (auto simp: ipl_defs)
  have i: "(intr (k_spl s) cur)\<lparr>t_iplhigh_count := 0, t_curspl := 0, t_in_interrupt := old_in\<rparr> =
      \<lparr>t_in_interrupt = old_in, t_curspl = IPL_NONE, t_iplhigh_count = 0\<rparr>" by (simp add: ipl_defs)
  have fin: "Q () (s\<lparr>k_spl := p\<rparr>)"
    if p: "intr p = (intr (k_spl s))(cur := \<lparr>t_in_interrupt = old_in, t_curspl = IPL_NONE, t_iplhigh_count = 0\<rparr>)"
      "irqs_on p = (irqs_on (k_spl s))(c := True)" "c_spinlocks p = c_spinlocks (k_spl s)" "spinlocks p = spinlocks (k_spl s)" for p
    by (rule Q [OF p(1) kinv_intr [OF k(1)]]) (use p spl k(2) in \<open>auto simp: spl_ok_def ipl_defs\<close>)
  obtain T where T: "k_threads s cur = Some T" "t_cpu T = Some c" using curth_live [OF k(1)] k(2) by auto
  show ?thesis
    unfolding irq_leave_def
    using l n i T by (auto simp: cpu_irqon_def upd_intr_def curcpu_def intro!: fin)
qed

lemma irq_leave_idle:
  assumes k: "kinv Y F c [] s" "cur = curth s c"
    and Q: "\<And>p. intr p = (intr (k_spl s))(cur := (intr (k_spl s) cur)\<lparr>t_in_interrupt := old_in\<rparr>) \<Longrightarrow>
      kinv Y F c [] (s\<lparr>k_spl := p\<rparr>) \<Longrightarrow> Q () (s\<lparr>k_spl := p\<rparr>)"
  shows "wp (irq_leave cur old_in False False) Q E s"
proof -
  note spl = kinvD(3) [OF k(1), unfolded spl_ok_def]
  let ?p = "(k_spl s)\<lparr>intr := (intr (k_spl s))(cur := (intr (k_spl s) cur)\<lparr>t_in_interrupt := old_in\<rparr>)\<rparr>"
  have k2: "kinv Y F c [] (s\<lparr>k_spl := ?p\<rparr>)"
    by (rule kinv_intr [OF k(1)]) (use spl k(2) in \<open>auto simp: spl_ok_def\<close>)
  obtain T where T: "k_threads s cur = Some T" "t_cpu T = Some c" using curth_live [OF k(1)] k(2) by auto
  show ?thesis
    unfolding irq_leave_def using T Q [OF _ k2] by (simp add: upd_intr_def curcpu_def)
qed

subsection \<open>Interrupts as whole steps\<close>

lemma trap_irq_okay:
  assumes ok: "okay F c s" "cur = curth s c" "\<not> idle s c" and q: "lvl s cur = IPL_NONE" "irq_ok s q"
    and Q: "\<And>F' s'. okay F' c s' \<Longrightarrow> Q () s'"
  shows "wp (trap_irq cur q) Q E s"
  unfolding trap_irq_def wp_kbind
proof (rule irq_enter_run)
  have g: "good F c s" "wake_ok F s" using ok(1) by (simp_all add: okay_def)
  note p = good_parts [OF g(1) ok(2,3)]
  show "kinv {cur} F c [] s" "cur = curth s c" "lvl s cur = IPL_NONE" by (fact p(1) ok(2) q(1))+
  obtain T where T: "k_threads s cur = Some T" "t_proc T \<noteq> None" "t_state T \<in> {S_RUN, S_READY}"
      "frames_ok (in_irq s cur) (lvl s cur) (t_context T)"
    using running_facts [OF p(1) ok(2) p(2)] by metis
  have b: "\<not> in_irq s cur" "base_ok (t_context T)"
    using T(4) q(1) by (auto simp: frames_ok_def ipl_defs split: list.splits frame.splits)
  fix pp assume pp: "intr pp = (intr (k_spl s))(cur := \<lparr>t_in_interrupt = True, t_curspl = IPL_HIGH, t_iplhigh_count = 1\<rparr>)"
    "kinv {cur} F c [] (s\<lparr>k_spl := pp\<rparr>)"
  let ?s1 = "s\<lparr>k_spl := pp\<rparr>"
  let ?T = "T\<lparr>t_context := InIrq False True # t_context T\<rparr>"
  let ?s = "?s1\<lparr>k_threads := (k_threads ?s1)(cur \<mapsto> ?T)\<rparr>"
  have cur1: "cur = curth ?s1 c" "cur = curth ?s c" "\<not> idle ?s c" using ok(2,3) by simp_all
  have k2: "kinv {cur} F c [] ?s" by (rule kinv_cur [OF pp(2) cur1(1)]) (use T(1) in auto)
  have "rest F c ?s"
    by (rule restI [OF k2 cur1(2,3), where T = ?T]) (use T p(4) pp(1) b in \<open>auto simp: frames_ok_def\<close>)
  moreover have "procs_ok ?s" by (rule procs_ok_cong [OF p(3)]) (use T(1) in \<open>auto simp: tview_def\<close>)
  moreover have "sview F ?s = sview F s" using T(1) by (auto simp: sview_def tview_def fun_eq_iff)
  ultimately have ok2: "okay F c ?s" by (intro okay_sview [OF ok(1)]) (simp_all add: good_def)
  have q2: "irq_ok ?s q" using q(2) by (cases q) auto
  have "wp (mainbus_interrupt cur q) Q E ?s" by (rule run_handler_wp [OF ok2 cur1(2,3) q2]) (rule Q)
  then show "wp (case (in_irq s cur, True) of (old_in, doadjust) \<Rightarrow>
      kthen (push_frames cur [InIrq old_in doadjust]) (mainbus_interrupt cur q)) Q E ?s1"
    using T(1) b(1) by (simp add: push_frames_def)
qed

lemma idle_irq_okay:
  assumes ok: "okay F c s" "cur = curth s c" "idle s c" and q: "irq_ok s q"
    and Q: "\<And>F' s'. okay F' c s' \<Longrightarrow> Q () s'"
  shows "wp (idle_irq cur q) Q E s"
  unfolding idle_irq_def wp_kbind
proof (rule irq_enter_idle)
  have g: "good F c s" "wake_ok F s" using ok(1) by (simp_all add: okay_def)
  show k: "kinv {} F c [] s" "cur = curth s c" using good_kinv(1) [OF g(1)] ok(2,3) by simp_all
  show l: "lvl s cur = IPL_HIGH" using g(1) ok(2,3) by (simp add: good_def rest_def)
  note c = kinvD(2) [OF k(1)]
  fix p assume p: "intr p = (intr (k_spl s))(cur := (intr (k_spl s) cur)\<lparr>t_in_interrupt := True\<rparr>)" "kinv {} F c [] (s\<lparr>k_spl := p\<rparr>)"
  let ?s = "s\<lparr>k_spl := p\<rparr>"
  have w: "wake_ok F ?s" using g(2) by (simp add: wake_ok_def tview_def)
  have q1: "irq_ok ?s q" using q by (cases q) auto
  have "wp (mainbus_interrupt cur q) (\<lambda>_. wp (irq_leave cur (in_irq s cur) False False) Q E) E ?s"
  proof (rule idle_handler_wp [OF p(2) _ w _ _ q1])
    show "cur = curth ?s c" "idle ?s c" "lvl ?s cur = IPL_HIGH" using ok(2,3) l p(1) by simp_all
    fix F' s2 assume s2: "kinv {} F' c [] s2" "handled {} cur F ?s F' s2" "wake_ok F' s2"
    note h = handledD [OF s2(2)]
    have cur2: "cur = curth s2 c" "idle s2 c" using h(2,3) [of c] c ok(2,3) by simp_all
    show "wp (irq_leave cur (in_irq s cur) False False) Q E s2"
    proof (rule irq_leave_idle [OF s2(1) cur2(1)])
      fix p2 assume p2: "intr p2 = (intr (k_spl s2))(cur := (intr (k_spl s2) cur)\<lparr>t_in_interrupt := in_irq s cur\<rparr>)" "kinv {} F' c [] (s2\<lparr>k_spl := p2\<rparr>)"
      let ?s2 = "s2\<lparr>k_spl := p2\<rparr>"
      have tv: "tview ?s2 = tview s" using h(8) by (simp add: tview_def fun_eq_iff)
      have "good F' c ?s2"
        by (rule good_again [OF g(1) ok(2)]) (use p p2 h(4,5,7) h(11) [of cur] tv cur2 ok(2,3) in auto)
      moreover have "wake_ok F' ?s2" using s2(3) by (simp add: wake_ok_def tview_def)
      ultimately show "Q () ?s2" by (intro Q) (simp add: okay_def)
    qed
  qed
  then show "wp (case (in_irq s cur, False) of (old_in, doadjust) \<Rightarrow>
      kthen (mainbus_interrupt cur q) (irq_leave cur old_in doadjust False)) Q E ?s" by simp
qed

end
