(* ===== verification/Kern_Boot.thy ===== *)
theory Kern_Boot
  imports Kern_Irq
begin

text \<open>
  New semaphores, processes and processors.
\<close>

subsection \<open>Semaphores\<close>

lemma no_wchan: "kinv Y F c held s \<Longrightarrow> w \<notin> dom (k_wchans s) \<Longrightarrow> F (WcThreads w) = None"
  using kinvD(10) [of Y F c held s] unfolding lists_ok_def by blast

lemma kinv_new_sem:
  assumes k: "kinv Y F c held s" and w: "w \<notin> dom (k_wchans s)" and i: "i \<notin> dom (k_sems s)"
    and h: "tl_rel (dom (k_threads s)) (F(WcThreads w \<mapsto> [])) h"
  shows "kinv Y (F(WcThreads w \<mapsto> [])) c held
    (s\<lparr>k_lists := h, k_wchans := (k_wchans s)(w \<mapsto> nm), k_sems := (k_sems s)(i \<mapsto> \<lparr>sem_name = nm', sem_wchan = w, sem_count = n\<rparr>)\<rparr>)"
    (is "kinv Y ?F c held ?s")
proof -
  have F: "F (WcThreads w) = None" using no_wchan [OF k w] .
  have on: "on_list ?F t l \<longleftrightarrow> on_list F t l" for t l using F by (auto simp: on_list_def)
  then have off: "off_lists ?F t \<longleftrightarrow> off_lists F t" for t by (simp add: off_lists_def)
  show ?thesis
  proof (rule kinvI)
    show "other_ok ?F ?s c'" if "c' < ncpu ?s" "c' \<noteq> c" for c'
      by (rule other_ok_cong [rotated 8, OF kinvD(5) [OF k]]) (use that off in auto)
    show "listed_ok ?s l t" if "on_list ?F t l" "t \<notin> Y" for t l
      by (rule listed_ok_cong [rotated 4, OF kinvD(6) [OF k]]) (use that on i in auto)
    show "lists_ok ?F ?s" using kinvD(10) [OF k] by (auto simp: lists_ok_def)
    show "sems_ok ?s" using kinvD(11) [OF k] w i unfolding sems_ok_def by (auto split: if_splits)
  qed (use kinvD(1-4,7-9,12) [OF k] h off in simp_all)
qed

lemma sem_create_okay:
  assumes ok: "okay F c s" and ns: "\<And>i. ns = Some i \<Longrightarrow> i \<notin> dom (k_sems s)" "\<And>w. nw = Some w \<Longrightarrow> w \<notin> dom (k_wchans s)"
    and Q: "\<And>F' s' r. okay F' c s' \<Longrightarrow> Q r s'"
  shows "wp (sem_create name n ns kstrdup_ok nw) Q E s"
proof (cases "ns = None \<or> \<not> kstrdup_ok \<or> nw = None")
  case True
  then show ?thesis using Q [OF ok] by (auto simp: sem_create_def wchan_create_def split: option.splits)
next
  case False
  then obtain i w where iw: "ns = Some i" "kstrdup_ok" "nw = Some w" by auto
  have g: "good F c s" "wake_ok F s" using ok by (simp_all add: okay_def)
  have k: "kinv (mine s c) F c [] s" using good_kinv(1) [OF g(1)] .
  have F: "F (WcThreads w) = None" using no_wchan [OF k ns(2) [OF iw(3)]] .
  have free: "spinlocks (k_spl s) = lock_of c []" using kinvD(3) [OF k] by (simp add: spl_ok_def)
  let ?S = "\<lparr>sem_name = name, sem_wchan = w, sem_count = n\<rparr>"
  have "wp (threadlist_init (WcThreads w)) (\<lambda>_ h. Q (Some i) (s\<lparr>k_lists := h, k_wchans := (k_wchans s)(w \<mapsto> name),
      k_sems := (k_sems s)(i \<mapsto> ?S)\<rparr>)) (\<lambda>e h. E e (s\<lparr>k_lists := h\<rparr>)) (k_lists s)"
  proof (rule wp_conseq [OF threadlist_init_wp [OF kinvD(1) [OF k]]])
    fix x h assume h: "tl_rel (dom (k_threads s)) (F(WcThreads w \<mapsto> [])) h"
    let ?F = "F(WcThreads w \<mapsto> [])"
    let ?s = "s\<lparr>k_lists := h, k_wchans := (k_wchans s)(w \<mapsto> name), k_sems := (k_sems s)(i \<mapsto> ?S)\<rparr>"
    have k2: "kinv (mine s c) ?F c [] ?s" by (rule kinv_new_sem [OF k ns(2) [OF iw(3)] ns(1) [OF iw(1)] h])
    have tv: "tview ?s = tview s" by (simp add: tview_def fun_eq_iff)
    have "good ?F c ?s"
      by (rule good_again [OF g(1) refl k2 tv]) (auto simp: off_lists_def on_list_def)
    moreover have "wake_ok ?F ?s"
    proof -
      have "sem_wchan S \<noteq> w" if "k_sems s j = Some S" for j S
        using kinvD(11) [OF k] that ns(2) [OF iw(3)] unfolding sems_ok_def by blast
      then show ?thesis using g(2) unfolding wake_ok_def tv wake_inv_def by auto
    qed
    ultimately show "Q (Some i) ?s" by (intro Q) (simp add: okay_def)
  qed (simp add: F)
  moreover have "(spinlocks (k_spl s))(SemLock i := (spinlocks (k_spl s) (SemLock i))\<lparr>splk_lock := 0, splk_holder := None\<rparr>) = spinlocks (k_spl s)"
    by (auto simp: free lock_of_def)
  ultimately show ?thesis
    using iw by (simp add: sem_create_def wchan_create_def spinlock_init_def spinlock_data_set_def upd_lock_def)
qed


subsection \<open>Processes\<close>

lemma proc_create_okay:
  assumes ok: "okay F c s" and np: "\<And>p. np = Some p \<Longrightarrow> p \<notin> dom (k_procs s)"
    and Q: "\<And>F' s' r. okay F' c s' \<Longrightarrow> Q r s'"
  shows "wp (proc_create name np kstrdup_ok) Q E s"
proof (cases "np = None \<or> \<not> kstrdup_ok")
  case True
  then show ?thesis using Q [OF ok] by (auto simp: proc_create_def split: option.splits)
next
  case False
  then obtain p where p: "np = Some p" "kstrdup_ok" by auto
  have g: "good F c s" "wake_ok F s" using ok by (simp_all add: okay_def)
  have k: "kinv (mine s c) F c [] s" using good_kinv(1) [OF g(1)] .
  have free: "spinlocks (k_spl s) = lock_of c []" using kinvD(3) [OF k] by (simp add: spl_ok_def)
  let ?R = "\<lparr>p_name = name, p_numthreads = 0, p_addrspace = None, p_cwd = None\<rparr>"
  let ?s = "s\<lparr>k_procs := (k_procs s)(p \<mapsto> ?R)\<rparr>"
  have tv: "tview ?s = tview s" by (simp add: tview_def fun_eq_iff)
  have "procs_ok s" using g(1) by (simp add: good_def)
  moreover from this np [OF p(1)] have "{t. snd (tview s t) = Some p} = {}" unfolding procs_ok_def by blast
  ultimately have pr: "procs_ok ?s" unfolding procs_ok_def tv by (auto split: if_splits)
  have "rest F c ?s" using g(1) kinv_misc(3) [OF k] by (auto simp: good_def rest_def running_ok_def split: if_splits)
  moreover have "wake_ok F ?s" using g(2) unfolding wake_ok_def tv by simp
  ultimately have "Q (Some p) ?s" by (intro Q) (simp add: okay_def good_def pr)
  moreover have "(spinlocks (k_spl s))(ProcLock p := (spinlocks (k_spl s) (ProcLock p))\<lparr>splk_lock := 0, splk_holder := None\<rparr>) = spinlocks (k_spl s)"
    by (auto simp: free lock_of_def)
  ultimately show ?thesis
    using p by (simp add: proc_create_def spinlock_init_def spinlock_data_set_def upd_lock_def)
qed

subsection \<open>Processors\<close>

text \<open>Operations that neither look at processors and thread lists nor change them.\<close>

definition blind :: "'a kern \<Rightarrow> bool" where
  "blind m \<longleftrightarrow> (\<forall>s cs h. m (s\<lparr>k_cpus := cs, k_lists := h\<rparr>) = (fst (m s), (snd (m s))\<lparr>k_cpus := cs, k_lists := h\<rparr>))"

lemma blind_kbind: "blind m \<Longrightarrow> (\<And>x. blind (f x)) \<Longrightarrow> blind (kbind m f)"
  unfolding blind_def kbind_def by (auto split: prod.splits outcome.splits)

lemma blind_parts: "blind (on_spl m)" "blind (on_thread t m1)" "blind (on_proc p m2)" "blind (kret x)" "blind (knonnull xo)" "blind (kassert (\<lambda>_. b))"
  unfolding blind_def on_spl_def on_thread_def on_proc_def
  by (auto simp: kzoom_def kderef_def kret_def knonnull_def kassert_def kpanic_def split: prod.splits option.splits)


lemma blind_proc_addthread: "blind (proc_addthread cur p t)"
  unfolding proc_addthread_def acquire_def release_def set_spl_def curcpu_def kthen_def
  by (intro blind_kbind blind_parts)

lemma wp_blind:
  assumes "blind m" and w: "wp m (\<lambda>x s'. k_cpus s' = k_cpus s \<longrightarrow> k_lists s' = k_lists s \<longrightarrow> Q x (s'\<lparr>k_cpus := cs, k_lists := h\<rparr>))
    (\<lambda>e s'. E e (s'\<lparr>k_cpus := cs, k_lists := h\<rparr>)) s"
  shows "wp m Q E (s\<lparr>k_cpus := cs, k_lists := h\<rparr>)"
proof -
  have m: "m (s\<lparr>k_cpus := cs, k_lists := h\<rparr>) = (fst (m s), (snd (m s))\<lparr>k_cpus := cs, k_lists := h\<rparr>)"
    using assms(1) unfolding blind_def by blast
  have "m (s\<lparr>k_cpus := k_cpus s, k_lists := k_lists s\<rparr>) = (fst (m s), (snd (m s))\<lparr>k_cpus := k_cpus s, k_lists := k_lists s\<rparr>)"
    using assms(1) unfolding blind_def by blast
  then have e: "snd (m s) = (snd (m s))\<lparr>k_cpus := k_cpus s, k_lists := k_lists s\<rparr>" by (simp add: prod_eq_iff)
  have same: "k_cpus (snd (m s)) = k_cpus s" "k_lists (snd (m s)) = k_lists s"
    using arg_cong [OF e, of k_cpus] arg_cong [OF e, of k_lists] by simp_all
  show ?thesis using w m same unfolding wp_def by (auto split: prod.splits outcome.splits)
qed

lemma listed_ok_more:
  assumes "listed_ok s l t" "ncpu s \<le> ncpu s'" "k_threads s' = k_threads s" "k_sems s' = k_sems s" "k_lbolt s' = k_lbolt s"
  shows "listed_ok s' l t"
proof -
  have "sleeps_on s' w fs = sleeps_on s w fs" for w fs
    using assms(4,5) by (auto simp: sleeps_on_def split: list.splits frame.splits)
  moreover have "c < ncpu s'" if "c < ncpu s" for c using that assms(2) by simp
  ultimately show ?thesis using assms(1,3) unfolding listed_ok_def by (cases l) auto
qed

text \<open>A thread that belongs to a new processor is its current thread.\<close>

lemma kinv_add_cpu:
  assumes k: "kinv {t, cur} F c [] s" "cur = curth s c" "t \<noteq> cur" and n: "n = ncpu s"
    and T: "k_threads s t = Some T" "t_cpu T = Some n" "t_proc T \<noteq> None" "t_context T = []" "t_state T = S_READY" "off_lists F t"
      "\<And>c'. c' < n \<Longrightarrow> curth s c' \<noteq> t"
    and p: "intr (k_spl s) t = \<lparr>t_in_interrupt = False, t_curspl = IPL_HIGH, t_iplhigh_count = 1\<rparr>" "\<not> irqs_on (k_spl s) n" "c_spinlocks (k_spl s) n = 0"
    and h: "tl_rel (dom (k_threads s)) (F(Zombies n \<mapsto> [], Runqueue n \<mapsto> [])) (k_lists s)"
    and C: "c_curthread C = t" "\<not> c_isidle C" "c_ipi_pending C = 0"
  shows "kinv {cur} (F(Zombies n \<mapsto> [], Runqueue n \<mapsto> [])) c [] (s\<lparr>k_cpus := k_cpus s @ [C]\<rparr>)" (is "kinv _ ?F c [] ?s")
proof -
  note c = kinvD(2) [OF k(1)]
  have F: "F (Zombies n) = None" "F (Runqueue n) = None" using kinvD(10) [OF k(1)] n unfolding lists_ok_def by (metis less_irrefl)+
  have on: "on_list ?F u l \<longleftrightarrow> on_list F u l" for u l using F by (auto simp: on_list_def)
  then have off: "off_lists ?F u \<longleftrightarrow> off_lists F u" for u by (simp add: off_lists_def)
  have old: "k_cpus ?s ! c' = k_cpus s ! c'" if "c' < ncpu s" for c' using that by (simp add: nth_append)
  have new: "k_cpus ?s ! n = C" using n by (simp add: nth_append)
  have split: "c' < ncpu s \<or> c' = n" if "c' < ncpu ?s" for c' using that n by auto
  show ?thesis
  proof (rule kinvI)
    show "spl_ok (curth ?s c) c [] (k_spl ?s)" using kinvD(3) [OF k(1)] old [OF c] by simp
    show "\<exists>U. k_threads ?s (curth ?s c') = Some U \<and> t_cpu U = Some c'" if "c' < ncpu ?s" for c'
      using split [OF that] kinvD(4) [OF k(1), of c'] old [of c'] new T(1,2) C(1) by auto
    show "other_ok ?F ?s c'" if "c' < ncpu ?s" "c' \<noteq> c" for c'
    proof (cases "c' < ncpu s")
      case True
      then show ?thesis
        by (intro other_ok_cong [rotated 8, OF kinvD(5) [OF k(1)]]) (use that off old [OF True] in auto)
    next
      case False
      then have "c' = n" using split [OF that(1)] by simp
      then show ?thesis
        using new C T p off [of t] unfolding other_ok_def Let_def running_ok_def
        by (simp add: ipl_defs frames_ok_def base_ok_def entry_ok_def)
    qed
    show "listed_ok ?s l u" if "on_list ?F u l" "u \<notin> {cur}" for u l
    proof -
      have "on_list F u l" using that(1) on by simp
      moreover then have "u \<noteq> t" using T(6) unfolding off_lists_def by blast
      ultimately show ?thesis
        by (intro listed_ok_more [OF kinvD(6) [OF k(1)]]) (use that(2) in auto)
    qed
    show "\<exists>c' < ncpu ?s. c' \<noteq> c \<and> \<not> idle ?s c' \<and> curth ?s c' = u" if u: "k_threads ?s u = Some U" "u \<notin> {cur}" "off_lists ?F u" for u U
    proof (cases "u = t")
      case True
      then show ?thesis using new C n c by (intro exI [of _ n]) auto
    next
      case False
      then obtain c' where "c' < ncpu s" "c' \<noteq> c" "\<not> idle s c'" "curth s c' = u"
        using kinvD(7) [OF k(1), of u U] u off by auto
      then show ?thesis using old [of c'] by (intro exI [of _ c']) auto
    qed
    show "parked (k_spl ?s) u U" if u: "k_threads ?s u = Some U" "\<forall>c' < ncpu ?s. curth ?s c' \<noteq> u" "u \<notin> {cur}" for u U
    proof -
      have "u \<noteq> t" using u(2) new C(1) n by auto
      moreover have "curth s c' \<noteq> u" if "c' < ncpu s" for c'
        using u(2) [rule_format, of c'] old [OF that] that by auto
      ultimately show ?thesis using kinvD(8) [OF k(1), of u U] u by simp
    qed
    show "lists_ok ?F ?s" using kinvD(10) [OF k(1)] n unfolding lists_ok_def by (auto simp: less_Suc_eq)
    show "c_ipi_pending (k_cpus ?s ! c') \<in> {0, 4}" if "c' < ncpu ?s" for c'
      using split [OF that] kinvD(12) [OF k(1), of c'] old [of c'] new C(3) by auto
  qed (use c h kinvD(9,11) [OF k(1)] in simp_all)
qed


text \<open>The last part of \<open>cpu_create\<close>, on a machine \<open>S\<close> that has the new processor already.\<close>

lemma cpu_join_wp:
  assumes ok: "okay F c s" "cur = curth s c" "\<not> idle s c" and t: "fresh s t" and n: "n = ncpu s" "\<not> irqs_on (k_spl s) n"
    and T: "t_cpu T = Some n" "t_proc T = None" "t_context T = []" "t_state T = S_READY" "stack_ok T"
    and h: "tl_rel (insert t (dom (k_threads s))) (F(Zombies n \<mapsto> [], Runqueue n \<mapsto> [])) h"
    and p: "intr p = (intr (k_spl s))(t := \<lparr>t_in_interrupt = False, t_curspl = IPL_HIGH, t_iplhigh_count = 1\<rparr>)"
      "irqs_on p = irqs_on (k_spl s)" "c_spinlocks p = (c_spinlocks (k_spl s))(n := 0)" "spinlocks p = spinlocks (k_spl s)"
    and C: "c_curthread C = t" "\<not> c_isidle C" "c_ipi_pending C = 0"
    and S: "S = s\<lparr>k_threads := (k_threads s)(t \<mapsto> T), k_lists := h, k_spl := p, k_cpus := k_cpus s @ [C]\<rparr>"
    and Q: "\<And>F' s'. okay F' c s' \<Longrightarrow> Q () s'"
  shows "wp (proc_addthread cur (k_kproc s) t) Q E S"
proof -
  have g: "good F c s" "wake_ok F s" using ok(1) by (simp_all add: okay_def)
  note r = good_parts [OF g(1) ok(2,3)] and c = good_kinv(2) [OF g(1)]
  let ?F = "F(Zombies n \<mapsto> [], Runqueue n \<mapsto> [])"
  have tn: "k_threads s t = None" using t by (simp add: fresh_def)
  have ne: "curth s c' \<noteq> t" if "c' < ncpu s" for c' using kinvD(4) [OF r(1) that] tn by auto
  have tc: "t \<noteq> cur" using ne [OF c] ok(2) by simp
  have off: "off_lists F t" using tl_relD(3) [OF kinvD(1) [OF r(1)]] tn by (auto simp: off_lists_def)
  have Fn: "F (Zombies n) = None" "F (Runqueue n) = None" using kinvD(10) [OF r(1)] n(1) unfolding lists_ok_def by (metis less_irrefl)+
  let ?pa = "(k_spl s)\<lparr>c_spinlocks := c_spinlocks p\<rparr>"
  have ka: "kinv {cur} F c [] (s\<lparr>k_spl := ?pa\<rparr>)"
    by (rule kinv_intr [OF r(1)]) (use kinvD(3) [OF r(1)] p(3) n(1) c in \<open>auto simp: spl_ok_def\<close>)
  have hF: "tl_rel (insert t (dom (k_threads s))) F h"
  proof -
    have "tl_rel (insert t (dom (k_threads s))) (?F(Runqueue n := None)) h" by (rule tl_rel_drop_list [OF h]) simp
    then have "tl_rel (insert t (dom (k_threads s))) (?F(Runqueue n := None, Zombies n := None)) h" by (rule tl_rel_drop_list) simp
    moreover have "?F(Runqueue n := None, Zombies n := None) = F" using Fn by (auto simp: fun_eq_iff)
    ultimately show ?thesis by simp
  qed
  let ?s0 = "s\<lparr>k_threads := (k_threads s)(t \<mapsto> T), k_lists := h, k_spl := p\<rparr>"
  have eq: "?s0 = (s\<lparr>k_spl := ?pa\<rparr>)\<lparr>k_threads := (k_threads (s\<lparr>k_spl := ?pa\<rparr>))(t \<mapsto> T), k_lists := h,
      k_spl := (k_spl (s\<lparr>k_spl := ?pa\<rparr>))\<lparr>intr := (intr (k_spl (s\<lparr>k_spl := ?pa\<rparr>)))(t := \<lparr>t_in_interrupt = False, t_curspl = IPL_HIGH, t_iplhigh_count = 1\<rparr>)\<rparr>\<rparr>"
    using p by (intro machine.equality splstate.equality) simp_all
  have "kinv (insert t {cur}) F c [] ?s0"
    by (subst eq, rule kinv_off [OF ka]) (use tn ne T(5) hF in auto)
  then have k0: "kinv {t, cur} F c [] ?s0" by simp
  have cur0: "cur = curth ?s0 c" using ok(2) by simp
  have tv: "tview ?s0 = tview s" using tn T by (auto simp: tview_def fun_eq_iff)
  have p0: "procs_ok ?s0" using r(3) unfolding procs_ok_def tv by simp
  have kp: "k_kproc s \<in> dom (k_procs s)" using r(3) by (simp add: procs_ok_def)
  have S0: "S = ?s0\<lparr>k_cpus := k_cpus s @ [C], k_lists := h\<rparr>" unfolding S by (rule machine.equality) simp_all
  show ?thesis
    unfolding S0
  proof (rule wp_blind [OF blind_proc_addthread], rule proc_addthread_wp [OF k0 cur0 p0, where T = T], goal_cases)
    case (8 s2)
    note d = kcalmD [OF 8(4)]
    show ?case
    proof (intro impI)
      assume same: "k_cpus s2 = k_cpus ?s0" "k_lists s2 = k_lists ?s0"
      let ?s = "s2\<lparr>k_cpus := k_cpus s @ [C]\<rparr>"
      have eq2: "s2\<lparr>k_cpus := k_cpus s @ [C], k_lists := h\<rparr> = ?s" using same(2) by (intro machine.equality) simp_all
      have dom2: "dom (k_threads s2) = insert t (dom (k_threads s))" using 8(2) by auto
      have T2: "k_threads s2 t = Some (T\<lparr>t_proc := Some (k_kproc s)\<rparr>)" using 8(2) by simp
      have cpus2: "k_cpus s2 = k_cpus s" using same(1) by simp
      have i2: "intr (k_spl s2) t = \<lparr>t_in_interrupt = False, t_curspl = IPL_HIGH, t_iplhigh_count = 1\<rparr>" using d(9) [of t] tc p(1) by simp
      have spl2: "\<not> irqs_on (k_spl s2) n" "c_spinlocks (k_spl s2) n = 0"
        using kcalm_beyond [OF 8(4), of n] n p(2,3) by simp_all
      have "kinv {cur} ?F c [] (s2\<lparr>k_cpus := k_cpus s2 @ [C]\<rparr>)"
        by (rule kinv_add_cpu [OF 8(1) _ tc _ T2]) (use cpus2 ok(2) n T off ne i2 spl2 h dom2 same(2) C in auto)
      then have k: "kinv {cur} ?F c [] ?s" using cpus2 by simp
      have curs: "curth ?s c = cur" "idle ?s c = idle s c" using c ok(2) by (simp_all add: nth_append)
      have offF: "off_lists ?F cur" using r(4) Fn by (auto simp: off_lists_def on_list_def)
      have "procs_ok ?s" using 8(3) by (simp add: procs_ok_def tview_def)
      then have "good ?F c ?s"
        by (intro good_running [OF g(1) ok(2,3) k]) (use 8(2,5) tc curs ok(3) d(10) [of cur] p(1) offF in auto)
      moreover have "sview ?F ?s = (\<lambda>t. fst (tview s t), k_sems s, (\<lambda>w. F (WcThreads w)), k_wchans s, k_lbolt s, Suc (ncpu s))"
        using 8(2) d tn T by (auto simp: sview_def tview_def fun_eq_iff)
      then have "wake_ok ?F ?s" using g(2) by (simp add: sview_def wake_ok_def)
      ultimately show "Q () (s2\<lparr>k_cpus := k_cpus s @ [C], k_lists := h\<rparr>)" unfolding eq2 by (intro Q) (simp add: okay_def)
    qed
  qed (use tc kp T ne in auto)
qed


lemma threads_before: "s\<lparr>k_lists := h, k_spl := p, k_cpus := cs, k_threads := x\<rparr> = s\<lparr>k_threads := x, k_lists := h, k_spl := p, k_cpus := cs\<rparr>" for s :: machine
  by (rule machine.equality) simp_all

lemma cpu_create_okay:
  assumes ok: "okay F c s" "cur = curth s c" "\<not> idle s c" and t: "fresh s t" and n: "\<not> irqs_on (k_spl s) (ncpu s)"
    and Q: "\<And>F' s' r. okay F' c s' \<Longrightarrow> Q r s'"
  shows "wp (cpu_create (Some cur) hw (Some t) name True) Q E s"
proof -
  have g: "good F c s" using ok(1) by (simp_all add: okay_def)
  note r = good_parts [OF g ok(2,3)] and c = good_kinv(2) [OF g]
  let ?n = "ncpu s"
  have Fn: "F (Zombies ?n) = None" "F (Runqueue ?n) = None" using kinvD(10) [OF r(1)] unfolding lists_ok_def by (metis less_irrefl)+
  have t': "t \<notin> dom (k_threads s)" "0 < t" "t < 2 ^ 32" using t by (auto simp: fresh_def)
  have n0: "?n \<noteq> 0" using c by auto
  let ?i = "\<lparr>t_in_interrupt = False, t_curspl = IPL_HIGH, t_iplhigh_count = 1\<rparr>"
  let ?T = "(new_thread name)\<lparr>t_cpu := Some ?n, t_stack := Some (replicate 4 THREAD_STACK_MAGIC)\<rparr>"
  let ?C = "\<lparr>c_number = ?n, c_hardware_number = hw, c_curthread = t, c_hardclocks = 0, c_isidle = False, c_ipi_pending = 0, c_shootdown = []\<rparr>"
  let ?p = "(k_spl s)\<lparr>c_spinlocks := (c_spinlocks (k_spl s))(?n := 0), intr := (intr (k_spl s))(t := ?i)\<rparr>"
  have free: "(spinlocks (k_spl s))(lk := (spinlocks (k_spl s) lk)\<lparr>splk_lock := 0, splk_holder := None\<rparr>) = spinlocks (k_spl s)" for lk
    using kinvD(3) [OF r(1)] by (auto simp: spl_ok_def lock_of_def)
  have join: "wp (proc_addthread cur (k_kproc s) t) (\<lambda>_. Q ?n) E
      (s\<lparr>k_threads := (k_threads s)(t \<mapsto> ?T), k_lists := h, k_spl := ?p, k_cpus := k_cpus s @ [?C]\<rparr>)"
    if "tl_rel (insert t (dom (k_threads s))) (F(Zombies ?n \<mapsto> [], Runqueue ?n \<mapsto> [])) h" for h
    by (rule cpu_join_wp [OF ok t refl n _ _ _ _ _ that, where T = ?T])
      (use Q in \<open>auto simp: new_thread_def stack_ok_def\<close>)
  have "wp (threadlist_init (Zombies ?n)) (\<lambda>_ h1. wp (threadlist_init (Runqueue ?n)) (\<lambda>_ h2. wp (threadlistnode_init t)
      (\<lambda>_ h. wp (proc_addthread cur (k_kproc s) t) (\<lambda>_. Q ?n) E
      (s\<lparr>k_threads := (k_threads s)(t \<mapsto> ?T), k_lists := h, k_spl := ?p, k_cpus := k_cpus s @ [?C]\<rparr>)) R3 h2) R2 h1) R1 (k_lists s)" for R1 R2 R3
    by (rule wp_conseq [OF threadlist_init_wp [OF kinvD(1) [OF r(1)]]], use Fn in simp,
        rule wp_conseq [OF threadlist_init_wp], assumption, use Fn in simp,
        rule wp_conseq [OF threadlistnode_init_wp [OF _ t']], assumption, rule join, assumption) simp_all
  then show ?thesis
    using n0 free
    by (simp add: cpu_create_def thread_create_def spinlock_init_def spinlock_data_set_def upd_lock_def upd_intr_def
      thread_checkstack_init_def nth_append new_thread_def threads_before)
qed


subsection \<open>The first processor\<close>

text \<open>
  The machine when \<open>thread_bootstrap\<close> is called: there is the process \<open>kproc\<close>, without threads, and
  nothing else; all locks are free and interrupts are off.
\<close>

definition bare :: "machine \<Rightarrow> bool" where
  "bare s \<longleftrightarrow> k_cpus s = [] \<and> k_threads s = Map.empty \<and> k_wchans s = Map.empty \<and> k_sems s = Map.empty \<and>
     (\<exists>R. k_procs s = [k_kproc s \<mapsto> R] \<and> p_numthreads R = 0) \<and>
     spinlocks (k_spl s) = (\<lambda>_. \<lparr>splk_lock = 0, splk_holder = None\<rparr>) \<and> irqs_on (k_spl s) = (\<lambda>_. False)"

text \<open>Taking a thread into a process on the only processor there is.\<close>

lemma first_addthread_wp:
  assumes p: "spl_ok t 0 [] (k_spl s)" "t_curspl (intr (k_spl s) t) = IPL_HIGH"
    and T: "k_threads s t = Some T" "t_cpu T = Some 0" "t_proc T = None" and R: "k_procs s q = Some R"
    and Q: "\<And>p'. spl_ok t 0 [] p' \<Longrightarrow> spl_frame t 0 (k_spl s) p' \<Longrightarrow> t_curspl (intr p' t) = IPL_HIGH \<Longrightarrow>
      Q () (s\<lparr>k_procs := (k_procs s)(q \<mapsto> R\<lparr>p_numthreads := p_numthreads R + 1\<rparr>), k_threads := (k_threads s)(t \<mapsto> T\<lparr>t_proc := Some q\<rparr>), k_spl := p'\<rparr>)"
  shows "wp (proc_addthread t q t) Q E s"
proof -
  have "wp (spinlock_acquire t 0 (ProcLock q)) (\<lambda>_ p1. wp (spinlock_release t 0 (ProcLock q)) (\<lambda>_ p2. wp (splx t 0 IPL_HIGH) (\<lambda>spl p3.
      wp (splx t 0 spl) (\<lambda>_ p'. Q () (s\<lparr>k_procs := (k_procs s)(q \<mapsto> R\<lparr>p_numthreads := p_numthreads R + 1\<rparr>),
        k_threads := (k_threads s)(t \<mapsto> T\<lparr>t_proc := Some q\<rparr>), k_spl := p'\<rparr>)) E4 p3) E3 p2) E2 p1) E1 (k_spl s)" for E1 E2 E3 E4
  proof (rule spinlock_acquire_wp [OF p(1)], goal_cases)
    case (3 p1)
    show ?case
    proof (rule spinlock_release_wp [OF 3(1)], simp, goal_cases)
      case (1 p2)
      have p2: "spl_ok t 0 [] p2" "t_curspl (intr p2 t) = IPL_HIGH" using 1 3 p(2) by simp_all
      show ?case
        by (rule splx_wp [OF p2(1)], simp, rule splx_wp, assumption, use p2 in simp, rule Q)
          (use 1 3 p2 in \<open>auto intro: spl_frame_trans\<close>)
    qed
  qed auto
  then show ?thesis
    using T R by (simp add: proc_addthread_def acquire_def release_def set_spl_def curcpu_def)
qed


definition boot_lists :: "nat \<Rightarrow> listid \<rightharpoonup> tid list" where
  "boot_lists w = [Zombies 0 \<mapsto> [], Runqueue 0 \<mapsto> [], WcThreads w \<mapsto> []]"

text \<open>The boot thread, with its processor and \<open>lbolt\<close>, is a state between operations.\<close>

lemma booted_okay:
  assumes cpus: "k_cpus s = [C]" "c_curthread C = t" "\<not> c_isidle C" "c_ipi_pending C = 0"
    and T: "k_threads s = [t \<mapsto> T]" "t_cpu T = Some 0" "t_proc T = Some (k_kproc s)" "t_context T = []" "t_state T = S_READY" "t_stack T = None"
    and R: "k_procs s = [k_kproc s \<mapsto> R]" "p_numthreads R = 1" and sems: "k_sems s = Map.empty"
    and w: "k_wchans s = [w \<mapsto> nm]" "k_lbolt s = w"
    and p: "spl_ok t 0 [] (k_spl s)" "\<not> in_irq s t" and h: "tl_rel {t} (boot_lists w) (k_lists s)"
  shows "okay (boot_lists w) 0 s"
proof -
  have off: "off_lists (boot_lists w) u" for u by (auto simp: off_lists_def on_list_def boot_lists_def split: if_splits)
  have noton: "\<not> on_list (boot_lists w) u l" for u l using off unfolding off_lists_def by blast
  have "kinv {t} (boot_lists w) 0 [] s"
  proof (rule kinvI)
    show "lists_ok (boot_lists w) s" using cpus w by (auto simp: lists_ok_def boot_lists_def)
    show "sems_ok s" using sems w by (simp add: sems_ok_def)
  qed (use cpus T p h noton in \<open>auto simp: stack_ok_def split: if_splits\<close>)
  then have "rest (boot_lists w) 0 s"
    by (intro restI [where T = T]) (use cpus T p off in \<open>auto simp: frames_ok_def base_ok_def entry_ok_def\<close>)
  moreover have "{u. snd (tview s u) = Some (k_kproc s)} = {t}" using T by (auto simp: tview_def split: if_splits)
  then have "procs_ok s" using R T by (auto simp: procs_ok_def tview_def split: if_splits)
  moreover have "wake_ok (boot_lists w) s" using T sems by (auto simp: wake_ok_def wake_inv_def tview_def split: if_splits)
  ultimately show ?thesis by (simp add: okay_def good_def)
qed

lemma first_clock_wp:
  assumes h: "tl_rel {t} [Zombies 0 \<mapsto> [], Runqueue 0 \<mapsto> []] (k_lists s)" and sp: "spl_ok t 0 [] (k_spl s)"
    and Q: "\<And>h. tl_rel {t} (boot_lists w) h \<Longrightarrow> Q () (s\<lparr>k_lists := h, k_wchans := (k_wchans s)(w \<mapsto> ''lbolt''), k_lbolt := w\<rparr>)"
  shows "wp (hardclock_bootstrap (Some w)) Q E s"
proof -
  have free: "(spinlocks (k_spl s))(lk := (spinlocks (k_spl s) lk)\<lparr>splk_lock := 0, splk_holder := None\<rparr>) = spinlocks (k_spl s)" for lk
    using sp by (auto simp: spl_ok_def lock_of_def)
  have "wp (threadlist_init (WcThreads w)) (\<lambda>_ h. Q () (s\<lparr>k_lists := h, k_wchans := (k_wchans s)(w \<mapsto> ''lbolt''), k_lbolt := w\<rparr>)) R (k_lists s)" for R
    by (rule wp_conseq [OF threadlist_init_wp [OF h]]) (auto intro!: Q simp: boot_lists_def)
  then show ?thesis
    using free by (simp add: hardclock_bootstrap_def wchan_create_def spinlock_init_def spinlock_data_set_def upd_lock_def)
qed

lemma boot_okay:
  assumes b: "bare s" and t: "0 < t" "t < 2 ^ 32"
    and Q: "\<And>s'. okay (boot_lists w) 0 s' \<Longrightarrow> ncpu s' = 1 \<Longrightarrow> curth s' 0 = t \<Longrightarrow> \<not> idle s' 0 \<Longrightarrow>
      (\<exists>T. k_threads s' = [t \<mapsto> T] \<and> t_context T = []) \<Longrightarrow> k_sems s' = Map.empty \<Longrightarrow> k_wchans s' = [w \<mapsto> ''lbolt''] \<Longrightarrow> Q () s'"
  shows "wp (kthen (thread_bootstrap (Some t) name True) (hardclock_bootstrap (Some w))) Q E s"
proof -
  obtain R where R: "k_procs s = [k_kproc s \<mapsto> R]" "p_numthreads R = 0" using b by (auto simp: bare_def)
  have bs: "k_cpus s = []" "k_threads s = Map.empty" "k_wchans s = Map.empty" "k_sems s = Map.empty"
    "spinlocks (k_spl s) = (\<lambda>_. \<lparr>splk_lock = 0, splk_holder = None\<rparr>)" "irqs_on (k_spl s) = (\<lambda>_. False)"
    using b by (simp_all add: bare_def)
  let ?i = "\<lparr>t_in_interrupt = False, t_curspl = IPL_HIGH, t_iplhigh_count = 1\<rparr>"
  let ?T = "(new_thread name)\<lparr>t_cpu := Some 0\<rparr>"
  let ?C = "\<lparr>c_number = 0, c_hardware_number = 0, c_curthread = t, c_hardclocks = 0, c_isidle = False, c_ipi_pending = 0, c_shootdown = []\<rparr>"
  let ?p = "(k_spl s)\<lparr>c_spinlocks := (c_spinlocks (k_spl s))(0 := 0), intr := (intr (k_spl s))(t := ?i)\<rparr>"
  let ?s = "\<lambda>h. s\<lparr>k_threads := [t \<mapsto> ?T], k_lists := h, k_spl := ?p, k_cpus := [?C]\<rparr>"
  have sp: "spl_ok t 0 [] ?p" using bs by (auto simp: spl_ok_def lock_of_def fun_eq_iff ipl_defs)
  let ?K = "kbind (on_cpu 0 (kget c_curthread)) (\<lambda>cur. kbind (on_thread cur (kget t_proc)) (\<lambda>p.
      kthen (kassert (\<lambda>_. p \<noteq> None)) (kassert (\<lambda>s. p = Some (k_kproc s)))))"
  let ?Q = "wp (kthen ?K (hardclock_bootstrap (Some w))) Q E"
  have join: "wp (proc_addthread t (k_kproc s) t) (\<lambda>_. ?Q) E (?s h)" if h: "tl_rel {t} [Zombies 0 \<mapsto> [], Runqueue 0 \<mapsto> []] h" for h
  proof (rule first_addthread_wp [where T = ?T and R = R], goal_cases)
    case (7 p')
    let ?s' = "?s h\<lparr>k_procs := (k_procs (?s h))(k_kproc s \<mapsto> R\<lparr>p_numthreads := p_numthreads R + 1\<rparr>),
      k_threads := (k_threads (?s h))(t \<mapsto> ?T\<lparr>t_proc := Some (k_kproc s)\<rparr>), k_spl := p'\<rparr>"
    have "wp (hardclock_bootstrap (Some w)) Q E ?s'"
      by (rule first_clock_wp [where t = t], use h in simp, use 7 in simp)
        (rule Q, rule booted_okay [where t = t and C = ?C and T = "?T\<lparr>t_proc := Some (k_kproc s)\<rparr>" and R = "R\<lparr>p_numthreads := 1\<rparr>"],
          use R bs 7 in \<open>auto simp: new_thread_def spl_frame_def\<close>)
    then show ?case by simp
  qed (use sp R in \<open>simp_all add: new_thread_def\<close>)
  have e: "tl_rel {} (Map.empty :: listid \<rightharpoonup> tid list) (k_lists s)" by (simp add: tl_rel_def on_list_def)
  have "wp (threadlist_init (Zombies 0)) (\<lambda>_ h1. wp (threadlist_init (Runqueue 0)) (\<lambda>_ h2. wp (threadlistnode_init t)
      (\<lambda>_ h. wp (proc_addthread t (k_kproc s) t) (\<lambda>_. ?Q) E (?s h)) R3 h2) R2 h1) R1 (k_lists s)" for R1 R2 R3
    by (rule wp_conseq [OF threadlist_init_wp [OF e]], simp,
        rule wp_conseq [OF threadlist_init_wp], assumption, simp,
        rule wp_conseq [OF threadlistnode_init_wp [OF _ _ t]], assumption, simp, rule join, assumption) simp_all
  moreover have free: "(spinlocks (k_spl s))(lk := (spinlocks (k_spl s) lk)\<lparr>splk_lock := 0, splk_holder := None\<rparr>) = spinlocks (k_spl s)" for lk
    using bs(5) by auto
  ultimately show ?thesis
    using bs(1-4)
    by (simp add: thread_bootstrap_def cpu_create_def thread_create_def spinlock_init_def spinlock_data_set_def upd_lock_def upd_intr_def
      new_thread_def threads_before)
qed

end
