(* ===== verification/Kern_Sched.thy ===== *)
theory Kern_Sched
  imports Kern_Boot
begin

text \<open>
  The calls of threads as whole steps, the processors taking turns, and the theorems about every
  state they can reach.
\<close>

subsection \<open>Calls that may sleep\<close>

text \<open>
  \<open>P\<close>, from the top or after a wakeup: \<open>s0\<close> is the state before, in which the thread may still have
  been counted among those in \<open>P\<close>.
\<close>

lemma lock_P_okay:
  assumes g: "good F c s" "cur = curth s c" "\<not> idle s c" and T: "k_threads s cur = Some T" "entry_ok (t_context T)"
    and s0: "kinv Y F c held s0" "wake_ok F s0" "k_sems s = k_sems s0" "\<And>t. t \<noteq> cur \<Longrightarrow> tview s t = tview s0 t"
      "fst (tview s0 cur) \<in> {None, Some i}" and i: "i \<in> dom (k_sems s)"
    and Q: "\<And>F' s'. okay F' c s' \<Longrightarrow> Q () s'"
  shows "wp (kthen (acquire cur (SemLock i)) (P_loop cur i)) Q E s"
proof -
  obtain S where S: "k_sems s i = Some S" "k_sems s0 i = Some S" using i s0(3) by auto
  note p = good_parts [OF g]
  obtain ws where ws: "F (WcThreads (sem_wchan S)) = Some ws" using sem_wchan_some [OF p(1) S(1)] by blast
  have cur: "cur \<notin> set ws" using p(4) ws by (auto simp: off_lists_def on_list_def)
  show ?thesis
  proof (rule lock_P_wp [OF g S(1) ws T])
    fix F' s' assume a: "sem_count S = 0" "good F' c s'"
      "sview F' s' = sview (F(WcThreads (sem_wchan S) \<mapsto> ws @ [cur])) (s\<lparr>k_threads := (k_threads s)(cur \<mapsto> T\<lparr>t_context := InP i # t_context T\<rparr>)\<rparr>)"
    let ?s = "s\<lparr>k_threads := (k_threads s)(cur \<mapsto> T\<lparr>t_context := InP i # t_context T\<rparr>)\<rparr>"
    have "wake_inv (\<lambda>t. fst (tview ?s t)) (k_sems s0) (\<lambda>v. (F(WcThreads (sem_wchan S) \<mapsto> ws @ [cur])) (WcThreads v))"
      by (rule wake_P_sleep [OF s0(1,2) S(2) a(1) s0(5)]) (use s0(4) in \<open>auto simp: tview_def\<close>)
    then have "wake_ok (F(WcThreads (sem_wchan S) \<mapsto> ws @ [cur])) ?s" using s0(3) by (simp add: wake_ok_def)
    then show "Q () s'" by (intro Q [of F']) (use a(2) wake_sview [OF a(3)] in \<open>simp add: okay_def\<close>)
  next
    fix F' s' assume a: "sem_count S \<noteq> 0" "good F' c s'"
      "sview F' s' = sview F (s\<lparr>k_sems := (k_sems s)(i \<mapsto> S\<lparr>sem_count := sem_count S - 1\<rparr>)\<rparr>)"
    let ?s = "s\<lparr>k_sems := (k_sems s)(i \<mapsto> S\<lparr>sem_count := sem_count S - 1\<rparr>)\<rparr>"
    have "wake_inv (\<lambda>t. fst (tview ?s t)) ((k_sems s0)(i \<mapsto> S\<lparr>sem_count := sem_count S - 1\<rparr>)) (\<lambda>v. F (WcThreads v))"
      by (rule wake_P_go [OF s0(1,2) S(2) a(1) ws cur s0(5)]) (use s0(4) T pend_entry [OF T(2)] in \<open>auto simp: tview_def\<close>)
    then have "wake_ok F ?s" using s0(3) by (simp add: wake_ok_def)
    then show "Q () s'" by (intro Q [of F']) (use a(2) wake_sview [OF a(3)] in \<open>simp add: okay_def\<close>)
  qed
qed

lemma lock_clocksleep_okay:
  assumes g: "good F c s" "cur = curth s c" "\<not> idle s c" "wake_ok F s" and T: "k_threads s cur = Some T" "entry_ok (t_context T)"
    and Q: "\<And>F' s'. okay F' c s' \<Longrightarrow> Q () s'"
  shows "wp (kthen (acquire cur LboltLock) (clocksleep_loop cur n)) Q E s"
proof -
  note p = good_parts [OF g(1-3)]
  obtain ws where ws: "F (WcThreads (k_lbolt s)) = Some ws"
    using kinvD(11) [OF p(1)] wchan_some [OF p(1), of "k_lbolt s"] by (auto simp: sems_ok_def)
  have ne: "sem_wchan S \<noteq> k_lbolt s" if "k_sems s i = Some S" for i S
    using kinvD(11) [OF p(1)] that unfolding sems_ok_def by blast
  then have w: "wake_ok (F(WcThreads (k_lbolt s) \<mapsto> ws @ [cur])) s"
    using g(4) unfolding wake_ok_def wake_inv_def by simp
  show ?thesis
    by (rule lock_clocksleep_wp [OF g(1-3) ws T])
      (auto simp: okay_def intro!: Q intro: wake_sview [OF _ w] wake_sview [OF _ g(4)])
qed

subsection \<open>Going on\<close>

lemma go_on_okay:
  assumes ok: "okay F c s" "cur = curth s c" "\<not> idle s c" and T: "k_threads s cur = Some T" "t_context T \<noteq> []"
    and Q: "\<And>F' s'. okay F' c s' \<Longrightarrow> Q () s'"
  shows "wp (go_on cur) Q E s"
proof -
  have g: "good F c s" "wake_ok F s" using ok(1) by (simp_all add: okay_def)
  note p = good_parts [OF g(1) ok(2,3)]
  have f: "frames_ok (in_irq s cur) (lvl s cur) (t_context T)" using p(2) ok(2) T(1) by (auto simp: running_ok_def)
  let ?pop = "\<lambda>r. s\<lparr>k_threads := (k_threads s)(cur \<mapsto> T\<lparr>t_context := r\<rparr>)\<rparr>"
  have pop: "wp (pop_frame cur) R E s" if "R () (?pop (tl (t_context T)))" for R
    using T(1) that by (simp add: pop_frame_def)
  from T(2) obtain fr r where ctx: "t_context T = fr # r" by (cases "t_context T") auto
  consider (irq) "fr = InIrq False True" "in_irq s cur" "lvl s cur = IPL_HIGH" "base_ok r"
    | (P) i where "fr = InP i" "\<not> in_irq s cur" "entry_ok r"
    | (sleep) n where "fr = InClocksleep n" "\<not> in_irq s cur" "entry_ok r"
    | (entry) e d1 d2 where "fr = InEntry e d1 d2" "\<not> in_irq s cur" "entry_ok (t_context T)"
    using f ctx by (cases fr) (auto simp: frames_ok_def base_ok_def entry_ok_def)
  then show ?thesis
  proof cases
    case irq
    let ?s = "?pop r"
    have k: "kinv {cur} F c [] ?s" by (rule kinv_cur [OF p(1) ok(2) T(1)]) simp_all
    have cur: "cur = curth ?s c" "lvl ?s cur = IPL_HIGH" using ok(2) irq(3) by simp_all
    have "wp (irq_leave cur False True True) Q E ?s"
    proof (rule irq_leave_run [OF k cur])
      fix pp assume pp: "intr pp = (intr (k_spl ?s))(cur := \<lparr>t_in_interrupt = False, t_curspl = IPL_NONE, t_iplhigh_count = 0\<rparr>)"
        "kinv {cur} F c [] (?s\<lparr>k_spl := pp\<rparr>)"
      let ?s2 = "?s\<lparr>k_spl := pp\<rparr>"
      have "r \<noteq> InIrq a b # r'" for a b r' using base_no_irq [OF irq(4)] by (metis has_irq_def list.set_intros(1))
      then have "frames_ok False IPL_NONE r" using irq(4) by (auto simp: frames_ok_def split: list.splits frame.splits)
      then have "rest F c ?s2"
        by (intro restI [OF pp(2), where T = "T\<lparr>t_context := r\<rparr>"]) (use ok(2,3) p(2,4) T(1) pp(1) in \<open>auto simp: running_ok_def\<close>)
      moreover have "procs_ok ?s2" by (rule procs_ok_cong [OF p(3)]) (use T(1) in \<open>auto simp: tview_def\<close>)
      moreover have "sview F ?s2 = sview F s" using T(1) ctx irq(1) by (auto simp: sview_def tview_def fun_eq_iff)
      ultimately show "Q () ?s2" by (intro Q [OF okay_sview [OF ok(1)]]) (simp_all add: good_def)
    qed
    then show ?thesis using pop T(1) ctx irq(1) by (simp add: go_on_def)
  next
    case (P i)
    let ?s = "?pop r"
    have pd: "fst (tview s cur) = Some i" using T(1) ctx P(1) by (simp add: tview_def)
    have g2: "good F c ?s"
      by (rule good_pop [OF g(1) ok(2,3) T(1)]) (use P in \<open>auto simp: frames_ok_def entry_ok_def base_ok_def\<close>)
    have "wp (kthen (acquire cur (SemLock i)) (P_loop cur i)) Q E ?s"
      by (rule lock_P_okay [OF g2 _ _ _ _ p(1) g(2), where T = "T\<lparr>t_context := r\<rparr>"])
        (use ok(2,3) P(3) Q pd wake_dom [OF g(2) pd] in \<open>auto simp: tview_def\<close>)
    then show ?thesis using pop T(1) ctx P(1) by (simp add: go_on_def)
  next
    case (sleep n)
    let ?s = "?pop r"
    have g2: "good F c ?s"
      by (rule good_pop [OF g(1) ok(2,3) T(1)]) (use sleep in \<open>auto simp: frames_ok_def entry_ok_def base_ok_def\<close>)
    have "sview F ?s = sview F s" using T(1) ctx sleep(1) pend_entry [OF sleep(3)] by (auto simp: sview_def tview_def fun_eq_iff)
    then have w2: "wake_ok F ?s" by (rule wake_sview [OF _ g(2)])
    have "wp (kthen (acquire cur LboltLock) (clocksleep_loop cur (n - 1))) Q E ?s"
      by (rule lock_clocksleep_okay [OF g2 _ _ w2, where T = "T\<lparr>t_context := r\<rparr>"]) (use ok(2,3) sleep(3) Q in auto)
    then show ?thesis using pop T(1) ctx sleep(1) by (simp add: go_on_def)
  next
    case (entry e d1 d2)
    have "wp (thread_exit cur) Q E s"
      by (rule thread_exit_wp [OF g(1) ok(2,3) T(1) entry(3)]) (use Q okay_sview [OF ok(1)] in blast)
    then show ?thesis using T(1) ctx entry(1) by (simp add: go_on_def)
  qed
qed


subsection \<open>The view of another processor\<close>

lemma good_other:
  assumes g: "good F c s" and c': "c' < ncpu s"
  shows "good F c' s"
proof (cases "c' = c")
  case False
  have r: "rest F c s" "procs_ok s" using g by (simp_all add: good_def)
  have k: "kinv (mine s c) F c [] s" using good_kinv(1) [OF g] .
  note c = kinvD(2) [OF k]
  have o: "other_ok F s c'" using kinvD(5) [OF k c' False] .
  have me: "other_ok F s c"
    using r(1) kinvD(3) [OF k] by (auto simp: other_ok_def rest_def Let_def spl_ok_def ipl_defs)
  have mine: "off_lists F t" if "t \<in> mine s c" for t using good_mine [OF g that] .
  have "kinv (mine s c') F c' [] s"
  proof (rule kinvI)
    show "spl_ok (curth s c') c' [] (k_spl s)"
      using o kinvD(3) [OF k] by (auto simp: other_ok_def Let_def spl_ok_def lock_of_def fun_eq_iff)
    show "other_ok F s c''" if "c'' < ncpu s" "c'' \<noteq> c'" for c''
      using me kinvD(5) [OF k that(1)] by (cases "c'' = c") auto
    show "listed_ok s l t" if "on_list F t l" "t \<notin> mine s c'" for t l
    proof (rule kinvD(6) [OF k that(1)])
      show "t \<notin> mine s c" using mine [of t] that(1) unfolding off_lists_def by blast
    qed
    show "\<exists>c'' < ncpu s. c'' \<noteq> c' \<and> \<not> idle s c'' \<and> curth s c'' = t" if t: "k_threads s t = Some T" "t \<notin> mine s c'" "off_lists F t" for t T
    proof (cases "t \<in> mine s c")
      case True
      then show ?thesis using c False by (intro exI [of _ c]) (auto split: if_splits)
    next
      case out: False
      then show ?thesis using kinvD(7) [OF k t(1) _ t(3)] t(2) by (auto split: if_splits)
    qed
    show "parked (k_spl s) t T" if t: "k_threads s t = Some T" "\<forall>c < ncpu s. curth s c \<noteq> t" for t T
      by (rule kinvD(8) [OF k t]) (use t(2) c in \<open>auto split: if_splits\<close>)
  qed (use c' kinvD(1,4,9-12) [OF k] in simp_all)
  then show ?thesis using r(2) o by (auto simp: good_def rest_def other_ok_def Let_def split: if_splits)
qed (use g in simp)

lemma okay_other: "okay F c s \<Longrightarrow> c' < ncpu s \<Longrightarrow> okay F c' s"
  using good_other by (auto simp: okay_def)

subsection \<open>The remaining calls\<close>

lemma spl_okay:
  assumes ok: "okay F c s" "cur = curth s c" "\<not> idle s c" and T: "k_threads s cur = Some T" "entry_ok (t_context T)"
    and i: "i \<in> {IPL_NONE, IPL_HIGH}"
    and Q: "\<And>r s'. okay F c s' \<Longrightarrow> steady cur s s' \<Longrightarrow> Q r s'"
  shows "wp (set_spl cur i) Q E s"
proof -
  have g: "good F c s" using ok(1) by (simp add: okay_def)
  note p = good_parts [OF g ok(2,3)]
  show ?thesis
  proof (rule set_spl_wp [OF p(1) ok(2) i])
    fix s' assume s': "kinv {cur} F c [] s'" "steady cur s s'" "lvl s' cur = i"
    note d = kcalmD [OF steady_calm [OF s'(2)]] steadyD [OF s'(2)]
    have c: "c < ncpu s" by (rule good_kinv(2) [OF g])
    obtain T' where T': "k_threads s cur = Some T'" "t_state T' \<in> {S_RUN, S_READY}" "t_proc T' \<noteq> None"
      "frames_ok (in_irq s cur) (lvl s cur) (t_context T')" "off_lists F cur"
      using p(2) ok(2) by (auto simp: running_ok_def)
    have "\<not> in_irq s cur" using frames_irq [OF T'(4)] T'(1) T entry_no_irq [OF T(2)] by auto
    then have "frames_ok (in_irq s' cur) i (t_context T')"
      using T'(1) T d by (auto simp: frames_ok_def base_ok_def entry_ok_def)
    then have "running_ok F s' c" using T' d c ok(2) s'(3) by (auto simp: running_ok_def)
    moreover have "curth s' c = cur" "\<not> idle s' c" using d c ok(2,3) by simp_all
    moreover have "procs_ok s'" by (rule procs_ok_cong [OF p(3)]) (use d tview_steady [OF s'(2)] in simp_all)
    ultimately have "good F c s'" using s'(1) by (simp add: good_def rest_def)
    then have "okay F c s'" by (rule okay_sview [OF ok(1)]) (use d tview_steady [OF s'(2)] in \<open>simp add: sview_def\<close>)
    then show "Q (lvl s cur) s'" using s'(2) by (rule Q)
  qed
qed

lemma V_okay:
  assumes ok: "okay F c s" "cur = curth s c" and S: "k_sems s i = Some S" "sem_count S \<noteq> -1"
    and Q: "\<And>F' s'. okay F' c s' \<Longrightarrow> handled (mine s c) cur F s F' s' \<Longrightarrow> Q () s'"
  shows "wp (V cur i) Q E s"
proof -
  have g: "good F c s" "wake_ok F s" using ok(1) by (simp_all add: okay_def)
  show ?thesis
    by (rule V_keeps [OF good_kinv(1) [OF g(1)] ok(2) g(2) good_mine [OF g(1)] _ S])
      (use Q okay_handled [OF ok] ok(2) in auto)
qed

lemma exit_okay:
  assumes ok: "okay F c s" "cur = curth s c" "\<not> idle s c" and T: "k_threads s cur = Some T" "entry_ok (t_context T)"
    and Q: "\<And>F' s'. okay F' c s' \<Longrightarrow> Q () s'"
  shows "wp (thread_exit cur) Q E s"
  by (rule thread_exit_wp [OF _ ok(2,3) T]) (use ok(1) Q okay_sview [OF ok(1)] in \<open>auto simp: okay_def\<close>)

lemma hatch_okay:
  assumes ok: "okay F c s" "cur = curth s c" "\<not> idle s c" and T: "k_threads s cur = Some T" "entry_ok (t_context T)"
    and S: "k_sems s i = Some S" "sem_count S \<noteq> -1" and n: "c_number (k_cpus s ! c) = n"
    and Q: "\<And>F' s'. okay F' c s' \<Longrightarrow> Q () s'"
  shows "wp (cpu_hatch cur i n) Q E s"
proof -
  have g: "good F c s" using ok(1) by (simp add: okay_def)
  note p = good_parts [OF g ok(2,3)] and c = good_kinv(2) [OF g]
  have "wp (set_spl cur IPL_NONE) (\<lambda>_. wp (V cur i) (\<lambda>_. wp (thread_exit cur) Q E) E) E s"
  proof (rule spl_okay [OF ok T])
    fix s1 assume s1: "okay F c s1" "steady cur s s1"
    note d = kcalmD [OF steady_calm [OF s1(2)]] steadyD [OF s1(2)]
    have cur1: "cur = curth s1 c" "\<not> idle s1 c" "k_threads s1 cur = Some T" using d c ok(2,3) T(1) by simp_all
    show "wp (V cur i) (\<lambda>_. wp (thread_exit cur) Q E) E s1"
    proof (rule V_okay [OF s1(1) cur1(1)])
      fix F2 s2 assume s2: "okay F2 c s2" "handled (mine s1 c) cur F s1 F2 s2"
      note h = handledD [OF s2(2)]
      show "wp (thread_exit cur) Q E s2"
        by (rule exit_okay [OF s2(1) _ _ _ T(2)]) (use Q h(2,3) [of c] h(9) [of cur] cur1 d(1) c in auto)
    qed (use d S in auto)
  qed simp
  then show ?thesis
    unfolding cpu_hatch_def wp_kbind using n c
    by (simp del: wp_kbind) (rule curcpu_wp [OF p(1) ok(2)], simp)
qed

lemma yield_okay:
  assumes ok: "okay F c s" "cur = curth s c" "\<not> idle s c" and Q: "\<And>F' s'. okay F' c s' \<Longrightarrow> Q () s'"
  shows "wp (thread_yield cur) Q E s"
proof -
  have g: "good F c s" using ok(1) by (simp add: okay_def)
  note p = good_parts [OF g ok(2,3)]
  show ?thesis
  proof (rule yield_running_wp [OF p(1) ok(2,3) p(2,3)])
    fix F' s' assume r: "rest F' c s'" "view F' s' = view F s"
    show "Q () s'"
      by (rule Q, rule okay_sview [OF ok(1) _ view_sview [OF r(2)]]) (use r(1) view_procs [OF r(2) p(3)] in \<open>simp add: good_def\<close>)
  qed
qed

lemma idle_okay:
  assumes ok: "okay F c s" "cur = curth s c" "idle s c" and Q: "\<And>F' s'. okay F' c s' \<Longrightarrow> Q () s'"
  shows "wp (thread_switch_idle cur) Q E s"
proof -
  have g: "rest F c s" "procs_ok s" using ok(1) by (simp_all add: okay_def good_def)
  show ?thesis
  proof (rule thread_switch_idle_wp [OF g(1) ok(2,3) g(2)])
    fix F' s' assume r: "rest F' c s'" "view F' s' = view F s"
    show "Q () s'"
      by (rule Q, rule okay_sview [OF ok(1) _ view_sview [OF r(2)]]) (use r(1) view_procs [OF r(2) g(2)] in \<open>simp add: good_def\<close>)
  qed
qed

lemma P_okay:
  assumes ok: "okay F c s" "cur = curth s c" "\<not> idle s c" and T: "k_threads s cur = Some T" "entry_ok (t_context T)"
    and i: "i \<in> dom (k_sems s)" and Q: "\<And>F' s'. okay F' c s' \<Longrightarrow> Q () s'"
  shows "wp (P cur i) Q E s"
proof -
  have g: "good F c s" "wake_ok F s" using ok(1) by (simp_all add: okay_def)
  note p = good_parts [OF g(1) ok(2,3)]
  have f: "frames_ok (in_irq s cur) (lvl s cur) (t_context T)" using p(2) ok(2) T(1) by (auto simp: running_ok_def)
  have "wp (kthen (acquire cur (SemLock i)) (P_loop cur i)) Q E s"
    by (rule lock_P_okay [OF g(1) ok(2,3) T p(1) g(2) _ _ _ i]) (use Q T pend_entry [OF T(2)] in \<open>auto simp: tview_def\<close>)
  then show ?thesis using frames_irq [OF f] entry_no_irq [OF T(2)] by (simp add: P_def)
qed

lemma clocksleep_okay:
  assumes ok: "okay F c s" "cur = curth s c" "\<not> idle s c" and T: "k_threads s cur = Some T" "entry_ok (t_context T)"
    and Q: "\<And>F' s'. okay F' c s' \<Longrightarrow> Q () s'"
  shows "wp (clocksleep cur n) Q E s"
proof -
  have g: "good F c s" "wake_ok F s" using ok(1) by (simp_all add: okay_def)
  show ?thesis unfolding clocksleep_def by (rule lock_clocksleep_okay [OF g(1) ok(2,3) g(2) T]) (rule Q)
qed

lemma fork_okay:
  assumes ok: "okay F c s" "cur = curth s c" "\<not> idle s c" and nt: "\<And>t. nt = Some t \<Longrightarrow> fresh s t"
    and p: "\<And>p. proc = Some p \<Longrightarrow> p \<in> dom (k_procs s)"
    and Q: "\<And>F' s'. okay F' c s' \<Longrightarrow> Q () s'" and E: "\<And>F' s'. okay F' c s' \<Longrightarrow> E ENOMEM s'"
  shows "wp (thread_fork cur name proc entrypoint data1 data2 nt kstrdup_ok got_stack) Q E s"
proof -
  have g: "good F c s" using ok(1) by (simp add: okay_def)
  show ?thesis by (rule thread_fork_wp [OF g ok(2,3) nt p]) (blast intro: Q E okay_sview [OF ok(1)])+
qed

subsection \<open>Steps of the machine\<close>

text \<open>
  What can happen next on a processor: its thread makes a call, goes on with one, is interrupted, or
  the idle processor looks at its run queue or is interrupted. The arguments that are memory say what
  \<open>kmalloc\<close> returns.
\<close>

datatype event =
    Fork string "nat option" nat nat nat "tid option" bool bool
  | Yield | Exit | PSem nat | VSem nat | Clocksleep int | Spl int
  | SemCreate string u32w "nat option" bool "nat option" | ProcCreate string "nat option" bool
  | CpuCreate u32w tid string | Hatch nat nat
  | GoOn | Irq irq | Idle | IdleIrq irq

definition does :: "('s, 'a) kfun \<Rightarrow> ('s, unit) kfun" where
  "does m = kbind m (\<lambda>_. kret ())"

lemma wp_does [simp]: "wp (does m) Q E = wp m (\<lambda>_. Q ()) E"
  by (simp add: does_def)

fun thread_step :: "tid \<Rightarrow> event \<Rightarrow> unit kern" where
  "thread_step cur (Fork name proc e d1 d2 nt kstrdup_ok got_stack) = thread_fork cur name proc e d1 d2 nt kstrdup_ok got_stack"
| "thread_step cur Yield = thread_yield cur"
| "thread_step cur Exit = thread_exit cur"
| "thread_step cur (PSem i) = P cur i"
| "thread_step cur (VSem i) = V cur i"
| "thread_step cur (Clocksleep n) = clocksleep cur n"
| "thread_step cur (Spl i) = does (set_spl cur i)"
| "thread_step cur (SemCreate name n ns kstrdup_ok nw) = does (sem_create name n ns kstrdup_ok nw)"
| "thread_step cur (ProcCreate name np kstrdup_ok) = does (proc_create name np kstrdup_ok)"
| "thread_step cur (CpuCreate hw t name) = does (cpu_create (Some cur) hw (Some t) name True)"
| "thread_step cur (Hatch i n) = cpu_hatch cur i n"
| "thread_step cur GoOn = go_on cur"
| "thread_step cur (Irq q) = trap_irq cur q"
| "thread_step cur Idle = thread_switch_idle cur"
| "thread_step cur (IdleIrq q) = idle_irq cur q"

definition kstep :: "cpuid \<Rightarrow> event \<Rightarrow> unit kern" where
  "kstep c ev = kbind (on_cpu c (kget c_curthread)) (\<lambda>cur. thread_step cur ev)"

text \<open>
  When it can happen. A thread that makes a call is not in the middle of another one; a block of
  memory is one that is not in use; \<open>V\<close> and the interrupt of a device do not bring a count past its
  last value; an interrupt comes when the processor has interrupts on.
\<close>

fun at_entry :: "frame list \<Rightarrow> bool" where
  "at_entry [] = True"
| "at_entry [InEntry e d1 d2] = True"
| "at_entry _ = False"

definition V_ok :: "machine \<Rightarrow> nat \<Rightarrow> bool" where
  "V_ok s i = (case k_sems s i of None \<Rightarrow> False | Some S \<Rightarrow> sem_count S \<noteq> -1)"

definition unused :: "('k \<rightharpoonup> 'v) \<Rightarrow> 'k option \<Rightarrow> bool" where
  "unused m k = (case k of None \<Rightarrow> True | Some k \<Rightarrow> m k = None)"

definition fresh_opt :: "machine \<Rightarrow> tid option \<Rightarrow> bool" where
  "fresh_opt s nt = (case nt of None \<Rightarrow> True | Some t \<Rightarrow> fresh s t)"

definition calls :: "machine \<Rightarrow> cpuid \<Rightarrow> bool" where
  "calls s c = (\<not> idle s c \<and> (case k_threads s (curth s c) of None \<Rightarrow> False | Some T \<Rightarrow> at_entry (t_context T)))"

fun allowed :: "machine \<Rightarrow> cpuid \<Rightarrow> event \<Rightarrow> bool" where
  "allowed s c (Fork name proc e d1 d2 nt kstrdup_ok got_stack) =
     (\<not> idle s c \<and> fresh_opt s nt \<and> (case proc of None \<Rightarrow> True | Some p \<Rightarrow> k_procs s p \<noteq> None))"
| "allowed s c Yield = (\<not> idle s c)"
| "allowed s c Exit = calls s c"
| "allowed s c (PSem i) = (calls s c \<and> k_sems s i \<noteq> None)"
| "allowed s c (VSem i) = (\<not> idle s c \<and> V_ok s i)"
| "allowed s c (Clocksleep n) = calls s c"
| "allowed s c (Spl i) = (calls s c \<and> (i = IPL_NONE \<or> i = IPL_HIGH))"
| "allowed s c (SemCreate name n ns kstrdup_ok nw) = (\<not> idle s c \<and> unused (k_sems s) ns \<and> unused (k_wchans s) nw)"
| "allowed s c (ProcCreate name np kstrdup_ok) = (\<not> idle s c \<and> unused (k_procs s) np)"
| "allowed s c (CpuCreate hw t name) = (\<not> idle s c \<and> fresh s t \<and> \<not> irqs_on (k_spl s) (length (k_cpus s)))"
| "allowed s c (Hatch i n) = (calls s c \<and> V_ok s i \<and> c_number (k_cpus s ! c) = n)"
| "allowed s c GoOn = (\<not> idle s c \<and> (case k_threads s (curth s c) of None \<Rightarrow> False | Some T \<Rightarrow> t_context T \<noteq> []))"
| "allowed s c (Irq q) = (\<not> idle s c \<and> irqs_on (k_spl s) c \<and> irq_ok s q)"
| "allowed s c Idle = idle s c"
| "allowed s c (IdleIrq q) = (idle s c \<and> irq_ok s q)"

definition enabled :: "cpuid \<Rightarrow> event \<Rightarrow> machine \<Rightarrow> bool" where
  "enabled c ev s = (c < length (k_cpus s) \<and> allowed s c ev)"

lemma at_entry: "at_entry fs = entry_ok fs"
  by (cases fs rule: at_entry.cases) (auto simp: entry_ok_def)

lemma callsD: "calls s c \<Longrightarrow> \<not> idle s c \<and> (\<exists>T. k_threads s (curth s c) = Some T \<and> entry_ok (t_context T))"
  by (auto simp: calls_def at_entry split: option.splits)

lemma V_okD: "V_ok s i \<Longrightarrow> \<exists>S. k_sems s i = Some S \<and> sem_count S \<noteq> -1"
  by (auto simp: V_ok_def split: option.splits)

lemma irqs_lvl:
  assumes "good F c s" "irqs_on (k_spl s) c"
  shows "lvl s (curth s c) = IPL_NONE"
  using kinvD(3) [OF good_kinv(1) [OF assms(1)]] assms(2) by (auto simp: spl_ok_def ipl_defs)

lemma step_okay:
  assumes ok: "okay F c s" and en: "allowed s c ev"
    and Q: "\<And>F' s'. okay F' c s' \<Longrightarrow> Q () s'" and E: "\<And>F' s'. okay F' c s' \<Longrightarrow> E ENOMEM s'"
  shows "wp (kstep c ev) Q E s"
proof -
  have g: "good F c s" using ok by (simp add: okay_def)
  have c: "c < ncpu s" by (rule good_kinv(2) [OF g])
  have "wp (thread_step (curth s c) ev) Q E s"
  proof (cases ev)
    case (Fork name proc e d1 d2 nt k st)
    then show ?thesis
      using en by (auto simp: fresh_opt_def split: option.splits intro!: fork_okay [OF ok refl] Q E)
  next
    case Yield then show ?thesis using en by (auto intro!: yield_okay [OF ok refl] Q)
  next
    case Exit then show ?thesis using en callsD [of s c] by (auto intro!: exit_okay [OF ok refl] Q)
  next
    case (PSem i) then show ?thesis using en callsD [of s c] by (auto intro!: P_okay [OF ok refl] Q)
  next
    case (VSem i) then show ?thesis using en V_okD [of s i] by (auto intro!: V_okay [OF ok refl] Q)
  next
    case (Clocksleep n) then show ?thesis using en callsD [of s c] by (auto intro!: clocksleep_okay [OF ok refl] Q)
  next
    case (Spl i) then show ?thesis using en callsD [of s c] by (auto intro!: spl_okay [OF ok refl] Q)
  next
    case (SemCreate name n ns k nw)
    then show ?thesis using en by (auto simp: unused_def intro!: sem_create_okay [OF ok] Q)
  next
    case (ProcCreate name np k)
    then show ?thesis using en by (auto simp: unused_def intro!: proc_create_okay [OF ok] Q)
  next
    case (CpuCreate hw t name)
    then show ?thesis using en by (auto intro!: cpu_create_okay [OF ok refl] Q)
  next
    case (Hatch i n)
    then show ?thesis using en callsD [of s c] V_okD [of s i] by (auto intro!: hatch_okay [OF ok refl] Q)
  next
    case GoOn
    then show ?thesis using en by (auto split: option.splits intro!: go_on_okay [OF ok refl] Q)
  next
    case (Irq q)
    then show ?thesis using en irqs_lvl [OF g] by (auto intro!: trap_irq_okay [OF ok refl] Q)
  next
    case Idle then show ?thesis using en by (auto intro!: idle_okay [OF ok refl] Q)
  next
    case (IdleIrq q) then show ?thesis using en by (auto intro!: idle_irq_okay [OF ok refl] Q)
  qed
  then show ?thesis using c by (simp add: kstep_def)
qed

end
