(* ===== verification/Kern_Reach.thy ===== *)
theory Kern_Reach
  imports Kern_Sched
begin

text \<open>
  The machine from its start: the states the processors can bring it to, taking turns, and what is
  true in all of them.
\<close>

subsection \<open>Reachable states\<close>

definition boot :: "tid \<Rightarrow> string \<Rightarrow> nat \<Rightarrow> unit kern" where
  "boot t name w = kthen (thread_bootstrap (Some t) name True) (hardclock_bootstrap (Some w))"

abbreviation reaches :: "machine \<Rightarrow> machine \<Rightarrow> bool" where
  "reaches \<equiv> runs (\<lambda>s (c, ev). enabled c ev s) (\<lambda>(c, ev). kstep c ev)"

lemma reaches_step: "reaches s0 s \<Longrightarrow> enabled c ev s \<Longrightarrow> kstep c ev s = (r, s') \<Longrightarrow> reaches s0 s'"
  by (rule runs.call [where c = "(c, ev)"]) simp_all

definition sound :: "machine \<Rightarrow> bool" where
  "sound s \<longleftrightarrow> (\<exists>F. okay F 0 s)"

lemma sound_okay: "sound s \<Longrightarrow> c < ncpu s \<Longrightarrow> \<exists>F. okay F c s"
  unfolding sound_def using okay_other by blast

lemma okay_sound: "okay F c s \<Longrightarrow> sound s"
proof -
  assume ok: "okay F c s"
  then have "0 < ncpu s" using good_kinv(2) [of F c s] by (auto simp: okay_def)
  then show "sound s" using okay_other [OF ok] by (auto simp: sound_def)
qed

lemma wp_ok:
  assumes "wp m (\<lambda>_. Q) (\<lambda>_ _. False) s"
  shows "\<exists>s'. m s = (Ok (), s') \<and> Q s'"
  using assms by (cases rule: wp_run) auto

lemma boot_state:
  assumes "bare s" "0 < t" "t < 2 ^ 32"
  shows "\<exists>s'. boot t name w s = (Ok (), s') \<and> sound s' \<and> ncpu s' = 1 \<and> curth s' 0 = t \<and> \<not> idle s' 0 \<and>
    (\<exists>T. k_threads s' = [t \<mapsto> T] \<and> t_context T = []) \<and> k_sems s' = Map.empty \<and> k_wchans s' = [w \<mapsto> ''lbolt'']"
proof (rule wp_ok)
  show "wp (boot t name w) (\<lambda>_ s'. sound s' \<and> ncpu s' = 1 \<and> curth s' 0 = t \<and> \<not> idle s' 0 \<and>
      (\<exists>T. k_threads s' = [t \<mapsto> T] \<and> t_context T = []) \<and> k_sems s' = Map.empty \<and> k_wchans s' = [w \<mapsto> ''lbolt'']) (\<lambda>_ _. False) s"
    unfolding boot_def by (rule boot_okay [OF assms]) (use okay_sound in blast)
qed

lemma boot_sound:
  assumes "bare s" "0 < t" "t < 2 ^ 32"
  shows "fst (boot t name w s) = Ok () \<and> sound (snd (boot t name w s))"
  using boot_state [OF assms, of name w] by auto

lemma kstep_sound:
  assumes "sound s" "enabled c ev s"
  shows "fst (kstep c ev s) \<in> {Ok (), Err ENOMEM} \<and> sound (snd (kstep c ev s))"
proof -
  obtain F where F: "okay F c s" using sound_okay assms unfolding enabled_def by blast
  have "wp (kstep c ev) (\<lambda>_. sound) (\<lambda>e s'. e = ENOMEM \<and> sound s') s"
    by (rule step_okay [OF F]) (use assms(2) okay_sound in \<open>auto simp: enabled_def\<close>)
  then show ?thesis by (cases rule: wp_run) auto
qed

interpretation krn: safe_calls "\<lambda>s (c, ev). enabled c ev s" "\<lambda>(c, ev). kstep c ev" sound
proof
  fix s ce assume s: "sound s" "case ce of (c, ev) \<Rightarrow> enabled c ev s"
  then obtain c ev where ce: "ce = (c, ev)" "enabled c ev s" by (cases ce) auto
  show "wp (case ce of (c, ev) \<Rightarrow> kstep c ev) (\<lambda>_. sound) (\<lambda>_. sound) s"
    using kstep_sound [OF s(1) ce(2)] by (cases "kstep c ev s") (auto simp: ce(1) wp_def)
qed

subsection \<open>Where a thread is\<close>

datatype place = Running cpuid | Ready cpuid | Asleep nat | Dead cpuid

fun at :: "machine \<Rightarrow> tid \<Rightarrow> place \<Rightarrow> bool" where
  "at s t (Running c) = (c < length (k_cpus s) \<and> \<not> c_isidle (k_cpus s ! c) \<and> c_curthread (k_cpus s ! c) = t)"
| "at s t (Ready c) = (c < length (k_cpus s) \<and> t \<in> set (threads_on (k_lists s) (Runqueue c)))"
| "at s t (Asleep w) = (k_wchans s w \<noteq> None \<and> t \<in> set (threads_on (k_lists s) (WcThreads w)))"
| "at s t (Dead c) = (c < length (k_cpus s) \<and> t \<in> set (threads_on (k_lists s) (Zombies c)))"

fun agrees :: "thread \<Rightarrow> place \<Rightarrow> bool" where
  "agrees T (Running c) = (t_state T \<in> {S_RUN, S_READY} \<and> t_cpu T = Some c \<and> t_proc T \<noteq> None)"
| "agrees T (Ready c) = (t_state T = S_READY \<and> t_cpu T = Some c \<and> t_proc T \<noteq> None)"
| "agrees T (Asleep w) = (t_state T = S_SLEEP \<and> t_proc T \<noteq> None)"
| "agrees T (Dead c) = (t_state T = S_ZOMBIE \<and> t_cpu T = Some c \<and> t_proc T = None)"

lemma at_list:
  assumes k: "kinv Y F c0 held s"
  shows "at s t (Ready c) = on_list F t (Runqueue c)" "at s t (Dead c) = on_list F t (Zombies c)"
    "at s t (Asleep w) = on_list F t (WcThreads w)"
proof -
  note l = kinvD(10) [OF k, unfolded lists_ok_def] and on = threads_on [OF kinvD(1) [OF k]]
  have "F (Runqueue c) \<noteq> None \<longleftrightarrow> c < ncpu s" "F (Zombies c) \<noteq> None \<longleftrightarrow> c < ncpu s" "F (WcThreads w) \<noteq> None \<longleftrightarrow> w \<in> dom (k_wchans s)"
    using l by blast+
  then show "at s t (Ready c) = on_list F t (Runqueue c)" "at s t (Dead c) = on_list F t (Zombies c)"
    "at s t (Asleep w) = on_list F t (WcThreads w)"
    using on by (auto simp: on_list_def)
qed

lemma at_running:
  assumes ok: "okay F c s" and t: "at s t (Running c')" "k_threads s t = Some T"
  shows "agrees T (Running c')" "off_lists F t"
proof -
  have g: "good F c' s" using ok good_other t(1) by (auto simp: okay_def)
  have "running_ok F s c'" "\<exists>T. k_threads s (curth s c') = Some T \<and> t_cpu T = Some c'"
    using good_parts(2) [OF g refl] kinvD(4) [OF good_kinv(1) [OF g]] t(1) by auto
  then show "agrees T (Running c')" "off_lists F t" using t by (auto simp: running_ok_def)
qed

lemma at_listed:
  assumes ok: "okay F c s" and t: "on_list F t l" "k_threads s t = Some T"
  shows "\<exists>p. at s t p \<and> agrees T p"
proof -
  have g: "good F c s" using ok by (simp add: okay_def)
  note k = good_kinv(1) [OF g] note a = at_list [OF k]
  have "t \<notin> mine s c" using good_mine [OF g] t(1) by (auto simp: off_lists_def)
  then have l: "listed_ok s l t" using kinvD(6) [OF k t(1)] by blast
  show ?thesis
  proof (cases l)
    case (Runqueue c) then show ?thesis using l t a(1) by (intro exI [of _ "Ready c"]) (auto simp: listed_ok_def)
  next
    case (Zombies c) then show ?thesis using l t a(2) by (intro exI [of _ "Dead c"]) (auto simp: listed_ok_def)
  next
    case (WcThreads w) then show ?thesis using l t a(3) by (intro exI [of _ "Asleep w"]) (auto simp: listed_ok_def)
  next
    case (LocalList u) then show ?thesis using l by (auto simp: listed_ok_def)
  qed
qed

text \<open>The list of a place that is one.\<close>

fun place_list :: "place \<Rightarrow> listid" where
  "place_list (Ready c) = Runqueue c"
| "place_list (Asleep w) = WcThreads w"
| "place_list (Dead c) = Zombies c"
| "place_list (Running c) = Runqueue c"

lemma at_unique:
  assumes ok: "okay F c s" and t: "at s t p" "at s t p'" "k_threads s t = Some T"
  shows "p = p'"
proof -
  have g: "good F c s" using ok by (simp add: okay_def)
  note k = good_kinv(1) [OF g] note a = at_list [OF k]
  have on: "on_list F t (place_list q)" if "at s t q" "\<forall>c. q \<noteq> Running c" for q using that a by (cases q) auto
  have run: "\<not> on_list F t l" if "at s t (Running c')" for c' l using at_running(2) [OF ok that t(3)] by (simp add: off_lists_def)
  show ?thesis
  proof (cases "\<exists>c. p = Running c \<or> p' = Running c")
    case True
    then obtain c1 where c1: "at s t (Running c1)" using t by auto
    have "\<exists>c2. q = Running c2" if "at s t q" for q using on [OF that] run [OF c1] by blast
    then obtain c2 c3 where "p = Running c2" "p' = Running c3" using t by metis
    then show ?thesis using t curth_inj [OF k, of c2 c3] by auto
  next
    case False
    then have "place_list p = place_list p'" using tl_relD(2) [OF kinvD(1) [OF k] on [OF t(1)] on [OF t(2)]] by blast
    then show ?thesis using False by (cases p; cases p') auto
  qed
qed

lemma placed:
  assumes ok: "okay F c s" and T: "k_threads s t = Some T"
  shows "\<exists>!p. at s t p" "at s t p \<Longrightarrow> agrees T p"
proof -
  have g: "good F c s" using ok by (simp add: okay_def)
  note k = good_kinv(1) [OF g] and c = good_kinv(2) [OF g]
  have "\<exists>p. at s t p \<and> agrees T p"
  proof (cases "off_lists F t")
    case True
    have "\<exists>c'. at s t (Running c')"
      using kinvD(7) [OF k T _ True] c by (cases "t \<in> mine s c") (auto split: if_splits)
    then show ?thesis using at_running(1) [OF ok _ T] by blast
  next
    case False
    then show ?thesis using at_listed [OF ok _ T] by (auto simp: off_lists_def)
  qed
  then obtain p0 where p0: "at s t p0" "agrees T p0" by blast
  then show "\<exists>!p. at s t p" using at_unique [OF ok _ _ T] by blast
  show "agrees T p" if "at s t p" using at_unique [OF ok that p0(1) T] p0(2) by simp
qed

subsection \<open>What the calls do to the queues\<close>

abbreviation runq :: "machine \<Rightarrow> cpuid \<Rightarrow> tid list" where
  "runq s c \<equiv> threads_on (k_lists s) (Runqueue c)"

abbreviation sleepers :: "machine \<Rightarrow> nat \<Rightarrow> tid list" where
  "sleepers s w \<equiv> threads_on (k_lists s) (WcThreads w)"

lemma F_runq: "kinv Y F c0 held s \<Longrightarrow> c < ncpu s \<Longrightarrow> F (Runqueue c) = Some (runq s c)"
  using runqueue_some [of Y F c0 held s c] threads_on kinvD(1) by fastforce

lemma F_sleepers: "kinv Y F c0 held s \<Longrightarrow> w \<in> dom (k_wchans s) \<Longrightarrow> F (WcThreads w) = Some (sleepers s w)"
  using wchan_some [of Y F c0 held s w] threads_on kinvD(1) by fastforce

lemma kstep_wp: "c < ncpu s \<Longrightarrow> wp (kstep c ev) Q E s = wp (thread_step (curth s c) ev) Q E s"
  by (simp add: kstep_def)

lemma yield_rotates:
  assumes s: "sound s" "enabled c Yield s"
  shows "\<exists>s'. kstep c Yield s = (Ok (), s') \<and> ncpu s' = ncpu s \<and>
    (case runq s c @ [curth s c] of n # ns \<Rightarrow> at s' n (Running c) \<and> runq s' c = ns) \<and>
    (\<forall>c'. c' < ncpu s \<longrightarrow> c' \<noteq> c \<longrightarrow> runq s' c' = runq s c')"
proof -
  have c: "c < ncpu s" "\<not> idle s c" using s(2) by (simp_all add: enabled_def)
  obtain F where ok: "okay F c s" using sound_okay [OF s(1) c(1)] by blast
  then have g: "good F c s" by (simp add: okay_def)
  note p = good_parts [OF g refl c(2)] note q = F_runq [OF p(1)]
  show ?thesis
  proof (rule wp_ok, unfold kstep_wp [OF c(1)] thread_step.simps, rule yield_running_wp [OF p(1) refl c(2) p(2,3)])
    fix F' s' assume r: "rest F' c s'" "view F' s' = view F s"
      "if F (Runqueue c) = Some [] then F' = F \<and> curth s' c = curth s c \<and> \<not> idle s' c
       else picks c (F(Runqueue c \<mapsto> the (F (Runqueue c)) @ [curth s c])) F' s'"
    have n: "ncpu s' = ncpu s" using r(2) by (simp add: view_def)
    have "good F' c s'" using r(1) view_procs [OF r(2) p(3)] by (simp add: good_def)
    note q' = F_runq [OF good_kinv(1) [OF this]]
    show "ncpu s' = ncpu s \<and> (case runq s c @ [curth s c] of n # ns \<Rightarrow> at s' n (Running c) \<and> runq s' c = ns) \<and>
        (\<forall>c'. c' < ncpu s \<longrightarrow> c' \<noteq> c \<longrightarrow> runq s' c' = runq s c')"
      using r(3) n q c q' by (cases "runq s c") (auto simp: picks_def)
  qed
qed

text \<open>A sleeper that is off its wait channel after a wakeup is ready.\<close>

lemma woken_ready:
  assumes ok: "okay F c s" "okay F' c s'" and h: "handled (mine s c) (curth s c) F s F' s'"
    and u: "F (WcThreads w) = Some (u # ws)" "\<And>v. F' (WcThreads v) = (F(WcThreads w \<mapsto> ws)) (WcThreads v)"
  shows "\<exists>c'. at s' u (Ready c')"
proof -
  have g: "good F c s" "good F' c s'" using ok by (simp_all add: okay_def)
  note k = good_kinv(1) [OF g(1)] and k' = good_kinv(1) [OF g(2)] note h = handledD [OF h]
  note r = kinvD(1) [OF k]
  have on: "on_list F u (WcThreads w)" using u(1) by (simp add: on_list_def)
  then obtain T where T: "k_threads s u = Some T" using tl_relD(3) [OF r on] by blast
  have as: "at s u (Asleep w)" using at_list(3) [OF k] on by blast
  then obtain T' where T': "k_threads s' u = Some T'" using h(11) [of u] T by auto
  have "t_proc T \<noteq> None" using placed(2) [OF ok(1) T as] by simp
  then have live: "t_proc T' \<noteq> None" using fun_cong [OF h(8), of u] T T' by (simp add: tview_def)
  obtain p where p: "at s' u p" using placed(1) [OF ok(2) T'] by blast
  show ?thesis
  proof (cases p)
    case (Running c')
    then have "at s u (Running c')" using p h(1) h(2,3) [of c'] by simp
    then have False using at_unique [OF ok(1) as _ T] by blast
    then show ?thesis ..
  next
    case (Ready c') then show ?thesis using p by blast
  next
    case (Asleep v)
    then have on': "on_list F' u (WcThreads v)" using p at_list(3) [OF k'] by blast
    have "distinct (u # ws)" using tl_relD(1) [OF r u(1)] by (simp add: tl_list_def)
    then have "on_list F u (WcThreads v) \<and> v \<noteq> w" using on' u by (auto simp: on_list_def split: if_splits)
    then show ?thesis using tl_relD(2) [OF r on, of "WcThreads v"] by simp
  next
    case (Dead c') then show ?thesis using placed(2) [OF ok(2) T' p] live by simp
  qed
qed

lemma V_effect:
  assumes s: "sound s" "enabled c (VSem i) s" and S: "k_sems s i = Some S"
  shows "\<exists>s'. kstep c (VSem i) s = (Ok (), s') \<and> k_sems s' = (k_sems s)(i \<mapsto> S\<lparr>sem_count := sem_count S + 1\<rparr>) \<and>
    (\<forall>w \<in> dom (k_wchans s). sleepers s' w = (if w = sem_wchan S then tl (sleepers s w) else sleepers s w)) \<and>
    (\<forall>u us. sleepers s (sem_wchan S) = u # us \<longrightarrow> (\<exists>c'. at s' u (Ready c'))) \<and> at s' (curth s c) (Running c)"
proof -
  have c: "c < ncpu s" "\<not> idle s c" "sem_count S \<noteq> -1" using s(2) S by (simp_all add: enabled_def V_ok_def)
  obtain F where ok: "okay F c s" using sound_okay [OF s(1) c(1)] by blast
  then have g: "good F c s" "wake_ok F s" by (simp_all add: okay_def)
  note k = good_kinv(1) [OF g(1)] note q = F_sleepers [OF k]
  have w: "sem_wchan S \<in> dom (k_wchans s)" using kinvD(11) [OF k] S by (auto simp: sems_ok_def)
  show ?thesis
  proof (rule wp_ok, unfold kstep_wp [OF c(1)] thread_step.simps,
      rule V_wp [OF k refl good_mine [OF g(1)] _ S c(3) q [OF w]], assumption, simp)
    fix F' s' assume s': "kinv (mine s c) F' c [] s'" "moved (mine s c) (curth s c) F (s\<lparr>k_sems := (k_sems s)(i \<mapsto> S\<lparr>sem_count := sem_count S + 1\<rparr>)\<rparr>) F' s'"
      "\<And>v. F' (WcThreads v) = (F(WcThreads (sem_wchan S) \<mapsto> tl (sleepers s (sem_wchan S)))) (WcThreads v)"
    note d = kcalmD [OF movedD(1) [OF s'(2)]]
    have sems: "k_sems s' = (k_sems s)(i \<mapsto> S\<lparr>sem_count := sem_count S + 1\<rparr>)" using d(5) by simp
    have h: "handled (mine s c) (curth s c) F s F' s'" using s'(2) by (simp add: handled_def sems)
    have "wake_ok F' s'"
      using wake_V [OF k g(2) S c(3) q [OF w] on_list_apart [OF q [OF w] good_mine [OF g(1)]]] unfolding wake_ok_def handledD(8) [OF h] sems s'(3) .
    then have ok': "okay F' c s'" by (rule okay_handled [OF ok refl s'(1) h])
    note q' = F_sleepers [OF s'(1)]
    have "sleepers s' v = (if v = sem_wchan S then tl (sleepers s v) else sleepers s v)" if "v \<in> dom (k_wchans s)" for v
      using q' [of v] q [OF that] s'(3) [of v] d(4) that by (auto split: if_splits)
    moreover have "\<exists>c'. at s' u (Ready c')" if "sleepers s (sem_wchan S) = u # us" for u us
      by (rule woken_ready [OF ok ok' h, where w = "sem_wchan S" and ws = us]) (use q [OF w] that s'(3) in simp_all)
    moreover have "at s' (curth s c) (Running c)" using handledD(1-3) [OF h] c by simp
    ultimately show "k_sems s' = (k_sems s)(i \<mapsto> S\<lparr>sem_count := sem_count S + 1\<rparr>) \<and>
      (\<forall>w \<in> dom (k_wchans s). sleepers s' w = (if w = sem_wchan S then tl (sleepers s w) else sleepers s w)) \<and>
      (\<forall>u us. sleepers s (sem_wchan S) = u # us \<longrightarrow> (\<exists>c'. at s' u (Ready c'))) \<and> at s' (curth s c) (Running c)"
      using sems by blast
  qed
qed

lemma sviewD:
  assumes "sview F' s' = sview F s"
  shows "k_sems s' = k_sems s" "k_wchans s' = k_wchans s" "F' (WcThreads v) = F (WcThreads v)" "ncpu s' = ncpu s"
proof -
  have "(\<lambda>w. F' (WcThreads w)) = (\<lambda>w. F (WcThreads w))" using assms by (simp add: sview_def)
  from fun_cong [OF this, of v] show "F' (WcThreads v) = F (WcThreads v)" .
qed (use assms in \<open>simp_all add: sview_def\<close>)

lemma P_effect:
  assumes s: "sound s" "enabled c (PSem i) s" and S: "k_sems s i = Some S"
  shows "\<exists>s'. kstep c (PSem i) s = (Ok (), s') \<and>
    (if sem_count S = 0
     then k_sems s' = k_sems s \<and> at s' (curth s c) (Asleep (sem_wchan S)) \<and> ncpu s' = ncpu s \<and>
       (case runq s c of [] \<Rightarrow> idle s' c | n # ns \<Rightarrow> at s' n (Running c) \<and> runq s' c = ns) \<and>
       (\<forall>w \<in> dom (k_wchans s). sleepers s' w = (if w = sem_wchan S then sleepers s w @ [curth s c] else sleepers s w))
     else k_sems s' = (k_sems s)(i \<mapsto> S\<lparr>sem_count := sem_count S - 1\<rparr>) \<and> at s' (curth s c) (Running c) \<and>
       (\<forall>w \<in> dom (k_wchans s). sleepers s' w = sleepers s w))"
    (is "\<exists>s'. _ \<and> ?R s'")
proof -
  have c: "c < ncpu s" "calls s c" using s(2) S by (simp_all add: enabled_def)
  obtain T where T: "\<not> idle s c" "k_threads s (curth s c) = Some T" "entry_ok (t_context T)" using callsD [OF c(2)] by blast
  obtain F where ok: "okay F c s" using sound_okay [OF s(1) c(1)] by blast
  then have g: "good F c s" "wake_ok F s" by (simp_all add: okay_def)
  note p = good_parts [OF g(1) refl T(1)] note q = F_sleepers [OF p(1)]
  have w: "sem_wchan S \<in> dom (k_wchans s)" using kinvD(11) [OF p(1)] S by (auto simp: sems_ok_def)
  have f: "frames_ok (in_irq s (curth s c)) (lvl s (curth s c)) (t_context T)" using p(2) T(2) by (auto simp: running_ok_def)
  have "wp (kthen (acquire (curth s c) (SemLock i)) (P_loop (curth s c) i)) (\<lambda>_. ?R) (\<lambda>_ _. False) s"
  proof (rule lock_P_wp [OF g(1) refl T(1) S q [OF w] T(2,3)])
    fix F' s' assume a: "sem_count S = 0" "good F' c s'"
      "sview F' s' = sview (F(WcThreads (sem_wchan S) \<mapsto> sleepers s (sem_wchan S) @ [curth s c]))
         (s\<lparr>k_threads := (k_threads s)(curth s c \<mapsto> T\<lparr>t_context := InP i # t_context T\<rparr>)\<rparr>)" "picks c F F' s'"
    have v: "k_sems s' = k_sems s" "k_wchans s' = k_wchans s" "ncpu s' = ncpu s"
      "\<And>v. F' (WcThreads v) = (F(WcThreads (sem_wchan S) \<mapsto> sleepers s (sem_wchan S) @ [curth s c])) (WcThreads v)"
      using sviewD [OF a(3)] by simp_all
    note k' = good_kinv(1) [OF a(2)] note q' = F_sleepers [OF k']
    have "sleepers s' v = (if v = sem_wchan S then sleepers s v @ [curth s c] else sleepers s v)" if "v \<in> dom (k_wchans s)" for v
      using q' [of v] q [OF that] v that by (auto split: if_splits)
    moreover have "at s' (curth s c) (Asleep (sem_wchan S))" using at_list(3) [OF k'] v(4) by (auto simp: on_list_def)
    moreover have "case runq s c of [] \<Rightarrow> idle s' c | n # ns \<Rightarrow> at s' n (Running c) \<and> runq s' c = ns"
      using a(4) F_runq [OF p(1) c(1)] F_runq [OF k', of c] c(1) v(3) by (cases "runq s c") (auto simp: picks_def)
    ultimately show "?R s'" using v(1,3) a(1) by simp
  next
    fix F' s' assume a: "sem_count S \<noteq> 0" "good F' c s'"
      "sview F' s' = sview F (s\<lparr>k_sems := (k_sems s)(i \<mapsto> S\<lparr>sem_count := sem_count S - 1\<rparr>)\<rparr>)" "curth s' c = curth s c" "\<not> idle s' c"
    have v: "k_sems s' = (k_sems s)(i \<mapsto> S\<lparr>sem_count := sem_count S - 1\<rparr>)" "k_wchans s' = k_wchans s"
      "\<And>v. F' (WcThreads v) = F (WcThreads v)" "ncpu s' = ncpu s"
      using sviewD [OF a(3)] by simp_all
    note q' = F_sleepers [OF good_kinv(1) [OF a(2)]]
    have "sleepers s' v = sleepers s v" if "v \<in> dom (k_wchans s)" for v using q' [of v] q [OF that] v that by auto
    then show "?R s'" using v a(1,4,5) c(1) by simp
  qed
  then have "wp (P (curth s c) i) (\<lambda>_. ?R) (\<lambda>_ _. False) s" using frames_irq [OF f] entry_no_irq [OF T(3)] by (simp add: P_def)
  then show ?thesis by (intro wp_ok) (simp only: kstep_wp [OF c(1)] thread_step.simps)
qed

text \<open>Threads in the middle of a \<open>P\<close> on the semaphore \<open>i\<close>.\<close>

definition in_P :: "machine \<Rightarrow> nat \<Rightarrow> tid \<Rightarrow> bool" where
  "in_P s i u = (case k_threads s u of None \<Rightarrow> False | Some T \<Rightarrow> pend (t_context T) = Some i)"

lemma in_P_place:
  assumes ok: "okay F c s" and u: "in_P s i u" and S: "k_sems s i = Some S" "\<not> at s u (Asleep (sem_wchan S))"
  shows "\<exists>c'. at s u (Ready c') \<or> at s u (Running c')"
proof -
  have g: "good F c s" using ok by (simp add: okay_def)
  note k = good_kinv(1) [OF g]
  obtain T where T: "k_threads s u = Some T" "pend (t_context T) = Some i" using u by (auto simp: in_P_def split: option.splits)
  obtain p where p: "at s u p" using placed(1) [OF ok T(1)] by blast
  have l: "listed_ok s l u" if "on_list F u l" for l
    using kinvD(6) [OF k that] good_mine [OF g] that by (auto simp: off_lists_def)
  show ?thesis
  proof (cases p)
    case (Asleep v)
    then have "sleeps_on s v (t_context T)" using l at_list(3) [OF k] p T(1) by (fastforce simp: listed_ok_def)
    then have "v = sem_wchan S" using T(2) S(1) by (auto simp: sleeps_on_def split: list.splits frame.splits)
    then show ?thesis using p S(2) Asleep by simp
  next
    case (Dead c')
    then have "\<exists>spl r. t_context T = InSwitch spl # InExit # r" using l at_list(2) [OF k] p T(1) by (fastforce simp: listed_ok_def)
    then show ?thesis using T(2) by auto
  qed (use p in blast)+
qed

lemma wakeups_kept:
  assumes ok: "okay F c s" and S: "k_sems s i = Some S" and u: "at s u (Asleep (sem_wchan S))"
  shows "unat (sem_count S) \<le> card {v. in_P s i v \<and> (\<exists>c'. at s v (Ready c') \<or> at s v (Running c'))}"
proof -
  have g: "good F c s" "wake_ok F s" using ok by (simp_all add: okay_def)
  note k = good_kinv(1) [OF g(1)]
  obtain ws where ws: "F (WcThreads (sem_wchan S)) = Some ws" using sem_wchan_some [OF k S] by blast
  have on: "at s v (Asleep (sem_wchan S)) \<longleftrightarrow> v \<in> set ws" for v using at_list(3) [OF k] ws by (simp add: on_list_def)
  have tv: "fst (tview s v) = Some i \<longleftrightarrow> in_P s i v" for v by (auto simp: in_P_def tview_def split: option.splits)
  have "unat (sem_count S) \<le> card {v. in_P s i v \<and> v \<notin> set ws}"
  proof -
    have "ws \<noteq> []" using u on [of u] by auto
    then have "unat (sem_count S) \<le> card {v. fst (tview s v) = Some i \<and> v \<notin> set ws}"
      using g(2) S ws unfolding wake_ok_def wake_inv_def by blast
    then show ?thesis unfolding tv .
  qed
  also have "\<dots> \<le> card {v. in_P s i v \<and> (\<exists>c'. at s v (Ready c') \<or> at s v (Running c'))}"
  proof (rule card_mono)
    show "finite {v. in_P s i v \<and> (\<exists>c'. at s v (Ready c') \<or> at s v (Running c'))}"
      by (rule finite_subset [OF _ card_threads(1) [OF k order_refl]]) (auto simp: in_P_def split: option.splits)
    show "{v. in_P s i v \<and> v \<notin> set ws} \<subseteq> {v. in_P s i v \<and> (\<exists>c'. at s v (Ready c') \<or> at s v (Running c'))}"
      using in_P_place [OF ok _ S] on by blast
  qed
  finally show ?thesis .
qed

subsection \<open>Starting a thread\<close>

lemma fork_effect:
  assumes s: "sound s" "enabled c (Fork name proc e d1 d2 nt kstrdup_ok got_stack) s"
  shows "case (if kstrdup_ok \<and> got_stack then nt else None) of
      None \<Rightarrow> \<exists>s'. kstep c (Fork name proc e d1 d2 nt kstrdup_ok got_stack) s = (Err ENOMEM, s') \<and> k_threads s' = k_threads s \<and>
        (\<forall>c' < ncpu s. runq s' c' = runq s c') \<and> (\<forall>w \<in> dom (k_wchans s). sleepers s' w = sleepers s w) \<and> k_sems s' = k_sems s \<and>
        k_wchans s' = k_wchans s \<and> at s' (curth s c) (Running c)
    | Some t \<Rightarrow> \<exists>s' q. kstep c (Fork name proc e d1 d2 nt kstrdup_ok got_stack) s = (Ok (), s') \<and>
        k_threads s' = (k_threads s)(t \<mapsto> child name c q e d1 d2) \<and> (if proc = None then snd (tview s (curth s c)) else proc) = Some q \<and>
        (\<forall>c' < ncpu s. runq s' c' = (if c' = c then runq s c @ [t] else runq s c')) \<and> (\<forall>w \<in> dom (k_wchans s). sleepers s' w = sleepers s w) \<and>
        k_sems s' = k_sems s \<and> k_wchans s' = k_wchans s \<and>
        at s' (curth s c) (Running c)"
    (is "case ?o of None \<Rightarrow> \<exists>s'. _ = _ \<and> ?E s' | Some t \<Rightarrow> \<exists>s' q. _ = _ \<and> ?Q t q s'")
proof -
  let ?ev = "Fork name proc e d1 d2 nt kstrdup_ok got_stack"
  have c: "c < ncpu s" "\<not> idle s c" "fresh_opt s nt" "\<And>p. proc = Some p \<Longrightarrow> p \<in> dom (k_procs s)"
    using s(2) by (auto simp: enabled_def split: option.splits)
  obtain F where ok: "okay F c s" using sound_okay [OF s(1) c(1)] by blast
  then have g: "good F c s" by (simp add: okay_def)
  note k = good_kinv(1) [OF g] note q = F_runq [OF k] and sl = F_sleepers [OF k]
  have nt: "fresh s t" if "nt = Some t" for t using c(3) that by (simp add: fresh_opt_def)
  have "wp (thread_fork (curth s c) name proc e d1 d2 nt kstrdup_ok got_stack) (\<lambda>_ s'. \<exists>t q. ?o = Some t \<and> ?Q t q s')
      (\<lambda>x s'. x = ENOMEM \<and> ?o = None \<and> ?E s') s"
  proof (rule thread_fork_wp [OF g refl c(2) nt c(4)])
    fix F' s' assume a: "good F' c s'" "sview F' s' = sview F s" "curth s' c = curth s c" "\<not> idle s' c"
      "\<exists>t q. nt = Some t \<and> kstrdup_ok \<and> got_stack \<and> F' = F(Runqueue c \<mapsto> the (F (Runqueue c)) @ [t]) \<and>
        (if proc = None then snd (tview s (curth s c)) else proc) = Some q \<and> k_threads s' = (k_threads s)(t \<mapsto> child name c q e d1 d2)"
    note v = sviewD [OF a(2)] and q' = F_runq [OF good_kinv(1) [OF a(1)]] and sl' = F_sleepers [OF good_kinv(1) [OF a(1)]]
    have s': "sleepers s' w = sleepers s w" if "w \<in> dom (k_wchans s)" for w using sl' [of w] sl [OF that] v(2,3) that by auto
    from a(5) obtain t p where t: "?o = Some t" "F' = F(Runqueue c \<mapsto> the (F (Runqueue c)) @ [t])"
      "(if proc = None then snd (tview s (curth s c)) else proc) = Some p" "k_threads s' = (k_threads s)(t \<mapsto> child name c p e d1 d2)"
      by auto
    have "runq s' c' = (if c' = c then runq s c @ [t] else runq s c')" if "c' < ncpu s" for c'
      using q' [of c'] q [OF that] q [OF c(1)] t(2) v(4) that by (auto split: if_splits)
    then have "?Q t p s'" using s' t(3,4) v(1,2,4) a(3,4) c(1) by simp
    with t(1) show "\<exists>t q. ?o = Some t \<and> ?Q t q s'" by blast
  next
    fix F' s' assume a: "good F' c s'" "sview F' s' = sview F s" "curth s' c = curth s c" "\<not> idle s' c" "F' = F" "k_threads s' = k_threads s"
      "nt = None \<or> \<not> kstrdup_ok \<or> \<not> got_stack"
    note v = sviewD [OF a(2)] and q' = F_runq [OF good_kinv(1) [OF a(1)]] and sl' = F_sleepers [OF good_kinv(1) [OF a(1)]]
    have s': "sleepers s' w = sleepers s w" if "w \<in> dom (k_wchans s)" for w using sl' [of w] sl [OF that] v(2,3) that by auto
    have "runq s' c' = runq s c'" if "c' < ncpu s" for c' using q' [of c'] q [OF that] a(5) v(4) that by auto
    then show "ENOMEM = ENOMEM \<and> ?o = None \<and> ?E s'" using s' a(3,4,6,7) v(1,2,4) c(1) by auto
  qed
  then have "wp (kstep c ?ev) (\<lambda>_ s'. \<exists>t q. ?o = Some t \<and> ?Q t q s') (\<lambda>x s'. x = ENOMEM \<and> ?o = None \<and> ?E s') s"
    by (simp only: kstep_wp [OF c(1)] thread_step.simps)
  then show ?thesis
  proof (cases rule: wp_run)
    case (Ok x u)
    from Ok(2) obtain t q where t: "?o = Some t" "?Q t q u" by blast
    have "kstep c ?ev s = (Ok (), u)" using Ok(1) by simp
    with t(2) show ?thesis unfolding t(1) option.case by blast
  next
    case (Err x u)
    then have t: "?o = None" "?E u" "kstep c ?ev s = (Err ENOMEM, u)" by blast+
    then show ?thesis unfolding t(1) option.case by blast
  qed
qed

end
