(* ===== verification/Kern_Properties.thy ===== *)
theory Kern_Properties
  imports Kern_Reach
begin

text \<open>
  What is true of the thread system in every state that the processors can bring it to, from the
  start on.
\<close>

subsection \<open>An example\<close>

text \<open>
  The machine as it is started, and what its first calls do: a semaphore is made, a second thread is
  started, and the boot thread sleeps on the semaphore.
\<close>

definition tiny :: machine where
  "tiny = \<lparr>
     k_spl = \<lparr>intr = (\<lambda>_. \<lparr>t_in_interrupt = False, t_curspl = IPL_HIGH, t_iplhigh_count = 1\<rparr>), c_spinlocks = (\<lambda>_. 0),
       irqs_on = (\<lambda>_. False), spinlocks = (\<lambda>_. \<lparr>splk_lock = 0, splk_holder = None\<rparr>)\<rparr>,
     k_lists = \<lparr>tln_prev = (\<lambda>_. None), tln_next = (\<lambda>_. None), tln_self = (\<lambda>_. None), tl_count = (\<lambda>_. 0)\<rparr>,
     k_threads = Map.empty, k_cpus = [], k_wchans = Map.empty, k_sems = Map.empty,
     k_procs = [1 \<mapsto> \<lparr>p_name = ''kernel'', p_numthreads = 0, p_addrspace = None, p_cwd = None\<rparr>],
     k_kproc = 1, k_lbolt = 0, k_tlb = (\<lambda>_. []), k_ipiline = (\<lambda>_. False)\<rparr>"

lemma bare_tiny: "bare tiny"
  by (simp add: bare_def tiny_def) force

lemma runq_length: "sound s \<Longrightarrow> c < ncpu s \<Longrightarrow> length (runq s c) = unat (tl_count (k_lists s) (Runqueue c))"
proof -
  assume s: "sound s" and c: "c < ncpu s"
  obtain F where "okay F c s" using sound_okay [OF s c] by blast
  then have k: "kinv (mine s c) F c [] s" using good_kinv(1) by (simp add: okay_def)
  show ?thesis using tl_rel_count(2) [OF kinvD(1) [OF k] F_runq [OF k c]] by simp
qed

lemma sem_create_effect:
  assumes s: "sound s" "enabled c (SemCreate name n (Some i) True (Some w)) s"
  shows "\<exists>s'. kstep c (SemCreate name n (Some i) True (Some w)) s = (Ok (), s') \<and>
    k_sems s' = (k_sems s)(i \<mapsto> \<lparr>sem_name = name, sem_wchan = w, sem_count = n\<rparr>) \<and> k_threads s' = k_threads s \<and> k_cpus s' = k_cpus s \<and>
    k_wchans s' = (k_wchans s)(w \<mapsto> name) \<and> sleepers s' w = [] \<and> (\<forall>c' < ncpu s. length (runq s' c') = length (runq s c'))"
proof -
  have c: "c < ncpu s" using s(2) by (simp add: enabled_def)
  have "wp (kstep c (SemCreate name n (Some i) True (Some w))) (\<lambda>_ s'. k_sems s' = (k_sems s)(i \<mapsto> \<lparr>sem_name = name, sem_wchan = w, sem_count = n\<rparr>) \<and>
      k_threads s' = k_threads s \<and> k_cpus s' = k_cpus s \<and> k_wchans s' = (k_wchans s)(w \<mapsto> name) \<and> sleepers s' w = [] \<and>
      (\<forall>c'. tl_count (k_lists s') (Runqueue c') = tl_count (k_lists s) (Runqueue c'))) (\<lambda>_ _. False) s"
    using c by (simp add: kstep_def sem_create_def wchan_create_def spinlock_init_def spinlock_data_set_def upd_lock_def threadlist_init_def node_defs
      threads_on_def)
  from wp_ok [OF this] obtain s' where s': "kstep c (SemCreate name n (Some i) True (Some w)) s = (Ok (), s')"
    "k_sems s' = (k_sems s)(i \<mapsto> \<lparr>sem_name = name, sem_wchan = w, sem_count = n\<rparr>)" "k_threads s' = k_threads s" "k_cpus s' = k_cpus s"
    "k_wchans s' = (k_wchans s)(w \<mapsto> name)" "sleepers s' w = []" "\<And>c'. tl_count (k_lists s') (Runqueue c') = tl_count (k_lists s) (Runqueue c')"
    by blast
  have "sound s'" using kstep_sound [OF s] s'(1) by simp
  then have "length (runq s' c') = length (runq s c')" if "c' < ncpu s" for c' using runq_length [OF _ that] runq_length [of s' c'] s s'(4,7) that by simp
  then show ?thesis using s' by blast
qed

lemma boot_runq:
  assumes "bare s" "0 < t" "t < 2 ^ 32" "boot t name w s = (Ok (), s')"
  shows "runq s' 0 = []"
proof -
  have "wp (boot t name w) (\<lambda>_ s'. okay (boot_lists w) 0 s') (\<lambda>_ _. False) s" unfolding boot_def by (rule boot_okay [OF assms(1-3)])
  then have "okay (boot_lists w) 0 s'" using assms(4) by (simp add: wp_def)
  then have g: "good (boot_lists w) 0 s'" by (simp add: okay_def)
  show ?thesis using F_runq [OF good_kinv(1,2) [OF g]] by (simp add: boot_lists_def)
qed

text \<open>Thread 1 is the boot thread, 2 the other one; semaphore 1 has wait channel 2.\<close>

lemma example_run:
  "\<exists>s1 s2 s3 s4. boot 1 ''cpu0'' 1 tiny = (Ok (), s1) \<and>
     reaches s1 s2 \<and> enabled 0 (Fork ''a'' None 7 0 0 (Some 2) True True) s2 \<and> runq s2 0 = [] \<and> curth s2 0 = 1 \<and>
     reaches s1 s3 \<and> enabled 0 Yield s3 \<and> enabled 0 (PSem 1) s3 \<and> curth s3 0 = 1 \<and> runq s3 0 = [2] \<and>
     k_sems s3 1 = Some \<lparr>sem_name = ''s'', sem_wchan = 2, sem_count = 0\<rparr> \<and>
     reaches s1 s4 \<and> enabled 0 (VSem 1) s4 \<and> at s4 1 (Asleep 2) \<and> sleepers s4 2 = [1] \<and> curth s4 0 = 2 \<and>
     k_sems s4 1 = Some \<lparr>sem_name = ''s'', sem_wchan = 2, sem_count = 0\<rparr>"
proof -
  obtain s1 T where s1: "boot 1 ''cpu0'' 1 tiny = (Ok (), s1)" "sound s1" "ncpu s1 = 1" "curth s1 0 = 1" "\<not> idle s1 0"
    "k_threads s1 = [1 \<mapsto> T]" "t_context T = []" "k_sems s1 = Map.empty" "k_wchans s1 = [1 \<mapsto> ''lbolt'']"
    using boot_state [OF bare_tiny, of 1 "''cpu0''" 1] by auto
  have q1: "runq s1 0 = []" using boot_runq [OF bare_tiny _ _ s1(1)] by simp
  let ?sc = "SemCreate ''s'' 0 (Some 1) True (Some 2)" let ?fk = "Fork ''a'' None 7 0 0 (Some 2) True True"
  let ?S = "\<lparr>sem_name = ''s'', sem_wchan = 2, sem_count = 0\<rparr>"
  have e1: "enabled 0 ?sc s1" using s1 by (simp add: enabled_def unused_def)
  obtain s2 where s2: "kstep 0 ?sc s1 = (Ok (), s2)" "k_sems s2 = [1 \<mapsto> ?S]" "k_threads s2 = k_threads s1" "k_cpus s2 = k_cpus s1"
    "k_wchans s2 = [1 \<mapsto> ''lbolt'', 2 \<mapsto> ''s'']" "sleepers s2 2 = []" "runq s2 0 = []"
    using sem_create_effect [OF s1(2) e1] s1 q1 by auto
  have r2: "reaches s1 s2" "sound s2" using reaches_step [OF runs.start e1 s2(1)] kstep_sound [OF s1(2) e1] s2(1) by simp_all
  have e2: "enabled 0 ?fk s2" using s2 s1 by (simp add: enabled_def fresh_opt_def fresh_def)
  obtain s3 q where s3: "kstep 0 ?fk s2 = (Ok (), s3)" "k_threads s3 = (k_threads s2)(2 \<mapsto> child ''a'' 0 q 7 0 0)" "runq s3 0 = [2]"
    "sleepers s3 2 = []" "k_sems s3 = k_sems s2" "k_wchans s3 = k_wchans s2" "at s3 1 (Running 0)"
    using fork_effect [OF r2(2) e2] s2 s1 by auto
  have r3: "reaches s1 s3" "sound s3" using reaches_step [OF r2(1) e2 s3(1)] kstep_sound [OF r2(2) e2] s3(1) by simp_all
  have e3: "enabled 0 Yield s3" "enabled 0 (PSem 1) s3" using s3 s2 s1 by (simp_all add: enabled_def calls_def)
  have S: "k_sems s3 1 = Some ?S" using s3 s2 by simp
  obtain s4 where s4: "kstep 0 (PSem 1) s3 = (Ok (), s4)" "k_sems s4 = k_sems s3" "at s4 1 (Asleep 2)" "at s4 2 (Running 0)" "sleepers s4 2 = [1]"
    using P_effect [OF r3(2) e3(2) S] s3 s2 by auto
  have r4: "reaches s1 s4" using reaches_step [OF r3(1) e3(2) s4(1)] .
  have e4: "enabled 0 (VSem 1) s4" using s4 S by (simp add: enabled_def V_ok_def)
  show ?thesis using s1 s2 r2(1) e2 s3 r3(1) e3 S s4 r4 e4 by (intro exI [of _ s1] exI [of _ s2] exI [of _ s3] exI [of _ s4]) simp
qed

subsection \<open>Every reachable state\<close>

lemma reach_sound:
  assumes "bare s0" "0 < t" "t < 2 ^ 32" "reaches (snd (boot t name w s0)) s"
  shows "sound s"
  using krn.runs_inv [OF assms(4)] boot_sound [OF assms(1-3)] by blast

text \<open>
  C2: the thread system does not break down. The kernel boots, and from then on, whatever the
  threads call and whichever interrupts come, on however many processors, in every order: every call,
  every resumption of a call that had slept, every interrupt and every look of an idle processor at
  its run queue returns. The processors take turns; each of these is one step, up to the point where
  it gives up its processor. No assertion fails, no null pointer is followed, no lock is taken twice or
  waited for in vain, no loop runs forever; the one error is \<open>ENOMEM\<close>, of a \<open>thread_fork\<close>.
\<close>

theorem thread_system_safe:
  assumes "bare s0" "0 < t" "t < 2 ^ 32" "reaches (snd (boot t name w s0)) s" "enabled c ev s"
  shows "fst (boot t name w s0) = Ok () \<and> fst (kstep c ev s) \<in> {Ok (), Err ENOMEM}"
  using kstep_sound [OF reach_sound [OF assms(1-4)] assms(5)] boot_sound [OF assms(1-3)] by blast

theorem thread_system_safe_witness:
  "\<exists>s. at s 1 (Asleep 2) \<and> fst (kstep 0 (VSem 1) s) \<in> {Ok (), Err ENOMEM}"
proof -
  obtain s1 s where s: "boot 1 ''cpu0'' 1 tiny = (Ok (), s1)" "reaches s1 s" "enabled 0 (VSem 1) s" "at s 1 (Asleep 2)"
    using example_run by blast
  then have r: "reaches (snd (boot 1 ''cpu0'' 1 tiny)) s" by simp
  have "fst (kstep 0 (VSem 1) s) \<in> {Ok (), Err ENOMEM}" using thread_system_safe [OF bare_tiny _ _ r s(3)] by simp
  with s(4) show ?thesis by blast
qed

text \<open>
  C4: at every time every thread is in exactly one place: current on one processor that is not
  idle, on the run queue of one processor, on one wait channel, or among the zombies of one
  processor. Its state, processor and process fields say the same: ready on the run queue of its
  own processor, asleep on a wait channel, a zombie without a process. The lists are what one finds
  by following their links. No spinlock is held between operations, and the count of each process
  is the number of its threads.
\<close>

theorem thread_places:
  assumes "bare s0" "0 < t" "t < 2 ^ 32" "reaches (snd (boot t name w s0)) s"
  shows "(\<forall>u T. k_threads s u = Some T \<longrightarrow> (\<exists>!p. at s u p) \<and> (\<forall>p. at s u p \<longrightarrow> agrees T p)) \<and>
    (\<forall>u p. at s u p \<longrightarrow> k_threads s u \<noteq> None) \<and>
    (\<forall>lk. splk_lock (spinlocks (k_spl s) lk) = 0) \<and>
    (\<forall>q R. k_procs s q = Some R \<longrightarrow> p_numthreads R = of_nat (card {u. \<exists>T. k_threads s u = Some T \<and> t_proc T = Some q}))"
proof -
  obtain F where ok: "okay F 0 s" using reach_sound [OF assms] by (auto simp: sound_def)
  then have g: "good F 0 s" "procs_ok s" by (simp_all add: okay_def good_def)
  note k = good_kinv(1) [OF g(1)]
  have live: "k_threads s u \<noteq> None" if "at s u p" for u p
  proof (cases p)
    case (Running c) then show ?thesis using kinvD(4) [OF k] that by auto
  qed (use that at_list [OF k] tl_relD(3) [OF kinvD(1) [OF k]] in blast)+
  have "spinlocks (k_spl s) = lock_of 0 []" using kinvD(3) [OF k] by (simp add: spl_ok_def)
  then have free: "splk_lock (spinlocks (k_spl s) lk) = 0" for lk by (simp add: lock_of_def)
  have "{u. snd (tview s u) = Some q} = {u. \<exists>T. k_threads s u = Some T \<and> t_proc T = Some q}" for q
    by (auto simp: tview_def split: option.splits)
  then have "p_numthreads R = of_nat (card {u. \<exists>T. k_threads s u = Some T \<and> t_proc T = Some q})" if "k_procs s q = Some R" for q R
    using g(2) that unfolding procs_ok_def by metis
  then show ?thesis using placed [OF ok] live free by blast
qed

theorem thread_places_witness:
  "\<exists>s. at s 1 (Asleep 2) \<and> k_threads s 1 \<noteq> None \<and> (\<forall>p. at s 1 p \<longrightarrow> p = Asleep 2)"
proof -
  obtain s1 s where s: "boot 1 ''cpu0'' 1 tiny = (Ok (), s1)" "reaches s1 s" "at s 1 (Asleep 2)" using example_run by blast
  then have r: "reaches (snd (boot 1 ''cpu0'' 1 tiny)) s" by simp
  note t = thread_places [OF bare_tiny _ _ r, simplified]
  have "k_threads s 1 \<noteq> None" using t s(3) by blast
  moreover from this obtain T where "k_threads s 1 = Some T" by blast
  then have "\<exists>!p. at s 1 p" using t by blast
  ultimately show ?thesis using s(3) by blast
qed

text \<open>
  C5: no wakeup is lost. While threads sleep on a semaphore, at least as many threads as it counts
  have been woken from it and have still to try again, and each of them is running or on a run
  queue. So a semaphore with a positive count and sleepers has one that is about to take it.
\<close>

theorem semaphore_wakeups:
  assumes "bare s0" "0 < t" "t < 2 ^ 32" "reaches (snd (boot t name w s0)) s"
    and "k_sems s i = Some S" "at s u (Asleep (sem_wchan S))"
  shows "unat (sem_count S) \<le> card {v. in_P s i v \<and> (\<exists>c. at s v (Ready c) \<or> at s v (Running c))}"
proof -
  obtain F where "okay F 0 s" using reach_sound [OF assms(1-4)] by (auto simp: sound_def)
  then show ?thesis by (rule wakeups_kept [OF _ assms(5,6)])
qed

theorem semaphore_wakeups_witness:
  "\<exists>s S. k_sems s 1 = Some S \<and> at s 1 (Asleep (sem_wchan S)) \<and>
     unat (sem_count S) \<le> card {v. in_P s 1 v \<and> (\<exists>c. at s v (Ready c) \<or> at s v (Running c))}"
proof -
  let ?S = "\<lparr>sem_name = ''s'', sem_wchan = 2, sem_count = 0\<rparr>"
  obtain s1 s where s: "boot 1 ''cpu0'' 1 tiny = (Ok (), s1)" "reaches s1 s" "at s 1 (Asleep 2)" "k_sems s 1 = Some ?S"
    using example_run by blast
  then have r: "reaches (snd (boot 1 ''cpu0'' 1 tiny)) s" "at s 1 (Asleep (sem_wchan ?S))" by simp_all
  then show ?thesis using semaphore_wakeups [OF bare_tiny _ _ r(1) s(4) r(2)] s(4) by (intro exI [of _ s] exI [of _ ?S]) simp
qed

subsection \<open>What the calls do\<close>

text \<open>
  C7: \<open>V\<close>, by a running thread. The count goes up by one and does not wrap; the thread that has slept
  longest on the semaphore, if there is one, is off the wait channel and on a run queue; the others
  stay where they are in their order, and so does the caller on its processor. No other semaphore
  and no other wait channel changes.
\<close>

theorem V_wakes_first:
  assumes "bare s0" "0 < t" "t < 2 ^ 32" "reaches (snd (boot t name w s0)) s" "enabled c (VSem i) s" "k_sems s i = Some S"
  shows "\<exists>s'. kstep c (VSem i) s = (Ok (), s') \<and> k_sems s' = (k_sems s)(i \<mapsto> S\<lparr>sem_count := sem_count S + 1\<rparr>) \<and>
    unat (sem_count S + 1) = unat (sem_count S) + 1 \<and>
    (\<forall>v \<in> dom (k_wchans s). sleepers s' v = (if v = sem_wchan S then tl (sleepers s v) else sleepers s v)) \<and>
    (\<forall>u us. sleepers s (sem_wchan S) = u # us \<longrightarrow> (\<exists>c'. at s' u (Ready c'))) \<and> at s' (curth s c) (Running c)"
proof -
  have "sem_count S \<noteq> -1" using assms(5,6) by (simp add: enabled_def V_ok_def)
  then have "1 + sem_count S \<noteq> 0" by (simp add: add_eq_0_iff)
  from unatSuc [OF this] have "unat (sem_count S + 1) = unat (sem_count S) + 1" by (simp add: add.commute)
  then show ?thesis using V_effect [OF reach_sound [OF assms(1-4)] assms(5,6)] by blast
qed

theorem V_wakes_first_witness:
  "\<exists>s s' c'. sleepers s 2 = [1] \<and> kstep 0 (VSem 1) s = (Ok (), s') \<and> at s' 1 (Ready c')"
proof -
  let ?S = "\<lparr>sem_name = ''s'', sem_wchan = 2, sem_count = 0\<rparr>"
  obtain s1 s where s: "boot 1 ''cpu0'' 1 tiny = (Ok (), s1)" "reaches s1 s" "enabled 0 (VSem 1) s" "k_sems s 1 = Some ?S" "sleepers s 2 = [1]"
    using example_run by blast
  then have r: "reaches (snd (boot 1 ''cpu0'' 1 tiny)) s" by simp
  from V_wakes_first [OF bare_tiny _ _ r s(3,4)] s(5) show ?thesis by auto
qed

text \<open>
  C10: \<open>P\<close>. With a positive count it takes one off and returns to its caller, which goes on
  running. With a count of 0 the caller is put to sleep behind the others on the semaphore, and its
  processor goes on with the first thread of its run queue, or idles if there is none. Nothing
  else changes on semaphores and wait channels.
\<close>

theorem P_takes_or_sleeps:
  assumes "bare s0" "0 < t" "t < 2 ^ 32" "reaches (snd (boot t name w s0)) s" "enabled c (PSem i) s" "k_sems s i = Some S"
  shows "\<exists>s'. kstep c (PSem i) s = (Ok (), s') \<and>
    (if sem_count S = 0
     then k_sems s' = k_sems s \<and> at s' (curth s c) (Asleep (sem_wchan S)) \<and> ncpu s' = ncpu s \<and>
       (case runq s c of [] \<Rightarrow> idle s' c | n # ns \<Rightarrow> at s' n (Running c) \<and> runq s' c = ns) \<and>
       (\<forall>v \<in> dom (k_wchans s). sleepers s' v = (if v = sem_wchan S then sleepers s v @ [curth s c] else sleepers s v))
     else k_sems s' = (k_sems s)(i \<mapsto> S\<lparr>sem_count := sem_count S - 1\<rparr>) \<and> at s' (curth s c) (Running c) \<and>
       (\<forall>v \<in> dom (k_wchans s). sleepers s' v = sleepers s v))"
  by (rule P_effect [OF reach_sound [OF assms(1-4)] assms(5,6)])

theorem P_takes_or_sleeps_witness:
  "\<exists>s s'. at s 1 (Running 0) \<and> kstep 0 (PSem 1) s = (Ok (), s') \<and> at s' 1 (Asleep 2) \<and> at s' 2 (Running 0)"
proof -
  let ?S = "\<lparr>sem_name = ''s'', sem_wchan = 2, sem_count = 0\<rparr>"
  obtain s1 s where s: "boot 1 ''cpu0'' 1 tiny = (Ok (), s1)" "reaches s1 s" "enabled 0 (PSem 1) s" "enabled 0 Yield s" "curth s 0 = 1" "runq s 0 = [2]"
      "k_sems s 1 = Some ?S"
    using example_run by blast
  then have r: "reaches (snd (boot 1 ''cpu0'' 1 tiny)) s" by simp
  have "at s 1 (Running 0)" using s(4,5) by (simp add: enabled_def)
  with P_takes_or_sleeps [OF bare_tiny _ _ r s(3,7)] s(5,6) show ?thesis by auto
qed

text \<open>
  C11: the scheduler is round robin. \<open>thread_yield\<close> puts the running thread behind the ready ones of
  its processor and goes on with the first of these; alone, the thread goes on itself. The order of
  the others, and the run queues of other processors, stay as they are.
\<close>

theorem yield_round_robin:
  assumes "bare s0" "0 < t" "t < 2 ^ 32" "reaches (snd (boot t name w s0)) s" "enabled c Yield s"
  shows "\<exists>s'. kstep c Yield s = (Ok (), s') \<and> ncpu s' = ncpu s \<and>
    (case runq s c @ [curth s c] of n # ns \<Rightarrow> at s' n (Running c) \<and> runq s' c = ns) \<and>
    (\<forall>c'. c' < ncpu s \<longrightarrow> c' \<noteq> c \<longrightarrow> runq s' c' = runq s c')"
  by (rule yield_rotates [OF reach_sound [OF assms(1-4)] assms(5)])

theorem yield_round_robin_witness:
  "\<exists>s s'. at s 1 (Running 0) \<and> runq s 0 = [2] \<and> kstep 0 Yield s = (Ok (), s') \<and> at s' 2 (Running 0) \<and> runq s' 0 = [1]"
proof -
  obtain s1 s where s: "boot 1 ''cpu0'' 1 tiny = (Ok (), s1)" "reaches s1 s" "enabled 0 Yield s" "curth s 0 = 1" "runq s 0 = [2]"
    using example_run by blast
  then have r: "reaches (snd (boot 1 ''cpu0'' 1 tiny)) s" by simp
  have "at s 1 (Running 0)" using s(3,4) by (simp add: enabled_def)
  with yield_round_robin [OF bare_tiny _ _ r s(3)] s(4,5) show ?thesis by auto
qed

text \<open>
  C12: \<open>thread_fork\<close> with memory for the thread, its name and its stack succeeds: the new thread has
  a sound stack and starts at the given entry point with the given data, in the given process or
  else its parent's; it is the last on the run queue of the processor of its parent, which goes on
  running. If one of the three is refused the error is \<open>ENOMEM\<close>, and the threads are the ones there
  were. Either way all other threads, run queues, semaphores and wait channels are as before.
\<close>

theorem thread_fork_starts:
  assumes "bare s0" "0 < t" "t < 2 ^ 32" "reaches (snd (boot t name w s0)) s"
    and "enabled c (Fork nm proc e d1 d2 nt kstrdup_ok got_stack) s"
  shows "case (if kstrdup_ok \<and> got_stack then nt else None) of
      None \<Rightarrow> \<exists>s'. kstep c (Fork nm proc e d1 d2 nt kstrdup_ok got_stack) s = (Err ENOMEM, s') \<and> k_threads s' = k_threads s \<and>
        (\<forall>c' < ncpu s. runq s' c' = runq s c') \<and> (\<forall>v \<in> dom (k_wchans s). sleepers s' v = sleepers s v) \<and> k_sems s' = k_sems s \<and>
        k_wchans s' = k_wchans s \<and> at s' (curth s c) (Running c)
    | Some u \<Rightarrow> \<exists>s' q. kstep c (Fork nm proc e d1 d2 nt kstrdup_ok got_stack) s = (Ok (), s') \<and>
        k_threads s' = (k_threads s)(u \<mapsto> child nm c q e d1 d2) \<and> (if proc = None then snd (tview s (curth s c)) else proc) = Some q \<and>
        (\<forall>c' < ncpu s. runq s' c' = (if c' = c then runq s c @ [u] else runq s c')) \<and> (\<forall>v \<in> dom (k_wchans s). sleepers s' v = sleepers s v) \<and>
        k_sems s' = k_sems s \<and> k_wchans s' = k_wchans s \<and> at s' (curth s c) (Running c)"
  by (rule fork_effect [OF reach_sound [OF assms(1-4)] assms(5)])

theorem thread_fork_starts_witness:
  "\<exists>s s' q. at s 1 (Running 0) \<and> kstep 0 (Fork ''a'' None 7 0 0 (Some 2) True True) s = (Ok (), s') \<and>
     k_threads s' 2 = Some (child ''a'' 0 q 7 0 0) \<and> runq s' 0 = [2]"
proof -
  obtain s1 s where s: "boot 1 ''cpu0'' 1 tiny = (Ok (), s1)" "reaches s1 s" "enabled 0 (Fork ''a'' None 7 0 0 (Some 2) True True) s"
      "runq s 0 = []" "curth s 0 = 1"
    using example_run by blast
  then have r: "reaches (snd (boot 1 ''cpu0'' 1 tiny)) s" by simp
  have "at s 1 (Running 0)" "0 < ncpu s" using s(3,5) by (simp_all add: enabled_def)
  moreover obtain s' q where "kstep 0 (Fork ''a'' None 7 0 0 (Some 2) True True) s = (Ok (), s')"
      "k_threads s' = (k_threads s)(2 \<mapsto> child ''a'' 0 q 7 0 0)" "\<forall>c' < ncpu s. runq s' c' = (if c' = 0 then runq s 0 @ [2] else runq s c')"
    using thread_fork_starts [OF bare_tiny _ _ r s(3)] by auto
  ultimately show ?thesis using s(4) by (intro exI [of _ s] exI [of _ s'] exI [of _ q]) simp
qed

end
