(* ===== verification/Spec2Isabelle.thy ===== *)
theory Spec2Isabelle
  imports Os161_Prelude Libc_String Libc_Printf Lib_Array Lib_Bitmap Vm_Copyinout Lib_Uio Dev_Lhd Vfs_Vnode
    Sfs_Disk Sfs_Base Sfs_Bmap Sfs_Trunc Sfs_Io Sfs_Write Sfs_Inode Sfs_Volume Sfs_Objects Sfs_Dir Sfs_Names Sfs_Fsops Vfs_Fail Sfs_Vnops Sfs_Namespace Sfs_Nameops Sfs_Files Sfs_Sync Sfs_Calls Sfs_Demo Sfs_Properties
    Kern_Threadlist Kern_Spinlock Kern_Thread Kern_Synch Kern_Inv Kern_Ops Kern_Calls Kern_Steps Kern_Wake Kern_Irq Kern_Boot
    Kern_Sched Kern_Reach Kern_Properties
begin

text \<open>
  A verification of parts of OS/161, a small operating system in C for a simulated MIPS machine
  (\<open>src/os161\<close>). Two large parts of the kernel are modelled from top to bottom, with the libraries
  they stand on: the simple file system SFS, from the calls of the VFS layer down to the disk driver,
  and the thread system, from semaphores and the clock down to linked lists and spinlocks.

  \<^bold>\<open>How the code is modelled.\<close> A C function is a function from a state to an outcome and a state
  (\<open>kfun\<close> in \<open>Os161_Prelude\<close>). The outcome is a result (\<open>Ok\<close>), an error code that is returned (\<open>Err\<close>),
  a panic or failed \<open>KASSERT\<close> (\<open>Panic\<close>; so is following a null or dangling pointer, and leaving a
  buffer), or not returning (\<open>Hang\<close>). The structures of the source are records, with the names of the
  source; unsigned arithmetic that can wrap is on 32-bit words, or on numbers with the wrap written
  out. Loops are recursive functions; one that might not end is a partial function, and
  that it ends is shown (or, for \<open>array_preallocate\<close>, that it does not). No operation
  has fuel; only \<open>threads_on\<close>, which reads a list for the statements, takes as many steps as its count.
  Statements are about \<open>wp m Q E s\<close>: \<open>m\<close>, started in \<open>s\<close>, returns, with a result and state in
  \<open>Q\<close> or an error and state in \<open>E\<close>; this is total correctness. \<open>runs\<close> and the interface \<open>safe_calls\<close> are
  for sequences of calls. Memory allocation, the failures of the disk and faults of user addresses
  are arguments or part of the state, and statements hold for all of them unless they say otherwise.

  \<^bold>\<open>Libraries.\<close>
  \<^item> \<open>Libc_String\<close>, \<open>Libc_Printf\<close>: \<open>common/libc\<close>. String functions on byte memory, where overlap matters;
    the formatter of \<open>__printf.c\<close> with its number buffer, \<open>snprintf\<close>, \<open>atoi\<close>. Shown: what they compute,
    that they stay in their buffers, and that \<open>atoi\<close> reads what \<open>%d\<close> prints. \<open>printf_sim\<close> is the interface
    between the formatter and the function it sends its output to.
  \<^item> \<open>Lib_Array\<close>, \<open>Lib_Bitmap\<close>, \<open>Lib_Uio\<close>: \<open>kern/lib\<close>. Arrays refine lists, bitmaps hand out the lowest free
    bit (interface \<open>storage_map\<close>), \<open>uiomove\<close> moves bytes. \<open>Vm_Copyinout\<close>: \<open>kern/vm/copyinout.c\<close>, which never
    touches memory of the kernel for the user.

  \<^bold>\<open>The file system.\<close>
  \<^item> \<open>Dev_Lhd\<close> (\<open>kern/dev/lamebus/lhd.c\<close>) drives a disk whose failures are a script. \<open>Vfs_Vnode\<close>, \<open>Vfs_Fail\<close>
    (\<open>kern/vfs\<close>): vnodes and their counts, the big lock, operations that fail. The count of a vnode is
    an \<open>int\<close> that \<open>vnode_incref\<close> does not bound; the model adds without bound, and \<open>Sfs_Calls\<close> shows the count
    to stay in range for callers that keep below \<open>INT_MAX\<close>. \<open>uio_offset\<close> and the depth of the big lock are
    numbers without a bound as well.
  \<^item> \<open>Sfs_Disk\<close>, \<open>Sfs_Base\<close>, \<open>Sfs_Bmap\<close>, \<open>Sfs_Trunc\<close>, \<open>Sfs_Io\<close>, \<open>Sfs_Write\<close>, \<open>Sfs_Inode\<close>, \<open>Sfs_Dir\<close>, \<open>Sfs_Fsops\<close>, \<open>Sfs_Vnops\<close>:
    the files of \<open>kern/fs/sfs\<close>, function by function, over the state \<open>sfs_fs\<close>, which holds \<open>struct sfs_fs\<close>, the
    vnodes in memory and the disk. \<open>block_store\<close> is the interface to the disk, with a block read back as
    it was written, \<open>file_io\<close> the one between \<open>sfs_io\<close> and its block routines, for reading and writing.
  \<^item> \<open>Sfs_Volume\<close>, \<open>Sfs_Objects\<close>, \<open>Sfs_Names\<close>, \<open>Sfs_Namespace\<close>, \<open>Sfs_Nameops\<close>, \<open>Sfs_Files\<close>, \<open>Sfs_Sync\<close>, \<open>Sfs_Calls\<close>: the
    invariant. \<open>vol_ok\<close>: every block in use has one owner, the free map marks exactly those, vnodes in
    memory and inodes on the disk agree. \<open>ns_ok\<close>: the entries of the root directory and the link counts
    agree, too. Abstractly a volume is a map from names to inodes (\<open>fmap\<close>) and their contents, and the
    calls of the VFS layer refine operations on it.
  \<^item> \<open>Sfs_Properties\<close> states this for the calls, with \<open>Sfs_Demo\<close> as an example volume. Shown: any sequence of calls keeps
    a volume sound and never panics; what each call does to names and contents, on errors as well; that
    what is synced is found by the next mount; and the faults of the source: failed writes that are
    reported as done, a block that truncation forgets. Volumes have at most \<open>2^23\<close> blocks, as \<open>sfs_blockio\<close>
    multiplies in 32 bits; writes start no further than the end of the file and
    stay within the largest file, and truncation does not extend. The disk does not fail
    except where a statement says so.

  \<^bold>\<open>The thread system.\<close>
  \<^item> \<open>Kern_Threadlist\<close> (\<open>kern/thread/threadlist.c\<close>): doubly linked lists over a store of nodes refine HOL
    lists; \<open>thread_deque\<close> is what clients use. \<open>Kern_Spinlock\<close> (\<open>spl.c\<close>, \<open>spinlock.c\<close>): interrupt levels and
    spinlocks. A lock that is taken is not released by anybody else within an operation, so spinning on
    it is \<open>Hang\<close>. The \<open>DEBUGASSERT\<close>s, which \<open>lib.h\<close> compiles out, are left out.
  \<^item> \<open>Kern_Thread\<close> (\<open>thread.c\<close>, the thread part of \<open>proc.c\<close>), \<open>Kern_Synch\<close> (semaphores of \<open>synch.c\<close>, \<open>clock.c\<close>, the interrupt
    branch of \<open>mips_trap\<close>) over the state \<open>machine\<close>: all threads, processors, lists, locks, semaphores,
    processes. A call that gives up the processor ends there; what remains of it are frames in
    \<open>t_context\<close>, which \<open>go_on\<close> takes up when the thread runs again.
  \<^item> \<open>Kern_Inv\<close>, \<open>Kern_Ops\<close>, \<open>Kern_Calls\<close>, \<open>Kern_Steps\<close>, \<open>Kern_Wake\<close>, \<open>Kern_Irq\<close>, \<open>Kern_Boot\<close>: the invariant \<open>kinv\<close> in the middle of an
    operation, \<open>okay\<close> between operations, and that every function keeps them.
  \<^item> \<open>Kern_Sched\<close>, \<open>Kern_Reach\<close>, \<open>Kern_Properties\<close>: the processors take turns; a step (\<open>kstep\<close>) is a call of a running
    thread, the resumption of one, an interrupt, or an idle processor looking at its run queue. Shown of
    every reachable state, from \<open>boot\<close> on: every step returns; each thread is in one place and its fields
    agree; wakeups are not lost; what \<open>P\<close>, \<open>V\<close>, \<open>thread_yield\<close> and \<open>thread_fork\<close> do. Operations of different
    processors are not interleaved below this level, and a \<open>V\<close> past the largest count is excluded.

  \<^bold>\<open>Not modelled.\<close> The kernel heap, address spaces and programs (mostly unwritten in the source), path
  lookup and device tables of the VFS, \<open>semfs\<close>, sleep locks and condition variables (unwritten; the big
  lock uses a lock that does nothing, as in the source), the deadlock detector, system call dispatch, \<open>thread_panic\<close>,
  \<open>thread_shutdown\<close> and \<open>thread_start_cpus\<close>; the drivers of other devices and the assembly (pure I/O and machine
  code); the routines the compiler calls for 64-bit arithmetic; the menu, tests, userland and build scripts.
\<close>

end
